(* ===== verification/Prelude.thy ===== *)
theory Prelude
  imports Main Complex_Main "HOL-Library.Word" "HOL-Library.AList"
begin

section \<open>Prelude: shared types, byte codecs, memory and list lemmas\<close>

text \<open>
  The vocabulary the component theories share: the names of the model's basic types, the
  exceptions of the Python runtime as a datatype, the big-endian integer codec that
  \<^verbatim>\<open>struct.pack("!...")\<close> performs, a flat byte memory with the two operations
  \<^verbatim>\<open>pack_into\<close> / slice assignment and \<^verbatim>\<open>unpack_from\<close> / slice reading, and
  generic lemmas on lists and association lists. Facts that the component proofs use as
  rewrite rules are collected in \<open>codec_simps\<close> and \<open>mem_simps\<close>.
\<close>

named_theorems codec_simps \<open>lengths and round trips of the integer codecs\<close>
named_theorems mem_simps \<open>reads over writes of the flat byte memory\<close>

type_synonym byte = "8 word"
type_synonym bytes = "byte list"

text \<open>Python floats that hold seconds are only compared, added and subtracted in the modelled
  code; they are exact rationals here (rounding is not modelled).\<close>

type_synonym seconds = rat

text \<open>The exceptions of the Python runtime that the modelled code can raise.\<close>

datatype py_error =
    ValueError
  | StructError
  | ZeroDivisionError
  | KeyError
  | IndexError
  | TypeError
  | IntegrityError

subsection \<open>Big-endian integers (\<^verbatim>\<open>struct\<close> codes B, H, I, Q)\<close>

fun be_bytes :: "nat \<Rightarrow> nat \<Rightarrow> bytes" where
  "be_bytes 0 v = []"
| "be_bytes (Suc k) v = be_bytes k (v div 256) @ [of_nat (v mod 256)]"

definition be_val :: "bytes \<Rightarrow> nat" where
  "be_val bs = foldl (\<lambda>a b. a * 256 + unat b) 0 bs"

text \<open>\<^verbatim>\<open>struct.pack\<close> of one unsigned field of \<open>k\<close> bytes raises when the value does not fit.\<close>

definition pack_uint :: "nat \<Rightarrow> nat \<Rightarrow> py_error + bytes" where
  "pack_uint k v = (if v < 256 ^ k then Inr (be_bytes k v) else Inl StructError)"

lemma be_val_Nil [simp]: "be_val [] = 0"
  by (simp add: be_val_def)

lemma be_val_snoc [simp]: "be_val (bs @ [b]) = be_val bs * 256 + unat b"
  by (simp add: be_val_def)

lemma length_be_bytes [simp, codec_simps]: "length (be_bytes k v) = k"
  by (induction k arbitrary: v) auto

lemma unat_of_nat_byte: "unat (of_nat (v mod 256) :: byte) = v mod 256"
  by (simp add: unat_of_nat)

lemma be_val_be_bytes [codec_simps]: "v < 256 ^ k \<Longrightarrow> be_val (be_bytes k v) = v"
proof (induction k arbitrary: v)
  case 0
  then show ?case by simp
next
  case (Suc k)
  then have "v div 256 < 256 ^ k"
    by (simp add: less_mult_imp_div_less mult.commute)
  then have "be_val (be_bytes k (v div 256)) = v div 256"
    by (rule Suc.IH)
  then show ?case by (simp add: unat_of_nat_byte)
qed

lemma be_val_less: "be_val bs < 256 ^ length bs"
proof (induction bs rule: rev_induct)
  case Nil
  then show ?case by simp
next
  case (snoc b bs)
  have "unat b < 256" using unsigned_less [of b] by simp
  with snoc show ?case by simp
qed

lemma be_bytes_be_val: "be_bytes (length bs) (be_val bs) = bs"
proof (induction bs rule: rev_induct)
  case Nil
  then show ?case by simp
next
  case (snoc b bs)
  have "unat b < 256" using unsigned_less [of b] by simp
  then have "(be_val bs * 256 + unat b) div 256 = be_val bs"
    and "(be_val bs * 256 + unat b) mod 256 = unat b" by simp_all
  with snoc show ?case by simp
qed

lemma be_bytes_inject:
  "v < 256 ^ k \<Longrightarrow> w < 256 ^ k \<Longrightarrow> be_bytes k v = be_bytes k w \<longleftrightarrow> v = w"
  by (metis be_val_be_bytes)

subsection \<open>A flat byte memory\<close>

definition read_at :: "nat \<Rightarrow> nat \<Rightarrow> bytes \<Rightarrow> bytes" where
  "read_at off n m = take n (drop off m)"

definition write_at :: "nat \<Rightarrow> bytes \<Rightarrow> bytes \<Rightarrow> bytes" where
  "write_at off bs m = take off m @ bs @ drop (off + length bs) m"

lemma length_write_at [simp, mem_simps]:
  "off + length bs \<le> length m \<Longrightarrow> length (write_at off bs m) = length m"
  by (simp add: write_at_def)

lemma length_read_at [simp, mem_simps]:
  "off + n \<le> length m \<Longrightarrow> length (read_at off n m) = n"
  by (simp add: read_at_def)

lemma read_at_write_same [mem_simps]:
  "off + length bs \<le> length m \<Longrightarrow> n = length bs \<Longrightarrow> read_at off n (write_at off bs m) = bs"
  by (simp add: read_at_def write_at_def)

lemma read_at_write_prefix:
  "off + length bs \<le> length m \<Longrightarrow> n \<le> length bs \<Longrightarrow> read_at off n (write_at off bs m) = take n bs"
  by (simp add: read_at_def write_at_def)

lemma read_at_write_overlap:
  "off + length bs \<le> length m \<Longrightarrow> length bs \<le> n \<Longrightarrow>
   read_at off n (write_at off bs m) = bs @ drop (length bs) (read_at off n m)"
  by (simp add: read_at_def write_at_def drop_take add.commute)

lemma read_at_write_suffix:
  "off + length bs \<le> length m \<Longrightarrow> k \<le> length bs \<Longrightarrow> n = length bs - k \<Longrightarrow>
   read_at (off + k) n (write_at off bs m) = drop k bs"
  by (simp add: read_at_def write_at_def)

lemma read_at_write_below [mem_simps]:
  assumes "i + n \<le> off" "off + length bs \<le> length m"
  shows "read_at i n (write_at off bs m) = read_at i n m"
proof -
  have "take n (drop i (take off m @ bs @ drop (off + length bs) m)) = take n (drop i (take off m))"
    using assms by (simp add: drop_take)
  also have "\<dots> = take n (drop i m)"
    using assms by (simp add: drop_take min_def)
  finally show ?thesis by (simp add: read_at_def write_at_def)
qed

lemma read_at_write_above [mem_simps]:
  assumes "off + length bs \<le> i" "off + length bs \<le> length m"
  shows "read_at i n (write_at off bs m) = read_at i n m"
proof -
  have "drop i (take off m @ bs @ drop (off + length bs) m) = drop i m"
    using assms by simp
  then show ?thesis by (simp add: read_at_def write_at_def)
qed

lemma read_at_append: "i + n \<le> length m \<Longrightarrow> read_at i n (m @ c) = read_at i n m"
  by (simp add: read_at_def)

lemma read_at_update:
  "i < off \<or> off + n \<le> i \<Longrightarrow> read_at off n (m[i := x]) = read_at off n m"
  by (auto simp: read_at_def drop_update_cancel drop_update_swap take_update_cancel)

subsection \<open>Python helpers: rounding, dictionaries of counters, searching\<close>

text \<open>\<^verbatim>\<open>round\<close> of Python: half to even.\<close>

definition py_round :: "rat \<Rightarrow> int" where
  "py_round x = (let f = \<lfloor>x\<rfloor>; d = x - of_int f in
     if d < 1 / 2 then f else if d > 1 / 2 then f + 1 else if even f then f else f + 1)"

text \<open>\<^verbatim>\<open>d.get(k, 0)\<close> of a dictionary kept as an association list.\<close>

definition dict_get :: "('k \<times> int) list \<Rightarrow> 'k \<Rightarrow> int" where
  "dict_get d k = (case map_of d k of None \<Rightarrow> 0 | Some q \<Rightarrow> q)"

lemma dict_get_Nil [simp]: "dict_get [] k = 0"
  by (simp add: dict_get_def)

lemma dict_get_update [simp]: "dict_get (AList.update k v d) k' = (if k' = k then v else dict_get d k')"
  by (simp add: dict_get_def update_conv')

lemma dict_get_absent: "k \<notin> fst ` set d \<Longrightarrow> dict_get d k = 0"
  by (simp add: dict_get_def map_of_eq_None_iff [THEN iffD2])

lemma find_map_None: "find P xs = None \<longleftrightarrow> (\<forall>x \<in> set xs. \<not> P x)"
  by (induction xs) auto

lemma find_SomeD: "find P xs = Some x \<Longrightarrow> x \<in> set xs \<and> P x"
  by (induction xs) (auto split: if_splits)

lemma find_snoc_None: "find P xs = None \<Longrightarrow> find P (xs @ [x]) = (if P x then Some x else None)"
  by (induction xs) (auto split: if_splits)

end
