(* ===== verification/RingBuffer.thy ===== *)
theory RingBuffer
  imports Prelude
begin

section \<open>The shared-memory ring buffer\<close>

text \<open>
  Models \<^verbatim>\<open>src/mdfeed/ringbuffer.py\<close>: a single-producer, multi-consumer broadcast ring in one
  flat shared-memory segment. The segment is a byte list; every \<^verbatim>\<open>pack_into\<close>,
  \<^verbatim>\<open>unpack_from\<close> and slice assignment of the source is one \<open>write_at\<close> or \<open>read_at\<close>
  at the source's offset. The second half models the producer and a reader as two processes
  whose memory accesses interleave.
\<close>

subsection \<open>Layout and construction\<close>

definition HDR_SIZE :: nat where "HDR_SIZE = 64"
definition SLOT_HDR :: nat where "SLOT_HDR = 12"
definition SLOT_TAIL :: nat where "SLOT_TAIL = 8"
definition RB_MAGIC :: bytes where "RB_MAGIC = [0x4D, 0x44, 0x52, 0x42]"

lemmas layout_defs = HDR_SIZE_def SLOT_HDR_def SLOT_TAIL_def RB_MAGIC_def

record ring =
  buf :: bytes
  capacity :: nat
  slot_size :: nat
  payload_max :: int

definition ring_header :: "nat \<Rightarrow> nat \<Rightarrow> bytes" where
  "ring_header ss cap = RB_MAGIC @ be_bytes 4 ss @ be_bytes 4 cap @ be_bytes 4 0
     @ be_bytes 8 0 @ be_bytes 8 0 @ be_bytes 8 0"

text \<open>\<^verbatim>\<open>RingBuffer(name, capacity, slot_size, create=True)\<close>: a fresh zeroed segment.\<close>

definition ring_create :: "nat \<Rightarrow> nat \<Rightarrow> py_error + ring" where
  "ring_create cap ss =
     (let pm = int ss - int SLOT_HDR - int SLOT_TAIL in
      if pm \<le> 0 then Inl ValueError
      else if 256 ^ 4 \<le> ss \<or> 256 ^ 4 \<le> cap then Inl StructError
      else Inr \<lparr>buf = write_at 0 (ring_header ss cap) (replicate (HDR_SIZE + cap * ss) 0),
                capacity = cap, slot_size = ss, payload_max = pm\<rparr>)"

text \<open>\<^verbatim>\<open>create=False\<close>: attach to the bytes of an existing segment.\<close>

definition ring_attach :: "bytes \<Rightarrow> nat \<Rightarrow> py_error + ring" where
  "ring_attach m ss0 =
     (if int ss0 - int SLOT_HDR - int SLOT_TAIL \<le> 0 then Inl ValueError
      else if length m < 40 then Inl StructError
      else if read_at 0 4 m \<noteq> RB_MAGIC then Inl ValueError
      else let ss = be_val (read_at 4 4 m); cap = be_val (read_at 8 4 m) in
        Inr \<lparr>buf = m, capacity = cap, slot_size = ss,
             payload_max = int ss - int SLOT_HDR - int SLOT_TAIL\<rparr>)"

definition write_seq :: "ring \<Rightarrow> nat" where
  "write_seq r = be_val (read_at 16 8 (buf r))"

definition rb_dropped :: "ring \<Rightarrow> nat" where
  "rb_dropped r = be_val (read_at 32 8 (buf r))"

definition set_write_seq :: "ring \<Rightarrow> nat \<Rightarrow> py_error + ring" where
  "set_write_seq r v =
     (if v < 256 ^ 8 then Inr (r\<lparr>buf := write_at 16 (be_bytes 8 v) (buf r)\<rparr>) else Inl StructError)"

definition slot_off :: "ring \<Rightarrow> nat \<Rightarrow> nat" where
  "slot_off r seq = HDR_SIZE + (seq mod capacity r) * slot_size r"

subsection \<open>Producer\<close>

text \<open>The three writes into a slot, in the order of \<^verbatim>\<open>push\<close>: header, payload, tail.\<close>

definition put_head :: "ring \<Rightarrow> nat \<Rightarrow> nat \<Rightarrow> ring" where
  "put_head r seq n = r\<lparr>buf := write_at (slot_off r seq) (be_bytes 8 seq @ be_bytes 4 n) (buf r)\<rparr>"

definition put_data :: "ring \<Rightarrow> nat \<Rightarrow> bytes \<Rightarrow> ring" where
  "put_data r seq p = r\<lparr>buf := write_at (slot_off r seq + SLOT_HDR) p (buf r)\<rparr>"

definition put_tail :: "ring \<Rightarrow> nat \<Rightarrow> ring" where
  "put_tail r seq =
     r\<lparr>buf := write_at (slot_off r seq + slot_size r - SLOT_TAIL) (be_bytes 8 seq) (buf r)\<rparr>"

definition push :: "ring \<Rightarrow> bytes \<Rightarrow> ring \<times> (py_error + nat)" where
  "push r payload =
     (if int (length payload) > payload_max r then (r, Inl ValueError)
      else if capacity r = 0 then (r, Inl ZeroDivisionError)
      else let seq = write_seq r;
               r3 = put_tail (put_data (put_head r seq (length payload)) seq payload) seq
        in case set_write_seq r3 (seq + 1) of
             Inl e \<Rightarrow> (r3, Inl e)
           | Inr r4 \<Rightarrow> (r4, Inr seq))"

fun push_all :: "ring \<Rightarrow> bytes list \<Rightarrow> ring" where
  "push_all r [] = r"
| "push_all r (p # ps) = push_all (fst (push r p)) ps"

subsection \<open>Consumer\<close>

record reader =
  cursor :: nat
  skipped :: nat
  torn :: nat

definition new_reader :: "ring \<Rightarrow> nat option \<Rightarrow> reader" where
  "new_reader r start =
     \<lparr>cursor = (case start of None \<Rightarrow> write_seq r | Some s \<Rightarrow> s), skipped = 0, torn = 0\<rparr>"

definition get_head :: "ring \<Rightarrow> nat \<Rightarrow> nat \<times> nat" where
  "get_head r seq = (be_val (read_at (slot_off r seq) 8 (buf r)),
                     be_val (read_at (slot_off r seq + 8) 4 (buf r)))"

definition get_data :: "ring \<Rightarrow> nat \<Rightarrow> nat \<Rightarrow> bytes" where
  "get_data r seq n = read_at (slot_off r seq + SLOT_HDR) n (buf r)"

definition get_tail :: "ring \<Rightarrow> nat \<Rightarrow> nat" where
  "get_tail r seq = be_val (read_at (slot_off r seq + slot_size r - SLOT_TAIL) 8 (buf r))"

text \<open>The jump of an overrun reader to the oldest slot that can still be there.\<close>

definition catch_up :: "ring \<Rightarrow> reader \<Rightarrow> nat \<Rightarrow> reader" where
  "catch_up r rd ws =
     (let behind = int ws - int (cursor rd) in
      if behind > int (capacity r)
      then rd\<lparr>skipped := skipped rd + nat (behind - int (capacity r)), cursor := ws - capacity r\<rparr>
      else rd)"

function poll_loop :: "ring \<Rightarrow> nat \<Rightarrow> nat \<Rightarrow> reader \<Rightarrow> bytes list \<Rightarrow> reader \<times> bytes list" where
  "poll_loop r ws mx rd out =
     (if cursor rd < ws \<and> length out < mx then
        let seq = cursor rd; (head, n) = get_head r seq in
        if head \<noteq> seq \<or> int n > payload_max r
        then poll_loop r ws mx (rd\<lparr>torn := torn rd + 1, cursor := cursor rd + 1\<rparr>) out
        else let data = get_data r seq n in
          if get_tail r seq \<noteq> seq
          then poll_loop r ws mx (rd\<lparr>torn := torn rd + 1, cursor := cursor rd + 1\<rparr>) out
          else poll_loop r ws mx (rd\<lparr>cursor := cursor rd + 1\<rparr>) (out @ [data])
      else (rd, out))"
  by pat_completeness auto
termination
  by (relation "measure (\<lambda>(r, ws, mx, rd, out). ws - cursor rd)") auto

declare poll_loop.simps [simp del]

definition poll :: "ring \<Rightarrow> nat \<Rightarrow> reader \<Rightarrow> reader \<times> bytes list" where
  "poll r mx rd = poll_loop r (write_seq r) mx (catch_up r rd (write_seq r)) []"

record ring_stats =
  st_cursor :: nat
  st_write_seq :: nat
  st_backlog :: int
  st_skipped :: nat
  st_torn :: nat

definition reader_stats :: "ring \<Rightarrow> reader \<Rightarrow> ring_stats" where
  "reader_stats r rd = \<lparr>st_cursor = cursor rd, st_write_seq = write_seq r,
     st_backlog = int (write_seq r) - int (cursor rd), st_skipped = skipped rd, st_torn = torn rd\<rparr>"

subsection \<open>Well-formed segments and the history they represent\<close>

definition ring_wf :: "ring \<Rightarrow> bool" where
  "ring_wf r \<longleftrightarrow> 0 < capacity r \<and> slot_size r < 256 ^ 4
     \<and> payload_max r = int (slot_size r) - 20 \<and> 0 < payload_max r
     \<and> HDR_SIZE + capacity r * slot_size r \<le> length (buf r)"

text \<open>The slot of \<open>seq\<close> holds payload \<open>p\<close> between two copies of \<open>seq\<close>.\<close>

definition slot_holds :: "ring \<Rightarrow> nat \<Rightarrow> bytes \<Rightarrow> bool" where
  "slot_holds r seq p \<longleftrightarrow> get_head r seq = (seq, length p) \<and> get_data r seq (length p) = p
     \<and> get_tail r seq = seq \<and> int (length p) \<le> payload_max r"

text \<open>The ring represents the list of all payloads ever pushed: the last \<open>capacity\<close> of them are
  in their slots.\<close>

definition represents :: "ring \<Rightarrow> bytes list \<Rightarrow> bool" where
  "represents r hist \<longleftrightarrow> ring_wf r \<and> write_seq r = length hist \<and>
     (\<forall>i < length hist. length hist \<le> i + capacity r \<longrightarrow> slot_holds r i (hist ! i))"

lemmas slot_ops = put_head_def put_data_def put_tail_def get_head_def get_data_def get_tail_def

lemma slot_off_cong:
  "capacity r = capacity r' \<Longrightarrow> slot_size r = slot_size r' \<Longrightarrow> slot_off r i = slot_off r' i"
  by (simp add: slot_off_def)

lemma slot_off_update [simp]: "slot_off (r\<lparr>buf := b\<rparr>) i = slot_off r i"
  by (simp add: slot_off_def)

lemma slot_in_range:
  assumes "ring_wf r"
  shows "slot_off r seq + slot_size r \<le> length (buf r)" "64 \<le> slot_off r seq" "20 < slot_size r"
proof -
  have "seq mod capacity r < capacity r" using assms by (simp add: ring_wf_def)
  then have "(seq mod capacity r + 1) * slot_size r \<le> capacity r * slot_size r"
    by (intro mult_right_mono) simp_all
  then show "slot_off r seq + slot_size r \<le> length (buf r)"
    using assms by (simp add: ring_wf_def slot_off_def algebra_simps)
  show "64 \<le> slot_off r seq" by (simp add: slot_off_def HDR_SIZE_def)
  show "20 < slot_size r" using assms by (simp add: ring_wf_def)
qed

text \<open>Slots of different residues do not overlap.\<close>

lemma slots_disjoint:
  assumes "i mod capacity r \<noteq> j mod capacity r"
  shows "slot_off r i + slot_size r \<le> slot_off r j \<or> slot_off r j + slot_size r \<le> slot_off r i"
proof (cases "i mod capacity r < j mod capacity r")
  case True
  then have "(i mod capacity r + 1) * slot_size r \<le> (j mod capacity r) * slot_size r"
    by (intro mult_right_mono) simp_all
  then show ?thesis by (simp add: slot_off_def algebra_simps)
next
  case False
  with assms have "j mod capacity r + 1 \<le> i mod capacity r" by simp
  then have "(j mod capacity r + 1) * slot_size r \<le> (i mod capacity r) * slot_size r"
    by (intro mult_right_mono) simp_all
  then show ?thesis by (simp add: slot_off_def algebra_simps)
qed

text \<open>Writing anywhere outside a slot keeps what the slot holds.\<close>

lemma slot_holds_frame:
  assumes wf: "ring_wf r" and sh: "slot_holds r i p"
    and out: "off + length bs \<le> slot_off r i \<or> slot_off r i + slot_size r \<le> off"
    and inr: "off + length bs \<le> length (buf r)"
  shows "slot_holds (r\<lparr>buf := write_at off bs (buf r)\<rparr>) i p"
proof -
  have ss: "20 < slot_size r" and so: "slot_off r i + slot_size r \<le> length (buf r)"
    using slot_in_range [OF wf] by auto
  have pl: "length p + 20 \<le> slot_size r"
    using sh wf by (simp add: slot_holds_def ring_wf_def)
  have rd: "read_at (slot_off r i + a) n (write_at off bs (buf r)) = read_at (slot_off r i + a) n (buf r)"
    if "a + n \<le> slot_size r" for a n
    using out
  proof
    assume "off + length bs \<le> slot_off r i"
    then show ?thesis using inr by (intro read_at_write_above) simp_all
  next
    assume "slot_off r i + slot_size r \<le> off"
    then show ?thesis using inr that by (intro read_at_write_below) simp_all
  qed
  have h: "read_at (slot_off r i) 8 (write_at off bs (buf r)) = read_at (slot_off r i) 8 (buf r)"
    using rd [of 0 8] ss by simp
  have n: "read_at (slot_off r i + 8) 4 (write_at off bs (buf r)) = read_at (slot_off r i + 8) 4 (buf r)"
    using rd [of 8 4] ss by simp
  have d: "read_at (slot_off r i + 12) (length p) (write_at off bs (buf r))
      = read_at (slot_off r i + 12) (length p) (buf r)"
    using rd [of 12 "length p"] pl by simp
  have t: "read_at (slot_off r i + slot_size r - 8) 8 (write_at off bs (buf r))
      = read_at (slot_off r i + slot_size r - 8) 8 (buf r)"
    using rd [of "slot_size r - 8" 8] ss by simp
  from sh show ?thesis
    unfolding slot_holds_def get_head_def get_data_def get_tail_def SLOT_HDR_def SLOT_TAIL_def
    by (simp add: h n d t)
qed


subsection \<open>A push appends to the history\<close>

lemma mod_neq_within:
  fixes i j c :: nat
  assumes "i < j" "j < i + c"
  shows "i mod c \<noteq> j mod c"
proof
  assume "i mod c = j mod c"
  then have "c dvd j - i" using assms(1) by (metis mod_eq_dvd_iff_nat less_imp_le)
  with assms show False by (auto dest!: dvd_imp_le)
qed

lemma ring_wf_update:
  "ring_wf r \<Longrightarrow> length b = length (buf r) \<Longrightarrow> ring_wf (r\<lparr>buf := b\<rparr>)"
  by (simp add: ring_wf_def)

text \<open>The three slot writes as one memory, and what a reader of that slot then sees.\<close>

definition slot_written :: "ring \<Rightarrow> nat \<Rightarrow> bytes \<Rightarrow> ring" where
  "slot_written r seq p = put_tail (put_data (put_head r seq (length p)) seq p) seq"

lemma slot_written_fields [simp]:
  "capacity (slot_written r seq p) = capacity r" "slot_size (slot_written r seq p) = slot_size r"
  "payload_max (slot_written r seq p) = payload_max r"
  "slot_off (slot_written r seq p) i = slot_off r i"
  by (simp_all add: slot_written_def slot_ops slot_off_def)

lemma slot_written_wf:
  assumes "ring_wf r" "int (length p) \<le> payload_max r"
  shows "ring_wf (slot_written r seq p)" "length (buf (slot_written r seq p)) = length (buf r)"
proof -
  have "length p + 20 \<le> slot_size r" using assms by (simp add: ring_wf_def)
  with slot_in_range(1,2) [OF assms(1), of seq] assms
  show "length (buf (slot_written r seq p)) = length (buf r)"
    by (simp add: slot_written_def slot_ops layout_defs)
  with assms(1) show "ring_wf (slot_written r seq p)" by (simp add: ring_wf_def)
qed

lemma slot_written_holds:
  assumes wf: "ring_wf r" and pm: "int (length p) \<le> payload_max r" and sq: "seq < 256 ^ 8"
  shows "slot_holds (slot_written r seq p) seq p"
proof -
  let ?o = "slot_off r seq" and ?ss = "slot_size r"
  have pl: "length p + 20 \<le> ?ss" and n4: "length p < 256 ^ 4" using wf pm by (auto simp: ring_wf_def)
  have rng: "?o + ?ss \<le> length (buf r)" using slot_in_range [OF wf] by blast
  let ?m1 = "write_at ?o (be_bytes 8 seq @ be_bytes 4 (length p)) (buf r)"
  let ?m2 = "write_at (?o + 12) p ?m1"
  let ?m3 = "write_at (?o + ?ss - 8) (be_bytes 8 seq) ?m2"
  have l1: "length ?m1 = length (buf r)" using rng pl by simp
  have l2: "length ?m2 = length (buf r)" using rng pl l1 by simp
  have b: "buf (slot_written r seq p) = ?m3"
    by (simp add: slot_written_def slot_ops layout_defs slot_off_def)
  have "read_at ?o 8 ?m3 = read_at ?o 8 ?m1"
    using rng pl l1 l2 by (simp add: read_at_write_below)
  then have h: "read_at ?o 8 ?m3 = be_bytes 8 seq"
    using rng pl by (simp add: read_at_write_prefix)
  have "read_at (?o + 8) 4 ?m3 = read_at (?o + 8) 4 ?m1"
    using rng pl l1 l2 by (simp add: read_at_write_below)
  then have n: "read_at (?o + 8) 4 ?m3 = be_bytes 4 (length p)"
    using rng pl by (simp add: read_at_write_suffix)
  have "read_at (?o + 12) (length p) ?m3 = read_at (?o + 12) (length p) ?m2"
    using rng pl l2 by (intro read_at_write_below) simp_all
  then have d: "read_at (?o + 12) (length p) ?m3 = p"
    using rng pl l1 by (simp add: read_at_write_same)
  have t: "read_at (?o + ?ss - 8) 8 ?m3 = be_bytes 8 seq"
    using rng pl l2 by (intro read_at_write_same) simp_all
  show ?thesis
    using pm sq n4
    by (simp add: slot_holds_def get_head_def get_data_def get_tail_def layout_defs b h n d t
        be_val_be_bytes)
qed

lemma slot_written_frame:
  assumes wf: "ring_wf r" and pm: "int (length p) \<le> payload_max r"
    and sh: "slot_holds r i q" and ne: "i mod capacity r \<noteq> seq mod capacity r"
  shows "slot_holds (slot_written r seq p) i q"
proof -
  let ?o = "slot_off r seq" and ?ss = "slot_size r" and ?oi = "slot_off r i"
  have pl: "length p + 20 \<le> ?ss" using wf pm by (auto simp: ring_wf_def)
  have rng: "?o + ?ss \<le> length (buf r)" using slot_in_range [OF wf] by blast
  have dj: "?o + ?ss \<le> ?oi \<or> ?oi + ?ss \<le> ?o" using slots_disjoint [OF ne] by blast
  let ?r1 = "put_head r seq (length p)" and ?r2 = "put_data (put_head r seq (length p)) seq p"
  have w1: "ring_wf ?r1" and l1: "length (buf ?r1) = length (buf r)"
    using wf rng pl by (simp_all add: put_head_def ring_wf_def)
  have w2: "ring_wf ?r2" and l2: "length (buf ?r2) = length (buf r)"
    using w1 l1 rng pl by (simp_all add: put_data_def put_head_def ring_wf_def layout_defs)
  have "slot_holds ?r1 i q" unfolding put_head_def
    by (rule slot_holds_frame [OF wf sh]) (use dj rng pl in auto)
  then have "slot_holds ?r2 i q" unfolding put_data_def [where r = ?r1]
    by (rule slot_holds_frame [OF w1]) (use dj rng pl l1 in \<open>auto simp: put_head_def layout_defs\<close>)
  then have "slot_holds (put_tail ?r2 seq) i q" unfolding put_tail_def
    by (rule slot_holds_frame [OF w2])
      (use dj rng pl l2 in \<open>auto simp: put_data_def put_head_def layout_defs\<close>)
  then show ?thesis by (simp add: slot_written_def)
qed

lemma push_represents:
  assumes rep: "represents r hist" and pm: "int (length p) \<le> payload_max r"
    and sq: "length hist + 1 < 256 ^ 8"
  shows "snd (push r p) = Inr (length hist)" "represents (fst (push r p)) (hist @ [p])"
    "capacity (fst (push r p)) = capacity r" "payload_max (fst (push r p)) = payload_max r"
proof -
  let ?n = "length hist"
  let ?r3 = "slot_written r ?n p"
  let ?r4 = "?r3\<lparr>buf := write_at 16 (be_bytes 8 (?n + 1)) (buf ?r3)\<rparr>"
  have wf: "ring_wf r" and ws: "write_seq r = ?n" using rep by (simp_all add: represents_def)
  have wf3: "ring_wf ?r3" by (rule slot_written_wf [OF wf pm])
  have len3: "64 \<le> length (buf ?r3)" using wf3 by (simp add: ring_wf_def layout_defs)
  have c: "0 < capacity r" using wf by (simp add: ring_wf_def)
  have P: "push r p = (?r4, Inr ?n)"
    using pm c ws sq by (simp add: push_def set_write_seq_def slot_written_def Let_def)
  have ws4: "write_seq ?r4 = ?n + 1"
    using len3 sq by (simp add: write_seq_def read_at_write_same be_val_be_bytes)
  have wf4: "ring_wf ?r4" using wf3 len3 by (intro ring_wf_update) simp_all
  have "slot_holds ?r4 i ((hist @ [p]) ! i)"
    if i: "i < ?n + 1" "?n + 1 \<le> i + capacity r" for i
  proof -
    have "slot_holds ?r3 i ((hist @ [p]) ! i)"
    proof (cases "i = ?n")
      case True
      then show ?thesis using slot_written_holds [OF wf pm] sq by simp
    next
      case False
      with i have lt: "i < ?n" by simp
      with i rep have "slot_holds r i (hist ! i)" by (simp add: represents_def)
      moreover have "i mod capacity r \<noteq> ?n mod capacity r"
        using lt i by (intro mod_neq_within) simp_all
      ultimately have "slot_holds ?r3 i (hist ! i)" by (rule slot_written_frame [OF wf pm])
      then show ?thesis using lt by (simp add: nth_append)
    qed
    then show ?thesis
      using slot_in_range(2) [OF wf3, of i] len3 by (intro slot_holds_frame [OF wf3]) simp_all
  qed
  with wf4 ws4 have R: "represents ?r4 (hist @ [p])" by (simp add: represents_def)
  from P R show "snd (push r p) = Inr ?n" "represents (fst (push r p)) (hist @ [p])"
    "capacity (fst (push r p)) = capacity r" "payload_max (fst (push r p)) = payload_max r" by simp_all
qed

lemma push_too_large: "int (length p) > payload_max r \<Longrightarrow> push r p = (r, Inl ValueError)"
  by (simp add: push_def)

lemma ring_create_represents:
  assumes "20 < ss" "ss < 256 ^ 4" "0 < cap" "cap < 256 ^ 4"
  obtains r where "ring_create cap ss = Inr r" "represents r []" "capacity r = cap"
    "payload_max r = int ss - 20"
proof -
  let ?m = "write_at 0 (ring_header ss cap) (replicate (64 + cap * ss) 0)"
  let ?r = "\<lparr>buf = ?m, capacity = cap, slot_size = ss, payload_max = int ss - 20\<rparr>"
  have c: "ring_create cap ss = Inr ?r" using assms by (simp add: ring_create_def layout_defs)
  have "read_at 16 8 (ring_header ss cap @ xs) = be_bytes 8 0" for xs
    by (simp add: ring_header_def read_at_def RB_MAGIC_def)
  then have "write_seq ?r = 0" by (simp add: write_seq_def write_at_def be_val_be_bytes)
  moreover have "ring_wf ?r"
    using assms by (simp add: ring_wf_def ring_header_def layout_defs)
  ultimately have "represents ?r []" by (simp add: represents_def)
  with c show thesis by (rule that) simp_all
qed

lemma push_all_represents:
  assumes "represents r hist" "\<forall>p \<in> set ps. int (length p) \<le> payload_max r"
    "length hist + length ps < 256 ^ 8"
  shows "represents (push_all r ps) (hist @ ps) \<and> capacity (push_all r ps) = capacity r"
  using assms
proof (induction ps arbitrary: r hist)
  case Nil
  then show ?case by simp
next
  case (Cons p ps)
  then have "int (length p) \<le> payload_max r" "length hist + 1 < 256 ^ 8" by simp_all
  note P = push_represents [OF Cons.prems(1) this]
  have "represents (push_all (fst (push r p)) ps) ((hist @ [p]) @ ps)
      \<and> capacity (push_all (fst (push r p)) ps) = capacity (fst (push r p))"
    using Cons.prems by (intro Cons.IH) (simp_all add: P)
  then show ?case using P(3) by simp
qed

subsection \<open>A poll returns the readable suffix of the history\<close>

lemma poll_loop_represents:
  assumes "represents r hist" "length hist \<le> cursor rd + capacity r" "cursor rd \<le> length hist"
  shows "poll_loop r (length hist) mx rd out =
    (rd\<lparr>cursor := cursor rd + min (length hist - cursor rd) (mx - length out)\<rparr>,
     out @ take (mx - length out) (drop (cursor rd) hist))"
  using assms
proof (induction r "length hist" mx rd out rule: poll_loop.induct)
  case (1 r mx rd out)
  let ?c = "cursor rd"
  show ?case
  proof (cases "?c < length hist \<and> length out < mx")
    case True
    then have sh: "slot_holds r ?c (hist ! ?c)" using "1.prems" by (simp add: represents_def)
    let ?rd = "rd\<lparr>cursor := ?c + 1\<rparr>" and ?out = "out @ [hist ! ?c]"
    have gh: "get_head r ?c = (?c, length (hist ! ?c))" and gt: "get_tail r ?c = ?c"
      and gd: "get_data r ?c (length (hist ! ?c)) = hist ! ?c"
      and pm: "\<not> int (length (hist ! ?c)) > payload_max r"
      using sh by (simp_all add: slot_holds_def)
    have step: "poll_loop r (length hist) mx rd out = poll_loop r (length hist) mx ?rd ?out"
      using True gh gt gd pm by (subst poll_loop.simps) (simp add: Let_def)
    also have "\<dots> = (?rd\<lparr>cursor := cursor ?rd + min (length hist - cursor ?rd) (mx - length ?out)\<rparr>,
        ?out @ take (mx - length ?out) (drop (cursor ?rd) hist))"
      using "1.hyps"(3) [of ?c "(?c, length (hist ! ?c))"] True gh gt gd pm "1.prems" by simp
    also have "\<dots> = (rd\<lparr>cursor := ?c + min (length hist - ?c) (mx - length out)\<rparr>,
        out @ take (mx - length out) (drop ?c hist))"
      using True by (auto simp: Cons_nth_drop_Suc [symmetric] take_Cons' min_def)
    finally show ?thesis .
  next
    case False
    then show ?thesis using "1.prems" by (subst poll_loop.simps) auto
  qed
qed


text \<open>
  C1: the ring delivers, in order and unchanged, exactly the payloads that still fit its window.
  After any pushes into a fresh ring, a poll of a reader that stands at \<open>cursor\<close> returns the
  next payloads from the later of its cursor and the oldest surviving slot, at most \<open>mx\<close> of them;
  every payload it could no longer get is counted in \<open>skipped\<close>, and none is reported torn.
\<close>

theorem poll_after_pushes:
  assumes "ring_create cap ss = Inr r" "0 < cap"
    and "\<forall>p \<in> set ps. length p + 20 \<le> ss" "length ps < 256 ^ 8"
    and "cursor rd \<le> length ps"
  defines "start \<equiv> max (cursor rd) (length ps - cap)"
  shows "poll (push_all r ps) mx rd =
    (\<lparr>cursor = start + min (length ps - start) mx,
      skipped = skipped rd + (start - cursor rd), torn = torn rd\<rparr>,
     take mx (drop start ps))"
proof -
  from assms(1) have ss: "20 < ss" "ss < 256 ^ 4" "cap < 256 ^ 4"
    by (auto simp: ring_create_def layout_defs Let_def split: if_splits)
  then obtain r' where "ring_create cap ss = Inr r'" "represents r' []" "capacity r' = cap"
    "payload_max r' = int ss - 20" using \<open>0 < cap\<close> by (elim ring_create_represents)
  with assms(1) have r0: "represents r []" "capacity r = cap" "payload_max r = int ss - 20" by simp_all
  have rep: "represents (push_all r ps) ps" and cap: "capacity (push_all r ps) = cap"
    using push_all_represents [OF r0(1), of ps] assms(3,4) r0(2,3) by fastforce+
  have ws: "write_seq (push_all r ps) = length ps" using rep by (simp add: represents_def)
  let ?rd = "catch_up (push_all r ps) rd (length ps)"
  have cu: "cursor ?rd = start" "skipped ?rd = skipped rd + (start - cursor rd)" "torn ?rd = torn rd"
    using cap assms(5) by (auto simp: catch_up_def start_def Let_def)
  have "poll (push_all r ps) mx rd = (?rd\<lparr>cursor := start + min (length ps - start) mx\<rparr>,
      take mx (drop start ps))"
    using poll_loop_represents [OF rep, of ?rd mx "[]"] cu cap assms(5) ws
    by (simp add: poll_def start_def)
  then show ?thesis using cu by simp
qed

theorem poll_after_pushes_witness:
  "poll (push_all (case ring_create 2 22 of Inr r \<Rightarrow> r) [[1], [2], [3]]) 5 \<lparr>cursor = 0, skipped = 0, torn = 0\<rparr>
    = (\<lparr>cursor = 3, skipped = 1, torn = 0\<rparr>, [[2], [3]])"
proof -
  obtain r where r: "ring_create 2 22 = Inr r" by (simp add: ring_create_def layout_defs)
  show ?thesis
    using poll_after_pushes [OF r, of "[[1], [2], [3]]" "\<lparr>cursor = 0, skipped = 0, torn = 0\<rparr>" 5] r
    by simp
qed

subsection \<open>Producer and reader as interleaved processes\<close>

text \<open>
  The producer's four memory writes and the reader's three memory reads of one slot are separate
  steps here, in the order of \<^verbatim>\<open>push\<close> and of the loop body of \<^verbatim>\<open>poll\<close>; the two processes run on one
  segment and a schedule picks who moves.
\<close>

datatype prod_pc = ProdIdle | ProdData nat bytes | ProdTail nat | ProdSeq nat

datatype read_pc = ReadIdle | ReadHead nat | ReadData nat nat nat | ReadTail nat nat bytes

record race =
  seg :: ring
  ppc :: prod_pc
  rpc :: read_pc
  rdr :: reader
  sent :: "bytes list"
  got :: "bytes list"

datatype move = StartPush bytes | Producer | StartPoll | Reader

definition race_init :: "ring \<Rightarrow> race" where
  "race_init r = \<lparr>seg = r, ppc = ProdIdle, rpc = ReadIdle, rdr = new_reader r None, sent = [], got = []\<rparr>"

fun producer_step :: "race \<Rightarrow> prod_pc \<Rightarrow> race" where
  "producer_step s ProdIdle = s"
| "producer_step s (ProdData q p) = s\<lparr>seg := put_data (seg s) q p, ppc := ProdTail q\<rparr>"
| "producer_step s (ProdTail q) = s\<lparr>seg := put_tail (seg s) q, ppc := ProdSeq q\<rparr>"
| "producer_step s (ProdSeq q) =
     (case set_write_seq (seg s) (q + 1) of
        Inl e \<Rightarrow> s\<lparr>ppc := ProdIdle\<rparr> | Inr r \<Rightarrow> s\<lparr>seg := r, ppc := ProdIdle\<rparr>)"

definition skip_torn :: "race \<Rightarrow> nat \<Rightarrow> race" where
  "skip_torn s ws = s\<lparr>rdr := (rdr s)\<lparr>torn := torn (rdr s) + 1, cursor := cursor (rdr s) + 1\<rparr>,
                      rpc := ReadHead ws\<rparr>"

fun reader_step :: "race \<Rightarrow> read_pc \<Rightarrow> race" where
  "reader_step s ReadIdle = s"
| "reader_step s (ReadHead ws) =
     (if cursor (rdr s) < ws then
        let q = cursor (rdr s); (head, n) = get_head (seg s) q in
        if head \<noteq> q \<or> int n > payload_max (seg s) then skip_torn s ws
        else s\<lparr>rpc := ReadData ws q n\<rparr>
      else s\<lparr>rpc := ReadIdle\<rparr>)"
| "reader_step s (ReadData ws q n) = s\<lparr>rpc := ReadTail ws q (get_data (seg s) q n)\<rparr>"
| "reader_step s (ReadTail ws q d) =
     (if get_tail (seg s) q \<noteq> q then skip_torn s ws
      else s\<lparr>rdr := (rdr s)\<lparr>cursor := cursor (rdr s) + 1\<rparr>, got := got s @ [d], rpc := ReadHead ws\<rparr>)"

fun race_step :: "race \<Rightarrow> move \<Rightarrow> race" where
  "race_step s (StartPush p) =
     (if ppc s = ProdIdle \<and> int (length p) \<le> payload_max (seg s) \<and> capacity (seg s) \<noteq> 0 then
        let q = write_seq (seg s) in
        s\<lparr>seg := put_head (seg s) q (length p), ppc := ProdData q p, sent := sent s @ [p]\<rparr>
      else s)"
| "race_step s Producer = producer_step s (ppc s)"
| "race_step s StartPoll =
     (if rpc s = ReadIdle then
        let ws = write_seq (seg s) in
        s\<lparr>rdr := catch_up (seg s) (rdr s) ws, rpc := ReadHead ws\<rparr>
      else s)"
| "race_step s Reader = reader_step s (rpc s)"

definition race_run :: "ring \<Rightarrow> move list \<Rightarrow> race" where
  "race_run r ms = foldl race_step (race_init r) ms"

text \<open>
  C5: the tail check does not detect every torn read. The reader compares head, copies, and then
  compares the tail, in the same order in which the producer writes them. In every full ring there
  is a schedule in which the producer has rewritten the header and the payload but not yet the tail
  of the slot being copied: the reader delivers the new payload followed by the rest of the old
  one, a byte string that was never pushed, and counts nothing as torn.
\<close>

theorem torn_read_delivered:
  assumes rep: "represents (seg s) hist" and idle: "ppc s = ProdIdle" "rpc s = ReadIdle"
    and full: "capacity (seg s) \<le> length hist" "cursor (rdr s) \<le> length hist - capacity (seg s)"
    and p: "p = hist ! (length hist - capacity (seg s))" and q: "length q \<le> length p"
  shows "\<exists>ms. sent (foldl race_step s ms) = sent s @ [q]
     \<and> got (foldl race_step s ms) = got s @ [q @ drop (length q) p]
     \<and> torn (rdr (foldl race_step s ms)) = torn (rdr s)"
proof -
  let ?r = "seg s" and ?n = "length hist"
  let ?i = "?n - capacity ?r"
  have wf: "ring_wf ?r" and ws: "write_seq ?r = ?n" using rep by (simp_all add: represents_def)
  have c: "0 < capacity ?r" using wf by (simp add: ring_wf_def)
  have i: "?i < ?n" using c full by simp
  have sh: "slot_holds ?r ?i p" using rep i p full(1) by (simp add: represents_def)
  have gh: "get_head ?r ?i = (?i, length p)" and pm: "int (length p) \<le> payload_max ?r"
    and gd: "get_data ?r ?i (length p) = p" and gt: "get_tail ?r ?i = ?i"
    using sh by (simp_all add: slot_holds_def)
  have "?n mod capacity ?r = ?i mod capacity ?r" using full(1) by (simp add: le_mod_geq)
  then have off: "slot_off ?r ?n = slot_off ?r ?i" by (simp add: slot_off_def)
  let ?o = "slot_off ?r ?i"
  have rng: "?o + slot_size ?r \<le> length (buf ?r)" and pl: "length p + 20 \<le> slot_size ?r"
    using slot_in_range(1) [OF wf] pm wf by (auto simp: ring_wf_def)
  let ?r2 = "put_data (put_head ?r ?n (length q)) ?n q"
  have d: "get_data ?r2 ?i (length p) = q @ drop (length q) p"
    using rng pl q gd
    by (simp add: slot_ops layout_defs off read_at_write_overlap read_at_write_above)
  have t: "get_tail ?r2 ?i = ?i"
    using rng pl q gt by (simp add: slot_ops layout_defs off read_at_write_above)
  have cu: "cursor (catch_up ?r (rdr s) ?n) = ?i" "torn (catch_up ?r (rdr s) ?n) = torn (rdr s)"
    using full by (auto simp: catch_up_def Let_def)
  let ?ms = "[StartPoll, Reader, StartPush q, Producer, Reader, Reader]"
  have "payload_max ?r2 = payload_max ?r" by (simp add: slot_ops)
  with pm have "sent (foldl race_step s ?ms) = sent s @ [q]
     \<and> got (foldl race_step s ?ms) = got s @ [q @ drop (length q) p]
     \<and> torn (rdr (foldl race_step s ?ms)) = torn (rdr s)"
    using idle ws cu gh d t i c q by (simp add: Let_def)
  then show ?thesis by blast
qed

theorem torn_read_delivered_witness:
  "\<exists>s ms. sent s = [] \<and> got (foldl race_step s ms) = [[9, 2]]
     \<and> torn (rdr (foldl race_step s ms)) = 0 \<and> represents (seg s) [[1, 2]]"
proof -
  obtain r where r: "represents r []" "capacity r = 1" "payload_max r = 4"
    by (rule ring_create_represents [of 24 1]) simp_all
  let ?r = "push_all r [[1, 2]]"
  let ?s = "(race_init ?r)\<lparr>rdr := \<lparr>cursor = 0, skipped = 0, torn = 0\<rparr>\<rparr>"
  have rep: "represents ?r [[1, 2]]" "capacity ?r = 1"
    using push_all_represents [OF r(1), of "[[1, 2]]"] r(2,3) by simp_all
  then have "represents (seg ?s) [[1, 2]]" by (simp add: race_init_def)
  from torn_read_delivered [OF this, of "[1, 2]" "[9]"] rep show ?thesis
    by (intro exI [of _ ?s]) (auto simp: race_init_def)
qed

end
