(* ===== verification/Crc32.thy ===== *)
theory Crc32
  imports Prelude
begin

unbundle bit_operations_syntax

section \<open>The CRC-32 of \<^verbatim>\<open>zlib\<close>\<close>

text \<open>
  \<^verbatim>\<open>zlib.crc32\<close>, which the frame format uses, as the reflected bitwise algorithm with polynomial
  \<open>0xEDB88320\<close>. The lemmas show that it distinguishes any two messages that differ in exactly
  one byte.
\<close>

definition crc_bit :: "32 word \<Rightarrow> 32 word" where
  "crc_bit c = (if bit c 0 then drop_bit 1 c XOR 0xEDB88320 else drop_bit 1 c)"

definition crc_byte :: "32 word \<Rightarrow> byte \<Rightarrow> 32 word" where
  "crc_byte c b = (crc_bit ^^ 8) (c XOR ucast b)"

definition crc32 :: "bytes \<Rightarrow> nat" where
  "crc32 bs = unat (NOT (foldl crc_byte (NOT 0) bs))"

lemma crc32_less: "crc32 bs < 256 ^ 4"
  using unsigned_less [of "NOT (foldl crc_byte (NOT 0) bs)"] by (simp add: crc32_def)

lemma poly_top_bit: "bit (0xEDB88320 :: 32 word) 31"
  by (simp add: bit_numeral_rec)

lemma xor_left_cancel_word: "(c XOR a = c XOR b) \<longleftrightarrow> a = (b :: 32 word)"
proof
  assume "c XOR a = c XOR b"
  then have "c XOR (c XOR a) = c XOR (c XOR b)" by simp
  then show "a = b" by (simp only: xor.assoc [symmetric] xor_self_eq xor.left_neutral)
qed simp

lemma xor_right_cancel_word: "(a XOR c = b XOR c) \<longleftrightarrow> a = (b :: 32 word)"
  using xor_left_cancel_word [of c a b] by (simp only: xor.commute)

text \<open>One shift step loses no information: the top bit of the result is the bit shifted out.\<close>

lemma crc_bit_top: "bit (crc_bit c) 31 \<longleftrightarrow> bit c 0"
proof -
  have "\<not> bit (drop_bit 1 c) 31" by (simp add: bit_drop_bit_eq impossible_bit)
  then show ?thesis by (simp add: crc_bit_def bit_xor_iff poly_top_bit)
qed

lemma crc_bit_inj: "inj crc_bit"
proof (rule injI)
  fix a b :: "32 word"
  assume e: "crc_bit a = crc_bit b"
  then have z: "bit a 0 = bit b 0" by (metis crc_bit_top)
  with e have d: "drop_bit 1 a = drop_bit 1 b"
    by (auto simp: crc_bit_def xor_right_cancel_word split: if_splits)
  show "a = b"
  proof (rule bit_word_eqI)
    fix n
    show "bit a n = bit b n"
    proof (cases n)
      case 0
      with z show ?thesis by simp
    next
      case (Suc m)
      have "bit (drop_bit 1 a) m = bit (drop_bit 1 b) m" using d by simp
      with Suc show ?thesis by (simp add: bit_drop_bit_eq)
    qed
  qed
qed

lemma crc_bits_inj: "(crc_bit ^^ n) a = (crc_bit ^^ n) b \<longleftrightarrow> a = b"
  using crc_bit_inj by (induction n) (auto simp: inj_eq)

lemma crc_byte_state_inj: "crc_byte a b = crc_byte a' b \<longleftrightarrow> a = a'"
  by (simp add: crc_byte_def crc_bits_inj xor_right_cancel_word)

lemma crc_byte_data_inj: "crc_byte c a = crc_byte c b \<longleftrightarrow> a = b"
proof -
  have "ucast a = (ucast b :: 32 word) \<longleftrightarrow> a = b"
  proof
    assume "ucast a = (ucast b :: 32 word)"
    then have "ucast (ucast a :: 32 word) = (ucast (ucast b :: 32 word) :: byte)" by simp
    then show "a = b" by (simp add: ucast_up_ucast_id is_up)
  qed simp
  then show ?thesis by (simp add: crc_byte_def crc_bits_inj xor_left_cancel_word)
qed

lemma foldl_crc_inj: "foldl crc_byte a bs = foldl crc_byte a' bs \<longleftrightarrow> a = a'"
  by (induction bs arbitrary: a a') (simp_all add: crc_byte_state_inj)

text \<open>Two messages that differ in one byte have different checksums.\<close>

lemma crc32_single_byte:
  "crc32 (xs @ [a] @ ys) = crc32 (xs @ [b] @ ys) \<longleftrightarrow> a = b"
proof -
  have "crc32 (xs @ [a] @ ys) = crc32 (xs @ [b] @ ys) \<longleftrightarrow>
      foldl crc_byte (crc_byte (foldl crc_byte (NOT 0) xs) a) ys
      = foldl crc_byte (crc_byte (foldl crc_byte (NOT 0) xs) b) ys"
    by (simp add: crc32_def word_unat_eq_iff [symmetric])
  then show ?thesis by (simp add: foldl_crc_inj crc_byte_data_inj)
qed

lemma crc32_update:
  assumes "i < length bs"
  shows "crc32 (bs[i := x]) = crc32 bs \<longleftrightarrow> x = bs ! i"
  using assms crc32_single_byte [of "take i bs" x "drop (Suc i) bs" "bs ! i"]
  by (simp add: upd_conv_take_nth_drop id_take_nth_drop [symmetric])

end
