(* ===== verification/StreamCodec.thy ===== *)
theory StreamCodec
  imports Prelude
begin

section \<open>The contract of a streaming decoder\<close>

text \<open>
  Both wire protocols of the platform (MDFP/1 and WebSocket) receive a byte stream in arbitrary
  pieces and must hand out whole frames. The locale states what such a decoder promises about one
  frame; its conclusion, proved once, is that any way of cutting a valid stream into pieces yields
  exactly the frames that were encoded, in order, with nothing left over. \<open>clean b\<close> is the
  decoder's state when it holds the undecoded bytes \<open>b\<close> and is otherwise as it was created.
\<close>

fun feed_all :: "('s \<Rightarrow> bytes \<Rightarrow> 's \<times> 'f list) \<Rightarrow> 's \<Rightarrow> bytes list \<Rightarrow> 's \<times> 'f list" where
  "feed_all feed s [] = (s, [])"
| "feed_all feed s (c # cs) =
     (let (s1, fs) = feed s c; (s2, gs) = feed_all feed s1 cs in (s2, fs @ gs))"

locale stream_codec =
  fixes enc :: "'f \<Rightarrow> bytes" and ok :: "'f \<Rightarrow> bool"
    and feed :: "'s \<Rightarrow> bytes \<Rightarrow> 's \<times> 'f list" and clean :: "bytes \<Rightarrow> 's"
  assumes enc_nonempty: "ok f \<Longrightarrow> enc f \<noteq> []"
    and feed_empty: "feed (clean []) [] = (clean [], [])"
    and feed_frame: "ok f \<Longrightarrow> b @ c = enc f @ r \<Longrightarrow>
      feed (clean b) c = (fst (feed (clean []) r), f # snd (feed (clean []) r))"
    and feed_partial: "ok f \<Longrightarrow> b @ c @ q = enc f \<Longrightarrow> q \<noteq> [] \<Longrightarrow> feed (clean b) c = (clean (b @ c), [])"
begin

text \<open>One piece: it completes some frames and leaves a proper prefix of the next.\<close>

lemma feed_piece:
  assumes "\<forall>f \<in> set fs. ok f" "b @ c @ t = concat (map enc fs)"
  shows "\<exists>fs1 fs2 b'. fs = fs1 @ fs2 \<and> feed (clean b) c = (clean b', fs1)
    \<and> b' @ t = concat (map enc fs2) \<and> (fs2 = [] \<or> length b' < length (enc (hd fs2)))"
  using assms
proof (induction fs arbitrary: b c)
  case Nil
  then show ?case using feed_empty by auto
next
  case (Cons f fs)
  then have okf: "ok f" by simp
  from Cons.prems have eq: "(b @ c) @ t = enc f @ concat (map enc fs)" by simp
  show ?case
  proof (cases "length (enc f) \<le> length (b @ c)")
    case True
    define r where "r = drop (length (enc f)) (b @ c)"
    have "take (length (enc f)) (b @ c) = enc f"
      using True arg_cong [OF eq, of "take (length (enc f))"] by simp
    then have r1: "b @ c = enc f @ r" unfolding r_def by (metis append_take_drop_id)
    with eq have r: "b @ c = enc f @ r" "r @ t = concat (map enc fs)" by auto
    from Cons.IH [of "[]" r] Cons.prems(1) r(2) obtain fs1 fs2 b' where
      ih: "fs = fs1 @ fs2" "feed (clean []) r = (clean b', fs1)" "b' @ t = concat (map enc fs2)"
        "fs2 = [] \<or> length b' < length (enc (hd fs2))" by auto
    from feed_frame [OF okf r(1)] ih(2) have "feed (clean b) c = (clean b', f # fs1)" by simp
    with ih show ?thesis by (intro exI [of _ "f # fs1"] exI [of _ fs2] exI [of _ b']) simp
  next
    case False
    define q where "q = drop (length (b @ c)) (enc f)"
    have "take (length (b @ c)) (enc f) = b @ c"
      using False arg_cong [OF eq, of "take (length (b @ c))"] by simp
    then have "b @ c @ q = enc f" unfolding q_def by (metis append.assoc append_take_drop_id)
    moreover have "q \<noteq> []" using False by (simp add: q_def)
    ultimately have q: "b @ c @ q = enc f" "q \<noteq> []" by auto
    from feed_partial [OF okf q] False eq show ?thesis
      by (intro exI [of _ "[]"] exI [of _ "f # fs"] exI [of _ "b @ c"]) simp
  qed
qed

lemma feed_all_from:
  assumes "\<forall>f \<in> set fs. ok f" "b @ concat cs = concat (map enc fs)"
    and "fs = [] \<or> length b < length (enc (hd fs))"
  shows "feed_all feed (clean b) cs = (clean [], fs)"
  using assms
proof (induction cs arbitrary: b fs)
  case Nil
  then show ?case by (cases fs) auto
next
  case (Cons c cs)
  from feed_piece [OF Cons.prems(1), of b c "concat cs"] Cons.prems(2) obtain fs1 fs2 b' where
    p: "fs = fs1 @ fs2" "feed (clean b) c = (clean b', fs1)" "b' @ concat cs = concat (map enc fs2)"
      "fs2 = [] \<or> length b' < length (enc (hd fs2))" by auto
  from Cons.prems(1) p(1) have "\<forall>f \<in> set fs2. ok f" by simp
  from Cons.IH [OF this p(3,4)] p(1,2) show ?case by simp
qed

theorem any_chunking:
  assumes "\<forall>f \<in> set fs. ok f" "concat cs = concat (map enc fs)"
  shows "feed_all feed (clean []) cs = (clean [], fs)"
proof -
  have "fs = [] \<or> length ([] :: bytes) < length (enc (hd fs))"
    using assms(1) enc_nonempty by (cases fs) auto
  with assms show ?thesis by (intro feed_all_from) simp_all
qed

end

end
