(* ===== verification/Protocol.thy ===== *)
theory Protocol
  imports Crc32 StreamCodec
begin

section \<open>The MDFP/1 wire protocol\<close>

text \<open>
  Models \<^verbatim>\<open>src/mdfeed/protocol.py\<close> (and the message codes of \<^verbatim>\<open>models.py\<close>): the frame encoder, the
  streaming parser with its resynchronisation, and the sequence tracker of a subscriber. Python's
  generator \<open>feed\<close> is the function that returns all the frames it would yield; the callback
  \<^verbatim>\<open>on_resync\<close> is called exactly when \<open>resync_count\<close> grows and is not modelled separately.
\<close>

definition MSG_HEARTBEAT :: nat where "MSG_HEARTBEAT = 1"
definition MSG_TRADE :: nat where "MSG_TRADE = 2"
definition MSG_BOOK :: nat where "MSG_BOOK = 3"
definition MSG_SIGNAL :: nat where "MSG_SIGNAL = 4"
definition MSG_SNAPSHOT :: nat where "MSG_SNAPSHOT = 5"
definition MSG_SUBSCRIBE :: nat where "MSG_SUBSCRIBE = 6"
definition MSG_ACK :: nat where "MSG_ACK = 7"
definition MSG_RETRANS :: nat where "MSG_RETRANS = 8"

lemmas msg_defs = MSG_HEARTBEAT_def MSG_TRADE_def MSG_BOOK_def MSG_SIGNAL_def MSG_SNAPSHOT_def
  MSG_SUBSCRIBE_def MSG_ACK_def MSG_RETRANS_def

definition MAGIC :: bytes where "MAGIC = [0x4D, 0x44, 0x46, 0x31]"
definition VERSION :: nat where "VERSION = 1"
definition HEADER_SIZE :: nat where "HEADER_SIZE = 20"
definition CRC_SIZE :: nat where "CRC_SIZE = 4"
definition MAX_PAYLOAD :: nat where "MAX_PAYLOAD = 2 ^ 20"
definition FLAG_SNAPSHOT :: nat where "FLAG_SNAPSHOT = 1"
definition FLAG_COMPRESSED :: nat where "FLAG_COMPRESSED = 2"

lemmas frame_consts = MAGIC_def VERSION_def HEADER_SIZE_def CRC_SIZE_def MAX_PAYLOAD_def

lemma length_MAGIC [simp]: "length MAGIC = 4" and MAGIC_not_Nil [simp]: "MAGIC \<noteq> []"
  by (simp_all add: MAGIC_def)

datatype proto_error = PayloadTooLarge nat | PackError

record frame =
  msg_type :: nat
  seq :: nat
  flags :: nat
  payload :: bytes

subsection \<open>Encoding\<close>

definition frame_header :: "nat \<Rightarrow> nat \<Rightarrow> nat \<Rightarrow> nat \<Rightarrow> bytes" where
  "frame_header mt fl sq len =
     MAGIC @ be_bytes 1 VERSION @ be_bytes 1 mt @ be_bytes 2 fl @ be_bytes 8 sq @ be_bytes 4 len"

definition frame_bytes :: "frame \<Rightarrow> bytes" where
  "frame_bytes f =
     (let body = frame_header (msg_type f) (flags f) (seq f) (length (payload f)) @ payload f
      in body @ be_bytes 4 (crc32 body))"

definition encode :: "nat \<Rightarrow> nat \<Rightarrow> bytes \<Rightarrow> nat \<Rightarrow> proto_error + bytes" where
  "encode mt sq pl fl =
     (if length pl > MAX_PAYLOAD then Inl (PayloadTooLarge (length pl))
      else if 256 ^ 1 \<le> mt \<or> 256 ^ 2 \<le> fl \<or> 256 ^ 8 \<le> sq then Inl PackError
      else Inr (frame_bytes \<lparr>msg_type = mt, seq = sq, flags = fl, payload = pl\<rparr>))"

definition heartbeat :: "nat \<Rightarrow> nat \<Rightarrow> proto_error + bytes" where
  "heartbeat sq ts_ns =
     (case pack_uint 8 ts_ns of Inl e \<Rightarrow> Inl PackError | Inr pl \<Rightarrow> encode MSG_HEARTBEAT sq pl 0)"

definition frame_ok :: "frame \<Rightarrow> bool" where
  "frame_ok f \<longleftrightarrow> msg_type f < 256 ^ 1 \<and> flags f < 256 ^ 2 \<and> seq f < 256 ^ 8
     \<and> length (payload f) \<le> MAX_PAYLOAD"

lemma encode_frame_bytes:
  "frame_ok f \<Longrightarrow> encode (msg_type f) (seq f) (payload f) (flags f) = Inr (frame_bytes f)"
  by (cases f) (simp add: encode_def frame_ok_def)

subsection \<open>The streaming parser\<close>

record parser =
  pbuf :: bytes
  resync_count :: nat
  crc_error_count :: nat

definition new_parser :: parser where
  "new_parser = \<lparr>pbuf = [], resync_count = 0, crc_error_count = 0\<rparr>"

datatype parse_status = OK frame | NEED_MORE | RETRY

text \<open>\<^verbatim>\<open>bytearray.find(MAGIC, 1)\<close>.\<close>

fun find_sub :: "'a list \<Rightarrow> 'a list \<Rightarrow> nat option" where
  "find_sub p [] = (if p = [] then Some 0 else None)"
| "find_sub p (x # xs) =
     (if take (length p) (x # xs) = p then Some 0 else map_option Suc (find_sub p xs))"

definition find_magic_from1 :: "bytes \<Rightarrow> nat option" where
  "find_magic_from1 b = map_option Suc (find_sub MAGIC (tl b))"

definition resync :: "parser \<Rightarrow> parser \<times> parse_status" where
  "resync p =
     (let b = pbuf p; idx = find_magic_from1 b; keep = length MAGIC - 1 in
      case idx of
        None \<Rightarrow> (p\<lparr>pbuf := drop (length b - keep) b, resync_count := resync_count p + 1\<rparr>, NEED_MORE)
      | Some i \<Rightarrow> (p\<lparr>pbuf := drop i b, resync_count := resync_count p + 1\<rparr>, RETRY))"

definition try_one :: "parser \<Rightarrow> parser \<times> parse_status" where
  "try_one p =
     (let b = pbuf p in
      if length b < HEADER_SIZE then (p, NEED_MORE)
      else if take 4 b \<noteq> MAGIC then resync p
      else let ver = be_val (read_at 4 1 b); mt = be_val (read_at 5 1 b);
               fl = be_val (read_at 6 2 b); sq = be_val (read_at 8 8 b);
               len = be_val (read_at 16 4 b) in
        if ver \<noteq> VERSION \<or> len > MAX_PAYLOAD then resync p
        else let total = HEADER_SIZE + len + CRC_SIZE in
          if length b < total then (p, NEED_MORE)
          else let body = take (HEADER_SIZE + len) b;
                   crc = be_val (read_at (HEADER_SIZE + len) 4 b) in
            if crc \<noteq> crc32 body then resync (p\<lparr>crc_error_count := crc_error_count p + 1\<rparr>)
            else (p\<lparr>pbuf := drop total b\<rparr>,
                  OK \<lparr>msg_type = mt, seq = sq, flags = fl, payload = drop HEADER_SIZE body\<rparr>))"

lemma find_sub_bound: "find_sub p xs = Some i \<Longrightarrow> i \<le> length xs"
  by (induction p xs arbitrary: i rule: find_sub.induct) (auto split: if_splits)

text \<open>Every attempt that does not ask for more input consumes at least one byte.\<close>

lemma resync_shrinks:
  "resync p = (p', st) \<Longrightarrow> st \<noteq> NEED_MORE \<Longrightarrow> pbuf p \<noteq> [] \<Longrightarrow> length (pbuf p') < length (pbuf p)"
  by (auto simp: resync_def find_magic_from1_def Let_def split: option.splits)

lemma try_one_shrinks:
  assumes "try_one p = (p', st)" "st \<noteq> NEED_MORE"
  shows "length (pbuf p') < length (pbuf p)"
proof -
  have ne: "pbuf p \<noteq> []" using assms by (auto simp: try_one_def HEADER_SIZE_def Let_def)
  show ?thesis
    using assms ne resync_shrinks [of p p' st]
      resync_shrinks [of "p\<lparr>crc_error_count := crc_error_count p + 1\<rparr>" p' st]
    by (auto simp: try_one_def Let_def CRC_SIZE_def split: if_splits)
qed

function feed_loop :: "parser \<Rightarrow> parser \<times> frame list" where
  "feed_loop p =
     (case try_one p of
        (p', NEED_MORE) \<Rightarrow> (p', [])
      | (p', RETRY) \<Rightarrow> feed_loop p'
      | (p', OK f) \<Rightarrow> (let (p'', fs) = feed_loop p' in (p'', f # fs)))"
  by pat_completeness auto
termination
  by (relation "measure (\<lambda>p. length (pbuf p))") (auto dest!: sym [of _ "try_one _"] try_one_shrinks)

declare feed_loop.simps [simp del]

definition feed :: "parser \<Rightarrow> bytes \<Rightarrow> parser \<times> frame list" where
  "feed p chunk = feed_loop (p\<lparr>pbuf := pbuf p @ chunk\<rparr>)"

lemma feed_loop_need: "try_one p = (p', NEED_MORE) \<Longrightarrow> feed_loop p = (p', [])"
  by (subst feed_loop.simps) simp

lemma feed_loop_retry: "try_one p = (p', RETRY) \<Longrightarrow> feed_loop p = feed_loop p'"
  by (subst feed_loop.simps) simp

lemma feed_loop_ok:
  "try_one p = (p', OK f) \<Longrightarrow> feed_loop p = (fst (feed_loop p'), f # snd (feed_loop p'))"
  by (subst feed_loop.simps) (simp add: split_beta)

subsection \<open>One encoded frame at the head of the buffer\<close>

lemma length_frame_header [simp]: "length (frame_header mt fl sq len) = 20"
  by (simp add: frame_header_def MAGIC_def)

lemma length_frame_bytes [simp]: "length (frame_bytes f) = 24 + length (payload f)"
  by (simp add: frame_bytes_def Let_def)

lemma header_fields:
  assumes "mt < 256 ^ 1" "fl < 256 ^ 2" "sq < 256 ^ 8" "len < 256 ^ 4"
  shows "take 4 (frame_header mt fl sq len @ r) = MAGIC"
    "be_val (read_at 4 1 (frame_header mt fl sq len @ r)) = VERSION"
    "be_val (read_at 5 1 (frame_header mt fl sq len @ r)) = mt"
    "be_val (read_at 6 2 (frame_header mt fl sq len @ r)) = fl"
    "be_val (read_at 8 8 (frame_header mt fl sq len @ r)) = sq"
    "be_val (read_at 16 4 (frame_header mt fl sq len @ r)) = len"
  using assms be_val_be_bytes [of mt 1] be_val_be_bytes [of VERSION 1]
  by (simp_all add: frame_header_def read_at_def MAGIC_def VERSION_def be_val_be_bytes del: One_nat_def)

lemma try_one_frame:
  assumes "frame_ok f" "pbuf p = frame_bytes f @ r"
  shows "try_one p = (p\<lparr>pbuf := r\<rparr>, OK f)"
proof -
  let ?h = "frame_header (msg_type f) (flags f) (seq f) (length (payload f))"
  let ?crc = "crc32 (?h @ payload f)"
  have b: "pbuf p = ?h @ payload f @ be_bytes 4 ?crc @ r"
    using assms(2) by (simp add: frame_bytes_def Let_def)
  have len: "length (payload f) < 256 ^ 4" using assms(1) by (simp add: frame_ok_def MAX_PAYLOAD_def)
  have ok: "msg_type f < 256 ^ 1" "flags f < 256 ^ 2" "seq f < 256 ^ 8" "length (payload f) \<le> MAX_PAYLOAD"
    using assms(1) by (simp_all only: frame_ok_def)
  note H = header_fields [OF ok(1-3) len, of "payload f @ be_bytes 4 ?crc @ r", folded b]
  have body: "take (20 + length (payload f)) (pbuf p) = ?h @ payload f" by (simp add: b)
  have crc: "be_val (read_at (20 + length (payload f)) 4 (pbuf p)) = ?crc"
    using crc32_less [of "?h @ payload f"] by (simp add: b read_at_def be_val_be_bytes)
  have rest: "drop (24 + length (payload f)) (pbuf p) = r" "\<not> length (pbuf p) < 20"
    "\<not> length (pbuf p) < 24 + length (payload f)" by (simp_all add: b)
  show ?thesis
    unfolding try_one_def Let_def HEADER_SIZE_def CRC_SIZE_def H
    using ok(4) rest by (simp add: body crc del: One_nat_def)
qed

subsection \<open>Every chunking of a valid stream\<close>

definition clean_parser :: "bytes \<Rightarrow> parser" where
  "clean_parser b = \<lparr>pbuf = b, resync_count = 0, crc_error_count = 0\<rparr>"

lemma feed_clean: "feed (clean_parser b) c = feed_loop (clean_parser (b @ c))"
  by (simp add: feed_def clean_parser_def)

lemma try_one_short: "length (pbuf p) < 20 \<Longrightarrow> try_one p = (p, NEED_MORE)"
  by (simp add: try_one_def HEADER_SIZE_def)

lemma try_one_prefix:
  assumes "frame_ok f" "pbuf p @ q = frame_bytes f" "q \<noteq> []"
  shows "try_one p = (p, NEED_MORE)"
proof (cases "length (pbuf p) < 20")
  case True
  then show ?thesis by (rule try_one_short)
next
  case False
  let ?h = "frame_header (msg_type f) (flags f) (seq f) (length (payload f))"
  have len: "length (payload f) < 256 ^ 4" using assms(1) by (simp add: frame_ok_def MAX_PAYLOAD_def)
  have ok: "msg_type f < 256 ^ 1" "flags f < 256 ^ 2" "seq f < 256 ^ 8" "length (payload f) \<le> MAX_PAYLOAD"
    using assms(1) by (simp_all only: frame_ok_def)
  have "length (pbuf p @ q) = 24 + length (payload f)" using assms(2) by simp
  then have short: "length (pbuf p) < 24 + length (payload f)" using assms(3) by (cases q) auto
  have "take 20 (pbuf p @ q) = ?h" using assms(2) by (simp add: frame_bytes_def Let_def)
  with False have "take 20 (pbuf p) = ?h" by simp
  then have b: "pbuf p = ?h @ drop 20 (pbuf p)" by (metis append_take_drop_id)
  note H = header_fields [OF ok(1-3) len, of "drop 20 (pbuf p)", folded b]
  show ?thesis
    unfolding try_one_def Let_def HEADER_SIZE_def CRC_SIZE_def H
    using ok(4) short False by (simp del: One_nat_def)
qed

interpretation mdfp: stream_codec frame_bytes frame_ok feed clean_parser
proof unfold_locales
  fix f :: frame and b c r q :: bytes
  assume ok: "frame_ok f"
  then show "frame_bytes f \<noteq> []" by (metis add_is_0 length_frame_bytes list.size(3) zero_neq_numeral)
  show "feed (clean_parser b) c
      = (fst (feed (clean_parser []) r), f # snd (feed (clean_parser []) r))" if "b @ c = frame_bytes f @ r"
  proof -
    have "try_one (clean_parser (b @ c)) = (clean_parser r, OK f)"
      using that try_one_frame [OF ok, of "clean_parser (b @ c)" r] by (simp add: clean_parser_def)
    then show ?thesis by (simp add: feed_clean feed_loop_ok)
  qed
  show "feed (clean_parser b) c = (clean_parser (b @ c), [])"
    if "b @ c @ q = frame_bytes f" "q \<noteq> []"
  proof -
    have "try_one (clean_parser (b @ c)) = (clean_parser (b @ c), NEED_MORE)"
      using that try_one_prefix [OF ok, of "clean_parser (b @ c)" q] by (simp add: clean_parser_def)
    then show ?thesis by (simp add: feed_clean feed_loop_need)
  qed
next
  have "length (pbuf (clean_parser [])) < 20" by (simp add: clean_parser_def)
  then show "feed (clean_parser []) [] = (clean_parser [], [])"
    using try_one_short [of "clean_parser []"] by (simp add: feed_clean feed_loop_need)
qed

text \<open>
  C9: a sequence of encodable frames, sent as the concatenation of their encodings and received in
  pieces cut at any positions, is parsed back into exactly those frames in order; the parser ends
  with an empty buffer and has counted no resynchronisation and no CRC error.
\<close>

theorem mdfp_roundtrip:
  assumes "\<forall>f \<in> set fs. encode (msg_type f) (seq f) (payload f) (flags f) = Inr (enc f)"
    and "concat cs = concat (map enc fs)"
  shows "feed_all feed new_parser cs = (new_parser, fs)"
proof -
  have "frame_ok f \<and> enc f = frame_bytes f" if "f \<in> set fs" for f
    using assms(1) that by (cases f) (auto simp: encode_def frame_ok_def not_less not_le split: if_splits)
  then have "\<forall>f \<in> set fs. frame_ok f" "map enc fs = map frame_bytes fs" by auto
  with assms(2) mdfp.any_chunking [of fs cs] show ?thesis by (simp add: new_parser_def clean_parser_def)
qed

theorem mdfp_roundtrip_witness:
  "feed_all feed new_parser
     [take 7 (frame_bytes \<lparr>msg_type = 2, seq = 9, flags = 1, payload = [1, 2]\<rparr>),
      drop 7 (frame_bytes \<lparr>msg_type = 2, seq = 9, flags = 1, payload = [1, 2]\<rparr>)]
   = (new_parser, [\<lparr>msg_type = 2, seq = 9, flags = 1, payload = [1, 2]\<rparr>])"
  by (rule mdfp_roundtrip [of _ frame_bytes]) (simp_all add: encode_def MAX_PAYLOAD_def)

subsection \<open>Chunking does not matter for arbitrary input either\<close>

text \<open>The frames a buffer yields and the bytes it leaves, whatever the counters.\<close>

definition frames_of :: "bytes \<Rightarrow> frame list" where
  "frames_of b = snd (feed_loop (clean_parser b))"

definition rest_of :: "bytes \<Rightarrow> bytes" where
  "rest_of b = pbuf (fst (feed_loop (clean_parser b)))"

lemma resync_pbuf:
  assumes "pbuf p = pbuf q"
  shows "pbuf (fst (resync p)) = pbuf (fst (resync q)) \<and> snd (resync p) = snd (resync q)"
  using assms by (simp add: resync_def Let_def split: option.split)

lemma try_one_pbuf:
  assumes "pbuf p = pbuf q"
  shows "pbuf (fst (try_one p)) = pbuf (fst (try_one q)) \<and> snd (try_one p) = snd (try_one q)"
  using assms resync_pbuf [of p q] resync_pbuf [of "p\<lparr>crc_error_count := crc_error_count p + 1\<rparr>"
      "q\<lparr>crc_error_count := crc_error_count q + 1\<rparr>"]
  by (simp add: try_one_def Let_def)

lemma feed_loop_pbuf:
  "pbuf p = pbuf q \<Longrightarrow>
   pbuf (fst (feed_loop p)) = pbuf (fst (feed_loop q)) \<and> snd (feed_loop p) = snd (feed_loop q)"
proof (induction p arbitrary: q rule: feed_loop.induct)
  case (1 p)
  obtain p' st where tp: "try_one p = (p', st)" by fastforce
  obtain q' where tq: "try_one q = (q', st)" and pb: "pbuf p' = pbuf q'"
    using try_one_pbuf [OF 1(3)] tp by (cases "try_one q") auto
  show ?case
    using tp tq pb "1.IH"
    by (cases st) (simp_all add: feed_loop_ok feed_loop_need feed_loop_retry)
qed

lemma feed_loop_frames: "snd (feed_loop p) = frames_of (pbuf p)"
  and feed_loop_rest: "pbuf (fst (feed_loop p)) = rest_of (pbuf p)"
  using feed_loop_pbuf [of p "clean_parser (pbuf p)"]
  by (simp_all add: frames_of_def rest_of_def clean_parser_def)

lemma frames_need: "try_one p = (p', NEED_MORE) \<Longrightarrow> frames_of (pbuf p) = [] \<and> rest_of (pbuf p) = pbuf p'"
  by (metis feed_loop_frames feed_loop_need feed_loop_rest fst_conv snd_conv)

lemma frames_retry: "try_one p = (p', RETRY) \<Longrightarrow>
    frames_of (pbuf p) = frames_of (pbuf p') \<and> rest_of (pbuf p) = rest_of (pbuf p')"
  by (metis feed_loop_frames feed_loop_retry feed_loop_rest)

lemma frames_ok: "try_one p = (p', OK f) \<Longrightarrow>
    frames_of (pbuf p) = f # frames_of (pbuf p') \<and> rest_of (pbuf p) = rest_of (pbuf p')"
  by (metis feed_loop_frames feed_loop_ok feed_loop_rest fst_conv snd_conv)

subsubsection \<open>Searching for the magic in a longer buffer\<close>

lemma find_sub_match: "find_sub p xs = Some i \<Longrightarrow> take (length p) (drop i xs) = p"
  by (induction p xs arbitrary: i rule: find_sub.induct) (auto split: if_splits)

lemma find_sub_append: "find_sub p xs = Some i \<Longrightarrow> find_sub p (xs @ ys) = Some i"
proof (induction p xs arbitrary: i rule: find_sub.induct)
  case (1 p)
  then show ?case by (cases ys) (auto split: if_splits)
next
  case (2 p x xs)
  show ?case
  proof (cases "take (length p) (x # xs) = p")
    case True
    then have "length p \<le> length (x # xs)" by (metis length_take min.absorb_iff2 min.commute)
    with True 2(2) take_append [of "length p" "x # xs" ys] show ?thesis by simp
  next
    case False
    with 2(2) obtain j where j: "find_sub p xs = Some j" "i = Suc j" by auto
    have "take (length p) (drop j xs) = p" using j(1) by (rule find_sub_match)
    then have "length p \<le> length xs" by (metis length_drop length_take min.cobounded1 min.cobounded2 diff_le_self le_trans)
    with False have "take (length p) (x # xs @ ys) \<noteq> p"
      by (metis append_Cons le_SucI length_Cons take_append append.right_neutral diff_is_0_eq take_0)
    with 2(1) [OF False j(1)] j(2) show ?thesis by simp
  qed
qed

text \<open>With no match in \<open>xs\<close>, only its last \<open>length p - 1\<close> elements can begin one.\<close>

lemma find_sub_keep:
  assumes "find_sub p xs = None" "k + length p \<le> Suc (length xs)"
  shows "find_sub p (xs @ ys) = map_option ((+) k) (find_sub p (drop k xs @ ys))"
  using assms
proof (induction p xs arbitrary: k rule: find_sub.induct)
  case (1 p)
  then show ?case by (cases p; cases k) (auto simp: option.map_ident)
next
  case (2 p x xs)
  from 2(2) have no: "take (length p) (x # xs) \<noteq> p" "find_sub p xs = None"
    by (auto split: if_splits)
  show ?case
  proof (cases k)
    case 0
    then show ?thesis by (simp add: option.map_ident)
  next
    case (Suc k')
    with 2(3) have k': "k' + length p \<le> Suc (length xs)" "length p \<le> length (x # xs)" by simp_all
    then have "take (length p) (x # xs @ ys) \<noteq> p"
      using no(1) by (cases p) auto
    moreover have "find_sub p (xs @ ys) = map_option ((+) k') (find_sub p (drop k' xs @ ys))"
      using 2(1) [OF no k'(1)] .
    ultimately show ?thesis
      using Suc by (simp add: option.map_comp comp_def)
  qed
qed

subsubsection \<open>One attempt on a longer buffer\<close>

lemma resync_append:
  assumes "resync p = (p', RETRY)" "pbuf q = pbuf p @ c" "pbuf p \<noteq> []"
  shows "\<exists>q'. resync q = (q', RETRY) \<and> pbuf q' = pbuf p' @ c"
proof -
  from assms(1) obtain i where i: "find_sub MAGIC (tl (pbuf p)) = Some i" "pbuf p' = drop (Suc i) (pbuf p)"
    by (auto simp: resync_def find_magic_from1_def Let_def split: option.splits)
  have "i + length MAGIC \<le> length (tl (pbuf p))"
    using find_sub_match [OF i(1)] find_sub_bound [OF i(1)]
    by (metis add_le_cancel_left length_drop length_take le_add_diff_inverse min.cobounded2 min.commute min_def)
  then have "Suc i \<le> length (pbuf p)" by (simp add: MAGIC_def)
  moreover have "tl (pbuf q) = tl (pbuf p) @ c" using assms by simp
  ultimately show ?thesis
    using find_sub_append [OF i(1), of c] assms(2) i(2)
    by (simp add: resync_def find_magic_from1_def Let_def)
qed

text \<open>Whether an attempt resynchronises is decided by the header and a complete body.\<close>

lemma try_one_cases:
  obtains (short) "try_one p = (p, NEED_MORE)"
  | (sync) e where "try_one p = resync (p\<lparr>crc_error_count := e\<rparr>)" "20 \<le> length (pbuf p)"
      "\<And>q c. pbuf q = pbuf p @ c \<Longrightarrow> \<exists>e. try_one q = resync (q\<lparr>crc_error_count := e\<rparr>)"
  | (frame) f total where "try_one p = (p\<lparr>pbuf := drop total (pbuf p)\<rparr>, OK f)" "total \<le> length (pbuf p)"
      "\<And>q c. pbuf q = pbuf p @ c \<Longrightarrow> try_one q = (q\<lparr>pbuf := drop total (pbuf q)\<rparr>, OK f)"
proof -
  let ?b = "pbuf p" and ?len = "be_val (read_at 16 4 (pbuf p))"
  have self: "p\<lparr>crc_error_count := crc_error_count p\<rparr> = p" for p :: parser by simp
  consider "length ?b < 20" | "20 \<le> length ?b" "take 4 ?b \<noteq> MAGIC"
    | "20 \<le> length ?b" "take 4 ?b = MAGIC" by linarith
  then show ?thesis
  proof cases
    case 1
    then show ?thesis using short try_one_short by blast
  next
    case 2
    show ?thesis
    proof (rule sync)
      show "try_one p = resync (p\<lparr>crc_error_count := crc_error_count p\<rparr>)"
        using 2 by (simp add: try_one_def HEADER_SIZE_def Let_def)
      show "20 \<le> length ?b" by (rule 2)
      show "\<exists>e. try_one q = resync (q\<lparr>crc_error_count := e\<rparr>)" if "pbuf q = ?b @ c" for q c
        using 2 that self [of q] by (intro exI [of _ "crc_error_count q"]) (simp add: try_one_def HEADER_SIZE_def Let_def)
    qed
  next
    case 3
    let ?bad = "be_val (read_at 4 1 ?b) \<noteq> VERSION \<or> ?len > MAX_PAYLOAD"
    have same: "read_at i n (?b @ c) = read_at i n ?b" if "i + n \<le> 20" for i n c
      using 3(1) that by (intro read_at_append) simp
    consider "?bad" | "\<not> ?bad" "length ?b < 24 + ?len"
      | "\<not> ?bad" "24 + ?len \<le> length ?b" "be_val (read_at (20 + ?len) 4 ?b) \<noteq> crc32 (take (20 + ?len) ?b)"
      | "\<not> ?bad" "24 + ?len \<le> length ?b" "be_val (read_at (20 + ?len) 4 ?b) = crc32 (take (20 + ?len) ?b)"
      by linarith
    then show ?thesis
    proof cases
      case 1
      show ?thesis
      proof (rule sync)
        show "try_one p = resync (p\<lparr>crc_error_count := crc_error_count p\<rparr>)"
          using 1 3 by (simp add: try_one_def HEADER_SIZE_def Let_def)
        show "20 \<le> length ?b" by (rule 3)
        show "\<exists>e. try_one q = resync (q\<lparr>crc_error_count := e\<rparr>)" if "pbuf q = ?b @ c" for q c
          using 1 3 that self [of q]
          by (intro exI [of _ "crc_error_count q"]) (simp add: try_one_def HEADER_SIZE_def Let_def same)
      qed
    next
      case 2
      with 3 show ?thesis using short by (simp add: try_one_def HEADER_SIZE_def CRC_SIZE_def Let_def)
    next
      case c: 3
      show ?thesis
      proof (rule sync)
        show "try_one p = resync (p\<lparr>crc_error_count := crc_error_count p + 1\<rparr>)"
          using c 3 by (simp add: try_one_def HEADER_SIZE_def CRC_SIZE_def Let_def)
        show "20 \<le> length ?b" by (rule 3)
        show "\<exists>e. try_one q = resync (q\<lparr>crc_error_count := e\<rparr>)" if "pbuf q = ?b @ c'" for q c'
          using c 3 that
          by (intro exI [of _ "crc_error_count q + 1"])
            (simp add: try_one_def HEADER_SIZE_def CRC_SIZE_def Let_def same read_at_append)
      qed
    next
      case c: 4
      let ?f = "\<lparr>msg_type = be_val (read_at 5 1 ?b), seq = be_val (read_at 8 8 ?b),
        flags = be_val (read_at 6 2 ?b), payload = drop 20 (take (20 + ?len) ?b)\<rparr>"
      show ?thesis
      proof (rule frame [of "24 + ?len" ?f])
        show "try_one p = (p\<lparr>pbuf := drop (24 + ?len) ?b\<rparr>, OK ?f)"
          using c 3 by (simp add: try_one_def HEADER_SIZE_def CRC_SIZE_def Let_def add.commute)
        show "24 + ?len \<le> length ?b" by (rule c)
        show "try_one q = (q\<lparr>pbuf := drop (24 + ?len) (pbuf q)\<rparr>, OK ?f)" if "pbuf q = ?b @ c'" for q c'
          using c 3 that
          by (simp add: try_one_def HEADER_SIZE_def CRC_SIZE_def Let_def same read_at_append add.commute)
      qed
    qed
  qed
qed

subsubsection \<open>Frames of a concatenation\<close>

lemma frames_short: "length b < 20 \<Longrightarrow> frames_of b = [] \<and> rest_of b = b"
  using frames_need [of "clean_parser b" "clean_parser b"] try_one_short [of "clean_parser b"]
  by (simp add: clean_parser_def)

lemma resync_none:
  "find_sub MAGIC (tl (pbuf p)) = None \<Longrightarrow>
   resync p = (p\<lparr>pbuf := drop (length (pbuf p) - 3) (pbuf p), resync_count := resync_count p + 1\<rparr>, NEED_MORE)"
  by (simp add: resync_def find_magic_from1_def Let_def)

lemma resync_some:
  "find_sub MAGIC (tl (pbuf p)) = Some i \<Longrightarrow>
   resync p = (p\<lparr>pbuf := drop (Suc i) (pbuf p), resync_count := resync_count p + 1\<rparr>, RETRY)"
  by (simp add: resync_def find_magic_from1_def Let_def)

lemma try_one_no_magic:
  "20 \<le> length (pbuf p) \<Longrightarrow> take 4 (pbuf p) \<noteq> MAGIC \<Longrightarrow> try_one p = resync p"
  by (simp add: try_one_def HEADER_SIZE_def Let_def)

lemma find_sub_tl:
  "p \<noteq> [] \<Longrightarrow> find_sub p xs = (if xs \<noteq> [] \<and> take (length p) xs = p then Some 0
     else if xs = [] then None else map_option Suc (find_sub p (tl xs)))"
  by (cases xs) auto

lemma frames_none:
  assumes "find_sub MAGIC b = None"
  shows "frames_of b = []"
proof (cases "length b < 20")
  case False
  with assms have "take 4 b \<noteq> MAGIC" "find_sub MAGIC (tl b) = None"
    using find_sub_tl [of MAGIC b] by (auto split: if_splits)
  with False frames_need [of "clean_parser b"] resync_none [of "clean_parser b"]
    try_one_no_magic [of "clean_parser b"]
  show ?thesis by (simp add: clean_parser_def)
qed (simp add: frames_short)

lemma frames_skip:
  assumes "find_sub MAGIC b = Some i"
  shows "frames_of b = frames_of (drop i b)"
proof (cases "length b < 20 \<or> i = 0")
  case True
  then show ?thesis by (auto simp: frames_short)
next
  case False
  then obtain j where j: "i = Suc j" by (cases i) auto
  with False assms have "take 4 b \<noteq> MAGIC" "find_sub MAGIC (tl b) = Some j"
    using find_sub_tl [of MAGIC b] by (auto split: if_splits)
  with False j frames_retry [of "clean_parser b"] resync_some [of "clean_parser b" j]
    try_one_no_magic [of "clean_parser b"]
  show ?thesis by (simp add: clean_parser_def)
qed

lemma frames_append: "frames_of (b @ c) = frames_of b @ frames_of (rest_of b @ c)"
proof (induction "length b" arbitrary: b rule: less_induct)
  case less
  let ?p = "clean_parser b" and ?q = "clean_parser (b @ c)"
  have pb: "pbuf ?p = b" "pbuf ?q = pbuf ?p @ c" by (simp_all add: clean_parser_def)
  show ?case
  proof (cases rule: try_one_cases [of ?p])
    case short
    with frames_need [OF short] pb show ?thesis by simp
  next
    case (frame f total)
    from frame(3) [OF pb(2)] frames_ok [OF frame(1)] have
      b: "frames_of b = f # frames_of (drop total b)" "rest_of b = rest_of (drop total b)"
      and q: "try_one ?q = (?q\<lparr>pbuf := drop total (pbuf ?q)\<rparr>, OK f)"
      using pb by simp_all
    have "length (drop total b) < length b"
      using try_one_shrinks [OF frame(1)] pb by simp
    from less [OF this] frames_ok [OF q] b frame(2) pb show ?thesis by simp
  next
    case (sync e)
    from sync(3) [OF pb(2)] obtain e' where q: "try_one ?q = resync (?q\<lparr>crc_error_count := e'\<rparr>)" by auto
    have ne: "b \<noteq> []" using sync(2) pb by auto
    then have ne: "b \<noteq> []" "tl (b @ c) = tl b @ c" by simp_all
    show ?thesis
    proof (cases "find_sub MAGIC (tl b)")
      case (Some i)
      from resync_some [of "?p\<lparr>crc_error_count := e\<rparr>" i] Some sync(1) pb
      obtain p' where p': "try_one ?p = (p', RETRY)" "pbuf p' = drop (Suc i) b" by simp
      from find_sub_append [OF Some, of c] resync_some [of "?q\<lparr>crc_error_count := e'\<rparr>" i] q pb ne
      obtain q' where q': "try_one ?q = (q', RETRY)" "pbuf q' = drop (Suc i) (b @ c)" by simp
      have sh: "length (drop (Suc i) b) < length b" using ne by simp
      have "Suc i \<le> length b" using find_sub_bound [OF Some] ne by (cases b) auto
      with less [OF sh] frames_retry [OF p'(1)] frames_retry [OF q'(1)] p'(2) q'(2) pb
      show ?thesis by simp
    next
      case None
      let ?t = "drop (length b - 3) b"
      from resync_none [of "?p\<lparr>crc_error_count := e\<rparr>"] None sync(1) pb
      have b: "frames_of b = []" "rest_of b = ?t" using frames_need [of ?p] by simp_all
      have "Suc (length b - 4) = length b - 3" using sync(2) pb by simp
      then have "drop (length b - 4) (tl b) = ?t" by (metis drop_Suc)
      with find_sub_keep [OF None, of "length b - 4" c] sync(2) pb
      have find: "find_sub MAGIC (tl b @ c) = map_option ((+) (length b - 4)) (find_sub MAGIC (?t @ c))"
        by simp
      have "frames_of (b @ c) = frames_of (?t @ c)"
      proof (cases "find_sub MAGIC (?t @ c)")
        case None
        with find resync_none [of "?q\<lparr>crc_error_count := e'\<rparr>"] q pb ne
        have "frames_of (b @ c) = []" using frames_need [of ?q] by simp
        with frames_none [OF None] show ?thesis by simp
      next
        case (Some j)
        with find resync_some [of "?q\<lparr>crc_error_count := e'\<rparr>" "length b - 4 + j"] q pb ne
        obtain q' where q': "try_one ?q = (q', RETRY)" "pbuf q' = drop (Suc (length b - 4 + j)) (b @ c)"
          by simp
        have "Suc (length b - 4 + j) = j + (length b - 3)" using sync(2) pb by simp
        then have "pbuf q' = drop j (drop (length b - 3) (b @ c))" using q'(2) by (simp only: drop_drop)
        then have "pbuf q' = drop j (?t @ c)" by simp
        with frames_retry [OF q'(1)] frames_skip [OF Some] pb show ?thesis by simp
      qed
      with b show ?thesis by simp
    qed
  qed
qed

text \<open>
  C10: the frames the parser hands out do not depend on how the input, valid or not, was cut into
  pieces: corrupted, truncated and interleaved input included, feeding the pieces one by one yields
  the frames of feeding their concatenation at once.
\<close>

theorem chunking_irrelevant:
  "snd (feed_all feed new_parser cs) = snd (feed new_parser (concat cs))"
proof -
  have *: "snd (feed_all feed p cs) = frames_of (pbuf p @ concat cs)" if "frames_of (pbuf p) = []" for p
    using that
  proof (induction cs arbitrary: p)
    case Nil
    then show ?case by simp
  next
    case (Cons c cs)
    let ?b = "pbuf p @ c"
    have r: "pbuf (fst (feed p c)) = rest_of ?b" "snd (feed p c) = frames_of ?b"
      by (simp_all add: feed_def feed_loop_frames feed_loop_rest)
    have "frames_of (rest_of ?b) = []" using frames_append [of ?b "[]"] by simp
    with Cons.IH [of "fst (feed p c)"] r frames_append [of ?b "concat cs"] show ?case
      by (simp add: split_beta)
  qed
  from * [of new_parser] frames_short [of "[]"] show ?thesis
    by (simp add: new_parser_def feed_def feed_loop_frames)
qed

subsection \<open>Damage and recovery\<close>

text \<open>
  C15: a change of any one byte of a frame's message type, flags, sequence number, payload or
  checksum is detected: the parser counts a CRC error, delivers no frame in that attempt and goes
  looking for the next magic.
\<close>

theorem damaged_frame_detected:
  assumes "frame_ok f" "i < 24 + length (payload f)" "5 \<le> i" "i < 16 \<or> 20 \<le> i"
    and "x \<noteq> frame_bytes f ! i" "pbuf p = (frame_bytes f)[i := x] @ r"
  shows "try_one p = resync (p\<lparr>crc_error_count := crc_error_count p + 1\<rparr>)
    \<and> snd (try_one p) \<in> {NEED_MORE, RETRY}"
proof -
  let ?n = "length (payload f)"
  let ?h = "frame_header (msg_type f) (flags f) (seq f) ?n"
  let ?body = "?h @ payload f"
  let ?b = "(frame_bytes f)[i := x]"
  have fb: "frame_bytes f = ?body @ be_bytes 4 (crc32 ?body)" by (simp add: frame_bytes_def Let_def)
  have upd: "read_at o' k ?b = read_at o' k ?body" if "o' + k \<le> 20" "i < o' \<or> o' + k \<le> i" for o' k
    using that by (simp add: read_at_update fb read_at_append)
  have tk: "take 4 ?b = take 4 ?body" using assms(3) by (simp add: fb take_update_cancel)
  have len: "?n < 256 ^ 4" "?n \<le> MAX_PAYLOAD" and ok: "msg_type f < 256 ^ 1" "flags f < 256 ^ 2" "seq f < 256 ^ 8"
    using assms(1) by (simp_all only: frame_ok_def) (simp add: MAX_PAYLOAD_def)
  note H = header_fields [OF ok len(1), of "payload f"]
  have lenb: "length ?b = 24 + ?n" by simp
  have app: "read_at o' k (pbuf p) = read_at o' k ?b" if "o' + k \<le> 24 + ?n" for o' k
    using that assms(6) lenb by (simp add: read_at_append)
  have "be_val (read_at (20 + ?n) 4 ?b) \<noteq> crc32 (take (20 + ?n) ?b)"
  proof (cases "i < 20 + ?n")
    case True
    then have "?b = ?body[i := x] @ be_bytes 4 (crc32 ?body)"
      using list_update_append [of ?body "be_bytes 4 (crc32 ?body)" i x] by (simp add: fb)
    then have "take (20 + ?n) ?b = ?body[i := x]" "read_at (20 + ?n) 4 ?b = be_bytes 4 (crc32 ?body)"
      by (simp_all add: read_at_def)
    moreover have "x \<noteq> ?body ! i"
      using assms(5) True nth_append [of ?body "be_bytes 4 (crc32 ?body)" i] by (simp add: fb)
    then have "crc32 (?body[i := x]) \<noteq> crc32 ?body"
      using True by (subst crc32_update) simp_all
    ultimately show ?thesis
      using crc32_less [of ?body] by (simp add: be_val_be_bytes)
  next
    case False
    then have "?b = ?body @ (be_bytes 4 (crc32 ?body))[i - (20 + ?n) := x]"
      using list_update_append [of ?body "be_bytes 4 (crc32 ?body)" i x] by (simp add: fb)
    then have "take (20 + ?n) ?b = ?body"
      and r: "read_at (20 + ?n) 4 ?b = (be_bytes 4 (crc32 ?body))[i - (20 + ?n) := x]"
      by (simp_all add: read_at_def)
    have "x \<noteq> be_bytes 4 (crc32 ?body) ! (i - (20 + ?n))" "i - (20 + ?n) < 4"
      using assms(2,5) False nth_append [of ?body "be_bytes 4 (crc32 ?body)" i] by (simp_all add: fb)
    then have "(be_bytes 4 (crc32 ?body))[i - (20 + ?n) := x] \<noteq> be_bytes 4 (crc32 ?body)"
      by (metis length_be_bytes nth_list_update_eq)
    then have "be_val (read_at (20 + ?n) 4 ?b) \<noteq> crc32 ?body"
      by (metis r be_bytes_be_val length_be_bytes length_list_update)
    with \<open>take (20 + ?n) ?b = ?body\<close> show ?thesis by simp
  qed
  then have crc: "be_val (read_at (20 + ?n) 4 (pbuf p)) \<noteq> crc32 (take (20 + ?n) (pbuf p))"
    using app [of "20 + ?n" 4] lenb assms(6) by simp
  have hd: "take 4 (pbuf p) = MAGIC" "be_val (read_at 4 1 (pbuf p)) = VERSION"
      "be_val (read_at 16 4 (pbuf p)) = ?n"
    using H(1,2,6) tk upd [of 4 1] upd [of 16 4] assms(3,4) lenb
    by (simp_all add: app del: One_nat_def) (simp add: assms(6))
  have "length (pbuf p) \<ge> 24 + ?n" using lenb assms(6) by simp
  then have "try_one p = resync (p\<lparr>crc_error_count := crc_error_count p + 1\<rparr>)"
    unfolding try_one_def Let_def HEADER_SIZE_def CRC_SIZE_def
    using crc hd len(2) by (simp add: add.commute del: One_nat_def)
  then show ?thesis by (simp add: resync_def Let_def split: option.split)
qed

theorem damaged_frame_detected_witness:
  "snd (try_one (clean_parser ((frame_bytes \<lparr>msg_type = 2, seq = 9, flags = 1, payload = [1, 2]\<rparr>)[20 := 7] @ [])))
     \<in> {NEED_MORE, RETRY}"
proof -
  let ?f = "\<lparr>msg_type = 2, seq = 9, flags = 1, payload = [1, 2]\<rparr> :: frame"
  show ?thesis
    by (rule damaged_frame_detected [of ?f 20 7 _ "[]", THEN conjunct2])
      (simp_all add: frame_ok_def MAX_PAYLOAD_def clean_parser_def frame_bytes_def Let_def nth_append)
qed

lemma find_sub_after_noise:
  assumes "find_sub p (g @ take (length p - 1) p) = None" "p \<noteq> []"
  shows "find_sub p (g @ p @ r) = Some (length g)"
  using assms
proof (induction g)
  case Nil
  then show ?case by (cases p) auto
next
  case (Cons x g)
  let ?q = "take (length p - 1) p"
  from Cons.prems have no: "take (length p) (x # g @ ?q) \<noteq> p" "find_sub p (g @ ?q) = None"
    by (auto split: if_splits)
  obtain a l where p: "p = a # l" using Cons.prems(2) by (cases p) auto
  have "take (length l - length g) ((a # l) @ r) = take (length l - length g) (a # l)"
    by (subst take_append) simp
  then have "take (length p) (x # g @ p @ r) = take (length p) (x # g @ ?q)"
    by (simp add: p min_def)
  with no Cons.IH Cons.prems(2) show ?case by simp
qed

text \<open>
  After any noise that contains no frame magic (also not one begun by its tail and completed
  by the stream), every following valid frame is delivered, however the stream is cut.
\<close>

theorem noise_skipped:
  assumes "find_sub MAGIC (g @ take 3 MAGIC) = None" "\<forall>f \<in> set fs. frame_ok f"
    and "concat cs = g @ concat (map frame_bytes fs)"
  shows "snd (feed_all feed new_parser cs) = fs"
proof -
  let ?s = "concat (map frame_bytes fs)"
  have fin: "frames_of ?s = fs"
    using mdfp.any_chunking [of fs "[?s]"] assms(2)
    by (simp add: feed_clean frames_of_def split_beta) 
  have all: "snd (feed_all feed new_parser cs) = frames_of (g @ ?s)"
    using chunking_irrelevant [of cs] assms(3)
    by (simp add: feed_def new_parser_def feed_loop_frames)
  have n4: "take (length MAGIC - 1) MAGIC = take 3 MAGIC" by simp
  show ?thesis
  proof (cases fs)
    case Nil
    have "find_sub MAGIC g = None"
      using assms(1) find_sub_append [of MAGIC g] by (cases "find_sub MAGIC g") auto
    with all Nil frames_none show ?thesis by simp
  next
    case (Cons f fs')
    then obtain r where s: "?s = MAGIC @ r"
      by (simp add: frame_bytes_def Let_def frame_header_def)
    from find_sub_after_noise [of MAGIC g r] assms(1) n4
    have "find_sub MAGIC (g @ ?s) = Some (length g)" unfolding s by simp
    from frames_skip [OF this] fin all show ?thesis by simp
  qed
qed

theorem noise_skipped_witness:
  "snd (feed_all feed new_parser [[0x4D, 0x44, 0x46], frame_bytes \<lparr>msg_type = 1, seq = 4, flags = 0, payload = []\<rparr>])
   = [\<lparr>msg_type = 1, seq = 4, flags = 0, payload = []\<rparr>]"
  by (rule noise_skipped [of "[0x4D, 0x44, 0x46]"])
    (simp_all add: MAGIC_def frame_ok_def MAX_PAYLOAD_def)

subsection \<open>The subscriber's sequence tracker\<close>

record seq_tracker =
  expected :: "nat option"
  gap_count :: nat
  lost_messages :: nat
  duplicate_count :: nat

definition new_tracker :: seq_tracker where
  "new_tracker = \<lparr>expected = None, gap_count = 0, lost_messages = 0, duplicate_count = 0\<rparr>"

definition observe :: "seq_tracker \<Rightarrow> nat \<Rightarrow> seq_tracker \<times> nat" where
  "observe t sq =
     (case expected t of
        None \<Rightarrow> (t\<lparr>expected := Some (sq + 1)\<rparr>, 0)
      | Some e \<Rightarrow>
          if sq = e then (t\<lparr>expected := Some (e + 1)\<rparr>, 0)
          else if sq < e then (t\<lparr>duplicate_count := duplicate_count t + 1\<rparr>, 0)
          else let lost = sq - e in
            (t\<lparr>gap_count := gap_count t + 1, lost_messages := lost_messages t + lost,
               expected := Some (sq + 1)\<rparr>, lost))"

fun observe_all :: "seq_tracker \<Rightarrow> nat list \<Rightarrow> seq_tracker \<times> nat list" where
  "observe_all t [] = (t, [])"
| "observe_all t (s # ss) =
     (let (t1, l) = observe t s; (t2, ls) = observe_all t1 ss in (t2, l # ls))"

definition tracker_stats :: "seq_tracker \<Rightarrow> nat option \<times> nat \<times> nat \<times> nat" where
  "tracker_stats t = (expected t, gap_count t, lost_messages t, duplicate_count t)"

lemma observe_all_account:
  assumes "expected t = Some e"
  shows "\<exists>e'. expected (fst (observe_all t ss)) = Some e' \<and> e \<le> e' \<and> (\<forall>s \<in> set ss. s < e')
    \<and> (e' = e \<or> (\<exists>s \<in> set ss. e' = s + 1))
    \<and> lost_messages (fst (observe_all t ss)) = lost_messages t + sum_list (snd (observe_all t ss))
    \<and> gap_count (fst (observe_all t ss)) = gap_count t + length (filter (\<lambda>l. 0 < l) (snd (observe_all t ss)))
    \<and> e + sum_list (snd (observe_all t ss)) + length ss + duplicate_count t
        = e' + duplicate_count (fst (observe_all t ss))"
  using assms
proof (induction ss arbitrary: t e)
  case Nil
  then show ?case by simp
next
  case (Cons s ss)
  obtain t1 l where o: "observe t s = (t1, l)" by fastforce
  with Cons.prems obtain e1 where
    e1: "expected t1 = Some e1" "e \<le> e1" "s < e1" "e1 = e \<or> e1 = s + 1"
      "lost_messages t1 = lost_messages t + l" "gap_count t1 = gap_count t + (if 0 < l then 1 else 0)"
      "e + l + 1 + duplicate_count t = e1 + duplicate_count t1"
    by (auto simp: observe_def Let_def split: if_splits)
  from Cons.IH [OF e1(1)] obtain e' where
    e': "expected (fst (observe_all t1 ss)) = Some e'" "e1 \<le> e'" "\<forall>s \<in> set ss. s < e'"
      "e' = e1 \<or> (\<exists>s \<in> set ss. e' = s + 1)"
      "lost_messages (fst (observe_all t1 ss)) = lost_messages t1 + sum_list (snd (observe_all t1 ss))"
      "gap_count (fst (observe_all t1 ss)) = gap_count t1 + length (filter (\<lambda>l. 0 < l) (snd (observe_all t1 ss)))"
      "e1 + sum_list (snd (observe_all t1 ss)) + length ss + duplicate_count t1
        = e' + duplicate_count (fst (observe_all t1 ss))" by blast
  show ?case
    using e1 e' by (intro exI [of _ e']) (auto simp: o split_beta)
qed

text \<open>
  C21: the tracker's account of a channel is exact. After the first sequence number \<open>s\<close> and any
  further ones, in any order, the expected number is one more than the largest seen, the lost
  counter is the sum of what the calls returned, the gap counter counts the calls that returned a
  loss, and the numbers from the first up to the largest are the messages that arrived and were
  not counted duplicates, plus the messages counted lost.
\<close>

theorem tracker_accounting:
  "let (t, ls) = observe_all new_tracker (s # ss); e = Max (set (s # ss)) + 1 in
     tracker_stats t = (Some e, length (filter (\<lambda>l. 0 < l) ls), sum_list ls, duplicate_count t)
     \<and> s + sum_list ls + length (s # ss) = e + duplicate_count t"
proof -
  let ?t1 = "new_tracker\<lparr>expected := Some (s + 1)\<rparr>"
  have o: "observe new_tracker s = (?t1, 0)" by (simp add: observe_def new_tracker_def)
  obtain t ls where tl: "observe_all ?t1 ss = (t, ls)" by fastforce
  from observe_all_account [of ?t1 "s + 1" ss] tl obtain e' where
    e': "expected t = Some e'" "s + 1 \<le> e'" "\<forall>s \<in> set ss. s < e'"
      "e' = s + 1 \<or> (\<exists>s \<in> set ss. e' = s + 1)" "lost_messages t = sum_list ls"
      "gap_count t = length (filter (\<lambda>l. 0 < l) ls)"
      "s + 1 + sum_list ls + length ss = e' + duplicate_count t"
    by (auto simp: new_tracker_def)
  have "Max (set (s # ss)) = e' - 1"
    using e'(2-4) by (intro Max_eqI) force+
  with e' tl show ?thesis by (simp add: o tracker_stats_def)
qed

end
