(* ===== verification/CreateOnce.thy ===== *)
theory CreateOnce
  imports Prelude
begin

section \<open>The contract of an idempotent create\<close>

text \<open>
  Both ledgers accept a request that carries a key chosen by the client and must turn any number of
  requests with one key into one record. The locale states the contract of such an operation;
  retrying, whatever the other arguments, then never changes the state again.
\<close>

locale create_once =
  fixes create :: "'k \<Rightarrow> 'a \<Rightarrow> 's \<Rightarrow> 's \<times> ('e + 'r \<times> bool)" and lookup :: "'s \<Rightarrow> 'k \<Rightarrow> 'r option"
  assumes hit: "lookup s k = Some r \<Longrightarrow> create k a s = (s, Inr (r, False))"
    and created: "lookup s k = None \<Longrightarrow> create k a s = (s', Inr (r, b)) \<Longrightarrow> lookup s' k = Some r"
begin

lemma answered: "create k a s = (s', Inr (r, b)) \<Longrightarrow> lookup s' k = Some r"
  by (cases "lookup s k") (auto simp: hit dest: created)

lemma once: "create k a s = (s', Inr (r, b)) \<Longrightarrow> create k a' s' = (s', Inr (r, False))"
  by (rule hit) (rule answered)

lemma retries:
  assumes "create k a s = (s', Inr (r, b))"
  shows "fold (\<lambda>a' s. fst (create k a' s)) as s' = s'"
  by (induction as) (simp_all add: once [OF assms])

end

end
