(* ===== verification/Ledger.thy ===== *)
theory Ledger
  imports CreateOnce "HOL-Library.Char_ord" "HOL-Library.List_Lexorder" "HOL-Library.Multiset"
begin

section \<open>The order ledger\<close>

text \<open>
  Models \<^verbatim>\<open>src/mdfeed/ledger.py\<close>. The SQLite tables are lists of row records in id order (rows are
  never deleted, so \<^verbatim>\<open>AUTOINCREMENT\<close> is the length plus one); an \<^verbatim>\<open>UPDATE ... WHERE id\<close> is
  \<open>update_order\<close>. A call that raises returns the error beside the ledger as the statements executed
  before it left it (the connection is in autocommit mode). The clock is read once per call and
  handed in as \<open>now\<close>; \<^verbatim>\<open>round(amt_delta * take / delta)\<close> is rounding half to even of the exact
  quotient. The row \<^verbatim>\<open>side\<close> is a datatype, which is the table's \<^verbatim>\<open>CHECK (side IN ...)\<close>.
\<close>

datatype side = buy | sell

datatype ostate = PENDING_SUBMIT | ACCEPTED | PARTIAL | FILLED | REJECTED | UNKNOWN | NOT_SENT | EXPIRED

definition OPEN_STATES :: "ostate list" where "OPEN_STATES = [PENDING_SUBMIT, ACCEPTED, PARTIAL, UNKNOWN]"
definition LIVE_STATES :: "ostate list" where "LIVE_STATES = [ACCEPTED, PARTIAL, FILLED, EXPIRED]"
definition FILLABLE_STATES :: "ostate list" where "FILLABLE_STATES = [ACCEPTED, PARTIAL]"
definition UNKNOWN_GRACE_S :: seconds where "UNKNOWN_GRACE_S = 30"
definition NOTICE_GRACE_S :: seconds where "NOTICE_GRACE_S = 60"

lemmas state_sets = OPEN_STATES_def LIVE_STATES_def FILLABLE_STATES_def

record order =
  oid :: nat
  client_order_id :: string
  trade_date :: string
  symbol :: string
  side :: side
  qty :: int
  price :: int
  est_price :: int
  state :: ostate
  odno :: "string option"
  message :: "string option"
  filled_qty :: int
  filled_amt :: int
  created_ts :: seconds
  updated_ts :: seconds

datatype fill_source = DayTotals | Notice

record fill =
  f_order :: nat
  f_qty :: int
  f_amt :: int
  f_source :: fill_source
  f_ts :: seconds

record totals =
  ord_qty :: int
  ccld_qty :: int
  ccld_amt :: int

record notice_fill =
  n_key :: string
  n_order :: nat
  n_qty :: int
  n_amt :: int
  n_ts :: seconds

record day_summary =
  orders_sent :: nat
  orders_rejected :: nat
  orders_not_sent :: nat
  sum_filled_qty :: int
  sum_filled_amt :: int
  expired_orders :: nat
  expired_qty :: int

datatype event_kind =
    OrderCreated string side int int
  | OrderMarked ostate "string option" "string option"
  | RecoveredPendingAsUnknown
  | HoldingsBaseline string "(string \<times> int) list"
  | UnknownResolvedSent int
  | UnknownResolvedNotSent int
  | FillEvent int int fill_source
  | NoticeUnmatched string int int
  | NoticeIgnored int int ostate
  | OrderExpired int
  | DayClosed string day_summary

type_synonym event = "seconds \<times> event_kind \<times> nat option"
type_synonym key = "string \<times> string \<times> side"

record ledger =
  orders :: "order list"
  fills :: "fill list"
  totals_tbl :: "(key \<times> totals) list"
  holdings_tbl :: "((string \<times> string) \<times> int) list"
  holdings_taken :: "(string \<times> seconds) list"
  notice_fills :: "notice_fill list"
  day_closes :: "(string \<times> seconds \<times> day_summary) list"
  events :: "event list"

definition empty_ledger :: ledger where
  "empty_ledger = \<lparr>orders = [], fills = [], totals_tbl = [], holdings_tbl = [], holdings_taken = [],
     notice_fills = [], day_closes = [], events = []\<rparr>"

subsection \<open>Statements\<close>

definition log_event :: "seconds \<Rightarrow> event_kind \<Rightarrow> nat option \<Rightarrow> ledger \<Rightarrow> ledger" where
  "log_event now k i l = l\<lparr>events := events l @ [(now, k, i)]\<rparr>"

definition update_order :: "nat \<Rightarrow> (order \<Rightarrow> order) \<Rightarrow> ledger \<Rightarrow> ledger" where
  "update_order i f l = l\<lparr>orders := map (\<lambda>o'. if oid o' = i then f o' else o') (orders l)\<rparr>"

definition set_state :: "nat \<Rightarrow> ostate \<Rightarrow> seconds \<Rightarrow> ledger \<Rightarrow> ledger" where
  "set_state i s now = update_order i (\<lambda>o'. o'\<lparr>state := s, updated_ts := now\<rparr>)"

definition insert_fill :: "nat \<Rightarrow> int \<Rightarrow> int \<Rightarrow> fill_source \<Rightarrow> seconds \<Rightarrow> ledger \<Rightarrow> ledger" where
  "insert_fill i q a src now l =
     l\<lparr>fills := fills l @ [\<lparr>f_order = i, f_qty = q, f_amt = a, f_source = src, f_ts = now\<rparr>]\<rparr>"

text \<open>The update of an order's filled columns, from the row \<open>o'\<close> read before.\<close>

definition add_fill :: "order \<Rightarrow> int \<Rightarrow> int \<Rightarrow> seconds \<Rightarrow> ledger \<Rightarrow> ledger" where
  "add_fill o' q a now =
     (let filled = filled_qty o' + q in
      update_order (oid o') (\<lambda>r. r\<lparr>filled_qty := filled, filled_amt := filled_amt r + a,
        state := (if filled = qty o' then FILLED else PARTIAL), updated_ts := now\<rparr>))"

subsection \<open>Queries\<close>

definition order_by_id :: "ledger \<Rightarrow> nat \<Rightarrow> py_error + order" where
  "order_by_id l i = (case find (\<lambda>o'. oid o' = i) (orders l) of None \<Rightarrow> Inl TypeError | Some r \<Rightarrow> Inr r)"

definition by_client_id :: "ledger \<Rightarrow> string \<Rightarrow> order option" where
  "by_client_id l c = find (\<lambda>o'. client_order_id o' = c) (orders l)"

definition list_orders :: "ledger \<Rightarrow> string option \<Rightarrow> nat \<Rightarrow> order list" where
  "list_orders l d limit =
     (case d of
        Some t \<Rightarrow> if t \<noteq> '''' then take limit (rev (filter (\<lambda>o'. trade_date o' = t) (orders l)))
                 else take limit (rev (orders l))
      | None \<Rightarrow> take limit (rev (orders l)))"

definition of_key :: "key \<Rightarrow> order \<Rightarrow> bool" where
  "of_key k o' \<longleftrightarrow> (trade_date o', symbol o', side o') = k"

definition open_order :: "ledger \<Rightarrow> key \<Rightarrow> order option" where
  "open_order l k = find (\<lambda>o'. of_key k o' \<and> state o' \<in> set OPEN_STATES) (orders l)"

definition keys_to_watch :: "ledger \<Rightarrow> string \<Rightarrow> (string \<times> side) list" where
  "keys_to_watch l d = remdups (map (\<lambda>o'. (symbol o', side o'))
     (filter (\<lambda>o'. trade_date o' = d \<and> state o' \<notin> {REJECTED, NOT_SENT}) (orders l)))"

definition notional_today :: "ledger \<Rightarrow> string \<Rightarrow> int" where
  "notional_today l d = (\<Sum>o' \<leftarrow> filter (\<lambda>o'. trade_date o' = d \<and> state o' \<notin> {REJECTED, NOT_SENT}) (orders l).
     max (qty o' * est_price o') (filled_amt o'))"

definition recent_events :: "ledger \<Rightarrow> nat \<Rightarrow> event list" where
  "recent_events l limit = take limit (rev (events l))"

subsection \<open>Orders\<close>

definition new_order :: "string \<Rightarrow> key \<Rightarrow> int \<Rightarrow> int \<Rightarrow> int \<Rightarrow> seconds \<Rightarrow> ledger
    \<Rightarrow> ledger \<times> (py_error + order \<times> bool)" where
  "new_order cid k q p est now l =
     (case by_client_id l cid of
        Some row \<Rightarrow> (l, Inr (row, False))
      | None \<Rightarrow>
          if \<not> (q > 0 \<and> p \<ge> 0) then (l, Inl IntegrityError)
          else let i = length (orders l) + 1; (d, sym, sd) = k;
                   row = \<lparr>oid = i, client_order_id = cid, trade_date = d, symbol = sym, side = sd,
                     qty = q, price = p, est_price = (if est \<noteq> 0 then est else p),
                     state = PENDING_SUBMIT, odno = None, message = None, filled_qty = 0,
                     filled_amt = 0, created_ts = now, updated_ts = now\<rparr>;
                   l' = log_event now (OrderCreated sym sd q p) (Some i) (l\<lparr>orders := orders l @ [row]\<rparr>)
               in (l', Inr (row, True)))"

definition coalesce :: "'a option \<Rightarrow> 'a option \<Rightarrow> 'a option" where
  "coalesce a b = (case a of None \<Rightarrow> b | Some x \<Rightarrow> Some x)"

definition mark :: "nat \<Rightarrow> ostate \<Rightarrow> string option \<Rightarrow> string option \<Rightarrow> seconds \<Rightarrow> ledger
    \<Rightarrow> ledger \<times> (py_error + order)" where
  "mark i s no msg now l =
     (let l' = log_event now (OrderMarked s no msg) (Some i)
        (update_order i (\<lambda>o'. o'\<lparr>state := s, odno := coalesce no (odno o'),
           message := coalesce msg (message o'), updated_ts := now\<rparr>) l)
      in (l', order_by_id l' i))"

definition recover_one :: "seconds \<Rightarrow> nat \<Rightarrow> ledger \<Rightarrow> ledger" where
  "recover_one now i l = log_event now RecoveredPendingAsUnknown (Some i) (set_state i UNKNOWN now l)"

definition recover_pending :: "seconds \<Rightarrow> ledger \<Rightarrow> ledger \<times> nat" where
  "recover_pending now l =
     (let rows = map oid (filter (\<lambda>o'. state o' = PENDING_SUBMIT) (orders l))
      in (fold (recover_one now) rows l, length rows))"

subsection \<open>Baselines\<close>

definition totals_baseline :: "ledger \<Rightarrow> key \<Rightarrow> totals option" where
  "totals_baseline l k = map_of (totals_tbl l) k"

definition set_totals_baseline :: "key \<Rightarrow> totals \<Rightarrow> ledger \<Rightarrow> ledger" where
  "set_totals_baseline k t l =
     (case totals_baseline l k of
        Some _ \<Rightarrow> l
      | None \<Rightarrow> l\<lparr>totals_tbl := totals_tbl l @ [(k, t)]\<rparr>)"

definition has_holdings_baseline :: "ledger \<Rightarrow> string \<Rightarrow> bool" where
  "has_holdings_baseline l d \<longleftrightarrow> d \<in> fst ` set (holdings_taken l)"

text \<open>The loop of inserts: each one is committed, a duplicate \<open>(trade_date, symbol)\<close> raises.\<close>

fun insert_holdings :: "string \<Rightarrow> (string \<times> int) list \<Rightarrow> ledger \<Rightarrow> ledger \<times> py_error option" where
  "insert_holdings d [] l = (l, None)"
| "insert_holdings d ((s, q) # hs) l =
     (if (d, s) \<in> fst ` set (holdings_tbl l) then (l, Some IntegrityError)
      else insert_holdings d hs (l\<lparr>holdings_tbl := holdings_tbl l @ [((d, s), q)]\<rparr>))"

definition set_holdings_baseline :: "string \<Rightarrow> (string \<times> int) list \<Rightarrow> seconds \<Rightarrow> ledger
    \<Rightarrow> ledger \<times> py_error option" where
  "set_holdings_baseline d hs now l =
     (if has_holdings_baseline l d then (l, None)
      else case insert_holdings d hs l of
        (l1, Some e) \<Rightarrow> (l1, Some e)
      | (l1, None) \<Rightarrow>
          (log_event now (HoldingsBaseline d hs) None (l1\<lparr>holdings_taken := holdings_taken l1 @ [(d, now)]\<rparr>), None))"

subsection \<open>Reconciliation with the broker's day totals\<close>

datatype break_kind =
    NoBaseline
  | UnexplainedBrokerOrders int
  | LedgerOrdersMissingAtBroker int
  | BrokerFillsBelowLedger int
  | FillsExceedOrders int int

type_synonym break_row = "key \<times> break_kind"

definition sum_of :: "(order \<Rightarrow> int) \<Rightarrow> order list \<Rightarrow> int" where
  "sum_of f os = sum_list (map f os)"

definition rows_of :: "ledger \<Rightarrow> key \<Rightarrow> order list" where
  "rows_of l k = filter (of_key k) (orders l)"

definition resolve_sent :: "seconds \<Rightarrow> int \<Rightarrow> order \<Rightarrow> ledger \<Rightarrow> ledger" where
  "resolve_sent now bq o' l = log_event now (UnknownResolvedSent bq) (Some (oid o')) (set_state (oid o') ACCEPTED now l)"

definition resolve_not_sent :: "seconds \<Rightarrow> int \<Rightarrow> order \<Rightarrow> ledger \<Rightarrow> ledger" where
  "resolve_not_sent now bq o' l =
     (if now - created_ts o' > UNKNOWN_GRACE_S
      then log_event now (UnknownResolvedNotSent bq) (Some (oid o')) (set_state (oid o') NOT_SENT now l)
      else l)"

text \<open>The distribution of an increase over the orders that can still take fills, oldest first.\<close>

fun allocate :: "seconds \<Rightarrow> int \<Rightarrow> int \<Rightarrow> int \<Rightarrow> int \<Rightarrow> order list \<Rightarrow> ledger \<Rightarrow> ledger" where
  "allocate now delta amt_delta left amt_left [] l = l"
| "allocate now delta amt_delta left amt_left (o' # os) l =
     (if left = 0 then l
      else let tk = min (qty o' - filled_qty o') left;
               amt = (if tk = left then amt_left
                      else py_round (of_int (amt_delta * tk) / of_int delta));
               l1 = insert_fill (oid o') tk amt DayTotals now l;
               l2 = add_fill o' tk amt now l1;
               l3 = log_event now (FillEvent tk amt DayTotals) (Some (oid o')) l2
           in allocate now delta amt_delta (left - tk) (amt_left - amt) os l3)"

definition recent_notices :: "ledger \<Rightarrow> seconds \<Rightarrow> nat list \<Rightarrow> int" where
  "recent_notices l now ids =
     (\<Sum>n \<leftarrow> filter (\<lambda>n. n_ts n > now - NOTICE_GRACE_S \<and> n_order n \<in> set ids) (notice_fills l). n_qty n)"

text \<open>The second half of \<^verbatim>\<open>_apply_totals\<close>: filled quantities, given the live rows.\<close>

definition apply_fills :: "key \<Rightarrow> int \<Rightarrow> int \<Rightarrow> order list \<Rightarrow> break_row list \<Rightarrow> seconds \<Rightarrow> ledger
    \<Rightarrow> ledger \<times> break_row list" where
  "apply_fills k b_fill b_amt live breaks now l =
     (let delta = b_fill - sum_of filled_qty live; amt_delta = b_amt - sum_of filled_amt live in
      if delta < 0 then
        if - delta \<le> recent_notices l now (map oid live) then (l, breaks)
        else (l, breaks @ [(k, BrokerFillsBelowLedger delta)])
      else if delta = 0 then (l, breaks)
      else let open_live = filter (\<lambda>o'. state o' \<in> set FILLABLE_STATES \<and> filled_qty o' < qty o') live;
               room = sum_of (\<lambda>o'. qty o' - filled_qty o') open_live in
        if delta > room then (l, breaks @ [(k, FillsExceedOrders delta room)])
        else (allocate now delta amt_delta delta amt_delta open_live l, breaks))"

definition apply_totals :: "key \<Rightarrow> totals \<Rightarrow> seconds \<Rightarrow> ledger \<Rightarrow> ledger \<times> break_row list" where
  "apply_totals k broker now l =
     (case totals_baseline l k of
        None \<Rightarrow> (l, [(k, NoBaseline)])
      | Some base \<Rightarrow>
          let b_ord = ord_qty broker - ord_qty base; b_fill = ccld_qty broker - ccld_qty base;
              b_amt = ccld_amt broker - ccld_amt base; rows = rows_of l k;
              live = filter (\<lambda>o'. state o' \<in> set LIVE_STATES) rows;
              unknown = filter (\<lambda>o'. state o' = UNKNOWN) rows;
              extra = b_ord - sum_of qty live in
          if extra > 0 then
            if unknown \<noteq> [] \<and> sum_of qty unknown = extra then
              let l1 = fold (resolve_sent now (ord_qty broker)) unknown l;
                  live1 = sort_key oid (live @ map (\<lambda>o'. o'\<lparr>state := ACCEPTED\<rparr>) unknown)
              in apply_fills k b_fill b_amt live1 [] now l1
            else (l, [(k, UnexplainedBrokerOrders extra)])
          else
            let breaks = (if extra < 0 then [(k, LedgerOrdersMissingAtBroker (- extra))] else []);
                l1 = fold (resolve_not_sent now (ord_qty broker)) unknown l
            in apply_fills k b_fill b_amt live breaks now l1)"

subsection \<open>Execution notices\<close>

datatype notice_result = Applied | Duplicate | Unmatched | Ignored

definition lstrip0 :: "string \<Rightarrow> string" where
  "lstrip0 s = dropWhile (\<lambda>c. c = CHR ''0'') s"

definition find_by_odno :: "ledger \<Rightarrow> string \<Rightarrow> string \<Rightarrow> order option" where
  "find_by_odno l d no =
     find (\<lambda>o'. trade_date o' = d \<and> (case odno o' of None \<Rightarrow> False | Some x \<Rightarrow> lstrip0 x = lstrip0 no)) (orders l)"

definition apply_notice :: "string \<Rightarrow> string \<Rightarrow> int \<Rightarrow> int \<Rightarrow> string \<Rightarrow> seconds \<Rightarrow> ledger
    \<Rightarrow> ledger \<times> notice_result" where
  "apply_notice d no q p key now l =
     (if key \<in> n_key ` set (notice_fills l) then (l, Duplicate)
      else case find_by_odno l d no of
        None \<Rightarrow> (log_event now (NoticeUnmatched no q p) None l, Unmatched)
      | Some o' \<Rightarrow>
          if state o' \<notin> set FILLABLE_STATES \<or> q \<le> 0 \<or> q > qty o' - filled_qty o'
          then (log_event now (NoticeIgnored q p (state o')) (Some (oid o')) l, Ignored)
          else let amt = q * p;
                   l1 = l\<lparr>notice_fills := notice_fills l @
                     [\<lparr>n_key = key, n_order = oid o', n_qty = q, n_amt = amt, n_ts = now\<rparr>]\<rparr>;
                   l2 = insert_fill (oid o') q amt Notice now l1;
                   l3 = add_fill o' q amt now l2
               in (log_event now (FillEvent q amt Notice) (Some (oid o')) l3, Applied))"

subsection \<open>Holdings\<close>

definition signed :: "side \<Rightarrow> int \<Rightarrow> int" where
  "signed sd q = (case sd of buy \<Rightarrow> q | sell \<Rightarrow> - q)"

definition expected_holdings :: "ledger \<Rightarrow> string \<Rightarrow> (string \<times> int) list" where
  "expected_holdings l d =
     (let base = map (\<lambda>((_, s), q). (s, q)) (filter (\<lambda>((t, _), _). t = d) (holdings_tbl l));
          pos = foldl (\<lambda>p o'. AList.update (symbol o') (dict_get p (symbol o') + signed (side o') (filled_qty o')) p)
                  base (filter (\<lambda>o'. trade_date o' = d) (orders l))
      in filter (\<lambda>(s, q). q \<noteq> 0) pos)"

definition recent_position :: "ledger \<Rightarrow> string \<Rightarrow> seconds \<Rightarrow> string \<Rightarrow> int" where
  "recent_position l d now s =
     (\<Sum>n \<leftarrow> filter (\<lambda>n. n_ts n > now - NOTICE_GRACE_S) (notice_fills l).
        case find (\<lambda>o'. oid o' = n_order n) (orders l) of
          None \<Rightarrow> 0
        | Some o' \<Rightarrow> if trade_date o' = d \<and> symbol o' = s then signed (side o') (n_qty n) else 0)"

record mismatch =
  m_symbol :: string
  ledger_qty :: int
  broker_qty :: int

definition reconcile_holdings :: "ledger \<Rightarrow> string \<Rightarrow> (string \<times> int) list \<Rightarrow> seconds \<Rightarrow> mismatch list" where
  "reconcile_holdings l d broker now =
     (let e = expected_holdings l d in
      List.map_filter (\<lambda>s. let diff = dict_get e s - dict_get broker s; pending = recent_position l d now s in
          if diff = 0 \<or> diff * pending > 0 \<and> \<bar>diff\<bar> \<le> \<bar>pending\<bar> then None
          else Some \<lparr>m_symbol = s, ledger_qty = dict_get e s, broker_qty = dict_get broker s\<rparr>)
        (sort (remdups (map fst e @ map fst broker))))"

subsection \<open>Closing the day\<close>

definition day_close :: "ledger \<Rightarrow> string \<Rightarrow> (seconds \<times> day_summary) option" where
  "day_close l d = map_of (day_closes l) d"

datatype close_result =
    Closed seconds day_summary
  | UnknownOrders "nat list"
  | OpenBreaks nat

definition expire_one :: "seconds \<Rightarrow> order \<Rightarrow> ledger \<Rightarrow> ledger" where
  "expire_one now o' l =
     log_event now (OrderExpired (qty o' - filled_qty o')) (Some (oid o')) (set_state (oid o') EXPIRED now l)"

definition summarise :: "order list \<Rightarrow> order list \<Rightarrow> day_summary" where
  "summarise rows expired =
     (let sent = filter (\<lambda>o'. state o' \<in> set LIVE_STATES) rows in
      \<lparr>orders_sent = length sent,
       orders_rejected = length (filter (\<lambda>o'. state o' = REJECTED) rows),
       orders_not_sent = length (filter (\<lambda>o'. state o' = NOT_SENT) rows),
       sum_filled_qty = sum_of filled_qty sent, sum_filled_amt = sum_of filled_amt sent,
       expired_orders = length expired, expired_qty = sum_of (\<lambda>o'. qty o' - filled_qty o') expired\<rparr>)"

definition close_day :: "string \<Rightarrow> nat \<Rightarrow> seconds \<Rightarrow> ledger \<Rightarrow> ledger \<times> close_result" where
  "close_day d open_breaks now l =
     (case day_close l d of
        Some (ts, sm) \<Rightarrow> (l, Closed ts sm)
      | None \<Rightarrow>
          let rows = list_orders l (Some d) 100000;
              unresolved = map oid (filter (\<lambda>o'. state o' \<in> {PENDING_SUBMIT, UNKNOWN}) rows) in
          if unresolved \<noteq> [] then (l, UnknownOrders unresolved)
          else if open_breaks \<noteq> 0 then (l, OpenBreaks open_breaks)
          else let expired = filter (\<lambda>o'. state o' \<in> set FILLABLE_STATES) rows;
                   l1 = fold (expire_one now) expired l;
                   sm = summarise rows expired;
                   l2 = l1\<lparr>day_closes := day_closes l1 @ [(d, now, sm)]\<rparr>
               in (log_event now (DayClosed d sm) None l2, Closed now sm))"

subsection \<open>Calls as operations\<close>

datatype ledger_op =
    NewOrder string key int int int
  | Mark nat ostate "string option" "string option"
  | RecoverPending
  | SetTotalsBaseline key totals
  | SetHoldingsBaseline string "(string \<times> int) list"
  | ApplyTotals key totals
  | ApplyNotice string string int int string
  | CloseDay string nat

fun ledger_step :: "ledger_op \<times> seconds \<Rightarrow> ledger \<Rightarrow> ledger" where
  "ledger_step (NewOrder cid k q p est, now) l = fst (new_order cid k q p est now l)"
| "ledger_step (Mark i s no msg, now) l = fst (mark i s no msg now l)"
| "ledger_step (RecoverPending, now) l = fst (recover_pending now l)"
| "ledger_step (SetTotalsBaseline k t, now) l = set_totals_baseline k t l"
| "ledger_step (SetHoldingsBaseline d hs, now) l = fst (set_holdings_baseline d hs now l)"
| "ledger_step (ApplyTotals k t, now) l = fst (apply_totals k t now l)"
| "ledger_step (ApplyNotice d no q p key, now) l = fst (apply_notice d no q p key now l)"
| "ledger_step (CloseDay d n, now) l = fst (close_day d n now l)"

definition run_ledger :: "(ledger_op \<times> seconds) list \<Rightarrow> ledger" where
  "run_ledger ops = fold ledger_step ops empty_ledger"

subsection \<open>Rows under the statements\<close>

lemma log_event_sel [simp]:
  "orders (log_event now e i l) = orders l" "fills (log_event now e i l) = fills l"
  "notice_fills (log_event now e i l) = notice_fills l" "totals_tbl (log_event now e i l) = totals_tbl l"
  "day_closes (log_event now e i l) = day_closes l"
  by (simp_all add: log_event_def)

lemma update_order_sel [simp]:
  "orders (update_order i f l) = map (\<lambda>r. if oid r = i then f r else r) (orders l)"
  "fills (update_order i f l) = fills l" "notice_fills (update_order i f l) = notice_fills l"
  "totals_tbl (update_order i f l) = totals_tbl l" "day_closes (update_order i f l) = day_closes l"
  by (simp_all add: update_order_def)

lemma insert_fill_sel [simp]:
  "orders (insert_fill i q a src now l) = orders l"
  "fills (insert_fill i q a src now l) =
     fills l @ [\<lparr>f_order = i, f_qty = q, f_amt = a, f_source = src, f_ts = now\<rparr>]"
  "notice_fills (insert_fill i q a src now l) = notice_fills l"
  "totals_tbl (insert_fill i q a src now l) = totals_tbl l"
  "day_closes (insert_fill i q a src now l) = day_closes l"
  by (simp_all add: insert_fill_def)

text \<open>A batch of state changes is one map over the rows.\<close>

definition restate :: "nat set \<Rightarrow> ostate \<Rightarrow> seconds \<Rightarrow> order list \<Rightarrow> order list" where
  "restate I s now = map (\<lambda>r. if oid r \<in> I then r\<lparr>state := s, updated_ts := now\<rparr> else r)"

lemma restate_insert:
  "map (\<lambda>r. if oid r = i then r\<lparr>state := s, updated_ts := now\<rparr> else r) (restate I s now os)
   = restate (insert i I) s now os"
  by (simp add: restate_def)

lemma restate_empty [simp]: "restate {} s now os = os"
  by (simp add: restate_def)

lemma restate_restate: "restate I s now (restate J s now os) = restate (I \<union> J) s now os"
  by (simp add: restate_def)

lemma set_state_orders: "orders (set_state i s now l) = restate {i} s now (orders l)"
  by (simp add: set_state_def restate_def)

lemma set_state_sel [simp]:
  "fills (set_state i s now l) = fills l" "notice_fills (set_state i s now l) = notice_fills l"
  "totals_tbl (set_state i s now l) = totals_tbl l" "day_closes (set_state i s now l) = day_closes l"
  by (simp_all add: set_state_def)

lemma fold_recover [simp]:
  "orders (fold (recover_one now) is l) = restate (set is) UNKNOWN now (orders l)"
  "fills (fold (recover_one now) is l) = fills l"
  "notice_fills (fold (recover_one now) is l) = notice_fills l"
  "totals_tbl (fold (recover_one now) is l) = totals_tbl l"
  "day_closes (fold (recover_one now) is l) = day_closes l"
  by (induction "is" arbitrary: l) (simp_all add: recover_one_def set_state_orders restate_restate insert_commute Un_commute)

lemma fold_resolve_sent [simp]:
  "orders (fold (resolve_sent now bq) us l) = restate (oid ` set us) ACCEPTED now (orders l)"
  "fills (fold (resolve_sent now bq) us l) = fills l"
  "notice_fills (fold (resolve_sent now bq) us l) = notice_fills l"
  "totals_tbl (fold (resolve_sent now bq) us l) = totals_tbl l"
  "day_closes (fold (resolve_sent now bq) us l) = day_closes l"
  by (induction us arbitrary: l) (simp_all add: resolve_sent_def set_state_orders restate_restate Un_commute)

definition overdue :: "seconds \<Rightarrow> order list \<Rightarrow> nat set" where
  "overdue now us = oid ` {o' \<in> set us. now - created_ts o' > UNKNOWN_GRACE_S}"

lemma overdue_Cons:
  "overdue now (u # us) = (if now - created_ts u > UNKNOWN_GRACE_S then insert (oid u) (overdue now us) else overdue now us)"
  by (auto simp: overdue_def)

lemma fold_resolve_not_sent [simp]:
  "orders (fold (resolve_not_sent now bq) us l) = restate (overdue now us) NOT_SENT now (orders l)"
  "fills (fold (resolve_not_sent now bq) us l) = fills l"
  "notice_fills (fold (resolve_not_sent now bq) us l) = notice_fills l"
  "totals_tbl (fold (resolve_not_sent now bq) us l) = totals_tbl l"
  "day_closes (fold (resolve_not_sent now bq) us l) = day_closes l"
proof (induction us arbitrary: l)
  case Nil
  {
    case 1 then show ?case by (simp add: overdue_def)
  next case 2 then show ?case by simp
  next case 3 then show ?case by simp
  next case 4 then show ?case by simp
  next case 5 then show ?case by simp
  }
next
  case (Cons u us)
  {
    case 1 then show ?case using Cons by (simp add: resolve_not_sent_def set_state_orders restate_restate overdue_Cons Un_commute)
  next case 2 then show ?case using Cons by (simp add: resolve_not_sent_def)
  next case 3 then show ?case using Cons by (simp add: resolve_not_sent_def)
  next case 4 then show ?case using Cons by (simp add: resolve_not_sent_def)
  next case 5 then show ?case using Cons by (simp add: resolve_not_sent_def)
  }
qed

lemma fold_expire [simp]:
  "orders (fold (expire_one now) us l) = restate (oid ` set us) EXPIRED now (orders l)"
  "fills (fold (expire_one now) us l) = fills l"
  "notice_fills (fold (expire_one now) us l) = notice_fills l"
  "totals_tbl (fold (expire_one now) us l) = totals_tbl l"
  "day_closes (fold (expire_one now) us l) = day_closes l"
  by (induction us arbitrary: l) (simp_all add: expire_one_def set_state_orders restate_restate Un_commute)

subsection \<open>The ledger invariant\<close>

definition booked :: "(fill \<Rightarrow> int) \<Rightarrow> ledger \<Rightarrow> nat \<Rightarrow> int" where
  "booked g l i = (\<Sum>f \<leftarrow> filter (\<lambda>f. f_order f = i) (fills l). g f)"

definition row_ok :: "ledger \<Rightarrow> order \<Rightarrow> bool" where
  "row_ok l r \<longleftrightarrow> 0 < qty r \<and> 0 \<le> price r \<and> 0 \<le> filled_qty r \<and> filled_qty r \<le> qty r
     \<and> filled_qty r = booked f_qty l (oid r) \<and> filled_amt r = booked f_amt l (oid r)"

definition ledger_ok :: "ledger \<Rightarrow> bool" where
  "ledger_ok l \<longleftrightarrow> map oid (orders l) = [1..<Suc (length (orders l))]
     \<and> distinct (map client_order_id (orders l)) \<and> (\<forall>r \<in> set (orders l). row_ok l r)
     \<and> (\<forall>f \<in> set (fills l). 0 < f_qty f \<and> f_order f \<in> oid ` set (orders l))
     \<and> distinct (map n_key (notice_fills l))"

lemma ledger_ok_distinct: "ledger_ok l \<Longrightarrow> distinct (map oid (orders l))"
  by (simp add: ledger_ok_def)

lemma ledger_ok_id_inject:
  "ledger_ok l \<Longrightarrow> r \<in> set (orders l) \<Longrightarrow> r' \<in> set (orders l) \<Longrightarrow> oid r = oid r' \<Longrightarrow> r = r'"
  using ledger_ok_distinct by (auto simp: distinct_map inj_on_def)

lemma restate_proj [simp]:
  "map oid (restate I s now os) = map oid os"
  "map client_order_id (restate I s now os) = map client_order_id os"
  "length (restate I s now os) = length os" "oid ` set (restate I s now os) = oid ` set os"
  by (induction os) (auto simp: restate_def)

lemma restate_memD:
  assumes "r \<in> set (restate I s now os)"
  shows "\<exists>x \<in> set os. r = (if oid x \<in> I then x\<lparr>state := s, updated_ts := now\<rparr> else x)"
  using assms unfolding restate_def set_map by blast

lemma row_ok_cong: "fills l' = fills l \<Longrightarrow> row_ok l' r = row_ok l r"
  by (simp add: row_ok_def booked_def)

lemma row_ok_restate: "(\<forall>r \<in> set (restate I s now os). row_ok l r) = (\<forall>r \<in> set os. row_ok l r)"
  by (induction os) (auto simp: restate_def row_ok_def)

lemma ledger_ok_restate:
  assumes "ledger_ok l" "orders l' = restate I s now (orders l)" "fills l' = fills l"
    "notice_fills l' = notice_fills l"
  shows "ledger_ok l'"
  using assms row_ok_restate [of I s now "orders l" l] row_ok_cong [of l' l]
  by (simp add: ledger_ok_def)

lemma ledger_ok_same:
  assumes "ledger_ok l" "orders l' = orders l" "fills l' = fills l" "notice_fills l' = notice_fills l"
  shows "ledger_ok l'"
  using ledger_ok_restate [of l l' "{}" ACCEPTED 0] assms by simp

lemma ledger_ok_log [simp]: "ledger_ok (log_event now e i l) = ledger_ok l"
  using ledger_ok_same [of l "log_event now e i l"] ledger_ok_same [of "log_event now e i l" l] by auto

text \<open>One fill: the row of the fills table and the order's filled columns move together.\<close>

definition book :: "order \<Rightarrow> int \<Rightarrow> int \<Rightarrow> fill_source \<Rightarrow> seconds \<Rightarrow> ledger \<Rightarrow> ledger" where
  "book o' q a src now l = log_event now (FillEvent q a src) (Some (oid o'))
     (add_fill o' q a now (insert_fill (oid o') q a src now l))"

lemma book_sel [simp]:
  "orders (book o' q a src now l) = map (\<lambda>r. if oid r = oid o' then r\<lparr>filled_qty := filled_qty o' + q,
     filled_amt := filled_amt r + a, state := (if filled_qty o' + q = qty o' then FILLED else PARTIAL),
     updated_ts := now\<rparr> else r) (orders l)"
  "fills (book o' q a src now l) = fills l @
     [\<lparr>f_order = oid o', f_qty = q, f_amt = a, f_source = src, f_ts = now\<rparr>]"
  "notice_fills (book o' q a src now l) = notice_fills l"
  "totals_tbl (book o' q a src now l) = totals_tbl l"
  "day_closes (book o' q a src now l) = day_closes l"
  by (simp_all add: book_def add_fill_def Let_def)

lemma booked_book:
  "booked g (book o' q a src now l) i =
     booked g l i + (if i = oid o' then g \<lparr>f_order = oid o', f_qty = q, f_amt = a, f_source = src, f_ts = now\<rparr> else 0)"
  by (simp add: booked_def)

lemma ledger_ok_book:
  assumes ok: "ledger_ok l" and r: "r \<in> set (orders l)" "oid o' = oid r" "qty o' = qty r" "filled_qty o' = filled_qty r"
    and q: "0 < q" "q \<le> qty r - filled_qty r"
  shows "ledger_ok (book o' q a src now l)"
proof -
  let ?l = "book o' q a src now l"
  have ids: "map oid (orders ?l) = map oid (orders l)" "map client_order_id (orders ?l) = map client_order_id (orders l)"
    "length (orders ?l) = length (orders l)" by (simp_all cong: map_cong)
  then have ids': "oid ` set (orders ?l) = oid ` set (orders l)" by (metis image_set)
  have "row_ok ?l x" if x: "x \<in> set (orders ?l)" for x
  proof -
    from x obtain y where y: "y \<in> set (orders l)" "x = (if oid y = oid o' then y\<lparr>filled_qty := filled_qty o' + q,
     filled_amt := filled_amt y + a, state := (if filled_qty o' + q = qty o' then FILLED else PARTIAL),
     updated_ts := now\<rparr> else y)" by auto
    have "row_ok l y" using ok y(1) by (simp add: ledger_ok_def)
    moreover have "oid y = oid o' \<Longrightarrow> y = r" using ledger_ok_id_inject [OF ok y(1) r(1)] r(2) by simp
    ultimately show ?thesis using y(2) q r by (auto simp: row_ok_def booked_book)
  qed
  moreover have "\<forall>f \<in> set (fills ?l). 0 < f_qty f \<and> f_order f \<in> oid ` set (orders ?l)"
    using ok q r ids' by (auto simp: ledger_ok_def)
  ultimately show ?thesis using ok ids by (simp add: ledger_ok_def del: book_sel(1))
qed

text \<open>The rows a call read that are still what the table holds.\<close>

definition tracks :: "key \<Rightarrow> ledger \<Rightarrow> order list \<Rightarrow> bool" where
  "tracks k l os \<longleftrightarrow> distinct (map oid os) \<and> (\<forall>o' \<in> set os. \<exists>r \<in> set (orders l). of_key k r \<and> oid r = oid o'
     \<and> qty r = qty o' \<and> filled_qty r = filled_qty o' \<and> filled_amt r = filled_amt o' \<and> state r = state o')"

definition live_sum :: "(order \<Rightarrow> int) \<Rightarrow> ledger \<Rightarrow> key \<Rightarrow> int" where
  "live_sum g l k = (\<Sum>r \<leftarrow> orders l. if of_key k r \<and> state r \<in> set LIVE_STATES then g r else 0)"

lemma sum_update_one:
  fixes g :: "order \<Rightarrow> int"
  assumes "distinct (map oid os)" "r \<in> set os"
  shows "(\<Sum>x \<leftarrow> map (\<lambda>x. if oid x = oid r then h x else x) os. g x) = (\<Sum>x \<leftarrow> os. g x) + g (h r) - g r"
  using assms
proof (induction os)
  case (Cons a os)
  show ?case
  proof (cases "a = r")
    case True
    with Cons.prems(1) have "map (\<lambda>x. if oid x = oid r then h x else x) os = os"
      by (intro map_idI) (auto simp: image_iff)
    then have "(\<Sum>x\<leftarrow>map (\<lambda>x. if oid x = oid r then h x else x) os. g x) = (\<Sum>x\<leftarrow>os. g x)" by simp
    with True show ?thesis by simp
  next
    case False
    with Cons.prems have "r \<in> set os" "oid a \<noteq> oid r" by auto
    with Cons.IH Cons.prems(1) show ?thesis by simp
  qed
qed simp

lemma live_sum_book:
  assumes ok: "ledger_ok l" and r: "r \<in> set (orders l)" "of_key k r" "oid r = oid o'" "state r \<in> set LIVE_STATES"
    and g: "\<And>x y t. g (x\<lparr>state := y, updated_ts := t\<rparr>) = g x"
  shows "live_sum g (book o' q a src now l) k = live_sum g l k
     + g (r\<lparr>filled_qty := filled_qty o' + q, filled_amt := filled_amt r + a\<rparr>) - g r"
proof -
  let ?h = "\<lambda>r. r\<lparr>filled_qty := filled_qty o' + q, filled_amt := filled_amt r + a,
    state := (if filled_qty o' + q = qty o' then FILLED else PARTIAL), updated_ts := now\<rparr>"
  let ?g = "\<lambda>r. if of_key k r \<and> state r \<in> set LIVE_STATES then g r else 0"
  have "live_sum g (book o' q a src now l) k = (\<Sum>x \<leftarrow> map (\<lambda>x. if oid x = oid r then ?h x else x) (orders l). ?g x)"
    using r(3) by (simp add: live_sum_def cong: map_cong)
  also have "\<dots> = live_sum g l k + ?g (?h r) - ?g r"
    unfolding live_sum_def by (rule sum_update_one [OF ledger_ok_distinct [OF ok] r(1)])
  also have "?g (?h r) = g (?h r)" using r(2) by (simp add: of_key_def LIVE_STATES_def)
  also have "g (?h r) = g (r\<lparr>filled_qty := filled_qty o' + q, filled_amt := filled_amt r + a\<rparr>)"
    using g [where x = "r\<lparr>filled_qty := filled_qty o' + q, filled_amt := filled_amt r + a\<rparr>"] by simp
  finally show ?thesis using r(2,4) by simp
qed

lemma tracks_book:
  assumes "tracks k l (o' # os)"
  shows "tracks k (book o' q a src now l) os"
proof -
  have "\<exists>r \<in> set (orders (book o' q a src now l)). of_key k r \<and> oid r = oid x \<and> qty r = qty x
     \<and> filled_qty r = filled_qty x \<and> filled_amt r = filled_amt x \<and> state r = state x" if x: "x \<in> set os" for x
  proof -
    from assms x obtain r where r: "r \<in> set (orders l)" "of_key k r" "oid r = oid x" "qty r = qty x"
      "filled_qty r = filled_qty x" "filled_amt r = filled_amt x" "state r = state x"
      by (auto simp: tracks_def)
    have "oid o' \<notin> oid ` set os" using assms by (simp add: tracks_def)
    with x r(3) have "oid r \<noteq> oid o'" by (metis imageI)
    with r(1) have "r \<in> set (orders (book o' q a src now l))" by (force simp: image_iff)
    with r show ?thesis by blast
  qed
  with assms show ?thesis by (simp add: tracks_def)
qed

definition room_of :: "order list \<Rightarrow> int" where
  "room_of = sum_of (\<lambda>o'. qty o' - filled_qty o')"

lemma allocate_Cons:
  "allocate now delta amt_delta left amt_left (o' # os) l =
     (if left = 0 then l
      else let tk = min (qty o' - filled_qty o') left;
               amt = (if tk = left then amt_left else py_round (of_int (amt_delta * tk) / of_int delta))
           in allocate now delta amt_delta (left - tk) (amt_left - amt) os (book o' tk amt DayTotals now l))"
  by (simp add: book_def Let_def)

declare allocate.simps(2) [simp del]

lemma room_of_nonneg: "\<forall>o' \<in> set os. filled_qty o' < qty o' \<Longrightarrow> 0 \<le> room_of os"
  by (induction os) (auto simp: room_of_def sum_of_def)

lemma allocate_spec:
  assumes "ledger_ok l" "tracks k l os" "\<forall>o' \<in> set os. filled_qty o' < qty o' \<and> state o' \<in> set FILLABLE_STATES"
    and "0 \<le> left" "left \<le> room_of os"
  shows "ledger_ok (allocate now delta amt_delta left amt_left os l)
    \<and> live_sum qty (allocate now delta amt_delta left amt_left os l) k = live_sum qty l k
    \<and> live_sum filled_qty (allocate now delta amt_delta left amt_left os l) k = live_sum filled_qty l k + left
    \<and> (0 < left \<longrightarrow> live_sum filled_amt (allocate now delta amt_delta left amt_left os l) k
          = live_sum filled_amt l k + amt_left)
    \<and> notice_fills (allocate now delta amt_delta left amt_left os l) = notice_fills l
    \<and> totals_tbl (allocate now delta amt_delta left amt_left os l) = totals_tbl l
    \<and> day_closes (allocate now delta amt_delta left amt_left os l) = day_closes l"
  using assms
proof (induction os arbitrary: left amt_left l)
  case Nil
  then show ?case by (simp add: room_of_def sum_of_def)
next
  case (Cons o' os)
  show ?case
  proof (cases "left = 0")
    case True
    with Cons.prems(1) show ?thesis by (simp add: allocate_Cons)
  next
    case False
    define tk where "tk = min (qty o' - filled_qty o') left"
    define amt where "amt = (if tk = left then amt_left else py_round (of_int (amt_delta * tk) / of_int delta))"
    let ?l = "book o' tk amt DayTotals now l"
    have step: "allocate now delta amt_delta left amt_left (o' # os) l =
      allocate now delta amt_delta (left - tk) (amt_left - amt) os ?l"
      using False by (simp add: allocate_Cons tk_def amt_def Let_def)
    from Cons.prems(2) obtain r where r: "r \<in> set (orders l)" "of_key k r" "oid r = oid o'" "qty r = qty o'"
      "filled_qty r = filled_qty o'" "state r = state o'" by (auto simp: tracks_def)
    have live: "state r \<in> set LIVE_STATES" using Cons.prems(3) r(6) by (auto simp: state_sets)
    have tk: "0 < tk" "tk \<le> qty r - filled_qty r" "tk \<le> left"
      using Cons.prems(3,4) False r(4,5) by (auto simp: tk_def)
    have ok: "ledger_ok ?l"
      using ledger_ok_book [OF Cons.prems(1) r(1)] r tk by simp
    have sums: "live_sum qty ?l k = live_sum qty l k" "live_sum filled_qty ?l k = live_sum filled_qty l k + tk"
      "live_sum filled_amt ?l k = live_sum filled_amt l k + amt"
      using live_sum_book [OF Cons.prems(1) r(1-3) live] r(5) by simp_all
    have left: "left - tk \<le> room_of os" using Cons.prems(3,5) room_of_nonneg [of os]
      by (auto simp: tk_def room_of_def sum_of_def min_def)
    have ih: "\<forall>o' \<in> set os. filled_qty o' < qty o' \<and> state o' \<in> set FILLABLE_STATES" "0 \<le> left - tk"
      using Cons.prems(3) tk(3) by simp_all
    have rest: "live_sum filled_amt (allocate now delta amt_delta (left - tk) (amt_left - amt) os ?l) k
        = live_sum filled_amt l k + amt_left"
    proof (cases "tk = left")
      case True
      then show ?thesis using sums(3) by (cases os) (simp_all add: amt_def allocate_Cons)
    next
      case False
      with tk(3) Cons.IH [OF ok tracks_book [OF Cons.prems(2)] ih left, of "amt_left - amt"] sums(3)
      show ?thesis by simp
    qed
    show ?thesis unfolding step
      using Cons.IH [OF ok tracks_book [OF Cons.prems(2)] ih left, of "amt_left - amt"] sums rest by simp
  qed
qed

definition live_rows :: "ledger \<Rightarrow> key \<Rightarrow> order list" where
  "live_rows l k = filter (\<lambda>o'. state o' \<in> set LIVE_STATES) (rows_of l k)"

definition unknown_rows :: "ledger \<Rightarrow> key \<Rightarrow> order list" where
  "unknown_rows l k = filter (\<lambda>o'. state o' = UNKNOWN) (rows_of l k)"

lemma sum_live_rows: "sum_of g (live_rows l k) = live_sum g l k"
  by (simp add: sum_of_def live_rows_def rows_of_def live_sum_def sum_list_map_filter' conj_commute)

lemma distinct_ids_filter: "distinct (map oid os) \<Longrightarrow> distinct (map oid (filter P os))"
  by (induction os) auto

lemma unknown_id_iff:
  assumes "ledger_ok l" "r \<in> set (orders l)"
  shows "oid r \<in> oid ` set (unknown_rows l k) \<longleftrightarrow> of_key k r \<and> state r = UNKNOWN"
proof
  assume "oid r \<in> oid ` set (unknown_rows l k)"
  then obtain x where x: "x \<in> set (unknown_rows l k)" "oid x = oid r" by auto
  then have "x \<in> set (orders l)" by (simp add: unknown_rows_def rows_of_def)
  with ledger_ok_id_inject [OF assms(1) this assms(2)] x show "of_key k r \<and> state r = UNKNOWN"
    by (auto simp: unknown_rows_def rows_of_def)
next
  assume "of_key k r \<and> state r = UNKNOWN"
  with assms(2) have "r \<in> set (unknown_rows l k)" by (simp add: unknown_rows_def rows_of_def)
  then show "oid r \<in> oid ` set (unknown_rows l k)" by (rule imageI)
qed

lemma live_sum_restate:
  assumes "\<forall>r \<in> set (orders l). oid r \<in> I \<longrightarrow> of_key k r \<and> state r \<notin> set LIVE_STATES"
    and "orders l' = restate I s now (orders l)" and "\<And>x y t. g (x\<lparr>state := y, updated_ts := t\<rparr>) = g x"
  shows "live_sum g l' k = live_sum g l k
    + (if s \<in> set LIVE_STATES then (\<Sum>r \<leftarrow> orders l. if oid r \<in> I then g r else 0) else 0)"
proof -
  have "(\<Sum>r \<leftarrow> restate I s now os. if of_key k r \<and> state r \<in> set LIVE_STATES then g r else 0)
    = (\<Sum>r \<leftarrow> os. if of_key k r \<and> state r \<in> set LIVE_STATES then g r else 0)
      + (if s \<in> set LIVE_STATES then (\<Sum>r \<leftarrow> os. if oid r \<in> I then g r else 0) else 0)"
    if "\<forall>r \<in> set os. oid r \<in> I \<longrightarrow> of_key k r \<and> state r \<notin> set LIVE_STATES" for os
    using that by (induction os) (auto simp: restate_def of_key_def assms(3))
  with assms(1,2) show ?thesis by (simp add: live_sum_def)
qed

lemma tracks_restate:
  assumes "ledger_ok l" "orders l' = restate I s now (orders l)" "distinct (map oid os)"
    and "\<And>x. x \<in> set os \<Longrightarrow> \<exists>r \<in> set (orders l). of_key k r \<and> oid r = oid x \<and> qty r = qty x
      \<and> filled_qty r = filled_qty x \<and> filled_amt r = filled_amt x
      \<and> state x = (if oid r \<in> I then s else state r)"
  shows "tracks k l' os"
proof -
  have "\<exists>r \<in> set (orders l'). of_key k r \<and> oid r = oid x \<and> qty r = qty x
     \<and> filled_qty r = filled_qty x \<and> filled_amt r = filled_amt x \<and> state r = state x" if "x \<in> set os" for x
  proof -
    from assms(4) [OF that] obtain r where r: "r \<in> set (orders l)" "of_key k r" "oid r = oid x" "qty r = qty x"
      "filled_qty r = filled_qty x" "filled_amt r = filled_amt x" "state x = (if oid r \<in> I then s else state r)" by blast
    let ?r = "if oid r \<in> I then r\<lparr>state := s, updated_ts := now\<rparr> else r"
    have "?r \<in> set (orders l')" unfolding assms(2) restate_def set_map using r(1) by (rule imageI)
    moreover have "of_key k ?r \<and> oid ?r = oid x \<and> qty ?r = qty x
      \<and> filled_qty ?r = filled_qty x \<and> filled_amt ?r = filled_amt x \<and> state ?r = state x"
      using r by (simp add: of_key_def)
    ultimately show ?thesis by blast
  qed
  with assms(3) show ?thesis by (simp add: tracks_def)
qed

text \<open>The second half of the reconciliation, from rows that are what the table holds.\<close>

lemma apply_fills_spec:
  assumes ok: "ledger_ok l" and tr: "tracks k l live" and st: "\<forall>o' \<in> set live. state o' \<in> set LIVE_STATES"
    and sums: "sum_of filled_qty live = live_sum filled_qty l k" "sum_of filled_amt live = live_sum filled_amt l k"
    and res: "apply_fills k b_fill b_amt live breaks now l = (l', bs)"
  shows "ledger_ok l' \<and> live_sum qty l' k = live_sum qty l k \<and> notice_fills l' = notice_fills l
    \<and> totals_tbl l' = totals_tbl l \<and> day_closes l' = day_closes l
    \<and> (bs = breaks \<longrightarrow> live_sum filled_qty l' k = b_fill \<or> (l' = l \<and> b_fill < live_sum filled_qty l k
         \<and> live_sum filled_qty l k - b_fill \<le> recent_notices l now (map oid live)))
    \<and> (l' \<noteq> l \<longrightarrow> live_sum filled_amt l' k = b_amt) \<and> (bs \<noteq> breaks \<longrightarrow> l' = l)"
proof -
  let ?ol = "filter (\<lambda>o'. state o' \<in> set FILLABLE_STATES \<and> filled_qty o' < qty o') live"
  let ?d = "b_fill - sum_of filled_qty live" and ?a = "b_amt - sum_of filled_amt live"
  have tr': "tracks k l ?ol" using tr by (auto simp: tracks_def distinct_ids_filter)
  show ?thesis
  proof (cases "0 < ?d \<and> ?d \<le> room_of ?ol")
    case True
    then have "l' = allocate now ?d ?a ?d ?a ?ol l" "bs = breaks"
      using res by (auto simp: apply_fills_def Let_def room_of_def)
    with allocate_spec [OF ok tr', of ?d now ?d ?a ?a] True sums show ?thesis by simp
  next
    case False
    then show ?thesis
      using res ok sums
      by (auto simp: apply_fills_def Let_def room_of_def split: if_splits)
  qed
qed

subsection \<open>The reconciliation is exact\<close>

text \<open>\<^verbatim>\<open>apply_totals\<close> after the baseline lookup, over the row sets named above.\<close>

lemma apply_totals_cases:
  fixes broker :: totals and now :: seconds
  assumes "totals_baseline l k = Some base"
  defines "extra \<equiv> ord_qty broker - ord_qty base - live_sum qty l k"
    and "bf \<equiv> ccld_qty broker - ccld_qty base" and "ba \<equiv> ccld_amt broker - ccld_amt base"
    and "un \<equiv> unknown_rows l k"
  obtains (sent) "0 < extra" "un \<noteq> []" "sum_of qty un = extra"
      "apply_totals k broker now l = apply_fills k bf ba
         (sort_key oid (live_rows l k @ map (\<lambda>o'. o'\<lparr>state := ACCEPTED\<rparr>) un)) [] now
         (fold (resolve_sent now (ord_qty broker)) un l)"
  | (unexplained) "0 < extra" "\<not> (un \<noteq> [] \<and> sum_of qty un = extra)"
      "apply_totals k broker now l = (l, [(k, UnexplainedBrokerOrders extra)])"
  | (fits) "extra \<le> 0"
      "apply_totals k broker now l = apply_fills k bf ba (live_rows l k)
         (if extra < 0 then [(k, LedgerOrdersMissingAtBroker (- extra))] else []) now
         (fold (resolve_not_sent now (ord_qty broker)) un l)"
proof -
  have eqs: "filter (\<lambda>o'. state o' \<in> set LIVE_STATES) (rows_of l k) = live_rows l k"
    "filter (\<lambda>o'. state o' = UNKNOWN) (rows_of l k) = un" by (simp_all add: live_rows_def un_def unknown_rows_def)
  have ex: "ord_qty broker - ord_qty base - sum_of qty (live_rows l k) = extra"
    by (simp add: extra_def sum_live_rows)
  note U = apply_totals_def [of k broker now l, unfolded assms(1) option.case Let_def eqs ex, folded bf_def ba_def]
  consider "0 < extra" "un \<noteq> []" "sum_of qty un = extra" | "0 < extra" "\<not> (un \<noteq> [] \<and> sum_of qty un = extra)"
    | "extra \<le> 0" by linarith
  then show thesis
  proof cases
    case 1
    then show thesis by (intro sent) (simp_all add: U)
  next
    case 2
    then show thesis by (intro unexplained) (auto simp: U)
  next
    case 3
    then show thesis by (intro fits) (simp_all add: U)
  qed
qed

lemma live_tracks:
  assumes "ledger_ok l" "orders l' = restate I s now (orders l)"
    and "\<forall>r \<in> set (orders l). oid r \<in> I \<longrightarrow> state r \<notin> set LIVE_STATES"
  shows "tracks k l' (live_rows l k)"
proof (rule tracks_restate [OF assms(1,2)])
  show "distinct (map oid (live_rows l k))"
    using ledger_ok_distinct [OF assms(1)] by (simp add: live_rows_def rows_of_def distinct_ids_filter)
  fix x assume x: "x \<in> set (live_rows l k)"
  then have "x \<in> set (orders l)" "of_key k x" "state x \<in> set LIVE_STATES" by (auto simp: live_rows_def rows_of_def)
  with assms(3) show "\<exists>r \<in> set (orders l). of_key k r \<and> oid r = oid x \<and> qty r = qty x
      \<and> filled_qty r = filled_qty x \<and> filled_amt r = filled_amt x \<and> state x = (if oid r \<in> I then s else state r)"
    by (intro bexI [of _ x]) auto
qed

lemma sum_of_append [simp]: "sum_of g (xs @ ys) = sum_of g xs + sum_of g ys"
  by (simp add: sum_of_def)

lemma sum_of_sort: "sum_of g (sort_key f xs) = sum_of g xs"
  unfolding sum_of_def by (metis mset_map mset_sort sum_mset_sum_list)

lemma sum_unknown:
  assumes "ledger_ok l"
  shows "sum_of g (unknown_rows l k) = (\<Sum>r \<leftarrow> orders l. if oid r \<in> oid ` set (unknown_rows l k) then g r else 0)"
proof -
  have "(\<Sum>r \<leftarrow> orders l. if oid r \<in> oid ` set (unknown_rows l k) then g r else 0)
      = (\<Sum>r \<leftarrow> orders l. if of_key k r \<and> state r = UNKNOWN then g r else 0)"
    using unknown_id_iff [OF assms] by (intro arg_cong [of _ _ sum_list] map_cong refl) auto
  then show ?thesis
    by (simp add: sum_of_def unknown_rows_def rows_of_def sum_list_map_filter' conj_commute)
qed

lemma sent_spec:
  fixes l :: ledger and k :: key and now :: seconds and bq :: int
  assumes ok: "ledger_ok l"
  defines "un \<equiv> unknown_rows l k" and "l1 \<equiv> fold (resolve_sent now bq) (unknown_rows l k) l"
  defines "live1 \<equiv> sort_key oid (live_rows l k @ map (\<lambda>o'. o'\<lparr>state := ACCEPTED\<rparr>) un)"
  shows "ledger_ok l1" "tracks k l1 live1" "\<forall>o' \<in> set live1. state o' \<in> set LIVE_STATES"
    "sum_of filled_qty live1 = live_sum filled_qty l1 k" "sum_of filled_amt live1 = live_sum filled_amt l1 k"
    "live_sum qty l1 k = live_sum qty l k + sum_of qty un"
proof -
  let ?I = "oid ` set un"
  have o1: "orders l1 = restate ?I ACCEPTED now (orders l)" by (simp add: l1_def un_def)
  show "ledger_ok l1" using ledger_ok_restate [OF ok o1] by (simp add: l1_def)
  have I: "\<forall>r \<in> set (orders l). oid r \<in> ?I \<longrightarrow> of_key k r \<and> state r \<notin> set LIVE_STATES"
    using unknown_id_iff [OF ok] by (auto simp: un_def LIVE_STATES_def)
  have S: "live_sum g l1 k = live_sum g l k + sum_of g un"
    if "\<And>x y t. g (x\<lparr>state := y, updated_ts := t\<rparr>) = g x" for g
    using live_sum_restate [OF I o1, of g] that sum_unknown [OF ok, of g k]
    by (simp add: un_def LIVE_STATES_def)
  have map_un: "sum_of g (map (\<lambda>o'. o'\<lparr>state := ACCEPTED\<rparr>) un) = sum_of g un"
    if "\<And>x y. g (x\<lparr>state := y\<rparr>) = g x" for g using that by (simp add: sum_of_def comp_def)
  show "sum_of filled_qty live1 = live_sum filled_qty l1 k" "sum_of filled_amt live1 = live_sum filled_amt l1 k"
    using S [of filled_qty] S [of filled_amt] map_un [of filled_qty] map_un [of filled_amt]
    by (simp_all add: live1_def sum_of_sort sum_live_rows)
  show "live_sum qty l1 k = live_sum qty l k + sum_of qty un" using S [of qty] by simp
  show "\<forall>o' \<in> set live1. state o' \<in> set LIVE_STATES"
    by (auto simp: live1_def live_rows_def LIVE_STATES_def)
  show "tracks k l1 live1"
  proof (rule tracks_restate [OF ok o1])
    have d: "distinct (map oid (live_rows l k))" "distinct (map oid un)"
      using ledger_ok_distinct [OF ok] by (simp_all add: live_rows_def un_def unknown_rows_def rows_of_def distinct_ids_filter)
    have "oid x \<notin> ?I" if "x \<in> set (live_rows l k)" for x
      using that I by (auto simp: live_rows_def rows_of_def)
    with d have "distinct (map oid (live_rows l k @ map (\<lambda>o'. o'\<lparr>state := ACCEPTED\<rparr>) un))"
      by (auto simp: comp_def)
    then have "distinct (sort (map oid (live_rows l k @ map (\<lambda>o'. o'\<lparr>state := ACCEPTED\<rparr>) un)))" by simp
    then show "distinct (map oid live1)"
      by (metis distinct_sort live1_def mset_map mset_sort mset_eq_imp_distinct_iff)
    fix x assume "x \<in> set live1"
    then consider "x \<in> set (live_rows l k)" | y where "y \<in> set un" "x = y\<lparr>state := ACCEPTED\<rparr>"
      by (auto simp: live1_def)
    then show "\<exists>r \<in> set (orders l). of_key k r \<and> oid r = oid x \<and> qty r = qty x
      \<and> filled_qty r = filled_qty x \<and> filled_amt r = filled_amt x \<and> state x = (if oid r \<in> ?I then ACCEPTED else state r)"
    proof cases
      case 1
      with I show ?thesis by (intro bexI [of _ x]) (auto simp: live_rows_def rows_of_def)
    next
      case 2
      then show ?thesis by (intro bexI [of _ y]) (auto simp: un_def unknown_rows_def rows_of_def)
    qed
  qed
qed

lemma fits_spec:
  fixes l :: ledger and k :: key and now :: seconds and bq :: int
  assumes ok: "ledger_ok l"
  defines "l1 \<equiv> fold (resolve_not_sent now bq) (unknown_rows l k) l"
  shows "ledger_ok l1" "tracks k l1 (live_rows l k)"
    "sum_of filled_qty (live_rows l k) = live_sum filled_qty l1 k"
    "sum_of filled_amt (live_rows l k) = live_sum filled_amt l1 k"
    "live_sum qty l1 k = live_sum qty l k"
proof -
  let ?I = "overdue now (unknown_rows l k)"
  have o1: "orders l1 = restate ?I NOT_SENT now (orders l)" by (simp add: l1_def)
  have "?I \<subseteq> oid ` set (unknown_rows l k)" by (auto simp: overdue_def)
  then have I: "\<forall>r \<in> set (orders l). oid r \<in> ?I \<longrightarrow> of_key k r \<and> state r \<notin> set LIVE_STATES"
    using unknown_id_iff [OF ok, where k = k] by (fastforce simp: LIVE_STATES_def simp del: split_paired_All)
  show "ledger_ok l1" using ledger_ok_restate [OF ok o1] by (simp add: l1_def)
  show "tracks k l1 (live_rows l k)" using live_tracks [OF ok o1] I by blast
  have S: "live_sum g l1 k = live_sum g l k" if "\<And>x y t. g (x\<lparr>state := y, updated_ts := t\<rparr>) = g x" for g
    using live_sum_restate [OF I o1, of g] that by (simp add: LIVE_STATES_def)
  show "sum_of filled_qty (live_rows l k) = live_sum filled_qty l1 k"
    "sum_of filled_amt (live_rows l k) = live_sum filled_amt l1 k" "live_sum qty l1 k = live_sum qty l k"
    using S [of filled_qty] S [of filled_amt] S [of qty] by (simp_all add: sum_live_rows)
qed

lemma apply_totals_frame:
  assumes ok: "ledger_ok l" and res: "apply_totals k broker now l = (l', bs)"
  shows "ledger_ok l' \<and> notice_fills l' = notice_fills l \<and> totals_tbl l' = totals_tbl l \<and> day_closes l' = day_closes l"
proof (cases "totals_baseline l k")
  case None
  with assms show ?thesis by (auto simp: apply_totals_def)
next
  case (Some base)
  have live: "\<forall>o' \<in> set (live_rows l k). state o' \<in> set LIVE_STATES" by (simp add: live_rows_def)
  show ?thesis
  proof (cases rule: apply_totals_cases [OF Some, of broker now])
    case 1
    from res [unfolded 1(4)] have r: "apply_fills k (ccld_qty broker - ccld_qty base) (ccld_amt broker - ccld_amt base)
        (sort_key oid (live_rows l k @ map (\<lambda>o'. o'\<lparr>state := ACCEPTED\<rparr>) (unknown_rows l k))) [] now
        (fold (resolve_sent now (ord_qty broker)) (unknown_rows l k) l) = (l', bs)" .
    from apply_fills_spec [OF sent_spec(1-5) [OF ok] r] show ?thesis by simp
  next
    case 2
    with ok res show ?thesis by simp
  next
    case 3
    from apply_fills_spec [OF fits_spec(1,2) [OF ok] live fits_spec(3,4) [OF ok] res [unfolded 3(2)]]
    show ?thesis by simp
  qed
qed

lemma live_ids_restate:
  assumes "\<forall>r \<in> set (orders l). oid r \<in> I \<longrightarrow> of_key k r \<and> state r \<notin> set LIVE_STATES"
    and "orders l' = restate I s now (orders l)"
  shows "oid ` set (live_rows l' k) =
    oid ` set (live_rows l k) \<union> (if s \<in> set LIVE_STATES then I \<inter> oid ` set (orders l) else {})"
proof -
  have "oid ` set (filter (\<lambda>r. of_key k r \<and> state r \<in> set LIVE_STATES) (restate I s now os)) =
      oid ` set (filter (\<lambda>r. of_key k r \<and> state r \<in> set LIVE_STATES) os)
      \<union> (if s \<in> set LIVE_STATES then I \<inter> oid ` set os else {})"
    if "\<forall>r \<in> set os. oid r \<in> I \<longrightarrow> of_key k r \<and> state r \<notin> set LIVE_STATES" for os
    using that
  proof (induction os)
    case (Cons r os)
    then have ih: "oid ` set (filter (\<lambda>r. of_key k r \<and> state r \<in> set LIVE_STATES) (restate I s now os)) =
      oid ` set (filter (\<lambda>r. of_key k r \<and> state r \<in> set LIVE_STATES) os)
      \<union> (if s \<in> set LIVE_STATES then I \<inter> oid ` set os else {})" by simp
    have "restate I s now (r # os) = (if oid r \<in> I then r\<lparr>state := s, updated_ts := now\<rparr> else r) # restate I s now os"
      by (simp add: restate_def)
    with ih Cons.prems show ?case by (auto simp: of_key_def)
  qed (simp add: restate_def)
  moreover have "live_rows m k = filter (\<lambda>r. of_key k r \<and> state r \<in> set LIVE_STATES) (orders m)" for m
    by (simp add: live_rows_def rows_of_def conj_commute)
  ultimately show ?thesis using assms by simp
qed

lemma apply_fills_prefix: "\<exists>t. snd (apply_fills k bf ba live breaks now l) = breaks @ t"
  by (auto simp: apply_fills_def Let_def)

lemma behind_intro:
  fixes l' l1 :: ledger
  assumes "q = b_ord" "fq l' = bf \<or> (l' = l1 \<and> bf < fq l1 \<and> fq l1 - bf \<le> r)" "rn l1 = r"
    and "F \<Longrightarrow> a = ba"
  shows "q = b_ord \<and> (let behind = fq l' - bf in behind = (0 :: int) \<or> 0 < behind \<and> behind \<le> rn l')
    \<and> (F \<longrightarrow> a = ba)"
  using assms by (auto simp: Let_def)

text \<open>
  C26: reconciliation is exact. When \<^verbatim>\<open>apply_totals\<close> reports no break for a key, the orders the
  broker has taken explain the broker's order quantity exactly, and the filled quantities of those
  orders add up to the broker's filled quantity, unless the broker's total is still behind fills
  that execution notices booked within the grace period. Whenever it books fills, the filled
  amounts add up to the broker's amount to the won, however the amount was split over the orders.
\<close>

theorem apply_totals_exact:
  assumes "ledger_ok l" "totals_baseline l k = Some base" "apply_totals k broker now l = (l', [])"
  shows "live_sum qty l' k = ord_qty broker - ord_qty base
    \<and> (let behind = live_sum filled_qty l' k - (ccld_qty broker - ccld_qty base) in
        behind = 0 \<or> 0 < behind \<and> behind \<le> recent_notices l' now (map oid (live_rows l' k)))
    \<and> (fills l' \<noteq> fills l \<longrightarrow> live_sum filled_amt l' k = ccld_amt broker - ccld_amt base)"
proof -
  let ?un = "unknown_rows l k" and ?bf = "ccld_qty broker - ccld_qty base"
  have unI: "\<forall>r \<in> set (orders l). oid r \<in> oid ` set ?un \<longrightarrow> of_key k r \<and> state r \<notin> set LIVE_STATES"
    using unknown_id_iff [OF assms(1), where k = k] by (fastforce simp: LIVE_STATES_def simp del: split_paired_All)
  show ?thesis
  proof (cases rule: apply_totals_cases [OF assms(2), of broker now])
    case 1
    let ?live = "sort_key oid (live_rows l k @ map (\<lambda>o'. o'\<lparr>state := ACCEPTED\<rparr>) ?un)"
    let ?l1 = "fold (resolve_sent now (ord_qty broker)) ?un l"
    from apply_fills_spec [OF sent_spec(1-5) [OF assms(1)] assms(3) [unfolded 1(4)]]
      sent_spec(6) [OF assms(1), of now "ord_qty broker" k] 1
    have A: "live_sum qty l' k = ord_qty broker - ord_qty base"
      "live_sum filled_qty l' k = ?bf \<or> (l' = ?l1 \<and> ?bf < live_sum filled_qty ?l1 k
         \<and> live_sum filled_qty ?l1 k - ?bf \<le> recent_notices ?l1 now (map oid ?live))"
      "l' \<noteq> ?l1 \<longrightarrow> live_sum filled_amt l' k = ccld_amt broker - ccld_amt base" by auto
    have "oid ` set ?un \<subseteq> oid ` set (orders l)" by (auto simp: unknown_rows_def rows_of_def)
    then have "set (map oid (live_rows ?l1 k)) = set (map oid ?live)"
      using live_ids_restate [OF unI, of ?l1 ACCEPTED now] by (auto simp: LIVE_STATES_def image_Un image_image)
    then have rec: "recent_notices ?l1 now (map oid (live_rows ?l1 k)) = recent_notices ?l1 now (map oid ?live)"
      by (simp only: recent_notices_def)
    show ?thesis
      by (rule behind_intro [where fq = "\<lambda>l. live_sum filled_qty l k"
          and rn = "\<lambda>l. recent_notices l now (map oid (live_rows l k))"], rule A(1), rule A(2), rule rec)
        (use A(3) in auto)
  next
    case 2
    with assms(3) show ?thesis by simp
  next
    case 3
    let ?l1 = "fold (resolve_not_sent now (ord_qty broker)) ?un l"
    have "\<forall>o' \<in> set (live_rows l k). state o' \<in> set LIVE_STATES" by (simp add: live_rows_def)
    note sp = apply_fills_spec [OF fits_spec(1,2) [OF assms(1)] this fits_spec(3,4) [OF assms(1)] assms(3) [unfolded 3(2)]]
    have e0: "ord_qty broker - ord_qty base - live_sum qty l k = 0"
    proof -
      let ?e = "ord_qty broker - ord_qty base - live_sum qty l k"
      let ?br = "if ?e < 0 then [(k, LedgerOrdersMissingAtBroker (- ?e))] else []"
      obtain t where "snd (apply_totals k broker now l) = ?br @ t"
        using apply_fills_prefix [of k ?bf "ccld_amt broker - ccld_amt base" "live_rows l k" ?br now ?l1]
        unfolding 3(2) by blast
      then have "?br = []" using assms(3) by simp
      with 3(1) show ?thesis by (simp split: if_splits)
    qed
    have "oid ` {r \<in> set ?un. now - created_ts r > UNKNOWN_GRACE_S} \<subseteq> oid ` set ?un" by auto
    then have "\<forall>r \<in> set (orders l). oid r \<in> overdue now ?un \<longrightarrow> of_key k r \<and> state r \<notin> set LIVE_STATES"
      using unI unfolding overdue_def by blast
    then have ids: "set (map oid (live_rows ?l1 k)) = set (map oid (live_rows l k))"
      using live_ids_restate [of l "overdue now ?un" k ?l1 NOT_SENT now] by (simp add: LIVE_STATES_def)
    from sp e0 have A: "live_sum filled_qty l' k = ?bf \<or> (l' = ?l1 \<and> ?bf < live_sum filled_qty ?l1 k
         \<and> live_sum filled_qty ?l1 k - ?bf \<le> recent_notices ?l1 now (map oid (live_rows l k)))"
      "l' \<noteq> ?l1 \<longrightarrow> live_sum filled_amt l' k = ccld_amt broker - ccld_amt base"
      "live_sum qty l' k = live_sum qty ?l1 k" by simp_all
    from ids have rec: "recent_notices ?l1 now (map oid (live_rows ?l1 k)) = recent_notices ?l1 now (map oid (live_rows l k))"
      by (simp only: recent_notices_def)
    have "live_sum qty l' k = ord_qty broker - ord_qty base"
      using A(3) e0 fits_spec(5) [OF assms(1), of now "ord_qty broker" k] by simp
    note q = this
    show ?thesis
      by (rule behind_intro [where fq = "\<lambda>l. live_sum filled_qty l k"
          and rn = "\<lambda>l. recent_notices l now (map oid (live_rows l k))"], rule q, rule A(1), rule rec)
        (use A(2) in auto)
  qed
qed

subsection \<open>Every call keeps the invariant\<close>

lemma ledger_ok_map:
  assumes "ledger_ok l" "orders l' = map h (orders l)" "fills l' = fills l" "notice_fills l' = notice_fills l"
    and h: "\<And>r. oid (h r) = oid r \<and> client_order_id (h r) = client_order_id r \<and> qty (h r) = qty r
      \<and> price (h r) = price r \<and> filled_qty (h r) = filled_qty r \<and> filled_amt (h r) = filled_amt r"
  shows "ledger_ok l'"
proof -
  have "map oid (orders l') = map oid (orders l)" "map client_order_id (orders l') = map client_order_id (orders l)"
    "oid ` set (orders l') = oid ` set (orders l)" "length (orders l') = length (orders l)"
    using h by (simp_all add: assms(2) image_image)
  moreover have "\<forall>r \<in> set (orders l'). row_ok l' r"
    using assms(1) h by (auto simp: assms(2,3) row_ok_def booked_def ledger_ok_def)
  ultimately show ?thesis using assms(1,3,4) by (simp add: ledger_ok_def del: upt_Suc)
qed

lemma new_order_ok:
  assumes "ledger_ok l"
  shows "ledger_ok (fst (new_order cid k q p est now l))"
proof (cases "by_client_id l cid = None \<and> q > 0 \<and> p \<ge> 0")
  case False
  with assms show ?thesis by (auto simp: new_order_def split: option.splits)
next
  case True
  let ?n = "Suc (length (orders l))"
  obtain d sym sd where k: "k = (d, sym, sd)" by (cases k) auto
  let ?row = "\<lparr>oid = ?n, client_order_id = cid, trade_date = d, symbol = sym, side = sd,
     qty = q, price = p, est_price = (if est \<noteq> 0 then est else p),
     state = PENDING_SUBMIT, odno = None, message = None, filled_qty = 0,
     filled_amt = 0, created_ts = now, updated_ts = now\<rparr>"
  let ?l = "l\<lparr>orders := orders l @ [?row]\<rparr>"
  have new: "fst (new_order cid k q p est now l) = log_event now (OrderCreated sym sd q p) (Some ?n) ?l"
    using True by (simp add: new_order_def k Let_def)
  have "set (map oid (orders l)) = {1..<?n}"
    using assms by (simp add: ledger_ok_def del: set_map upt_Suc)
  then have ids: "oid ` set (orders l) = {1..<?n}" by simp
  then have none: "filter (\<lambda>f. f_order f = ?n) (fills l) = []"
    using assms by (fastforce simp: ledger_ok_def filter_empty_conv)
  have "cid \<notin> client_order_id ` set (orders l)"
    using True by (auto simp: by_client_id_def find_map_None)
  moreover have "row_ok ?l ?row" using True none by (simp add: row_ok_def booked_def)
  moreover have "row_ok ?l r = row_ok l r" for r by (simp add: row_ok_def booked_def)
  ultimately show ?thesis using assms unfolding new ledger_ok_log
    by (auto simp: ledger_ok_def)
qed

lemma find_by_odno_in: "find_by_odno l d no = Some o' \<Longrightarrow> o' \<in> set (orders l) \<and> trade_date o' = d"
  unfolding find_by_odno_def by (drule find_SomeD) simp

lemma apply_notice_cases:
  obtains (stay) "apply_notice d no q p key now l = (l, Duplicate)" "key \<in> n_key ` set (notice_fills l)"
  | (logged) e i res where "apply_notice d no q p key now l = (log_event now e i l, res)" "res \<in> {Unmatched, Ignored}"
  | (book) o' where "key \<notin> n_key ` set (notice_fills l)" "o' \<in> set (orders l)" "trade_date o' = d"
      "state o' \<in> set FILLABLE_STATES" "0 < q" "q \<le> qty o' - filled_qty o'"
      "apply_notice d no q p key now l = (book o' q (q * p) Notice now (l\<lparr>notice_fills := notice_fills l @
         [\<lparr>n_key = key, n_order = oid o', n_qty = q, n_amt = q * p, n_ts = now\<rparr>]\<rparr>), Applied)"
proof (cases "key \<in> n_key ` set (notice_fills l)")
  case True
  then show thesis by (intro stay) (simp_all add: apply_notice_def)
next
  case False
  show thesis
  proof (cases "find_by_odno l d no")
    case None
    with False show thesis
      by (intro logged [of "NoticeUnmatched no q p" None Unmatched]) (simp_all add: apply_notice_def)
  next
    case (Some o')
    show thesis
    proof (cases "state o' \<notin> set FILLABLE_STATES \<or> q \<le> 0 \<or> q > qty o' - filled_qty o'")
      case True
      with False Some show thesis
        by (intro logged [of "NoticeIgnored q p (state o')" "Some (oid o')" Ignored]) (auto simp: apply_notice_def)
    next
      case ok: False
      with False Some find_by_odno_in [OF Some] show thesis
        by (intro book [of o']) (auto simp: apply_notice_def book_def Let_def)
    qed
  qed
qed

lemma apply_notice_ok:
  assumes "ledger_ok l"
  shows "ledger_ok (fst (apply_notice d no q p key now l))"
proof (cases rule: apply_notice_cases [of d no q p key now l])
  case stay
  with assms show ?thesis by simp
next
  case (logged e i res)
  with assms show ?thesis by simp
next
  case (book o')
  let ?l = "l\<lparr>notice_fills := notice_fills l @
         [\<lparr>n_key = key, n_order = oid o', n_qty = q, n_amt = q * p, n_ts = now\<rparr>]\<rparr>"
  have "row_ok ?l r = row_ok l r" for r by (simp add: row_ok_def booked_def)
  with assms book(1) have "ledger_ok ?l" by (simp add: ledger_ok_def)
  from ledger_ok_book [OF this _ refl refl refl book(5,6), of "q * p" Notice now] book(2,7)
  show ?thesis by simp
qed

lemma insert_holdings_sel:
  "orders (fst (insert_holdings d hs l)) = orders l \<and> fills (fst (insert_holdings d hs l)) = fills l
   \<and> notice_fills (fst (insert_holdings d hs l)) = notice_fills l
   \<and> holdings_taken (fst (insert_holdings d hs l)) = holdings_taken l"
  by (induction d hs l rule: insert_holdings.induct) auto

lemma set_holdings_ok: "ledger_ok l \<Longrightarrow> ledger_ok (fst (set_holdings_baseline d hs now l))"
  using insert_holdings_sel [of d hs l]
  by (auto simp: set_holdings_baseline_def split: prod.split option.split intro!: ledger_ok_same [of l])

lemma close_day_ok: "ledger_ok l \<Longrightarrow> ledger_ok (fst (close_day d n now l))"
  by (auto simp: close_day_def Let_def split: option.split intro: ledger_ok_restate)

lemma ledger_step_ok: "ledger_ok l \<Longrightarrow> ledger_ok (ledger_step (c, now) l)"
proof (cases c)
  case (Mark i s no msg)
  assume "ledger_ok l"
  then show ?thesis
    by (rule ledger_ok_map [where h = "\<lambda>r. if oid r = i then r\<lparr>state := s, odno := coalesce no (odno r),
           message := coalesce msg (message r), updated_ts := now\<rparr> else r"])
      (simp_all add: Mark mark_def Let_def)
next
  case RecoverPending
  assume "ledger_ok l"
  then show ?thesis
    by (rule ledger_ok_restate) (simp_all add: RecoverPending recover_pending_def Let_def)
next
  case (SetTotalsBaseline k t)
  assume "ledger_ok l"
  then show ?thesis
    by (rule ledger_ok_same) (simp_all add: SetTotalsBaseline set_totals_baseline_def split: option.split)
next
  case (ApplyTotals k t)
  assume "ledger_ok l"
  then show ?thesis
    using apply_totals_frame [of l k t now] by (cases "apply_totals k t now l") (simp add: ApplyTotals)
qed (simp_all add: new_order_ok apply_notice_ok set_holdings_ok close_day_ok)

text \<open>
  C24: whatever sequence of calls is made on a new ledger, every order has
  \<open>0 \<le> filled_qty \<le> qty\<close>, its filled quantity and amount are the sums of the fills recorded for it,
  every fill belongs to an order and has a positive quantity, order ids run without gaps, no
  client order id occurs twice and no execution notice is recorded twice.
\<close>

theorem ledger_invariant: "ledger_ok (run_ledger ops)"
proof -
  have "ledger_ok (fold ledger_step ops l)" if "ledger_ok l" for l
    using that
  proof (induction ops arbitrary: l)
    case (Cons a ops)
    then have "ledger_ok (ledger_step a l)" by (cases a) (simp only: ledger_step_ok)
    then show ?case using Cons.IH by simp
  qed simp
  moreover have "ledger_ok empty_ledger" by (simp add: ledger_ok_def empty_ledger_def)
  ultimately show ?thesis by (simp only: run_ledger_def)
qed

subsection \<open>The life of an order\<close>

text \<open>The state changes the ledger itself makes; \<^verbatim>\<open>mark\<close> records what the desk learned.\<close>

inductive moves :: "ostate \<Rightarrow> ostate \<Rightarrow> bool" where
  recover: "moves PENDING_SUBMIT UNKNOWN"
| found_sent: "moves UNKNOWN ACCEPTED"
| found_not_sent: "moves UNKNOWN NOT_SENT"
| part: "s \<in> set FILLABLE_STATES \<Longrightarrow> moves s PARTIAL"
| full: "s \<in> set FILLABLE_STATES \<Longrightarrow> moves s FILLED"
| expire: "s \<in> set FILLABLE_STATES \<Longrightarrow> moves s EXPIRED"

inductive_cases movesE: "moves s t"
inductive_simps moves_final: "moves FILLED t" "moves REJECTED t" "moves NOT_SENT t" "moves EXPIRED t"

definition final :: "ostate \<Rightarrow> bool" where
  "final s \<longleftrightarrow> s \<in> {FILLED, REJECTED, NOT_SENT, EXPIRED}"

lemma final_no_move: "final s \<Longrightarrow> \<not> moves s t"
  by (auto simp: final_def moves_final FILLABLE_STATES_def)

definition advance :: "order \<Rightarrow> order \<Rightarrow> bool" where
  "advance r r' \<longleftrightarrow> oid r' = oid r \<and> client_order_id r' = client_order_id r
     \<and> (trade_date r', symbol r', side r') = (trade_date r, symbol r, side r) \<and> qty r' = qty r \<and> est_price r' = est_price r
     \<and> moves\<^sup>*\<^sup>* (state r) (state r') \<and> filled_qty r \<le> filled_qty r' \<and> (final (state r) \<longrightarrow> r' = r)"

definition evolves :: "ledger \<Rightarrow> ledger \<Rightarrow> bool" where
  "evolves l l' \<longleftrightarrow> (\<exists>h new. orders l' = map h (orders l) @ new \<and> (\<forall>r \<in> set (orders l). advance r (h r)))"

lemma advance_refl [simp]: "advance r r"
  by (simp add: advance_def)

lemma advance_trans: "advance a b \<Longrightarrow> advance b c \<Longrightarrow> advance a c"
  by (auto simp: advance_def)

lemma evolves_same: "orders l' = orders l @ new \<Longrightarrow> evolves l l'"
  unfolding evolves_def by (intro exI [of _ id] exI [of _ new]) simp

lemma evolves_trans:
  assumes "evolves l l'" "evolves l' l''"
  shows "evolves l l''"
proof -
  from assms(1) obtain h n where
    h: "orders l' = map h (orders l) @ n" "\<forall>r \<in> set (orders l). advance r (h r)"
    unfolding evolves_def by blast
  from assms(2) obtain h' n' where
    h': "orders l'' = map h' (orders l') @ n'" "\<forall>r \<in> set (orders l'). advance r (h' r)"
    unfolding evolves_def by blast
  from h h' have "orders l'' = map (h' \<circ> h) (orders l) @ (map h' n @ n')"
    "\<forall>r \<in> set (orders l). advance r ((h' \<circ> h) r)" by (auto intro: advance_trans)
  then show ?thesis unfolding evolves_def by blast
qed

lemma evolves_restate:
  assumes "orders l' = restate I s now (orders l)"
    and "\<forall>r \<in> set (orders l). oid r \<in> I \<longrightarrow> moves (state r) s"
  shows "evolves l l'"
proof -
  let ?h = "\<lambda>r. if oid r \<in> I then r\<lparr>state := s, updated_ts := now\<rparr> else r"
  have "advance r (?h r)" if r: "r \<in> set (orders l)" for r
    using assms(2) r final_no_move [of "state r" s] by (auto simp: advance_def)
  moreover have "orders l' = map ?h (orders l) @ []" by (simp add: assms(1) restate_def)
  ultimately show ?thesis unfolding evolves_def by blast
qed

lemma evolves_book:
  assumes ok: "ledger_ok l" and r: "r \<in> set (orders l)" "oid r = oid o'" "filled_qty r = filled_qty o'"
      "state r \<in> set FILLABLE_STATES" and q: "0 < q"
    and l0: "orders l0 = orders l"
  shows "evolves l (book o' q a src now l0)"
proof -
  let ?h = "\<lambda>r. if oid r = oid o' then r\<lparr>filled_qty := filled_qty o' + q, filled_amt := filled_amt r + a,
    state := (if filled_qty o' + q = qty o' then FILLED else PARTIAL), updated_ts := now\<rparr> else r"
  have "advance x (?h x)" if x: "x \<in> set (orders l)" for x
  proof (cases "oid x = oid o'")
    case True
    then have "x = r" using ledger_ok_id_inject [OF ok x r(1)] r(2) by simp
    moreover have "\<not> final (state r)" using r(4) by (auto simp: final_def FILLABLE_STATES_def)
    ultimately show ?thesis using r q moves.part [OF r(4)] moves.full [OF r(4)]
      by (auto simp: advance_def)
  qed simp
  moreover have "orders (book o' q a src now l0) = map ?h (orders l) @ []" by (simp add: l0)
  ultimately show ?thesis unfolding evolves_def by blast
qed

lemma evolves_allocate:
  assumes "ledger_ok l" "tracks k l os" "\<forall>o' \<in> set os. filled_qty o' < qty o' \<and> state o' \<in> set FILLABLE_STATES"
    and "0 \<le> left"
  shows "evolves l (allocate now delta amt_delta left amt_left os l)"
  using assms
proof (induction os arbitrary: left amt_left l)
  case Nil
  then show ?case by (simp add: evolves_same)
next
  case (Cons o' os)
  show ?case
  proof (cases "left = 0")
    case True
    then show ?thesis by (simp add: allocate_Cons evolves_same)
  next
    case False
    define tk where "tk = min (qty o' - filled_qty o') left"
    define amt where "amt = (if tk = left then amt_left else py_round (of_int (amt_delta * tk) / of_int delta))"
    let ?l = "book o' tk amt DayTotals now l"
    have step: "allocate now delta amt_delta left amt_left (o' # os) l =
      allocate now delta amt_delta (left - tk) (amt_left - amt) os ?l"
      using False by (simp add: allocate_Cons tk_def amt_def Let_def)
    from Cons.prems(2) obtain r where r: "r \<in> set (orders l)" "oid r = oid o'" "qty r = qty o'"
      "filled_qty r = filled_qty o'" "state r = state o'" by (auto simp: tracks_def)
    have tk: "0 < tk" "tk \<le> qty r - filled_qty r" "0 \<le> left - tk"
      using Cons.prems(3,4) False r(3,4) by (auto simp: tk_def)
    have "evolves l ?l"
      using evolves_book [OF Cons.prems(1) r(1,2,4) _ tk(1) refl] Cons.prems(3) r(5) by simp
    moreover have "ledger_ok ?l" using ledger_ok_book [OF Cons.prems(1) r(1)] r tk by simp
    then have "evolves ?l (allocate now delta amt_delta (left - tk) (amt_left - amt) os ?l)"
      using Cons.IH [OF _ tracks_book [OF Cons.prems(2)] _ tk(3)] Cons.prems(3) by simp
    ultimately show ?thesis unfolding step by (rule evolves_trans)
  qed
qed

lemma evolves_apply_fills:
  assumes "ledger_ok l" "tracks k l live"
  shows "evolves l (fst (apply_fills k bf ba live breaks now l))"
proof -
  let ?ol = "filter (\<lambda>o'. state o' \<in> set FILLABLE_STATES \<and> filled_qty o' < qty o') live"
  have "tracks k l ?ol" using assms(2) by (auto simp: tracks_def distinct_ids_filter)
  with assms(1) show ?thesis
    by (auto simp: apply_fills_def Let_def evolves_same intro!: evolves_allocate)
qed

lemma evolves_apply_totals:
  assumes ok: "ledger_ok l"
  shows "evolves l (fst (apply_totals k broker now l))"
proof (cases "totals_baseline l k")
  case None
  then show ?thesis by (simp add: apply_totals_def evolves_same)
next
  case (Some base)
  have un: "r \<in> set (orders l) \<Longrightarrow> oid r \<in> oid ` set (unknown_rows l k) \<Longrightarrow> state r = UNKNOWN" for r
    using unknown_id_iff [OF ok, where k = k] by blast
  have ov: "overdue now (unknown_rows l k) \<subseteq> oid ` set (unknown_rows l k)" by (auto simp: overdue_def)
  show ?thesis
  proof (cases rule: apply_totals_cases [OF Some, of broker now])
    case 1
    have "evolves l (fold (resolve_sent now (ord_qty broker)) (unknown_rows l k) l)"
      by (rule evolves_restate [OF fold_resolve_sent(1)]) (use un moves.found_sent in auto)
    then show ?thesis unfolding 1(4)
      by (rule evolves_trans) (rule evolves_apply_fills [OF sent_spec(1,2) [OF ok]])
  next
    case 2
    then show ?thesis by (simp add: evolves_same)
  next
    case 3
    have "evolves l (fold (resolve_not_sent now (ord_qty broker)) (unknown_rows l k) l)"
      by (rule evolves_restate [OF fold_resolve_not_sent(1)]) (use un ov moves.found_not_sent in auto)
    then show ?thesis unfolding 3(2)
      by (rule evolves_trans) (rule evolves_apply_fills [OF fits_spec(1,2) [OF ok]])
  qed
qed

lemma evolves_apply_notice:
  assumes "ledger_ok l"
  shows "evolves l (fst (apply_notice d no q p key now l))"
proof (cases rule: apply_notice_cases [of d no q p key now l])
  case (book o')
  then show ?thesis using evolves_book [OF assms book(2) refl refl book(4,5)] by simp
qed (simp_all add: evolves_same)

lemma list_orders_in: "r \<in> set (list_orders l d n) \<Longrightarrow> r \<in> set (orders l)"
  by (auto simp: list_orders_def split: option.splits if_splits dest: in_set_takeD)

lemma evolves_close_day:
  assumes ok: "ledger_ok l"
  shows "evolves l (fst (close_day d n now l))"
proof -
  let ?ex = "filter (\<lambda>o'. state o' \<in> set FILLABLE_STATES) (list_orders l (Some d) 100000)"
  have "evolves l l'" if "orders l' = restate (oid ` set ?ex) EXPIRED now (orders l)" for l'
  proof (rule evolves_restate [OF that], intro ballI impI)
    fix r assume r: "r \<in> set (orders l)" "oid r \<in> oid ` set ?ex"
    then obtain x where x: "x \<in> set ?ex" "oid r = oid x" by blast
    with ledger_ok_id_inject [OF ok r(1)] list_orders_in have "r = x" by fastforce
    with x show "moves (state r) EXPIRED" by (intro moves.expire) simp
  qed
  then show ?thesis by (auto simp: close_day_def Let_def evolves_same split: option.split)
qed

fun is_mark :: "ledger_op \<Rightarrow> bool" where
  "is_mark (Mark _ _ _ _) = True"
| "is_mark _ = False"

lemma evolves_step:
  assumes "ledger_ok l" "\<not> is_mark c"
  shows "evolves l (ledger_step (c, now) l)"
proof (cases c)
  case (NewOrder cid k q p est)
  then show ?thesis
    by (auto simp: new_order_def Let_def split: option.split prod.split intro: evolves_same)
next
  case RecoverPending
  let ?is = "map oid (filter (\<lambda>o'. state o' = PENDING_SUBMIT) (orders l))"
  have "evolves l (fold (recover_one now) ?is l)"
  proof (rule evolves_restate [OF fold_recover(1)], intro ballI impI)
    fix r assume r: "r \<in> set (orders l)" "oid r \<in> set ?is"
    then obtain x where x: "x \<in> set (orders l)" "state x = PENDING_SUBMIT" "oid r = oid x" by auto
    with ledger_ok_id_inject [OF assms(1) r(1)] have "r = x" by simp
    with x show "moves (state r) UNKNOWN" by (simp add: moves.recover)
  qed
  then show ?thesis by (simp add: RecoverPending recover_pending_def Let_def)
next
  case (SetTotalsBaseline k t)
  then show ?thesis by (simp add: set_totals_baseline_def evolves_same split: option.split)
next
  case (SetHoldingsBaseline d hs)
  then show ?thesis using insert_holdings_sel [of d hs l]
    by (auto simp: set_holdings_baseline_def evolves_same split: prod.split option.split)
qed (use assms evolves_apply_totals evolves_apply_notice evolves_close_day in auto)

lemma evolves_steps:
  "ledger_ok l \<Longrightarrow> \<forall>(c, now) \<in> set ops. \<not> is_mark c \<Longrightarrow> evolves l (fold ledger_step ops l)"
proof (induction ops arbitrary: l)
  case Nil
  then show ?case by (simp add: evolves_same)
next
  case (Cons a ops)
  obtain c now where a: "a = (c, now)" by (cases a)
  with Cons.prems have "evolves l (ledger_step a l)" "ledger_ok (ledger_step a l)"
    by (simp_all add: evolves_step ledger_step_ok del: ledger_step.simps)
  with Cons.IH [of "ledger_step a l"] Cons.prems(2) show ?case
    by (auto intro: evolves_trans simp del: ledger_step.simps)
qed

text \<open>
  Apart from the explicit \<^verbatim>\<open>mark\<close>, the calls move an order only along its life cycle: a
  pending order can only become unknown, an unknown one only accepted or not sent, an accepted or
  partly filled one only further filled or expired. Its identity, key and quantity never change,
  its filled quantity never falls, and an order that is filled, rejected, not sent or expired is
  never touched again.
\<close>

theorem order_lifecycle:
  assumes "r \<in> set (orders (run_ledger ops))" "\<forall>(c, now) \<in> set ops'. \<not> is_mark c"
  shows "\<exists>r' \<in> set (orders (fold ledger_step ops' (run_ledger ops))). advance r r'"
proof -
  from evolves_steps [OF ledger_invariant assms(2)] obtain h new where
    "orders (fold ledger_step ops' (run_ledger ops)) = map h (orders (run_ledger ops)) @ new"
    "\<forall>r \<in> set (orders (run_ledger ops)). advance r (h r)" unfolding evolves_def by blast
  with assms(1) show ?thesis by auto
qed

definition sample_order :: "ledger_op list" where
  "sample_order = [SetTotalsBaseline (''d'', ''s'', buy) \<lparr>ord_qty = 5, ccld_qty = 5, ccld_amt = 50\<rparr>,
     NewOrder ''c'' (''d'', ''s'', buy) 10 7 0, Mark 1 ACCEPTED (Some ''0042'') None]"

theorem order_lifecycle_witness:
  "\<exists>r' \<in> set (orders (fold ledger_step [(RecoverPending, 1)] (run_ledger [(NewOrder ''c'' (''d'', ''s'', buy) 10 7 0, 0)]))).
     advance (hd (orders (run_ledger [(NewOrder ''c'' (''d'', ''s'', buy) 10 7 0, 0)]))) r'"
  by (rule order_lifecycle)
    (simp_all add: run_ledger_def empty_ledger_def new_order_def by_client_id_def Let_def)

theorem apply_totals_exact_witness:
  "live_sum qty (fst (apply_totals (''d'', ''s'', buy) \<lparr>ord_qty = 15, ccld_qty = 9, ccld_amt = 80\<rparr> 3
      (run_ledger (map (\<lambda>c. (c, 1)) sample_order)))) (''d'', ''s'', buy) = 15 - 5"
proof -
  let ?l = "run_ledger (map (\<lambda>c. (c, 1)) sample_order)"
  let ?t = "\<lparr>ord_qty = 15, ccld_qty = 9, ccld_amt = 80\<rparr>"
  have l: "totals_baseline ?l (''d'', ''s'', buy) = Some \<lparr>ord_qty = 5, ccld_qty = 5, ccld_amt = 50\<rparr>"
    "snd (apply_totals (''d'', ''s'', buy) ?t 3 ?l) = []"
    by (simp_all add: sample_order_def run_ledger_def empty_ledger_def new_order_def by_client_id_def Let_def
        set_totals_baseline_def totals_baseline_def mark_def coalesce_def log_event_def update_order_def
        apply_totals_def rows_of_def of_key_def state_sets apply_fills_def sum_of_def)
  from apply_totals_exact [OF ledger_invariant l(1), of ?t 3] l(2) show ?thesis
    by (cases "apply_totals (''d'', ''s'', buy) ?t 3 ?l") simp
qed

subsection \<open>Calls that happen once\<close>


interpretation new_order: create_once "\<lambda>cid (k, q, p, est, now). new_order cid k q p est now" by_client_id
proof
  fix l cid row a
  assume "by_client_id l cid = Some row"
  then show "(case a of (k, q, p, est, now) \<Rightarrow> new_order cid k q p est now) l = (l, Inr (row, False))"
    by (simp add: new_order_def split: prod.split)
next
  fix l l1 :: ledger and cid :: string and row :: order and created :: bool and a
  assume "by_client_id l cid = None"
    "(case a of (k, q, p, est, now) \<Rightarrow> new_order cid k q p est now) l = (l1, Inr (row, created))"
  then show "by_client_id l1 cid = Some row"
    by (auto simp: new_order_def Let_def by_client_id_def find_snoc_None split: if_splits prod.splits)
qed

text \<open>
  A client order id is one order. Once \<^verbatim>\<open>new_order\<close> has answered for an id, asking again with
  the same id any number of times, whatever the other arguments, returns the same row as not created
  and leaves the ledger as it was.
\<close>

theorem new_order_once:
  assumes "new_order cid k q p est now l = (l1, Inr (row, created))"
  shows "new_order cid k' q' p' est' now' l1 = (l1, Inr (row, False))
    \<and> fold (\<lambda>(k, q, p, est, now) l. fst (new_order cid k q p est now l)) retries l1 = l1"
  using new_order.once [of cid "(k, q, p, est, now)" l l1 row created "(k', q', p', est', now')"]
    new_order.retries [of cid "(k, q, p, est, now)" l l1 row created retries] assms
  by (simp add: case_prod_unfold)

theorem new_order_once_witness:
  "let l1 = fst (new_order ''c'' (''d'', ''s'', buy) 10 7 0 1 empty_ledger) in
     fst (new_order ''c'' (''d'', ''t'', sell) 3 1 0 2 l1) = l1"
proof -
  obtain l1 row where "new_order ''c'' (''d'', ''s'', buy) 10 7 0 1 empty_ledger = (l1, Inr (row, True))"
    by (simp add: new_order_def by_client_id_def empty_ledger_def Let_def)
  from this new_order_once [OF this] show ?thesis by simp
qed

lemma notice_keys_grow:
  "key \<in> n_key ` set (notice_fills l) \<Longrightarrow> ledger_ok l \<Longrightarrow> key \<in> n_key ` set (notice_fills (ledger_step (c, now) l))"
proof (cases c)
  case (ApplyTotals k t)
  assume "key \<in> n_key ` set (notice_fills l)" "ledger_ok l"
  then show ?thesis using apply_totals_frame [of l k t now] by (cases "apply_totals k t now l") (simp add: ApplyTotals)
next
  case (ApplyNotice d no q p key')
  assume "key \<in> n_key ` set (notice_fills l)"
  then show ?thesis
    by (cases rule: apply_notice_cases [of d no q p key' now l]) (simp_all add: ApplyNotice)
next
  case (SetHoldingsBaseline d hs)
  assume "key \<in> n_key ` set (notice_fills l)"
  then show ?thesis using insert_holdings_sel [of d hs l]
    by (auto simp: SetHoldingsBaseline set_holdings_baseline_def split: prod.split option.split)
qed (auto simp: new_order_def mark_def recover_pending_def set_totals_baseline_def close_day_def Let_def
    split: option.split prod.split)

text \<open>
  An execution notice counts once. After a notice was applied, and whatever other calls follow,
  any notice with the same key answers \<^verbatim>\<open>duplicate\<close> and changes nothing; a notice that is applied
  raises the filled quantity of exactly the order it names by exactly its quantity.
\<close>

theorem notice_once:
  assumes "apply_notice d no q p key now (run_ledger ops) = (l1, Applied)"
  shows "apply_notice d' no' q' p' key now' (fold ledger_step ops' l1) = (fold ledger_step ops' l1, Duplicate)
    \<and> (\<exists>o' \<in> set (orders (run_ledger ops)). find_by_odno (run_ledger ops) d no = Some o'
        \<and> map filled_qty (orders l1) =
            map (\<lambda>r. filled_qty r + (if oid r = oid o' then q else 0)) (orders (run_ledger ops)))"
proof (rule conjI)
  have ok: "ledger_ok l1" using apply_notice_ok [OF ledger_invariant, of d no q p key now ops] assms by simp
  have key: "key \<in> n_key ` set (notice_fills l1)"
    using assms by (cases rule: apply_notice_cases [of d no q p key now "run_ledger ops"]) auto
  have "key \<in> n_key ` set (notice_fills (fold ledger_step ops' l))"
    if "ledger_ok l" "key \<in> n_key ` set (notice_fills l)" for l
    using that
  proof (induction ops' arbitrary: l)
    case (Cons a ops')
    then show ?case
      using notice_keys_grow [of key l "fst a" "snd a"] ledger_step_ok [of l "fst a" "snd a"] by simp
  qed simp
  from this [OF ok key] show "apply_notice d' no' q' p' key now' (fold ledger_step ops' l1)
    = (fold ledger_step ops' l1, Duplicate)" by (simp add: apply_notice_def)
next
  let ?l = "run_ledger ops"
  from assms obtain o' where o': "find_by_odno ?l d no = Some o'"
    "orders l1 = orders (book o' q (q * p) Notice now ?l)"
    by (auto simp: apply_notice_def Let_def book_def add_fill_def split: option.splits if_splits)
  then have in': "o' \<in> set (orders ?l)" by (simp add: find_by_odno_in)
  have "map filled_qty (orders l1) = map (\<lambda>r. filled_qty r + (if oid r = oid o' then q else 0)) (orders ?l)"
    by (auto simp: o'(2) dest!: ledger_ok_id_inject [OF ledger_invariant _ in'])
  with o' in' show "\<exists>o' \<in> set (orders ?l). find_by_odno ?l d no = Some o' \<and> map filled_qty (orders l1) =
      map (\<lambda>r. filled_qty r + (if oid r = oid o' then q else 0)) (orders ?l)" by blast
qed

theorem notice_once_witness:
  "let l = run_ledger (map (\<lambda>c. (c, 1)) sample_order); l1 = fst (apply_notice ''d'' ''42'' 4 7 ''k'' 2 l) in
     apply_notice ''d'' ''42'' 4 7 ''k'' 3 l1 = (l1, Duplicate)"
proof -
  let ?l = "run_ledger (map (\<lambda>c. (c, 1)) sample_order)"
  have "snd (apply_notice ''d'' ''42'' 4 7 ''k'' 2 ?l) = Applied"
    by (simp add: sample_order_def run_ledger_def empty_ledger_def new_order_def by_client_id_def Let_def
        set_totals_baseline_def totals_baseline_def mark_def coalesce_def log_event_def update_order_def
        apply_notice_def find_by_odno_def lstrip0_def state_sets)
  then obtain l1 where l1: "apply_notice ''d'' ''42'' 4 7 ''k'' 2 ?l = (l1, Applied)"
    by (metis prod.collapse)
  from notice_once [OF l1, where ops' = "[]" and d' = "''d''" and no' = "''42''" and q' = 4 and p' = 7 and now' = 3]
  show ?thesis by (simp add: l1 Let_def)
qed

subsection \<open>A closed day\<close>

lemma close_day_Closed:
  assumes "close_day d n now l = (l1, Closed ts sm)" "day_close l d = None"
  shows "(\<forall>r \<in> set (list_orders l (Some d) 100000). state r \<notin> {PENDING_SUBMIT, UNKNOWN})
    \<and> orders l1 = restate (oid ` set (filter (\<lambda>o'. state o' \<in> set FILLABLE_STATES)
        (list_orders l (Some d) 100000))) EXPIRED now (orders l)"
proof -
  define rows where "rows = list_orders l (Some d) 100000"
  define ex where "ex = filter (\<lambda>o'. state o' \<in> set FILLABLE_STATES) rows"
  define un where "un = map oid (filter (\<lambda>o'. state o' \<in> {PENDING_SUBMIT, UNKNOWN}) rows)"
  have C: "close_day d n now l = (if un \<noteq> [] then (l, UnknownOrders un) else if n \<noteq> 0 then (l, OpenBreaks n)
      else (log_event now (DayClosed d (summarise rows ex)) None
             ((fold (expire_one now) ex l)\<lparr>day_closes := day_closes (fold (expire_one now) ex l)
                @ [(d, now, summarise rows ex)]\<rparr>), Closed now (summarise rows ex)))"
    by (simp only: close_day_def assms(2) option.case Let_def rows_def ex_def un_def)
  have "un = []" "n = 0" using C assms(1) by (auto simp del: fold_expire split: if_splits)
  moreover from this C assms(1)
  have "l1 = log_event now (DayClosed d (summarise rows ex)) None
     ((fold (expire_one now) ex l)\<lparr>day_closes := day_closes (fold (expire_one now) ex l)
        @ [(d, now, summarise rows ex)]\<rparr>)" by (auto simp del: fold_expire)
  then have "orders l1 = restate (oid ` set ex) EXPIRED now (orders l)" by simp
  ultimately show ?thesis by (auto simp: un_def ex_def rows_def filter_empty_conv)
qed
text \<open>
  A day that was closed stays as it was closed. If \<^verbatim>\<open>close_day\<close> closes a date it had not
  closed before (and the date has no more orders than the call reads), then every order of that date
  is filled, rejected, not sent or expired, and no later call except an explicit \<^verbatim>\<open>mark\<close> changes any
  of them: no notice and no broker total is booked on a closed order.
\<close>

theorem closed_day_final:
  assumes "close_day d n now (run_ledger ops) = (l1, Closed ts sm)" "day_close (run_ledger ops) d = None"
    and "length (filter (\<lambda>r. trade_date r = d) (orders (run_ledger ops))) \<le> 100000" "d \<noteq> ''''"
    and "\<forall>(c, now) \<in> set ops'. \<not> is_mark c" "r \<in> set (orders l1)" "trade_date r = d"
  shows "final (state r) \<and> r \<in> set (orders (fold ledger_step ops' l1))"
proof -
  let ?l = "run_ledger ops"
  let ?rows = "list_orders ?l (Some d) 100000"
  let ?ex = "filter (\<lambda>o'. state o' \<in> set FILLABLE_STATES) ?rows"
  have rows: "set ?rows = {r \<in> set (orders ?l). trade_date r = d}"
    using assms(3,4) by (auto simp: list_orders_def)
  from close_day_Closed [OF assms(1,2)]
  have none: "\<forall>r \<in> set ?rows. state r \<notin> {PENDING_SUBMIT, UNKNOWN}"
    and l1: "orders l1 = restate (oid ` set ?ex) EXPIRED now (orders ?l)" by blast+
  have ok1: "ledger_ok l1" using close_day_ok [OF ledger_invariant, of d n now ops] assms(1) by simp
  from restate_memD [OF assms(6) [unfolded l1]] obtain x where x: "x \<in> set (orders ?l)"
    "r = (if oid x \<in> oid ` set ?ex then x\<lparr>state := EXPIRED, updated_ts := now\<rparr> else x)" by blast
  have fin: "final (state r)"
  proof (cases "oid x \<in> oid ` set ?ex")
    case True
    with x(2) show ?thesis by (simp add: final_def)
  next
    case False
    with x(2) have "r = x" by simp
    with x assms(7) rows have "x \<in> set ?rows" by simp
    moreover from this False have "state x \<notin> set FILLABLE_STATES" by (auto simp: image_iff)
    ultimately show ?thesis using none \<open>r = x\<close>
      by (cases "state x") (auto simp: final_def FILLABLE_STATES_def)
  qed
  from evolves_steps [OF ok1 assms(5)] obtain h new where
    h: "orders (fold ledger_step ops' l1) = map h (orders l1) @ new" "\<forall>r \<in> set (orders l1). advance r (h r)"
    unfolding evolves_def by blast
  with assms(6) fin have "h r = r" by (simp add: advance_def)
  with h(1) assms(6) have "r \<in> set (orders (fold ledger_step ops' l1))" by force
  with fin show ?thesis by simp
qed

theorem closed_day_final_witness:
  "let l1 = fst (close_day ''d'' 0 5 (run_ledger (map (\<lambda>c. (c, 1)) sample_order))) in
     hd (orders l1) \<in> set (orders (fold ledger_step
       [(ApplyTotals (''d'', ''s'', buy) \<lparr>ord_qty = 15, ccld_qty = 9, ccld_amt = 80\<rparr>, 6)] l1))"
proof -
  let ?l = "run_ledger (map (\<lambda>c. (c, 1)) sample_order)"
  note defs = sample_order_def run_ledger_def empty_ledger_def new_order_def by_client_id_def Let_def
        set_totals_baseline_def totals_baseline_def mark_def coalesce_def log_event_def update_order_def
  have one: "\<exists>r. orders ?l = [r] \<and> trade_date r = ''d'' \<and> state r = ACCEPTED" "day_closes ?l = []"
    by (simp_all add: defs)
  then obtain r where r: "orders ?l = [r]" "trade_date r = ''d''" "state r = ACCEPTED" by blast
  obtain l1 sm where l1: "close_day ''d'' 0 5 ?l = (l1, Closed 5 sm)"
    using r one(2) by (simp add: close_day_def day_close_def list_orders_def Let_def)
  have none: "day_close ?l ''d'' = None" using one(2) by (simp add: day_close_def)
  have "orders l1 = restate {oid r} EXPIRED 5 [r]"
    using close_day_Closed [OF l1 none] r by (simp add: list_orders_def FILLABLE_STATES_def)
  then have h: "hd (orders l1) \<in> set (orders l1)" "trade_date (hd (orders l1)) = ''d''"
    using r(2) by (simp_all add: restate_def)
  show ?thesis
    using closed_day_final [OF l1 none _ _ _ h, where ops' =
        "[(ApplyTotals (''d'', ''s'', buy) \<lparr>ord_qty = 15, ccld_qty = 9, ccld_amt = 80\<rparr>, 6)]"] r(1)
    by (simp add: l1 Let_def del: ledger_step.simps)
qed

subsection \<open>A crash while the holdings baseline is taken\<close>

text \<open>
  The inserts of a holdings baseline are committed one by one, without a transaction. If the
  process dies after some of them, no later \<^verbatim>\<open>set_holdings_baseline\<close> of that date that holds one of
  the symbols already written can succeed: it raises and the date never gets its baseline.
\<close>

theorem holdings_baseline_crash:
  assumes "\<not> has_holdings_baseline l d" "insert_holdings d written l = (l1, None)"
    and "s \<in> fst ` set written" "s \<in> fst ` set retry"
  shows "snd (set_holdings_baseline d retry now l1) = Some IntegrityError
    \<and> \<not> has_holdings_baseline (fst (set_holdings_baseline d retry now l1)) d"
proof -
  have keep: "x \<in> fst ` set (holdings_tbl l) \<Longrightarrow> x \<in> fst ` set (holdings_tbl (fst (insert_holdings d hs l)))" for x l hs
    by (induction d hs l rule: insert_holdings.induct) auto
  have rows: "snd (insert_holdings d hs l) = None \<Longrightarrow> s \<in> fst ` set hs
      \<Longrightarrow> (d, s) \<in> fst ` set (holdings_tbl (fst (insert_holdings d hs l)))" for hs l
  proof (induction d hs l rule: insert_holdings.induct)
    case (2 d s' q hs l)
    let ?l = "l\<lparr>holdings_tbl := holdings_tbl l @ [((d, s'), q)]\<rparr>"
    have "x \<in> fst ` set (holdings_tbl l) \<Longrightarrow> x \<in> fst ` set (holdings_tbl (fst (insert_holdings d hs l)))" for x l
      by (induction d hs l rule: insert_holdings.induct) auto
    from this [of "(d, s')" ?l] 2 show ?case by (auto split: if_splits)
  qed simp
  have stuck: "(d, s) \<in> fst ` set (holdings_tbl l) \<Longrightarrow> s \<in> fst ` set hs \<Longrightarrow>
      snd (insert_holdings d hs l) = Some IntegrityError" for hs l
    by (induction d hs l rule: insert_holdings.induct) auto
  have "\<not> has_holdings_baseline l1 d"
    using assms(1,2) insert_holdings_sel [of d written l] by (simp add: has_holdings_baseline_def)
  moreover have "snd (insert_holdings d retry l1) = Some IntegrityError"
    using stuck [of l1 retry] rows [of written l] assms(2-4) by simp
  ultimately show ?thesis using insert_holdings_sel [of d retry l1]
    by (auto simp: set_holdings_baseline_def has_holdings_baseline_def split: prod.split option.split)
qed

theorem holdings_baseline_crash_witness:
  "snd (set_holdings_baseline ''d'' [(''a'', 1), (''b'', 2)] 5 (fst (insert_holdings ''d'' [(''a'', 1)] empty_ledger)))
     = Some IntegrityError"
  by (rule holdings_baseline_crash [where l = empty_ledger and written = "[(''a'', 1)]" and s = "''a''", THEN conjunct1])
    (simp_all add: has_holdings_baseline_def empty_ledger_def)

subsection \<open>What a reconciliation has to report\<close>

text \<open>The quantity the orders of a key can still take, and the breaks a ledger has against the broker's totals.\<close>

definition open_room :: "order list \<Rightarrow> int" where
  "open_room live = room_of (filter (\<lambda>o'. state o' \<in> set FILLABLE_STATES \<and> filled_qty o' < qty o') live)"

definition order_diff :: "key \<Rightarrow> totals \<Rightarrow> totals \<Rightarrow> ledger \<Rightarrow> int" where
  "order_diff k base broker l = ord_qty broker - ord_qty base - live_sum qty l k"

definition fill_diff :: "key \<Rightarrow> totals \<Rightarrow> totals \<Rightarrow> ledger \<Rightarrow> int" where
  "fill_diff k base broker l = ccld_qty broker - ccld_qty base - live_sum filled_qty l k"

definition breaks_due :: "key \<Rightarrow> totals \<Rightarrow> totals \<Rightarrow> seconds \<Rightarrow> ledger \<Rightarrow> break_row list" where
  "breaks_due k base broker now l =
     (let od = order_diff k base broker l; fd = fill_diff k base broker l in
      if 0 < od then [(k, UnexplainedBrokerOrders od)]
      else (if od < 0 then [(k, LedgerOrdersMissingAtBroker (- od))] else []) @
           (if 0 < fd then [(k, FillsExceedOrders fd (open_room (live_rows l k)))]
            else if recent_notices l now (map oid (live_rows l k)) < - fd \<and> fd < 0 then [(k, BrokerFillsBelowLedger fd)]
            else []))"

lemma apply_fills_report:
  assumes ok: "ledger_ok l" and tr: "tracks k l live"
    and sums: "sum_of filled_qty live = live_sum filled_qty l k"
    and res: "apply_fills k b_fill b_amt live breaks now l = (l', bs)"
  shows "live_sum qty l' k = live_sum qty l k
    \<and> (b_fill - live_sum filled_qty l' k = 0 \<and> bs = breaks
       \<or> l' = l \<and> (let fd = b_fill - live_sum filled_qty l k in fd \<noteq> 0 \<and>
           bs = breaks @ (if 0 < fd then [(k, FillsExceedOrders fd (open_room live))]
             else if recent_notices l now (map oid live) < - fd \<and> fd < 0 then [(k, BrokerFillsBelowLedger fd)] else [])))"
proof -
  let ?ol = "filter (\<lambda>o'. state o' \<in> set FILLABLE_STATES \<and> filled_qty o' < qty o') live"
  let ?d = "b_fill - sum_of filled_qty live" and ?a = "b_amt - sum_of filled_amt live"
  have tr': "tracks k l ?ol" using tr by (auto simp: tracks_def distinct_ids_filter)
  show ?thesis
  proof (cases "0 < ?d \<and> ?d \<le> room_of ?ol")
    case True
    then have "l' = allocate now ?d ?a ?d ?a ?ol l" "bs = breaks"
      using res by (auto simp: apply_fills_def Let_def room_of_def)
    with allocate_spec [OF ok tr', of ?d now ?d ?a ?a] True sums show ?thesis by simp
  next
    case False
    then show ?thesis
      using res sums by (auto simp: apply_fills_def Let_def room_of_def open_room_def split: if_splits)
  qed
qed

text \<open>The rows a pass worked on are the live rows of the ledger after its state changes.\<close>

lemma sum_live_sent:
  fixes l :: ledger and k :: key
  assumes "ledger_ok l" "\<And>x t. g (x\<lparr>updated_ts := t\<rparr>) = g x"
  defines "un \<equiv> unknown_rows l k"
  shows "sum_of g (live_rows (fold (resolve_sent now bq) un l) k) =
    sum_of g (sort_key oid (live_rows l k @ map (\<lambda>o'. o'\<lparr>state := ACCEPTED\<rparr>) un))"
proof -
  have "sum_of g (filter (\<lambda>r. state r \<in> set LIVE_STATES) (filter (of_key k) (restate I ACCEPTED now os))) =
      sum_of g (filter (\<lambda>r. state r \<in> set LIVE_STATES) (filter (of_key k) os))
      + sum_of g (map (\<lambda>o'. o'\<lparr>state := ACCEPTED\<rparr>) (filter (\<lambda>r. state r = UNKNOWN) (filter (of_key k) os)))"
    if "\<forall>r \<in> set os. oid r \<in> I \<longleftrightarrow> of_key k r \<and> state r = UNKNOWN" for I os
    using that
  proof (induction os)
    case (Cons r os)
    have "g (r\<lparr>state := ACCEPTED, updated_ts := now\<rparr>) = g (r\<lparr>state := ACCEPTED\<rparr>)"
      using assms(2) [where x = "r\<lparr>state := ACCEPTED\<rparr>" and t = now] by simp
    with Cons show ?case by (auto simp: restate_def sum_of_def of_key_def LIVE_STATES_def)
  qed (simp add: restate_def sum_of_def)
  from this [of "orders l" "oid ` set un"] unknown_id_iff [OF assms(1), where k = k] show ?thesis
    by (simp add: live_rows_def rows_of_def un_def unknown_rows_def sum_of_sort)
qed

lemma live_rows_fits:
  assumes "ledger_ok l"
  shows "live_rows (fold (resolve_not_sent now bq) (unknown_rows l k) l) k = live_rows l k"
proof -
  let ?I = "overdue now (unknown_rows l k)"
  have "filter (\<lambda>r. state r \<in> set LIVE_STATES) (filter (of_key k) (restate ?I NOT_SENT now os)) =
      filter (\<lambda>r. state r \<in> set LIVE_STATES) (filter (of_key k) os)"
    if "\<forall>r \<in> set os. oid r \<in> ?I \<longrightarrow> state r \<notin> set LIVE_STATES" for os
    using that by (induction os) (auto simp: restate_def LIVE_STATES_def)
  moreover have "\<forall>r \<in> set (orders l). oid r \<in> ?I \<longrightarrow> state r \<notin> set LIVE_STATES"
    using unknown_id_iff [OF assms, where k = k] by (fastforce simp: overdue_def LIVE_STATES_def)
  ultimately show ?thesis by (simp add: live_rows_def rows_of_def)
qed

lemma open_room_sum:
  "open_room live = sum_of (\<lambda>o'. if state o' \<in> set FILLABLE_STATES \<and> filled_qty o' < qty o' then qty o' - filled_qty o' else 0) live"
  by (simp add: open_room_def room_of_def sum_of_def sum_list_map_filter')

lemma filled_restate:
  "map filled_qty (restate I s now os) = map filled_qty os" "map filled_amt (restate I s now os) = map filled_amt os"
  by (induction os) (auto simp: restate_def)


end
