(* ===== verification/ContestLedger.thy ===== *)
theory ContestLedger
  imports CreateOnce "HOL-Library.Char_ord" "HOL-Library.List_Lexorder" "HOL-Library.Product_Lexorder"
begin

section \<open>The contest ledger\<close>

text \<open>
  Models \<^verbatim>\<open>src/mdfeed/contest.py\<close>: participants, invites, cash accounts, positions, orders and the
  hash-chained journal of the trading contest. Every call runs in one transaction, so a call that
  raises leaves the ledger as it was. SHA-256 over the text of a journal row is the parameter \<open>H\<close>,
  a function of the row's content; a row's \<^verbatim>\<open>kind\<close> and JSON \<^verbatim>\<open>detail\<close> are one datatype. The clock
  is read once per call.
\<close>

datatype cside = cbuy | csell

datatype cstate = CFilled | CRejected

datatype reason = PriceUnknown | CashShort int int | SharesShort int

record fill_detail =
  d_order :: nat
  d_symbol :: string
  d_side :: cside
  d_qty :: int
  d_price :: int
  d_amount :: int
  d_fee :: int
  d_tax :: int
  d_cash_delta :: int

datatype entry = Deposit int | Fill fill_detail

type_synonym hash = string
type_synonym hasher = "hash \<Rightarrow> seconds \<Rightarrow> nat \<Rightarrow> entry \<Rightarrow> hash"

definition GENESIS :: hash where "GENESIS = replicate 64 (CHR ''0'')"

record jrow =
  j_id :: nat
  j_ts :: seconds
  j_pid :: nat
  j_entry :: entry
  j_prev :: hash
  j_hash :: hash

record participant =
  p_id :: nat
  nickname :: string
  pw_hash :: string
  p_created :: seconds

record invite =
  code :: string
  i_created :: seconds
  used_by :: "nat option"
  used_ts :: "seconds option"

record corder =
  c_id :: nat
  c_pid :: nat
  c_client_id :: string
  c_symbol :: string
  c_side :: cside
  c_qty :: int
  c_price :: int
  c_amount :: int
  c_fee :: int
  c_tax :: int
  c_state :: cstate
  c_reason :: "reason option"
  c_ts :: seconds

record contest =
  participants :: "participant list"
  invites :: "invite list"
  accounts :: "(nat \<times> int) list"
  positions :: "((nat \<times> string) \<times> int \<times> int) list"
  corders :: "corder list"
  journal :: "jrow list"
  halted :: "string option"

record settings =
  initial_cash :: int
  fee_ppm :: int
  tax_ppm :: int

datatype contest_error = InviteUnusable | NicknameTaken | Raised py_error

definition empty_contest :: contest where
  "empty_contest = \<lparr>participants = [], invites = [], accounts = [], positions = [], corders = [],
     journal = [], halted = None\<rparr>"

subsection \<open>The journal\<close>

definition last_hash :: "jrow list \<Rightarrow> hash" where
  "last_hash js = (if js = [] then GENESIS else j_hash (last js))"

definition add_journal :: "hasher \<Rightarrow> seconds \<Rightarrow> nat \<Rightarrow> entry \<Rightarrow> contest \<Rightarrow> contest" where
  "add_journal H now pid e l =
     (let prev = last_hash (journal l) in
      l\<lparr>journal := journal l @ [\<lparr>j_id = length (journal l) + 1, j_ts = now, j_pid = pid, j_entry = e,
         j_prev = prev, j_hash = H prev now pid e\<rparr>]\<rparr>)"

subsection \<open>Joining\<close>

text \<open>\<open>codes\<close> are the random tokens; a repeated code violates the primary key.\<close>

fun insert_invites :: "seconds \<Rightarrow> string list \<Rightarrow> contest \<Rightarrow> py_error + contest" where
  "insert_invites now [] l = Inr l"
| "insert_invites now (c # cs) l =
     (if c \<in> code ` set (invites l) then Inl IntegrityError
      else insert_invites now cs (l\<lparr>invites := invites l @
        [\<lparr>code = c, i_created = now, used_by = None, used_ts = None\<rparr>]\<rparr>))"

definition create_invites :: "string list \<Rightarrow> seconds \<Rightarrow> contest \<Rightarrow> contest \<times> (py_error + string list)" where
  "create_invites codes now l =
     (case insert_invites now codes l of Inl e \<Rightarrow> (l, Inl e) | Inr l' \<Rightarrow> (l', Inr codes))"

definition signup :: "hasher \<Rightarrow> settings \<Rightarrow> string \<Rightarrow> string \<Rightarrow> string \<Rightarrow> seconds \<Rightarrow> contest
    \<Rightarrow> contest \<times> (contest_error + participant)" where
  "signup H cfg c nick pw now l =
     (case find (\<lambda>i. code i = c) (invites l) of
        None \<Rightarrow> (l, Inl InviteUnusable)
      | Some iv \<Rightarrow>
          if used_by iv \<noteq> None then (l, Inl InviteUnusable)
          else if nick \<in> nickname ` set (participants l) then (l, Inl NicknameTaken)
          else let pid = length (participants l) + 1;
                   p = \<lparr>p_id = pid, nickname = nick, pw_hash = pw, p_created = now\<rparr>;
                   l1 = l\<lparr>participants := participants l @ [p],
                          invites := map (\<lambda>i. if code i = c then i\<lparr>used_by := Some pid, used_ts := Some now\<rparr> else i) (invites l),
                          accounts := accounts l @ [(pid, initial_cash cfg)]\<rparr>
               in (add_journal H now pid (Deposit (initial_cash cfg)) l1, Inr p))"

definition participant_of :: "contest \<Rightarrow> nat \<Rightarrow> py_error + participant" where
  "participant_of l pid = (case find (\<lambda>p. p_id p = pid) (participants l) of None \<Rightarrow> Inl TypeError | Some p \<Rightarrow> Inr p)"

definition credentials :: "contest \<Rightarrow> string \<Rightarrow> (nat \<times> string) option" where
  "credentials l nick = map_option (\<lambda>p. (p_id p, pw_hash p)) (find (\<lambda>p. nickname p = nick) (participants l))"

definition list_invites :: "contest \<Rightarrow> (string \<times> seconds \<times> seconds option \<times> string option) list" where
  "list_invites l = map (\<lambda>i. (code i, i_created i, used_ts i,
      (case used_by i of None \<Rightarrow> None
       | Some pid \<Rightarrow> map_option nickname (find (\<lambda>p. p_id p = pid) (participants l)))))
     (sort_key i_created (invites l))"

subsection \<open>Orders\<close>

definition costs :: "settings \<Rightarrow> cside \<Rightarrow> int \<Rightarrow> int \<Rightarrow> int \<times> int \<times> int" where
  "costs cfg sd q p =
     (let amount = q * p; fee = amount * fee_ppm cfg div 1000000;
          tax = (if sd = csell then amount * tax_ppm cfg div 1000000 else 0)
      in (amount, fee, tax))"

definition position_of :: "contest \<Rightarrow> nat \<Rightarrow> string \<Rightarrow> int \<times> int" where
  "position_of l pid s = (case map_of (positions l) (pid, s) of None \<Rightarrow> (0, 0) | Some x \<Rightarrow> x)"

definition refusal :: "cside \<Rightarrow> int \<Rightarrow> int \<Rightarrow> int \<Rightarrow> int \<Rightarrow> int \<Rightarrow> int \<Rightarrow> reason option" where
  "refusal sd q p amount fee cash held =
     (if p \<le> 0 then Some PriceUnknown
      else if sd = cbuy \<and> amount + fee > cash then Some (CashShort (amount + fee) cash)
      else if sd = csell \<and> q > held then Some (SharesShort held)
      else None)"

text \<open>The three statements of a filled order: account, position, journal.\<close>

definition settle :: "hasher \<Rightarrow> seconds \<Rightarrow> nat \<Rightarrow> nat \<Rightarrow> string \<Rightarrow> cside \<Rightarrow> int \<Rightarrow> int \<Rightarrow> int \<times> int \<times> int \<Rightarrow> int \<times> int
    \<Rightarrow> contest \<Rightarrow> contest" where
  "settle H now pid i s sd q p amounts held_cost l =
     (let (amount, fee, tax) = amounts; (held, cost) = held_cost;
          cash_delta = (if sd = cbuy then - (amount + fee) else amount - fee - tax);
          new_qty = (if sd = cbuy then held + q else held - q);
          new_cost = (if sd = cbuy then cost + amount + fee else cost - cost * q div held);
          l1 = l\<lparr>accounts := map (\<lambda>(a, c). if a = pid then (a, c + cash_delta) else (a, c)) (accounts l),
                 positions := AList.update (pid, s) (new_qty, new_cost) (positions l)\<rparr>
      in add_journal H now pid (Fill \<lparr>d_order = i, d_symbol = s, d_side = sd, d_qty = q, d_price = p,
           d_amount = amount, d_fee = fee, d_tax = tax, d_cash_delta = cash_delta\<rparr>) l1)"

definition place :: "hasher \<Rightarrow> settings \<Rightarrow> nat \<Rightarrow> string \<Rightarrow> string \<Rightarrow> cside \<Rightarrow> int \<Rightarrow> int \<Rightarrow> seconds \<Rightarrow> contest
    \<Rightarrow> contest \<times> (py_error + corder \<times> bool)" where
  "place H cfg pid cid s sd q p now l =
     (case find (\<lambda>r. c_pid r = pid \<and> c_client_id r = cid) (corders l) of
        Some r \<Rightarrow> (l, Inr (r, False))
      | None \<Rightarrow>
          (case map_of (accounts l) pid of
             None \<Rightarrow> (l, Inl TypeError)
           | Some cash \<Rightarrow>
               let (amount, fee, tax) = costs cfg sd q p;
                   (held, cost) = position_of l pid s;
                   why = refusal sd q p amount fee cash held;
                   i = length (corders l) + 1;
                   r = \<lparr>c_id = i, c_pid = pid, c_client_id = cid, c_symbol = s, c_side = sd, c_qty = q,
                        c_price = p, c_amount = amount, c_fee = fee, c_tax = tax,
                        c_state = (if why = None then CFilled else CRejected), c_reason = why, c_ts = now\<rparr>
               in if q \<le> 0 then (l, Inl IntegrityError)
                  else let l1 = l\<lparr>corders := corders l @ [r]\<rparr> in
                    (if why = None then settle H now pid i s sd q p (amount, fee, tax) (held, cost) l1 else l1,
                     Inr (r, True))))"

definition corder_of :: "contest \<Rightarrow> nat \<Rightarrow> py_error + corder" where
  "corder_of l i = (case find (\<lambda>r. c_id r = i) (corders l) of None \<Rightarrow> Inl TypeError | Some r \<Rightarrow> Inr r)"

definition list_corders :: "contest \<Rightarrow> nat option \<Rightarrow> nat \<Rightarrow> corder list" where
  "list_corders l pid limit = (case pid of
      None \<Rightarrow> take limit (rev (filter (\<lambda>r. c_pid r \<in> p_id ` set (participants l)) (corders l)))
    | Some i \<Rightarrow> take limit (rev (filter (\<lambda>r. c_pid r = i) (corders l))))"

definition order_count :: "contest \<Rightarrow> cstate \<Rightarrow> nat" where
  "order_count l st = length (filter (\<lambda>r. c_state r = st) (corders l))"

subsection \<open>Accounts and the leaderboard\<close>

definition positive_positions :: "contest \<Rightarrow> nat \<Rightarrow> (string \<times> int \<times> int) list" where
  "positive_positions l pid =
     map (\<lambda>((_, s), x). (s, x)) (filter (\<lambda>((a, _), q, _). a = pid \<and> q > 0) (positions l))"

definition account :: "contest \<Rightarrow> nat \<Rightarrow> py_error + int \<times> (string \<times> int \<times> int) list" where
  "account l pid = (case map_of (accounts l) pid of
      None \<Rightarrow> Inl TypeError
    | Some cash \<Rightarrow> Inr (cash, sort_key fst (positive_positions l pid)))"

definition held_symbols :: "contest \<Rightarrow> string list" where
  "held_symbols l = sort (remdups (map (\<lambda>((_, s), _). s) (filter (\<lambda>(_, q, _). q > 0) (positions l))))"

record board_row =
  b_nickname :: string
  equity :: int
  return_pct :: rat
  unpriced :: "string list"

definition value_position :: "(string \<times> int) list \<Rightarrow> string \<times> int \<times> int \<Rightarrow> int" where
  "value_position prices = (\<lambda>(s, q, cost). if dict_get prices s \<noteq> 0 then q * dict_get prices s else cost)"

definition board_row_of :: "settings \<Rightarrow> contest \<Rightarrow> (string \<times> int) list \<Rightarrow> participant \<times> int \<Rightarrow> board_row" where
  "board_row_of cfg l prices = (\<lambda>(p, cash).
     let ps = positive_positions l (p_id p);
         v = cash + sum_list (map (value_position prices) ps)
     in \<lparr>b_nickname = nickname p, equity = v,
         return_pct = of_int (py_round ((of_int v / of_int (initial_cash cfg) - 1) * 100 * 100)) / 100,
         unpriced = map fst (filter (\<lambda>(s, _). dict_get prices s = 0) ps)\<rparr>)"

definition leaderboard :: "settings \<Rightarrow> contest \<Rightarrow> (string \<times> int) list \<Rightarrow> py_error + (nat \<times> board_row) list" where
  "leaderboard cfg l prices =
     (let rows = List.map_filter (\<lambda>p. map_option (\<lambda>c. (p, c)) (map_of (accounts l) (p_id p))) (participants l) in
      if rows \<noteq> [] \<and> initial_cash cfg = 0 then Inl ZeroDivisionError
      else Inr (List.enumerate 1 (sort_key (\<lambda>r. - equity r) (map (board_row_of cfg l prices) rows))))"

subsection \<open>Integrity: the tables against the journal\<close>

record replayed =
  r_cash :: "(nat \<times> int) list"
  r_pos :: "((nat \<times> string) \<times> int) list"
  r_fills :: "(nat \<times> fill_detail) list"

definition replay_start :: replayed where
  "replay_start = \<lparr>r_cash = [], r_pos = [], r_fills = []\<rparr>"

fun replay_entry :: "nat \<Rightarrow> entry \<Rightarrow> replayed \<Rightarrow> replayed" where
  "replay_entry pid (Deposit a) st = st\<lparr>r_cash := AList.update pid (dict_get (r_cash st) pid + a) (r_cash st)\<rparr>"
| "replay_entry pid (Fill d) st =
     st\<lparr>r_cash := AList.update pid (dict_get (r_cash st) pid + d_cash_delta d) (r_cash st),
        r_pos := AList.update (pid, d_symbol d) (dict_get (r_pos st) (pid, d_symbol d)
                   + (if d_side d = cbuy then d_qty d else - d_qty d)) (r_pos st),
        r_fills := AList.update (d_order d) d (r_fills st)\<rparr>"

definition row_hash_ok :: "hasher \<Rightarrow> hash \<Rightarrow> jrow \<Rightarrow> bool" where
  "row_hash_ok H prev j \<longleftrightarrow> j_prev j = prev \<and> j_hash j = H prev (j_ts j) (j_pid j) (j_entry j)"

fun scan :: "hasher \<Rightarrow> hash \<Rightarrow> jrow list \<Rightarrow> replayed \<Rightarrow> nat + replayed" where
  "scan H prev [] st = Inr st"
| "scan H prev (j # js) st =
     (if row_hash_ok H prev j then scan H (j_hash j) js (replay_entry (j_pid j) (j_entry j) st)
      else Inl (j_id j))"

datatype cbreak =
    JournalChainBroken nat
  | CashMismatch nat int int
  | PositionMismatch nat string int int
  | OrderJournalMismatch nat

definition cash_breaks :: "contest \<Rightarrow> replayed \<Rightarrow> cbreak list" where
  "cash_breaks l st = List.map_filter (\<lambda>(pid, c). if dict_get (r_cash st) pid \<noteq> c
      then Some (CashMismatch pid c (dict_get (r_cash st) pid)) else None) (accounts l)"

definition table_pos :: "contest \<Rightarrow> ((nat \<times> string) \<times> int) list" where
  "table_pos l = map (\<lambda>(k, q, _). (k, q)) (positions l)"

definition position_breaks :: "contest \<Rightarrow> replayed \<Rightarrow> cbreak list" where
  "position_breaks l st = List.map_filter (\<lambda>k. if dict_get (table_pos l) k \<noteq> dict_get (r_pos st) k
      then Some (PositionMismatch (fst k) (snd k) (dict_get (table_pos l) k) (dict_get (r_pos st) k)) else None)
     (sort (remdups (map fst (table_pos l) @ map fst (r_pos st))))"

definition order_agrees :: "corder option \<Rightarrow> fill_detail option \<Rightarrow> bool" where
  "order_agrees ro fo = (case (ro, fo) of
      (Some r, Some f) \<Rightarrow> (c_qty r, c_price r, c_amount r, c_fee r, c_tax r) = (d_qty f, d_price f, d_amount f, d_fee f, d_tax f)
    | _ \<Rightarrow> False)"

definition filled_orders :: "contest \<Rightarrow> (nat \<times> corder) list" where
  "filled_orders l = map (\<lambda>r. (c_id r, r)) (filter (\<lambda>r. c_state r = CFilled) (corders l))"

definition order_breaks :: "contest \<Rightarrow> replayed \<Rightarrow> cbreak list" where
  "order_breaks l st = List.map_filter (\<lambda>i. if order_agrees (map_of (filled_orders l) i) (map_of (r_fills st) i)
      then None else Some (OrderJournalMismatch i))
     (sort (remdups (map fst (filled_orders l) @ map fst (r_fills st))))"

definition integrity :: "hasher \<Rightarrow> contest \<Rightarrow> cbreak list" where
  "integrity H l = (case scan H GENESIS (journal l) replay_start of
      Inl i \<Rightarrow> [JournalChainBroken i]
    | Inr st \<Rightarrow> cash_breaks l st @ position_breaks l st @ order_breaks l st)"

subsection \<open>Operations and runs\<close>

definition halt :: "string \<Rightarrow> contest \<Rightarrow> contest" where
  "halt why l = l\<lparr>halted := Some why\<rparr>"

definition resume :: "contest \<Rightarrow> contest" where
  "resume l = l\<lparr>halted := None\<rparr>"

datatype contest_op =
    Invites "string list"
  | Signup string string string
  | Place nat string string cside int int
  | Halt string
  | Resume

fun contest_step :: "hasher \<Rightarrow> settings \<Rightarrow> contest_op \<times> seconds \<Rightarrow> contest \<Rightarrow> contest" where
  "contest_step H cfg (Invites cs, now) l = fst (create_invites cs now l)"
| "contest_step H cfg (Signup c n pw, now) l = fst (signup H cfg c n pw now l)"
| "contest_step H cfg (Place pid cid s sd q p, now) l = fst (place H cfg pid cid s sd q p now l)"
| "contest_step H cfg (Halt why, now) l = halt why l"
| "contest_step H cfg (Resume, now) l = resume l"

definition run_contest :: "hasher \<Rightarrow> settings \<Rightarrow> (contest_op \<times> seconds) list \<Rightarrow> contest" where
  "run_contest H cfg ops = fold (contest_step H cfg) ops empty_contest"

definition settings_ok :: "settings \<Rightarrow> bool" where
  "settings_ok cfg \<longleftrightarrow> 0 \<le> initial_cash cfg \<and> 0 \<le> fee_ppm cfg \<and> 0 \<le> tax_ppm cfg \<and> fee_ppm cfg + tax_ppm cfg \<le> 1000000"

subsection \<open>The invariant\<close>

definition books_agree :: "hasher \<Rightarrow> contest \<Rightarrow> replayed \<Rightarrow> bool" where
  "books_agree H l st \<longleftrightarrow> scan H GENESIS (journal l) replay_start = Inr st
     \<and> (\<forall>(pid, c) \<in> set (accounts l). dict_get (r_cash st) pid = c)
     \<and> (\<forall>k. dict_get (table_pos l) k = dict_get (r_pos st) k)
     \<and> (\<forall>i. map_of (r_fills st) i = None \<longleftrightarrow> map_of (filled_orders l) i = None)
     \<and> (\<forall>i r f. map_of (filled_orders l) i = Some r \<longrightarrow> map_of (r_fills st) i = Some f \<longrightarrow> order_agrees (Some r) (Some f))
     \<and> set (map fst (r_cash st)) \<subseteq> p_id ` set (participants l)"

definition contest_ok :: "contest \<Rightarrow> bool" where
  "contest_ok l \<longleftrightarrow> map p_id (participants l) = [1..<Suc (length (participants l))]
     \<and> map fst (accounts l) = map p_id (participants l)
     \<and> (\<forall>(pid, c) \<in> set (accounts l). 0 \<le> c)
     \<and> distinct (map fst (positions l)) \<and> (\<forall>(k, q, c) \<in> set (positions l). 0 \<le> q \<and> 0 \<le> c)
     \<and> map c_id (corders l) = [1..<Suc (length (corders l))]
     \<and> distinct (map (\<lambda>r. (c_pid r, c_client_id r)) (corders l))
     \<and> distinct (map nickname (participants l)) \<and> distinct (map code (invites l))"

lemma contest_ok_same:
  assumes "contest_ok l" "participants l' = participants l" "accounts l' = accounts l" "positions l' = positions l"
    "corders l' = corders l" "distinct (map code (invites l'))"
  shows "contest_ok l'"
  using assms unfolding contest_ok_def by (simp only:) blast

lemma contest_ok_account_ids:
  assumes "contest_ok l"
  shows "fst ` set (accounts l) = p_id ` set (participants l)"
proof -
  from assms have "map fst (accounts l) = map p_id (participants l)" by (simp only: contest_ok_def)
  then have "set (map fst (accounts l)) = set (map p_id (participants l))" by (simp only:)
  then show ?thesis by simp
qed

lemma map_filter_Nil: "List.map_filter f xs = [] \<longleftrightarrow> (\<forall>x \<in> set xs. f x = None)"
  by (induction xs) (auto simp: List.map_filter_def)

lemma books_agree_integrity:
  assumes "books_agree H l st"
  shows "integrity H l = []"
proof -
  from assms have s: "scan H GENESIS (journal l) replay_start = Inr st" by (simp add: books_agree_def)
  have "cash_breaks l st = []" using assms by (auto simp: cash_breaks_def map_filter_Nil books_agree_def)
  moreover have "position_breaks l st = []" using assms by (auto simp: position_breaks_def map_filter_Nil books_agree_def)
  moreover have "order_agrees (map_of (filled_orders l) i) (map_of (r_fills st) i)"
    if "i \<in> fst ` set (filled_orders l) \<union> fst ` set (r_fills st)" for i
  proof -
    from that have "map_of (filled_orders l) i \<noteq> None \<or> map_of (r_fills st) i \<noteq> None"
      by (metis UnE map_of_eq_None_iff)
    with assms obtain r f where "map_of (filled_orders l) i = Some r" "map_of (r_fills st) i = Some f"
      unfolding books_agree_def by (metis not_None_eq)
    with assms show ?thesis unfolding books_agree_def by metis
  qed
  then have "order_breaks l st = []" by (auto simp: order_breaks_def map_filter_Nil)
  ultimately show ?thesis by (simp add: integrity_def s)
qed

lemma last_hash_snoc [simp]: "last_hash (js @ [j]) = j_hash j"
  by (simp add: last_hash_def)

lemma scan_snoc:
  "scan H prev (js @ [j]) st = (case scan H prev js st of
      Inl i \<Rightarrow> Inl i
    | Inr st' \<Rightarrow> if row_hash_ok H (if js = [] then prev else j_hash (last js)) j
        then Inr (replay_entry (j_pid j) (j_entry j) st') else Inl (j_id j))"
  by (induction js arbitrary: prev st) (auto split: sum.split)

lemma scan_add_journal:
  assumes "scan H GENESIS (journal l) replay_start = Inr st" "journal l' = journal l"
  shows "scan H GENESIS (journal (add_journal H now pid e l')) replay_start = Inr (replay_entry pid e st)"
  using assms by (simp add: add_journal_def Let_def scan_snoc row_hash_ok_def last_hash_def)

lemma add_journal_sel [simp]:
  "participants (add_journal H now pid e l) = participants l" "invites (add_journal H now pid e l) = invites l"
  "accounts (add_journal H now pid e l) = accounts l" "positions (add_journal H now pid e l) = positions l"
  "corders (add_journal H now pid e l) = corders l"
  by (simp_all add: add_journal_def Let_def)

lemma table_pos_get: "dict_get (table_pos l) k = fst (case map_of (positions l) k of None \<Rightarrow> (0, 0) | Some x \<Rightarrow> x)"
proof -
  have "map_of (map (\<lambda>(k, q, _). (k, q)) ps) k = map_option fst (map_of ps k)" for ps :: "((nat \<times> string) \<times> int \<times> int) list"
    by (induction ps) auto
  then show ?thesis by (simp add: dict_get_def table_pos_def split: option.split)
qed

lemma position_of_table: "fst (position_of l pid s) = dict_get (table_pos l) (pid, s)"
  by (simp add: table_pos_get position_of_def)

lemma table_pos_cong: "positions l' = positions l \<Longrightarrow> table_pos l' = table_pos l"
  by (simp add: table_pos_def)

lemma filled_orders_cong: "corders l' = corders l \<Longrightarrow> filled_orders l' = filled_orders l"
  by (simp add: filled_orders_def)

lemma books_agree_same:
  assumes "books_agree H l st" "journal l' = journal l" "accounts l' = accounts l" "positions l' = positions l"
    "filled_orders l' = filled_orders l" "participants l' = participants l"
  shows "books_agree H l' st"
  using assms table_pos_cong [OF assms(4)] by (simp add: books_agree_def)

lemma filled_order_ids:
  assumes "contest_ok l"
  shows "map_of (filled_orders l) (Suc (length (corders l))) = None"
proof -
  have "set (map c_id (corders l)) = {1..<Suc (length (corders l))}"
    using assms by (simp add: contest_ok_def del: set_map upt_Suc)
  then have "Suc (length (corders l)) \<notin> c_id ` set (corders l)" by simp
  then show ?thesis by (auto simp: filled_orders_def map_of_eq_None_iff)
qed

text \<open>A settled order moves the tables and the journal by the same amounts.\<close>

lemma settle_books:
  assumes b: "books_agree H l st" and ok: "contest_ok l"
    and pid: "pid \<in> p_id ` set (participants l)"
    and r: "c_id r = Suc (length (corders l))" "c_state r = CFilled" "c_qty r = q" "c_price r = p"
      "(c_amount r, c_fee r, c_tax r) = amounts"
    and l1: "l1 = l\<lparr>corders := corders l @ [r]\<rparr>"
  shows "\<exists>st'. books_agree H (settle H now pid (c_id r) s sd q p amounts (position_of l pid s) l1) st'"
proof -
  obtain amount fee tax where am: "amounts = (amount, fee, tax)" by (cases amounts)
  obtain held cost where hc: "position_of l pid s = (held, cost)" by fastforce
  then have held: "held = dict_get (table_pos l) (pid, s)" using position_of_table [of l pid s] by simp
  let ?delta = "if sd = cbuy then - (amount + fee) else amount - fee - tax"
  let ?nq = "if sd = cbuy then held + q else held - q"
  let ?nc = "if sd = cbuy then cost + amount + fee else cost - cost * q div held"
  let ?d = "\<lparr>d_order = c_id r, d_symbol = s, d_side = sd, d_qty = q, d_price = p,
           d_amount = amount, d_fee = fee, d_tax = tax, d_cash_delta = ?delta\<rparr>"
  let ?l2 = "l1\<lparr>accounts := map (\<lambda>(a, c). if a = pid then (a, c + ?delta) else (a, c)) (accounts l1),
                 positions := AList.update (pid, s) (?nq, ?nc) (positions l1)\<rparr>"
  let ?l3 = "add_journal H now pid (Fill ?d) ?l2"
  let ?st = "replay_entry pid (Fill ?d) st"
  have eq: "settle H now pid (c_id r) s sd q p amounts (position_of l pid s) l1 = ?l3"
    by (simp add: settle_def am hc Let_def)
  from b have scan: "scan H GENESIS (journal l) replay_start = Inr st" by (simp add: books_agree_def)
  have "scan H GENESIS (journal ?l3) replay_start = Inr ?st"
    by (rule scan_add_journal [OF scan]) (simp add: l1)
  moreover have "\<forall>(a, c) \<in> set (accounts ?l3). dict_get (r_cash ?st) a = c"
    using b by (auto simp: books_agree_def l1 split: if_splits)
  moreover have "dict_get (table_pos ?l3) k = dict_get (r_pos ?st) k" for k
    using b held by (cases k) (auto simp: books_agree_def table_pos_get update_conv' l1)
  moreover have fo: "filled_orders ?l3 = filled_orders l @ [(c_id r, r)]"
    using r(2) by (simp add: filled_orders_def l1)
  have "map_of (r_fills ?st) i = None \<longleftrightarrow> map_of (filled_orders ?l3) i = None" for i
    using b unfolding fo by (auto simp: books_agree_def update_conv' map_add_def split: option.split)
  moreover have "order_agrees (Some r') (Some f)"
    if "map_of (filled_orders ?l3) i = Some r'" "map_of (r_fills ?st) i = Some f" for i r' f
    using that b r am filled_order_ids [OF ok] unfolding fo
    by (auto simp: books_agree_def update_conv' map_add_def order_agrees_def split: option.splits if_splits)
  moreover have "set (map fst (r_cash ?st)) \<subseteq> p_id ` set (participants ?l3)"
    using b pid dom_update [of pid "dict_get (r_cash st) pid + ?delta" "r_cash st"] by (auto simp: books_agree_def l1)
  ultimately show ?thesis unfolding eq books_agree_def by blast
qed

text \<open>Costs never exceed what is paid or received.\<close>

lemma costs_bounds:
  assumes "settings_ok cfg" "0 < q" "0 < p" "costs cfg sd q p = (amount, fee, tax)"
  shows "0 < amount" "0 \<le> fee" "0 \<le> tax" "fee + tax \<le> amount"
proof -
  have am: "amount = q * p" "fee = q * p * fee_ppm cfg div 1000000"
    "tax = (if sd = csell then q * p * tax_ppm cfg div 1000000 else 0)"
    using assms(4) by (auto simp: costs_def Let_def)
  show "0 < amount" using assms(2,3) by (simp add: am)
  have nn: "0 \<le> q * p * fee_ppm cfg" "0 \<le> q * p * tax_ppm cfg"
    using assms(1-3) by (simp_all add: settings_ok_def)
  show "0 \<le> fee" "0 \<le> tax" using nn by (simp_all add: am pos_imp_zdiv_nonneg_iff)
  have "q * p * fee_ppm cfg + q * p * tax_ppm cfg = q * p * (fee_ppm cfg + tax_ppm cfg)"
    by (simp add: algebra_simps)
  also have "\<dots> \<le> q * p * 1000000"
    using assms(1-3) by (intro mult_left_mono) (simp_all add: settings_ok_def)
  finally have "q * p * fee_ppm cfg + q * p * tax_ppm cfg \<le> q * p * 1000000" .
  then have "q * p * fee_ppm cfg div 1000000 + q * p * tax_ppm cfg div 1000000 \<le> q * p" by linarith
  moreover have "0 \<le> q * p * tax_ppm cfg div 1000000" using nn by (simp add: pos_imp_zdiv_nonneg_iff)
  ultimately show "fee + tax \<le> amount" by (auto simp: am)
qed

lemma cost_share:
  assumes "0 \<le> (cost :: int)" "0 < q" "q \<le> held"
  shows "0 \<le> cost - cost * q div held"
proof -
  have "cost * q div held \<le> cost * held div held"
    using assms by (intro zdiv_mono1 mult_left_mono) simp_all
  also have "\<dots> = cost" using assms by simp
  finally show ?thesis by simp
qed

lemma update_pairs:
  assumes "distinct (map fst d)" "\<forall>(k, q, c) \<in> set d. 0 \<le> q \<and> (0 :: int) \<le> c" "(0 :: int) \<le> q" "0 \<le> c"
  shows "distinct (map fst (AList.update k (q, c) d)) \<and> (\<forall>(k, q, c) \<in> set (AList.update k (q, c) d). 0 \<le> q \<and> 0 \<le> c)"
proof
  show "distinct (map fst (AList.update k (q, c) d))" using assms(1) by (rule distinct_update)
  have "set (AList.update k (q, c) d) \<subseteq> insert (k, q, c) (set d)" by (induction d) auto
  then show "\<forall>(k, q, c) \<in> set (AList.update k (q, c) d). 0 \<le> q \<and> 0 \<le> c" using assms(2-4) by fastforce
qed

lemma map_of_in_accounts: "map_of xs k = Some v \<Longrightarrow> (k, v) \<in> set xs"
  by (rule map_of_SomeD)

text \<open>The cases of \<^verbatim>\<open>place\<close>.\<close>

lemma place_cases:
  obtains (same) x where "place H cfg pid cid s sd q p now l = (l, x)" "\<forall>r b. x = Inr (r, b) \<longrightarrow> \<not> b"
  | (rejected) r why where "place H cfg pid cid s sd q p now l = (l\<lparr>corders := corders l @ [r]\<rparr>, Inr (r, True))"
      "c_id r = Suc (length (corders l))" "c_pid r = pid" "c_client_id r = cid" "c_state r = CRejected"
      "c_reason r = Some why" "find (\<lambda>r. c_pid r = pid \<and> c_client_id r = cid) (corders l) = None"
  | (filled) r cash amount fee tax where
      "place H cfg pid cid s sd q p now l =
         (settle H now pid (c_id r) s sd q p (amount, fee, tax) (position_of l pid s) (l\<lparr>corders := corders l @ [r]\<rparr>), Inr (r, True))"
      "c_id r = Suc (length (corders l))" "c_pid r = pid" "c_client_id r = cid" "c_state r = CFilled" "c_qty r = q" "c_price r = p"
      "(c_amount r, c_fee r, c_tax r) = (amount, fee, tax)" "map_of (accounts l) pid = Some cash"
      "costs cfg sd q p = (amount, fee, tax)" "0 < q" "0 < p"
      "sd = cbuy \<longrightarrow> amount + fee \<le> cash" "sd = csell \<longrightarrow> q \<le> fst (position_of l pid s)"
      "find (\<lambda>r. c_pid r = pid \<and> c_client_id r = cid) (corders l) = None"
proof -
  let ?F = "find (\<lambda>r. c_pid r = pid \<and> c_client_id r = cid) (corders l)"
  show thesis
  proof (cases "?F = None \<and> map_of (accounts l) pid \<noteq> None \<and> 0 < q")
    case False
    then show thesis
      by (intro same [of "snd (place H cfg pid cid s sd q p now l)"])
        (auto simp: place_def Let_def split: option.split prod.split)
  next
    case True
    then obtain cash where cash: "map_of (accounts l) pid = Some cash" by auto
    obtain amount fee tax where am: "costs cfg sd q p = (amount, fee, tax)" by (metis prod_cases3)
    obtain held cost where hc: "position_of l pid s = (held, cost)" by fastforce
    define why where "why = refusal sd q p amount fee cash held"
    define r where "r = \<lparr>c_id = Suc (length (corders l)), c_pid = pid, c_client_id = cid, c_symbol = s, c_side = sd, c_qty = q,
       c_price = p, c_amount = amount, c_fee = fee, c_tax = tax,
       c_state = (if why = None then CFilled else CRejected), c_reason = why, c_ts = now\<rparr>"
    have eq: "place H cfg pid cid s sd q p now l =
        (if why = None then settle H now pid (c_id r) s sd q p (amount, fee, tax) (held, cost) (l\<lparr>corders := corders l @ [r]\<rparr>)
         else l\<lparr>corders := corders l @ [r]\<rparr>, Inr (r, True))"
      using True by (simp add: place_def cash am hc Let_def r_def why_def)
    show thesis
    proof (cases why)
      case (Some w)
      with eq True show thesis by (intro rejected [of r w]) (simp_all add: r_def)
    next
      case None
      then have "0 < p" "sd = cbuy \<longrightarrow> amount + fee \<le> cash" "sd = csell \<longrightarrow> q \<le> held"
        by (auto simp: why_def refusal_def split: if_splits)
      with None eq True cash am hc show thesis by (intro filled [of r amount fee tax cash]) (simp_all add: r_def)
    qed
  qed
qed

lemma settle_sel:
  "participants (settle H now pid i s sd q p am hc l) = participants l"
  "invites (settle H now pid i s sd q p am hc l) = invites l"
  "corders (settle H now pid i s sd q p am hc l) = corders l"
  by (simp_all add: settle_def Let_def split: prod.split)

lemma corders_snoc_ok:
  assumes "contest_ok l" "c_id r = Suc (length (corders l))"
    and "find (\<lambda>x. c_pid x = c_pid r \<and> c_client_id x = c_client_id r) (corders l) = None"
  shows "map c_id (corders l @ [r]) = [1..<Suc (length (corders l @ [r]))]
    \<and> distinct (map (\<lambda>r. (c_pid r, c_client_id r)) (corders l @ [r]))"
  using assms by (auto simp: contest_ok_def find_map_None)

lemma place_ok:
  assumes ok: "contest_ok l" and cfg: "settings_ok cfg" and b: "books_agree H l st"
  shows "contest_ok (fst (place H cfg pid cid s sd q p now l)) \<and> (\<exists>st'. books_agree H (fst (place H cfg pid cid s sd q p now l)) st')"
proof (cases rule: place_cases [of H cfg pid cid s sd q p now l])
  case (same x)
  with ok b show ?thesis by auto
next
  case (rejected r why)
  let ?l = "l\<lparr>corders := corders l @ [r]\<rparr>"
  have "contest_ok ?l"
    using ok corders_snoc_ok [OF ok rejected(2)] rejected(3,4,7) by (simp add: contest_ok_def)
  moreover have "books_agree H ?l st"
    by (rule books_agree_same [OF b]) (simp_all add: filled_orders_def rejected(5))
  ultimately show ?thesis using rejected(1) by auto
next
  case (filled r cash amount fee tax)
  let ?l1 = "l\<lparr>corders := corders l @ [r]\<rparr>"
  let ?l = "settle H now pid (c_id r) s sd q p (amount, fee, tax) (position_of l pid s) ?l1"
  obtain held cost where hc: "position_of l pid s = (held, cost)" by fastforce
  have acc: "(pid, cash) \<in> set (accounts l)" using filled(9) by (rule map_of_SomeD)
  then have pid: "pid \<in> p_id ` set (participants l)"
    using contest_ok_account_ids [OF ok] by force
  have "0 \<le> held \<and> 0 \<le> cost"
    using ok hc by (auto simp: position_of_def contest_ok_def split: option.splits dest!: map_of_SomeD)
  note bounds = costs_bounds [OF cfg filled(11,12,10)]
  let ?delta = "if sd = cbuy then - (amount + fee) else amount - fee - tax"
  let ?nq = "if sd = cbuy then held + q else held - q"
  let ?nc = "if sd = cbuy then cost + amount + fee else cost - cost * q div held"
  have nn: "0 \<le> ?nq" "0 \<le> ?nc"
    using filled(11,14) hc \<open>0 \<le> held \<and> 0 \<le> cost\<close> bounds cost_share [of cost q held]
    by (cases sd; simp)+
  have pos: "positions ?l = AList.update (pid, s) (?nq, ?nc) (positions l)"
    and ac: "accounts ?l = map (\<lambda>(a, c). if a = pid then (a, c + ?delta) else (a, c)) (accounts l)"
    by (simp_all add: settle_def hc Let_def)
  have "map fst (accounts ?l) = map fst (accounts l)" unfolding ac by (simp add: case_prod_beta cong: map_cong if_cong)
  moreover have "0 \<le> c" if "(a, c) \<in> set (accounts ?l)" for a c
  proof -
    from that obtain c0 where c0: "(a, c0) \<in> set (accounts l)" "c = (if a = pid then c0 + ?delta else c0)"
      unfolding ac by (auto split: if_splits)
    have "distinct (map fst (accounts l))" using ok by (simp add: contest_ok_def)
    with c0(1) acc have "a = pid \<Longrightarrow> c0 = cash" by (simp add: eq_key_imp_eq_value)
    moreover have "0 \<le> c0" using ok c0(1) by (auto simp: contest_ok_def)
    ultimately show "0 \<le> c" using c0(2) bounds filled(13) by (cases sd) auto
  qed
  moreover have "distinct (map fst (positions ?l)) \<and> (\<forall>(k, q, c) \<in> set (positions ?l). 0 \<le> q \<and> 0 \<le> c)"
    unfolding pos using ok nn by (intro update_pairs) (simp_all add: contest_ok_def)
  ultimately have "contest_ok ?l"
    using ok corders_snoc_ok [OF ok filled(2)] filled(3,4,15)
    by (auto simp: contest_ok_def settle_sel simp del: upt_Suc)
  moreover obtain st' where "books_agree H ?l st'"
    using settle_books [OF b ok pid filled(2,5,6,7,8) refl] by blast
  ultimately show ?thesis using filled(1) by auto
qed

lemma books_participants:
  "books_agree H l st \<Longrightarrow> pid \<notin> p_id ` set (participants l) \<Longrightarrow> dict_get (r_cash st) pid = 0"
  by (rule dict_get_absent) (auto simp: books_agree_def)

lemma signup_ok:
  assumes ok: "contest_ok l" and cfg: "settings_ok cfg" and b: "books_agree H l st"
  shows "contest_ok (fst (signup H cfg c nick pw now l)) \<and> (\<exists>st'. books_agree H (fst (signup H cfg c nick pw now l)) st')"
proof (cases "\<exists>iv. find (\<lambda>i. code i = c) (invites l) = Some iv \<and> used_by iv = None \<and> nick \<notin> nickname ` set (participants l)")
  case False
  then have "fst (signup H cfg c nick pw now l) = l"
    by (auto simp: signup_def Let_def split: option.split)
  with ok b show ?thesis by auto
next
  case True
  let ?pid = "Suc (length (participants l))"
  let ?p = "\<lparr>p_id = ?pid, nickname = nick, pw_hash = pw, p_created = now\<rparr>"
  let ?l1 = "l\<lparr>participants := participants l @ [?p],
      invites := map (\<lambda>i. if code i = c then i\<lparr>used_by := Some ?pid, used_ts := Some now\<rparr> else i) (invites l),
      accounts := accounts l @ [(?pid, initial_cash cfg)]\<rparr>"
  let ?l = "add_journal H now ?pid (Deposit (initial_cash cfg)) ?l1"
  let ?st = "replay_entry ?pid (Deposit (initial_cash cfg)) st"
  have eq: "fst (signup H cfg c nick pw now l) = ?l" using True by (auto simp: signup_def Let_def)
  have "set (map p_id (participants l)) = {1..<?pid}" using ok by (simp add: contest_ok_def del: set_map upt_Suc)
  then have new: "?pid \<notin> p_id ` set (participants l)" by simp
  have codes: "map code (map (\<lambda>i. if code i = c then i\<lparr>used_by := Some ?pid, used_ts := Some now\<rparr> else i) xs) = map code xs" for xs
    by (induction xs) auto
  have "contest_ok ?l"
    using ok cfg True codes [of "invites l"] by (auto simp: contest_ok_def settings_ok_def simp del: map_map)
  moreover have "books_agree H ?l ?st"
  proof -
    have "scan H GENESIS (journal ?l) replay_start = Inr ?st"
      using b by (intro scan_add_journal) (simp_all add: books_agree_def)
    moreover have "\<forall>(a, x) \<in> set (accounts ?l). dict_get (r_cash ?st) a = x"
    proof -
      have "fst ` set (accounts l) = p_id ` set (participants l)" by (rule contest_ok_account_ids [OF ok])
      then have "(a, x) \<in> set (accounts l) \<Longrightarrow> a \<noteq> ?pid" for a x using new by force
      with b books_participants [OF b new] show ?thesis by (fastforce simp: books_agree_def)
    qed
    ultimately show ?thesis
      using b dom_update [of ?pid "dict_get (r_cash st) ?pid + initial_cash cfg" "r_cash st"]
      by (auto simp: books_agree_def table_pos_def filled_orders_def)
  qed
  ultimately show ?thesis unfolding eq by blast
qed

lemma insert_invites_same:
  "insert_invites now cs l = Inr l' \<Longrightarrow> (distinct (map code (invites l)) \<longrightarrow> distinct (map code (invites l')))
    \<and> participants l' = participants l \<and> accounts l' = accounts l \<and> positions l' = positions l
    \<and> corders l' = corders l \<and> journal l' = journal l"
  by (induction now cs l rule: insert_invites.induct) (auto split: if_splits)

lemma contest_step_ok:
  assumes "contest_ok l" "settings_ok cfg" "books_agree H l st"
  shows "contest_ok (contest_step H cfg (c, now) l) \<and> (\<exists>st'. books_agree H (contest_step H cfg (c, now) l) st')"
proof (cases c)
  case (Invites cs)
  show ?thesis
  proof (cases "insert_invites now cs l")
    case (Inr l')
    note ins = insert_invites_same [OF Inr]
    have "distinct (map code (invites l))" using assms(1) by (simp only: contest_ok_def)
    with ins have "contest_ok l'" by (intro contest_ok_same [OF assms(1)]) simp_all
    moreover have "books_agree H l' st" using ins by (intro books_agree_same [OF assms(3)] filled_orders_cong) simp_all
    ultimately have "contest_ok l'" "books_agree H l' st" .
    with Inr Invites show ?thesis by (auto simp: create_invites_def)
  qed (use assms Invites in \<open>auto simp: create_invites_def\<close>)
next
  case (Halt why)
  have "contest_ok (halt why l)" "books_agree H (halt why l) st"
    using assms(1) by (auto simp: halt_def contest_ok_def intro!: contest_ok_same [OF assms(1)] books_agree_same [OF assms(3)] filled_orders_cong)
  with Halt show ?thesis by auto
next
  case Resume
  have "contest_ok (resume l)" "books_agree H (resume l) st"
    using assms(1) by (auto simp: resume_def contest_ok_def intro!: contest_ok_same [OF assms(1)] books_agree_same [OF assms(3)] filled_orders_cong)
  with Resume show ?thesis by auto
qed (use assms place_ok signup_ok in auto)

lemma run_contest_ok:
  assumes "settings_ok cfg"
  shows "contest_ok (run_contest H cfg ops) \<and> (\<exists>st. books_agree H (run_contest H cfg ops) st)"
proof -
  have "contest_ok (fold (contest_step H cfg) ops l) \<and> (\<exists>st. books_agree H (fold (contest_step H cfg) ops l) st)"
    if "contest_ok l" "books_agree H l st" for l st
    using that
  proof (induction ops arbitrary: l st)
    case (Cons a ops)
    obtain c now where a: "a = (c, now)" by (cases a)
    from contest_step_ok [OF Cons.prems(1) assms Cons.prems(2), of c now] Cons.IH show ?case
      by (auto simp: a simp del: contest_step.simps)
  qed auto
  moreover have "contest_ok empty_contest" "books_agree H empty_contest replay_start"
    by (simp_all add: contest_ok_def empty_contest_def books_agree_def replay_start_def table_pos_def
        filled_orders_def)
  ultimately show ?thesis unfolding run_contest_def by blast
qed

subsection \<open>What the contest guarantees\<close>

text \<open>
  C28: the books always balance. Whatever invites, sign-ups, orders, halts and resumes are made, and
  whatever the hash function, the integrity check finds nothing: the hash chain is intact and cash,
  positions and filled orders recomputed from the journal are those of the tables.
\<close>

theorem integrity_clean:
  assumes "settings_ok cfg"
  shows "integrity H (run_contest H cfg ops) = []"
  using run_contest_ok [OF assms, of H ops] books_agree_integrity by blast

definition sample_settings :: settings where
  "sample_settings = \<lparr>initial_cash = 1000, fee_ppm = 150, tax_ppm = 2000\<rparr>"

theorem integrity_clean_witness:
  "integrity (\<lambda>p t i e. ''h'') (run_contest (\<lambda>p t i e. ''h'') sample_settings
     [(Invites [''x''], 0), (Signup ''x'' ''ann'' ''pw'', 1), (Place 1 ''c'' ''s'' cbuy 3 100, 2), (Place 1 ''d'' ''s'' csell 1 90, 3)]) = []"
  by (rule integrity_clean) (simp add: settings_ok_def sample_settings_def)

text \<open>
  C30: no money that is not there. In every reachable state each participant has exactly one account,
  no cash balance is negative, no position has a negative quantity or a negative cost, and order ids
  and client order ids are unique.
\<close>

theorem contest_solvent:
  assumes "settings_ok cfg"
  shows "contest_ok (run_contest H cfg ops)"
  using run_contest_ok [OF assms] by simp

theorem contest_solvent_witness:
  "contest_ok (run_contest (\<lambda>p t i e. ''h'') sample_settings [(Invites [''x''], 0), (Signup ''x'' ''ann'' ''pw'', 1), (Place 1 ''c'' ''s'' cbuy 3 100, 2)])"
  by (rule contest_solvent) (simp add: settings_ok_def sample_settings_def)

interpretation place: create_once "\<lambda>(pid, cid) (s, sd, q, p, now). place H cfg pid cid s sd q p now"
  "\<lambda>l (pid, cid). find (\<lambda>r. c_pid r = pid \<and> c_client_id r = cid) (corders l)" for H cfg
proof
  fix l :: contest and k r a
  assume "(case k of (pid, cid) \<Rightarrow> find (\<lambda>r. c_pid r = pid \<and> c_client_id r = cid) (corders l)) = Some r"
  then show "(case k of (pid, cid) \<Rightarrow> \<lambda>(s, sd, q, p, now). place H cfg pid cid s sd q p now) a l = (l, Inr (r, False))"
    by (simp add: place_def split: prod.split prod.split_asm)
next
  fix l l' :: contest and k :: "nat \<times> string" and r b and a :: "string \<times> cside \<times> int \<times> int \<times> seconds"
  obtain pid cid where k: "k = (pid, cid)" by (cases k)
  obtain s sd q p now where a: "a = (s, sd, q, p, now)" by (cases a)
  assume "(case k of (pid, cid) \<Rightarrow> find (\<lambda>r. c_pid r = pid \<and> c_client_id r = cid) (corders l)) = None"
    "(case k of (pid, cid) \<Rightarrow> \<lambda>(s, sd, q, p, now). place H cfg pid cid s sd q p now) a l = (l', Inr (r, b))"
  then have none: "find (\<lambda>r. c_pid r = pid \<and> c_client_id r = cid) (corders l) = None"
    and pl: "place H cfg pid cid s sd q p now l = (l', Inr (r, b))" by (simp_all add: k a)
  have "find (\<lambda>r. c_pid r = pid \<and> c_client_id r = cid) (corders l') = Some r"
    using pl none
    by (cases rule: place_cases [of H cfg pid cid s sd q p now l])
      (auto simp: find_snoc_None settle_sel place_def Let_def split: option.splits if_splits prod.splits)
  then show "(case k of (pid, cid) \<Rightarrow> find (\<lambda>r. c_pid r = pid \<and> c_client_id r = cid) (corders l')) = Some r"
    by (simp add: k)
qed

text \<open>
  An order moves exactly its own money, once. A call of \<^verbatim>\<open>place\<close> that answers with a new filled
  order changes the participant's cash by minus amount and fee (a buy) or by amount less fee and tax
  (a sale), changes the held quantity by the order's, leaves every other account and position alone
  and adds one journal row; in every other case (refused, repeated, error) accounts, positions and
  journal are unchanged; and repeating the call under its client order id changes nothing.
\<close>

theorem place_effect:
  assumes "place H cfg pid cid s sd q p now l = (l', res)"
  shows "case res of
      Inl _ \<Rightarrow> l' = l
    | Inr (r, created) \<Rightarrow>
        (if created \<and> c_state r = CFilled
         then let (amount, fee, tax) = costs cfg sd q p in
           accounts l' = map (\<lambda>(a, c). (a, if a = pid then c + (if sd = cbuy then - (amount + fee) else amount - fee - tax) else c)) (accounts l)
           \<and> (\<forall>k. dict_get (table_pos l') k = dict_get (table_pos l) k
                 + (if k = (pid, s) then (if sd = cbuy then q else - q) else 0))
           \<and> length (journal l') = length (journal l) + 1
         else accounts l' = accounts l \<and> positions l' = positions l \<and> journal l' = journal l)
        \<and> (\<forall>s' sd' q' p' now'. place H cfg pid cid s' sd' q' p' now' l' = (l', Inr (r, False)))"
proof (cases res)
  case (Inl e)
  with assms show ?thesis
    by (cases rule: place_cases [of H cfg pid cid s sd q p now l]) auto
next
  case (Inr x)
  obtain r created where x: "x = (r, created)" by (cases x)
  have again: "place H cfg pid cid s' sd' q' p' now' l' = (l', Inr (r, False))" for s' sd' q' p' now'
    using place.once [of H cfg "(pid, cid)" "(s, sd, q, p, now)" l l' r created "(s', sd', q', p', now')"] assms
    by (simp add: Inr x)
  have "if created \<and> c_state r = CFilled
         then let (amount, fee, tax) = costs cfg sd q p in
           accounts l' = map (\<lambda>(a, c). (a, if a = pid then c + (if sd = cbuy then - (amount + fee) else amount - fee - tax) else c)) (accounts l)
           \<and> (\<forall>k. dict_get (table_pos l') k = dict_get (table_pos l) k
                 + (if k = (pid, s) then (if sd = cbuy then q else - q) else 0))
           \<and> length (journal l') = length (journal l) + 1
         else accounts l' = accounts l \<and> positions l' = positions l \<and> journal l' = journal l"
  proof (cases rule: place_cases [of H cfg pid cid s sd q p now l])
    case (same y)
    with assms show ?thesis by (auto simp: Inr x)
  next
    case (rejected r' why)
    with assms show ?thesis by (auto simp: Inr x)
  next
    case (filled r' cash amount fee tax)
    obtain held cost where hc: "position_of l pid s = (held, cost)" by fastforce
    have "dict_get (table_pos l) (pid, s) = held" using position_of_table [of l pid s] hc by simp
    with filled assms hc show ?thesis
      by (auto simp: Inr x settle_def Let_def table_pos_get update_conv' add_journal_def)
  qed
  with again show ?thesis by (simp add: Inr x)
qed

theorem place_effect_witness:
  "let l = run_contest (\<lambda>p t i e. ''h'') sample_settings [(Invites [''x''], 0), (Signup ''x'' ''ann'' ''pw'', 1)];
       l' = fst (place (\<lambda>p t i e. ''h'') sample_settings 1 ''c'' ''s'' csell 1 90 2 l)
   in accounts l' = accounts l \<and> journal l' = journal l"
proof -
  let ?H = "\<lambda>p t i e. ''h''"
  let ?l = "run_contest ?H sample_settings [(Invites [''x''], 0), (Signup ''x'' ''ann'' ''pw'', 1)]"
  have "\<exists>l' r. place ?H sample_settings 1 ''c'' ''s'' csell 1 90 2 ?l = (l', Inr (r, True)) \<and> c_state r = CRejected"
    by (simp add: run_contest_def empty_contest_def create_invites_def signup_def add_journal_def Let_def
        sample_settings_def place_def costs_def position_of_def refusal_def)
  then obtain l' r where "place ?H sample_settings 1 ''c'' ''s'' csell 1 90 2 ?l = (l', Inr (r, True))" "c_state r = CRejected"
    by blast
  with place_effect [OF this(1)] show ?thesis by (simp add: Let_def)
qed

subsection \<open>Tampering with the journal\<close>

definition content :: "jrow \<Rightarrow> hash \<times> seconds \<times> nat \<times> entry" where
  "content j = (j_prev j, j_ts j, j_pid j, j_entry j)"

definition hash_of :: "hasher \<Rightarrow> hash \<times> seconds \<times> nat \<times> entry \<Rightarrow> hash" where
  "hash_of H = (\<lambda>(p, t, i, e). H p t i e)"

definition chained :: "hasher \<Rightarrow> jrow list \<Rightarrow> bool" where
  "chained H js \<longleftrightarrow> (\<exists>st. scan H GENESIS js replay_start = Inr st)"

lemma chained_snoc: "chained H (js @ [j]) \<longleftrightarrow> chained H js \<and> row_hash_ok H (last_hash js) j"
  by (auto simp: chained_def scan_snoc last_hash_def split: sum.splits if_splits)

lemma row_hash_content: "row_hash_ok H prev j \<Longrightarrow> j_hash j = hash_of H (content j) \<and> fst (content j) = prev"
  by (simp add: row_hash_ok_def hash_of_def content_def)

text \<open>Two intact chains with one head hash hold the same rows, unless the hash function collides.\<close>

lemma chain_binding:
  assumes "chained H js" "chained H js'" "last_hash js = last_hash js'"
  shows "map content js = map content js'
    \<or> (\<exists>x \<in> set (map content js). \<exists>y \<in> set (map content js'). x \<noteq> y \<and> hash_of H x = hash_of H y)
    \<or> (\<exists>x \<in> set (map content js) \<union> set (map content js'). hash_of H x = GENESIS)"
  using assms
proof (induction js arbitrary: js' rule: rev_induct)
  case Nil
  show ?case
  proof (cases js' rule: rev_cases)
    case (snoc ys y)
    with Nil have "hash_of H (content y) = GENESIS"
      using row_hash_content by (fastforce simp: chained_snoc last_hash_def)
    with snoc show ?thesis by auto
  qed simp
next
  case (snoc j js)
  then have j: "chained H js" "j_hash j = hash_of H (content j)" "fst (content j) = last_hash js"
    using row_hash_content by (auto simp: chained_snoc)
  show ?case
  proof (cases js' rule: rev_cases)
    case Nil
    with snoc.prems(3) j(2) have "hash_of H (content j) = GENESIS" by (simp add: last_hash_def)
    then show ?thesis by auto
  next
    case (snoc ys y)
    with \<open>chained H js'\<close> have y: "chained H ys" "j_hash y = hash_of H (content y)" "fst (content y) = last_hash ys"
      using row_hash_content by (auto simp: chained_snoc)
    have eq: "hash_of H (content j) = hash_of H (content y)" using snoc.prems(3) j(2) y(2) snoc by simp
    show ?thesis
    proof (cases "content j = content y")
      case False
      with eq snoc show ?thesis by auto
    next
      case True
      with j(3) y(3) have "last_hash js = last_hash ys" by simp
      from snoc.IH [OF j(1) y(1) this] True snoc show ?thesis by auto
    qed
  qed
qed

text \<open>
  C31: tampering shows. If the stored journal of a reachable ledger is replaced by rows whose content
  differs in any way (rows edited, removed, inserted or reordered) while the last stored hash stays,
  then the integrity check reports a broken chain, unless the hash function maps two different rows
  of the two journals to one hash or some row to the genesis value.
\<close>

theorem tamper_detected:
  assumes "settings_ok cfg" "last_hash js' = last_hash (journal (run_contest H cfg ops))"
    and "map content js' \<noteq> map content (journal (run_contest H cfg ops))"
  shows "(\<exists>k. integrity H ((run_contest H cfg ops)\<lparr>journal := js'\<rparr>) = [JournalChainBroken k])
    \<or> (\<exists>x \<in> set (map content (journal (run_contest H cfg ops))). \<exists>y \<in> set (map content js').
          x \<noteq> y \<and> hash_of H x = hash_of H y)
    \<or> (\<exists>x \<in> set (map content (journal (run_contest H cfg ops))) \<union> set (map content js'). hash_of H x = GENESIS)"
proof (cases "chained H js'")
  case True
  have "chained H (journal (run_contest H cfg ops))"
    using run_contest_ok [OF assms(1), of H ops] by (auto simp: chained_def books_agree_def)
  from chain_binding [OF this True] assms(2,3) show ?thesis by (metis (no_types))
next
  case False
  then obtain k where "scan H GENESIS js' replay_start = Inl k"
    by (cases "scan H GENESIS js' replay_start") (auto simp: chained_def)
  then have "integrity H ((run_contest H cfg ops)\<lparr>journal := js'\<rparr>) = [JournalChainBroken k]"
    by (simp add: integrity_def)
  then show ?thesis by blast
qed

definition sample_hash :: hasher where
  "sample_hash p t i e = (case e of Deposit a \<Rightarrow> (if a = 1000 then ''a'' else ''b'') | Fill d \<Rightarrow> ''c'')"

theorem tamper_detected_witness:
  "let l = run_contest sample_hash sample_settings [(Invites [''x''], 0), (Signup ''x'' ''ann'' ''pw'', 1)];
       js' = map (\<lambda>j. j\<lparr>j_entry := Deposit 9999\<rparr>) (journal l)
   in \<exists>k. integrity sample_hash (l\<lparr>journal := js'\<rparr>) = [JournalChainBroken k]"
proof -
  let ?ops = "[(Invites [''x''], 0), (Signup ''x'' ''ann'' ''pw'', 1)]"
  let ?l = "run_contest sample_hash sample_settings ?ops"
  let ?js = "map (\<lambda>j. j\<lparr>j_entry := Deposit 9999\<rparr>) (journal ?l)"
  have j: "journal ?l = [\<lparr>j_id = 1, j_ts = 1, j_pid = 1, j_entry = Deposit 1000, j_prev = GENESIS, j_hash = ''a''\<rparr>]"
    by (simp add: run_contest_def empty_contest_def create_invites_def signup_def add_journal_def Let_def
        sample_settings_def sample_hash_def last_hash_def)
  have g: "''a'' \<noteq> GENESIS" "''b'' \<noteq> GENESIS"
    by (auto simp: GENESIS_def dest: arg_cong [of _ _ length])
  have "\<exists>k. integrity sample_hash (?l\<lparr>journal := ?js\<rparr>) = [JournalChainBroken k]"
    using tamper_detected [of sample_settings ?js sample_hash ?ops]
    unfolding j using g by (auto simp: settings_ok_def sample_settings_def last_hash_def content_def hash_of_def sample_hash_def)
  then show ?thesis by (simp add: Let_def)
qed

end
