(* ===== verification/Gaps.thy ===== *)
theory Gaps
  imports Prelude
begin

section \<open>Data gaps: records, transitions, evidence\<close>

text \<open>
  Models \<^verbatim>\<open>src/mdfeed/gaps.py\<close>: gap records, the transitions between their states, the evidence a
  recovery needs and the health summary. A timestamp is its UTC value in microseconds; one without
  a time zone is \<open>Naive\<close> and \<^verbatim>\<open>_to_utc\<close> refuses it. SHA-256 over the scope's JSON text is a
  parameter of the storage model.
\<close>

datatype gap_state = OPEN | ENDED_UNRECOVERED | BACKFILLING | RECOVERED

datatype stamp = Aware int | Naive

definition to_utc :: "stamp \<Rightarrow> py_error + int" where
  "to_utc t = (case t of Aware u \<Rightarrow> Inr u | Naive \<Rightarrow> Inl ValueError)"

record gap_scope =
  venues :: "string list"
  symbols :: "string list"
  tables :: "string list"

definition UNKNOWN_HISTORICAL_SYMBOL_SCOPE :: string where
  "UNKNOWN_HISTORICAL_SYMBOL_SCOPE = ''UNKNOWN_HISTORICAL_UNIVERSE''"

definition CATALOG_TABLES :: "string list" where
  "CATALOG_TABLES = [''instruments'', ''trades'', ''book_top'', ''bars_1m'', ''signals'', ''feed_stats'',
     ''latest'', ''quality_events'']"

definition KNOWN_VENUES :: "string list" where
  "KNOWN_VENUES = [''UPBIT'', ''BINANCE'', ''KIS'', ''KRX'']"

definition known_market_scope :: gap_scope where
  "known_market_scope = \<lparr>venues = KNOWN_VENUES, symbols = [UNKNOWN_HISTORICAL_SYMBOL_SCOPE], tables = CATALOG_TABLES\<rparr>"

definition covers_list :: "string list \<Rightarrow> string list \<Rightarrow> bool" where
  "covers_list actual required \<longleftrightarrow> ''*'' \<in> set actual \<or> set required \<subseteq> set actual"

definition covers :: "gap_scope \<Rightarrow> gap_scope \<Rightarrow> bool" where
  "covers a r \<longleftrightarrow> covers_list (venues a) (venues r) \<and> covers_list (symbols a) (symbols r)
     \<and> covers_list (tables a) (tables r)"

definition scope_counts :: "gap_scope \<Rightarrow> nat \<times> nat \<times> nat" where
  "scope_counts s = (length (venues s), length (symbols s), length (tables s))"

record backfill_receipt =
  r_id :: string
  covered_start :: int
  covered_end :: int
  r_scope :: gap_scope
  evidence_type :: string
  actual_reconciliation_id :: string
  authoritative_coverage_id :: string
  missing_intervals :: int
  missing_rows :: int
  verified_at :: int

record gap_record =
  g_id :: string
  started_at :: int
  ended_at :: "int option"
  g_state :: gap_state
  required_scope :: gap_scope
  g_reason :: string
  backfill_receipt_id :: "string option"
  recovered_at :: "int option"
  reconciliation_result :: "string option"

datatype transition_error = GAP_ILLEGAL_TRANSITION string | GAP_RECOVERY_EVIDENCE_INCOMPLETE string | GapValueError

record public_gap =
  pub_id :: string
  pub_state :: gap_state
  pub_started :: int
  pub_ended :: "int option"
  elapsed_seconds :: int
  pub_scope :: gap_scope
  required_scope_counts :: "nat \<times> nat \<times> nat"
  covered_scope_counts :: "nat \<times> nat \<times> nat"
  pub_receipt :: "string option"
  pub_recovered_at :: "int option"
  pub_recovered :: bool
  pub_result :: "string option"
  blocking_reason :: "string option"

definition to_public :: "int \<Rightarrow> gap_record \<Rightarrow> public_gap" where
  "to_public now g =
     (let stop = (case ended_at g of None \<Rightarrow> now | Some e \<Rightarrow> e);
          elapsed = max 0 (if stop \<ge> started_at g then (stop - started_at g) div 1000000
                           else - ((started_at g - stop) div 1000000));
          rec = (g_state g = RECOVERED)
      in \<lparr>pub_id = g_id g, pub_state = g_state g, pub_started = started_at g, pub_ended = ended_at g,
          elapsed_seconds = elapsed, pub_scope = required_scope g,
          required_scope_counts = scope_counts (required_scope g),
          covered_scope_counts = (if rec then scope_counts (required_scope g) else (0, 0, 0)),
          pub_receipt = backfill_receipt_id g, pub_recovered_at = recovered_at g, pub_recovered = rec,
          pub_result = reconciliation_result g, blocking_reason = (if rec then None else Some (g_reason g))\<rparr>)"

definition known_incident :: gap_record where
  "known_incident = \<lparr>g_id = ''collection-stop-20260908'', started_at = 1788844614000000, ended_at = None,
     g_state = OPEN, required_scope = known_market_scope,
     g_reason = ''collection stopped at 2026-09-08 14:16:54 KST; no verified backfill exists'',
     backfill_receipt_id = None, recovered_at = None, reconciliation_result = None\<rparr>"

subsection \<open>Transitions\<close>

definition close_gap :: "gap_record \<Rightarrow> stamp \<Rightarrow> transition_error + gap_record" where
  "close_gap g t =
     (case g_state g of
        OPEN \<Rightarrow> (case to_utc t of
            Inl e \<Rightarrow> Inl GapValueError
          | Inr e \<Rightarrow> Inr \<lparr>g_id = g_id g, started_at = started_at g, ended_at = Some e, g_state = ENDED_UNRECOVERED,
              required_scope = required_scope g, g_reason = ''gap has an end time but no verified backfill receipt'',
              backfill_receipt_id = None, recovered_at = None, reconciliation_result = None\<rparr>)
      | _ \<Rightarrow> Inl (GAP_ILLEGAL_TRANSITION ''only an open gap can be closed''))"

definition replace_state :: "gap_record \<Rightarrow> gap_state \<Rightarrow> string \<Rightarrow> gap_record" where
  "replace_state g s why = g\<lparr>g_state := s, g_reason := why\<rparr>"

definition begin_backfill :: "gap_record \<Rightarrow> transition_error + gap_record" where
  "begin_backfill g =
     (case g_state g of
        ENDED_UNRECOVERED \<Rightarrow> Inr (replace_state g BACKFILLING ''backfill is in progress'')
      | _ \<Rightarrow> Inl (GAP_ILLEGAL_TRANSITION ''only a closed unrecovered gap can enter backfill''))"

definition scope_resolved :: "gap_scope \<Rightarrow> bool" where
  "scope_resolved s \<longleftrightarrow> venues s \<noteq> [] \<and> symbols s \<noteq> [] \<and> tables s \<noteq> []
     \<and> UNKNOWN_HISTORICAL_SYMBOL_SCOPE \<notin> set (venues s @ symbols s @ tables s)
     \<and> ''*'' \<notin> set (venues s @ symbols s @ tables s)"

definition mark_recovered :: "gap_record \<Rightarrow> backfill_receipt \<Rightarrow> transition_error + gap_record" where
  "mark_recovered g r =
     (let no = (\<lambda>why. Inl (GAP_RECOVERY_EVIDENCE_INCOMPLETE why)) in
      if g_state g = OPEN then no ''open gaps have no closed interval''
      else case ended_at g of
        None \<Rightarrow> no ''gap end time is required''
      | Some e \<Rightarrow>
          if \<not> scope_resolved (required_scope g) \<or> \<not> scope_resolved (r_scope r)
          then no ''resolved non-empty historical scope is required''
          else if evidence_type r \<noteq> ''stored_reconciliation'' then no ''stored reconciliation evidence is required''
          else if actual_reconciliation_id r = '''' \<or> authoritative_coverage_id r = ''''
          then no ''coverage and reconciliation ids are required''
          else if covered_start r > started_at g \<or> covered_end r < e
          then no ''receipt does not cover the full time interval''
          else if r_scope r \<noteq> required_scope g then no ''receipt does not match the exact required scope''
          else if missing_intervals r \<noteq> 0 \<or> missing_rows r \<noteq> 0 then no ''receipt reports missing market data''
          else Inr \<lparr>g_id = g_id g, started_at = started_at g, ended_at = Some e, g_state = RECOVERED,
            required_scope = required_scope g, g_reason = ''recovered by verified stored reconciliation'',
            backfill_receipt_id = Some (r_id r), recovered_at = Some (verified_at r),
            reconciliation_result = Some (actual_reconciliation_id r)\<rparr>)"

text \<open>The receipt store is handed in as its lookup.\<close>

definition mark_recovered_from_store :: "gap_record \<Rightarrow> string \<Rightarrow> (string \<Rightarrow> backfill_receipt option)
    \<Rightarrow> transition_error + gap_record" where
  "mark_recovered_from_store g i get_verified =
     (case get_verified i of
        None \<Rightarrow> Inl (GAP_RECOVERY_EVIDENCE_INCOMPLETE ''trusted recovery receipt is missing'')
      | Some r \<Rightarrow> mark_recovered g r)"

record gap_summary =
  gs_count :: nat
  open_count :: nat
  recovered_count :: nat
  unrecovered_duration_seconds :: int
  gs_healthy :: bool
  gs_items :: "public_gap list"

definition summarize :: "gap_record list \<Rightarrow> int \<Rightarrow> gap_summary" where
  "summarize gs now =
     (let items = map (to_public now) gs; opens = filter (\<lambda>i. pub_state i \<noteq> RECOVERED) items in
      \<lparr>gs_count = length items, open_count = length opens, recovered_count = length items - length opens,
       unrecovered_duration_seconds = foldr max (map elapsed_seconds opens) 0,
       gs_healthy = (opens = []), gs_items = items\<rparr>)"

subsection \<open>What a recovery proves\<close>

definition evidences :: "backfill_receipt \<Rightarrow> gap_record \<Rightarrow> bool" where
  "evidences r g \<longleftrightarrow> (\<exists>e. ended_at g = Some e \<and> covered_start r \<le> started_at g \<and> e \<le> covered_end r)
     \<and> r_scope r = required_scope g \<and> scope_resolved (required_scope g)
     \<and> evidence_type r = ''stored_reconciliation'' \<and> actual_reconciliation_id r \<noteq> ''''
     \<and> authoritative_coverage_id r \<noteq> '''' \<and> missing_intervals r = 0 \<and> missing_rows r = 0"

lemma mark_recovered_iff:
  "(\<exists>g'. mark_recovered g r = Inr g') \<longleftrightarrow> g_state g \<noteq> OPEN \<and> evidences r g"
  by (auto simp: mark_recovered_def evidences_def Let_def split: option.splits if_splits)

lemma mark_recovered_result:
  "mark_recovered g r = Inr g' \<Longrightarrow> g_state g' = RECOVERED \<and> evidences r g' \<and> g_id g' = g_id g
     \<and> started_at g' = started_at g \<and> ended_at g' = ended_at g \<and> required_scope g' = required_scope g
     \<and> backfill_receipt_id g' = Some (r_id r)"
  by (auto simp: mark_recovered_def evidences_def Let_def split: option.splits if_splits)

inductive gap_moves :: "gap_record \<Rightarrow> gap_record \<Rightarrow> bool" where
  close: "close_gap g t = Inr g' \<Longrightarrow> gap_moves g g'"
| backfill: "begin_backfill g = Inr g' \<Longrightarrow> gap_moves g g'"
| recover: "mark_recovered g r = Inr g' \<Longrightarrow> gap_moves g g'"

inductive_cases gap_movesE: "gap_moves g g'"

definition gap_sound :: "gap_record \<Rightarrow> gap_record \<Rightarrow> bool" where
  "gap_sound g0 g \<longleftrightarrow> g_id g = g_id g0 \<and> started_at g = started_at g0 \<and> required_scope g = required_scope g0
     \<and> (g_state g \<noteq> OPEN \<longrightarrow> ended_at g \<noteq> None)
     \<and> (g_state g = RECOVERED \<longrightarrow> scope_resolved (required_scope g)
          \<and> (\<exists>r. evidences r g \<and> backfill_receipt_id g = Some (r_id r)))"

text \<open>
  A gap is recovered only by evidence. Starting from an open gap, along any sequence of
  transitions the start, the id and the required scope never change, a gap that has left \<open>OPEN\<close> has an
  end time and never becomes open again, and whenever it is \<open>RECOVERED\<close> there is a receipt that covers
  its whole interval and exactly its resolved scope with nothing missing; in particular a gap whose
  historical scope is unknown is never recovered.
\<close>

theorem recovered_has_evidence:
  assumes "g_state g0 = OPEN" "gap_moves\<^sup>*\<^sup>* g0 g"
  shows "gap_sound g0 g"
  using assms(2)
proof (induction rule: rtranclp_induct)
  case base
  then show ?case using assms(1) by (simp add: gap_sound_def)
next
  case (step y z)
  from step(2) consider (1) t where "close_gap y t = Inr z" | (2) "begin_backfill y = Inr z"
    | (3) r where "mark_recovered y r = Inr z" by (elim gap_movesE) blast+
  then show ?case
  proof cases
    case 1
    with step(3) show ?thesis by (auto simp: close_gap_def gap_sound_def split: gap_state.splits sum.splits)
  next
    case 2
    with step(3) show ?thesis by (auto simp: begin_backfill_def replace_state_def gap_sound_def split: gap_state.splits)
  next
    case 3
    from mark_recovered_result [OF 3] step(3) show ?thesis
      by (auto simp: gap_sound_def evidences_def)
  qed
qed

definition sample_gap :: gap_record where
  "sample_gap = known_incident\<lparr>started_at := 10, required_scope :=
     \<lparr>venues = [''UPBIT''], symbols = [''KRW-BTC''], tables = [''trades'']\<rparr>\<rparr>"

definition sample_receipt :: backfill_receipt where
  "sample_receipt = \<lparr>r_id = ''r'', covered_start = 0, covered_end = 60, r_scope = required_scope sample_gap,
     evidence_type = ''stored_reconciliation'', actual_reconciliation_id = ''m'', authoritative_coverage_id = ''c'',
     missing_intervals = 0, missing_rows = 0, verified_at = 70\<rparr>"

theorem recovered_has_evidence_witness:
  "\<exists>g. g_state g = RECOVERED \<and> gap_sound sample_gap g"
proof -
  obtain g1 where g1: "close_gap sample_gap (Aware 50) = Inr g1"
    by (simp add: close_gap_def sample_gap_def known_incident_def to_utc_def)
  then obtain g2 where g2: "begin_backfill g1 = Inr g2"
    by (auto simp: close_gap_def sample_gap_def known_incident_def to_utc_def begin_backfill_def)
  have "\<exists>g. mark_recovered g2 sample_receipt = Inr g \<and> g_state g = RECOVERED"
    using g1 g2 by (auto simp: close_gap_def sample_gap_def known_incident_def to_utc_def begin_backfill_def
        replace_state_def mark_recovered_def sample_receipt_def scope_resolved_def
        UNKNOWN_HISTORICAL_SYMBOL_SCOPE_def Let_def)
  then obtain g where g: "mark_recovered g2 sample_receipt = Inr g" "g_state g = RECOVERED" by blast
  have "gap_moves\<^sup>*\<^sup>* sample_gap g"
    using gap_moves.close [OF g1] gap_moves.backfill [OF g2] gap_moves.recover [OF g(1)] by auto
  with g(2) recovered_has_evidence [of sample_gap g] show ?thesis
    by (auto simp: sample_gap_def known_incident_def)
qed

text \<open>
  The health summary never hides a gap. It is healthy exactly when every record is recovered,
  the open and recovered counts add up to all records, and the reported duration is the longest
  elapsed time among the gaps that are not recovered.
\<close>

theorem summary_honest:
  "let s = summarize gs now in
     (gs_healthy s \<longleftrightarrow> (\<forall>g \<in> set gs. g_state g = RECOVERED))
     \<and> open_count s + recovered_count s = length gs
     \<and> open_count s = length (filter (\<lambda>g. g_state g \<noteq> RECOVERED) gs)
     \<and> (\<forall>g \<in> set gs. g_state g \<noteq> RECOVERED \<longrightarrow> elapsed_seconds (to_public now g) \<le> unrecovered_duration_seconds s)"
proof -
  have st: "pub_state (to_public now g) = g_state g" for g by (simp add: to_public_def Let_def)
  have mx: "x \<in> set xs \<Longrightarrow> x \<le> foldr max xs (0 :: int)" for x xs by (induction xs) auto
  have le: "length (filter (\<lambda>i. pub_state i \<noteq> RECOVERED) (map (to_public now) gs)) \<le> length gs"
    using length_filter_le [of _ "map (to_public now) gs"] by simp
  have f: "length (filter (\<lambda>i. pub_state i \<noteq> RECOVERED) (map (to_public now) gs)) = length (filter (\<lambda>g. g_state g \<noteq> RECOVERED) gs)"
    by (simp add: filter_map comp_def st)
  show ?thesis
    using le f st by (auto simp: summarize_def Let_def filter_empty_conv intro!: mx)
qed

theorem summary_honest_witness:
  "\<not> gs_healthy (summarize [sample_gap] 70)
   \<and> elapsed_seconds (to_public 70 sample_gap) \<le> unrecovered_duration_seconds (summarize [sample_gap] 70)"
proof -
  have "g_state sample_gap \<noteq> RECOVERED" by (simp add: sample_gap_def known_incident_def)
  with summary_honest [of "[sample_gap]" 70] show ?thesis by (simp add: Let_def)
qed

text \<open>
  A gap may be closed at a time before it began: nothing compares the two times, and such a gap is
  recovered by a receipt that covers no part of the outage.
\<close>

lemma closed_before_start:
  "close_gap known_incident (Aware 0) = Inr g \<Longrightarrow> ended_at g = Some 0 \<and> 0 < started_at g \<and> elapsed_seconds (to_public now g) = 0"
  by (auto simp: close_gap_def known_incident_def to_utc_def to_public_def Let_def)

end
