(* ===== verification/GapRepository.thy ===== *)
theory GapRepository
  imports Gaps
begin

section \<open>Gap repositories and trusted receipts\<close>

text \<open>
  Models \<^verbatim>\<open>src/mdfeed/gap_repository.py\<close> and the \<^verbatim>\<open>gap\<close> command of \<^verbatim>\<open>cli.py\<close>: the memory, file and
  database repositories, the evidence tables and their validation. Hashes over canonical JSON are
  the parameter record \<open>hashes\<close>, functions of the hashed values; JSON columns hold the decoded
  value, times are UTC microseconds. A database of kind \<^verbatim>\<open>postgres\<close> supplies \<open>digest\<close>, the digest
  the migration package computes from the live tables.
\<close>

subsection \<open>Memory and file\<close>

type_synonym mem_repo = "(string \<times> gap_record) list"

definition mem_new :: "gap_record list \<Rightarrow> mem_repo" where
  "mem_new rs = foldl (\<lambda>d r. AList.update (g_id r) r d) [] rs"

definition mem_list :: "mem_repo \<Rightarrow> gap_record list" where
  "mem_list d = sort_key started_at (map snd d)"

definition mem_get :: "mem_repo \<Rightarrow> string \<Rightarrow> gap_record option" where
  "mem_get d i = map_of d i"

definition mem_save :: "gap_record \<Rightarrow> mem_repo \<Rightarrow> mem_repo" where
  "mem_save r d = AList.update (g_id r) r d"

text \<open>
  \<^verbatim>\<open>str.upper\<close> on the letters of a venue code, which are ASCII (\<^verbatim>\<open>KNOWN_VENUES\<close>); other letters are left as they are here.
\<close>

definition upper_char :: "char \<Rightarrow> char" where
  "upper_char c = (if of_char c \<ge> (97 :: nat) \<and> of_char c \<le> (122 :: nat) then char_of ((of_char c :: nat) - 32) else c)"

definition scope_from_dict :: "gap_scope \<Rightarrow> gap_scope" where
  "scope_from_dict s = s\<lparr>venues := map (map upper_char) (venues s)\<rparr>"

definition record_from_dict :: "gap_record \<Rightarrow> gap_record" where
  "record_from_dict r = r\<lparr>required_scope := scope_from_dict (required_scope r)\<rparr>"

definition dedupe :: "gap_record list \<Rightarrow> gap_record list" where
  "dedupe rs = map snd (foldl (\<lambda>d r. AList.update (g_id r) r d) [] rs)"

record file_repo =
  f_mem :: mem_repo
  disk :: "gap_record list option"

definition file_open :: "gap_record list option \<Rightarrow> gap_record list \<Rightarrow> file_repo" where
  "file_open content seeds =
     \<lparr>f_mem = mem_new (dedupe (seeds @ (case content of None \<Rightarrow> [] | Some js \<Rightarrow> map record_from_dict js))),
      disk = content\<rparr>"

definition file_save :: "gap_record \<Rightarrow> file_repo \<Rightarrow> file_repo" where
  "file_save r f = (let m = mem_save r (f_mem f) in \<lparr>f_mem = m, disk = Some (mem_list m)\<rparr>)"

subsection \<open>The database\<close>

record hashes =
  hash_scope :: "gap_scope \<Rightarrow> string"
  hash_coverage :: "string \<times> int \<times> int \<times> string \<times> string \<times> (string \<times> int) list \<times> string \<times> int \<Rightarrow> string"
  hash_receipt :: "string \<times> int \<times> int \<times> string \<times> string \<times> string \<times> int \<times> int \<times> int \<Rightarrow> string"

record gap_row =
  row_id :: string
  row_state :: gap_state
  row_started :: int
  row_ended :: "int option"
  row_recovered :: "int option"
  row_hash :: string
  row_scope :: "gap_scope option"
  row_receipt :: "string option"

record coverage_row =
  cov_id :: string
  cov_start :: int
  cov_end :: int
  cov_scope_hash :: string
  cov_scope :: gap_scope
  cov_fingerprint :: string
  cov_counts :: "(string \<times> int) list"
  cov_hash :: string
  cov_producer :: string
  cov_verified_at :: int
  cov_verified :: bool

record receipt_row =
  rr_id :: string
  rr_gap :: string
  rr_start :: int
  rr_end :: int
  rr_scope_hash :: string
  rr_scope :: gap_scope
  rr_actual :: string
  rr_authority :: string
  rr_missing_intervals :: int
  rr_missing_rows :: int
  rr_hash :: string
  rr_verified_at :: int
  rr_verified :: bool

record migration_row =
  run_id :: string
  mig_fingerprint :: string
  completed :: bool

record digest =
  dg_fingerprint :: string
  dg_rows :: "(string \<times> int) list"

record gap_db =
  data_gaps :: "gap_row list"
  coverages :: "coverage_row list"
  receipts :: "receipt_row list"
  migrations :: "migration_row list"
  pg_digest :: "digest option"

datatype store_error = Transition transition_error | Py py_error | GAP_NOT_FOUND

definition incomplete :: "string \<Rightarrow> store_error" where
  "incomplete why = Transition (GAP_RECOVERY_EVIDENCE_INCOMPLETE why)"

definition scope_from_stored :: "gap_scope option \<Rightarrow> gap_record option \<Rightarrow> gap_scope" where
  "scope_from_stored v seed =
     (case v of Some raw \<Rightarrow> scope_from_dict raw
      | None \<Rightarrow> (case seed of Some s \<Rightarrow> required_scope s | None \<Rightarrow> \<lparr>venues = [], symbols = [], tables = []\<rparr>))"

definition reconciliation_of :: "gap_db \<Rightarrow> string option \<Rightarrow> string option" where
  "reconciliation_of db i =
     (case i of None \<Rightarrow> None
      | Some k \<Rightarrow> if k = '''' then None
                 else map_option rr_actual (find (\<lambda>r. rr_id r = k \<and> rr_verified r) (receipts db)))"

definition from_row :: "hashes \<Rightarrow> (string \<times> gap_record) list \<Rightarrow> gap_db \<Rightarrow> gap_row \<Rightarrow> store_error + gap_record" where
  "from_row H seeds db row =
     (let seed = map_of seeds (row_id row); scope = scope_from_stored (row_scope row) seed in
      if row_hash row \<noteq> '''' \<and> row_hash row \<noteq> hash_scope H scope
      then Inl (incomplete ''stored required scope hash mismatch'')
      else Inr \<lparr>g_id = row_id row, started_at = row_started row, ended_at = row_ended row, g_state = row_state row,
        required_scope = scope,
        g_reason = (case seed of Some s \<Rightarrow> g_reason s | None \<Rightarrow> ''stored data gap requires verified backfill''),
        backfill_receipt_id = row_receipt row, recovered_at = row_recovered row,
        reconciliation_result = reconciliation_of db (row_receipt row)\<rparr>)"

definition record_row :: "hashes \<Rightarrow> gap_record \<Rightarrow> gap_row" where
  "record_row H r = \<lparr>row_id = g_id r, row_state = g_state r, row_started = started_at r, row_ended = ended_at r,
     row_recovered = recovered_at r, row_hash = hash_scope H (required_scope r),
     row_scope = Some (required_scope r), row_receipt = backfill_receipt_id r\<rparr>"

definition db_get :: "hashes \<Rightarrow> (string \<times> gap_record) list \<Rightarrow> gap_db \<Rightarrow> string \<Rightarrow> store_error + gap_record option" where
  "db_get H seeds db i =
     (case find (\<lambda>row. row_id row = i) (data_gaps db) of
        None \<Rightarrow> Inr None
      | Some row \<Rightarrow> (case from_row H seeds db row of Inl e \<Rightarrow> Inl e | Inr r \<Rightarrow> Inr (Some r)))"

fun sequence_rows :: "(store_error + 'a) list \<Rightarrow> store_error + 'a list" where
  "sequence_rows [] = Inr []"
| "sequence_rows (Inl e # xs) = Inl e"
| "sequence_rows (Inr x # xs) = (case sequence_rows xs of Inl e \<Rightarrow> Inl e | Inr ys \<Rightarrow> Inr (x # ys))"

definition db_list :: "hashes \<Rightarrow> (string \<times> gap_record) list \<Rightarrow> gap_db \<Rightarrow> store_error + gap_record list" where
  "db_list H seeds db = sequence_rows (map (from_row H seeds db) (sort_key row_started (data_gaps db)))"

text \<open>\<^verbatim>\<open>INSERT ... ON CONFLICT(gap_id) DO UPDATE\<close>: the start of an existing row is kept.\<close>

definition db_save :: "hashes \<Rightarrow> gap_record \<Rightarrow> gap_db \<Rightarrow> gap_db" where
  "db_save H r db =
     (if g_id r \<in> row_id ` set (data_gaps db)
      then db\<lparr>data_gaps := map (\<lambda>row. if row_id row = g_id r then (record_row H r)\<lparr>row_started := row_started row\<rparr> else row) (data_gaps db)\<rparr>
      else db\<lparr>data_gaps := data_gaps db @ [record_row H r]\<rparr>)"

definition insert_seed :: "hashes \<Rightarrow> gap_db \<Rightarrow> gap_record \<Rightarrow> gap_db" where
  "insert_seed H db r =
     (if g_id r \<in> row_id ` set (data_gaps db) then db else db\<lparr>data_gaps := data_gaps db @ [record_row H r]\<rparr>)"

definition db_open :: "hashes \<Rightarrow> gap_record list \<Rightarrow> gap_db \<Rightarrow> gap_db \<times> (string \<times> gap_record) list" where
  "db_open H seeds db = (let d = mem_new seeds in (foldl (insert_seed H) db (map snd d), d))"

subsection \<open>Evidence\<close>

definition completed_migration :: "gap_db \<Rightarrow> string \<Rightarrow> store_error + string \<times> digest option" where
  "completed_migration db i =
     (case find (\<lambda>m. run_id m = i \<and> completed m) (migrations db) of
        None \<Rightarrow> Inl (incomplete ''completed migration record is missing'')
      | Some m \<Rightarrow> (case pg_digest db of
            None \<Rightarrow> Inr (mig_fingerprint m, None)
          | Some dg \<Rightarrow> if dg_fingerprint dg \<noteq> mig_fingerprint m
                       then Inl (incomplete ''migration target fingerprint no longer matches completed run'')
                       else Inr (mig_fingerprint m, Some dg)))"

definition trusted_coverage :: "hashes \<Rightarrow> gap_db \<Rightarrow> string \<Rightarrow> store_error + coverage_row" where
  "trusted_coverage H db i =
     (case find (\<lambda>c. cov_id c = i \<and> cov_verified c) (coverages db) of
        None \<Rightarrow> Inl (incomplete ''trusted authoritative coverage is missing'')
      | Some c \<Rightarrow>
          let scope = scope_from_dict (cov_scope c) in
          if cov_scope_hash c \<noteq> hash_scope H scope
             \<or> cov_hash c \<noteq> hash_coverage H (cov_id c, cov_start c, cov_end c, cov_scope_hash c, cov_fingerprint c,
                 cov_counts c, cov_producer c, cov_verified_at c)
          then Inl (incomplete ''trusted coverage evidence hash mismatch'')
          else Inr (c\<lparr>cov_scope := scope\<rparr>))"

fun check_tables :: "digest \<Rightarrow> (string \<times> int) list \<Rightarrow> string list \<Rightarrow> store_error option" where
  "check_tables dg counts [] = None"
| "check_tables dg counts (t # ts) =
     (case map_of counts t of
        None \<Rightarrow> Some (incomplete ''coverage table counts do not match migration target'')
      | Some n \<Rightarrow> (case map_of (dg_rows dg) t of
            None \<Rightarrow> Some (Py KeyError)
          | Some m \<Rightarrow> if n \<noteq> m then Some (incomplete ''coverage table counts do not match migration target'')
                     else check_tables dg counts ts))"

definition validate_authorities :: "hashes \<Rightarrow> gap_db \<Rightarrow> gap_record \<Rightarrow> string \<Rightarrow> string \<Rightarrow> store_error option" where
  "validate_authorities H db g actual authority =
     (case completed_migration db actual of
        Inl e \<Rightarrow> Some e
      | Inr (fp, dg) \<Rightarrow> (case trusted_coverage H db authority of
            Inl e \<Rightarrow> Some e
          | Inr c \<Rightarrow>
              if fp \<noteq> cov_fingerprint c then Some (incomplete ''coverage is not bound to migration fingerprint'')
              else if cov_start c > started_at g \<or> (case ended_at g of None \<Rightarrow> True | Some e \<Rightarrow> cov_end c < e)
              then Some (incomplete ''coverage does not cover the closed interval'')
              else if cov_scope c \<noteq> required_scope g then Some (incomplete ''coverage scope does not match required scope'')
              else (case dg of None \<Rightarrow> None | Some d \<Rightarrow> check_tables d (cov_counts c) (tables (cov_scope c)))))"

definition receipt_payload :: "hashes \<Rightarrow> backfill_receipt \<Rightarrow> string" where
  "receipt_payload H r = hash_receipt H (r_id r, covered_start r, covered_end r, hash_scope H (r_scope r),
     actual_reconciliation_id r, authoritative_coverage_id r, missing_intervals r, missing_rows r, verified_at r)"

definition receipt_from_row :: "hashes \<Rightarrow> receipt_row \<Rightarrow> backfill_receipt option" where
  "receipt_from_row H row =
     (let scope = scope_from_dict (rr_scope row);
          r = \<lparr>r_id = rr_id row, covered_start = rr_start row, covered_end = rr_end row, r_scope = scope,
               evidence_type = ''stored_reconciliation'', actual_reconciliation_id = rr_actual row,
               authoritative_coverage_id = rr_authority row, missing_intervals = rr_missing_intervals row,
               missing_rows = rr_missing_rows row, verified_at = rr_verified_at row\<rparr>
      in if rr_scope_hash row \<noteq> hash_scope H scope then None
         else if rr_hash row \<noteq> receipt_payload H r then None else Some r)"

definition gap_for_validation :: "gap_db \<Rightarrow> string \<Rightarrow> store_error + gap_record" where
  "gap_for_validation db i =
     (case find (\<lambda>row. row_id row = i) (data_gaps db) of
        None \<Rightarrow> Inl (incomplete ''receipt gap is missing or open'')
      | Some row \<Rightarrow> (case row_ended row of
            None \<Rightarrow> Inl (incomplete ''receipt gap is missing or open'')
          | Some e \<Rightarrow> Inr \<lparr>g_id = row_id row, started_at = row_started row, ended_at = Some e, g_state = row_state row,
              required_scope = scope_from_stored (row_scope row) None,
              g_reason = ''stored data gap requires verified backfill'', backfill_receipt_id = row_receipt row,
              recovered_at = row_recovered row, reconciliation_result = None\<rparr>))"

definition trusted_receipt_from_row :: "hashes \<Rightarrow> gap_db \<Rightarrow> receipt_row \<Rightarrow> store_error + backfill_receipt" where
  "trusted_receipt_from_row H db row =
     (case receipt_from_row H row of
        None \<Rightarrow> Inl (incomplete ''stored recovery receipt hash mismatch'')
      | Some r \<Rightarrow> (case gap_for_validation db (rr_gap row) of
            Inl e \<Rightarrow> Inl e
          | Inr g \<Rightarrow> (case validate_authorities H db g (actual_reconciliation_id r) (authoritative_coverage_id r) of
                Some e \<Rightarrow> Inl e
              | None \<Rightarrow>
                  if covered_start r \<noteq> started_at g \<or> Some (covered_end r) \<noteq> ended_at g
                  then Inl (incomplete ''receipt interval does not match gap interval'')
                  else if r_scope r \<noteq> required_scope g then Inl (incomplete ''receipt scope does not match gap scope'')
                  else Inr r)))"

text \<open>A failed validation is no receipt; any other exception propagates.\<close>

definition db_get_verified :: "hashes \<Rightarrow> gap_db \<Rightarrow> string \<Rightarrow> py_error + backfill_receipt option" where
  "db_get_verified H db i =
     (case find (\<lambda>r. rr_id r = i \<and> rr_verified r) (receipts db) of
        None \<Rightarrow> Inr None
      | Some row \<Rightarrow> (case trusted_receipt_from_row H db row of
            Inr r \<Rightarrow> Inr (Some r)
          | Inl (Transition e) \<Rightarrow> Inr None
          | Inl (Py e) \<Rightarrow> Inl e
          | Inl GAP_NOT_FOUND \<Rightarrow> Inr None))"

definition record_trusted_coverage :: "hashes \<Rightarrow> string \<Rightarrow> int \<Rightarrow> int \<Rightarrow> gap_scope \<Rightarrow> string \<Rightarrow> (string \<times> int) list
    \<Rightarrow> string \<Rightarrow> int \<Rightarrow> gap_db \<Rightarrow> gap_db" where
  "record_trusted_coverage H i st en scope fp counts producer vat db =
     (let row = \<lparr>cov_id = i, cov_start = st, cov_end = en, cov_scope_hash = hash_scope H scope, cov_scope = scope,
            cov_fingerprint = fp, cov_counts = counts,
            cov_hash = hash_coverage H (i, st, en, hash_scope H scope, fp, counts, producer, vat),
            cov_producer = producer, cov_verified_at = vat, cov_verified = True\<rparr> in
      if i \<in> cov_id ` set (coverages db)
      then db\<lparr>coverages := map (\<lambda>c. if cov_id c = i then c\<lparr>cov_verified := True\<rparr> else c) (coverages db)\<rparr>
      else db\<lparr>coverages := coverages db @ [row]\<rparr>)"

definition record_trusted_receipt :: "hashes \<Rightarrow> string \<Rightarrow> string \<Rightarrow> string \<Rightarrow> string \<Rightarrow> int \<Rightarrow> gap_db
    \<Rightarrow> gap_db \<times> (store_error + backfill_receipt)" where
  "record_trusted_receipt H gap i actual authority vat db =
     (case db_get H [] db gap of
        Inl e \<Rightarrow> (db, Inl e)
      | Inr None \<Rightarrow> (db, Inl (incomplete ''gap must exist with a closed interval''))
      | Inr (Some g) \<Rightarrow> (case ended_at g of
            None \<Rightarrow> (db, Inl (incomplete ''gap must exist with a closed interval''))
          | Some e \<Rightarrow> (case validate_authorities H db g actual authority of
                Some err \<Rightarrow> (db, Inl err)
              | None \<Rightarrow>
                  let r = \<lparr>r_id = i, covered_start = started_at g, covered_end = e, r_scope = required_scope g,
                        evidence_type = ''stored_reconciliation'', actual_reconciliation_id = actual,
                        authoritative_coverage_id = authority, missing_intervals = 0, missing_rows = 0,
                        verified_at = vat\<rparr>;
                      row = \<lparr>rr_id = i, rr_gap = gap, rr_start = started_at g, rr_end = e,
                        rr_scope_hash = hash_scope H (required_scope g), rr_scope = required_scope g,
                        rr_actual = actual, rr_authority = authority, rr_missing_intervals = 0,
                        rr_missing_rows = 0, rr_hash = receipt_payload H r, rr_verified_at = vat, rr_verified = True\<rparr>
                  in if i \<in> rr_id ` set (receipts db) then (db, Inl (Py IntegrityError))
                     else (db\<lparr>receipts := receipts db @ [row]\<rparr>, Inr r))))"

subsection \<open>The command line\<close>

definition cmd_close :: "hashes \<Rightarrow> (string \<times> gap_record) list \<Rightarrow> string \<Rightarrow> stamp \<Rightarrow> gap_db \<Rightarrow> gap_db \<times> (store_error + gap_record)" where
  "cmd_close H seeds i t db =
     (case db_get H seeds db i of
        Inl e \<Rightarrow> (db, Inl e)
      | Inr None \<Rightarrow> (db, Inl GAP_NOT_FOUND)
      | Inr (Some g) \<Rightarrow> (case close_gap g t of
            Inl e \<Rightarrow> (db, Inl (Transition e))
          | Inr g' \<Rightarrow> (db_save H g' db, Inr g')))"

text \<open>
  \<open>hand\<close>: a \<^verbatim>\<open>--receipt\<close> was given; \<open>state\<close>: a state file was given, with the record it holds for the gap. Both are refused.
\<close>

definition cmd_verify_recovery :: "hashes \<Rightarrow> (string \<times> gap_record) list \<Rightarrow> bool \<Rightarrow> gap_record option option \<Rightarrow> string \<Rightarrow> string
    \<Rightarrow> gap_db \<Rightarrow> gap_db \<times> (store_error + gap_record)" where
  "cmd_verify_recovery H seeds hand state i rid db =
     (case (case state of None \<Rightarrow> db_get H seeds db i | Some r \<Rightarrow> Inr r) of
        Inl e \<Rightarrow> (db, Inl e)
      | Inr None \<Rightarrow> (db, Inl GAP_NOT_FOUND)
      | Inr (Some g) \<Rightarrow>
          if hand then (db, Inl (incomplete ''hand-authored recovery receipt JSON is not trusted''))
          else if rid = '''' \<or> state \<noteq> None then (db, Inl (incomplete ''stored receipt id is required''))
          else (case db_get_verified H db rid of
            Inl e \<Rightarrow> (db, Inl (Py e))
          | Inr found \<Rightarrow> (case mark_recovered_from_store g rid (\<lambda>_. found) of
                Inl e \<Rightarrow> (db, Inl (Transition e))
              | Inr g' \<Rightarrow> (db_save H g' db, Inr g'))))"

subsection \<open>The contract of a repository\<close>

definition same_gap :: "gap_record \<Rightarrow> gap_record \<Rightarrow> bool" where
  "same_gap a b \<longleftrightarrow> g_id a = g_id b \<and> started_at a = started_at b \<and> ended_at a = ended_at b
     \<and> g_state a = g_state b \<and> required_scope a = required_scope b
     \<and> backfill_receipt_id a = backfill_receipt_id b \<and> recovered_at a = recovered_at b"

text \<open>\<open>okay r s\<close>: the record can be stored in \<open>s\<close> without loss.\<close>

locale gap_repository =
  fixes get :: "'s \<Rightarrow> string \<Rightarrow> gap_record option" and save :: "gap_record \<Rightarrow> 's \<Rightarrow> 's"
    and okay :: "gap_record \<Rightarrow> 's \<Rightarrow> bool"
  assumes get_save: "okay r s \<Longrightarrow> \<exists>r'. get (save r s) (g_id r) = Some r' \<and> same_gap r' r"
    and get_other: "i \<noteq> g_id r \<Longrightarrow> get (save r s) i = get s i"
begin

lemma saves_elsewhere:
  "\<forall>r \<in> set rs. g_id r \<noteq> i \<Longrightarrow> get (fold save rs s) i = get s i"
  by (induction rs arbitrary: s) (auto simp: get_other)

lemma recovered_stays:
  assumes "okay r s" "g_state r = RECOVERED" "\<forall>q \<in> set rs. g_id q \<noteq> g_id r"
  shows "\<exists>r'. get (fold save rs (save r s)) (g_id r) = Some r' \<and> g_state r' = RECOVERED
    \<and> backfill_receipt_id r' = backfill_receipt_id r"
  using get_save [OF assms(1)] saves_elsewhere [OF assms(3)] assms(2) by (auto simp: same_gap_def)

end

interpretation memory_repo: gap_repository mem_get mem_save "\<lambda>_ _. True"
  by unfold_locales (auto simp: mem_get_def mem_save_def update_conv' same_gap_def)

interpretation file_repo: gap_repository "\<lambda>f. mem_get (f_mem f)" file_save "\<lambda>_ _. True"
  by unfold_locales (auto simp: mem_get_def mem_save_def file_save_def Let_def update_conv' same_gap_def)

definition upper_scope :: "gap_scope \<Rightarrow> bool" where
  "upper_scope s \<longleftrightarrow> scope_from_dict s = s"

definition storable :: "gap_record \<Rightarrow> gap_db \<Rightarrow> bool" where
  "storable r db \<longleftrightarrow> upper_scope (required_scope r)
     \<and> (\<forall>row \<in> set (data_gaps db). row_id row = g_id r \<longrightarrow> row_started row = started_at r)"

definition db_lookup :: "hashes \<Rightarrow> (string \<times> gap_record) list \<Rightarrow> gap_db \<Rightarrow> string \<Rightarrow> gap_record option" where
  "db_lookup H seeds db i = (case db_get H seeds db i of Inl _ \<Rightarrow> None | Inr x \<Rightarrow> x)"

lemma find_map_id:
  "(\<And>x. key (f x) = key x) \<Longrightarrow> find (\<lambda>x. key x = i) (map f xs) = map_option f (find (\<lambda>x. key x = i) xs)"
  by (induction xs) auto

lemma db_save_rows:
  "find (\<lambda>row. row_id row = i) (data_gaps (db_save H r db)) =
     (if i = g_id r
      then (case find (\<lambda>row. row_id row = i) (data_gaps db) of
              None \<Rightarrow> Some (record_row H r)
            | Some row \<Rightarrow> Some ((record_row H r)\<lparr>row_started := row_started row\<rparr>))
      else find (\<lambda>row. row_id row = i) (data_gaps db))"
proof (cases "g_id r \<in> row_id ` set (data_gaps db)")
  case True
  let ?f = "\<lambda>row. if row_id row = g_id r then (record_row H r)\<lparr>row_started := row_started row\<rparr> else row"
  have "find (\<lambda>row. row_id row = i) (map ?f (data_gaps db)) = map_option ?f (find (\<lambda>row. row_id row = i) (data_gaps db))"
    by (rule find_map_id) (simp add: record_row_def)
  moreover have "find (\<lambda>row. row_id row = g_id r) (data_gaps db) \<noteq> None"
    using True by (auto simp: find_map_None)
  ultimately show ?thesis using True
    by (cases "find (\<lambda>row. row_id row = i) (data_gaps db)") (auto simp: db_save_def dest: find_SomeD)
next
  case False
  then have "find (\<lambda>row. row_id row = g_id r) (data_gaps db) = None" by (force simp: find_map_None)
  moreover have "find P (xs @ [x]) = (case find P xs of None \<Rightarrow> if P x then Some x else None | Some y \<Rightarrow> Some y)"
    for P :: "gap_row \<Rightarrow> bool" and xs x by (induction xs) auto
  ultimately show ?thesis using False
    by (auto simp: db_save_def record_row_def split: option.split)
qed

lemma db_save_receipts [simp]:
  "receipts (db_save H r db) = receipts db" "migrations (db_save H r db) = migrations db"
  "coverages (db_save H r db) = coverages db" "pg_digest (db_save H r db) = pg_digest db"
  by (simp_all add: db_save_def)

lemma from_row_save [simp]: "from_row H' seeds (db_save H r db) = from_row H' seeds db"
proof -
  have "reconciliation_of (db_save H r db) k = reconciliation_of db k" for k
    by (cases k) (simp_all add: reconciliation_of_def)
  then show ?thesis by (simp add: fun_eq_iff from_row_def Let_def)
qed

interpretation storage_repo: gap_repository "db_lookup H seeds" "db_save H" storable for H seeds
proof
  fix r :: gap_record and db :: gap_db
  assume ok: "storable r db"
  then have up: "scope_from_dict (required_scope r) = required_scope r" by (simp add: storable_def upper_scope_def)
  show "\<exists>r'. db_lookup H seeds (db_save H r db) (g_id r) = Some r' \<and> same_gap r' r"
  proof (cases "find (\<lambda>row. row_id row = g_id r) (data_gaps db)")
    case None
    then show ?thesis using up
      by (simp add: db_lookup_def db_get_def db_save_rows from_row_def record_row_def scope_from_stored_def same_gap_def Let_def)
  next
    case (Some row)
    with ok find_SomeD [OF Some] have "row_started row = started_at r" by (simp add: storable_def)
    with Some show ?thesis using up
      by (simp add: db_lookup_def db_get_def db_save_rows from_row_def record_row_def scope_from_stored_def same_gap_def Let_def)
  qed
next
  fix i :: string and r :: gap_record and db :: gap_db
  assume "i \<noteq> g_id r"
  then show "db_lookup H seeds (db_save H r db) i = db_lookup H seeds db i"
    by (simp add: db_lookup_def db_get_def db_save_rows split: option.split)
qed

subsection \<open>A recovery through the command line\<close>

text \<open>The three authorities behind a receipt, as the database holds them.\<close>

definition backed :: "hashes \<Rightarrow> gap_db \<Rightarrow> gap_record \<Rightarrow> backfill_receipt \<Rightarrow> bool" where
  "backed H db g r \<longleftrightarrow>
     (\<exists>row \<in> set (receipts db). rr_id row = r_id r \<and> rr_verified row \<and> rr_hash row = receipt_payload H r)
     \<and> (\<exists>m \<in> set (migrations db). run_id m = actual_reconciliation_id r \<and> completed m
         \<and> (\<exists>c \<in> set (coverages db). cov_id c = authoritative_coverage_id r \<and> cov_verified c
              \<and> cov_fingerprint c = mig_fingerprint m \<and> cov_start c \<le> covered_start r
              \<and> covered_end r \<le> cov_end c \<and> scope_from_dict (cov_scope c) = r_scope r
              \<and> cov_hash c = hash_coverage H (cov_id c, cov_start c, cov_end c, cov_scope_hash c,
                    cov_fingerprint c, cov_counts c, cov_producer c, cov_verified_at c))
         \<and> (case pg_digest db of None \<Rightarrow> True | Some dg \<Rightarrow> dg_fingerprint dg = mig_fingerprint m))"

lemma completed_migrationD:
  "completed_migration db i = Inr (fp, dg) \<Longrightarrow> \<exists>m \<in> set (migrations db). run_id m = i \<and> completed m
     \<and> mig_fingerprint m = fp \<and> (case pg_digest db of None \<Rightarrow> True | Some d \<Rightarrow> dg_fingerprint d = fp)"
  by (auto simp: completed_migration_def split: option.splits if_splits dest!: find_SomeD)

lemma trusted_coverageD:
  "trusted_coverage H db i = Inr c \<Longrightarrow> \<exists>c0 \<in> set (coverages db). cov_id c0 = i \<and> cov_verified c0
     \<and> c = c0\<lparr>cov_scope := scope_from_dict (cov_scope c0)\<rparr>
     \<and> cov_hash c0 = hash_coverage H (cov_id c0, cov_start c0, cov_end c0, cov_scope_hash c0,
          cov_fingerprint c0, cov_counts c0, cov_producer c0, cov_verified_at c0)"
  by (auto simp: trusted_coverage_def Let_def split: option.splits if_splits dest!: find_SomeD)

lemma validate_authoritiesD:
  assumes "validate_authorities H db g actual authority = None"
  obtains m c where "m \<in> set (migrations db)" "run_id m = actual" "completed m"
    "case pg_digest db of None \<Rightarrow> True | Some d \<Rightarrow> dg_fingerprint d = mig_fingerprint m"
    "c \<in> set (coverages db)" "cov_id c = authority" "cov_verified c" "cov_fingerprint c = mig_fingerprint m"
    "cov_start c \<le> started_at g" "\<exists>e. ended_at g = Some e \<and> e \<le> cov_end c"
    "scope_from_dict (cov_scope c) = required_scope g"
    "cov_hash c = hash_coverage H (cov_id c, cov_start c, cov_end c, cov_scope_hash c,
          cov_fingerprint c, cov_counts c, cov_producer c, cov_verified_at c)"
proof -
  from assms obtain fp dg c0 where
    a: "completed_migration db actual = Inr (fp, dg)" "trusted_coverage H db authority = Inr c0"
      "fp = cov_fingerprint c0" "cov_start c0 \<le> started_at g" "\<exists>e. ended_at g = Some e \<and> e \<le> cov_end c0"
      "cov_scope c0 = required_scope g"
    by (auto simp: validate_authorities_def split: sum.splits option.splits if_splits)
  from completed_migrationD [OF a(1)] obtain m where m: "m \<in> set (migrations db)" "run_id m = actual" "completed m"
    "mig_fingerprint m = fp" "case pg_digest db of None \<Rightarrow> True | Some d \<Rightarrow> dg_fingerprint d = fp" by blast
  from trusted_coverageD [OF a(2)] obtain c where c: "c \<in> set (coverages db)" "cov_id c = authority" "cov_verified c"
    "c0 = c\<lparr>cov_scope := scope_from_dict (cov_scope c)\<rparr>"
    "cov_hash c = hash_coverage H (cov_id c, cov_start c, cov_end c, cov_scope_hash c,
          cov_fingerprint c, cov_counts c, cov_producer c, cov_verified_at c)" by blast
  show thesis by (rule that [of m c]) (use m c a(3-6) in \<open>auto split: option.splits\<close>)
qed

lemma db_get_verifiedD:
  assumes "db_get_verified H db i = Inr (Some r)"
  shows "r_id r = i \<and> evidence_type r = ''stored_reconciliation'' \<and> (\<exists>g. backed H db g r)"
proof -
  from assms obtain row where row: "row \<in> set (receipts db)" "rr_id row = i" "rr_verified row"
    "trusted_receipt_from_row H db row = Inr r"
    by (auto simp: db_get_verified_def split: option.splits sum.splits store_error.splits dest!: find_SomeD)
  then obtain g where g: "receipt_from_row H row = Some r" "gap_for_validation db (rr_gap row) = Inr g"
    "validate_authorities H db g (actual_reconciliation_id r) (authoritative_coverage_id r) = None"
    "covered_start r = started_at g" "Some (covered_end r) = ended_at g" "r_scope r = required_scope g"
    by (auto simp: trusted_receipt_from_row_def split: option.splits sum.splits if_splits)
  from g(1) have r: "r_id r = i" "rr_hash row = receipt_payload H r" "evidence_type r = ''stored_reconciliation''"
    using row(2) by (auto simp: receipt_from_row_def Let_def split: if_splits)
  from g(3) obtain m c where mc: "m \<in> set (migrations db)" "run_id m = actual_reconciliation_id r" "completed m"
    "case pg_digest db of None \<Rightarrow> True | Some d \<Rightarrow> dg_fingerprint d = mig_fingerprint m"
    "c \<in> set (coverages db)" "cov_id c = authoritative_coverage_id r" "cov_verified c" "cov_fingerprint c = mig_fingerprint m"
    "cov_start c \<le> started_at g" "\<exists>e. ended_at g = Some e \<and> e \<le> cov_end c"
    "scope_from_dict (cov_scope c) = required_scope g"
    "cov_hash c = hash_coverage H (cov_id c, cov_start c, cov_end c, cov_scope_hash c,
          cov_fingerprint c, cov_counts c, cov_producer c, cov_verified_at c)"
    by (rule validate_authoritiesD)
  have "cov_start c \<le> covered_start r" "covered_end r \<le> cov_end c" "scope_from_dict (cov_scope c) = r_scope r"
    using mc(9-11) g(4-6) by (auto dest: sym)
  note cov = this
  have "\<exists>x \<in> set (receipts db). rr_id x = r_id r \<and> rr_verified x \<and> rr_hash x = receipt_payload H r"
    using row(1-3) r by (intro bexI [of _ row]) simp_all
  moreover have "\<exists>c \<in> set (coverages db). cov_id c = authoritative_coverage_id r \<and> cov_verified c
              \<and> cov_fingerprint c = mig_fingerprint m \<and> cov_start c \<le> covered_start r
              \<and> covered_end r \<le> cov_end c \<and> scope_from_dict (cov_scope c) = r_scope r
              \<and> cov_hash c = hash_coverage H (cov_id c, cov_start c, cov_end c, cov_scope_hash c,
                    cov_fingerprint c, cov_counts c, cov_producer c, cov_verified_at c)"
    using mc(5-8,12) cov by (intro bexI [of _ c]) simp_all
  ultimately have "backed H db g r"
    using mc(1-4) unfolding backed_def by (intro conjI bexI [of _ m]) auto
  with r show ?thesis by blast
qed

text \<open>
  C32: a recovery through the command line rests on stored evidence only. When the command answers
  with a recovered gap, the database holds a verified receipt row whose hash matches, a completed
  migration run and a verified, hash-checked coverage bound to that run's fingerprint which spans the
  gap's whole interval with exactly its scope (and, on PostgreSQL, the live tables still have that
  fingerprint), nothing is missing, and the repository afterwards answers with the recovered gap.
\<close>

theorem cli_recovery_backed:
  assumes "cmd_verify_recovery H seeds hand state i rid db = (db', Inr g')"
  shows "\<exists>r. r_id r = rid \<and> evidences r g' \<and> (\<exists>g. backed H db g r) \<and> g_state g' = RECOVERED
    \<and> backfill_receipt_id g' = Some rid \<and> db' = db_save H g' db
    \<and> (storable g' db \<longrightarrow> (\<exists>g''. db_lookup H seeds db' (g_id g') = Some g'' \<and> same_gap g'' g'))"
proof -
  from assms obtain g r where gr: "db_get_verified H db rid = Inr (Some r)" "mark_recovered g r = Inr g'" "db' = db_save H g' db"
    by (auto simp: cmd_verify_recovery_def mark_recovered_from_store_def split: sum.splits option.splits if_splits)
  from db_get_verifiedD [OF gr(1)] mark_recovered_result [OF gr(2)] gr(3) storage_repo.get_save [of g' db H seeds]
  show ?thesis by (intro exI [of _ r]) auto
qed

definition sample_hashes :: hashes where
  "sample_hashes = \<lparr>hash_scope = (\<lambda>_. ''s''), hash_coverage = (\<lambda>_. ''c''), hash_receipt = (\<lambda>_. ''r'')\<rparr>"

definition sample_db :: gap_db where
  "sample_db = record_trusted_coverage sample_hashes ''cov'' 0 100 (required_scope sample_gap) ''fp'' [(''trades'', 3)] ''p'' 60
     \<lparr>data_gaps = [record_row sample_hashes (sample_gap\<lparr>ended_at := Some 50, g_state := ENDED_UNRECOVERED\<rparr>)],
      coverages = [], receipts = [], migrations = [\<lparr>run_id = ''run'', mig_fingerprint = ''fp'', completed = True\<rparr>],
      pg_digest = Some \<lparr>dg_fingerprint = ''fp'', dg_rows = [(''trades'', 3)]\<rparr>\<rparr>"

lemma sample_scope: "scope_from_dict (required_scope sample_gap) = required_scope sample_gap"
  by (simp add: sample_gap_def known_incident_def scope_from_dict_def upper_char_def)

theorem cli_recovery_backed_witness:
  "\<exists>g'. snd (cmd_verify_recovery sample_hashes [] False None (g_id sample_gap) ''rec''
      (fst (record_trusted_receipt sample_hashes (g_id sample_gap) ''rec'' ''run'' ''cov'' 70 sample_db))) = Inr g'
    \<and> g_state g' = RECOVERED"
proof -
  let ?db = "fst (record_trusted_receipt sample_hashes (g_id sample_gap) ''rec'' ''run'' ''cov'' 70 sample_db)"
  have "\<exists>g'. snd (cmd_verify_recovery sample_hashes [] False None (g_id sample_gap) ''rec'' ?db) = Inr g'"
    using sample_scope
    by (simp add: sample_db_def record_trusted_coverage_def record_trusted_receipt_def db_get_def from_row_def
        record_row_def scope_from_stored_def sample_hashes_def Let_def validate_authorities_def
        completed_migration_def trusted_coverage_def sample_gap_def known_incident_def
        cmd_verify_recovery_def db_get_verified_def trusted_receipt_from_row_def receipt_from_row_def
        receipt_payload_def gap_for_validation_def mark_recovered_from_store_def mark_recovered_def
        scope_resolved_def UNKNOWN_HISTORICAL_SYMBOL_SCOPE_def)
  then obtain g' where g': "snd (cmd_verify_recovery sample_hashes [] False None (g_id sample_gap) ''rec'' ?db) = Inr g'" ..
  then have "cmd_verify_recovery sample_hashes [] False None (g_id sample_gap) ''rec'' ?db =
      (fst (cmd_verify_recovery sample_hashes [] False None (g_id sample_gap) ''rec'' ?db), Inr g')" by (metis prod.collapse)
  from cli_recovery_backed [OF this] g' show ?thesis by blast
qed

end
