(* ===== verification/Models.thy ===== *)
theory Models
  imports Prelude "HOL-Library.List_Lexorder"
begin

section \<open>Normalised market data and its fixed-width encoding\<close>

text \<open>
  Models \<^verbatim>\<open>src/mdfeed/models.py\<close>: fixed-width UTF-8 fields with truncation at a character boundary,
  the \<^verbatim>\<open>struct\<close> layouts of trades, top-of-book quotes and signals, and the bar aggregation. A text is
  its list of code points. A double is the rational it denotes; its IEEE bit pattern is the parameter
  \<open>doubles\<close> (the codec of \<^verbatim>\<open>struct\<close> code \<^verbatim>\<open>d\<close>), and bar arithmetic is exact.
\<close>

type_synonym text_u = "nat list"

subsection \<open>UTF-8\<close>

definition scalar :: "nat \<Rightarrow> bool" where
  "scalar c \<longleftrightarrow> c < 0xD800 \<or> 0xE000 \<le> c \<and> c < 0x110000"

definition utf8_char :: "nat \<Rightarrow> nat list" where
  "utf8_char c =
     (if c < 0x80 then [c]
      else if c < 0x800 then [0xC0 + c div 64, 0x80 + c mod 64]
      else if c < 0x10000 then [0xE0 + c div 4096, 0x80 + c div 64 mod 64, 0x80 + c mod 64]
      else [0xF0 + c div 262144, 0x80 + c div 4096 mod 64, 0x80 + c div 64 mod 64, 0x80 + c mod 64])"

definition utf8 :: "text_u \<Rightarrow> nat list" where
  "utf8 s = concat (map utf8_char s)"

definition is_cont :: "nat \<Rightarrow> bool" where
  "is_cont b \<longleftrightarrow> 0x80 \<le> b \<and> b < 0xC0"

text \<open>The range of the second byte after a lead byte, and how many continuation bytes it needs.\<close>

definition lead_needs :: "nat \<Rightarrow> nat" where
  "lead_needs b = (if 0xC2 \<le> b \<and> b < 0xE0 then 1 else if 0xE0 \<le> b \<and> b < 0xF0 then 2
     else if 0xF0 \<le> b \<and> b < 0xF5 then 3 else 0)"

definition second_ok :: "nat \<Rightarrow> nat \<Rightarrow> bool" where
  "second_ok l b \<longleftrightarrow> is_cont b \<and> (l = 0xE0 \<longrightarrow> 0xA0 \<le> b) \<and> (l = 0xED \<longrightarrow> b < 0xA0)
     \<and> (l = 0xF0 \<longrightarrow> 0x90 \<le> b) \<and> (l = 0xF4 \<longrightarrow> b < 0x90)"

definition conts :: "nat \<Rightarrow> nat list \<Rightarrow> nat list" where
  "conts l bs = (case bs of [] \<Rightarrow> []
     | b # rest \<Rightarrow> if second_ok l b then b # takeWhile is_cont (take (lead_needs l - 1) rest) else [])"

definition join_char :: "nat \<Rightarrow> nat list \<Rightarrow> nat" where
  "join_char l cs = foldl (\<lambda>a b. a * 64 + (b - 0x80))
     (if lead_needs l = 1 then l - 0xC0 else if lead_needs l = 2 then l - 0xE0 else l - 0xF0) cs"

text \<open>\<^verbatim>\<open>bytes.decode("utf-8", "ignore")\<close>: an ill-formed subsequence is skipped.\<close>

function utf8_decode :: "nat list \<Rightarrow> text_u" where
  "utf8_decode [] = []"
| "utf8_decode (b # bs) =
     (if b < 0x80 then b # utf8_decode bs
      else if lead_needs b = 0 then utf8_decode bs
      else let cs = conts b bs in
        if length cs = lead_needs b then join_char b cs # utf8_decode (drop (length cs) bs)
        else utf8_decode (drop (length cs) bs))"
  by pat_completeness auto
termination by (relation "measure length") auto

lemma base64_digits:
  fixes c :: nat
  shows "4096 * (c div 4096) + c div 64 mod 64 * 64 + c mod 64 = c"
    and "262144 * (c div 262144) + 4096 * (c div 4096 mod 64) + c div 64 mod 64 * 64 + c mod 64 = c"
proof -
  have a: "c = 64 * (c div 64) + c mod 64" and b: "c div 64 = 64 * (c div 4096) + c div 64 mod 64"
    and d: "c div 4096 = 64 * (c div 262144) + c div 4096 mod 64"
    using mult_div_mod_eq [of 64 c] mult_div_mod_eq [of 64 "c div 64"] mult_div_mod_eq [of 64 "c div 4096"]
    by (simp_all add: div_mult2_eq [symmetric])
  show "4096 * (c div 4096) + c div 64 mod 64 * 64 + c mod 64 = c" using a b by linarith
  show "262144 * (c div 262144) + 4096 * (c div 4096 mod 64) + c div 64 mod 64 * 64 + c mod 64 = c"
    using a b d by linarith
qed

lemma utf8_decode_char:
  assumes "scalar c"
  shows "utf8_decode (utf8_char c @ bs) = c # utf8_decode bs"
proof -
  consider "c < 0x80" | "0x80 \<le> c" "c < 0x800" | "0x800 \<le> c" "c < 0x10000" | "0x10000 \<le> c" "c < 0x110000"
    using assms unfolding scalar_def by linarith
  then show ?thesis
  proof cases
    case 1
    then show ?thesis by (simp add: utf8_char_def)
  next
    case 2
    let ?l = "0xC0 + c div 64" and ?a = "0x80 + c mod 64"
    have l: "2 \<le> c div 64" "c div 64 < 32" using 2 by auto
    then have n: "lead_needs ?l = 1" by (simp add: lead_needs_def)
    have m: "c mod 64 < 64" by simp
    have "conts ?l (?a # bs) = [?a]" using l m n by (simp add: conts_def second_ok_def is_cont_def)
    moreover have "join_char ?l [?a] = c" using n by (simp add: join_char_def)
    ultimately show ?thesis using 2 n by (simp add: utf8_char_def)
  next
    case 3
    let ?l = "0xE0 + c div 4096" and ?a = "0x80 + c div 64 mod 64" and ?b = "0x80 + c mod 64"
    have l: "c div 4096 < 16" using 3 by auto
    then have n: "lead_needs ?l = 2" by (simp add: lead_needs_def)
    have m: "c mod 64 < 64" "c div 64 mod 64 < 64" by simp_all
    have "c div 4096 = 0 \<Longrightarrow> 32 \<le> c div 64 mod 64" using 3 by auto
    moreover have "c div 64 mod 64 < 32" if "c div 4096 = 13"
    proof -
      from that have "832 \<le> c div 64" by linarith
      moreover have "c < 55296" using assms 3 that by (auto simp: scalar_def)
      then have "c div 64 < 864" by linarith
      ultimately obtain r where "c div 64 = 832 + r" "r < 32" using that [of "c div 64 - 832"] by auto
      then show ?thesis using mod_mult_self2 [of r 64 13] by (simp add: add.commute)
    qed
    ultimately have "conts ?l (?a # ?b # bs) = [?a, ?b]"
      using l m n by (auto simp: conts_def second_ok_def is_cont_def)
    moreover have "join_char ?l [?a, ?b] = c" using n base64_digits(1) [of c] by (simp add: join_char_def algebra_simps)
    ultimately show ?thesis using 3 n by (simp add: utf8_char_def)
  next
    case 4
    let ?l = "0xF0 + c div 262144" and ?x = "0x80 + c div 4096 mod 64" and ?a = "0x80 + c div 64 mod 64"
      and ?b = "0x80 + c mod 64"
    have l: "c div 262144 \<le> 4" using 4 by auto
    then have n: "lead_needs ?l = 3" by (simp add: lead_needs_def)
    have m: "c mod 64 < 64" "c div 64 mod 64 < 64" "c div 4096 mod 64 < 64" by simp_all
    have "c div 262144 = 0 \<Longrightarrow> 16 \<le> c div 4096 mod 64" using 4 by auto
    moreover have "c div 4096 mod 64 < 16" if "c div 262144 = 4"
    proof -
      have "c div 4096 = 64 * (c div 262144) + c div 4096 mod 64"
        using mult_div_mod_eq [of 64 "c div 4096"] by (simp add: div_mult2_eq [symmetric])
      moreover have "c div 4096 < 272" using 4 by linarith
      ultimately show ?thesis using that by linarith
    qed
    ultimately have "conts ?l (?x # ?a # ?b # bs) = [?x, ?a, ?b]"
      using l m n by (auto simp: conts_def second_ok_def is_cont_def)
    moreover have "join_char ?l [?x, ?a, ?b] = c" using n base64_digits(2) [of c] by (simp add: join_char_def algebra_simps)
    ultimately show ?thesis using 4 n by (simp add: utf8_char_def)
  qed
qed

lemma utf8_decode_utf8: "\<forall>c \<in> set s. scalar c \<Longrightarrow> utf8_decode (utf8 s) = s"
  by (induction s) (simp_all add: utf8_def utf8_decode_char)

subsection \<open>Fixed-width fields\<close>

fun strip_conts :: "nat list \<Rightarrow> nat list" where
  "strip_conts rb = dropWhile is_cont rb"

text \<open>The cut of an over-long field, on the reversed bytes: continuation bytes, then one lead byte.\<close>

definition cut_back :: "nat list \<Rightarrow> nat list" where
  "cut_back b = (let r = strip_conts (rev b) in
     rev (case r of [] \<Rightarrow> [] | x # xs \<Rightarrow> if x \<ge> 0xC0 then xs else r))"

definition fix_bytes :: "text_u \<Rightarrow> nat \<Rightarrow> nat list" where
  "fix_bytes s n = (let b = utf8 s; c = (if length b > n then cut_back (take n b) else b)
     in c @ replicate (n - length c) 0)"

definition rstrip0 :: "nat list \<Rightarrow> nat list" where
  "rstrip0 b = rev (dropWhile (\<lambda>x. x = 0) (rev b))"

definition unfix :: "nat list \<Rightarrow> text_u" where
  "unfix b = utf8_decode (rstrip0 b)"

text \<open>The truncation records: how often each text was cut, and which texts became which bytes.\<close>

record truncations =
  truncated :: "(text_u \<times> int) list"
  trunc_map :: "(nat list \<times> text_u) list"

definition note_truncation :: "text_u \<Rightarrow> nat \<Rightarrow> truncations \<Rightarrow> truncations" where
  "note_truncation s n t =
     (if length (utf8 s) > n
      then \<lparr>truncated = AList.update s (dict_get (truncated t) s + 1) (truncated t),
            trunc_map = List.insert (cut_back (take n (utf8 s)), s) (trunc_map t)\<rparr>
      else t)"

definition symbol_collisions :: "truncations \<Rightarrow> (text_u \<times> text_u list) list" where
  "symbol_collisions t =
     fold (\<lambda>w. AList.update (unfix w) (sort (map snd (filter (\<lambda>(v, _). v = w) (trunc_map t)))))
       (filter (\<lambda>w. length (filter (\<lambda>(v, _). v = w) (trunc_map t)) > 1) (remdups (map fst (trunc_map t)))) []"

lemma utf8_Nil [simp]: "utf8 [] = []" and utf8_Cons [simp]: "utf8 (c # s) = utf8_char c @ utf8 s"
  and utf8_append [simp]: "utf8 (s @ t) = utf8 s @ utf8 t"
  by (simp_all add: utf8_def)

lemma utf8_char_shape:
  assumes "scalar c"
  obtains (ascii) "c < 0x80" "utf8_char c = [c]"
  | (multi) l cs where "utf8_char c = l # cs" "0xC0 \<le> l" "cs \<noteq> []" "\<forall>b \<in> set cs. is_cont b"
proof -
  have m: "x mod 64 < 64" for x :: nat by simp
  show thesis
  proof (cases "c < 0x80")
    case True
    then show thesis by (intro ascii) (simp_all add: utf8_char_def)
  next
    case False
    then show thesis using m
      by (intro multi [of "hd (utf8_char c)" "tl (utf8_char c)"]) (auto simp: utf8_char_def is_cont_def)
  qed
qed

lemma cut_back_conts: "\<forall>b \<in> set cs. is_cont b \<Longrightarrow> 0xC0 \<le> l \<Longrightarrow> cut_back (p @ l # cs) = p"
  using dropWhile_append2 [of "rev cs" is_cont "l # rev p"] by (simp add: cut_back_def is_cont_def)

text \<open>The bytes of a text cut anywhere are the bytes of a prefix and part of one character.\<close>

lemma take_utf8:
  "\<exists>j k. j \<le> length s \<and> take n (utf8 s) = utf8 (take j s) @ take k (utf8 (take 1 (drop j s)))
     \<and> k < length (utf8 (take 1 (drop j s))) + (if j = length s then 1 else 0)"
proof (induction s arbitrary: n)
  case Nil
  then show ?case by simp
next
  case (Cons c s)
  show ?case
  proof (cases "n < length (utf8_char c)")
    case True
    then show ?thesis by (intro exI [of _ 0] exI [of _ n]) simp
  next
    case False
    from Cons [of "n - length (utf8_char c)"] obtain j k where
      "j \<le> length s" "take (n - length (utf8_char c)) (utf8 s) = utf8 (take j s) @ take k (utf8 (take 1 (drop j s)))"
      "k < length (utf8 (take 1 (drop j s))) + (if j = length s then 1 else 0)" by blast
    with False show ?thesis by (intro exI [of _ "Suc j"] exI [of _ k]) simp
  qed
qed

lemma cut_back_whole:
  assumes "\<forall>c \<in> set s. scalar c"
  shows "\<exists>i \<le> length s. cut_back (utf8 s) = utf8 (take i s)"
proof (cases s rule: rev_cases)
  case Nil
  then show ?thesis by (simp add: cut_back_def)
next
  case (snoc t c)
  from assms snoc have "scalar c" by simp
  then show ?thesis
  proof (cases rule: utf8_char_shape)
    case ascii
    then have "cut_back (utf8 s) = utf8 s" by (simp add: snoc cut_back_def is_cont_def)
    then show ?thesis by (intro exI [of _ "length s"]) simp
  next
    case (multi l cs)
    then have "cut_back (utf8 s) = utf8 t" using cut_back_conts [of cs l "utf8 t"] by (simp add: snoc)
    then show ?thesis using snoc by (intro exI [of _ "length t"]) simp
  qed
qed

lemma cut_back_prefix:
  assumes "\<forall>c \<in> set s. scalar c"
  shows "\<exists>i \<le> length s. cut_back (take n (utf8 s)) = utf8 (take i s)"
proof -
  obtain j k where jk: "j \<le> length s" "take n (utf8 s) = utf8 (take j s) @ take k (utf8 (take 1 (drop j s)))"
    "k < length (utf8 (take 1 (drop j s))) + (if j = length s then 1 else 0)" using take_utf8 by blast
  show ?thesis
  proof (cases "j = length s \<or> k = 0")
    case True
    then have "take n (utf8 s) = utf8 (take j s)" using jk by auto
    moreover have "\<exists>i \<le> length (take j s). cut_back (utf8 (take j s)) = utf8 (take i (take j s))"
      using assms by (intro cut_back_whole) (auto dest: in_set_takeD)
    ultimately obtain i where i: "i \<le> j" "cut_back (take n (utf8 s)) = utf8 (take i (take j s))"
      using jk(1) by auto
    then have "take i (take j s) = take i s" by (simp add: min_def)
    with i jk(1) show ?thesis by (intro exI [of _ i]) simp
  next
    case False
    with jk have j: "j < length s" by simp
    then have d: "take 1 (drop j s) = [s ! j]" by (simp add: take_Suc hd_drop_conv_nth)
    have "scalar (s ! j)" using assms j by simp
    then show ?thesis
    proof (cases rule: utf8_char_shape)
      case ascii
      with False jk j d show ?thesis by simp
    next
      case (multi l cs)
      from False have "take k (utf8 (take 1 (drop j s))) = l # take (k - 1) cs"
        using multi(1) d by (cases k) simp_all
      moreover have "\<forall>b \<in> set (take (k - 1) cs). is_cont b" using multi(4) by (auto dest: in_set_takeD)
      ultimately have "cut_back (take n (utf8 s)) = utf8 (take j s)"
        using cut_back_conts [OF _ multi(2), of "take (k - 1) cs" "utf8 (take j s)"] jk(2) by simp
      with jk(1) show ?thesis by blast
    qed
  qed
qed

lemma rstrip0_pad: "0 \<notin> set b \<Longrightarrow> rstrip0 (b @ replicate k 0) = b"
proof -
  assume "0 \<notin> set b"
  then have "dropWhile (\<lambda>x. x = 0) (rev b) = rev b"
    by (cases "rev b") (auto simp: dropWhile_eq_self_iff simp flip: set_rev [of b])
  moreover have "dropWhile (\<lambda>x. x = 0) (replicate k 0 @ rev b) = dropWhile (\<lambda>x. x = 0) (rev b)"
    by (induction k) simp_all
  ultimately show ?thesis by (simp add: rstrip0_def)
qed

lemma utf8_no_zero: "0 \<notin> set s \<Longrightarrow> 0 \<notin> set (utf8 s)"
  by (induction s) (auto simp: utf8_char_def)

lemma cut_back_length: "length (cut_back b) \<le> length b"
proof -
  have "length (dropWhile is_cont (rev b)) \<le> length b" using length_dropWhile_le [of is_cont "rev b"] by simp
  then show ?thesis by (auto simp: cut_back_def Let_def split: list.split)
qed

lemma length_fix_bytes [simp]: "length (fix_bytes s n) = n"
  using cut_back_length [of "take n (utf8 s)"] by (auto simp: fix_bytes_def Let_def)

text \<open>
  A fixed-width field never holds a broken character. Encoding any text without NUL into \<open>n\<close>
  bytes takes exactly \<open>n\<close> bytes and decoding them gives a prefix of the text, the whole text if its
  UTF-8 form fits.
\<close>

theorem fix_unfix_prefix:
  assumes "\<forall>c \<in> set s. scalar c" "0 \<notin> set s"
  shows "length (fix_bytes s n) = n \<and> (\<exists>i \<le> length s. unfix (fix_bytes s n) = take i s)
    \<and> (length (utf8 s) \<le> n \<longrightarrow> unfix (fix_bytes s n) = s)"
proof -
  have whole: "unfix (utf8 t @ replicate k 0) = t" if "\<forall>c \<in> set t. scalar c" "0 \<notin> set t" for t k
    using that utf8_decode_utf8 [of t] rstrip0_pad [OF utf8_no_zero] by (simp add: unfix_def)
  show ?thesis
  proof (cases "length (utf8 s) \<le> n")
    case True
    with whole [OF assms, of "n - length (utf8 s)"] show ?thesis
      by (auto simp: fix_bytes_def Let_def intro!: exI [of _ "length s"])
  next
    case False
    from cut_back_prefix [OF assms(1), of n] obtain i where i: "i \<le> length s" "cut_back (take n (utf8 s)) = utf8 (take i s)"
      by blast
    have "unfix (fix_bytes s n) = take i s"
      using whole [of "take i s" "n - length (utf8 (take i s))"] assms False i(2)
      by (auto simp: fix_bytes_def Let_def dest: in_set_takeD)
    with i(1) False show ?thesis by auto
  qed
qed

text \<open>A cut that falls between two characters still drops the last whole multi-byte character.\<close>

lemma truncation_drops_whole_character:
  "fix_bytes [97, 0xAC00, 0xAC01, 98] 7 = utf8 [97, 0xAC00] @ replicate 3 0
   \<and> length (utf8 [97, 0xAC00, 0xAC01]) = 7"
proof -
  have u: "utf8 [97, 0xAC00, 0xAC01, 98] = [97, 0xEA, 0xB0, 0x80, 0xEA, 0xB0, 0x81, 98]"
    "utf8 [97, 0xAC00] = [97, 0xEA, 0xB0, 0x80]" "utf8 [97, 0xAC00, 0xAC01] = [97, 0xEA, 0xB0, 0x80, 0xEA, 0xB0, 0x81]"
    by (simp_all add: utf8_char_def)
  have "cut_back [97, 0xEA, 0xB0, 0x80, 0xEA, 0xB0, 0x81] = [97, 0xEA, 0xB0, 0x80]"
    by (simp add: cut_back_def is_cont_def)
  then show ?thesis unfolding fix_bytes_def Let_def u by simp
qed

theorem fix_unfix_prefix_witness:
  "length (fix_bytes [66, 84, 67, 45, 75, 82, 87] 16) = 16 \<and> unfix (fix_bytes [66, 84, 67, 45, 75, 82, 87] 16) = [66, 84, 67, 45, 75, 82, 87]"
  using fix_unfix_prefix [of "[66, 84, 67, 45, 75, 82, 87]" 16]
  by (simp add: scalar_def utf8_char_def)

subsection \<open>Trades, quotes, signals\<close>

definition SIDE_UNKNOWN :: nat where "SIDE_UNKNOWN = 0"
definition SIDE_BUY :: nat where "SIDE_BUY = 1"
definition SIDE_SELL :: nat where "SIDE_SELL = 2"

record doubles =
  to_bits :: "rat \<Rightarrow> nat"
  of_bits :: "nat \<Rightarrow> rat"

definition raw :: "nat list \<Rightarrow> bytes" where "raw bs = map of_nat bs"

definition unraw :: "bytes \<Rightarrow> nat list" where "unraw bs = map unat bs"

record trade =
  t_venue :: text_u
  t_symbol :: text_u
  t_event_ns :: int
  t_recv_ns :: int
  t_price :: rat
  t_qty :: rat
  t_side :: int

record book_top =
  bk_venue :: text_u
  bk_symbol :: text_u
  bk_event_ns :: int
  bk_recv_ns :: int
  bid :: rat
  bid_qty :: rat
  ask :: rat
  ask_qty :: rat

record signal =
  s_venue :: text_u
  s_symbol :: text_u
  s_ts_ns :: int
  s_strategy :: text_u
  s_action :: int
  s_strength :: rat
  s_ref_price :: rat

definition u64_ok :: "int \<Rightarrow> bool" where "u64_ok v \<longleftrightarrow> 0 \<le> v \<and> v < 2 ^ 64"

definition put_double :: "doubles \<Rightarrow> rat \<Rightarrow> bytes" where "put_double D x = be_bytes 8 (to_bits D x)"

definition get_double :: "doubles \<Rightarrow> bytes \<Rightarrow> rat" where "get_double D b = of_bits D (be_val b)"

definition put_byte :: "int \<Rightarrow> bytes" where "put_byte v = be_bytes 1 (nat v)"

definition TRADE_SIZE :: nat where "TRADE_SIZE = 64"
definition BOOK_SIZE :: nat where "BOOK_SIZE = 72"
definition SIGNAL_SIZE :: nat where "SIGNAL_SIZE = 72"

definition pack_trade :: "doubles \<Rightarrow> trade \<Rightarrow> py_error + bytes" where
  "pack_trade D t =
     (if \<not> (u64_ok (t_event_ns t) \<and> u64_ok (t_recv_ns t) \<and> 0 \<le> t_side t \<and> t_side t < 256) then Inl StructError
      else Inr (raw (fix_bytes (t_symbol t) 16) @ raw (fix_bytes (t_venue t) 8)
        @ be_bytes 8 (nat (t_event_ns t)) @ be_bytes 8 (nat (t_recv_ns t))
        @ put_double D (t_price t) @ put_double D (t_qty t) @ put_byte (t_side t) @ replicate 7 0))"

definition unpack_trade :: "doubles \<Rightarrow> bytes \<Rightarrow> py_error + trade" where
  "unpack_trade D b =
     (if length b < TRADE_SIZE then Inl StructError
      else Inr \<lparr>t_venue = unfix (unraw (read_at 16 8 b)), t_symbol = unfix (unraw (read_at 0 16 b)),
        t_event_ns = int (be_val (read_at 24 8 b)), t_recv_ns = int (be_val (read_at 32 8 b)),
        t_price = get_double D (read_at 40 8 b), t_qty = get_double D (read_at 48 8 b),
        t_side = int (be_val (read_at 56 1 b))\<rparr>)"

definition pack_book :: "doubles \<Rightarrow> book_top \<Rightarrow> py_error + bytes" where
  "pack_book D k =
     (if \<not> (u64_ok (bk_event_ns k) \<and> u64_ok (bk_recv_ns k)) then Inl StructError
      else Inr (raw (fix_bytes (bk_symbol k) 16) @ raw (fix_bytes (bk_venue k) 8)
        @ be_bytes 8 (nat (bk_event_ns k)) @ be_bytes 8 (nat (bk_recv_ns k))
        @ put_double D (bid k) @ put_double D (bid_qty k) @ put_double D (ask k) @ put_double D (ask_qty k)))"

definition unpack_book :: "doubles \<Rightarrow> bytes \<Rightarrow> py_error + book_top" where
  "unpack_book D b =
     (if length b < BOOK_SIZE then Inl StructError
      else Inr \<lparr>bk_venue = unfix (unraw (read_at 16 8 b)), bk_symbol = unfix (unraw (read_at 0 16 b)),
        bk_event_ns = int (be_val (read_at 24 8 b)), bk_recv_ns = int (be_val (read_at 32 8 b)),
        bid = get_double D (read_at 40 8 b), bid_qty = get_double D (read_at 48 8 b),
        ask = get_double D (read_at 56 8 b), ask_qty = get_double D (read_at 64 8 b)\<rparr>)"

text \<open>The action is a signed byte (\<^verbatim>\<open>struct\<close> code \<^verbatim>\<open>b\<close>), two's complement.\<close>

definition pack_signal :: "doubles \<Rightarrow> signal \<Rightarrow> py_error + bytes" where
  "pack_signal D s =
     (if \<not> (u64_ok (s_ts_ns s) \<and> - 128 \<le> s_action s \<and> s_action s < 128) then Inl StructError
      else Inr (raw (fix_bytes (s_symbol s) 16) @ raw (fix_bytes (s_venue s) 8) @ raw (fix_bytes (s_strategy s) 16)
        @ be_bytes 8 (nat (s_ts_ns s)) @ put_byte (s_action s mod 256)
        @ put_double D (s_strength s) @ put_double D (s_ref_price s) @ replicate 7 0))"

definition unpack_signal :: "doubles \<Rightarrow> bytes \<Rightarrow> py_error + signal" where
  "unpack_signal D b =
     (if length b < SIGNAL_SIZE then Inl StructError
      else let a = int (be_val (read_at 48 1 b)) in
        Inr \<lparr>s_venue = unfix (unraw (read_at 16 8 b)), s_symbol = unfix (unraw (read_at 0 16 b)),
        s_ts_ns = int (be_val (read_at 40 8 b)), s_strategy = unfix (unraw (read_at 24 16 b)),
        s_action = (if a < 128 then a else a - 256),
        s_strength = get_double D (read_at 49 8 b), s_ref_price = get_double D (read_at 57 8 b)\<rparr>)"

definition latency_us :: "trade \<Rightarrow> rat" where
  "latency_us t = of_int (t_recv_ns t - t_event_ns t) / 1000"

definition trade_notional :: "trade \<Rightarrow> rat" where
  "trade_notional t = t_price t * t_qty t"

definition mid :: "book_top \<Rightarrow> rat" where
  "mid k = (if bid k \<noteq> 0 \<and> ask k \<noteq> 0 then (bid k + ask k) / 2 else 0)"

definition spread_bp :: "book_top \<Rightarrow> rat" where
  "spread_bp k = (let m = mid k in if m \<noteq> 0 then (ask k - bid k) / m * 10000 else 0)"

lemma utf8_char_bytes: "scalar c \<Longrightarrow> b \<in> set (utf8_char c) \<Longrightarrow> b < 256"
proof -
  have m: "x mod 64 < 64" for x :: nat by simp
  assume "scalar c" "b \<in> set (utf8_char c)"
  then show ?thesis using m [of c] m [of "c div 64"] m [of "c div 4096"]
    by (auto simp: utf8_char_def scalar_def split: if_splits)
qed

lemma unraw_raw: "\<forall>b \<in> set bs. b < 256 \<Longrightarrow> unraw (raw bs) = bs"
  by (induction bs) (simp_all add: unraw_def raw_def unat_of_nat)

lemma length_raw [simp]: "length (raw bs) = length bs"
  by (simp add: raw_def)

definition fits :: "text_u \<Rightarrow> nat \<Rightarrow> bool" where
  "fits s n \<longleftrightarrow> (\<forall>c \<in> set s. scalar c \<and> c \<noteq> 0) \<and> length (utf8 s) \<le> n"

lemma field_roundtrip:
  assumes "fits s n"
  shows "unfix (unraw (raw (fix_bytes s n))) = s"
proof -
  have z: "0 \<notin> set s" and sc: "\<forall>c \<in> set s. scalar c" and l: "length (utf8 s) \<le> n"
    using assms by (auto simp: fits_def)
  have "\<forall>b \<in> set (utf8 s). b < 256" using sc utf8_char_bytes by (auto simp: utf8_def)
  then have "unraw (raw (fix_bytes s n)) = fix_bytes s n"
    using l by (intro unraw_raw) (auto simp: fix_bytes_def Let_def)
  then show ?thesis
    using l sc rstrip0_pad [OF utf8_no_zero [OF z]] by (simp add: fix_bytes_def Let_def unfix_def utf8_decode_utf8)
qed

lemma read_at_skip: "length a \<le> i \<Longrightarrow> read_at i n (a @ b) = read_at (i - length a) n b"
  and read_at_here: "length a = n \<Longrightarrow> read_at 0 n (a @ b) = a"
  and read_at_last: "length a = n \<Longrightarrow> read_at 0 n a = a"
  by (simp_all add: read_at_def)

lemmas layout = read_at_skip read_at_here read_at_last

text \<open>The value is a double: its bit pattern has 64 bits and stands for it.\<close>

definition carries :: "doubles \<Rightarrow> rat \<Rightarrow> bool" where
  "carries D x \<longleftrightarrow> to_bits D x < 2 ^ 64 \<and> of_bits D (to_bits D x) = x"

lemma length_put_double [simp]: "length (put_double D x) = 8"
  by (simp add: put_double_def length_be_bytes)

lemma length_put_byte [simp]: "length (put_byte v) = 1"
  by (simp add: put_byte_def)

lemma get_put_double: "carries D x \<Longrightarrow> get_double D (put_double D x) = x"
  by (simp add: carries_def get_double_def put_double_def be_val_be_bytes)

lemma get_put_u64: "u64_ok v \<Longrightarrow> int (be_val (be_bytes 8 (nat v))) = v"
  by (simp add: u64_ok_def be_val_be_bytes nat_less_iff)

lemma get_put_u8: "0 \<le> v \<Longrightarrow> v < 256 \<Longrightarrow> int (be_val (put_byte v)) = v"
  unfolding put_byte_def by (subst be_val_be_bytes) (auto simp: nat_less_iff)

lemmas fields = layout field_roundtrip get_put_double get_put_u64 get_put_u8 length_be_bytes

definition trade_fits :: "doubles \<Rightarrow> trade \<Rightarrow> bool" where
  "trade_fits D t \<longleftrightarrow> fits (t_symbol t) 16 \<and> fits (t_venue t) 8 \<and> u64_ok (t_event_ns t) \<and> u64_ok (t_recv_ns t)
     \<and> 0 \<le> t_side t \<and> t_side t < 256 \<and> carries D (t_price t) \<and> carries D (t_qty t)"

definition book_fits :: "doubles \<Rightarrow> book_top \<Rightarrow> bool" where
  "book_fits D k \<longleftrightarrow> fits (bk_symbol k) 16 \<and> fits (bk_venue k) 8 \<and> u64_ok (bk_event_ns k) \<and> u64_ok (bk_recv_ns k)
     \<and> carries D (bid k) \<and> carries D (bid_qty k) \<and> carries D (ask k) \<and> carries D (ask_qty k)"

definition signal_fits :: "doubles \<Rightarrow> signal \<Rightarrow> bool" where
  "signal_fits D s \<longleftrightarrow> fits (s_symbol s) 16 \<and> fits (s_venue s) 8 \<and> fits (s_strategy s) 16 \<and> u64_ok (s_ts_ns s)
     \<and> - 128 \<le> s_action s \<and> s_action s < 128 \<and> carries D (s_strength s) \<and> carries D (s_ref_price s)"

lemma trade_roundtrip:
  assumes "trade_fits D t"
  shows "\<exists>b. pack_trade D t = Inr b \<and> length b = TRADE_SIZE \<and> unpack_trade D (b @ rest) = Inr t"
  using assms
  by (cases t) (simp add: trade_fits_def pack_trade_def unpack_trade_def TRADE_SIZE_def fields)

lemma book_roundtrip:
  assumes "book_fits D k"
  shows "\<exists>b. pack_book D k = Inr b \<and> length b = BOOK_SIZE \<and> unpack_book D (b @ rest) = Inr k"
  using assms
  by (cases k) (simp add: book_fits_def pack_book_def unpack_book_def BOOK_SIZE_def fields)

lemma signed_byte:
  assumes "- 128 \<le> v" "v < 128"
  shows "(if v mod 256 < 128 then v mod 256 else v mod 256 - 256) = (v :: int)"
proof (cases "0 \<le> v")
  case True
  with assms show ?thesis by simp
next
  case False
  with assms have "(v + 256) mod 256 = v + 256" by (intro mod_pos_pos_trivial) simp_all
  with False assms show ?thesis by simp
qed

lemma get_put_signed: "- 128 \<le> v \<Longrightarrow> v < 128 \<Longrightarrow>
    (let a = int (be_val (put_byte (v mod 256))) in if a < 128 then a else a - 256) = v"
  using signed_byte [of v] get_put_u8 [of "v mod 256"] by (simp add: Let_def)

lemma signal_roundtrip:
  assumes "signal_fits D s"
  shows "\<exists>b. pack_signal D s = Inr b \<and> length b = SIGNAL_SIZE \<and> unpack_signal D (b @ rest) = Inr s"
  using assms get_put_signed [of "s_action s"]
  by (cases s) (simp add: signal_fits_def pack_signal_def unpack_signal_def SIGNAL_SIZE_def Let_def fields)

text \<open>
  C36: records survive the wire. A trade, a quote or a signal whose texts fit their fields and whose
  integers and doubles fit theirs packs into its fixed size, and unpacking a buffer that starts with
  those bytes gives the same record, whatever follows.
\<close>

theorem record_roundtrip:
  assumes "trade_fits D t" "book_fits D k" "signal_fits D s"
  shows "(\<exists>b. pack_trade D t = Inr b \<and> length b = TRADE_SIZE \<and> unpack_trade D (b @ rest) = Inr t)
    \<and> (\<exists>b. pack_book D k = Inr b \<and> length b = BOOK_SIZE \<and> unpack_book D (b @ rest) = Inr k)
    \<and> (\<exists>b. pack_signal D s = Inr b \<and> length b = SIGNAL_SIZE \<and> unpack_signal D (b @ rest) = Inr s)"
  using assms trade_roundtrip book_roundtrip signal_roundtrip by blast

definition sample_doubles :: doubles where
  "sample_doubles = \<lparr>to_bits = \<lambda>x. nat \<lfloor>x * 1024\<rfloor>, of_bits = \<lambda>n. of_nat n / 1024\<rparr>"

definition sample_trade :: trade where
  "sample_trade = \<lparr>t_venue = [85, 80], t_symbol = [66, 84], t_event_ns = 7, t_recv_ns = 1009, t_price = 5 / 2,
     t_qty = 3, t_side = 1\<rparr>"

definition sample_book :: book_top where
  "sample_book = \<lparr>bk_venue = [85, 80], bk_symbol = [66, 84], bk_event_ns = 7, bk_recv_ns = 9, bid = 99, bid_qty = 1,
     ask = 101, ask_qty = 2\<rparr>"

definition sample_signal :: signal where
  "sample_signal = \<lparr>s_venue = [85, 80], s_symbol = [66, 84], s_ts_ns = 7, s_strategy = [115], s_action = - 1,
     s_strength = 1 / 2, s_ref_price = 100\<rparr>"

theorem record_roundtrip_witness:
  "(\<exists>b. pack_trade sample_doubles sample_trade = Inr b \<and> length b = TRADE_SIZE
      \<and> unpack_trade sample_doubles (b @ [1]) = Inr sample_trade)
    \<and> (\<exists>b. pack_signal sample_doubles sample_signal = Inr b \<and> length b = SIGNAL_SIZE
      \<and> unpack_signal sample_doubles (b @ [1]) = Inr sample_signal)"
proof -
  have "trade_fits sample_doubles sample_trade" "book_fits sample_doubles sample_book"
    "signal_fits sample_doubles sample_signal"
    by (simp_all add: trade_fits_def book_fits_def signal_fits_def sample_doubles_def sample_trade_def sample_book_def
        sample_signal_def fits_def scalar_def utf8_char_def u64_ok_def carries_def)
  from record_roundtrip [OF this, of "[1]"] show ?thesis by blast
qed

subsection \<open>Bars\<close>

record bar =
  bar_venue :: text_u
  bar_symbol :: text_u
  bucket_ns :: int
  interval_s :: int
  b_open :: rat
  b_high :: rat
  b_low :: rat
  b_close :: rat
  b_volume :: rat
  b_notional :: rat
  tick_count :: nat

definition new_bar :: "text_u \<Rightarrow> text_u \<Rightarrow> int \<Rightarrow> int \<Rightarrow> bar" where
  "new_bar v s b i = \<lparr>bar_venue = v, bar_symbol = s, bucket_ns = b, interval_s = i, b_open = 0, b_high = 0,
     b_low = 0, b_close = 0, b_volume = 0, b_notional = 0, tick_count = 0\<rparr>"

definition bar_update :: "bar \<Rightarrow> trade \<Rightarrow> bar" where
  "bar_update b0 t =
     (let b = (if tick_count b0 = 0 then b0\<lparr>b_open := t_price t, b_high := t_price t, b_low := t_price t\<rparr> else b0)
      in b\<lparr>b_high := max (b_high b) (t_price t), b_low := min (b_low b) (t_price t), b_close := t_price t,
           b_volume := b_volume b + t_qty t, b_notional := b_notional b + trade_notional t,
           tick_count := tick_count b + 1\<rparr>)"

definition vwap :: "bar \<Rightarrow> rat" where
  "vwap b = (if b_volume b \<noteq> 0 then b_notional b / b_volume b else b_close b)"

lemma bar_fold:
  assumes "ts \<noteq> []"
  shows "let b = foldl bar_update (new_bar v s k i) ts in
    b_open b = t_price (hd ts) \<and> b_close b = t_price (last ts)
    \<and> b_high b = Max (t_price ` set ts) \<and> b_low b = Min (t_price ` set ts)
    \<and> b_volume b = sum_list (map t_qty ts) \<and> b_notional b = sum_list (map trade_notional ts)
    \<and> tick_count b = length ts"
  using assms
proof (induction ts rule: rev_induct)
  case Nil
  then show ?case by simp
next
  case (snoc t ts)
  show ?case
  proof (cases "ts = []")
    case True
    then show ?thesis by (simp add: bar_update_def new_bar_def Let_def)
  next
    case False
    with snoc.IH have "tick_count (foldl bar_update (new_bar v s k i) ts) \<noteq> 0" by (simp add: Let_def)
    with False snoc.IH show ?thesis
      by (simp add: bar_update_def Let_def max.commute min.commute)
  qed
qed

text \<open>The volume-weighted price of positive trades lies between low and high.\<close>

lemma vwap_between:
  assumes "ts \<noteq> []" "\<forall>t \<in> set ts. 0 < t_qty t"
  shows "let b = foldl bar_update (new_bar v s k i) ts in b_low b \<le> vwap b \<and> vwap b \<le> b_high b"
proof -
  let ?lo = "Min (t_price ` set ts)" and ?hi = "Max (t_price ` set ts)"
  have "?lo * sum_list (map t_qty us) \<le> sum_list (map trade_notional us)
      \<and> sum_list (map trade_notional us) \<le> ?hi * sum_list (map t_qty us)" if "set us \<subseteq> set ts" for us
    using that
  proof (induction us)
    case (Cons u us)
    then have "?lo * t_qty u \<le> t_price u * t_qty u" "t_price u * t_qty u \<le> ?hi * t_qty u"
      using assms(2) by (auto intro!: mult_right_mono simp: less_imp_le)
    with Cons show ?case by (simp add: trade_notional_def algebra_simps)
  qed simp
  from this [of ts] have le: "?lo * sum_list (map t_qty ts) \<le> sum_list (map trade_notional ts)"
    "sum_list (map trade_notional ts) \<le> ?hi * sum_list (map t_qty ts)" by simp_all
  have "0 < sum_list (map t_qty us)" if "us \<noteq> []" "set us \<subseteq> set ts" for us
    using that
  proof (induction us)
    case (Cons u us)
    with assms(2) show ?case by (cases "us = []") (auto intro!: add_pos_pos)
  qed simp
  from this [of ts] assms(1) have "0 < sum_list (map t_qty ts)" by simp
  with le bar_fold [OF assms(1), of v s k i] show ?thesis
    by (simp add: Let_def vwap_def field_simps)
qed

text \<open>
  A bar is the summary of its ticks. Folding a non-empty run of trades into a new bar gives the
  first price as open, the last as close, the greatest and least price as high and low, the summed
  quantity and notional, and the number of ticks; when every quantity is positive the
  volume-weighted price lies between low and high.
\<close>

theorem bar_summarises:
  assumes "ts \<noteq> []"
  shows "let b = foldl bar_update (new_bar v s k i) ts in
    b_open b = t_price (hd ts) \<and> b_close b = t_price (last ts)
    \<and> b_high b = Max (t_price ` set ts) \<and> b_low b = Min (t_price ` set ts)
    \<and> b_volume b = sum_list (map t_qty ts) \<and> b_notional b = sum_list (map trade_notional ts)
    \<and> tick_count b = length ts
    \<and> ((\<forall>t \<in> set ts. 0 < t_qty t) \<longrightarrow> b_low b \<le> vwap b \<and> vwap b \<le> b_high b)"
  using bar_fold [OF assms, of v s k i] vwap_between [OF assms, of v s k i] by (simp add: Let_def)

theorem bar_summarises_witness:
  "let b = foldl bar_update (new_bar [85] [66] 0 60) [sample_trade, sample_trade\<lparr>t_price := 2\<rparr>, sample_trade\<lparr>t_price := 7\<rparr>] in
     b_open b = 5 / 2 \<and> b_close b = 7 \<and> b_low b = 2 \<and> tick_count b = 3"
  using bar_summarises [of "[sample_trade, sample_trade\<lparr>t_price := 2\<rparr>, sample_trade\<lparr>t_price := 7\<rparr>]" "[85]" "[66]" 0 60]
  by (simp add: Let_def sample_trade_def)

end
