(* ===== verification/Json.thy ===== *)
theory Json
  imports Models
begin

section \<open>JSON values and their printing\<close>

text \<open>
  The part of Python's \<^verbatim>\<open>json\<close> module the services use: a parsed document as a value, its truth
  value and \<^verbatim>\<open>dict.get\<close>, and \<^verbatim>\<open>json.dumps\<close> with its default separators and ASCII escapes. A
  handler that receives a document starts from the outcome of \<^verbatim>\<open>json.loads\<close>; numbers with a
  fraction are not modelled.
\<close>

datatype json = JNull | JBool bool | JNum int | JStr text_u | JArr "json list" | JObj "(text_u \<times> json) list"

text \<open>What \<^verbatim>\<open>json.loads\<close> gives: a value, \<^verbatim>\<open>JSONDecodeError\<close>, or the error of bytes that are no text.\<close>

datatype loaded = Loaded json | DecodeError | UnicodeError

definition asc :: "string \<Rightarrow> text_u" where "asc s = map of_char s"

fun truthy :: "json \<Rightarrow> bool" where
  "truthy JNull = False"
| "truthy (JBool b) = b"
| "truthy (JNum n) = (n \<noteq> 0)"
| "truthy (JStr s) = (s \<noteq> [])"
| "truthy (JArr xs) = (xs \<noteq> [])"
| "truthy (JObj kvs) = (kvs \<noteq> [])"

text \<open>Lists and dictionaries cannot be members of a set: \<^verbatim>\<open>TypeError\<close>.\<close>

fun hashable :: "json \<Rightarrow> bool" where
  "hashable (JArr xs) = False"
| "hashable (JObj kvs) = False"
| "hashable j = True"

text \<open>\<^verbatim>\<open>d.get(k, default)\<close>; a key given twice keeps its last value.\<close>

definition obj_get :: "(text_u \<times> json) list \<Rightarrow> text_u \<Rightarrow> json \<Rightarrow> json" where
  "obj_get kvs k d = (case map_of (rev kvs) k of None \<Rightarrow> d | Some v \<Rightarrow> v)"

fun digits :: "nat \<Rightarrow> text_u" where
  "digits n = (if n < 10 then [48 + n] else digits (n div 10) @ [48 + n mod 10])"

declare digits.simps [simp del]

definition int_text :: "int \<Rightarrow> text_u" where
  "int_text i = (if i < 0 then 45 # digits (nat (- i)) else digits (nat i))"

definition hex_digit :: "nat \<Rightarrow> nat" where
  "hex_digit d = (if d < 10 then 48 + d else 87 + d)"

definition u_escape :: "nat \<Rightarrow> text_u" where
  "u_escape c = [92, 117, hex_digit (c div 4096 mod 16), hex_digit (c div 256 mod 16), hex_digit (c div 16 mod 16),
     hex_digit (c mod 16)]"

definition escape_char :: "nat \<Rightarrow> text_u" where
  "escape_char c =
     (if c = 34 then [92, 34] else if c = 92 then [92, 92] else if c = 10 then [92, 110]
      else if c = 13 then [92, 114] else if c = 9 then [92, 116] else if c = 12 then [92, 102]
      else if c = 8 then [92, 98] else if 32 \<le> c \<and> c \<le> 126 then [c]
      else if c < 0x10000 then u_escape c
      else let v = c - 0x10000 in u_escape (0xD800 + v div 1024) @ u_escape (0xDC00 + v mod 1024))"

definition quote_text :: "text_u \<Rightarrow> text_u" where
  "quote_text s = 34 # concat (map escape_char s) @ [34]"

fun sep_concat :: "text_u list \<Rightarrow> text_u" where
  "sep_concat [] = []"
| "sep_concat [x] = x"
| "sep_concat (x # xs) = x @ [44, 32] @ sep_concat xs"

fun dumps_text :: "json \<Rightarrow> text_u" where
  "dumps_text JNull = asc ''null''"
| "dumps_text (JBool b) = (if b then asc ''true'' else asc ''false'')"
| "dumps_text (JNum n) = int_text n"
| "dumps_text (JStr s) = quote_text s"
| "dumps_text (JArr xs) = 91 # sep_concat (map dumps_text xs) @ [93]"
| "dumps_text (JObj kvs) = 123 # sep_concat (map (\<lambda>(k, v). quote_text k @ [58, 32] @ dumps_text v) kvs) @ [125]"

definition dumps :: "json \<Rightarrow> bytes" where
  "dumps j = raw (dumps_text j)"

text \<open>Everything printed is printable ASCII, so \<^verbatim>\<open>encode()\<close> gives one byte per character.\<close>

definition printable :: "text_u \<Rightarrow> bool" where "printable s \<longleftrightarrow> (\<forall>c \<in> set s. 32 \<le> c \<and> c < 127)"

lemma printable_simps [simp]: "printable []" "printable (c # s) \<longleftrightarrow> 32 \<le> c \<and> c < 127 \<and> printable s"
  "printable (s @ t) \<longleftrightarrow> printable s \<and> printable t"
  by (auto simp: printable_def)

lemma printable_digits: "printable (digits n)"
proof (induction n rule: digits.induct)
  case (1 n)
  show ?case by (subst digits.simps) (use 1 in auto)
qed

lemma printable_u_escape: "printable (u_escape c)"
proof -
  have "32 \<le> hex_digit (x mod 16) \<and> hex_digit (x mod 16) < 127" for x
    using mod_less_divisor [of 16 x] by (auto simp: hex_digit_def)
  from this [of "c div 4096"] this [of "c div 256"] this [of "c div 16"] this [of c]
  show ?thesis by (simp add: u_escape_def)
qed

lemma printable_quote: "printable (quote_text s)"
proof -
  have "printable (escape_char c)" for c by (auto simp: escape_char_def Let_def printable_u_escape)
  then have "printable (concat (map escape_char s))" by (induction s) auto
  then show ?thesis by (simp add: quote_text_def)
qed

lemma printable_sep: "\<forall>s \<in> set ss. printable s \<Longrightarrow> printable (sep_concat ss)"
  by (induction ss rule: sep_concat.induct) auto

lemma printable_dumps: "printable (dumps_text j)"
  by (induction j rule: dumps_text.induct)
    (auto simp: int_text_def asc_def printable_digits printable_quote intro!: printable_sep)

end
