(* ===== verification/Entitlements.thy ===== *)
theory Entitlements
  imports Json
begin

section \<open>Entitlements\<close>

text \<open>
  Models \<^verbatim>\<open>src/mdfeed/entitlements.py\<close>: the token table, the filter a request resolves to, and the
  parser of the entitlement file. A requested element is a JSON value, since it comes from a client's
  document; a key of the feed is the text \<^verbatim>\<open>VENUE:SYMBOL\<close>.
\<close>

record entitlements =
  by_token :: "(text_u \<times> text_u set) list"
  enabled :: bool
  ent_source :: text_u

definition open_entitlements :: entitlements where
  "open_entitlements = \<lparr>by_token = [], enabled = False, ent_source = []\<rparr>"

definition ALL_SYMBOLS :: text_u where "ALL_SYMBOLS = [42]"

definition allowed :: "entitlements \<Rightarrow> text_u \<Rightarrow> text_u set" where
  "allowed e tok = (case map_of (by_token e) tok of None \<Rightarrow> {} | Some s \<Rightarrow> s)"

definition allows_all :: "entitlements \<Rightarrow> text_u \<Rightarrow> bool" where
  "allows_all e tok \<longleftrightarrow> ALL_SYMBOLS \<in> allowed e tok"

definition known :: "entitlements \<Rightarrow> text_u \<Rightarrow> bool" where
  "known e tok \<longleftrightarrow> tok \<in> fst ` set (by_token e)"

type_synonym sym_filter = "json set option"

text \<open>\<^verbatim>\<open>set(requested) if requested else None\<close>.\<close>

definition as_requested :: "json list \<Rightarrow> py_error + (sym_filter \<times> json list \<times> string)" where
  "as_requested req =
     (if req = [] then Inr (None, [], '''')
      else if list_all hashable req then Inr (Some (set req), [], '''')
      else Inl TypeError)"

text \<open>An absent request and an empty one are treated alike everywhere, so both are the empty list.\<close>

definition resolve :: "entitlements \<Rightarrow> text_u \<Rightarrow> json list \<Rightarrow> py_error + (sym_filter \<times> json list \<times> string)" where
  "resolve e tok req =
     (if \<not> enabled e then as_requested req
      else if tok = [] then Inr (Some {}, req, ''TOKEN_REQUIRED'')
      else if \<not> known e tok then Inr (Some {}, req, ''UNKNOWN_TOKEN'')
      else if allows_all e tok then as_requested req
      else if req = [] then Inr (Some (JStr ` allowed e tok), [], '''')
      else if \<not> list_all hashable req then Inl TypeError
      else let granted = set (filter (\<lambda>s. s \<in> JStr ` allowed e tok) req);
               denied = filter (\<lambda>s. s \<notin> JStr ` allowed e tok) req
        in Inr (Some granted, denied, if denied \<noteq> [] then ''NOT_ENTITLED'' else ''''))"

subsection \<open>The entitlement file\<close>

definition is_space :: "nat \<Rightarrow> bool" where
  "is_space c \<longleftrightarrow> 9 \<le> c \<and> c \<le> 13 \<or> 28 \<le> c \<and> c \<le> 32 \<or> c \<in> {0x85, 0xA0, 0x1680, 0x2028, 0x2029, 0x202F, 0x205F, 0x3000}
     \<or> 0x2000 \<le> c \<and> c \<le> 0x200A"

definition is_break :: "nat \<Rightarrow> bool" where
  "is_break c \<longleftrightarrow> 10 \<le> c \<and> c \<le> 13 \<or> 28 \<le> c \<and> c \<le> 30 \<or> c \<in> {0x85, 0x2028, 0x2029}"

fun splitlines_acc :: "text_u \<Rightarrow> text_u \<Rightarrow> text_u list" where
  "splitlines_acc acc [] = (if acc = [] then [] else [rev acc])"
| "splitlines_acc acc (c # s) =
     (if c = 13 \<and> s \<noteq> [] \<and> hd s = 10 then rev acc # splitlines_acc [] (tl s)
      else if is_break c then rev acc # splitlines_acc [] s
      else splitlines_acc (c # acc) s)"

definition lstrip :: "text_u \<Rightarrow> text_u" where "lstrip s = dropWhile is_space s"

definition strip :: "text_u \<Rightarrow> text_u" where "strip s = rev (lstrip (rev (lstrip s)))"

fun split_on :: "nat \<Rightarrow> text_u \<Rightarrow> text_u list" where
  "split_on d [] = [[]]"
| "split_on d (c # s) = (if c = d then [] # split_on d s
     else case split_on d s of [] \<Rightarrow> [[c]] | w # ws \<Rightarrow> (c # w) # ws)"

definition parse_line :: "text_u \<Rightarrow> (text_u \<times> text_u set) option" where
  "parse_line l =
     (let line = strip (takeWhile (\<lambda>c. c \<noteq> 35) l) in
      if line = [] then None
      else let token = takeWhile (\<lambda>c. \<not> is_space c) line;
               syms = lstrip (dropWhile (\<lambda>c. \<not> is_space c) line)
        in Some (token, set (filter (\<lambda>s. s \<noteq> []) (map strip (split_on 44 syms)))))"

definition parse :: "text_u \<Rightarrow> text_u \<Rightarrow> entitlements" where
  "parse txt src =
     (let by = fold (\<lambda>l d. case parse_line l of None \<Rightarrow> d | Some (t, s) \<Rightarrow> AList.update t s d) (splitlines_acc [] txt) []
      in \<lparr>by_token = by, enabled = by \<noteq> [], ent_source = src\<rparr>)"

text \<open>\<^verbatim>\<open>load\<close> with the path (explicit or from the environment) and the contents of that file.\<close>

definition load :: "text_u \<Rightarrow> text_u \<Rightarrow> entitlements" where
  "load path contents = (if path = [] then open_entitlements else parse contents path)"

subsection \<open>Lemmas\<close>

text \<open>What a token may see, as a set of filter elements.\<close>

definition may_see :: "entitlements \<Rightarrow> text_u \<Rightarrow> text_u \<Rightarrow> bool" where
  "may_see e tok key \<longleftrightarrow> \<not> enabled e \<or> tok \<noteq> [] \<and> known e tok \<and> (allows_all e tok \<or> key \<in> allowed e tok)"

definition passes :: "sym_filter \<Rightarrow> text_u \<Rightarrow> bool" where
  "passes f key \<longleftrightarrow> (case f of None \<Rightarrow> True | Some s \<Rightarrow> JStr key \<in> s)"

lemma resolve_sound: "resolve e tok req = Inr (f, denied, why) \<Longrightarrow> passes f key \<Longrightarrow> may_see e tok key"
  by (auto simp: resolve_def as_requested_def Let_def may_see_def passes_def split: if_splits option.splits)

text \<open>
  Entitlements fail closed and refuse aloud. With checking on, a request resolves to a filter
  that passes exactly the requested keys (all keys if none are named) the token may see; an empty or
  unknown token gets nothing, and whenever something was refused the reason is not empty.
\<close>

theorem resolve_exact:
  assumes "enabled e" "resolve e tok req = Inr (f, denied, why)"
  shows "(passes f key \<longleftrightarrow> may_see e tok key \<and> (req = [] \<or> JStr key \<in> set req))
    \<and> ((tok = [] \<or> \<not> known e tok) \<longrightarrow> f = Some {} \<and> denied = req \<and> why \<noteq> '''')
    \<and> (denied \<noteq> [] \<longrightarrow> why \<noteq> '''')"
  using assms
  by (auto simp: resolve_def as_requested_def Let_def may_see_def passes_def split: if_splits option.splits)

theorem resolve_exact_witness:
  "passes (Some {JStr [65]}) [65]
     \<longleftrightarrow> may_see \<lparr>by_token = [([7], {[65]})], enabled = True, ent_source = []\<rparr> [7] [65] \<and> JStr [65] \<in> set [JStr [65], JStr [66]]"
proof -
  let ?e = "\<lparr>by_token = [([7], {[65]})], enabled = True, ent_source = []\<rparr>"
  have "resolve ?e [7] [JStr [65], JStr [66]] = Inr (Some {JStr [65]}, [JStr [66]], ''NOT_ENTITLED'')"
    by (simp add: resolve_def known_def allows_all_def allowed_def ALL_SYMBOLS_def)
  from resolve_exact [OF _ this, of "[65]"] show ?thesis by simp
qed

text \<open>A file in which every line is blank or a comment turns checking off, although a file was given.\<close>

lemma empty_file_opens:
  assumes "\<forall>l \<in> set (splitlines_acc [] txt). parse_line l = None"
  shows "\<not> enabled (load path txt)"
proof -
  have "fold (\<lambda>l d. case parse_line l of None \<Rightarrow> d | Some (t, s) \<Rightarrow> AList.update t s d) ls d = d"
    if "\<forall>l \<in> set ls. parse_line l = None" for ls and d :: "(text_u \<times> text_u set) list"
    using that by (induction ls arbitrary: d) auto
  from this [OF assms] show ?thesis by (simp add: load_def parse_def Let_def open_entitlements_def)
qed

end
