(* ===== verification/DropOldest.thy ===== *)
theory DropOldest
  imports Prelude
begin

section \<open>Bounded queues that drop the oldest element\<close>

text \<open>
  The contract the publisher of the bus and the gateways share: a subscriber has an \<^verbatim>\<open>asyncio.Queue\<close>
  of bounded size; offering to a full one throws the oldest element away and counts it. The locale
  states the two laws of \<open>offer\<close> and derives what a run of offers leaves in the queue.
\<close>

text \<open>\<^verbatim>\<open>Queue.full\<close> (a size of 0 or less means unbounded), \<^verbatim>\<open>put_nowait\<close> under \<^verbatim>\<open>suppress(QueueFull)\<close>.\<close>

definition q_full :: "int \<Rightarrow> 'a list \<Rightarrow> bool" where
  "q_full cap q \<longleftrightarrow> 0 < cap \<and> cap \<le> int (length q)"

definition q_put :: "int \<Rightarrow> 'a \<Rightarrow> 'a list \<Rightarrow> 'a list" where
  "q_put cap x q = (if q_full cap q then q else q @ [x])"

lemma q_put_after_drop: "q_full cap q \<Longrightarrow> int (length q) \<le> cap \<Longrightarrow> q_put cap x (tl q) = tl q @ [x]"
  by (cases q) (auto simp: q_put_def q_full_def)

locale drop_oldest =
  fixes offer :: "'s \<Rightarrow> 'a \<Rightarrow> 's" and contents :: "'s \<Rightarrow> 'a list" and lost :: "'s \<Rightarrow> nat"
    and room :: "'s \<Rightarrow> nat" and valid :: "'s \<Rightarrow> bool"
  assumes valid_room: "valid s \<Longrightarrow> 0 < room s \<and> length (contents s) \<le> room s"
    and offer_valid: "valid s \<Longrightarrow> valid (offer s x)"
    and offer_room: "valid s \<Longrightarrow> room (offer s x) = room s"
    and offer_free: "valid s \<Longrightarrow> length (contents s) < room s \<Longrightarrow>
      contents (offer s x) = contents s @ [x] \<and> lost (offer s x) = lost s"
    and offer_full: "valid s \<Longrightarrow> length (contents s) = room s \<Longrightarrow>
      contents (offer s x) = tl (contents s) @ [x] \<and> lost (offer s x) = lost s + 1"
begin

lemma offer_suffix:
  assumes "valid s"
  shows "\<exists>gone. contents s @ [x] = gone @ contents (offer s x) \<and> lost (offer s x) = lost s + length gone
    \<and> length gone = (if length (contents s) = room s then 1 else 0)"
proof (cases "length (contents s) = room s")
  case True
  with valid_room [OF assms] obtain y ys where "contents s = y # ys" by (cases "contents s") auto
  with offer_full [OF assms True, of x] True show ?thesis by (intro exI [of _ "[y]"]) simp
next
  case False
  with offer_free [OF assms, of x] valid_room [OF assms] show ?thesis by simp
qed

text \<open>Whatever the run of offers, the queue holds a suffix of what was offered; what is missing is counted.\<close>

lemma offers_suffix:
  assumes "valid s"
  shows "valid (foldl offer s xs) \<and> room (foldl offer s xs) = room s
    \<and> (\<exists>gone. contents s @ xs = gone @ contents (foldl offer s xs) \<and> lost (foldl offer s xs) = lost s + length gone)"
proof (induction xs rule: rev_induct)
  case Nil
  with assms show ?case by simp
next
  case (snoc x xs)
  let ?t = "foldl offer s xs"
  from snoc.IH obtain gone where g: "valid ?t" "room ?t = room s" "contents s @ xs = gone @ contents ?t"
    "lost ?t = lost s + length gone" by blast
  from offer_suffix [OF g(1), of x] obtain h where h: "contents ?t @ [x] = h @ contents (offer ?t x)"
    "lost (offer ?t x) = lost ?t + length h" by blast
  have "contents s @ xs @ [x] = (gone @ h) @ contents (offer ?t x)" using g(3) h(1) by (metis append_assoc)
  with g h offer_valid offer_room show ?case by (auto intro!: exI [of _ "gone @ h"])
qed

lemma newest_kept:
  assumes "valid s"
  shows "last (contents (offer s x)) = x \<and> contents (offer s x) \<noteq> []"
  using offer_free [OF assms, of x] offer_full [OF assms, of x] valid_room [OF assms]
  by (cases "length (contents s) = room s") auto

lemma never_overfull: "valid s \<Longrightarrow> length (contents (foldl offer s xs)) \<le> room s"
  using offers_suffix [of s xs] valid_room [of "foldl offer s xs"] by auto

end

end
