(* ===== verification/Bus.thy ===== *)
theory Bus
  imports Entitlements DropOldest
begin

section \<open>The inter-process bus\<close>

text \<open>
  Models \<^verbatim>\<open>src/mdfeed/bus.py\<close>: the broadcasting publisher with one bounded queue and one set of
  counters per subscriber, the per-source health of a consumer, and its reconnect loop. Sockets, the
  event loop and logging are not modelled: a connection is \<open>bus_accept\<close>, its announced name
  \<open>bus_named\<close>, one turn of its handler \<open>bus_send\<close> and its end \<open>bus_gone\<close>; the clock is an argument.
\<close>

definition MAX_UDS_PATH :: nat where "MAX_UDS_PATH = 100"

definition check_uds_path :: "text_u \<Rightarrow> py_error + unit" where
  "check_uds_path path = (if length (utf8 path) > MAX_UDS_PATH then Inl ValueError else Inr ())"

datatype bus_error = BusBackendError text_u

definition check_backend :: "text_u \<Rightarrow> bus_error + unit" where
  "check_backend b = (if b \<noteq> asc ''uds'' then Inl (BusBackendError b) else Inr ())"

subsection \<open>The publisher\<close>

record client_stat =
  c_name :: text_u
  connected_at :: seconds
  c_dropped :: nat
  c_sent :: nat

record publisher =
  queue_size :: int
  clients :: "(nat \<times> bytes list) list"
  cstats :: "(nat \<times> client_stat) list"
  bus_next_id :: nat
  bus_dropped :: nat
  published :: nat
  drop_calls :: "text_u list"

definition new_publisher :: "int \<Rightarrow> publisher" where
  "new_publisher n = \<lparr>queue_size = n, clients = [], cstats = [], bus_next_id = 0, bus_dropped = 0, published = 0,
     drop_calls = []\<rparr>"

text \<open>\<^verbatim>\<open>str()\<close> of a JSON value; the text of a container is Python's \<^verbatim>\<open>repr\<close>, an argument.\<close>

definition py_str :: "(json \<Rightarrow> text_u) \<Rightarrow> json \<Rightarrow> text_u" where
  "py_str repr j = (case j of JStr s \<Rightarrow> s | JNum n \<Rightarrow> int_text n | JBool b \<Rightarrow> (if b then asc ''True'' else asc ''False'')
     | JNull \<Rightarrow> asc ''None'' | _ \<Rightarrow> repr j)"

definition read_name :: "(json \<Rightarrow> text_u) \<Rightarrow> loaded \<Rightarrow> text_u" where
  "read_name repr line =
     (case line of
        Loaded (JObj kvs) \<Rightarrow> let n = obj_get kvs (asc ''name'') JNull in
          if truthy n then take 32 (py_str repr n) else asc ''anonymous''
      | _ \<Rightarrow> asc ''anonymous'')"

definition bus_accept :: "publisher \<Rightarrow> publisher" where
  "bus_accept p = p\<lparr>clients := clients p @ [(bus_next_id p, [])], bus_next_id := bus_next_id p + 1\<rparr>"

definition bus_named :: "nat \<Rightarrow> text_u \<Rightarrow> seconds \<Rightarrow> publisher \<Rightarrow> publisher" where
  "bus_named cid name now p =
     p\<lparr>cstats := AList.update cid \<lparr>c_name = name, connected_at = now, c_dropped = 0, c_sent = 0\<rparr> (cstats p)\<rparr>"

text \<open>One subscriber's turn of the publishing loop: its queue, and whether a frame was dropped.\<close>

definition offer_queue :: "int \<Rightarrow> bytes \<Rightarrow> bytes list \<Rightarrow> bytes list \<times> bool" where
  "offer_queue cap data q = (let full = q_full cap q; q1 = (if full then tl q else q) in (q_put cap data q1, full))"

definition count_drop :: "nat \<Rightarrow> publisher \<Rightarrow> publisher" where
  "count_drop cid p =
     (let st = map_of (cstats p) cid in
      p\<lparr>bus_dropped := bus_dropped p + 1,
        cstats := (case st of None \<Rightarrow> cstats p | Some s \<Rightarrow> AList.update cid (s\<lparr>c_dropped := c_dropped s + 1\<rparr>) (cstats p)),
        drop_calls := drop_calls p @ [case st of None \<Rightarrow> asc ''anonymous'' | Some s \<Rightarrow> c_name s]\<rparr>)"

text \<open>
  The publishing loop visits every client; each visit touches only that client's queue and counters,
  so the queues are updated together and the drops counted in the order of the clients.
\<close>

definition publish :: "publisher \<Rightarrow> bytes \<Rightarrow> publisher" where
  "publish p data =
     fold count_drop (map fst (filter (\<lambda>(_, q). snd (offer_queue (queue_size p) data q)) (clients p)))
       (p\<lparr>published := published p + 1,
          clients := map (\<lambda>(i, q). (i, fst (offer_queue (queue_size p) data q))) (clients p)\<rparr>)"

text \<open>The handler of a named subscriber takes one frame from its queue and writes it.\<close>

definition bus_send :: "nat \<Rightarrow> publisher \<Rightarrow> publisher \<times> bytes option" where
  "bus_send cid p =
     (case (map_of (clients p) cid, map_of (cstats p) cid) of
        (Some (x # q), Some s) \<Rightarrow>
          (p\<lparr>clients := map (\<lambda>(i, q0). if i = cid then (i, q) else (i, q0)) (clients p),
             cstats := AList.update cid (s\<lparr>c_sent := c_sent s + 1\<rparr>) (cstats p)\<rparr>, Some x)
      | _ \<Rightarrow> (p, None))"

definition bus_gone :: "nat \<Rightarrow> publisher \<Rightarrow> publisher" where
  "bus_gone cid p = p\<lparr>clients := AList.delete cid (clients p), cstats := AList.delete cid (cstats p)\<rparr>"

definition bus_close :: "publisher \<Rightarrow> publisher" where
  "bus_close p = p\<lparr>clients := [], cstats := []\<rparr>"

definition subscriber_count :: "publisher \<Rightarrow> nat" where
  "subscriber_count p = length (clients p)"

text \<open>The rows of \<^verbatim>\<open>subscriber_stats\<close>: id, name, backlog, dropped, sent, most dropped first.\<close>

definition subscriber_stats :: "publisher \<Rightarrow> (nat \<times> text_u \<times> nat \<times> nat \<times> nat) list" where
  "subscriber_stats p =
     sort_key (\<lambda>(_, _, _, d, _). - int d)
       (map (\<lambda>(i, q). case map_of (cstats p) i of None \<Rightarrow> (i, asc ''anonymous'', length q, 0, 0)
              | Some s \<Rightarrow> (i, c_name s, length q, c_dropped s, c_sent s)) (clients p))"

subsection \<open>What a subscriber's queue holds\<close>

definition queue_of :: "nat \<Rightarrow> publisher \<Rightarrow> bytes list" where
  "queue_of c p = (case map_of (clients p) c of None \<Rightarrow> [] | Some q \<Rightarrow> q)"

definition lost_of :: "nat \<Rightarrow> publisher \<Rightarrow> nat" where
  "lost_of c p = (case map_of (cstats p) c of None \<Rightarrow> 0 | Some s \<Rightarrow> c_dropped s)"

definition bus_ok :: "publisher \<Rightarrow> bool" where
  "bus_ok p \<longleftrightarrow> 0 < queue_size p \<and> distinct (map fst (clients p)) \<and> (\<forall>q \<in> snd ` set (clients p). int (length q) \<le> queue_size p)"

definition served :: "nat \<Rightarrow> publisher \<Rightarrow> bool" where
  "served c p \<longleftrightarrow> bus_ok p \<and> c \<in> fst ` set (clients p) \<and> c \<in> fst ` set (cstats p)"

lemma count_drop_frame [simp]: "clients (count_drop c p) = clients p" "queue_size (count_drop c p) = queue_size p"
  "published (count_drop c p) = published p"
  by (simp_all add: count_drop_def Let_def)

lemma map_of_count_drop:
  "map_of (cstats (count_drop c p)) d
     = (if d = c then map_option (\<lambda>s. s\<lparr>c_dropped := c_dropped s + 1\<rparr>) (map_of (cstats p) d) else map_of (cstats p) d)"
  by (cases "map_of (cstats p) c") (simp_all add: count_drop_def Let_def update_conv')

lemma fold_count_drop:
  "clients (fold count_drop cs p) = clients p \<and> queue_size (fold count_drop cs p) = queue_size p
   \<and> map_of (cstats (fold count_drop cs p)) d
     = map_option (\<lambda>s. s\<lparr>c_dropped := c_dropped s + length (filter (\<lambda>c. c = d) cs)\<rparr>) (map_of (cstats p) d)"
proof (induction cs arbitrary: p)
  case Nil
  then show ?case by (simp add: option.map_ident_strong)
next
  case (Cons c cs)
  from Cons.IH [of "count_drop c p"] show ?case
    by (auto simp: map_of_count_drop option.map_comp comp_def intro!: option.map_cong)
qed

lemma publish_frame: "map fst (clients (publish p d)) = map fst (clients p)" "queue_size (publish p d) = queue_size p"
  "c \<in> fst ` set (cstats (publish p d)) \<longleftrightarrow> c \<in> fst ` set (cstats p)"
proof -
  show "map fst (clients (publish p d)) = map fst (clients p)" "queue_size (publish p d) = queue_size p"
    by (auto simp: publish_def fold_count_drop)
  show "c \<in> fst ` set (cstats (publish p d)) \<longleftrightarrow> c \<in> fst ` set (cstats p)"
    using map_of_eq_None_iff [of "cstats (publish p d)" c] map_of_eq_None_iff [of "cstats p" c]
    by (simp add: publish_def fold_count_drop)
qed

lemma queue_publish:
  "c \<in> fst ` set (clients p) \<Longrightarrow> queue_of c (publish p d) = fst (offer_queue (queue_size p) d (queue_of c p))"
proof -
  assume "c \<in> fst ` set (clients p)"
  then obtain q where "map_of (clients p) c = Some q" by (metis map_of_eq_None_iff option.exhaust)
  then show ?thesis by (simp add: publish_def fold_count_drop queue_of_def map_of_map)
qed

lemma filter_one:
  assumes "distinct (map fst xs)" "map_of xs c = Some q"
  shows "length (filter (\<lambda>i. i = c) (map fst (filter (\<lambda>(_, q). P q) xs))) = (if P q then 1 else 0)"
  using assms
proof (induction xs)
  case (Cons x xs)
  have "filter (\<lambda>x. (case x of (_, q) \<Rightarrow> P q) \<and> fst x = c) xs = []" if "c \<notin> fst ` set xs"
    using that by (auto simp: filter_empty_conv image_iff)
  with Cons show ?case by (cases x) auto
qed simp

lemma lost_publish:
  assumes "served c p"
  shows "lost_of c (publish p d) = lost_of c p + (if q_full (queue_size p) (queue_of c p) then 1 else 0)"
proof -
  obtain q s where q: "map_of (clients p) c = Some q" and s: "map_of (cstats p) c = Some s"
    using assms unfolding served_def by (metis map_of_eq_None_iff option.exhaust)
  have "distinct (map fst (clients p))" using assms by (simp add: served_def bus_ok_def)
  from filter_one [OF this q, of "\<lambda>q. snd (offer_queue (queue_size p) d q)"] q s show ?thesis
    by (simp add: publish_def fold_count_drop lost_of_def queue_of_def offer_queue_def Let_def)
qed

lemma offer_queue_size: "0 < cap \<Longrightarrow> int (length q) \<le> cap \<Longrightarrow> int (length (fst (offer_queue cap d q))) \<le> cap"
  by (cases q) (auto simp: offer_queue_def Let_def q_put_def q_full_def)

lemma bus_ok_publish: "bus_ok p \<Longrightarrow> bus_ok (publish p d)"
proof -
  assume ok: "bus_ok p"
  have "clients (publish p d) = map (\<lambda>(i, q). (i, fst (offer_queue (queue_size p) d q))) (clients p)"
    by (simp add: publish_def fold_count_drop)
  then have "snd ` set (clients (publish p d)) = (\<lambda>q. fst (offer_queue (queue_size p) d q)) ` snd ` set (clients p)"
    by (auto simp: image_image split_def)
  with ok offer_queue_size show ?thesis
    by (auto simp: bus_ok_def publish_frame(1,2) simp del: list.map_comp)
qed

lemma served_publish: "served c p \<Longrightarrow> served c (publish p d)"
  using publish_frame(1) [of p d] publish_frame(3) [of c p d] bus_ok_publish [of p d]
  unfolding served_def by (metis list.set_map)

text \<open>Every named subscriber of the bus meets the contract of a queue that drops its oldest element.\<close>

interpretation bus: drop_oldest publish "queue_of c" "lost_of c" "\<lambda>p. nat (queue_size p)" "served c" for c
proof
  fix p :: publisher and d :: bytes
  assume v: "served c p"
  then obtain q where q: "map_of (clients p) c = Some q" "q \<in> snd ` set (clients p)" "c \<in> fst ` set (clients p)"
    unfolding served_def by (metis map_of_SomeD map_of_eq_None_iff option.exhaust image_eqI snd_conv)
  then have b: "0 < queue_size p" "int (length (queue_of c p)) \<le> queue_size p"
    using v by (auto simp: served_def bus_ok_def queue_of_def)
  then show "0 < nat (queue_size p) \<and> length (queue_of c p) \<le> nat (queue_size p)" by simp
  show "served c (publish p d)" using v by (rule served_publish)
  show "nat (queue_size (publish p d)) = nat (queue_size p)" by (simp add: publish_frame)
  show "queue_of c (publish p d) = queue_of c p @ [d] \<and> lost_of c (publish p d) = lost_of c p"
    if "length (queue_of c p) < nat (queue_size p)"
    using that q(3) v b by (simp add: queue_publish lost_publish offer_queue_def Let_def q_put_def q_full_def nat_less_iff)
  show "queue_of c (publish p d) = tl (queue_of c p) @ [d] \<and> lost_of c (publish p d) = lost_of c p + 1"
    if "length (queue_of c p) = nat (queue_size p)"
    using that q(3) v b by (simp add: queue_publish lost_publish offer_queue_def Let_def q_put_after_drop q_full_def)
qed


text \<open>The invariant of the publisher: bounded queues, one entry per connection.\<close>

datatype bus_event = Accept | Named nat text_u seconds | Publish bytes | Send nat | Gone nat | Close

definition bus_step :: "publisher \<Rightarrow> bus_event \<Rightarrow> publisher" where
  "bus_step p e =
     (case e of Accept \<Rightarrow> bus_accept p | Named c n t \<Rightarrow> bus_named c n t p | Publish d \<Rightarrow> publish p d
      | Send c \<Rightarrow> fst (bus_send c p) | Gone c \<Rightarrow> bus_gone c p | Close \<Rightarrow> bus_close p)"

definition bus_wf :: "publisher \<Rightarrow> bool" where
  "bus_wf p \<longleftrightarrow> bus_ok p \<and> (\<forall>c \<in> fst ` set (clients p). c < bus_next_id p)"

lemma bus_next_id_publish [simp]: "bus_next_id (publish p d) = bus_next_id p"
proof -
  have "bus_next_id (fold count_drop cs q) = bus_next_id q" for cs q
    by (induction cs arbitrary: q) (simp_all add: count_drop_def Let_def)
  then show ?thesis by (simp add: publish_def)
qed

lemma map_fst_send: "map fst (map (\<lambda>(i, q0). if i = c then (i, q) else (i, q0)) xs) = map fst xs"
  by (induction xs) auto

lemma bus_step_wf: "bus_wf p \<Longrightarrow> bus_wf (bus_step p e)"
proof -
  assume wf: "bus_wf p"
  show ?thesis
  proof (cases e)
    case (Publish d)
    have "fst ` set (clients (publish p d)) = fst ` set (clients p)"
      using publish_frame(1) [of p d] by (metis list.set_map)
    with wf bus_ok_publish [of p d] Publish show ?thesis by (simp add: bus_wf_def bus_step_def)
  next
    case (Send c)
    show ?thesis
    proof (cases "\<exists>x q s. map_of (clients p) c = Some (x # q) \<and> map_of (cstats p) c = Some s")
      case False
      then have "bus_send c p = (p, None)" by (auto simp: bus_send_def split: option.split list.split)
      with wf Send show ?thesis by (simp add: bus_step_def)
    next
      case True
      then obtain x q s where q: "map_of (clients p) c = Some (x # q)" "map_of (cstats p) c = Some s" by blast
      let ?cs = "map (\<lambda>(i, q0). if i = c then (i, q) else (i, q0)) (clients p)"
      have cl: "clients (bus_step p e) = ?cs" "queue_size (bus_step p e) = queue_size p"
        "bus_next_id (bus_step p e) = bus_next_id p"
        using q Send by (simp_all add: bus_step_def bus_send_def)
      have "(c, x # q) \<in> set (clients p)" using q(1) by (rule map_of_SomeD)
      then have l: "int (length q) \<le> queue_size p" using wf by (force simp: bus_wf_def bus_ok_def)
      have "\<forall>y \<in> snd ` set ?cs. int (length y) \<le> queue_size p"
        using wf l by (auto simp: bus_wf_def bus_ok_def)
      moreover have "fst ` set ?cs = fst ` set (clients p)" using map_fst_send [of c q "clients p"] by (metis list.set_map)
      moreover have "distinct (map fst ?cs)" using wf by (simp add: bus_wf_def bus_ok_def map_fst_send del: map_map)
      ultimately show ?thesis using wf cl unfolding bus_wf_def bus_ok_def by metis
    qed
  next
    case (Gone c)
    with wf show ?thesis
      by (auto simp: bus_wf_def bus_ok_def bus_step_def bus_gone_def AList.delete_eq distinct_map_filter)
  qed (use wf in \<open>auto simp: bus_wf_def bus_ok_def bus_step_def bus_accept_def bus_named_def bus_close_def less_Suc_eq\<close>)
qed

lemma bus_step_size: "queue_size (bus_step p e) = queue_size p"
  by (auto simp: bus_step_def bus_accept_def bus_named_def bus_gone_def bus_close_def publish_frame bus_send_def
      split: bus_event.split option.split list.split)

text \<open>
  A slow bus subscriber loses only its oldest frames and every loss is counted. Whatever
  happened on the bus before, a subscriber with a name that is then published a run of frames holds,
  behind what it had queued, a suffix of that run, within the queue's bound; the frames missing from
  the front are exactly the increase of its own drop counter, and the newest frame is always kept.
\<close>

theorem bus_loses_oldest:
  assumes "0 < n" "c \<in> fst ` set (clients p)" "c \<in> fst ` set (cstats p)"
    "p = foldl bus_step (new_publisher n) es" "q = foldl publish p ds"
  shows "(\<exists>gone. queue_of c p @ ds = gone @ queue_of c q \<and> lost_of c q = lost_of c p + length gone)
    \<and> int (length (queue_of c q)) \<le> n \<and> (ds \<noteq> [] \<longrightarrow> last (queue_of c q) = last ds)"
proof -
  have "bus_wf (foldl bus_step (new_publisher n) es) \<and> queue_size (foldl bus_step (new_publisher n) es) = n"
  proof (induction es rule: rev_induct)
    case Nil
    then show ?case using assms(1) by (simp add: bus_wf_def bus_ok_def new_publisher_def)
  next
    case (snoc e es)
    then show ?case by (simp add: bus_step_wf bus_step_size)
  qed
  then have s: "served c p" "queue_size p = n" using assms by (simp_all add: served_def bus_wf_def)
  from bus.offers_suffix [OF s(1), of ds] assms(5) obtain gone where g: "served c q"
    "queue_of c p @ ds = gone @ queue_of c q" "lost_of c q = lost_of c p + length gone" "nat (queue_size q) = nat n"
    using s(2) by auto
  moreover have "length (queue_of c q) \<le> nat n" using bus.valid_room [OF g(1)] g(4) by simp
  moreover have "last (queue_of c q) = last ds" if "ds \<noteq> []"
  proof -
    from that obtain ys y where ds: "ds = ys @ [y]" by (cases ds rule: rev_cases) auto
    have "served c (foldl publish p ys)" using bus.offers_suffix [OF s(1), of ys] by blast
    from bus.newest_kept [OF this, of y] ds assms(5) show ?thesis by simp
  qed
  ultimately show ?thesis using assms(1) by auto
qed

theorem bus_loses_oldest_witness:
  "let p = foldl bus_step (new_publisher 2) [Accept, Named 0 [119] 0]; q = foldl publish p [[1], [2], [3]] in
     int (length (queue_of 0 q)) \<le> 2 \<and> last (queue_of 0 q) = [3]"
  using bus_loses_oldest [of 2 0 "foldl bus_step (new_publisher 2) [Accept, Named 0 [119] 0]" "[Accept, Named 0 [119] 0]"
      "foldl publish (foldl bus_step (new_publisher 2) [Accept, Named 0 [119] 0]) [[1], [2], [3]]" "[[1], [2], [3]]"]
  by (simp add: Let_def bus_step_def bus_accept_def bus_named_def new_publisher_def)

subsection \<open>Health of the sources of a consumer\<close>

record source_state =
  src_connected :: bool
  src_frames :: nat
  src_last_at :: seconds
  src_restarts :: nat

record source_tracker =
  stale_after_s :: seconds
  sources :: "(text_u \<times> source_state) list"

definition fresh_source :: source_state where
  "fresh_source = \<lparr>src_connected = False, src_frames = 0, src_last_at = 0, src_restarts = 0\<rparr>"

definition new_source_tracker :: "text_u list \<Rightarrow> seconds \<Rightarrow> source_tracker" where
  "new_source_tracker paths stale =
     \<lparr>stale_after_s = stale, sources = fold (\<lambda>p. AList.update p fresh_source) paths []\<rparr>"

definition src_mark :: "text_u \<Rightarrow> seconds \<Rightarrow> source_tracker \<Rightarrow> source_tracker" where
  "src_mark path now t =
     (let st = (case map_of (sources t) path of None \<Rightarrow> fresh_source | Some s \<Rightarrow> s)
      in t\<lparr>sources := AList.update path (st\<lparr>src_connected := True, src_frames := src_frames st + 1, src_last_at := now\<rparr>)
            (sources t)\<rparr>)"

definition src_died :: "text_u \<Rightarrow> source_tracker \<Rightarrow> source_tracker" where
  "src_died path t =
     (case map_of (sources t) path of None \<Rightarrow> t
      | Some st \<Rightarrow> t\<lparr>sources := AList.update path (st\<lparr>src_connected := False, src_restarts := src_restarts st + 1\<rparr>)
          (sources t)\<rparr>)"

definition basename :: "text_u \<Rightarrow> text_u" where
  "basename p = rev (takeWhile (\<lambda>c. c \<noteq> 47) (rev p))"

text \<open>A source in the report: name, connected, frames, restarts, age in tenths of a second, stale.\<close>

definition src_age :: "seconds \<Rightarrow> source_state \<Rightarrow> seconds option" where
  "src_age now st = (if src_last_at st \<noteq> 0 then Some (now - src_last_at st) else None)"

definition src_stale :: "seconds \<Rightarrow> seconds \<Rightarrow> source_state \<Rightarrow> bool" where
  "src_stale limit now st \<longleftrightarrow> 0 < src_frames st \<and> (case src_age now st of None \<Rightarrow> False | Some a \<Rightarrow> limit < a)"

definition src_degraded :: "seconds \<Rightarrow> seconds \<Rightarrow> source_state \<Rightarrow> bool" where
  "src_degraded limit now st \<longleftrightarrow> src_stale limit now st \<or> \<not> src_connected st"

definition src_report ::
  "seconds \<Rightarrow> source_tracker \<Rightarrow> (text_u \<times> bool \<times> nat \<times> nat \<times> int option \<times> bool) list \<times> text_u list" where
  "src_report now t =
     (map (\<lambda>(p, st). (basename p, src_connected st, src_frames st, src_restarts st,
          map_option (\<lambda>a. py_round (a * 10)) (src_age now st), src_stale (stale_after_s t) now st)) (sources t),
      map (\<lambda>(p, st). basename p) (filter (\<lambda>(p, st). src_degraded (stale_after_s t) now st) (sources t)))"

text \<open>
  \<^verbatim>\<open>consume_forever\<close> over a list of sessions: each delivers frames at given times and ends with an
  exception or with the generator's end. The result is the tracker and the delays waited between them.
\<close>

record session =
  frame_times :: "seconds list"
  crashed :: bool

fun consume_forever :: "text_u \<Rightarrow> seconds \<Rightarrow> session list \<Rightarrow> seconds \<Rightarrow> source_tracker \<Rightarrow> source_tracker \<times> seconds list" where
  "consume_forever path limit [] backoff t = (t, [])"
| "consume_forever path limit (s # ss) backoff t =
     (let t1 = fold (src_mark path) (frame_times s) t;
          b = (if frame_times s = [] then backoff else 1);
          t2 = (if crashed s then src_died path t1 else t1);
          (t3, ds) = consume_forever path limit ss (min (b * 2) limit) t2
      in (t3, b # ds))"

datatype src_event = Mark text_u seconds | Died text_u

definition src_step :: "source_tracker \<Rightarrow> src_event \<Rightarrow> source_tracker" where
  "src_step t e = (case e of Mark p now \<Rightarrow> src_mark p now t | Died p \<Rightarrow> src_died p t)"

fun event_of :: "text_u \<Rightarrow> src_event \<Rightarrow> bool" where
  "event_of p (Mark q now) = (q = p)"
| "event_of p (Died q) = (q = p)"

lemma src_step_other: "\<not> event_of p e \<Longrightarrow> map_of (sources (src_step t e)) p = map_of (sources t) p"
  by (cases e) (auto simp: src_step_def src_mark_def src_died_def update_conv' split: option.split)

lemma src_step_cong: "map_of (sources t) p = map_of (sources u) p \<Longrightarrow> event_of p e \<Longrightarrow>
    map_of (sources (src_step t e)) p = map_of (sources (src_step u e)) p"
  by (cases e) (auto simp: src_step_def src_mark_def src_died_def update_conv' split: option.split)

lemma new_sources: "map_of (sources (new_source_tracker ps s)) p = (if p \<in> set ps then Some fresh_source else None)"
proof -
  have "map_of (fold (\<lambda>p. AList.update p fresh_source) ps d) p = (if p \<in> set ps then Some fresh_source else map_of d p)" for d
    by (induction ps arbitrary: d) (auto simp: update_conv')
  then show ?thesis by (simp add: new_source_tracker_def)
qed

text \<open>
  One source cannot hide the death of another. After any interleaving of frames and deaths over
  several sources, the state of a source is the one its own events alone would give; a registered
  source whose last event is a death, or that has had no event, is in the degraded list whatever
  the other sources do.
\<close>

theorem sources_independent:
  assumes "p \<in> set ps" "mine = filter (event_of p) es" "t = foldl src_step (new_source_tracker ps limit) es"
    "mine = [] \<or> last mine = Died p"
  shows "map_of (sources t) p = map_of (sources (foldl src_step (new_source_tracker ps limit) mine)) p
    \<and> basename p \<in> set (snd (src_report now t))"
proof -
  let ?t0 = "new_source_tracker ps limit"
  have ind: "map_of (sources (foldl src_step ?t0 es)) p = map_of (sources (foldl src_step ?t0 (filter (event_of p) es))) p"
    for es
  proof (induction es rule: rev_induct)
    case (snoc e es)
    then show ?case using src_step_other [of p e] src_step_cong [OF snoc, of e] by (cases "event_of p e") simp_all
  qed simp
  have dom: "p \<in> fst ` set (sources (foldl src_step ?t0 es))" for es
  proof (induction es rule: rev_induct)
    case Nil
    have "map_of (sources ?t0) p \<noteq> None" using assms(1) by (simp add: new_sources)
    then show ?case by (metis foldl_Nil map_of_eq_None_iff)
  next
    case (snoc e es)
    then show ?case
      by (cases e) (auto simp: src_step_def src_mark_def src_died_def dom_update [unfolded dom_map_of_conv_image_fst] Let_def
          split: option.split)
  qed
  have "\<exists>st. map_of (sources t) p = Some st \<and> \<not> src_connected st"
  proof (cases "mine = []")
    case True
    then show ?thesis using ind [of es] assms(1-3) by (simp add: new_sources fresh_source_def)
  next
    case False
    with assms(4) have m: "mine = butlast mine @ [Died p]" by (metis append_butlast_last_id)
    obtain st where st: "map_of (sources (foldl src_step ?t0 (butlast mine))) p = Some st"
      using dom [of "butlast mine"] by (metis map_of_eq_None_iff option.exhaust)
    have "sources (foldl src_step ?t0 mine) = sources (src_step (foldl src_step ?t0 (butlast mine)) (Died p))"
      by (subst m) simp
    then show ?thesis using ind [of es] assms(2,3) st by (simp add: src_step_def src_died_def update_conv')
  qed
  then obtain st where "(p, st) \<in> set (sources t)" "\<not> src_connected st" by (meson map_of_SomeD)
  then have "basename p \<in> set (snd (src_report now t))" by (force simp: src_report_def src_degraded_def)
  with ind [of es] assms(2,3) show ?thesis by simp
qed

theorem sources_independent_witness:
  "basename [47, 97] \<in> set (snd (src_report 9 (foldl src_step (new_source_tracker [[47, 97], [47, 98]] 60)
      [Mark [47, 97] 1, Died [47, 97], Mark [47, 98] 2, Mark [47, 98] 3])))"
  using sources_independent [of "[47, 97]" "[[47, 97], [47, 98]]" "[Mark [47, 97] 1, Died [47, 97]]"
      "[Mark [47, 97] 1, Died [47, 97], Mark [47, 98] 2, Mark [47, 98] 3]" _ 60 9] by simp

end

