(* ===== verification/TcpGateway.thy ===== *)
theory TcpGateway
  imports Protocol Bus
begin

section \<open>The TCP distribution gateway\<close>

text \<open>
  Models \<^verbatim>\<open>src/mdfeed/services/tcp_gateway.py\<close>: a subscriber's delivery state (stream and conflate
  mode), the fan-out of a bus frame, the sender's turn, the snapshot, the subscription request with
  its entitlement check, the connection's life and the health report. The event loop is the list of
  events that happen; what a connection has been sent is its \<open>wire\<close>. Registry counters are the
  field \<open>counters\<close>; sockets, transport buffers and logging are not modelled.
\<close>

definition DROP_LIMIT :: nat where "DROP_LIMIT = 5000"

datatype delivery = Stream | Conflate

datatype item = Raw bytes | Key text_u

record subscriber =
  sub_id :: nat
  sub_queue :: "item list"
  sub_cap :: int
  symbols :: sym_filter
  dropped :: nat
  sent :: nat
  out_seq :: nat
  mode :: delivery
  pending :: "(text_u \<times> nat \<times> bytes \<times> nat) list"
  conflated :: nat
  token :: text_u
  wire :: "bytes list"
  closed :: bool

definition new_subscriber :: "nat \<Rightarrow> int \<Rightarrow> subscriber" where
  "new_subscriber cid cap = \<lparr>sub_id = cid, sub_queue = [], sub_cap = cap, symbols = None, dropped = 0, sent = 0,
     out_seq = 0, mode = Stream, pending = [], conflated = 0, token = [], wire = [], closed = False\<rparr>"

definition wants :: "subscriber \<Rightarrow> text_u \<Rightarrow> bool" where
  "wants s key \<longleftrightarrow> passes (symbols s) key"

record gateway =
  subs :: "subscriber list"
  next_id :: nat
  ent :: entitlements
  entitlement_denied :: nat
  last_payload :: "(text_u \<times> bytes) list"
  last_type :: "(text_u \<times> nat) list"
  frames_in :: nat
  upstream_ok :: bool
  last_frame_at :: seconds
  counters :: "(string \<times> int) list"
  client_queue_size :: int

definition bump :: "string list \<Rightarrow> (string \<times> int) list \<Rightarrow> (string \<times> int) list" where
  "bump names d = fold (\<lambda>n d. AList.update n (dict_get d n + 1) d) names d"

definition new_gateway :: "entitlements \<Rightarrow> int \<Rightarrow> gateway" where
  "new_gateway e cap = \<lparr>subs = [], next_id = 0, ent = e, entitlement_denied = 0, last_payload = [], last_type = [],
     frames_in = 0, upstream_ok = False, last_frame_at = 0,
     counters = map (\<lambda>n. (n, 0)) [''dropped_total'', ''sent_total'', ''frames_in_total'', ''connections_total'',
       ''conflated_total'', ''entitlement_denied_total''],
     client_queue_size = cap\<rparr>"

subsection \<open>Keys\<close>

definition feed_key :: "text_u \<Rightarrow> text_u \<Rightarrow> text_u" where
  "feed_key venue symbol = venue @ [58] @ symbol"

definition key_of :: "frame \<Rightarrow> text_u option" where
  "key_of f =
     (if msg_type f = MSG_TRADE \<and> TRADE_SIZE \<le> length (payload f)
      then Some (feed_key (unfix (unraw (read_at 16 8 (payload f)))) (unfix (unraw (read_at 0 16 (payload f)))))
      else if msg_type f = MSG_BOOK \<and> BOOK_SIZE \<le> length (payload f)
      then Some (feed_key (unfix (unraw (read_at 16 8 (payload f)))) (unfix (unraw (read_at 0 16 (payload f)))))
      else None)"

lemma key_of_trade:
  assumes "msg_type f = MSG_TRADE" "unpack_trade D (payload f) = Inr t"
  shows "key_of f = Some (feed_key (t_venue t) (t_symbol t))"
  using assms by (auto simp: key_of_def unpack_trade_def split: if_splits)

lemma key_of_book:
  assumes "msg_type f = MSG_BOOK" "unpack_book D (payload f) = Inr k"
  shows "key_of f = Some (feed_key (bk_venue k) (bk_symbol k))"
  using assms by (auto simp: key_of_def unpack_book_def msg_defs split: if_splits)

subsection \<open>Fan-out\<close>

text \<open>The second component: the subscriber was cut off and leaves the table.\<close>

definition drop_overflowed :: "subscriber \<Rightarrow> subscriber \<times> bool" where
  "drop_overflowed s =
     (let s1 = s\<lparr>sub_queue := tl (sub_queue s), dropped := dropped s + 1\<rparr>; cut_off = dropped s1 > DROP_LIMIT
      in (s1\<lparr>closed := closed s1 \<or> cut_off\<rparr>, cut_off))"

text \<open>\<^verbatim>\<open>put_nowait\<close> after making room if the queue is full.\<close>

definition enqueue :: "item \<Rightarrow> (subscriber \<Rightarrow> subscriber) \<Rightarrow> subscriber \<Rightarrow> subscriber option \<times> string list" where
  "enqueue x before s =
     (let full = q_full (sub_cap s) (sub_queue s);
          (s1, cut_off) = (if full then drop_overflowed s else (s, False));
          names = (if full then [''dropped_total''] else [])
      in if cut_off then (None, names)
         else let s2 = before s1 in (Some (s2\<lparr>sub_queue := q_put (sub_cap s2) x (sub_queue s2)\<rparr>), names))"

text \<open>One turn of the loop of \<^verbatim>\<open>_fanout\<close>: the subscriber (\<open>None\<close> when cut off), counters, an exception.\<close>

definition fanout_one :: "frame \<Rightarrow> text_u option \<Rightarrow> subscriber \<Rightarrow> subscriber option \<times> string list \<times> proto_error option" where
  "fanout_one f key s =
     (if (case key of None \<Rightarrow> False | Some k \<Rightarrow> \<not> wants s k) then (Some s, [], None)
      else case (mode s, key) of
        (Conflate, Some k) \<Rightarrow>
          if k \<in> fst ` set (pending s)
          then (Some (s\<lparr>pending := AList.update k (msg_type f, payload f, flags f) (pending s), conflated := conflated s + 1\<rparr>),
                [''conflated_total''], None)
          else (case enqueue (Key k) (\<lambda>s1. s1\<lparr>pending := AList.update k (msg_type f, payload f, flags f) (pending s1)\<rparr>) s of
                  (s', names) \<Rightarrow> (s', names, None))
      | _ \<Rightarrow>
          (case encode (msg_type f) (out_seq s) (payload f) (flags f) of
             Inl e \<Rightarrow> (Some s, [], Some e)
           | Inr rw \<Rightarrow> (case enqueue (Raw rw) (\<lambda>s1. s1) (s\<lparr>out_seq := out_seq s + 1\<rparr>) of
                          (s', names) \<Rightarrow> (s', names, None))))"

text \<open>The loop; an exception of \<^verbatim>\<open>encode\<close> leaves the later subscribers as they are.\<close>

fun fanout_all :: "frame \<Rightarrow> text_u option \<Rightarrow> subscriber list \<Rightarrow> subscriber list \<times> string list \<times> proto_error option" where
  "fanout_all f key [] = ([], [], None)"
| "fanout_all f key (s # ss) =
     (case fanout_one f key s of
        (s', names, Some e) \<Rightarrow> (case s' of None \<Rightarrow> ss | Some s1 \<Rightarrow> s1 # ss, names, Some e)
      | (s', names, None) \<Rightarrow>
          (case fanout_all f key ss of
             (ss', names', err) \<Rightarrow> (case s' of None \<Rightarrow> ss' | Some s1 \<Rightarrow> s1 # ss', names @ names', err)))"

definition fanout :: "frame \<Rightarrow> text_u option \<Rightarrow> gateway \<Rightarrow> gateway \<times> proto_error option" where
  "fanout f key g =
     (case fanout_all f key (subs g) of
        (ss, names, err) \<Rightarrow> (g\<lparr>subs := ss, counters := bump names (counters g)\<rparr>, err))"

text \<open>One frame of the bus.\<close>

definition consume_frame :: "seconds \<Rightarrow> frame \<Rightarrow> gateway \<Rightarrow> gateway \<times> proto_error option" where
  "consume_frame now f g =
     (let g1 = g\<lparr>frames_in := frames_in g + 1, last_frame_at := now, upstream_ok := True,
                 counters := bump [''frames_in_total''] (counters g)\<rparr>;
          g2 = (case key_of f of None \<Rightarrow> g1
                | Some k \<Rightarrow> if k = [] then g1
                    else g1\<lparr>last_payload := AList.update k (payload f) (last_payload g1),
                            last_type := AList.update k (msg_type f) (last_type g1)\<rparr>)
      in fanout f (key_of f) g2)"

subsection \<open>The sender\<close>

text \<open>One turn of \<^verbatim>\<open>_send_loop\<close> that gets an item; \<open>None\<close> while the queue is empty.\<close>

definition send_one :: "subscriber \<Rightarrow> (proto_error + subscriber \<times> string list) option" where
  "send_one s =
     (case sub_queue s of [] \<Rightarrow> None
      | x # q \<Rightarrow>
         (let s1 = s\<lparr>sub_queue := q\<rparr> in
          case x of
            Raw rw \<Rightarrow> Some (Inr (s1\<lparr>wire := wire s1 @ [rw], sent := sent s1 + 1\<rparr>, [''sent_total'']))
          | Key k \<Rightarrow>
              (case map_of (pending s1) k of
                 None \<Rightarrow> Some (Inr (s1, []))
               | Some (mt, pl, fl) \<Rightarrow>
                   let s2 = s1\<lparr>pending := AList.delete k (pending s1)\<rparr> in
                   (case encode mt (out_seq s2) pl fl of
                      Inl e \<Rightarrow> Some (Inl e)
                    | Inr rw \<Rightarrow> Some (Inr (s2\<lparr>out_seq := out_seq s2 + 1, wire := wire s2 @ [rw], sent := sent s2 + 1\<rparr>,
                        [''sent_total'']))))))"

subsection \<open>Snapshot and subscription\<close>

definition send_snapshot :: "int \<Rightarrow> gateway \<Rightarrow> subscriber \<Rightarrow> proto_error + subscriber" where
  "send_snapshot now_ns g s =
     (let ks = filter (\<lambda>(k, _). wants s k) (last_payload g);
          frame_for = (\<lambda>(k, pl). encode (case map_of (last_type g) k of None \<Rightarrow> MSG_TRADE | Some t \<Rightarrow> t) 0 pl FLAG_SNAPSHOT);
          meta = dumps (JObj [(asc ''snapshot_count'', JNum (int (length ks))), (asc ''ts_ns'', JNum now_ns),
                              (asc ''next_seq'', JNum (int (out_seq s)))]);
          out = map frame_for ks @ [encode MSG_SNAPSHOT 0 meta FLAG_SNAPSHOT]
      in case find isl out of
           Some (Inl e) \<Rightarrow> Inl e
         | _ \<Rightarrow> Inr (s\<lparr>wire := wire s @ map projr out\<rparr>))"

text \<open>
  The elements \<^verbatim>\<open>list(syms)\<close> yields for a value that counts as true, or the \<^verbatim>\<open>TypeError\<close> of a
  number or \<^verbatim>\<open>True\<close>.
\<close>

definition requested_list :: "json \<Rightarrow> py_error + json list" where
  "requested_list j =
     (if \<not> truthy j then Inr []
      else case j of JStr s \<Rightarrow> Inr (map (\<lambda>c. JStr [c]) s) | JArr xs \<Rightarrow> Inr xs
        | JObj kvs \<Rightarrow> Inr (map JStr (remdups (map fst kvs))) | _ \<Rightarrow> Inl TypeError)"

definition ascii_lower :: "text_u \<Rightarrow> text_u" where
  "ascii_lower s = map (\<lambda>c. if 65 \<le> c \<and> c \<le> 90 then c + 32 else c) s"

definition mode_text :: "delivery \<Rightarrow> text_u" where
  "mode_text m = (case m of Stream \<Rightarrow> asc ''stream'' | Conflate \<Rightarrow> asc ''conflate'')"

definition parse_mode :: "text_u \<Rightarrow> delivery option" where
  "parse_mode s = (if ascii_lower s = asc ''stream'' then Some Stream
     else if ascii_lower s = asc ''conflate'' then Some Conflate else None)"

text \<open>The refusal is written to the client (errors of that write are suppressed).\<close>

definition write_refusal :: "string \<Rightarrow> json list \<Rightarrow> text_u list \<Rightarrow> subscriber \<Rightarrow> subscriber" where
  "write_refusal why denied granted s =
     (if why = '''' then s
      else case encode MSG_ACK 0 (dumps (JObj [(asc ''type'', JStr (asc ''entitlement'')),
             (asc ''error'', JStr (asc why)), (asc ''denied'', JArr denied),
             (asc ''granted'', JArr (map JStr (sort granted)))])) 0 of
        Inl _ \<Rightarrow> s | Inr a \<Rightarrow> s\<lparr>wire := wire s @ [a]\<rparr>)"

text \<open>Changing the mode empties the queue.\<close>

definition set_mode :: "delivery option \<Rightarrow> subscriber \<Rightarrow> subscriber" where
  "set_mode m s =
     (case m of None \<Rightarrow> s
      | Some md \<Rightarrow> if md = mode s then s else s\<lparr>sub_queue := [], pending := [], mode := md\<rparr>)"

definition granted_names :: "sym_filter \<Rightarrow> json list \<Rightarrow> text_u list" where
  "granted_names G syms =
     (case G of None \<Rightarrow> []
      | Some S \<Rightarrow> concat (map (\<lambda>j. case j of JStr x \<Rightarrow> [x] | _ \<Rightarrow> []) (remdups (filter (\<lambda>j. j \<in> S) syms))))"

text \<open>\<^verbatim>\<open>_apply_subscribe\<close>; \<open>Inl\<close> is an exception that ends the connection's handler.\<close>

definition apply_subscribe ::
  "(json \<Rightarrow> text_u) \<Rightarrow> entitlements \<Rightarrow> loaded \<Rightarrow> subscriber \<Rightarrow> py_error + (subscriber \<times> bool)" where
  "apply_subscribe repr e req s =
     (case req of
        DecodeError \<Rightarrow> Inr (s, False)
      | UnicodeError \<Rightarrow> Inl ValueError
      | Loaded (JObj kvs) \<Rightarrow>
          (let t = obj_get kvs (asc ''token'') (JStr []);
               tok = (if truthy t then py_str repr t else []) in
           case requested_list (obj_get kvs (asc ''symbols'') JNull) of
             Inl er \<Rightarrow> Inl er
           | Inr syms \<Rightarrow>
               (case resolve e tok syms of
                  Inl er \<Rightarrow> Inl er
                | Inr (granted, denied, why) \<Rightarrow>
                    (let m = parse_mode (py_str repr (obj_get kvs (asc ''mode'') (JStr (mode_text (mode s)))))
                     in Inr (set_mode m (write_refusal why denied (granted_names granted syms)
                               (s\<lparr>token := tok, symbols := granted\<rparr>)), why \<noteq> ''''))))
      | Loaded _ \<Rightarrow> Inl TypeError)"

subsection \<open>The life of the gateway\<close>

datatype gw_event =
    Connect int
  | BusFrame seconds frame
  | SendTurn nat
  | Subscribe nat loaded
  | Disconnect nat

definition accept_client :: "int \<Rightarrow> gateway \<Rightarrow> gateway" where
  "accept_client now_ns g =
     (let s0 = new_subscriber (next_id g) (client_queue_size g);
          s = (if enabled (ent g) then s0\<lparr>symbols := Some {}\<rparr> else s0);
          g1 = g\<lparr>next_id := next_id g + 1, counters := bump [''connections_total''] (counters g)\<rparr>
      in case send_snapshot now_ns g1 s of
           Inl _ \<Rightarrow> g1
         | Inr s' \<Rightarrow> g1\<lparr>subs := subs g1 @ [s']\<rparr>)"

definition disconnect :: "nat \<Rightarrow> gateway \<Rightarrow> gateway" where
  "disconnect c g = g\<lparr>subs := filter (\<lambda>s. sub_id s \<noteq> c) (subs g)\<rparr>"

definition update_sub :: "nat \<Rightarrow> (subscriber \<Rightarrow> subscriber) \<Rightarrow> gateway \<Rightarrow> gateway" where
  "update_sub c h g = g\<lparr>subs := map (\<lambda>s. if sub_id s = c then h s else s) (subs g)\<rparr>"

definition gw_step :: "(json \<Rightarrow> text_u) \<Rightarrow> gateway \<Rightarrow> gw_event \<Rightarrow> gateway" where
  "gw_step repr g ev =
     (case ev of
        Connect now \<Rightarrow> accept_client now g
      | BusFrame now f \<Rightarrow> fst (consume_frame now f g)
      | SendTurn c \<Rightarrow>
          (case find (\<lambda>s. sub_id s = c) (subs g) of
             None \<Rightarrow> g
           | Some s \<Rightarrow>
               (case send_one s of
                  Some (Inr (s', names)) \<Rightarrow> (update_sub c (\<lambda>_. s') g)\<lparr>counters := bump names (counters g)\<rparr>
                | _ \<Rightarrow> g))
      | Subscribe c req \<Rightarrow>
          (case find (\<lambda>s. sub_id s = c) (subs g) of
             None \<Rightarrow> g
           | Some s \<Rightarrow>
               (case apply_subscribe repr (ent g) req s of
                  Inl _ \<Rightarrow> disconnect c g
                | Inr (s', denied) \<Rightarrow>
                    if denied then (update_sub c (\<lambda>_. s') g)\<lparr>entitlement_denied := entitlement_denied g + 1,
                         counters := bump [''entitlement_denied_total''] (counters g)\<rparr>
                    else update_sub c (\<lambda>_. s') g))
      | Disconnect c \<Rightarrow> disconnect c g)"

definition run_gateway :: "(json \<Rightarrow> text_u) \<Rightarrow> gateway \<Rightarrow> gw_event list \<Rightarrow> gateway" where
  "run_gateway repr g evs = foldl (gw_step repr) g evs"

subsection \<open>Health\<close>

definition healthy :: "seconds \<Rightarrow> gateway \<Rightarrow> bool" where
  "healthy now g \<longleftrightarrow> upstream_ok g \<and> (last_frame_at g = 0 \<or> now - last_frame_at g < 30)"

definition total_dropped :: "gateway \<Rightarrow> nat" where
  "total_dropped g = sum_list (map dropped (subs g))"

definition max_backlog :: "gateway \<Rightarrow> nat" where
  "max_backlog g = fold max (map (\<lambda>s. length (sub_queue s)) (subs g)) 0"


subsection \<open>Nothing a subscriber may not see reaches its queue or its wire\<close>

text \<open>\<open>P\<close> is the set of keys some token the subscriber has presented may see.\<close>

definition ok_bytes :: "(text_u \<Rightarrow> bool) \<Rightarrow> bytes \<Rightarrow> bool" where
  "ok_bytes P b \<longleftrightarrow> (\<exists>f. b = frame_bytes f \<and> (\<forall>k. key_of f = Some k \<longrightarrow> P k))"

definition ok_entry :: "(text_u \<Rightarrow> bool) \<Rightarrow> text_u \<times> nat \<times> bytes \<times> nat \<Rightarrow> bool" where
  "ok_entry P e \<longleftrightarrow> (case e of (k, mt, pl, fl) \<Rightarrow>
     P k \<and> (\<forall>sq. key_of \<lparr>msg_type = mt, seq = sq, flags = fl, payload = pl\<rparr> = Some k))"

definition ok_sub :: "(text_u \<Rightarrow> bool) \<Rightarrow> subscriber \<Rightarrow> bool" where
  "ok_sub P s \<longleftrightarrow> (\<forall>k. wants s k \<longrightarrow> P k) \<and> (\<forall>b. Raw b \<in> set (sub_queue s) \<longrightarrow> ok_bytes P b)
     \<and> (\<forall>b \<in> set (wire s). ok_bytes P b) \<and> (\<forall>e \<in> set (pending s). ok_entry P e)"

lemma ok_sub_mono:
  assumes "ok_sub P s" "\<And>k. P k \<Longrightarrow> Q k"
  shows "ok_sub Q s"
proof -
  have "ok_bytes Q b" if "ok_bytes P b" for b using that assms(2) unfolding ok_bytes_def by blast
  moreover have "ok_entry Q e" if "ok_entry P e" for e using that assms(2) by (auto simp: ok_entry_def)
  ultimately show ?thesis using assms unfolding ok_sub_def by blast
qed

lemma in_update: "x \<in> set (AList.update k v d) \<Longrightarrow> x = (k, v) \<or> x \<in> set d"
  by (induction d) (auto split: if_splits)

lemma key_of_seq: "key_of \<lparr>msg_type = msg_type f, seq = sq, flags = flags f, payload = payload f\<rparr> = key_of f"
  by (simp add: key_of_def)

lemma encode_InrD: "encode mt sq pl fl = Inr b \<Longrightarrow>
    b = frame_bytes \<lparr>msg_type = mt, seq = sq, flags = fl, payload = pl\<rparr>
    \<and> frame_ok \<lparr>msg_type = mt, seq = sq, flags = fl, payload = pl\<rparr>"
  by (simp add: encode_def frame_ok_def not_le split: if_splits)

lemma enqueue_Some:
  assumes "enqueue x before s = (Some s', names)"
  obtains s1 where "s1 = s \<and> \<not> q_full (sub_cap s) (sub_queue s) \<or> s1 = fst (drop_overflowed s) \<and> q_full (sub_cap s) (sub_queue s)"
    "s' = (before s1)\<lparr>sub_queue := q_put (sub_cap (before s1)) x (sub_queue (before s1))\<rparr>"
proof (cases "q_full (sub_cap s) (sub_queue s)")
  case True
  with assms show ?thesis
    by (intro that [of "fst (drop_overflowed s)"]) (auto simp: enqueue_def Let_def split: if_splits prod.splits)
next
  case False
  with assms show ?thesis by (intro that [of s]) (simp_all add: enqueue_def Let_def)
qed

lemma set_q_put: "set (q_put cap x q) \<subseteq> insert x (set q)"
  by (auto simp: q_put_def)

lemma set_tl_subset: "x \<in> set (tl xs) \<Longrightarrow> x \<in> set xs"
  by (cases xs) auto

lemma ok_sub_drop: "ok_sub P s \<Longrightarrow> ok_sub P (fst (drop_overflowed s))"
  by (auto simp: ok_sub_def drop_overflowed_def Let_def wants_def dest: set_tl_subset)

lemma ok_sub_enqueue:
  assumes "enqueue x before s = (Some s', names)" "ok_sub P s" "\<And>t. ok_sub P t \<Longrightarrow> ok_sub P (before t)"
    "\<And>b. x = Raw b \<Longrightarrow> ok_bytes P b"
  shows "ok_sub P s'"
  using assms(1)
proof (rule enqueue_Some)
  fix s1
  assume s1: "s1 = s \<and> \<not> q_full (sub_cap s) (sub_queue s) \<or> s1 = fst (drop_overflowed s) \<and> q_full (sub_cap s) (sub_queue s)"
    "s' = (before s1)\<lparr>sub_queue := q_put (sub_cap (before s1)) x (sub_queue (before s1))\<rparr>"
  then have "ok_sub P (before s1)" using assms(2,3) ok_sub_drop by blast
  then show ?thesis using s1(2) assms(4) set_q_put [of "sub_cap (before s1)" x "sub_queue (before s1)"]
    by (auto simp: ok_sub_def wants_def)
qed

lemma fanout_one_cases:
  assumes "fanout_one f key s = (r, names, err)"
  obtains (skip) "r = Some s" "names = []"
  | (merge) k where "key = Some k" "wants s k" "mode s = Conflate" "k \<in> fst ` set (pending s)" "err = None"
      "r = Some (s\<lparr>pending := AList.update k (msg_type f, payload f, flags f) (pending s), conflated := conflated s + 1\<rparr>)"
  | (by_key) k where "key = Some k" "wants s k" "mode s = Conflate" "k \<notin> fst ` set (pending s)" "err = None"
      "enqueue (Key k) (\<lambda>s1. s1\<lparr>pending := AList.update k (msg_type f, payload f, flags f) (pending s1)\<rparr>) s = (r, names)"
  | (by_frame) rw where "mode s = Stream \<or> key = None" "\<forall>k. key = Some k \<longrightarrow> wants s k" "err = None"
      "encode (msg_type f) (out_seq s) (payload f) (flags f) = Inr rw"
      "enqueue (Raw rw) (\<lambda>s1. s1) (s\<lparr>out_seq := out_seq s + 1\<rparr>) = (r, names)"
  using assms
  by (cases key; cases "mode s")
    (auto simp: fanout_one_def split: if_splits sum.splits prod.splits)

lemma ok_sub_fanout_one:
  assumes "ok_sub P s" "fanout_one f (key_of f) s = (Some s', names, err)"
  shows "ok_sub P s'"
  using assms(2)
proof (cases rule: fanout_one_cases)
  case skip
  then show ?thesis using assms(1) by simp
next
  case (merge k)
  then show ?thesis using assms(1) key_of_seq [of f]
    by (auto simp: ok_sub_def wants_def ok_entry_def dest!: in_update)
next
  case (by_key k)
  have P: "P k" using assms(1) by_key(2) by (simp add: ok_sub_def)
  show ?thesis
    by (rule ok_sub_enqueue [OF by_key(6) assms(1)])
      (use by_key(1) key_of_seq [of f] P in \<open>auto simp: ok_sub_def wants_def ok_entry_def dest!: in_update\<close>)
next
  case (by_frame rw)
  have "ok_bytes P rw" using encode_InrD [OF by_frame(4)] key_of_seq [of f] by_frame(2) assms(1)
    by (auto simp: ok_bytes_def ok_sub_def intro!: exI [of _ "\<lparr>msg_type = msg_type f, seq = out_seq s, flags = flags f, payload = payload f\<rparr>"])
  moreover have "ok_sub P (s\<lparr>out_seq := out_seq s + 1\<rparr>)" using assms(1) by (simp add: ok_sub_def wants_def)
  ultimately show ?thesis using ok_sub_enqueue [OF by_frame(5)] by blast
qed

lemma ok_sub_send_one:
  assumes "ok_sub P s" "send_one s = Some (Inr (s', names))"
  shows "ok_sub P s'"
proof -
  obtain x q where q: "sub_queue s = x # q" using assms(2) by (cases "sub_queue s") (simp_all add: send_one_def)
  show ?thesis
  proof (cases x)
    case (Raw rw)
    with q assms show ?thesis by (auto simp: send_one_def ok_sub_def wants_def)
  next
    case (Key k)
    show ?thesis
    proof (cases "map_of (pending s) k")
      case None
      with q Key assms show ?thesis by (auto simp: send_one_def ok_sub_def wants_def Let_def)
    next
      case (Some v)
      obtain mt pl fl where v: "v = (mt, pl, fl)" by (cases v)
      from Some v have "ok_entry P (k, mt, pl, fl)" using assms(1) by (auto simp: ok_sub_def dest: map_of_SomeD)
      then have "ok_bytes P b" if "encode mt n pl fl = Inr b" for n b
        using encode_InrD [OF that] by (auto simp: ok_bytes_def ok_entry_def)
      with q Key Some v assms show ?thesis
        by (auto simp: send_one_def ok_sub_def wants_def Let_def AList.delete_eq split: sum.splits)
    qed
  qed
qed

lemma key_of_control: "msg_type f \<in> {MSG_SNAPSHOT, MSG_ACK} \<Longrightarrow> key_of f = None"
  by (auto simp: key_of_def msg_defs)

lemma ok_control:
  assumes "encode mt 0 pl fl = Inr b" "mt \<in> {MSG_SNAPSHOT, MSG_ACK}"
  shows "ok_bytes P b"
  unfolding ok_bytes_def using encode_InrD [OF assms(1)] key_of_control assms(2)
  by (intro exI [of _ "\<lparr>msg_type = mt, seq = 0, flags = fl, payload = pl\<rparr>"]) simp

text \<open>The token a subscription request carries, when it is a document the handler reads one from.\<close>

fun token_in :: "(json \<Rightarrow> text_u) \<Rightarrow> loaded \<Rightarrow> text_u option" where
  "token_in repr (Loaded (JObj kvs)) =
     Some (let t = obj_get kvs (asc ''token'') (JStr []) in if truthy t then py_str repr t else [])"
| "token_in repr _ = None"

lemma apply_subscribe_cases:
  assumes "apply_subscribe repr e req s = Inr (s', den)"
  obtains (unreadable) "req = DecodeError" "s' = s"
  | (applied) t G syms denied why where "token_in repr req = Some t" "resolve e t syms = Inr (G, denied, why)"
      "symbols s' = G" "token s' = t" "out_seq s' = out_seq s"
      "sub_queue s' = sub_queue s \<and> pending s' = pending s \<and> mode s' = mode s \<or> sub_queue s' = [] \<and> pending s' = []"
      "wire s' = wire s \<or> (\<exists>a pl. encode MSG_ACK 0 pl 0 = Inr a \<and> wire s' = wire s @ [a])" "sub_id s' = sub_id s"
proof (cases "(repr, req)" rule: token_in.cases)
  case (1 rp kvs)
  then have req: "req = Loaded (JObj kvs)" by simp
  obtain t where t: "token_in repr req = Some t" using req by simp
  obtain syms where sy: "requested_list (obj_get kvs (asc ''symbols'') JNull) = Inr syms"
    using assms req by (cases "requested_list (obj_get kvs (asc ''symbols'') JNull)") (simp_all add: apply_subscribe_def Let_def)
  have t': "(let t = obj_get kvs (asc ''token'') (JStr []) in if truthy t then py_str repr t else []) = t"
    using t req by simp
  obtain G denied why where r1: "resolve e t syms = Inr (G, denied, why)"
    using assms req sy t' by (cases "resolve e t syms") (auto simp: apply_subscribe_def Let_def)
  define m where "m = parse_mode (py_str repr (obj_get kvs (asc ''mode'') (JStr (mode_text (mode s)))))"
  have "s' = set_mode m (write_refusal why denied (granted_names G syms) (s\<lparr>token := t, symbols := G\<rparr>))"
    using assms req sy t' r1 by (simp add: apply_subscribe_def Let_def m_def)
  note r = r1 this
  define s1 where "s1 = write_refusal why denied (granted_names G syms) (s\<lparr>token := t, symbols := G\<rparr>)"
  have w: "symbols s1 = G" "token s1 = t" "out_seq s1 = out_seq s" "sub_queue s1 = sub_queue s" "pending s1 = pending s"
    "mode s1 = mode s" "sub_id s1 = sub_id s"
    "wire s1 = wire s \<or> (\<exists>a pl. encode MSG_ACK 0 pl 0 = Inr a \<and> wire s1 = wire s @ [a])"
    by (auto simp: s1_def write_refusal_def split: sum.splits)
  show ?thesis
    by (rule applied [OF t r(1)]) (use r(2) w in \<open>auto simp: set_mode_def s1_def [symmetric] split: option.splits\<close>)
qed (use assms unreadable in \<open>simp_all add: apply_subscribe_def\<close>)

lemma ok_sub_subscribe:
  assumes "ok_sub P s" "apply_subscribe repr e req s = Inr (s', den)"
    "\<And>t k. token_in repr req = Some t \<Longrightarrow> may_see e t k \<Longrightarrow> P k"
  shows "ok_sub P s'"
  using assms(2)
proof (cases rule: apply_subscribe_cases)
  case unreadable
  with assms(1) show ?thesis by simp
next
  case (applied t G syms denied why)
  have "P k" if "wants s' k" for k
    using that applied(3) assms(3) [OF applied(1)] resolve_sound [OF applied(2), of k] by (simp add: wants_def)
  moreover have "\<forall>b \<in> set (wire s'). ok_bytes P b"
    using applied(7) assms(1) ok_control [of MSG_ACK] by (auto simp: ok_sub_def)
  ultimately show ?thesis using applied(6) assms(1) by (auto simp: ok_sub_def)
qed


text \<open>The tokens a connection has presented, and what they may see.\<close>

definition presented :: "(json \<Rightarrow> text_u) \<Rightarrow> gw_event list \<Rightarrow> nat \<Rightarrow> text_u \<Rightarrow> bool" where
  "presented repr evs c tok \<longleftrightarrow> (\<exists>req. Subscribe c req \<in> set evs \<and> token_in repr req = Some tok)"

definition visible :: "(json \<Rightarrow> text_u) \<Rightarrow> entitlements \<Rightarrow> gw_event list \<Rightarrow> nat \<Rightarrow> text_u \<Rightarrow> bool" where
  "visible repr e evs c k \<longleftrightarrow> (\<exists>tok. presented repr evs c tok \<and> may_see e tok k)"

lemma visible_mono: "visible repr e evs c k \<Longrightarrow> visible repr e (evs @ [ev]) c k"
  by (auto simp: visible_def presented_def)

lemma sub_id_frame: "enqueue x before s = (Some s', names) \<Longrightarrow> (\<And>t. sub_id (before t) = sub_id t) \<Longrightarrow> sub_id s' = sub_id s"
  by (erule enqueue_Some) (auto simp: drop_overflowed_def Let_def)

lemma fanout_one_id: "fanout_one f key s = (Some s', names, err) \<Longrightarrow> sub_id s' = sub_id s"
  by (erule fanout_one_cases) (auto dest: sub_id_frame)

lemma send_one_id: "send_one s = Some (Inr (s', names)) \<Longrightarrow> sub_id s' = sub_id s"
  by (auto simp: send_one_def Let_def split: list.splits item.splits option.splits sum.splits)

lemma subscribe_id: "apply_subscribe repr e req s = Inr (s', den) \<Longrightarrow> sub_id s' = sub_id s"
  by (erule apply_subscribe_cases) auto

lemma fanout_all_members:
  "s' \<in> set (fst (fanout_all f key ss)) \<Longrightarrow> s' \<in> set ss \<or> (\<exists>s \<in> set ss. \<exists>names err. fanout_one f key s = (Some s', names, err))"
proof (induction f key ss rule: fanout_all.induct)
  case (2 f key s ss)
  then show ?case by (cases "fanout_one f key s") (auto split: option.splits prod.splits)
qed simp

text \<open>Every member of the next state comes from one of the state before by an operation of its own.\<close>

definition sub_move :: "(json \<Rightarrow> text_u) \<Rightarrow> entitlements \<Rightarrow> gw_event \<Rightarrow> subscriber \<Rightarrow> subscriber \<Rightarrow> bool" where
  "sub_move repr e ev s s' \<longleftrightarrow> s' = s
     \<or> (\<exists>now f names err. ev = BusFrame now f \<and> fanout_one f (key_of f) s = (Some s', names, err))
     \<or> (\<exists>names. send_one s = Some (Inr (s', names)))
     \<or> (\<exists>req den. ev = Subscribe (sub_id s) req \<and> apply_subscribe repr e req s = Inr (s', den))"

lemma members_update_sub:
  "s' \<in> set (subs (update_sub c (\<lambda>_. t) g)) \<Longrightarrow> s' \<in> set (subs g) \<or> s' = t"
  by (auto simp: update_sub_def)

lemma find_sub_id: "find (\<lambda>s. sub_id s = c) ss = Some s \<Longrightarrow> s \<in> set ss \<and> sub_id s = c"
  by (rule find_SomeD)

lemma subs_fanout: "subs (fst (fanout f key g)) = fst (fanout_all f key (subs g))"
  by (simp add: fanout_def split: prod.split)

lemma gw_step_members:
  assumes "s' \<in> set (subs (gw_step repr g ev))"
  shows "(\<exists>s \<in> set (subs g). sub_move repr (ent g) ev s s')
    \<or> (\<exists>now. ev = Connect now \<and> s' \<in> set (subs (accept_client now g)))"
proof (cases ev)
  case (Connect now)
  with assms show ?thesis by (simp add: gw_step_def)
next
  case (BusFrame now f)
  have "subs (gw_step repr g ev) = fst (fanout_all f (key_of f) (subs g))"
    by (simp add: BusFrame gw_step_def consume_frame_def Let_def subs_fanout split: option.split)
  with assms fanout_all_members [of s' f "key_of f" "subs g"] BusFrame show ?thesis
    unfolding sub_move_def by auto
next
  case (SendTurn c)
  show ?thesis
  proof (cases "\<exists>s t names. find (\<lambda>s. sub_id s = c) (subs g) = Some s \<and> send_one s = Some (Inr (t, names))")
    case True
    then obtain s t names where st: "find (\<lambda>s. sub_id s = c) (subs g) = Some s" "send_one s = Some (Inr (t, names))" by blast
    then have "subs (gw_step repr g ev) = subs (update_sub c (\<lambda>_. t) g)" by (simp add: SendTurn gw_step_def)
    with assms members_update_sub [of s' c t g] st find_sub_id [OF st(1)] show ?thesis unfolding sub_move_def by metis
  next
    case False
    then have "gw_step repr g ev = g" by (auto simp: SendTurn gw_step_def split: option.split sum.split)
    with assms show ?thesis unfolding sub_move_def by auto
  qed
next
  case (Subscribe c req)
  show ?thesis
  proof (cases "\<exists>s t den. find (\<lambda>s. sub_id s = c) (subs g) = Some s \<and> apply_subscribe repr (ent g) req s = Inr (t, den)")
    case True
    then obtain s t den where st: "find (\<lambda>s. sub_id s = c) (subs g) = Some s"
      "apply_subscribe repr (ent g) req s = Inr (t, den)" by blast
    then have "subs (gw_step repr g ev) = subs (update_sub c (\<lambda>_. t) g)" by (simp add: Subscribe gw_step_def)
    with assms members_update_sub [of s' c t g] st find_sub_id [OF st(1)] Subscribe show ?thesis
      unfolding sub_move_def by metis
  next
    case False
    then have "subs (gw_step repr g ev) \<in> {subs g, subs (disconnect c g)}"
      by (auto simp: Subscribe gw_step_def split: option.split sum.split)
    with assms show ?thesis by (auto simp: disconnect_def sub_move_def)
  qed
next
  case (Disconnect c)
  with assms show ?thesis by (auto simp: gw_step_def disconnect_def sub_move_def)
qed

lemma sub_move_id: "sub_move repr e ev s s' \<Longrightarrow> sub_id s' = sub_id s"
  unfolding sub_move_def using fanout_one_id send_one_id subscribe_id by metis

lemma ent_step [simp]: "ent (gw_step repr g ev) = ent g"
proof -
  have "ent (fst (fanout f key h)) = ent h" for f key h by (simp add: fanout_def split: prod.split)
  then show ?thesis
    by (auto simp: gw_step_def accept_client_def consume_frame_def Let_def update_sub_def disconnect_def
        split: gw_event.split option.split sum.split)
qed

text \<open>A new connection of an entitled gateway gets the end-of-snapshot message and no key.\<close>

lemma accept_ok:
  assumes "enabled (ent g)" "s' \<in> set (subs (accept_client now g))" "s' \<notin> set (subs g)"
  shows "ok_sub P s'"
proof -
  let ?s = "(new_subscriber (next_id g) (client_queue_size g))\<lparr>symbols := Some {}\<rparr>"
  have no: "filter (\<lambda>(k, _). wants ?s k) (last_payload g) = []" by (auto simp: wants_def passes_def filter_empty_conv)
  define pl where "pl = dumps (JObj [(asc ''snapshot_count'', JNum 0), (asc ''ts_ns'', JNum now), (asc ''next_seq'', JNum 0)])"
  have snap: "send_snapshot now g1 ?s
      = (case encode MSG_SNAPSHOT 0 pl FLAG_SNAPSHOT of Inl e \<Rightarrow> Inl e | Inr b \<Rightarrow> Inr (?s\<lparr>wire := [b]\<rparr>))"
    if "last_payload g1 = last_payload g" for g1
    using no that by (simp add: send_snapshot_def Let_def pl_def new_subscriber_def split: sum.split)
  obtain b where "encode MSG_SNAPSHOT 0 pl FLAG_SNAPSHOT = Inr b" "s' = ?s\<lparr>wire := [b]\<rparr>"
    using assms by (auto simp: accept_client_def Let_def snap split: sum.splits)
  with ok_control [of MSG_SNAPSHOT] show ?thesis by (auto simp: ok_sub_def wants_def passes_def new_subscriber_def)
qed


text \<open>
  C34: with entitlements on, no key leaks. Whatever connects, subscribes, is published and sent, in
  any order, every frame written to a connection or waiting for it carries either no key or a key
  that some token this very connection has presented may see; before it has presented one, no
  keyed frame reaches it.
\<close>

theorem no_key_leaks:
  assumes "enabled e" "s \<in> set (subs (run_gateway repr (new_gateway e cap) evs))"
    "b \<in> set (wire s) \<or> Raw b \<in> set (sub_queue s)"
  shows "\<exists>f. b = frame_bytes f \<and> (\<forall>k. key_of f = Some k \<longrightarrow>
    (\<exists>req tok. Subscribe (sub_id s) req \<in> set evs \<and> token_in repr req = Some tok \<and> may_see e tok k))"
proof -
  have "ent (run_gateway repr (new_gateway e cap) evs) = e
    \<and> (\<forall>s \<in> set (subs (run_gateway repr (new_gateway e cap) evs)). ok_sub (visible repr e evs (sub_id s)) s)"
  proof (induction evs rule: rev_induct)
    case Nil
    then show ?case by (simp add: run_gateway_def new_gateway_def)
  next
    case (snoc ev evs)
    let ?g = "run_gateway repr (new_gateway e cap) evs"
    have run: "run_gateway repr (new_gateway e cap) (evs @ [ev]) = gw_step repr ?g ev" by (simp add: run_gateway_def)
    have "ok_sub (visible repr e (evs @ [ev]) (sub_id s')) s'" if s': "s' \<in> set (subs (gw_step repr ?g ev))" for s'
    proof -
      have old: "ok_sub (visible repr e (evs @ [ev]) (sub_id s)) s" if "s \<in> set (subs ?g)" for s
        by (rule ok_sub_mono [of "visible repr e evs (sub_id s)"]) (use snoc.IH that visible_mono in auto)
      from gw_step_members [OF s'] show ?thesis
      proof (elim disjE bexE exE conjE)
        fix now
        assume "s' \<in> set (subs (accept_client now ?g))"
        with snoc.IH assms(1) old accept_ok show ?thesis by metis
      next
        fix s
        assume s: "s \<in> set (subs ?g)" "sub_move repr (ent ?g) ev s s'"
        have id: "sub_id s' = sub_id s" using sub_move_id [OF s(2)] .
        have new: "visible repr e (evs @ [ev]) (sub_id s) k"
          if "ev = Subscribe (sub_id s) req" "token_in repr req = Some t" "may_see e t k" for req t k
          using that unfolding visible_def presented_def by auto
        from s(2) old [OF s(1)] snoc.IH new show ?thesis
          unfolding id sub_move_def by (auto intro: ok_sub_fanout_one ok_sub_send_one ok_sub_subscribe)
      qed
    qed
    with run snoc.IH show ?case by simp
  qed
  with assms have "ok_sub (visible repr e evs (sub_id s)) s" by blast
  then have "ok_bytes (visible repr e evs (sub_id s)) b" using assms(3) by (auto simp: ok_sub_def)
  then show ?thesis unfolding ok_bytes_def visible_def presented_def by blast
qed


definition sample_entitlements :: entitlements where
  "sample_entitlements = \<lparr>by_token = [([116], {[58]})], enabled = True, ent_source = []\<rparr>"

definition sample_frame :: frame where
  "sample_frame = \<lparr>msg_type = MSG_TRADE, seq = 9, flags = 0, payload = replicate 64 0\<rparr>"

definition sample_events :: "gw_event list" where
  "sample_events = [Connect 0, Subscribe 0 (Loaded (JObj [(asc ''token'', JStr [116])])), BusFrame 1 sample_frame]"

lemma sample_key: "key_of sample_frame = Some [58]"
proof -
  have "unfix (unraw (read_at n k (replicate 64 0))) = []" for n k
  proof -
    have "dropWhile (\<lambda>x. x = 0) (replicate m (0::nat)) = []" for m by (induction m) simp_all
    then show ?thesis by (simp add: unfix_def unraw_def rstrip0_def read_at_def)
  qed
  then show ?thesis by (simp add: key_of_def sample_frame_def TRADE_SIZE_def feed_key_def)
qed

lemma sample_accept: "subs (accept_client 0 (new_gateway sample_entitlements 4))
   = [(new_subscriber 0 4)\<lparr>symbols := Some {}, wire := wire (hd (subs (accept_client 0 (new_gateway sample_entitlements 4))))\<rparr>]"
proof -
  have "\<exists>b. encode MSG_SNAPSHOT 0 (dumps (JObj [(asc ''snapshot_count'', JNum 0), (asc ''ts_ns'', JNum 0), (asc ''next_seq'', JNum 0)])) FLAG_SNAPSHOT = Inr b"
    by (simp add: encode_def MAX_PAYLOAD_def msg_defs FLAG_SNAPSHOT_def dumps_def asc_def quote_text_def escape_char_def int_text_def digits.simps)
  then show ?thesis
    by (auto simp: accept_client_def Let_def send_snapshot_def new_gateway_def new_subscriber_def sample_entitlements_def)
qed

lemma sample_run: "\<exists>s b. s \<in> set (subs (run_gateway repr (new_gateway sample_entitlements 4) sample_events)) \<and> Raw b \<in> set (sub_queue s)
    \<and> sub_id s = 0"
proof -
  let ?g0 = "new_gateway sample_entitlements 4"
  let ?g1 = "accept_client 0 ?g0"
  let ?req = "Loaded (JObj [(asc ''token'', JStr [116])])"
  obtain w where s1: "subs ?g1 = [(new_subscriber 0 4)\<lparr>symbols := Some {}, wire := w\<rparr>]" using sample_accept by metis
  let ?s = "(new_subscriber 0 4)\<lparr>symbols := Some {}, wire := w\<rparr>"
  let ?s2 = "?s\<lparr>token := [116], symbols := Some {JStr [58]}\<rparr>"
  have "ent ?g1 = sample_entitlements" using ent_step [of repr ?g0 "Connect 0"] by (simp add: gw_step_def new_gateway_def)
  moreover have "apply_subscribe repr sample_entitlements ?req ?s = Inr (?s2, False)"
    by (simp add: apply_subscribe_def Let_def obj_get_def asc_def requested_list_def py_str_def resolve_def known_def allows_all_def
        allowed_def ALL_SYMBOLS_def sample_entitlements_def write_refusal_def set_mode_def parse_mode_def mode_text_def ascii_lower_def
        new_subscriber_def)
  ultimately have s2: "subs (gw_step repr ?g1 (Subscribe 0 ?req)) = [?s2]"
    using s1 by (simp add: gw_step_def update_sub_def new_subscriber_def)
  have "subs (gw_step repr g (BusFrame 1 sample_frame)) = fst (fanout_all sample_frame (Some [58]) (subs g))" for g
    by (simp add: gw_step_def consume_frame_def Let_def subs_fanout sample_key)
  moreover have "\<exists>s' b. fst (fanout_all sample_frame (Some [58]) [?s2]) = [s'] \<and> Raw b \<in> set (sub_queue s') \<and> sub_id s' = 0"
    by (simp add: fanout_one_def wants_def passes_def new_subscriber_def sample_frame_def encode_def MAX_PAYLOAD_def msg_defs
        enqueue_def q_full_def q_put_def)
  ultimately obtain s' b where "subs (run_gateway repr ?g0 sample_events) = [s']" "Raw b \<in> set (sub_queue s')" "sub_id s' = 0"
    using s2 by (auto simp: run_gateway_def sample_events_def gw_step_def [of repr ?g0 "Connect 0"])
  then show ?thesis by auto
qed

theorem no_key_leaks_witness:
  "\<exists>s b f. s \<in> set (subs (run_gateway (\<lambda>_. []) (new_gateway sample_entitlements 4) sample_events)) \<and> Raw b \<in> set (sub_queue s)
     \<and> b = frame_bytes f \<and> (\<forall>k. key_of f = Some k \<longrightarrow> (\<exists>tok. may_see sample_entitlements tok k))"
proof -
  obtain s b where s: "s \<in> set (subs (run_gateway (\<lambda>_. []) (new_gateway sample_entitlements 4) sample_events))" "Raw b \<in> set (sub_queue s)"
    using sample_run by blast
  have "enabled sample_entitlements" by (simp add: sample_entitlements_def)
  from no_key_leaks [OF this s(1), of b] s(2) obtain f where
    "b = frame_bytes f" "\<forall>k. key_of f = Some k \<longrightarrow> (\<exists>tok. may_see sample_entitlements tok k)" by metis
  with s show ?thesis by (intro exI [of _ s] exI [of _ b] exI [of _ f]) simp
qed

end
