(* ===== verification/TcpDelivery.thy ===== *)
theory TcpDelivery
  imports TcpGateway
begin

section \<open>What one gateway subscriber receives\<close>

text \<open>
  The life of one subscriber of \<^verbatim>\<open>tcp_gateway.py\<close> between two subscription requests: frames of the bus
  are fanned out to it and its sender takes turns, in any order. The theorems compare what arrives
  with what was published: the loss the client's \<^verbatim>\<open>SequenceTracker\<close> sees is the loss the gateway
  counts, and a conflated key is sent at its newest value unless its queue entry was dropped.
\<close>

datatype sub_op = Fan frame | Turn

definition sub_step :: "subscriber option \<Rightarrow> sub_op \<Rightarrow> subscriber option" where
  "sub_step r x =
     (case r of None \<Rightarrow> None
      | Some s \<Rightarrow>
          (case x of
             Fan f \<Rightarrow> fst (fanout_one f (key_of f) s)
           | Turn \<Rightarrow> (case send_one s of Some (Inr (s', _)) \<Rightarrow> Some s' | _ \<Rightarrow> Some s)))"

definition sub_run :: "subscriber \<Rightarrow> sub_op list \<Rightarrow> subscriber option" where
  "sub_run s ops = foldl sub_step (Some s) ops"

lemma sub_run_Nil [simp]: "sub_run s [] = Some s"
  by (simp add: sub_run_def)

lemma sub_run_snoc: "sub_run s (ops @ [x]) = Some s' \<longleftrightarrow> (\<exists>t. sub_run s ops = Some t \<and> sub_step (Some t) x = Some s')"
  by (cases "sub_run s ops") (simp_all add: sub_run_def sub_step_def)

definition seq_of :: "bytes \<Rightarrow> nat" where
  "seq_of b = be_val (read_at 8 8 b)"

lemma seq_of_frame:
  assumes "frame_ok f"
  shows "seq_of (frame_bytes f) = seq f"
proof -
  have "msg_type f < 256 ^ 1" "flags f < 256 ^ 2" "seq f < 256 ^ 8" "length (payload f) < 256 ^ 4"
    using assms by (simp_all add: frame_ok_def MAX_PAYLOAD_def)
  from header_fields(5) [OF this] show ?thesis by (simp add: seq_of_def frame_bytes_def Let_def)
qed

lemma seq_of_encode: "encode mt sq pl fl = Inr b \<Longrightarrow> seq_of b = sq"
  using encode_InrD [of mt sq pl fl b] seq_of_frame by fastforce

lemma observe_all_snoc: "fst (observe_all t (ss @ [x])) = fst (observe (fst (observe_all t ss)) x)"
  by (induction ss arbitrary: t) (simp_all add: case_prod_beta Let_def)

text \<open>The state of the tracker of a client that starts at sequence number 0 and has received \<open>inc\<close>.\<close>

definition tracked :: "bytes list \<Rightarrow> seq_tracker" where
  "tracked inc = fst (observe_all (new_tracker\<lparr>expected := Some 0\<rparr>) (map seq_of inc))"

lemma tracked_snoc: "tracked (inc @ [b]) = fst (observe (tracked inc) (seq_of b))"
  by (simp add: tracked_def observe_all_snoc)

definition stream_inv :: "bytes list \<Rightarrow> bytes list \<Rightarrow> bytes list \<Rightarrow> nat \<Rightarrow> subscriber \<Rightarrow> bool" where
  "stream_inv w0 inc raws e s \<longleftrightarrow> mode s = Stream \<and> 0 < sub_cap s \<and> int (length raws) \<le> sub_cap s
     \<and> wire s = w0 @ inc \<and> sub_queue s = map Raw raws \<and> length raws \<le> out_seq s
     \<and> map seq_of raws = [out_seq s - length raws ..< out_seq s]
     \<and> out_seq s = length inc + length raws + dropped s
     \<and> expected (tracked inc) = Some e \<and> e \<le> out_seq s - length raws
     \<and> lost_messages (tracked inc) + (out_seq s - length raws - e) = dropped s
     \<and> duplicate_count (tracked inc) = 0 \<and> (raws = [] \<longrightarrow> e = out_seq s)"

lemma upt_drop_first: "k \<le> n \<Longrightarrow> 0 < k \<Longrightarrow> [n - k ..< n] = (n - k) # [n - (k - 1) ..< n]"
  by (simp add: upt_conv_Cons Suc_diff_le)

lemma stream_fan:
  assumes "stream_inv w0 inc raws e s" "fst (fanout_one f key s) = Some s'"
  shows "\<exists>raws'. stream_inv w0 inc raws' e s'"
proof -
  obtain names err where fo: "fanout_one f key s = (Some s', names, err)" using assms(2) by (cases "fanout_one f key s") auto
  have st: "mode s = Stream" using assms(1) by (simp add: stream_inv_def)
  from fo show ?thesis
  proof (cases rule: fanout_one_cases)
    case skip
    with assms(1) show ?thesis by auto
  next
    case (by_frame rw)
    let ?n = "out_seq s"
    have rw: "seq_of rw = ?n" using seq_of_encode [OF by_frame(4)] .
    let ?s = "s\<lparr>out_seq := ?n + 1\<rparr>"
    show ?thesis
    proof (cases "q_full (sub_cap s) (sub_queue s)")
      case False
      then have "s' = ?s\<lparr>sub_queue := sub_queue s @ [Raw rw]\<rparr>" using by_frame(5) by (simp add: enqueue_def q_put_def Let_def)
      with assms(1) False rw show ?thesis
        by (intro exI [of _ "raws @ [rw]"]) (auto simp: stream_inv_def q_full_def Suc_diff_le)
    next
      case True
      then obtain r rs where r: "raws = r # rs" using assms(1) by (cases raws) (auto simp: stream_inv_def q_full_def)
      have l: "int (length raws) = sub_cap s" using True assms(1) by (auto simp: stream_inv_def q_full_def)
      have s': "s' = (fst (drop_overflowed ?s))\<lparr>sub_queue := map Raw rs @ [Raw rw]\<rparr>"
        using by_frame(5) True l r assms(1)
        by (auto simp: enqueue_def Let_def drop_overflowed_def q_put_def q_full_def stream_inv_def split: if_splits)
      have sq: "map seq_of rs = [?n - length rs ..< ?n]" "?n - length raws = ?n - length rs - 1" "length raws \<le> ?n"
        using assms(1) upt_drop_first [of "length raws" ?n] r by (auto simp: stream_inv_def)
      show ?thesis
        using assms(1) r l sq rw unfolding s'
        by (intro exI [of _ "rs @ [rw]"]) (auto simp: stream_inv_def drop_overflowed_def Let_def Suc_diff_le)
    qed
  qed (use st in simp_all)
qed

lemma stream_turn:
  assumes "stream_inv w0 inc raws e s" "send_one s = Some (Inr (s', names))"
  shows "\<exists>inc' raws' e'. stream_inv w0 inc' raws' e' s'"
proof -
  obtain r rs where r: "raws = r # rs" using assms by (cases raws) (auto simp: stream_inv_def send_one_def)
  let ?n = "out_seq s"
  have s': "s' = s\<lparr>sub_queue := map Raw rs, wire := wire s @ [r], sent := sent s + 1\<rparr>"
    using assms r by (auto simp: stream_inv_def send_one_def Let_def)
  have sq: "map seq_of rs = [?n - length rs ..< ?n]" "seq_of r = ?n - length raws" "length raws \<le> ?n"
    using assms(1) upt_drop_first [of "length raws" ?n] r by (auto simp: stream_inv_def)
  have e: "expected (tracked inc) = Some e" "e \<le> ?n - length raws" using assms(1) by (auto simp: stream_inv_def)
  have t: "expected (tracked (inc @ [r])) = Some (?n - length rs)
    \<and> lost_messages (tracked (inc @ [r])) = lost_messages (tracked inc) + (?n - length raws - e)
    \<and> duplicate_count (tracked (inc @ [r])) = duplicate_count (tracked inc)"
    using e sq r by (auto simp: tracked_snoc observe_def Let_def Suc_diff_le)
  show ?thesis
    using assms(1) r sq t unfolding s'
    by (intro exI [of _ "inc @ [r]"] exI [of _ rs] exI [of _ "?n - length rs"]) (auto simp: stream_inv_def)
qed


definition beat :: frame where
  "beat = \<lparr>msg_type = MSG_HEARTBEAT, seq = 0, flags = 0, payload = []\<rparr>"

lemma key_beat [simp]: "key_of beat = None"
  by (simp add: key_of_def beat_def msg_defs)


subsection \<open>Conflation\<close>

text \<open>The frames published for a key, and what the sender keeps of one.\<close>

fun fans :: "sub_op list \<Rightarrow> frame list" where
  "fans [] = []"
| "fans (Fan f # ops) = f # fans ops"
| "fans (Turn # ops) = fans ops"

lemma fans_append [simp]: "fans (xs @ ys) = fans xs @ fans ys"
  by (induction xs rule: fans.induct) simp_all

definition data_of :: "frame \<Rightarrow> nat \<times> bytes \<times> nat" where
  "data_of f = (msg_type f, payload f, flags f)"

text \<open>The newest frame published for a key.\<close>

definition newest :: "frame list \<Rightarrow> text_u \<Rightarrow> frame option" where
  "newest fs k = find (\<lambda>f. key_of f = Some k) (rev fs)"

definition latest_inv :: "frame list \<Rightarrow> subscriber \<Rightarrow> bool" where
  "latest_inv fs s \<longleftrightarrow> (\<forall>k v. map_of (pending s) k = Some v \<longrightarrow> (\<exists>f. newest fs k = Some f \<and> v = data_of f))"

lemma latest_fan:
  assumes "latest_inv fs s" "fst (fanout_one f (key_of f) s) = Some s'" "mode s = Conflate"
  shows "latest_inv (fs @ [f]) s' \<or> \<not> (\<forall>k. key_of f = Some k \<longrightarrow> wants s k)"
proof (cases "\<forall>k. key_of f = Some k \<longrightarrow> wants s k")
  case True
  have n: "newest (fs @ [f]) k = (if key_of f = Some k then Some f else newest fs k)" for k by (simp add: newest_def)
  have upd: "latest_inv (fs @ [f]) t" if "pending t = AList.update k (msg_type f, payload f, flags f) (pending s)" "key_of f = Some k" for t k
    using assms(1) that by (auto simp: latest_inv_def n update_conv' data_of_def split: if_splits)
  have same: "latest_inv (fs @ [f]) t" if "pending t = pending s" "key_of f = None" for t
    using assms(1) that by (auto simp: latest_inv_def n)
  obtain names err where fo: "fanout_one f (key_of f) s = (Some s', names, err)"
    using assms(2) by (cases "fanout_one f (key_of f) s") auto
  show ?thesis
  proof (cases "key_of f")
    case None
    from fo have "pending s' = pending s"
      by (rule fanout_one_cases) (use None in \<open>auto elim!: enqueue_Some simp: drop_overflowed_def Let_def\<close>)
    with None same show ?thesis by blast
  next
    case (Some k)
    with fo True assms(3) have "pending s' = AList.update k (msg_type f, payload f, flags f) (pending s)"
      by (auto simp: fanout_one_def drop_overflowed_def Let_def split: if_splits prod.splits elim!: enqueue_Some)
    with Some upd show ?thesis by blast
  qed
qed simp

lemma mode_fan: "fst (fanout_one f key s) = Some s' \<Longrightarrow> mode s' = mode s \<and> symbols s' = symbols s"
proof -
  assume a: "fst (fanout_one f key s) = Some s'"
  then obtain names err where "fanout_one f key s = (Some s', names, err)" by (cases "fanout_one f key s") auto
  then show ?thesis
    by (rule fanout_one_cases) (auto elim!: enqueue_Some simp: drop_overflowed_def Let_def)
qed

lemma send_one_frame:
  assumes "send_one s = Some (Inr (s', names))"
  shows "mode s' = mode s \<and> symbols s' = symbols s \<and> sub_cap s' = sub_cap s
    \<and> (\<forall>k v. map_of (pending s') k = Some v \<longrightarrow> map_of (pending s) k = Some v)"
  using assms
  by (auto simp: send_one_def Let_def delete_conv' split: list.splits item.splits option.splits sum.splits if_splits)

lemma latest_run:
  assumes "mode s0 = Conflate" "pending s0 = []" "symbols s0 = None" "sub_run s0 ops = Some s"
  shows "latest_inv (fans ops) s \<and> mode s = Conflate \<and> symbols s = None"
  using assms(4)
proof (induction ops arbitrary: s rule: rev_induct)
  case Nil
  with assms show ?case by (simp add: latest_inv_def)
next
  case (snoc x ops)
  then obtain u where u: "sub_run s0 ops = Some u" "sub_step (Some u) x = Some s" by (auto simp: sub_run_snoc)
  note IH = snoc.IH [OF u(1)]
  show ?case
  proof (cases x)
    case (Fan f)
    then have f: "fst (fanout_one f (key_of f) u) = Some s" using u(2) by (simp add: sub_step_def)
    have "\<forall>k. key_of f = Some k \<longrightarrow> wants u k" using IH by (simp add: wants_def passes_def)
    with latest_fan [OF _ f] mode_fan [OF f] IH Fan show ?thesis by simp
  next
    case Turn
    show ?thesis
    proof (cases "\<exists>t names. send_one u = Some (Inr (t, names))")
      case True
      then obtain t names where t: "send_one u = Some (Inr (t, names))" by blast
      with u(2) Turn have "t = s" by (simp add: sub_step_def)
      with send_one_frame [OF t] IH Turn show ?thesis by (simp add: latest_inv_def)
    next
      case False
      with u(2) Turn have "s = u" by (auto simp: sub_step_def split: option.splits sum.splits)
      with IH Turn show ?thesis by simp
    qed
  qed
qed

text \<open>
  Conflation sends the present value. In conflate mode, whatever was published and sent before,
  a turn of the sender that takes a key from the queue writes either nothing or exactly the newest
  frame published for that key, under the subscriber's next sequence number.
\<close>

theorem conflate_sends_newest:
  assumes "sub_run ((new_subscriber c cap)\<lparr>mode := Conflate\<rparr>) ops = Some s" "sub_queue s = Key k # q"
    "send_one s = Some (Inr (s', names))"
  shows "wire s' = wire s
    \<or> (\<exists>f. newest (fans ops) k = Some f \<and> out_seq s' = out_seq s + 1
         \<and> wire s' = wire s @ [frame_bytes (f\<lparr>seq := out_seq s\<rparr>)])"
proof -
  have inv: "latest_inv (fans ops) s"
    using latest_run [OF _ _ _ assms(1)] by (simp add: new_subscriber_def)
  show ?thesis
  proof (cases "map_of (pending s) k")
    case None
    with assms(2,3) show ?thesis by (auto simp: send_one_def Let_def)
  next
    case (Some v)
    obtain f where f: "newest (fans ops) k = Some f" "v = data_of f"
      using inv [unfolded latest_inv_def, rule_format, OF Some] by blast
    obtain b where b: "encode (msg_type f) (out_seq s) (payload f) (flags f) = Inr b"
      "wire s' = wire s @ [b]" "out_seq s' = out_seq s + 1"
      using assms(2,3) Some f(2) by (auto simp: send_one_def Let_def data_of_def split: sum.splits)
    from encode_InrD [OF b(1)] have "b = frame_bytes (f\<lparr>seq := out_seq s\<rparr>)" by (cases f) simp
    with b f show ?thesis by auto
  qed
qed

text \<open>
  A key whose queue entry was dropped while its value waits in \<open>pending\<close>: nothing puts it back.
\<close>

definition others_only :: "text_u \<Rightarrow> bytes \<Rightarrow> bool" where
  "others_only k b \<longleftrightarrow> (\<exists>f. b = frame_bytes f \<and> key_of f \<noteq> Some k)"

definition starved :: "text_u \<Rightarrow> bytes list \<Rightarrow> subscriber \<Rightarrow> bool" where
  "starved k w0 s \<longleftrightarrow> mode s = Conflate \<and> k \<in> fst ` set (pending s) \<and> Key k \<notin> set (sub_queue s)
     \<and> (\<forall>b. Raw b \<in> set (sub_queue s) \<longrightarrow> others_only k b)
     \<and> (\<forall>e \<in> set (pending s). ok_entry (\<lambda>_. True) e)
     \<and> (\<exists>inc. wire s = w0 @ inc \<and> (\<forall>b \<in> set inc. others_only k b))"

lemma keys_update: "fst ` set (AList.update k v d) = insert k (fst ` set d)"
  using dom_update [of k v d] by (simp add: dom_map_of_conv_image_fst)

lemma keys_delete: "fst ` set (AList.delete k d) = fst ` set d - {k}"
  unfolding dom_map_of_conv_image_fst [symmetric] by (auto simp: delete_conv')

lemma starved_drop: "starved k w0 s \<Longrightarrow> starved k w0 (fst (drop_overflowed s))"
  by (auto simp: starved_def drop_overflowed_def Let_def dest: set_tl_subset)

lemma starved_enqueue:
  assumes "enqueue x before s = (Some s', names)" "starved k w0 s" "\<And>t. starved k w0 t \<Longrightarrow> starved k w0 (before t)"
    "x \<noteq> Key k" "\<And>b. x = Raw b \<Longrightarrow> others_only k b"
  shows "starved k w0 s'"
  using assms(1)
proof (rule enqueue_Some)
  fix s1
  assume s1: "s1 = s \<and> \<not> q_full (sub_cap s) (sub_queue s) \<or> s1 = fst (drop_overflowed s) \<and> q_full (sub_cap s) (sub_queue s)"
    "s' = (before s1)\<lparr>sub_queue := q_put (sub_cap (before s1)) x (sub_queue (before s1))\<rparr>"
  then have "starved k w0 (before s1)" using assms(2,3) starved_drop by blast
  then show ?thesis using s1(2) assms(4,5) set_q_put [of "sub_cap (before s1)" x "sub_queue (before s1)"]
    by (auto simp: starved_def)
qed

lemma starved_fan:
  assumes "starved k w0 s" "fst (fanout_one f (key_of f) s) = Some s'"
  shows "starved k w0 s'"
proof -
  obtain names err where "fanout_one f (key_of f) s = (Some s', names, err)"
    using assms(2) by (cases "fanout_one f (key_of f) s") auto
  then show ?thesis
  proof (cases rule: fanout_one_cases)
    case skip
    with assms(1) show ?thesis by simp
  next
    case (merge k')
    with assms(1) key_of_seq [of f] show ?thesis
      by (auto simp: starved_def keys_update ok_entry_def dest!: in_update)
  next
    case (by_key k')
    have "k' \<noteq> k" using by_key(4) assms(1) by (auto simp: starved_def)
    have b: "starved k w0 (t\<lparr>pending := AList.update k' (msg_type f, payload f, flags f) (pending t)\<rparr>)"
      if "starved k w0 t" for t
      using that by_key(1) key_of_seq [of f] by (auto simp: starved_def keys_update ok_entry_def dest!: in_update)
    show ?thesis by (rule starved_enqueue [OF by_key(6) assms(1) b]) (use \<open>k' \<noteq> k\<close> in simp_all)
  next
    case (by_frame rw)
    have "key_of f = None" using by_frame(1) assms(1) by (simp add: starved_def)
    then have "others_only k rw" using encode_InrD [OF by_frame(4)] key_of_seq [of f] unfolding others_only_def by auto
    moreover have "starved k w0 (s\<lparr>out_seq := out_seq s + 1\<rparr>)" using assms(1) by (simp add: starved_def)
    ultimately show ?thesis by (intro starved_enqueue [OF by_frame(5)]) auto
  qed
qed

lemma starved_turn:
  assumes "starved k w0 s" "send_one s = Some (Inr (s', names))"
  shows "starved k w0 s'"
proof -
  obtain x q where q: "sub_queue s = x # q" using assms(2) by (cases "sub_queue s") (simp_all add: send_one_def)
  show ?thesis
  proof (cases x)
    case (Raw rw)
    with q assms show ?thesis by (auto simp: send_one_def starved_def)
  next
    case (Key k')
    then have ne: "k' \<noteq> k" using assms(1) q by (auto simp: starved_def)
    show ?thesis
    proof (cases "map_of (pending s) k'")
      case None
      with q Key assms show ?thesis by (auto simp: send_one_def starved_def Let_def)
    next
      case (Some v)
      obtain mt pl fl where v: "v = (mt, pl, fl)" by (cases v)
      from Some v assms(1) have e: "ok_entry (\<lambda>_. True) (k', mt, pl, fl)" by (auto simp: starved_def dest: map_of_SomeD)
      obtain b where b: "encode mt (out_seq s) pl fl = Inr b" "wire s' = wire s @ [b]" "pending s' = AList.delete k' (pending s)"
        "sub_queue s' = q" "mode s' = mode s"
        using assms(2) q Key Some v by (auto simp: send_one_def Let_def split: sum.splits)
      have "others_only k b" using encode_InrD [OF b(1)] e ne by (auto simp: others_only_def ok_entry_def)
      with assms(1) b q ne show ?thesis by (auto simp: starved_def keys_delete AList.delete_eq)
    qed
  qed
qed

text \<open>
  A key dropped from a full conflating queue is never sent again. When another key's frame
  arrives at a full queue whose oldest entry is \<open>k\<close>, the entry is dropped but the value stays
  pending; from then on every frame published for \<open>k\<close> is merged into it, and no frame of \<open>k\<close> is
  written to this subscriber until it changes its mode or reconnects.
\<close>

theorem dropped_key_starves:
  assumes "mode s = Conflate" "sub_queue s = Key k # q" "Key k \<notin> set q" "k \<in> fst ` set (pending s)"
    "\<forall>b. Raw b \<in> set q \<longrightarrow> others_only k b" "\<forall>e \<in> set (pending s). ok_entry (\<lambda>_. True) e"
    "q_full (sub_cap s) (sub_queue s)" "key_of f = Some k'" "k' \<notin> fst ` set (pending s)" "wants s k'"
    "dropped s < DROP_LIMIT" "sub_run s (Fan f # ops) = Some s'"
  shows "k \<in> fst ` set (pending s') \<and> (\<exists>inc. wire s' = wire s @ inc \<and> (\<forall>b \<in> set inc. others_only k b))"
proof -
  let ?s0 = "fst (drop_overflowed s)"
  have st0: "starved k (wire s) ?s0"
    using assms(1-6) by (auto simp: starved_def drop_overflowed_def Let_def)
  have ne: "k' \<noteq> k" using assms(4,9) by auto
  obtain u where u: "fst (fanout_one f (key_of f) s) = Some u"
    using assms(1,7-11) by (auto simp: fanout_one_def enqueue_def drop_overflowed_def Let_def wants_def)
  then obtain names where "enqueue (Key k') (\<lambda>s1. s1\<lparr>pending := AList.update k' (msg_type f, payload f, flags f) (pending s1)\<rparr>) s = (Some u, names)"
    using assms(1,8-10) by (auto simp: fanout_one_def wants_def split: prod.splits)
  then have "starved k (wire s) u"
  proof (rule enqueue_Some)
    fix s1
    assume s1: "s1 = s \<and> \<not> q_full (sub_cap s) (sub_queue s) \<or> s1 = ?s0 \<and> q_full (sub_cap s) (sub_queue s)"
      and u: "u = s1\<lparr>pending := AList.update k' (msg_type f, payload f, flags f) (pending s1)\<rparr>
        \<lparr>sub_queue := q_put (sub_cap (s1\<lparr>pending := AList.update k' (msg_type f, payload f, flags f) (pending s1)\<rparr>)) (Key k')
          (sub_queue (s1\<lparr>pending := AList.update k' (msg_type f, payload f, flags f) (pending s1)\<rparr>))\<rparr>"
    with assms(7) have "s1 = ?s0" by blast
    with st0 u ne key_of_seq [of f] assms(8) set_q_put [of "sub_cap s1" "Key k'" "sub_queue s1"] show ?thesis
      by (auto simp: starved_def keys_update ok_entry_def dest!: in_update)
  qed
  moreover have "starved k (wire s) s''" if "sub_run u ops = Some s''" "starved k (wire s) u" for s''
    using that
  proof (induction ops arbitrary: s'' rule: rev_induct)
    case (snoc x ops)
    then obtain t where t: "sub_run u ops = Some t" "sub_step (Some t) x = Some s''" "starved k (wire s) t"
      by (auto simp: sub_run_snoc)
    then show ?case
      by (cases x) (auto simp: sub_step_def intro: starved_fan starved_turn split: option.splits sum.splits)
  qed simp
  moreover have "sub_run u ops = Some s'" using assms(12) u by (simp add: sub_run_def sub_step_def)
  ultimately show ?thesis by (auto simp: starved_def)
qed

text \<open>Two trades of different symbols.\<close>

definition other_frame :: frame where
  "other_frame = \<lparr>msg_type = MSG_TRADE, seq = 3, flags = 0, payload = 65 # replicate 63 0\<rparr>"

lemma other_key: "key_of other_frame = Some [58, 65]"
proof -
  have z: "dropWhile (\<lambda>x. x = 0) (replicate m (0::nat) @ ys) = dropWhile (\<lambda>x. x = 0) ys" for m ys
    by (induction m) simp_all
  have "unfix (unraw (read_at 16 8 (65 # replicate 63 0))) = []"
    using z [of 8 "[]"] by (simp add: unfix_def unraw_def rstrip0_def read_at_def)
  moreover have "unfix (unraw (read_at 0 16 (65 # replicate 63 0))) = [65]"
    using z [of 15 "[65]"] by (simp add: unfix_def unraw_def rstrip0_def read_at_def take_Cons')
  ultimately show ?thesis by (simp add: key_of_def other_frame_def TRADE_SIZE_def feed_key_def)
qed

lemma frame_sels: "msg_type sample_frame = 2" "flags sample_frame = 0" "payload sample_frame = replicate 64 0"
  "msg_type other_frame = 2" "flags other_frame = 0" "payload other_frame = 65 # replicate 63 0"
  "msg_type beat = 1" "flags beat = 0" "payload beat = []"
  by (simp_all add: sample_frame_def other_frame_def beat_def msg_defs)

definition small_conflating :: subscriber where
  "small_conflating = (new_subscriber 0 1)\<lparr>mode := Conflate\<rparr>"

lemma first_key_queued: "sub_run small_conflating [Fan sample_frame]
    = Some (small_conflating\<lparr>pending := [([58], data_of sample_frame)], sub_queue := [Key [58]]\<rparr>)"
  by (simp add: sub_run_def sub_step_def sample_key fanout_one_def small_conflating_def new_subscriber_def wants_def passes_def
      enqueue_def q_full_def q_put_def data_of_def Let_def)

theorem conflate_sends_newest_witness:
  "\<exists>s s' names f. sub_run small_conflating [Fan sample_frame] = Some s \<and> send_one s = Some (Inr (s', names))
     \<and> newest [sample_frame] [58] = Some f \<and> wire s' = wire s @ [frame_bytes (f\<lparr>seq := out_seq s\<rparr>)]"
proof -
  let ?s = "small_conflating\<lparr>pending := [([58], data_of sample_frame)], sub_queue := [Key [58]]\<rparr>"
  obtain s' names where s': "send_one ?s = Some (Inr (s', names))" "wire s' \<noteq> wire ?s"
    by (simp add: send_one_def data_of_def sample_frame_def small_conflating_def new_subscriber_def encode_def MAX_PAYLOAD_def
        msg_defs Let_def)
  have "sub_queue ?s = Key [58] # []" by simp
  from conflate_sends_newest [OF first_key_queued [unfolded small_conflating_def] this [unfolded small_conflating_def]
      s'(1) [unfolded small_conflating_def]] s'(2)
  have "\<exists>f. newest [sample_frame] [58] = Some f \<and> wire s' = wire ?s @ [frame_bytes (f\<lparr>seq := out_seq ?s\<rparr>)]"
    by (auto simp: small_conflating_def)
  with first_key_queued s'(1) show ?thesis by blast
qed

theorem dropped_key_starves_witness:
  "\<exists>s'. sub_run small_conflating [Fan sample_frame, Fan other_frame, Turn, Fan sample_frame, Turn] = Some s'
     \<and> [58] \<in> fst ` set (pending s') \<and> (\<forall>b \<in> set (wire s'). others_only [58] b)"
proof -
  let ?s = "small_conflating\<lparr>pending := [([58], data_of sample_frame)], sub_queue := [Key [58]]\<rparr>"
  let ?ops = "[Turn, Fan sample_frame, Turn]"
  have d: "DROP_LIMIT = 5000" by (simp add: DROP_LIMIT_def)
  obtain s' where s': "sub_run ?s (Fan other_frame # ?ops) = Some s'"
    by (simp add: sub_run_def sub_step_def sample_key other_key fanout_one_def small_conflating_def new_subscriber_def wants_def
        passes_def enqueue_def q_full_def q_put_def data_of_def Let_def drop_overflowed_def d send_one_def frame_sels encode_def MAX_PAYLOAD_def)
  have h: "mode ?s = Conflate" "sub_queue ?s = Key [58] # []" "[58] \<in> fst ` set (pending ?s)" "q_full (sub_cap ?s) (sub_queue ?s)"
    "[58, 65] \<notin> fst ` set (pending ?s)" "wants ?s [58, 65]" "dropped ?s < DROP_LIMIT" "wire ?s = []"
    by (simp_all add: small_conflating_def new_subscriber_def q_full_def wants_def passes_def d)
  have e: "\<forall>e \<in> set (pending ?s). ok_entry (\<lambda>_. True) e"
    using sample_key key_of_seq [of sample_frame] by (simp add: ok_entry_def data_of_def)
  have "[58] \<in> fst ` set (pending s') \<and> (\<exists>inc. wire s' = wire ?s @ inc \<and> (\<forall>b \<in> set inc. others_only [58] b))"
    by (rule dropped_key_starves [OF h(1,2) _ h(3) _ e h(4) other_key h(5,6,7) s']) simp_all
  moreover have "sub_run small_conflating (Fan sample_frame # Fan other_frame # ?ops) = Some s'"
    using first_key_queued s' by (simp add: sub_run_def)
  ultimately show ?thesis using h(8) by auto
qed

subsection \<open>Heartbeats among conflated keys\<close>

text \<open>
  A heartbeat gets its number when it is queued, a conflated key when it is sent. With a key queued
  first and a heartbeat behind it the numbers arrive as 1, 0: the client's tracker counts a loss and
  a duplicate although nothing was dropped.
\<close>

lemma heartbeat_out_of_order:
  "\<exists>s. sub_run ((new_subscriber 0 4)\<lparr>mode := Conflate\<rparr>) [Fan sample_frame, Fan beat, Turn, Turn] = Some s
     \<and> dropped s = 0 \<and> map seq_of (wire s) = [1, 0]
     \<and> lost_messages (tracked (wire s)) = 1 \<and> duplicate_count (tracked (wire s)) = 1"
proof -
  have key: "frame_ok \<lparr>msg_type = 2, seq = 1, flags = 0, payload = replicate 64 0\<rparr>"
    and hb: "frame_ok \<lparr>msg_type = 1, seq = 0, flags = 0, payload = []\<rparr>"
    by (simp_all add: frame_ok_def MAX_PAYLOAD_def)
  from seq_of_frame [OF key] seq_of_frame [OF hb] show ?thesis
    by (simp add: sub_run_def sub_step_def sample_key fanout_one_def new_subscriber_def wants_def passes_def enqueue_def
        q_full_def q_put_def Let_def send_one_def frame_sels encode_def MAX_PAYLOAD_def tracked_def observe_def new_tracker_def)
qed

end
