(* ===== verification/Indicators.thy ===== *)
theory Indicators
  imports Models
begin

section \<open>Streaming indicators and strategies\<close>

text \<open>
  Models \<^verbatim>\<open>src/mdfeed/indicators.py\<close> and \<^verbatim>\<open>src/mdfeed/strategies.py\<close>. A float is the real it denotes, and every
  float operation rounds its exact result: \<open>fl\<close> is that rounding, the first argument of what computes. \<open>double\<close>
  is the one of IEEE doubles (to nearest, ties to even, without overflow), \<open>exact\<close> leaves a value as it is. An indicator is built with a window \<open>n\<close> of at least 1
  (the strategies only build such ones); an update returns the new state and the value shown, \<open>None\<close>
  while the window is not full.
\<close>

subsection \<open>Rounding\<close>

type_synonym rounding = "real \<Rightarrow> real"

abbreviation (input) exact :: rounding where "exact \<equiv> \<lambda>x. x"

definition nearest_even :: "real \<Rightarrow> int" where
  "nearest_even x =
     (let f = \<lfloor>x\<rfloor>; d = x - of_int f in
      if d < 1 / 2 then f else if 1 / 2 < d then f + 1 else if even f then f else f + 1)"

text \<open>The exponent of the last of the 53 bits; below the normal range it stays at the smallest.\<close>

definition ulp_exponent :: "real \<Rightarrow> int" where
  "ulp_exponent x = max (\<lfloor>log 2 \<bar>x\<bar>\<rfloor> - 52) (- 1074)"

definition double :: rounding where
  "double x = (let u = 2 powr of_int (ulp_exponent x) in of_int (nearest_even (x / u)) * u)"

subsection \<open>Simple moving average\<close>

record sma =
  sma_n :: nat
  sma_q :: "real list"
  sma_sum :: real

definition new_sma :: "nat \<Rightarrow> sma" where
  "new_sma n = \<lparr>sma_n = n, sma_q = [], sma_sum = 0\<rparr>"

text \<open>Appending to a \<^verbatim>\<open>deque(maxlen=n)\<close> that is full discards the first element.\<close>

definition deque_append :: "nat \<Rightarrow> 'a list \<Rightarrow> 'a \<Rightarrow> 'a list" where
  "deque_append n q x = (if length q = n then tl q @ [x] else q @ [x])"

definition sma_ready :: "sma \<Rightarrow> bool" where
  "sma_ready i \<longleftrightarrow> length (sma_q i) = sma_n i"

definition sma_value :: "rounding \<Rightarrow> sma \<Rightarrow> real option" where
  "sma_value fl i = (if sma_ready i then Some (fl (sma_sum i / real (sma_n i))) else None)"

definition sma_update :: "rounding \<Rightarrow> sma \<Rightarrow> real \<Rightarrow> sma \<times> real option" where
  "sma_update fl i x =
     (let s = (if length (sma_q i) = sma_n i then fl (sma_sum i - hd (sma_q i)) else sma_sum i);
          i' = i\<lparr>sma_q := deque_append (sma_n i) (sma_q i) x, sma_sum := fl (s + x)\<rparr>
      in (i', sma_value fl i'))"

subsection \<open>Exponential moving average\<close>

record ema =
  ema_n :: nat
  ema_k :: real
  ema_v :: "real option"
  ema_seed :: real
  ema_count :: nat

definition new_ema :: "rounding \<Rightarrow> nat \<Rightarrow> ema" where
  "new_ema fl n = \<lparr>ema_n = n, ema_k = fl (2 / fl (real n + 1)), ema_v = None, ema_seed = 0, ema_count = 0\<rparr>"

definition ema_update :: "rounding \<Rightarrow> ema \<Rightarrow> real \<Rightarrow> ema \<times> real option" where
  "ema_update fl i x =
     (let i1 = i\<lparr>ema_count := ema_count i + 1\<rparr> in
      case ema_v i1 of
        None \<Rightarrow>
          (let i2 = i1\<lparr>ema_seed := fl (ema_seed i1 + x)\<rparr>;
               i3 = (if ema_count i2 = ema_n i2 then i2\<lparr>ema_v := Some (fl (ema_seed i2 / real (ema_n i2)))\<rparr> else i2)
           in (i3, ema_v i3))
      | Some v \<Rightarrow> (let i2 = i1\<lparr>ema_v := Some (fl (v + fl (ema_k i1 * fl (x - v))))\<rparr> in (i2, ema_v i2)))"

definition ema_ready :: "ema \<Rightarrow> bool" where "ema_ready i \<longleftrightarrow> ema_v i \<noteq> None"

subsection \<open>Relative strength (Wilder)\<close>

record rsi =
  rsi_n :: nat
  rsi_prev :: "real option"
  avg_gain :: "real option"
  avg_loss :: real
  rsi_count :: nat
  gain_sum :: real
  loss_sum :: real

definition new_rsi :: "nat \<Rightarrow> rsi" where
  "new_rsi n = \<lparr>rsi_n = n, rsi_prev = None, avg_gain = None, avg_loss = 0, rsi_count = 0, gain_sum = 0, loss_sum = 0\<rparr>"

definition rsi_ready :: "rsi \<Rightarrow> bool" where "rsi_ready i \<longleftrightarrow> avg_gain i \<noteq> None"

definition rsi_value :: "rounding \<Rightarrow> rsi \<Rightarrow> real option" where
  "rsi_value fl i =
     (case avg_gain i of
        None \<Rightarrow> None
      | Some g \<Rightarrow> if avg_loss i = 0 then Some 100
          else let rs = fl (g / avg_loss i) in Some (fl (100 - fl (100 / fl (1 + rs)))))"

definition rsi_update :: "rounding \<Rightarrow> rsi \<Rightarrow> real \<Rightarrow> rsi \<times> real option" where
  "rsi_update fl i x =
     (case rsi_prev i of
        None \<Rightarrow> (i\<lparr>rsi_prev := Some x\<rparr>, None)
      | Some p \<Rightarrow>
          (let change = fl (x - p); i1 = i\<lparr>rsi_prev := Some x\<rparr>; gain = max change 0; loss = max (- change) 0; n = real (rsi_n i) in
           case avg_gain i1 of
             None \<Rightarrow>
               (let i2 = i1\<lparr>rsi_count := rsi_count i1 + 1, gain_sum := fl (gain_sum i1 + gain), loss_sum := fl (loss_sum i1 + loss)\<rparr> in
                if rsi_count i2 < rsi_n i2 then (i2, None)
                else let i3 = i2\<lparr>avg_gain := Some (fl (gain_sum i2 / n)), avg_loss := fl (loss_sum i2 / n)\<rparr> in (i3, rsi_value fl i3))
           | Some g \<Rightarrow>
               (let i2 = i1\<lparr>avg_gain := Some (fl (fl (fl (g * (n - 1)) + gain) / n)),
                         avg_loss := fl (fl (fl (avg_loss i1 * (n - 1)) + loss) / n)\<rparr>
                in (i2, rsi_value fl i2))))"

subsection \<open>Rolling standard deviation and Bollinger bands\<close>

record rolling =
  std_n :: nat
  std_q :: "real list"
  std_sum :: real
  std_sq :: real
  since_recalc :: nat

definition new_rolling :: "nat \<Rightarrow> rolling" where
  "new_rolling n = \<lparr>std_n = n, std_q = [], std_sum = 0, std_sq = 0, since_recalc = 0\<rparr>"

definition std_ready :: "rolling \<Rightarrow> bool" where
  "std_ready i \<longleftrightarrow> length (std_q i) = std_n i"

definition std_value :: "rounding \<Rightarrow> rolling \<Rightarrow> real option" where
  "std_value fl i =
     (if \<not> std_ready i then None
      else let n = real (std_n i); mean = fl (std_sum i / n);
               var = max (fl (fl (std_sq i / n) - fl (mean * mean))) 0;
               v = fl (var * (if 1 < std_n i then fl (n / (n - 1)) else 1))
        in Some (fl (sqrt v)))"

text \<open>\<^verbatim>\<open>math.fsum\<close> rounds once, after adding exactly.\<close>

definition fsum :: "rounding \<Rightarrow> real list \<Rightarrow> real" where
  "fsum fl xs = fl (sum_list xs)"

definition RECALC :: nat where "RECALC = 10000"

definition std_update :: "rounding \<Rightarrow> rolling \<Rightarrow> real \<Rightarrow> rolling \<times> real option" where
  "std_update fl i x =
     (let full = length (std_q i) = std_n i; old = hd (std_q i);
          s0 = (if full then fl (std_sum i - old) else std_sum i);
          q0 = (if full then fl (std_sq i - fl (old * old)) else std_sq i);
          i1 = i\<lparr>std_q := deque_append (std_n i) (std_q i) x, std_sum := fl (s0 + x), std_sq := fl (q0 + fl (x * x)),
                 since_recalc := since_recalc i + 1\<rparr>;
          i2 = (if RECALC \<le> since_recalc i1
                then i1\<lparr>std_sum := fsum fl (std_q i1), std_sq := fsum fl (map (\<lambda>v. fl (v * v)) (std_q i1)), since_recalc := 0\<rparr>
                else i1)
      in (i2, std_value fl i2))"

record bollinger =
  bb_k :: real
  bb_sma :: sma
  bb_std :: rolling

definition new_bollinger :: "nat \<Rightarrow> real \<Rightarrow> bollinger" where
  "new_bollinger n k = \<lparr>bb_k = k, bb_sma = new_sma n, bb_std = new_rolling n\<rparr>"

definition bb_ready :: "bollinger \<Rightarrow> bool" where
  "bb_ready i \<longleftrightarrow> sma_ready (bb_sma i) \<and> std_ready (bb_std i)"

definition bb_value :: "rounding \<Rightarrow> bollinger \<Rightarrow> (real \<times> real \<times> real) option" where
  "bb_value fl i =
     (if \<not> bb_ready i then None
      else case (sma_value fl (bb_sma i), std_value fl (bb_std i)) of
        (Some m, Some s) \<Rightarrow> Some (m, fl (m + fl (bb_k i * s)), fl (m - fl (bb_k i * s))) | _ \<Rightarrow> None)"

definition bb_update :: "rounding \<Rightarrow> bollinger \<Rightarrow> real \<Rightarrow> bollinger \<times> (real \<times> real \<times> real) option" where
  "bb_update fl i x =
     (let i' = i\<lparr>bb_sma := fst (sma_update fl (bb_sma i) x), bb_std := fst (std_update fl (bb_std i) x)\<rparr> in (i', bb_value fl i'))"

subsection \<open>MACD, true range, crossover\<close>

record macd =
  m_fast :: ema
  m_slow :: ema
  m_sig :: ema

definition new_macd :: "rounding \<Rightarrow> nat \<Rightarrow> nat \<Rightarrow> nat \<Rightarrow> macd" where
  "new_macd fl f s g = \<lparr>m_fast = new_ema fl f, m_slow = new_ema fl s, m_sig = new_ema fl g\<rparr>"

definition macd_update :: "rounding \<Rightarrow> macd \<Rightarrow> real \<Rightarrow> macd \<times> (real \<times> real \<times> real) option" where
  "macd_update fl i x =
     (let (f1, f) = ema_update fl (m_fast i) x; (s1, s) = ema_update fl (m_slow i) x; i1 = i\<lparr>m_fast := f1, m_slow := s1\<rparr> in
      case (f, s) of
        (Some fv, Some sv) \<Rightarrow>
          (let m = fl (fv - sv); (g1, g) = ema_update fl (m_sig i1) m in
           (i1\<lparr>m_sig := g1\<rparr>, case g of None \<Rightarrow> None | Some gv \<Rightarrow> Some (m, gv, fl (m - gv))))
      | _ \<Rightarrow> (i1, None))"

record atr =
  atr_n :: nat
  prev_close :: "real option"
  atr_avg :: "real option"
  atr_sum :: real
  atr_count :: nat

definition new_atr :: "nat \<Rightarrow> atr" where
  "new_atr n = \<lparr>atr_n = n, prev_close = None, atr_avg = None, atr_sum = 0, atr_count = 0\<rparr>"

definition true_range :: "rounding \<Rightarrow> real option \<Rightarrow> real \<Rightarrow> real \<Rightarrow> real" where
  "true_range fl prev high low =
     (case prev of None \<Rightarrow> fl (high - low)
      | Some p \<Rightarrow> max (max (fl (high - low)) \<bar>fl (high - p)\<bar>) \<bar>fl (low - p)\<bar>)"

definition atr_update :: "rounding \<Rightarrow> atr \<Rightarrow> real \<Rightarrow> real \<Rightarrow> real \<Rightarrow> atr \<times> real option" where
  "atr_update fl i high low close =
     (let tr = true_range fl (prev_close i) high low; i1 = i\<lparr>prev_close := Some close\<rparr>; n = real (atr_n i) in
      case atr_avg i1 of
        None \<Rightarrow>
          (let i2 = i1\<lparr>atr_count := atr_count i1 + 1, atr_sum := fl (atr_sum i1 + tr)\<rparr> in
           if atr_count i2 < atr_n i2 then (i2, None)
           else let i3 = i2\<lparr>atr_avg := Some (fl (atr_sum i2 / n))\<rparr> in (i3, atr_avg i3))
      | Some a \<Rightarrow> (let i2 = i1\<lparr>atr_avg := Some (fl (fl (fl (a * (n - 1)) + tr) / n))\<rparr> in (i2, atr_avg i2)))"

text \<open>The crossover keeps the last strict order of the two series.\<close>

type_synonym crossover = "bool option"

definition cross_update :: "crossover \<Rightarrow> real \<Rightarrow> real \<Rightarrow> crossover \<times> int" where
  "cross_update prev a b =
     (if a = b then (prev, 0)
      else let cur = a > b in
        (Some cur, case prev of None \<Rightarrow> 0 | Some p \<Rightarrow> if p = cur then 0 else if cur then 1 else - 1))"

subsection \<open>Strategies and the signal gate\<close>

definition BUY :: int where "BUY = 1"
definition SELL :: int where "SELL = - 1"
definition HOLD :: int where "HOLD = 0"

record sma_cross =
  sc_fast :: sma
  sc_slow :: sma
  sc_cross :: crossover

definition new_sma_cross :: "nat \<Rightarrow> nat \<Rightarrow> sma_cross" where
  "new_sma_cross f s = \<lparr>sc_fast = new_sma f, sc_slow = new_sma s, sc_cross = None\<rparr>"

definition sma_cross_on_bar :: "rounding \<Rightarrow> sma_cross \<Rightarrow> real \<Rightarrow> sma_cross \<times> int" where
  "sma_cross_on_bar fl i close =
     (let (f1, f) = sma_update fl (sc_fast i) close; (s1, s) = sma_update fl (sc_slow i) close;
          i1 = i\<lparr>sc_fast := f1, sc_slow := s1\<rparr> in
      case (f, s) of
        (Some fv, Some sv) \<Rightarrow>
          (let (c1, c) = cross_update (sc_cross i1) fv sv in
           (i1\<lparr>sc_cross := c1\<rparr>, if 0 < c then BUY else if c < 0 then SELL else HOLD))
      | _ \<Rightarrow> (i1, HOLD))"

record rsi_revert =
  rr_low :: real
  rr_high :: real
  rr_rsi :: rsi
  was_low :: bool
  was_high :: bool

definition new_rsi_revert :: "nat \<Rightarrow> real \<Rightarrow> real \<Rightarrow> rsi_revert" where
  "new_rsi_revert n low high = \<lparr>rr_low = low, rr_high = high, rr_rsi = new_rsi n, was_low = False, was_high = False\<rparr>"

definition rsi_revert_on_bar :: "rounding \<Rightarrow> rsi_revert \<Rightarrow> real \<Rightarrow> rsi_revert \<times> int" where
  "rsi_revert_on_bar fl i close =
     (let (r1, v) = rsi_update fl (rr_rsi i) close; i1 = i\<lparr>rr_rsi := r1\<rparr> in
      case v of
        None \<Rightarrow> (i1, HOLD)
      | Some x \<Rightarrow>
          (let sg = (if was_low i1 \<and> rr_low i1 < x then BUY else if was_high i1 \<and> x < rr_high i1 then SELL else HOLD)
           in (i1\<lparr>was_low := x \<le> rr_low i1, was_high := rr_high i1 \<le> x\<rparr>, sg)))"

record bb_break =
  bk_bb :: bollinger
  inside :: bool

definition new_bb_break :: "nat \<Rightarrow> real \<Rightarrow> bb_break" where
  "new_bb_break n k = \<lparr>bk_bb = new_bollinger n k, inside = True\<rparr>"

definition bb_break_on_bar :: "rounding \<Rightarrow> bb_break \<Rightarrow> real \<Rightarrow> bb_break \<times> int" where
  "bb_break_on_bar fl i close =
     (let (b1, v) = bb_update fl (bk_bb i) close; i1 = i\<lparr>bk_bb := b1\<rparr> in
      case v of
        None \<Rightarrow> (i1, HOLD)
      | Some (_, up, lo) \<Rightarrow>
          (let sg = (if inside i1 \<and> up < close then BUY else if inside i1 \<and> close < lo then SELL else HOLD)
           in (i1\<lparr>inside := lo \<le> close \<and> close \<le> up\<rparr>, sg)))"

record gate =
  cooldown_s :: real
  suppressed :: nat
  gate_last :: "((text_u \<times> text_u) \<times> int) list"

definition new_gate :: "real \<Rightarrow> gate" where
  "new_gate c = \<lparr>cooldown_s = c, suppressed = 0, gate_last = []\<rparr>"

definition gate_allow :: "rounding \<Rightarrow> gate \<Rightarrow> text_u \<Rightarrow> text_u \<Rightarrow> int \<Rightarrow> gate \<times> bool" where
  "gate_allow fl g key strat ts =
     (if cooldown_s g \<le> 0 then (g, True)
      else case map_of (gate_last g) (key, strat) of
        Some p \<Rightarrow> if real_of_int (ts - p) < fl (cooldown_s g * 10 ^ 9) then (g\<lparr>suppressed := suppressed g + 1\<rparr>, False)
            else (g\<lparr>gate_last := AList.update (key, strat) ts (gate_last g)\<rparr>, True)
      | None \<Rightarrow> (g\<lparr>gate_last := AList.update (key, strat) ts (gate_last g)\<rparr>, True))"

text \<open>The registry: names of the strategies, unknown names skipped.\<close>

datatype strategy = SMACross sma_cross | RSIRevert rsi_revert | BollingerBreak bb_break

definition registry :: "(string \<times> strategy) list" where
  "registry = [(''sma_cross'', SMACross (new_sma_cross 10 30)), (''rsi_revert'', RSIRevert (new_rsi_revert 14 30 70)),
     (''bb_break'', BollingerBreak (new_bb_break 20 2))]"

definition build :: "string list \<Rightarrow> strategy list" where
  "build names = concat (map (\<lambda>n. case map_of registry n of None \<Rightarrow> [] | Some s \<Rightarrow> [s]) names)"

definition on_bar :: "rounding \<Rightarrow> strategy \<Rightarrow> bar \<Rightarrow> strategy \<times> int" where
  "on_bar fl s b =
     (let c = of_rat (b_close b) in
      case s of
        SMACross i \<Rightarrow> (case sma_cross_on_bar fl i c of (i', r) \<Rightarrow> (SMACross i', r))
      | RSIRevert i \<Rightarrow> (case rsi_revert_on_bar fl i c of (i', r) \<Rightarrow> (RSIRevert i', r))
      | BollingerBreak i \<Rightarrow> (case bb_break_on_bar fl i c of (i', r) \<Rightarrow> (BollingerBreak i', r)))"

fun run_bars :: "rounding \<Rightarrow> strategy \<Rightarrow> bar list \<Rightarrow> strategy \<times> int list" where
  "run_bars fl s [] = (s, [])"
| "run_bars fl s (b # bs) = (let (s1, r) = on_bar fl s b; (s2, rs) = run_bars fl s1 bs in (s2, r # rs))"

subsection \<open>The window\<close>

definition window :: "nat \<Rightarrow> 'a list \<Rightarrow> 'a list" where
  "window n xs = drop (length xs - n) xs"

lemma window_snoc:
  assumes "0 < n"
  shows "window n (xs @ [x]) = (if length (window n xs) = n then tl (window n xs) @ [x] else window n xs @ [x])"
proof (cases "n \<le> length xs")
  case True
  then have "drop (length xs + 1 - n) xs = tl (drop (length xs - n) xs)"
    by (simp add: tl_drop drop_Suc [symmetric] Suc_diff_le)
  with True assms show ?thesis by (simp add: window_def)
next
  case False
  then show ?thesis by (simp add: window_def)
qed

lemma length_window: "length (window n xs) = min n (length xs)"
  by (simp add: window_def)

definition sma_run :: "rounding \<Rightarrow> nat \<Rightarrow> real list \<Rightarrow> sma" where
  "sma_run fl n xs = foldl (\<lambda>i x. fst (sma_update fl i x)) (new_sma n) xs"

definition std_run :: "rounding \<Rightarrow> nat \<Rightarrow> real list \<Rightarrow> rolling" where
  "std_run fl n xs = foldl (\<lambda>i x. fst (std_update fl i x)) (new_rolling n) xs"

lemma sma_run_inv:
  assumes "0 < n"
  shows "sma_n (sma_run exact n xs) = n \<and> sma_q (sma_run exact n xs) = window n xs \<and> sma_sum (sma_run exact n xs) = sum_list (window n xs)"
proof (induction xs rule: rev_induct)
  case Nil
  then show ?case by (simp add: sma_run_def new_sma_def window_def)
next
  case (snoc x xs)
  let ?w = "window n xs"
  have run: "sma_run exact n (xs @ [x]) = fst (sma_update exact (sma_run exact n xs) x)" by (simp add: sma_run_def)
  have "length ?w = n \<Longrightarrow> sum_list ?w - hd ?w = sum_list (tl ?w)" using assms by (cases ?w) auto
  with snoc.IH window_snoc [OF assms, of xs x] run show ?case
    by (auto simp: sma_update_def Let_def deque_append_def)
qed

lemma std_run_inv:
  assumes "0 < n"
  shows "std_n (std_run exact n xs) = n \<and> std_q (std_run exact n xs) = window n xs \<and> std_sum (std_run exact n xs) = sum_list (window n xs)
    \<and> std_sq (std_run exact n xs) = sum_list (map (\<lambda>v. v * v) (window n xs))"
proof (induction xs rule: rev_induct)
  case Nil
  then show ?case by (simp add: std_run_def new_rolling_def window_def)
next
  case (snoc x xs)
  let ?w = "window n xs" and ?f = "\<lambda>v :: real. v * v"
  have run: "std_run exact n (xs @ [x]) = fst (std_update exact (std_run exact n xs) x)" by (simp add: std_run_def)
  have "length ?w = n \<Longrightarrow> sum_list ?w - hd ?w = sum_list (tl ?w)
      \<and> sum_list (map ?f ?w) - hd ?w * hd ?w = sum_list (map ?f (tl ?w))"
    using assms by (cases ?w) auto
  with snoc.IH window_snoc [OF assms, of xs x] run show ?case
    by (auto simp: std_update_def fsum_def Let_def deque_append_def)
qed

definition mean :: "real list \<Rightarrow> real" where "mean w = sum_list w / real (length w)"

text \<open>The sample standard deviation, as the reference computes it from the whole window.\<close>

definition sample_std :: "real list \<Rightarrow> real" where
  "sample_std w = sqrt (sum_list (map (\<lambda>v. (v - mean w) ^ 2) w) / real (length w - (if 1 < length w then 1 else 0)))"

lemma sum_squares: "w \<noteq> [] \<Longrightarrow> sum_list (map (\<lambda>v. (v - mean w) ^ 2) w)
    = sum_list (map (\<lambda>v. v * v) w) - real (length w) * (mean w * mean w)"
proof -
  assume "w \<noteq> []"
  have e: "sum_list (map (\<lambda>v. (v - m) ^ 2) w) = sum_list (map (\<lambda>v. v * v) w) - 2 * m * sum_list w + real (length w) * (m * m)" for m
    by (induction w) (simp_all add: power2_eq_square algebra_simps)
  have "sum_list w = real (length w) * mean w" using \<open>w \<noteq> []\<close> by (simp add: mean_def)
  with e [of "mean w"] show ?thesis by (simp add: algebra_simps)
qed

text \<open>
  In exact arithmetic the rolling sums compute the textbook values. After any prices the moving average is the mean
  of the last \<open>n\<close> prices and the rolling deviation is the sample standard deviation of those
  prices, across every eviction and periodic recomputation; before \<open>n\<close> prices both are undefined.
\<close>

theorem rolling_reference:
  assumes "0 < n"
  shows "sma_value exact (sma_run exact n xs) = (if n \<le> length xs then Some (mean (window n xs)) else None)
    \<and> std_value exact (std_run exact n xs) = (if n \<le> length xs then Some (sample_std (window n xs)) else None)"
proof -
  note s = sma_run_inv [OF assms, of xs] and d = std_run_inv [OF assms, of xs]
  have l: "length (window n xs) = n \<longleftrightarrow> n \<le> length xs" by (auto simp: length_window)
  have "std_value exact (std_run exact n xs) = Some (sample_std (window n xs))" if "n \<le> length xs"
  proof -
    let ?w = "window n xs" and ?n = "real n"
    have w: "length ?w = n" "?w \<noteq> []" using that assms l by auto
    have m: "std_sum (std_run exact n xs) / ?n = mean ?w" using d w by (simp add: mean_def)
    let ?ss = "sum_list (map (\<lambda>v. (v - mean ?w) ^ 2) ?w)"
    have nn: "0 \<le> ?ss" by (rule sum_list_nonneg) auto
    have v: "std_sq (std_run exact n xs) / ?n - mean ?w * mean ?w = ?ss / ?n"
      using d sum_squares [OF w(2)] w(1) assms by (simp add: field_simps)
    then have "max (std_sq (std_run exact n xs) / ?n - mean ?w * mean ?w) 0 = ?ss / ?n" using nn by simp
    moreover have "?ss / ?n * (if 1 < n then ?n / (?n - 1) else 1) = ?ss / real (n - (if 1 < n then 1 else 0))"
      using assms by (cases "1 < n") (auto simp: of_nat_diff)
    moreover have nR: "std_n (std_run exact n xs) = n" "length (std_q (std_run exact n xs)) = n" using d w by simp_all
    ultimately show ?thesis unfolding std_value_def std_ready_def Let_def nR m sample_std_def w(1) by simp
  qed
  with s d l show ?thesis by (auto simp: sma_value_def sma_ready_def std_value_def std_ready_def mean_def)
qed

theorem rolling_reference_witness:
  "sma_value exact (sma_run exact 2 [1, 3, 5]) = Some 4 \<and> std_value exact (std_run exact 2 [7, 3, 5]) = Some (sqrt 2)"
  using rolling_reference [of 2 "[1, 3, 5]"] rolling_reference [of 2 "[7, 3, 5]"]
  by (simp add: window_def mean_def sample_std_def)

subsection \<open>Bounds of the relative strength\<close>

definition rsi_run :: "nat \<Rightarrow> real list \<Rightarrow> rsi" where
  "rsi_run n xs = foldl (\<lambda>i x. fst (rsi_update exact i x)) (new_rsi n) xs"

definition rsi_inv :: "nat \<Rightarrow> rsi \<Rightarrow> bool" where
  "rsi_inv n i \<longleftrightarrow> rsi_n i = n \<and> 0 \<le> gain_sum i \<and> 0 \<le> loss_sum i \<and> 0 \<le> avg_loss i \<and> (\<forall>g. avg_gain i = Some g \<longrightarrow> 0 \<le> g)"

lemma rsi_update_inv:
  assumes "0 < n" "rsi_inv n i"
  shows "rsi_inv n (fst (rsi_update exact i x))"
proof -
  have n: "0 \<le> real n - 1" "0 < real n" using assms(1) by auto
  have avg: "0 \<le> a \<Longrightarrow> 0 \<le> (a * (real n - 1) + max y 0) / real n" for a y
    using n by (intro divide_nonneg_pos add_nonneg_nonneg mult_nonneg_nonneg) auto
  show ?thesis using assms n avg
    by (auto simp: rsi_update_def rsi_inv_def Let_def split: option.split)
qed

lemma rsi_value_bounds:
  assumes "rsi_inv n i" "rsi_value exact i = Some v"
  shows "0 \<le> v \<and> v \<le> 100"
proof -
  obtain g where g: "avg_gain i = Some g" "0 \<le> g" using assms by (cases "avg_gain i") (auto simp: rsi_value_def rsi_inv_def)
  show ?thesis
  proof (cases "avg_loss i = 0")
    case True
    with assms(2) g show ?thesis by (simp add: rsi_value_def)
  next
    case False
    have "1 \<le> 1 + g / avg_loss i" using g(2) assms(1) by (simp add: rsi_inv_def)
    then have "0 \<le> 100 / (1 + g / avg_loss i)" "100 / (1 + g / avg_loss i) \<le> 100" by (simp_all add: divide_le_eq)
    moreover have "v = 100 - 100 / (1 + g / avg_loss i)" using assms(2) g(1) False by (simp add: rsi_value_def Let_def)
    ultimately show ?thesis by linarith
  qed
qed

text \<open>
  In exact arithmetic the relative strength stays between 0 and 100. Whatever the prices, with a window of at
  least one the value is undefined exactly while fewer than \<open>n + 1\<close> prices were seen, and then within the bounds.
\<close>

theorem rsi_bounded:
  assumes "0 < n"
  shows "case rsi_value exact (rsi_run n xs) of None \<Rightarrow> length xs \<le> n | Some v \<Rightarrow> n < length xs \<and> 0 \<le> v \<and> v \<le> 100"
proof -
  have "rsi_inv n (rsi_run n xs)
    \<and> (rsi_prev (rsi_run n xs) = None \<longleftrightarrow> xs = [])
    \<and> (avg_gain (rsi_run n xs) = None \<longleftrightarrow> length xs \<le> n)
    \<and> (length xs \<le> n \<longrightarrow> rsi_count (rsi_run n xs) = length xs - 1)"
  proof (induction xs rule: rev_induct)
    case Nil
    then show ?case by (simp add: rsi_run_def new_rsi_def rsi_inv_def)
  next
    case (snoc x xs)
    let ?i = "rsi_run n xs"
    have run: "rsi_run n (xs @ [x]) = fst (rsi_update exact ?i x)" by (simp add: rsi_run_def)
    have n: "rsi_n ?i = n" using snoc.IH by (simp add: rsi_inv_def)
    show ?case
    proof (cases "rsi_prev ?i")
      case None
      with snoc.IH assms rsi_update_inv [of n ?i x] run show ?thesis by (auto simp: rsi_update_def)
    next
      case (Some p)
      with snoc.IH have "xs \<noteq> []" by auto
      then have l: "0 < length xs" by simp
      show ?thesis
      proof (cases "avg_gain ?i")
        case None
        with snoc.IH have c: "length xs \<le> n" "rsi_count ?i = length xs - 1" by auto
        with None Some n l assms run snoc.IH rsi_update_inv [of n ?i x] show ?thesis
          by (auto simp: rsi_update_def Let_def)
      next
        case (Some g)
        with \<open>rsi_prev ?i = Some p\<close> n l assms run snoc.IH rsi_update_inv [of n ?i x] show ?thesis
          by (auto simp: rsi_update_def Let_def)
      qed
    qed
  qed
  then show ?thesis using rsi_value_bounds [of n "rsi_run n xs"]
    by (auto simp: rsi_value_def split: option.split)
qed

theorem rsi_bounded_witness:
  "\<exists>v. rsi_value exact (rsi_run 2 [10, 12, 11]) = Some v \<and> 0 \<le> v \<and> v \<le> 100"
  using rsi_bounded [of 2 "[10, 12, 11]"] by (auto split: option.splits)

subsection \<open>The moving-average crossover against its definition\<close>

text \<open>The last strict order of two series, over all their past values.\<close>

definition last_order :: "(real \<times> real) list \<Rightarrow> bool option" where
  "last_order ps = (case find (\<lambda>(a, b). a \<noteq> b) (rev ps) of None \<Rightarrow> None | Some (a, b) \<Rightarrow> Some (a > b))"

lemma last_order_snoc: "last_order (ps @ [(a, b)]) = (if a = b then last_order ps else Some (a > b))"
  by (simp add: last_order_def)

definition averages :: "nat \<Rightarrow> nat \<Rightarrow> real list \<Rightarrow> (real \<times> real) list" where
  "averages f s xs = map (\<lambda>i. (mean (window f (take i xs)), mean (window s (take i xs)))) [max f s ..< Suc (length xs)]"

lemma averages_snoc: "averages f s (xs @ [x]) =
    averages f s xs @ (if max f s \<le> length xs + 1 then [(mean (window f (xs @ [x])), mean (window s (xs @ [x])))] else [])"
proof -
  have "map (\<lambda>i. (mean (window f (take i (xs @ [x]))), mean (window s (take i (xs @ [x]))))) [max f s ..< Suc (length xs)]
      = averages f s xs"
    by (simp add: averages_def del: upt_Suc)
  then show ?thesis by (simp add: averages_def)
qed

definition cross_run :: "nat \<Rightarrow> nat \<Rightarrow> real list \<Rightarrow> sma_cross" where
  "cross_run f s xs = foldl (\<lambda>i x. fst (sma_cross_on_bar exact i x)) (new_sma_cross f s) xs"

lemma sma_run_snoc: "sma_update exact (sma_run exact n xs) x = (sma_run exact n (xs @ [x]), sma_value exact (sma_run exact n (xs @ [x])))"
  by (simp add: sma_run_def sma_update_def Let_def)

lemma cross_run_state:
  assumes "0 < f" "0 < s"
  shows "sc_fast (cross_run f s xs) = sma_run exact f xs \<and> sc_slow (cross_run f s xs) = sma_run exact s xs
    \<and> sc_cross (cross_run f s xs) = last_order (averages f s xs)"
proof (induction xs rule: rev_induct)
  case Nil
  have "averages f s [] = []" using assms by (simp add: averages_def)
  then show ?case by (simp add: cross_run_def new_sma_cross_def sma_run_def last_order_def)
next
  case (snoc x xs)
  have run: "cross_run f s (xs @ [x]) = fst (sma_cross_on_bar exact (cross_run f s xs) x)" by (simp add: cross_run_def)
  have v: "sma_value exact (sma_run exact n (xs @ [x])) = (if n \<le> length xs + 1 then Some (mean (window n (xs @ [x]))) else None)"
    if "0 < n" for n
    using sma_run_inv [OF that, of "xs @ [x]"] by (auto simp: sma_value_def sma_ready_def mean_def length_window min_def)
  show ?case
    using snoc.IH v [OF assms(1)] v [OF assms(2)] unfolding run
    by (auto simp: sma_cross_on_bar_def Let_def sma_run_snoc averages_snoc last_order_snoc cross_update_def split: option.split)
qed

text \<open>
  In exact arithmetic the crossover strategy signals exactly the crossings. After any closes \<open>xs\<close>, the bar that
  closes at \<open>x\<close> gives BUY exactly when both averages are defined, the fast one is now above the slow
  one, and the last time they differed it was below; SELL exactly in the mirrored case; otherwise
  HOLD. Equal averages neither signal nor forget the order.
\<close>

theorem crossover_exact:
  assumes "0 < f" "0 < s"
  shows "let sg = snd (sma_cross_on_bar exact (cross_run f s xs) x);
             a = mean (window f (xs @ [x])); b = mean (window s (xs @ [x])); old = last_order (averages f s xs) in
    (sg = BUY \<longleftrightarrow> max f s \<le> length xs + 1 \<and> b < a \<and> old = Some False)
    \<and> (sg = SELL \<longleftrightarrow> max f s \<le> length xs + 1 \<and> a < b \<and> old = Some True)
    \<and> sg \<in> {BUY, SELL, HOLD}"
proof -
  have v: "sma_value exact (sma_run exact n (xs @ [x])) = (if n \<le> length xs + 1 then Some (mean (window n (xs @ [x]))) else None)"
    if "0 < n" for n
    using sma_run_inv [OF that, of "xs @ [x]"] by (auto simp: sma_value_def sma_ready_def mean_def length_window min_def)
  show ?thesis
    using cross_run_state [OF assms, of xs] v [OF assms(1)] v [OF assms(2)]
    by (auto simp: sma_cross_on_bar_def Let_def sma_run_snoc cross_update_def BUY_def SELL_def HOLD_def split: option.split)
qed

theorem crossover_exact_witness:
  "snd (sma_cross_on_bar exact (cross_run 1 2 [4, 2]) 5) = BUY"
proof -
  have "averages 1 2 [4, 2] = [(2, 3)]" by (simp add: averages_def window_def mean_def)
  then show ?thesis
    using crossover_exact [of 1 2 "[4, 2]" 5]
    by (simp add: Let_def last_order_def window_def mean_def)
qed

subsection \<open>What rounding does to the rolling sums\<close>

definition rounds_within :: "rounding \<Rightarrow> real \<Rightarrow> real \<Rightarrow> bool" where
  "rounds_within fl B e \<longleftrightarrow> (\<forall>x. \<bar>x\<bar> \<le> B \<longrightarrow> \<bar>fl x - x\<bar> \<le> e)"

lemma nearest_even_error: "\<bar>of_int (nearest_even x) - x\<bar> \<le> 1 / 2"
  unfolding nearest_even_def Let_def by (auto simp: abs_le_iff)

lemma double_error:
  fixes p :: nat
  assumes "\<bar>x\<bar> \<le> 2 ^ p"
  shows "\<bar>double x - x\<bar> \<le> 2 powr (real p - 53)"
proof -
  let ?u = "2 powr of_int (ulp_exponent x) :: real"
  have "\<lfloor>log 2 \<bar>x\<bar>\<rfloor> \<le> int p"
  proof (cases "x = 0")
    case True
    then show ?thesis by (simp add: log_def)
  next
    case False
    with assms have "log 2 \<bar>x\<bar> \<le> log 2 (2 ^ p)" by (subst log_le_cancel_iff) auto
    then have "log 2 \<bar>x\<bar> \<le> real p" by (simp add: log_nat_power)
    then show ?thesis by linarith
  qed
  then have "of_int (ulp_exponent x) \<le> real p - 52" by (simp add: ulp_exponent_def)
  then have u: "?u \<le> 2 powr (real p - 52)" by simp
  have "double x - x = (of_int (nearest_even (x / ?u)) - x / ?u) * ?u"
    by (simp add: double_def Let_def algebra_simps)
  then have "\<bar>double x - x\<bar> = \<bar>of_int (nearest_even (x / ?u)) - x / ?u\<bar> * ?u" by (simp add: abs_mult)
  also have "\<dots> \<le> 1 / 2 * ?u" by (rule mult_right_mono [OF nearest_even_error]) simp
  also have "\<dots> \<le> 1 / 2 * 2 powr (real p - 52)" using u by simp
  also have "\<dots> = 2 powr (real p - 53)"
    using powr_diff [of 2 "real p - 52" 1] by simp
  finally show ?thesis .
qed

lemma double_rounds: "rounds_within double (2 ^ p) (2 powr (real p - 53))"
  by (simp add: rounds_within_def double_error)

text \<open>One rounding more: a value known to \<open>k\<close> roundings is known to \<open>k + 1\<close> after the next.\<close>

lemma one_more:
  assumes "rounds_within fl B e" "\<bar>a - t\<bar> \<le> k * e" "\<bar>t\<bar> \<le> T" "T + k * e \<le> B"
  shows "\<bar>fl a - t\<bar> \<le> (k + 1) * e"
proof -
  have "\<bar>a\<bar> \<le> B" using assms(2-4) by linarith
  then have "\<bar>fl a - a\<bar> \<le> e" using assms(1) by (simp add: rounds_within_def)
  with assms(2) show ?thesis by (simp add: algebra_simps)
qed

lemma sum_abs_bound:
  fixes f :: "'a \<Rightarrow> real"
  shows "\<forall>v \<in> set w. \<bar>f v\<bar> \<le> M \<Longrightarrow> \<bar>sum_list (map f w)\<bar> \<le> real (length w) * M"
proof (induction w)
  case (Cons v w)
  then have "\<bar>f v + sum_list (map f w)\<bar> \<le> M + real (length w) * M" by (intro order_trans [OF abs_triangle_ineq]) auto
  then show ?case by (simp add: algebra_simps)
qed simp

lemma sum_diff_bound:
  fixes f g :: "'a \<Rightarrow> real"
  shows "\<forall>v \<in> set w. \<bar>f v - g v\<bar> \<le> e \<Longrightarrow> \<bar>sum_list (map f w) - sum_list (map g w)\<bar> \<le> real (length w) * e"
  using sum_abs_bound [of w "\<lambda>v. f v - g v" e] by (simp add: sum_list_subtractf)

text \<open>
  One step of a rolling sum of \<open>f\<close>: the old value leaves, the new one comes, each known to \<open>j\<close> roundings.
\<close>

lemma rolling_step:
  fixes f :: "real \<Rightarrow> real"
  assumes fl: "rounds_within fl B e" "0 \<le> e" and n: "0 < n" "length w \<le> n"
    and s: "\<bar>s - sum_list (map f w)\<bar> \<le> k * e" and M: "\<forall>v \<in> set w. \<bar>f v\<bar> \<le> M" "\<bar>f x\<bar> \<le> M" "0 \<le> M"
    and old: "length w = n \<longrightarrow> \<bar>old - f (hd w)\<bar> \<le> j * e" and new: "\<bar>new - f x\<bar> \<le> j * e" and j: "0 \<le> j"
    and room: "real n * M + (k + 2 * j + 1) * e \<le> B"
    and w': "w' = (if length w = n then tl w @ [x] else w @ [x])"
  shows "\<bar>fl ((if length w = n then fl (s - old) else s) + new) - sum_list (map f w')\<bar> \<le> (k + 2 * j + 2) * e"
proof -
  have rest: "\<bar>(if length w = n then fl (s - old) else s) - (sum_list (map f w') - f x)\<bar> \<le> (k + j + 1) * e"
  proof (cases "length w = n")
    case True
    then have "w \<noteq> []" using n by auto
    then obtain v vs where v: "w = v # vs" by (cases w) auto
    have "\<bar>(s - old) - sum_list (map f vs)\<bar> \<le> (k + j) * e"
      using s old True by (simp add: v algebra_simps)
    moreover have "\<bar>sum_list (map f vs)\<bar> \<le> real n * M"
    proof -
      have "real (length vs) * M \<le> real n * M" using n(2) M(3) by (intro mult_right_mono) (simp_all add: v)
      with sum_abs_bound [of vs f M] M(1) show ?thesis by (simp add: v)
    qed
    moreover have "(k + j) * e \<le> (k + 2 * j + 1) * e" using fl(2) j by (intro mult_right_mono) simp_all
    with room have "real n * M + (k + j) * e \<le> B" by linarith
    ultimately have "\<bar>fl (s - old) - sum_list (map f vs)\<bar> \<le> (k + j + 1) * e" by (rule one_more [OF fl(1)])
    with True show ?thesis by (simp add: w' v)
  next
    case False
    have "k * e \<le> (k + j + 1) * e" using fl(2) j by (intro mult_right_mono) auto
    with s False show ?thesis by (simp add: w')
  qed
  have "\<bar>((if length w = n then fl (s - old) else s) + new) - sum_list (map f w')\<bar> \<le> (k + 2 * j + 1) * e"
    using rest new by (simp add: algebra_simps)
  moreover have "\<bar>sum_list (map f w')\<bar> \<le> real n * M"
  proof -
    have "\<forall>v \<in> set w'. \<bar>f v\<bar> \<le> M" using M(1,2) by (cases w) (auto simp: w')
    moreover have "length w' \<le> n" using n by (auto simp: w')
    moreover from this have "real (length w') * M \<le> real n * M" using M(3) by (intro mult_right_mono) simp_all
    ultimately show ?thesis using sum_abs_bound [of w' f M] by simp
  qed
  ultimately show ?thesis using one_more [OF fl(1), of _ "sum_list (map f w')" "k + 2 * j + 1"] room by (simp add: add.assoc)
qed

text \<open>Between two recomputations every update adds its roundings; a recomputation leaves only its own.\<close>

definition std_close :: "nat \<Rightarrow> real \<Rightarrow> real \<Rightarrow> real list \<Rightarrow> rolling \<Rightarrow> bool" where
  "std_close n e e2 w i \<longleftrightarrow> std_n i = n \<and> std_q i = w \<and> since_recalc i < RECALC
     \<and> \<bar>std_sum i - sum_list w\<bar> \<le> (2 * real (since_recalc i) + 1) * e
     \<and> \<bar>std_sq i - sum_list (map (\<lambda>v. v * v) w)\<bar> \<le> (4 * real (since_recalc i) + real n + 1) * e2"

lemma fsum_close:
  assumes "rounds_within fl B e" "\<bar>sum_list w\<bar> \<le> B"
  shows "\<bar>fsum fl w - sum_list w\<bar> \<le> e"
  using assms by (simp add: rounds_within_def fsum_def)

lemma fsum_squares_close:
  assumes fl: "rounds_within fl B e" "0 \<le> e" and M: "\<forall>v \<in> set w. \<bar>v * v\<bar> \<le> M" "M \<le> B" "0 \<le> M"
    and n: "length w \<le> n" "real n * M + real n * e \<le> B"
  shows "\<bar>fsum fl (map (\<lambda>v. fl (v * v)) w) - sum_list (map (\<lambda>v. v * v) w)\<bar> \<le> (real n + 1) * e"
proof -
  have "\<forall>v \<in> set w. \<bar>fl (v * v) - v * v\<bar> \<le> e" using fl(1) M(1,2) by (force simp: rounds_within_def)
  then have "\<bar>sum_list (map (\<lambda>v. fl (v * v)) w) - sum_list (map (\<lambda>v. v * v) w)\<bar> \<le> real (length w) * e" by (rule sum_diff_bound)
  also have "\<dots> \<le> real n * e" using n(1) fl(2) by (intro mult_right_mono) simp_all
  finally have "\<bar>sum_list (map (\<lambda>v. fl (v * v)) w) - sum_list (map (\<lambda>v. v * v) w)\<bar> \<le> real n * e" .
  moreover have "\<bar>sum_list (map (\<lambda>v. v * v) w)\<bar> \<le> real n * M"
    using sum_abs_bound [OF M(1)] n(1) M(3) by (meson mult_right_mono of_nat_mono order_trans)
  ultimately show ?thesis unfolding fsum_def using n(2) by (rule one_more [OF fl(1)])
qed

lemma std_close_update:
  assumes fl: "rounds_within fl B e" "rounds_within fl B2 e2" "0 \<le> e" "0 \<le> e2" and n: "0 < n" "length w \<le> n"
    and M: "\<forall>v \<in> set w. \<bar>v\<bar> \<le> M" "\<bar>x\<bar> \<le> M"
    and room: "real n * M + 2 * real RECALC * e \<le> B" "real n * (M * M) + (4 * real RECALC + real n) * e2 \<le> B2" "M * M \<le> B2"
    and i: "std_close n e e2 w i" and w': "w' = (if length w = n then tl w @ [x] else w @ [x])"
  shows "std_close n e e2 w' (fst (std_update fl i x))"
proof -
  let ?c = "real (since_recalc i)"
  have c: "?c + 1 \<le> real RECALC" using i by (simp add: std_close_def)
  have M0: "0 \<le> M" using M(2) by linarith
  have sq: "\<bar>v * v\<bar> \<le> M * M" if "\<bar>v\<bar> \<le> M" for v using mult_mono [OF that that M0] by (simp add: abs_mult)
  have sqM: "\<forall>v \<in> set w. \<bar>v * v\<bar> \<le> M * M" "\<bar>x * x\<bar> \<le> M * M" "0 \<le> M * M" using M sq by auto
  have one: "\<bar>fl (v * v) - v * v\<bar> \<le> 1 * e2" if "\<bar>v * v\<bar> \<le> M * M" for v
    using fl(2) that room(3) by (simp add: rounds_within_def)
  have hd: "length w = n \<longrightarrow> hd w \<in> set w" using n by (cases w) auto
  define s0 where "s0 = (if length w = n then fl (std_sum i - hd w) else std_sum i)"
  define q0 where "q0 = (if length w = n then fl (std_sq i - fl (hd w * hd w)) else std_sq i)"
  have "(2 * ?c + 1 + 2 * 0 + 1) * e \<le> 2 * real RECALC * e" using c fl(3) by (intro mult_right_mono) auto
  then have S: "\<bar>fl (s0 + x) - sum_list (map (\<lambda>v. v) w')\<bar> \<le> (2 * ?c + 1 + 2 * 0 + 2) * e"
    unfolding s0_def using i M M0 room(1)
    by (intro rolling_step [OF fl(1,3) n _ _ _ _ _ _ _ _ w']) (auto simp: std_close_def)
  have "(4 * ?c + real n + 1 + 2 * 1 + 1) * e2 \<le> (4 * real RECALC + real n) * e2" using c fl(4) by (intro mult_right_mono) auto
  then have Q: "\<bar>fl (q0 + fl (x * x)) - sum_list (map (\<lambda>v. v * v) w')\<bar> \<le> (4 * ?c + real n + 1 + 2 * 1 + 2) * e2"
    unfolding q0_def using i sqM room(2) one hd
    by (intro rolling_step [OF fl(2,4) n _ _ _ _ _ _ _ _ w']) (auto simp: std_close_def)
  have iw: "std_n i = n" "std_q i = w" using i by (simp_all add: std_close_def)
  have dq: "deque_append n w x = w'" by (simp add: deque_append_def w')
  have len: "length w' \<le> n" using n by (auto simp: w')
  have set': "\<forall>v \<in> set w'. \<bar>v\<bar> \<le> M" using M by (cases w) (auto simp: w')
  let ?i1 = "i\<lparr>std_q := w', std_sum := fl (s0 + x), std_sq := fl (q0 + fl (x * x)), since_recalc := since_recalc i + 1\<rparr>"
  have upd: "fst (std_update fl i x) = (if RECALC \<le> since_recalc i + 1
      then ?i1\<lparr>std_sum := fsum fl w', std_sq := fsum fl (map (\<lambda>v. fl (v * v)) w'), since_recalc := 0\<rparr> else ?i1)"
    by (simp add: std_update_def Let_def iw dq s0_def q0_def)
  show ?thesis
  proof (cases "RECALC \<le> since_recalc i + 1")
    case True
    have "real (length w') * M \<le> real n * M" using len M0 by (intro mult_right_mono) simp_all
    then have "\<bar>sum_list w'\<bar> \<le> real n * M" using sum_abs_bound [of w' "\<lambda>v. v" M] set' by simp
    moreover have "0 \<le> 2 * real RECALC * e" using fl(3) by simp
    ultimately have "\<bar>sum_list w'\<bar> \<le> B" using room(1) by linarith
    from fsum_close [OF fl(1) this] have 1: "\<bar>fsum fl w' - sum_list w'\<bar> \<le> e" .
    have "real n * e2 \<le> (4 * real RECALC + real n) * e2" using fl(4) by (intro mult_right_mono) auto
    then have 2: "\<bar>fsum fl (map (\<lambda>v. fl (v * v)) w') - sum_list (map (\<lambda>v. v * v) w')\<bar> \<le> (real n + 1) * e2"
      using set' sq room(2,3) len sqM(3) by (intro fsum_squares_close [OF fl(2,4), where M = "M * M"]) auto
    show ?thesis using True 1 2 iw by (simp add: upd std_close_def RECALC_def)
  next
    case False
    with S Q iw show ?thesis by (simp add: upd std_close_def algebra_simps)
  qed
qed

lemma std_run_close:
  assumes fl: "rounds_within fl B e" "rounds_within fl B2 e2" "0 \<le> e" "0 \<le> e2" and n: "0 < n"
    and M: "\<forall>x \<in> set xs. \<bar>x\<bar> \<le> M"
    and room: "real n * M + 2 * real RECALC * e \<le> B" "real n * (M * M) + (4 * real RECALC + real n) * e2 \<le> B2" "M * M \<le> B2"
  shows "std_close n e e2 (window n xs) (std_run fl n xs)"
  using M
proof (induction xs rule: rev_induct)
  case Nil
  then show ?case using fl(3,4) by (simp add: std_run_def new_rolling_def window_def std_close_def RECALC_def)
next
  case (snoc x xs)
  have run: "std_run fl n (xs @ [x]) = fst (std_update fl (std_run fl n xs) x)" by (simp add: std_run_def)
  have "set (window n xs) \<subseteq> set xs" by (simp add: window_def set_drop_subset)
  with snoc.prems have "\<forall>v \<in> set (window n xs). \<bar>v\<bar> \<le> M" "\<bar>x\<bar> \<le> M" by auto
  moreover have "std_close n e e2 (window n xs) (std_run fl n xs)" using snoc by simp
  ultimately show ?case unfolding run
    by (intro std_close_update [OF fl n _ _ _ room]) (auto simp: length_window window_snoc [OF n])
qed

text \<open>
  C38: the drift of the rolling deviation stays bounded. With IEEE doubles, and however many prices have come, the
  two sums of \<^verbatim>\<open>RollingStd\<close> hold the window's last \<open>n\<close> prices and differ from the exact sums of these prices and
  of their squares by at most 20,000 and 50,000 times one rounding at the size of the sums (the sums themselves being at
  most \<open>2 ^ p\<close> and \<open>2 ^ q\<close>, with one bit to spare, and the window at most 10,000 long). The bound does not depend on the
  number of updates: the recomputation every 10,000 updates is what keeps it.
\<close>

theorem rolling_drift_bounded:
  assumes "0 < n" "n \<le> RECALC" "\<forall>x \<in> set xs. \<bar>x\<bar> \<le> M" "0 \<le> M" "2 * real n * M \<le> 2 ^ p" "2 * real n * (M * M) \<le> 2 ^ q"
  shows "std_q (std_run double n xs) = window n xs
    \<and> \<bar>std_sum (std_run double n xs) - sum_list (window n xs)\<bar> \<le> 20000 * (2 ^ p / 2 ^ 53)
    \<and> \<bar>std_sq (std_run double n xs) - sum_list (map (\<lambda>v. v * v) (window n xs))\<bar> \<le> 50000 * (2 ^ q / 2 ^ 53)"
proof -
  let ?e = "2 ^ p / 2 ^ 53 :: real" and ?e2 = "2 ^ q / 2 ^ 53 :: real"
  have pow: "2 powr (real k - 53) = 2 ^ k / 2 ^ 53" for k :: nat
    using powr_diff [of 2 "real k" 53] by (simp add: powr_realpow)
  have fl: "rounds_within double (2 ^ p) ?e" "rounds_within double (2 ^ q) ?e2"
    using double_rounds [of p] double_rounds [of q] by (simp_all only: pow)
  have R: "real RECALC = 10000" by (simp add: RECALC_def)
  have n: "1 \<le> real n" "real n \<le> 10000" using assms(1,2) by (simp_all add: RECALC_def)
  have "2 * real RECALC * ?e \<le> 2 ^ p / 2" by (simp add: R)
  then have r1: "real n * M + 2 * real RECALC * ?e \<le> 2 ^ p" using assms(5) by linarith
  have "(4 * real RECALC + real n) * ?e2 \<le> 50000 * ?e2" using n(2) by (intro mult_right_mono) (simp_all add: R)
  also have "\<dots> \<le> 2 ^ q / 2" by simp
  finally have r2: "real n * (M * M) + (4 * real RECALC + real n) * ?e2 \<le> 2 ^ q" using assms(6) by linarith
  have "1 * (M * M) \<le> real n * (M * M)" using n(1) by (intro mult_right_mono) simp_all
  moreover have "0 \<le> real n * (M * M)" by simp
  ultimately have r3: "M * M \<le> 2 ^ q" using assms(6) by linarith
  have close: "std_close n ?e ?e2 (window n xs) (std_run double n xs)"
    by (rule std_run_close [OF fl _ _ assms(1,3) r1 r2 r3]) simp_all
  then have c: "real (since_recalc (std_run double n xs)) \<le> 9999" by (simp add: std_close_def RECALC_def)
  have "(2 * real (since_recalc (std_run double n xs)) + 1) * ?e \<le> 20000 * ?e" using c by (intro mult_right_mono) simp_all
  moreover have "(4 * real (since_recalc (std_run double n xs)) + real n + 1) * ?e2 \<le> 50000 * ?e2"
    using c n(2) by (intro mult_right_mono) simp_all
  ultimately show ?thesis using close unfolding std_close_def by linarith
qed

theorem rolling_drift_bounded_witness:
  "\<bar>std_sum (std_run double 2 [1, 3, 5]) - 8\<bar> \<le> 20000 * (2 ^ 5 / 2 ^ 53)
    \<and> \<bar>std_sq (std_run double 2 [1, 3, 5]) - 34\<bar> \<le> 50000 * (2 ^ 7 / 2 ^ 53)"
  using rolling_drift_bounded [of 2 "[1, 3, 5]" 5 5 7] by (simp add: RECALC_def window_def)

text \<open>
  The moving average has no such repair: a large price takes the small ones with it when it leaves the window. After
  1e16, 1, 1 the average of the last two is shown as one half.
\<close>

lemma floor_log2:
  assumes "2 powr of_int k \<le> x" "x < 2 powr of_int (k + 1)"
  shows "\<lfloor>log 2 \<bar>x\<bar>\<rfloor> = k"
proof -
  have "0 < x" using assms(1) powr_gt_zero [of 2 "of_int k"] by linarith
  moreover have "of_int k \<le> log 2 x" using assms(1) \<open>0 < x\<close> by (simp add: le_log_iff)
  moreover have "log 2 x < of_int k + 1" using assms(2) \<open>0 < x\<close> by (simp add: log_less_iff)
  ultimately show ?thesis by (simp add: floor_eq_iff)
qed

lemma nearest_even_int [simp]: "nearest_even (of_int k) = k"
  by (simp add: nearest_even_def)

lemma double_fixed: "x = of_int k * 2 powr of_int (ulp_exponent x) \<Longrightarrow> double x = x"
proof -
  define u where "u = 2 powr real_of_int (ulp_exponent x)"
  assume "x = of_int k * 2 powr of_int (ulp_exponent x)"
  then have x: "x = of_int k * u" "u \<noteq> 0" by (simp_all add: u_def)
  then have "x / u = of_int k" by simp
  moreover have "double x = of_int (nearest_even (x / u)) * u" by (simp only: double_def Let_def u_def)
  ultimately show "double x = x" using x(1) by (simp only: nearest_even_int)
qed

lemma double_small: "double 0 = 0" "double 1 = 1" "double (1 / 2) = 1 / 2"
proof -
  show "double 0 = 0" by (rule double_fixed [of _ 0]) simp
  have "ulp_exponent 1 = - 52" by (simp add: ulp_exponent_def)
  then show "double 1 = 1" by (intro double_fixed [of _ "2 ^ 52"]) (simp add: powr_minus powr_realpow)
  have "\<lfloor>log 2 \<bar>1 / 2 :: real\<bar>\<rfloor> = - 1" by (rule floor_log2) (simp_all add: powr_minus)
  then have "ulp_exponent (1 / 2) = - 53" by (simp add: ulp_exponent_def)
  then show "double (1 / 2) = 1 / 2" by (intro double_fixed [of _ "2 ^ 52"]) (simp add: powr_minus powr_realpow)
qed

lemma double_large: "double (10 ^ 16) = 10 ^ 16" "double (10 ^ 16 + 1) = 10 ^ 16"
proof -
  have e: "ulp_exponent (10 ^ 16) = 1" "ulp_exponent (10 ^ 16 + 1) = 1"
    using floor_log2 [of 53 "10 ^ 16"] floor_log2 [of 53 "10 ^ 16 + 1"] powr_realpow [of 2 53] powr_realpow [of 2 54]
    by (simp_all add: ulp_exponent_def)
  show "double (10 ^ 16) = 10 ^ 16" by (rule double_fixed [of _ "5 * 10 ^ 15"]) (simp add: e(1) [simplified])
  have f: "\<lfloor>(10 ^ 16 + 1) / 2 :: real\<rfloor> = 5 * 10 ^ 15" by (simp add: floor_eq_iff)
  then have "nearest_even ((10 ^ 16 + 1) / 2) = 5 * 10 ^ 15" unfolding nearest_even_def Let_def f by simp
  then show "double (10 ^ 16 + 1) = 10 ^ 16" unfolding double_def Let_def e(2) by simp
qed

lemma sma_forgets: "sma_value double (sma_run double 2 [10 ^ 16, 1, 1]) = Some (1 / 2) \<and> mean (window 2 [10 ^ 16, 1, 1]) = 1"
proof -
  have s: "sma_update double (new_sma 2) (10 ^ 16) = (\<lparr>sma_n = 2, sma_q = [10 ^ 16], sma_sum = 10 ^ 16\<rparr>, None)"
    using double_large(1) by (simp add: sma_update_def new_sma_def deque_append_def sma_value_def sma_ready_def)
  have s2: "fst (sma_update double \<lparr>sma_n = 2, sma_q = [10 ^ 16], sma_sum = 10 ^ 16\<rparr> 1) = \<lparr>sma_n = 2, sma_q = [10 ^ 16, 1], sma_sum = 10 ^ 16\<rparr>"
    using double_large(2) by (simp add: sma_update_def deque_append_def Let_def)
  have s3: "fst (sma_update double \<lparr>sma_n = 2, sma_q = [10 ^ 16, 1], sma_sum = 10 ^ 16\<rparr> 1) = \<lparr>sma_n = 2, sma_q = [1, 1], sma_sum = 1\<rparr>"
    using double_small by (simp add: sma_update_def deque_append_def Let_def)
  have "sma_run double 2 [10 ^ 16, 1, 1] = \<lparr>sma_n = 2, sma_q = [1, 1], sma_sum = 1\<rparr>"
    by (simp only: sma_run_def foldl_Cons foldl_Nil s s2 s3 fst_conv)
  then show ?thesis using double_small(3) by (simp add: sma_value_def sma_ready_def mean_def window_def)
qed

end
