(* ===== verification/Auth.thy ===== *)
theory Auth
  imports Prelude
begin

section \<open>Desk login: password hash, sessions, failure limit\<close>

text \<open>
  Models \<^verbatim>\<open>src/mdfeed/auth.py\<close>. The clock is an argument, a token is what the caller drew. PBKDF2 is the
  parameter \<open>kdf\<close> (password, salt, iterations to the derived key); \<^verbatim>\<open>compare_digest\<close> is equality.
\<close>

definition ITERATIONS :: nat where "ITERATIONS = 600000"
definition IDLE_TTL_S :: seconds where "IDLE_TTL_S = 1800"
definition ABSOLUTE_TTL_S :: seconds where "ABSOLUTE_TTL_S = 43200"
definition FAIL_WINDOW_S :: seconds where "FAIL_WINDOW_S = 300"
definition FAIL_LIMIT :: nat where "FAIL_LIMIT = 5"
definition LOCK_S :: seconds where "LOCK_S = 60"

subsection \<open>Text helpers\<close>

fun split_char :: "char \<Rightarrow> string \<Rightarrow> string list" where
  "split_char d [] = [[]]"
| "split_char d (c # s) = (if c = d then [] # split_char d s
     else case split_char d s of [] \<Rightarrow> [[c]] | w # ws \<Rightarrow> (c # w) # ws)"

definition hex_char :: "nat \<Rightarrow> char" where
  "hex_char v = char_of (if v < 10 then 48 + v else 87 + v)"

definition hex_val :: "char \<Rightarrow> nat option" where
  "hex_val c = (let v = of_char c :: nat in
     if 48 \<le> v \<and> v \<le> 57 then Some (v - 48) else if 97 \<le> v \<and> v \<le> 102 then Some (v - 87)
     else if 65 \<le> v \<and> v \<le> 70 then Some (v - 55) else None)"

fun to_hex :: "bytes \<Rightarrow> string" where
  "to_hex [] = []"
| "to_hex (b # bs) = hex_char (unat b div 16) # hex_char (unat b mod 16) # to_hex bs"

definition is_blank :: "char \<Rightarrow> bool" where
  "is_blank c \<longleftrightarrow> (let v = of_char c :: nat in 9 \<le> v \<and> v \<le> 13 \<or> v = 32)"

text \<open>\<^verbatim>\<open>bytes.fromhex\<close>: pairs of hex digits, ASCII blanks allowed between the pairs.\<close>

fun from_hex :: "string \<Rightarrow> bytes option" where
  "from_hex [] = Some []"
| "from_hex (c # s) =
     (if is_blank c then from_hex s
      else case s of [] \<Rightarrow> None
        | d # s' \<Rightarrow> (case (hex_val c, hex_val d, from_hex s') of
            (Some x, Some y, Some bs) \<Rightarrow> Some (of_nat (x * 16 + y) # bs) | _ \<Rightarrow> None))"

definition dec_char :: "nat \<Rightarrow> char" where "dec_char d = char_of (48 + d)"

fun dec_string :: "nat \<Rightarrow> string" where
  "dec_string n = (if n < 10 then [dec_char n] else dec_string (n div 10) @ [dec_char (n mod 10)])"

declare dec_string.simps [simp del]

definition is_dec :: "char \<Rightarrow> bool" where
  "is_dec c \<longleftrightarrow> (let v = of_char c :: nat in 48 \<le> v \<and> v \<le> 57)"

text \<open>\<^verbatim>\<open>int(text)\<close> for base 10: blanks around, an optional sign, digits with single underscores between.\<close>

fun digits_val :: "nat \<Rightarrow> string \<Rightarrow> nat option" where
  "digits_val a [] = Some a"
| "digits_val a (c # s) =
     (if is_dec c then digits_val (a * 10 + (of_char c - 48)) s
      else if c = CHR ''_'' \<and> s \<noteq> [] \<and> is_dec (hd s) then digits_val a s else None)"

definition strip_blank :: "string \<Rightarrow> string" where
  "strip_blank s = rev (dropWhile is_blank (rev (dropWhile is_blank s)))"

definition py_int :: "string \<Rightarrow> int option" where
  "py_int s =
     (let t = strip_blank s; neg = (t \<noteq> [] \<and> hd t = CHR ''-''); u = (if t \<noteq> [] \<and> hd t \<in> {CHR ''-'', CHR ''+''} then tl t else t)
      in if u = [] \<or> \<not> is_dec (hd u) then None
         else map_option (\<lambda>n. if neg then - int n else int n) (digits_val 0 u))"

subsection \<open>Password hash\<close>

type_synonym kdf = "string \<Rightarrow> bytes \<Rightarrow> int \<Rightarrow> bytes"

definition pbkdf2_tag :: string where "pbkdf2_tag = ''pbkdf2_sha256''"

definition hash_password :: "kdf \<Rightarrow> bytes \<Rightarrow> string \<Rightarrow> nat \<Rightarrow> string" where
  "hash_password kdf salt pw iters =
     pbkdf2_tag @ ''$'' @ dec_string iters @ ''$'' @ to_hex salt @ ''$'' @ to_hex (kdf pw salt (int iters))"

text \<open>\<^verbatim>\<open>pbkdf2_hmac\<close> raises \<^verbatim>\<open>ValueError\<close> for fewer than one iteration.\<close>

definition verify_password :: "kdf \<Rightarrow> string \<Rightarrow> string \<Rightarrow> bool" where
  "verify_password kdf pw encoded =
     (case split_char CHR ''$'' encoded of
        [algo, iters, salt_hex, hash_hex] \<Rightarrow>
          if algo \<noteq> pbkdf2_tag then False
          else (case (from_hex salt_hex, py_int iters) of
            (Some salt, Some n) \<Rightarrow> 1 \<le> n \<and> to_hex (kdf pw salt n) = hash_hex | _ \<Rightarrow> False)
      | _ \<Rightarrow> False)"

subsection \<open>Failure limit\<close>

record throttle =
  fails :: "seconds list"
  locked_until :: seconds

definition new_throttle :: throttle where "new_throttle = \<lparr>fails = [], locked_until = 0\<rparr>"

definition locked_for :: "seconds \<Rightarrow> throttle \<Rightarrow> seconds" where
  "locked_for now t = max 0 (locked_until t - now)"

definition login_fail :: "seconds \<Rightarrow> throttle \<Rightarrow> throttle" where
  "login_fail now t =
     (let f = filter (\<lambda>x. now - x < FAIL_WINDOW_S) (fails t) @ [now]
      in if FAIL_LIMIT \<le> length f then \<lparr>fails = [], locked_until = now + LOCK_S\<rparr> else t\<lparr>fails := f\<rparr>)"

definition login_success :: "throttle \<Rightarrow> throttle" where
  "login_success t = t\<lparr>fails := []\<rparr>"

subsection \<open>Sessions\<close>

type_synonym 'u sessions = "(string \<times> seconds \<times> seconds \<times> 'u) list"

definition session_create :: "string \<Rightarrow> seconds \<Rightarrow> 'u \<Rightarrow> 'u sessions \<Rightarrow> 'u sessions" where
  "session_create tok now u s = AList.update tok (now, now, u) s"

definition session_check :: "string option \<Rightarrow> seconds \<Rightarrow> 'u sessions \<Rightarrow> 'u sessions \<times> bool" where
  "session_check tok now s =
     (case tok of None \<Rightarrow> (s, False)
      | Some t \<Rightarrow>
          if t = [] then (s, False)
          else case map_of s t of None \<Rightarrow> (s, False)
            | Some (created, last_used, u) \<Rightarrow>
                if now - last_used > IDLE_TTL_S \<or> now - created > ABSOLUTE_TTL_S then (AList.delete t s, False)
                else (AList.update t (created, now, u) s, True))"

definition session_subject :: "string option \<Rightarrow> seconds \<Rightarrow> 'u sessions \<Rightarrow> 'u sessions \<times> 'u option" where
  "session_subject tok now s =
     (case session_check tok now s of
        (s', True) \<Rightarrow> (s', map_option (\<lambda>(_, _, u). u) (map_of s' (the tok))) | (s', False) \<Rightarrow> (s', None))"

definition session_revoke :: "string option \<Rightarrow> 'u sessions \<Rightarrow> 'u sessions" where
  "session_revoke tok s = AList.delete (case tok of None \<Rightarrow> [] | Some t \<Rightarrow> t) s"

definition partition_eq :: "string \<Rightarrow> string \<times> string" where
  "partition_eq s = (takeWhile (\<lambda>c. c \<noteq> CHR ''='') s, drop 1 (dropWhile (\<lambda>c. c \<noteq> CHR ''='') s))"

definition cookie_value :: "string \<Rightarrow> string \<Rightarrow> string option" where
  "cookie_value header name =
     map_option snd (find (\<lambda>(k, v). k = name) (map (\<lambda>p. partition_eq (strip_blank p)) (split_char CHR '';'' header)))"

subsection \<open>The failures that still count\<close>

text \<open>
  The failures a throttle holds are the last ones recorded. One more failure keeps this, and every failure
  it forgets is \<open>LOCK_S\<close> or more before the end of the lock or before now.
\<close>

lemma filter_suffix:
  fixes xs :: "'a :: linorder list"
  assumes "sorted xs" "\<And>x y. x \<le> y \<Longrightarrow> P x \<Longrightarrow> P y"
  shows "\<exists>d. xs = d @ filter P xs \<and> (\<forall>x \<in> set d. \<not> P x)"
  using assms(1)
proof (induction xs)
  case (Cons x xs)
  show ?case
  proof (cases "P x")
    case True
    with Cons.prems assms(2) have "filter P (x # xs) = x # xs" by (auto simp: filter_id_conv)
    then show ?thesis by (intro exI [of _ "[]"]) simp
  next
    case False
    with Cons obtain d where "xs = d @ filter P xs" "\<forall>x \<in> set d. \<not> P x" by auto
    with False show ?thesis by (intro exI [of _ "x # d"]) auto
  qed
qed simp

definition counts_failures :: "seconds \<Rightarrow> seconds list \<Rightarrow> throttle \<Rightarrow> bool" where
  "counts_failures now es t \<longleftrightarrow> (\<exists>old. es = old @ fails t \<and> length (fails t) < FAIL_LIMIT
     \<and> (\<forall>x \<in> set old. x + LOCK_S \<le> locked_until t \<or> x + LOCK_S \<le> now))"

lemma counts_failures_later: "counts_failures now es t \<Longrightarrow> now \<le> now' \<Longrightarrow> counts_failures now' es t"
  unfolding counts_failures_def by fastforce

lemma counts_failures_fail:
  assumes "counts_failures now es t" "sorted es" "\<forall>x \<in> set es. x \<le> now"
  shows "counts_failures now (es @ [now]) (login_fail now t)"
proof -
  obtain old where old: "es = old @ fails t" "\<forall>x \<in> set old. x + LOCK_S \<le> locked_until t \<or> x + LOCK_S \<le> now"
    using assms(1) unfolding counts_failures_def by blast
  let ?keep = "filter (\<lambda>x. now - x < FAIL_WINDOW_S) (fails t)"
  have "sorted (fails t)" using assms(2) old(1) by (simp add: sorted_append)
  then obtain d where d: "fails t = d @ ?keep" "\<forall>x \<in> set d. \<not> now - x < FAIL_WINDOW_S"
    using filter_suffix [of "fails t" "\<lambda>x. now - x < FAIL_WINDOW_S"] by auto
  have d': "\<forall>x \<in> set d. x + LOCK_S \<le> now" using d(2) by (auto simp: FAIL_WINDOW_S_def LOCK_S_def)
  show ?thesis
  proof (cases "FAIL_LIMIT \<le> length (?keep @ [now])")
    case True
    then have t: "login_fail now t = \<lparr>fails = [], locked_until = now + LOCK_S\<rparr>" by (simp add: login_fail_def Let_def)
    show ?thesis using assms(3) by (auto simp: counts_failures_def t FAIL_LIMIT_def)
  next
    case False
    then have t: "login_fail now t = t\<lparr>fails := ?keep @ [now]\<rparr>" by (simp add: login_fail_def Let_def)
    have "es @ [now] = (old @ d) @ (?keep @ [now])" using old(1) d(1) by simp
    moreover have "\<forall>x \<in> set (old @ d). x + LOCK_S \<le> locked_until t \<or> x + LOCK_S \<le> now" using old(2) d' by auto
    ultimately show ?thesis using False by (auto simp: counts_failures_def t)
  qed
qed

subsection \<open>The hash line and its check\<close>

lemma hex_char_val: "v < 16 \<Longrightarrow> hex_val (hex_char v) = Some v"
  by (auto simp: hex_val_def hex_char_def Let_def)

lemma hex_char_ok: "v < 16 \<Longrightarrow> \<not> is_blank (hex_char v) \<and> hex_char v \<noteq> CHR ''$''"
proof -
  assume "v < 16"
  then have "of_char (hex_char v) \<noteq> (of_char CHR ''$'' :: nat) \<and> \<not> is_blank (hex_char v)"
    by (auto simp: hex_char_def is_blank_def Let_def)
  then show ?thesis by metis
qed

lemma from_to_hex: "from_hex (to_hex bs) = Some bs"
proof (induction bs)
  case (Cons b bs)
  have "unat b < 256" using unsigned_less [of b] by simp
  then have "unat b div 16 < 16" "unat b mod 16 < 16" by simp_all
  with Cons show ?case by (simp add: hex_char_ok hex_char_val)
qed simp

lemma to_hex_no_dollar: "CHR ''$'' \<notin> set (to_hex bs)"
proof (induction bs)
  case (Cons b bs)
  have "unat b < 256" using unsigned_less [of b] by simp
  then have "unat b div 16 < 16" "unat b mod 16 < 16" by simp_all
  with Cons hex_char_ok [of "unat b div 16"] hex_char_ok [of "unat b mod 16"] show ?case by auto
qed simp

lemma dec_char_ok: "d < 10 \<Longrightarrow> is_dec (dec_char d) \<and> of_char (dec_char d) = 48 + d \<and> \<not> is_blank (dec_char d)"
  by (auto simp: dec_char_def is_dec_def is_blank_def Let_def)

lemma is_dec_not: "is_dec c \<Longrightarrow> c \<noteq> CHR ''$'' \<and> c \<noteq> CHR ''-'' \<and> c \<noteq> CHR ''+'' \<and> \<not> is_blank c"
  by (auto simp: is_dec_def is_blank_def Let_def)

lemma digits_val_append: "\<forall>c \<in> set s. is_dec c \<Longrightarrow> digits_val a (s @ t) =
    (case digits_val a s of None \<Rightarrow> None | Some v \<Rightarrow> digits_val v t)"
  by (induction s arbitrary: a) auto

lemma dec_string_ok: "(\<forall>c \<in> set (dec_string n). is_dec c) \<and> dec_string n \<noteq> [] \<and> digits_val 0 (dec_string n) = Some n"
proof (induction n rule: dec_string.induct)
  case (1 n)
  show ?case
  proof (cases "n < 10")
    case True
    then have "dec_string n = [dec_char n]" by (simp add: dec_string.simps [of n])
    with True dec_char_ok show ?thesis by simp
  next
    case False
    then have e: "dec_string n = dec_string (n div 10) @ [dec_char (n mod 10)]" by (subst dec_string.simps) simp
    note IH = 1 [OF False]
    have m: "n mod 10 < 10" by simp
    from IH dec_char_ok [OF m] show ?thesis by (simp add: e digits_val_append)
  qed
qed

lemma py_int_dec: "py_int (dec_string n) = Some (int n)"
proof -
  note ok = dec_string_ok [of n]
  obtain c s where cs: "dec_string n = c # s" using ok by (cases "dec_string n") auto
  have "\<forall>c \<in> set (dec_string n). \<not> is_blank c" using ok is_dec_not by blast
  then have "strip_blank (dec_string n) = dec_string n"
    by (simp add: strip_blank_def dropWhile_eq_self_iff hd_rev)
      (metis cs dropWhile_eq_self_iff hd_in_set last_in_set list.distinct(1) rev_rev_ident set_rev hd_rev)
  moreover have "is_dec c" using ok cs by simp
  moreover have "digits_val 0 (c # s) = Some n" using ok cs by metis
  ultimately show ?thesis using cs is_dec_not [of c] by (simp add: py_int_def Let_def)
qed

lemma split_char_none: "d \<notin> set s \<Longrightarrow> split_char d s = [s]"
  by (induction s) auto

lemma split_char_first: "d \<notin> set s \<Longrightarrow> split_char d (s @ d # t) = s # split_char d t"
  by (induction s) auto

lemma verify_hash:
  assumes "1 \<le> iters"
  shows "verify_password kdf pw' (hash_password kdf salt pw iters) \<longleftrightarrow> to_hex (kdf pw' salt (int iters)) = to_hex (kdf pw salt (int iters))"
proof -
  have d: "CHR ''$'' \<notin> set (dec_string iters)" "CHR ''$'' \<notin> set pbkdf2_tag"
    using dec_string_ok [of iters] is_dec_not by (auto simp: pbkdf2_tag_def)
  have "split_char CHR ''$'' (hash_password kdf salt pw iters)
      = [pbkdf2_tag, dec_string iters, to_hex salt, to_hex (kdf pw salt (int iters))]"
    using d to_hex_no_dollar by (simp add: hash_password_def split_char_first split_char_none)
  with assms show ?thesis by (simp add: verify_password_def from_to_hex py_int_dec)
qed

lemma to_hex_inject: "to_hex a = to_hex b \<longleftrightarrow> a = b"
  by (metis from_to_hex option.inject)

text \<open>
  The stored line checks the password it was made from. For any salt and at least one
  iteration, verifying a password against the line printed for another succeeds exactly when both
  derive the same key.
\<close>

theorem password_roundtrip:
  assumes "1 \<le> iters"
  shows "verify_password kdf pw' (hash_password kdf salt pw iters) \<longleftrightarrow> kdf pw' salt (int iters) = kdf pw salt (int iters)"
  using verify_hash [OF assms] by (simp add: to_hex_inject)

theorem password_roundtrip_witness:
  "verify_password (\<lambda>pw salt n. salt) ''a'' (hash_password (\<lambda>pw salt n. salt) [1, 255] ''a'' 600000)"
  using password_roundtrip [of 600000 "\<lambda>pw salt n. salt" "''a''" "[1, 255]" "''a''"] by simp

subsection \<open>The life of a session\<close>

text \<open>A session is honoured only within its idle and absolute limits, and a revoked one never.\<close>

lemma session_check_limits:
  assumes "session_check (Some t) now s = (s', True)"
  shows "\<exists>created last_used u. map_of s t = Some (created, last_used, u) \<and> now - last_used \<le> IDLE_TTL_S
    \<and> now - created \<le> ABSOLUTE_TTL_S \<and> map_of s' t = Some (created, now, u)"
  using assms by (auto simp: session_check_def update_conv' split: if_splits option.splits)

lemma session_revoked: "snd (session_check (Some t) now (session_revoke (Some t) s)) = False"
  by (auto simp: session_check_def session_revoke_def delete_conv' split: option.split)

end
