(* ===== verification/OrderDesk.thy ===== *)
theory OrderDesk
  imports Models Ledger Auth
begin

section \<open>The order desk\<close>

text \<open>
  Models \<^verbatim>\<open>src/mdfeed/services/order_desk.py\<close> over the ledger: the submission of an order, the
  reconciliation pass with its confirmation and day close, execution notices, the quote cache, login
  and the health report. An awaited broker call is an \<open>answer\<close>, and what other tasks did to the
  ledger while it was awaited is the list of ledger calls given with it; \<open>Died\<close> is a process that
  never came back from the call. Texts are the characters of their UTF-8 bytes. HTTP, TLS, start-up checks and logging are not modelled.
\<close>

datatype 'a answer = Answer 'a | RejectedBy string string | UncertainOutcome string | Died

subsection \<open>Requests and replies\<close>

record desk_config =
  order_max_qty :: int
  order_max_krw :: int
  order_daily_max_krw :: int
  reconcile_closed_s :: seconds

text \<open>The fields of a request body after \<^verbatim>\<open>str\<close> and \<^verbatim>\<open>int\<close>; \<open>None\<close> when one of them raised.\<close>

record submit_request =
  rq_cid :: string
  rq_symbol :: string
  rq_side :: string
  rq_qty :: int
  rq_price :: int

datatype blocked_reason =
    DayIsClosed
  | OpenOrderExists
  | NoPrice
  | PerOrderLimit int
  | DailyLimit int int
  | NoTotalsYet

datatype reply =
    BadFields
  | BadFormat
  | BadQuantity
  | ExistingOrder order
  | OrderReply order
  | Blocked blocked_reason
  | ServerError

type_synonym response = "nat \<times> reply"

text \<open>\<^verbatim>\<open>re.match\<close> of a pattern that ends in \<^verbatim>\<open>$\<close>: one newline may follow the match.\<close>

definition chop_newline :: "string \<Rightarrow> string" where
  "chop_newline s = (if s \<noteq> [] \<and> last s = CHR 0x0A then butlast s else s)"

definition word_char :: "char \<Rightarrow> bool" where
  "word_char c \<longleftrightarrow> (let v = of_char c :: nat in 65 \<le> v \<and> v \<le> 90 \<or> 97 \<le> v \<and> v \<le> 122 \<or> 48 \<le> v \<and> v \<le> 57 \<or> v = 95 \<or> v = 45)"

definition client_id_ok :: "string \<Rightarrow> bool" where
  "client_id_ok s \<longleftrightarrow> (let t = chop_newline s in 8 \<le> length t \<and> length t \<le> 64 \<and> list_all word_char t)"

text \<open>
  \<^verbatim>\<open>\d\<close> in a pattern on \<^verbatim>\<open>str\<close> is any character of the Unicode category Nd. These are runs of ten code
  points; the list has their zeros in the Unicode 15 of Python 3.12, which the container image runs.
\<close>

definition DIGIT_ZEROS :: "int list" where
  "DIGIT_ZEROS =
     [0x30, 0x660, 0x6F0, 0x7C0, 0x966, 0x9E6, 0xA66, 0xAE6, 0xB66, 0xBE6, 0xC66, 0xCE6, 0xD66, 0xDE6, 0xE50, 0xED0,
      0xF20, 0x1040, 0x1090, 0x17E0, 0x1810, 0x1946, 0x19D0, 0x1A80, 0x1A90, 0x1B50, 0x1BB0, 0x1C40, 0x1C50, 0xA620,
      0xA8D0, 0xA900, 0xA9D0, 0xA9F0, 0xAA50, 0xABF0, 0xFF10, 0x104A0, 0x10D30, 0x11066, 0x110F0, 0x11136, 0x111D0,
      0x112F0, 0x11450, 0x114D0, 0x11650, 0x116C0, 0x11730, 0x118E0, 0x11950, 0x11C50, 0x11D50, 0x11DA0, 0x11F50,
      0x16A60, 0x16AC0, 0x16B50, 0x1D7CE, 0x1D7D8, 0x1D7E2, 0x1D7EC, 0x1D7F6, 0x1E140, 0x1E2F0, 0x1E4F0, 0x1E950,
      0x1FBF0]"

definition digit_char :: "nat \<Rightarrow> bool" where
  "digit_char c \<longleftrightarrow> list_ex (\<lambda>z. z \<le> int c \<and> int c < z + 10) DIGIT_ZEROS"

definition symbol_ok :: "string \<Rightarrow> bool" where
  "symbol_ok s \<longleftrightarrow>
     (let b = map of_char (chop_newline s) :: nat list; u = utf8_decode b
      in utf8 u = b \<and> length u = 6 \<and> list_all digit_char u)"

definition side_of :: "string \<Rightarrow> side option" where
  "side_of s = (if s = ''buy'' then Some buy else if s = ''sell'' then Some sell else None)"

subsection \<open>State\<close>

text \<open>A difference reported by a reconciliation pass.\<close>

datatype discrepancy = TotalsBreak break_row | HoldingsBreak mismatch

text \<open>An order handed to the broker, with the price its limits were checked against.\<close>

record sending =
  s_cid :: string
  s_key :: key
  s_qty :: int
  s_price :: int
  s_unit :: int

record desk =
  book_ledger :: ledger
  order_counts :: "(string \<times> int) list"
  kicked :: bool
  seen_breaks :: "discrepancy set"
  open_breaks :: "discrepancy set"
  last_reconcile_at :: seconds
  close_status :: "close_result option"
  close_blocked :: bool
  sendings :: "sending list"

definition new_desk :: "seconds \<Rightarrow> ledger \<Rightarrow> desk" where
  "new_desk now l = \<lparr>book_ledger = fst (recover_pending now l), order_counts = [], kicked = False, seen_breaks = {},
     open_breaks = {}, last_reconcile_at = 0, close_status = None, close_blocked = False, sendings = []\<rparr>"

definition count_order :: "string \<Rightarrow> desk \<Rightarrow> desk" where
  "count_order r d = d\<lparr>order_counts := AList.update r (dict_get (order_counts d) r + 1) (order_counts d)\<rparr>"

definition blocked :: "blocked_reason \<Rightarrow> nat \<Rightarrow> desk \<Rightarrow> desk \<times> response option" where
  "blocked why status d = (count_order ''blocked'' d, Some (status, Blocked why))"

text \<open>What other tasks did to the ledger during an await.\<close>

definition meanwhile :: "(ledger_op \<times> seconds) list \<Rightarrow> desk \<Rightarrow> desk" where
  "meanwhile ops d = d\<lparr>book_ledger := fold ledger_step ops (book_ledger d)\<rparr>"

record awaits =
  at_price :: "int answer"
  during_price :: "(ledger_op \<times> seconds) list"
  at_totals :: "totals answer"
  during_totals :: "(ledger_op \<times> seconds) list"
  at_order :: "(string \<times> string) answer"
  during_order :: "(ledger_op \<times> seconds) list"
  new_at :: seconds
  mark_at :: seconds

subsection \<open>Submitting an order\<close>

text \<open>\<^verbatim>\<open>str(Rejected)\<close>.\<close>

definition rejection_text :: "string \<Rightarrow> string \<Rightarrow> string" where
  "rejection_text code msg = ''['' @ code @ ''] '' @ msg"

definition record_outcome :: "nat \<Rightarrow> ostate \<Rightarrow> string option \<Rightarrow> string \<Rightarrow> string \<Rightarrow> nat \<Rightarrow> seconds \<Rightarrow> desk \<Rightarrow> desk \<times> response option" where
  "record_outcome i s no msg result status now d =
     (case mark i s no (Some msg) now (book_ledger d) of
        (l, Inr o') \<Rightarrow> (count_order result (d\<lparr>book_ledger := l\<rparr>), Some (status, OrderReply o'))
      | (l, Inl _) \<Rightarrow> (d\<lparr>book_ledger := l\<rparr>, Some (500, ServerError)))"

definition settle :: "nat \<Rightarrow> awaits \<Rightarrow> desk \<Rightarrow> desk \<times> response option" where
  "settle i e d =
     (case at_order e of
        Died \<Rightarrow> (d, None)
      | RejectedBy c m \<Rightarrow> record_outcome i REJECTED None (rejection_text c m) ''rejected'' 422 (mark_at e) d
      | UncertainOutcome m \<Rightarrow>
          (case record_outcome i UNKNOWN None m ''unknown'' 202 (mark_at e) d of (d', r) \<Rightarrow> (d'\<lparr>kicked := True\<rparr>, r))
      | Answer (no, m) \<Rightarrow>
          (case record_outcome i ACCEPTED (Some no) m ''accepted'' 201 (mark_at e) d of (d', r) \<Rightarrow> (d'\<lparr>kicked := True\<rparr>, r)))"

text \<open>The order is written down before it is sent.\<close>

definition send_order :: "key \<Rightarrow> submit_request \<Rightarrow> int \<Rightarrow> awaits \<Rightarrow> desk \<Rightarrow> desk \<times> response option" where
  "send_order k r unit e d =
     (case new_order (rq_cid r) k (rq_qty r) (rq_price r) unit (new_at e) (book_ledger d) of
        (l, Inl _) \<Rightarrow> (d\<lparr>book_ledger := l\<rparr>, Some (500, ServerError))
      | (l, Inr (o', _)) \<Rightarrow>
          settle (oid o') e
            (meanwhile (during_order e)
              (d\<lparr>book_ledger := l,
                 sendings := sendings d @ [\<lparr>s_cid = rq_cid r, s_key = k, s_qty = rq_qty r, s_price = rq_price r,
                   s_unit = unit\<rparr>]\<rparr>)))"

definition take_baseline :: "key \<Rightarrow> submit_request \<Rightarrow> int \<Rightarrow> awaits \<Rightarrow> desk \<Rightarrow> desk \<times> response option" where
  "take_baseline k r unit e d =
     (if totals_baseline (book_ledger d) k \<noteq> None then send_order k r unit e d
      else let d1 = meanwhile (during_totals e) d in
        (case at_totals e of
           Died \<Rightarrow> (d1, None)
         | RejectedBy _ _ \<Rightarrow> blocked NoTotalsYet 503 d1
         | UncertainOutcome _ \<Rightarrow> blocked NoTotalsYet 503 d1
         | Answer t \<Rightarrow> send_order k r unit e (d1\<lparr>book_ledger := set_totals_baseline k t (book_ledger d1)\<rparr>)))"

definition check_limits :: "desk_config \<Rightarrow> key \<Rightarrow> submit_request \<Rightarrow> int \<Rightarrow> awaits \<Rightarrow> desk \<Rightarrow> desk \<times> response option" where
  "check_limits cfg k r unit e d =
     (let notional = unit * rq_qty r in
      if notional > order_max_krw cfg then blocked (PerOrderLimit notional) 422 d
      else let used = notional_today (book_ledger d) (fst k) in
        if used + notional > order_daily_max_krw cfg then blocked (DailyLimit used notional) 422 d
        else take_baseline k r unit e d)"

definition submit :: "desk_config \<Rightarrow> string \<Rightarrow> submit_request option \<Rightarrow> awaits \<Rightarrow> desk \<Rightarrow> desk \<times> response option" where
  "submit cfg day rq e d =
     (case rq of
        None \<Rightarrow> (d, Some (400, BadFields))
      | Some r \<Rightarrow>
          (case side_of (rq_side r) of
             None \<Rightarrow> (d, Some (400, BadFormat))
           | Some sd \<Rightarrow>
               if \<not> (client_id_ok (rq_cid r) \<and> symbol_ok (rq_symbol r)) then (d, Some (400, BadFormat))
               else if \<not> (1 \<le> rq_qty r \<and> rq_qty r \<le> order_max_qty cfg) \<or> rq_price r < 0 then (d, Some (400, BadQuantity))
               else let k = (day, rq_symbol r, sd) in
                 (case by_client_id (book_ledger d) (rq_cid r) of
                    Some o' \<Rightarrow> (d, Some (200, ExistingOrder o'))
                  | None \<Rightarrow>
                      if day_close (book_ledger d) day \<noteq> None then blocked DayIsClosed 409 d
                      else if open_order (book_ledger d) k \<noteq> None then blocked OpenOrderExists 409 d
                      else if rq_price r \<noteq> 0 then check_limits cfg k r (rq_price r) e d
                      else let d1 = meanwhile (during_price e) d in
                        (case at_price e of
                           Answer p \<Rightarrow> check_limits cfg k r p e d1
                         | Died \<Rightarrow> (d1, None)
                         | RejectedBy _ _ \<Rightarrow> blocked NoPrice 503 d1
                         | UncertainOutcome _ \<Rightarrow> blocked NoPrice 503 d1))))"

subsection \<open>Execution notices and reconciliation\<close>

definition on_fill_notice :: "string \<Rightarrow> string \<Rightarrow> int \<Rightarrow> int \<Rightarrow> string \<Rightarrow> seconds \<Rightarrow> desk \<Rightarrow> desk \<times> notice_result" where
  "on_fill_notice day no q p key now d =
     (case apply_notice day no q p key now (book_ledger d) of
        (l, r) \<Rightarrow> (d\<lparr>book_ledger := l, kicked := True\<rparr>, r))"

text \<open>A balance as the pass uses it: the holdings by symbol.\<close>

type_synonym holdings = "(string \<times> int) list"

datatype pass_failure = BrokerFailed | LedgerRaised py_error | PassDied

fun apply_all :: "string \<Rightarrow> (string \<times> side) list \<Rightarrow> (totals answer \<times> (ledger_op \<times> seconds) list \<times> seconds) list \<Rightarrow> desk
    \<Rightarrow> desk \<times> (pass_failure + discrepancy list)" where
  "apply_all day [] as d = (d, Inr [])"
| "apply_all day (sk # sks) [] d = (d, Inl PassDied)"
| "apply_all day ((sy, sd) # sks) ((a, ops, now) # as) d =
     (let d1 = meanwhile ops d in
      case a of
        Died \<Rightarrow> (d1, Inl PassDied)
      | RejectedBy _ _ \<Rightarrow> (d1, Inl BrokerFailed)
      | UncertainOutcome _ \<Rightarrow> (d1, Inl BrokerFailed)
      | Answer t \<Rightarrow>
          (case apply_totals (day, sy, sd) t now (book_ledger d1) of
             (l, bs) \<Rightarrow>
               (case apply_all day sks as (d1\<lparr>book_ledger := l\<rparr>) of
                  (d2, Inr found) \<Rightarrow> (d2, Inr (map TotalsBreak bs @ found))
                | (d2, Inl f) \<Rightarrow> (d2, Inl f))))"

record pass_answers =
  first_balance :: "holdings answer"
  during_first :: "(ledger_op \<times> seconds) list"
  totals_answers :: "(totals answer \<times> (ledger_op \<times> seconds) list \<times> seconds) list"
  last_balance :: "holdings answer"
  during_last :: "(ledger_op \<times> seconds) list"
  pass_now :: seconds

definition take_holdings :: "string \<Rightarrow> pass_answers \<Rightarrow> desk \<Rightarrow> desk \<times> pass_failure option" where
  "take_holdings day a d =
     (if has_holdings_baseline (book_ledger d) day then (d, None)
      else let d1 = meanwhile (during_first a) d in
        (case first_balance a of
           Died \<Rightarrow> (d1, Some PassDied)
         | RejectedBy _ _ \<Rightarrow> (d1, Some BrokerFailed)
         | UncertainOutcome _ \<Rightarrow> (d1, Some BrokerFailed)
         | Answer hs \<Rightarrow>
             (case set_holdings_baseline day hs (pass_now a) (book_ledger d1) of
                (l, err) \<Rightarrow> (d1\<lparr>book_ledger := l\<rparr>, map_option LedgerRaised err))))"

definition reconcile_once :: "string \<Rightarrow> pass_answers \<Rightarrow> desk \<Rightarrow> desk \<times> (pass_failure + discrepancy list)" where
  "reconcile_once day a d =
     (case take_holdings day a d of
        (d1, Some f) \<Rightarrow> (d1, Inl f)
      | (d1, None) \<Rightarrow>
          (case apply_all day (keys_to_watch (book_ledger d1) day) (totals_answers a) d1 of
             (d2, Inl f) \<Rightarrow> (d2, Inl f)
           | (d2, Inr found) \<Rightarrow>
               (let d3 = meanwhile (during_last a) d2 in
                case last_balance a of
                  Died \<Rightarrow> (d3, Inl PassDied)
                | RejectedBy _ _ \<Rightarrow> (d3, Inl BrokerFailed)
                | UncertainOutcome _ \<Rightarrow> (d3, Inl BrokerFailed)
                | Answer hs \<Rightarrow>
                    (d3, Inr (found @ map HoldingsBreak (reconcile_holdings (book_ledger d3) day hs (pass_now a)))))))"

text \<open>Only what two passes in a row found is reported.\<close>

definition confirm :: "discrepancy list \<Rightarrow> desk \<Rightarrow> desk" where
  "confirm found d = d\<lparr>open_breaks := set found \<inter> seen_breaks d, seen_breaks := set found\<rparr>"

definition is_closed :: "close_result \<Rightarrow> bool" where
  "is_closed r = (case r of Closed _ _ \<Rightarrow> True | _ \<Rightarrow> False)"

definition DAY_CLOSE_AT :: nat where "DAY_CLOSE_AT = 15 * 60 + 40"

definition maybe_close :: "string \<Rightarrow> nat \<Rightarrow> seconds \<Rightarrow> discrepancy list \<Rightarrow> desk \<Rightarrow> desk" where
  "maybe_close day minute now found d =
     (if minute < DAY_CLOSE_AT then d
      else case close_day day (length found) now (book_ledger d) of
        (l, r) \<Rightarrow> d\<lparr>book_ledger := l, close_status := Some r, close_blocked := \<not> is_closed r\<rparr>)"

text \<open>One turn of the loop; an exception counts an error and leaves the rest for the next turn.\<close>

definition reconcile_turn :: "string \<Rightarrow> nat \<Rightarrow> pass_answers \<Rightarrow> desk \<Rightarrow> desk" where
  "reconcile_turn day minute a d =
     (case reconcile_once day a d of
        (d1, Inl PassDied) \<Rightarrow> d1
      | (d1, Inl _) \<Rightarrow> (count_order ''reconcile_errors_total'' d1)\<lparr>kicked := False\<rparr>
      | (d1, Inr found) \<Rightarrow>
          (let d2 = count_order ''reconcile_runs_total'' (confirm found d1)
           in (maybe_close day minute (pass_now a) found (d2\<lparr>last_reconcile_at := pass_now a\<rparr>))\<lparr>kicked := False\<rparr>))"

definition desk_healthy :: "desk_config \<Rightarrow> seconds \<Rightarrow> desk \<Rightarrow> bool" where
  "desk_healthy cfg now d \<longleftrightarrow> last_reconcile_at d \<noteq> 0 \<and> now - last_reconcile_at d < 3 * reconcile_closed_s cfg"

subsection \<open>Login\<close>

datatype login_result = Csrf | Locked int | BadJson | WrongPassword | LoggedIn

record door =
  door_throttle :: throttle
  door_sessions :: "unit sessions"
  door_checks :: "string list"

text \<open>
  \<^verbatim>\<open>login\<close> is in two parts, because the password is checked in a thread (\<^verbatim>\<open>to_thread\<close>) and other requests are
  served meanwhile: \<open>door_checks\<close> are the passwords being checked. \<open>None\<close> as the body is one that
  \<^verbatim>\<open>json.loads\<close> refuses; a body that is no object raises in \<^verbatim>\<open>.get\<close> and leaves the state as it is.
\<close>

definition desk_login_begin :: "string option \<Rightarrow> string option \<Rightarrow> seconds \<Rightarrow> door \<Rightarrow> door \<times> (nat \<times> login_result) option" where
  "desk_login_begin header body now d =
     (if header \<noteq> Some ''1'' then (d, Some (403, Csrf))
      else let wait = locked_for now (door_throttle d) in
        if 0 < wait then (d, Some (429, Locked (py_round wait)))
        else case body of
          None \<Rightarrow> (d, Some (400, BadJson))
        | Some pw \<Rightarrow> (d\<lparr>door_checks := door_checks d @ [pw]\<rparr>, None))"

definition desk_login_end :: "kdf \<Rightarrow> string \<Rightarrow> string \<Rightarrow> seconds \<Rightarrow> string \<Rightarrow> door \<Rightarrow> door \<times> nat \<times> login_result" where
  "desk_login_end kdf hash tok now pw d =
     (if \<not> verify_password kdf pw hash
      then (d\<lparr>door_throttle := login_fail now (door_throttle d)\<rparr>, 401, WrongPassword)
      else (d\<lparr>door_throttle := login_success (door_throttle d),
              door_sessions := session_create tok now () (door_sessions d)\<rparr>, 200, LoggedIn))"

text \<open>\<^verbatim>\<open>guarded\<close>: a write needs the header, everything needs a valid session.\<close>

definition guarded :: "bool \<Rightarrow> string option \<Rightarrow> string option \<Rightarrow> seconds \<Rightarrow> unit sessions \<Rightarrow> unit sessions \<times> nat option" where
  "guarded is_write header cookie now s =
     (if is_write \<and> header \<noteq> Some ''1'' then (s, Some 403)
      else case session_check cookie now s of (s', ok) \<Rightarrow> (s', if ok then None else Some 401))"

subsection \<open>The quote cache\<close>

text \<open>\<^verbatim>\<open>price\<close> when no call for the symbol is in flight: a fresh hit answers without a broker call.\<close>

definition cached_price :: "seconds \<Rightarrow> (string \<times> seconds \<times> int) list \<Rightarrow> string \<Rightarrow> seconds \<Rightarrow> int option" where
  "cached_price ttl qs sy now =
     (case map_of qs sy of None \<Rightarrow> None | Some (t, q) \<Rightarrow> if now - t < ttl then Some q else None)"

definition fetch_price :: "seconds \<Rightarrow> string \<Rightarrow> seconds \<Rightarrow> seconds \<Rightarrow> int answer \<Rightarrow> (string \<times> seconds \<times> int) list
    \<Rightarrow> (string \<times> seconds \<times> int) list \<times> int answer" where
  "fetch_price ttl sy now later a qs =
     (case cached_price ttl qs sy now of
        Some q \<Rightarrow> (qs, Answer q)
      | None \<Rightarrow> (case a of Answer q \<Rightarrow> (AList.update sy (later, q) qs, a) | _ \<Rightarrow> (qs, a)))"

subsection \<open>An order reaches the broker at most once\<close>

datatype desk_event =
    SubmitRequest string "submit_request option" awaits
  | ReconcileTurn string nat pass_answers
  | FillNotice string string int int string seconds
  | Restart seconds

definition restart :: "seconds \<Rightarrow> desk \<Rightarrow> desk" where
  "restart now d = (new_desk now (book_ledger d))\<lparr>sendings := sendings d\<rparr>"

definition desk_step :: "desk_config \<Rightarrow> desk \<Rightarrow> desk_event \<Rightarrow> desk" where
  "desk_step cfg d ev =
     (case ev of
        SubmitRequest day rq e \<Rightarrow> fst (submit cfg day rq e d)
      | ReconcileTurn day minute a \<Rightarrow> reconcile_turn day minute a d
      | FillNotice day no q p key now \<Rightarrow> fst (on_fill_notice day no q p key now d)
      | Restart now \<Rightarrow> restart now d)"

text \<open>
  Other tasks never create or mark an order: both happen only in \<open>submit\<close>, under its lock.
\<close>

fun background :: "ledger_op \<times> seconds \<Rightarrow> bool" where
  "background (NewOrder _ _ _ _ _, _) = False"
| "background (Mark _ _ _ _, _) = False"
| "background _ = True"

definition quiet_awaits :: "awaits \<Rightarrow> bool" where
  "quiet_awaits e \<longleftrightarrow> list_all background (during_price e) \<and> list_all background (during_totals e)
     \<and> list_all background (during_order e)"

definition quiet_pass :: "pass_answers \<Rightarrow> bool" where
  "quiet_pass a \<longleftrightarrow> list_all background (during_first a) \<and> list_all background (during_last a)
     \<and> list_all (\<lambda>(_, ops, _). list_all background ops) (totals_answers a)"

fun quiet_event :: "desk_event \<Rightarrow> bool" where
  "quiet_event (SubmitRequest _ _ e) = quiet_awaits e"
| "quiet_event (ReconcileTurn _ _ a) = quiet_pass a"
| "quiet_event _ = True"

definition within_limits :: "desk_config \<Rightarrow> sending \<Rightarrow> bool" where
  "within_limits cfg s \<longleftrightarrow> 1 \<le> s_qty s \<and> s_qty s \<le> order_max_qty cfg \<and> 0 \<le> s_price s
     \<and> s_unit s * s_qty s \<le> order_max_krw cfg \<and> (s_price s \<noteq> 0 \<longrightarrow> s_unit s = s_price s)"

definition written_down :: "ledger \<Rightarrow> sending \<Rightarrow> bool" where
  "written_down l s \<longleftrightarrow> (\<exists>r \<in> set (orders l). client_order_id r = s_cid s \<and> of_key (s_key s) r \<and> qty r = s_qty s
     \<and> est_price r = s_unit s)"

text \<open>
  What the orders of a day may still cost: quantity times the price checked, over the orders that were not
  refused or found not sent. In \<open>exposure_with I\<close> the orders in \<open>I\<close> count whatever their state.
\<close>

definition exposure_with :: "nat set \<Rightarrow> ledger \<Rightarrow> string \<Rightarrow> int" where
  "exposure_with I l day = (\<Sum>r \<leftarrow> orders l. if trade_date r = day \<and> (state r \<notin> {REJECTED, NOT_SENT} \<or> oid r \<in> I)
     then qty r * est_price r else 0)"

definition day_exposure :: "ledger \<Rightarrow> string \<Rightarrow> int" where
  "day_exposure l day = exposure_with {} l day"

definition sane_prices :: "ledger \<Rightarrow> bool" where
  "sane_prices l \<longleftrightarrow> (\<forall>r \<in> set (orders l). 0 \<le> est_price r)"

definition day_limit_ok :: "nat set \<Rightarrow> desk_config \<Rightarrow> ledger \<Rightarrow> bool" where
  "day_limit_ok I cfg l \<longleftrightarrow> (sane_prices l \<longrightarrow> (\<forall>day. exposure_with I l day \<le> max 0 (order_daily_max_krw cfg)))"

definition desk_sound :: "nat set \<Rightarrow> desk_config \<Rightarrow> desk \<Rightarrow> bool" where
  "desk_sound I cfg d \<longleftrightarrow> ledger_ok (book_ledger d) \<and> distinct (map s_cid (sendings d))
     \<and> (\<forall>s \<in> set (sendings d). within_limits cfg s \<and> written_down (book_ledger d) s)
     \<and> day_limit_ok I cfg (book_ledger d)"

abbreviation desk_ok :: "desk_config \<Rightarrow> desk \<Rightarrow> bool" where
  "desk_ok \<equiv> desk_sound {}"

text \<open>A ledger on which the day's orders cost no more than on another.\<close>

definition lighter :: "nat set \<Rightarrow> ledger \<Rightarrow> ledger \<Rightarrow> bool" where
  "lighter I l l' \<longleftrightarrow> (sane_prices l' \<longrightarrow> sane_prices l \<and> (\<forall>day. exposure_with I l' day \<le> exposure_with I l day))"

lemma lighter_refl [simp]: "lighter I l l"
  by (simp add: lighter_def)

lemma lighter_trans: "lighter I a b \<Longrightarrow> lighter I b c \<Longrightarrow> lighter I a c"
  unfolding lighter_def by (meson order_trans)

lemma day_limit_lighter: "day_limit_ok I cfg l \<Longrightarrow> lighter I l l' \<Longrightarrow> day_limit_ok I cfg l'"
  unfolding day_limit_ok_def lighter_def by (meson order_trans)

lemma sum_list_le:
  fixes f g :: "'a \<Rightarrow> int"
  shows "\<forall>x \<in> set xs. f x \<le> g x \<Longrightarrow> sum_list (map f xs) \<le> sum_list (map g xs)"
  by (induction xs) (simp_all add: add_mono)

lemma refused_stays: "advance r r' \<Longrightarrow> state r \<in> {REJECTED, NOT_SENT} \<Longrightarrow> r' = r"
  by (auto simp: advance_def final_def)

lemma lighter_evolves:
  assumes ev: "evolves l l'" and same: "length (orders l') = length (orders l)" and ok: "\<forall>r \<in> set (orders l). 0 < qty r"
  shows "lighter I l l'"
proof -
  obtain h new where h: "orders l' = map h (orders l) @ new" "\<forall>r \<in> set (orders l). advance r (h r)"
    using ev unfolding evolves_def by blast
  with same have o': "orders l' = map h (orders l)" by simp
  have kept: "trade_date (h r) = trade_date r \<and> qty (h r) = qty r \<and> est_price (h r) = est_price r \<and> oid (h r) = oid r"
    if "r \<in> set (orders l)" for r using that h(2) by (auto simp: advance_def)
  have "exposure_with I l' day \<le> exposure_with I l day" if s: "sane_prices l" for day
    unfolding exposure_with_def o' map_map
  proof (rule sum_list_le, rule ballI)
    fix r assume r: "r \<in> set (orders l)"
    have "0 \<le> qty r * est_price r"
      using s ok r by (intro mult_nonneg_nonneg) (auto simp: sane_prices_def intro: less_imp_le)
    with kept [OF r] refused_stays [of r "h r"] h(2) r
    show "((\<lambda>r. if trade_date r = day \<and> (state r \<notin> {REJECTED, NOT_SENT} \<or> oid r \<in> I) then qty r * est_price r else 0) \<circ> h) r
      \<le> (if trade_date r = day \<and> (state r \<notin> {REJECTED, NOT_SENT} \<or> oid r \<in> I) then qty r * est_price r else 0)"
      by (auto split: if_split)
  qed
  moreover have "sane_prices l' \<longrightarrow> sane_prices l" using kept by (auto simp: sane_prices_def o')
  ultimately show ?thesis unfolding lighter_def by blast
qed

text \<open>A ledger that is as good for the desk as another: sound, and every row kept with its identity.\<close>

definition keeps_rows :: "ledger \<Rightarrow> ledger \<Rightarrow> bool" where
  "keeps_rows l l' \<longleftrightarrow> (ledger_ok l \<longrightarrow> ledger_ok l') \<and>
     (\<forall>r \<in> set (orders l). \<exists>r' \<in> set (orders l'). client_order_id r' = client_order_id r
        \<and> (trade_date r', symbol r', side r') = (trade_date r, symbol r, side r) \<and> qty r' = qty r \<and> est_price r' = est_price r)"

lemma keeps_refl [simp]: "keeps_rows l l"
  by (auto simp: keeps_rows_def)

lemma keeps_trans: "keeps_rows a b \<Longrightarrow> keeps_rows b c \<Longrightarrow> keeps_rows a c"
  unfolding keeps_rows_def by (metis prod.inject)

lemma keeps_evolves: "evolves l l' \<Longrightarrow> (ledger_ok l \<Longrightarrow> ledger_ok l') \<Longrightarrow> keeps_rows l l'"
  unfolding keeps_rows_def evolves_def advance_def by fastforce

lemma keeps_step:
  assumes "ledger_ok l" "\<not> is_mark c"
  shows "keeps_rows l (ledger_step (c, now) l)"
  using assms by (intro keeps_evolves evolves_step ledger_step_ok)

lemma background_not_mark: "background (c, now) \<Longrightarrow> \<not> is_mark c"
  by (cases c) auto

lemma keeps_fold: "ledger_ok l \<Longrightarrow> list_all background ops \<Longrightarrow> keeps_rows l (fold ledger_step ops l)"
proof (induction ops arbitrary: l)
  case (Cons a ops)
  obtain c now where a: "a = (c, now)" by (cases a)
  have "background (c, now)" using Cons.prems(2) by (simp add: a)
  then have "\<not> is_mark c" by (rule background_not_mark)
  then have k: "keeps_rows l (ledger_step a l)" unfolding a by (rule keeps_step [OF Cons.prems(1)])
  then have "ledger_ok (ledger_step a l)" using Cons.prems(1) by (simp add: keeps_rows_def)
  with Cons k show ?case by (auto intro: keeps_trans simp del: ledger_step.simps)
qed simp

lemma keeps_mark: "keeps_rows l (fst (mark i s no msg now l))"
proof -
  have "orders (fst (mark i s no msg now l)) = map (\<lambda>o'. if oid o' = i
      then o'\<lparr>state := s, odno := coalesce no (odno o'), message := coalesce msg (message o'), updated_ts := now\<rparr> else o') (orders l)"
    by (simp add: mark_def Let_def log_event_def update_order_def)
  moreover have "ledger_ok l \<Longrightarrow> ledger_ok (fst (mark i s no msg now l))"
    using ledger_step_ok [of l "Mark i s no msg" now] by simp
  ultimately show ?thesis unfolding keeps_rows_def by (auto simp del: if_image_distrib)
qed

text \<open>Other tasks do not give a client id to a new order.\<close>

definition cids :: "ledger \<Rightarrow> string list" where
  "cids l = map client_order_id (orders l)"

lemma by_client_id_cids: "by_client_id l c = None \<longleftrightarrow> c \<notin> set (cids l)"
  by (auto simp: by_client_id_def find_map_None cids_def)

named_theorems cid_simps \<open>ledger operations keep the client order ids\<close>

lemma cids_map: "orders l' = map h (orders l) \<Longrightarrow> (\<And>r. client_order_id (h r) = client_order_id r) \<Longrightarrow> cids l' = cids l"
  by (simp add: cids_def)

lemma cids_log [cid_simps]: "cids (log_event now k i l) = cids l"
  by (simp add: cids_def)

lemma cids_restate: "orders l' = restate I s now (orders l) \<Longrightarrow> cids l' = cids l"
  unfolding restate_def by (erule cids_map) auto

lemma cids_book [cid_simps]: "cids (book o' q a src now l) = cids l"
  by (rule cids_map [OF book_sel(1)]) auto

lemma cids_resolve [cid_simps]: "cids (fold (resolve_sent now bq) us l) = cids l"
  "cids (fold (resolve_not_sent now bq) us l) = cids l" "cids (fold (expire_one now) us l) = cids l"
  "cids (fold (recover_one now) is l) = cids l"
  by (rule cids_restate, rule fold_resolve_sent fold_resolve_not_sent fold_expire fold_recover)+

lemma cids_allocate [cid_simps]: "cids (allocate now d ad left al os l) = cids l"
  by (induction os arbitrary: left al l) (simp_all add: allocate_Cons cid_simps Let_def)

lemma cids_apply_fills [cid_simps]: "cids (fst (apply_fills k bf ba live bs now l)) = cids l"
  by (simp add: apply_fills_def Let_def cid_simps)

lemma cids_apply_totals [cid_simps]: "cids (fst (apply_totals k t now l)) = cids l"
  by (simp add: apply_totals_def Let_def cid_simps split: option.split)

lemma cids_notice [cid_simps]: "cids (fst (apply_notice d no q p key now l)) = cids l"
  by (cases rule: apply_notice_cases [of d no q p key now l]) (simp_all add: cid_simps, simp add: cids_def)

lemma cids_insert [cid_simps]: "cids (fst (insert_holdings day hs l)) = cids l"
proof (induction hs arbitrary: l)
  case (Cons a hs)
  obtain s q where "a = (s, q)" by (cases a)
  with Cons show ?case by (simp add: cids_def)
qed simp

lemma cids_set_holdings [cid_simps]: "cids (fst (set_holdings_baseline day hs now l)) = cids l"
proof -
  obtain l1 r where i: "insert_holdings day hs l = (l1, r)" by fastforce
  with cids_insert [of day hs l] have "cids l1 = cids l" by simp
  then show ?thesis by (cases r) (simp_all add: set_holdings_baseline_def i, simp add: cids_def)
qed

lemma cids_set_totals [cid_simps]: "cids (set_totals_baseline k t l) = cids l"
  by (simp add: set_totals_baseline_def cids_def split: option.split)

lemma cids_close_day [cid_simps]: "cids (fst (close_day day n now l)) = cids l"
  by (simp add: close_day_def Let_def cids_log split: option.split) (simp add: cids_def cids_resolve [unfolded cids_def])

lemma cids_recover [cid_simps]: "cids (fst (recover_pending now l)) = cids l"
  by (simp add: recover_pending_def Let_def cid_simps)

lemma cids_background: "background (c, now) \<Longrightarrow> cids (ledger_step (c, now) l) = cids l"
  by (cases c) (simp_all add: cid_simps)

lemma cids_fold: "list_all background ops \<Longrightarrow> cids (fold ledger_step ops l) = cids l"
proof (induction ops arbitrary: l)
  case (Cons a ops)
  then show ?case by (cases a) (simp add: cids_background del: ledger_step.simps)
qed simp

lemma lighter_fold: "ledger_ok l \<Longrightarrow> list_all background ops \<Longrightarrow> lighter I l (fold ledger_step ops l)"
proof (induction ops arbitrary: l)
  case (Cons a ops)
  obtain c now where a: "a = (c, now)" by (cases a)
  have bg: "background (c, now)" using Cons.prems(2) by (simp add: a)
  note ok = Cons.prems(1)
  have "length (orders (ledger_step a l)) = length (orders l)"
    using arg_cong [OF cids_background [OF bg, of l], of length] by (simp add: cids_def a del: ledger_step.simps)
  then have "lighter I l (ledger_step a l)"
    using evolves_step [OF ok background_not_mark [OF bg], of now] ok
    by (intro lighter_evolves) (auto simp: a ledger_ok_def row_ok_def simp del: ledger_step.simps)
  moreover have "ledger_ok (ledger_step a l)" unfolding a by (rule ledger_step_ok [OF ok])
  ultimately show ?case using Cons by (auto intro: lighter_trans simp del: ledger_step.simps)
qed simp

lemma lighter_mark: "lighter {i} l (fst (mark i s no msg now l))"
proof -
  let ?h = "\<lambda>o'. if oid o' = i
      then o'\<lparr>state := s, odno := coalesce no (odno o'), message := coalesce msg (message o'), updated_ts := now\<rparr> else o'"
  have o': "orders (fst (mark i s no msg now l)) = map ?h (orders l)"
    by (simp add: mark_def Let_def log_event_def update_order_def)
  have "exposure_with {i} (fst (mark i s no msg now l)) day = exposure_with {i} l day" for day
    unfolding exposure_with_def o' map_map by (rule arg_cong [of _ _ sum_list], rule map_cong) auto
  moreover have "sane_prices (fst (mark i s no msg now l)) \<longleftrightarrow> sane_prices l"
    by (simp add: sane_prices_def o' if_distrib [of est_price] del: if_image_distrib)
  ultimately show ?thesis by (simp add: lighter_def)
qed

lemma exposure_more:
  assumes "ledger_ok l" "sane_prices l"
  shows "exposure_with {} l day \<le> exposure_with I l day"
  unfolding exposure_with_def
proof (rule sum_list_le, rule ballI)
  fix r assume "r \<in> set (orders l)"
  with assms have "0 \<le> qty r * est_price r"
    by (intro mult_nonneg_nonneg) (auto simp: sane_prices_def ledger_ok_def row_ok_def intro: less_imp_le)
  then show "(if trade_date r = day \<and> (state r \<notin> {REJECTED, NOT_SENT} \<or> oid r \<in> {}) then qty r * est_price r else 0)
    \<le> (if trade_date r = day \<and> (state r \<notin> {REJECTED, NOT_SENT} \<or> oid r \<in> I) then qty r * est_price r else 0)" by auto
qed

lemma desk_sound_drop: "desk_sound I cfg d \<Longrightarrow> desk_ok cfg d"
  using exposure_more [of "book_ledger d" _ I] unfolding desk_sound_def day_limit_ok_def by (meson order_trans)

lemma exposure_today:
  "exposure_with {} l day \<le> notional_today l day"
proof -
  have "notional_today l day = (\<Sum>r \<leftarrow> orders l. if trade_date r = day \<and> state r \<notin> {REJECTED, NOT_SENT}
      then max (qty r * est_price r) (filled_amt r) else 0)"
    unfolding notional_today_def by (rule sum_list_map_filter')
  also have "exposure_with {} l day \<le> \<dots>"
    unfolding exposure_with_def by (rule sum_list_le) auto
  finally show ?thesis .
qed

lemma written_keeps: "keeps_rows l l' \<Longrightarrow> written_down l s \<Longrightarrow> written_down l' s"
  unfolding written_down_def keeps_rows_def of_key_def by (metis (no_types, lifting))

lemma desk_sound_ledger:
  assumes "desk_sound I cfg d" "keeps_rows (book_ledger d) l" "lighter I (book_ledger d) l"
  shows "desk_sound I cfg (d\<lparr>book_ledger := l\<rparr>)"
  using assms day_limit_lighter [OF _ assms(3), of cfg] written_keeps [OF assms(2)]
  by (simp add: desk_sound_def keeps_rows_def)

lemma desk_sound_same: "book_ledger d' = book_ledger d \<Longrightarrow> sendings d' = sendings d \<Longrightarrow> desk_sound I cfg d' = desk_sound I cfg d"
  by (simp add: desk_sound_def)

lemma count_order_sel [simp]: "book_ledger (count_order r d) = book_ledger d" "sendings (count_order r d) = sendings d"
  by (simp_all add: count_order_def)

lemma desk_sound_count [simp]: "desk_sound I cfg (count_order r d) = desk_sound I cfg d"
  by (rule desk_sound_same) simp_all

lemma desk_sound_kicked [simp]: "desk_sound I cfg (d\<lparr>kicked := b\<rparr>) = desk_sound I cfg d"
  by (rule desk_sound_same) simp_all

lemma desk_sound_meanwhile: "desk_sound I cfg d \<Longrightarrow> list_all background ops \<Longrightarrow> desk_sound I cfg (meanwhile ops d)"
  unfolding meanwhile_def by (rule desk_sound_ledger) (simp_all add: desk_sound_def keeps_fold lighter_fold)

text \<open>The outcome is written over the row of the order that was out.\<close>

lemma desk_ok_outcome: "desk_sound {i} cfg d \<Longrightarrow> desk_ok cfg (fst (record_outcome i s no msg res status now d))"
  using desk_sound_drop [OF desk_sound_ledger [OF _ keeps_mark lighter_mark], of i cfg d s no "Some msg" now]
  by (auto simp: record_outcome_def split: prod.split sum.split)

lemma desk_ok_settle: "desk_sound {i} cfg d \<Longrightarrow> desk_ok cfg (fst (settle i e d))"
  using desk_ok_outcome [of i cfg d] desk_sound_drop [of "{i}" cfg d]
  by (auto simp: settle_def split: answer.split prod.split) (metis fst_conv)+

text \<open>There is room for the amount on the day.\<close>

definition fits_day :: "desk_config \<Rightarrow> key \<Rightarrow> int \<Rightarrow> ledger \<Rightarrow> bool" where
  "fits_day cfg k n l \<longleftrightarrow> (sane_prices l \<longrightarrow> exposure_with {} l (fst k) + n \<le> order_daily_max_krw cfg)"

lemma fits_day_lighter: "fits_day cfg k n l \<Longrightarrow> lighter {} l l' \<Longrightarrow> fits_day cfg k n l'"
  unfolding fits_day_def lighter_def by (meson add_right_mono order_trans)

lemma day_limit_new:
  assumes "ledger_ok l" "day_limit_ok {} cfg l" "fits_day cfg k (est * q) l" "by_client_id l cid = None"
    "1 \<le> q" "0 \<le> p" "p \<noteq> 0 \<longrightarrow> est = p"
    and new: "new_order cid k q p est now l = (l', Inr (row, b))"
  shows "day_limit_ok {oid row} cfg l' \<and> est_price row = est"
proof -
  let ?i = "Suc (length (orders l))"
  have o': "orders l' = orders l @ [row]" and row: "oid row = ?i" "trade_date row = fst k" "qty row = q" "est_price row = est"
    using assms(4-7) new by (auto simp: new_order_def Let_def split: prod.splits if_splits)
  have "set (map oid (orders l)) = {1..<?i}"
    using assms(1) by (simp add: ledger_ok_def del: set_map upt_Suc)
  then have fresh: "\<forall>r \<in> set (orders l). oid r \<noteq> ?i" by (fastforce simp: image_iff)
  have same: "exposure_with {?i} l day = exposure_with {} l day" for day
    unfolding exposure_with_def by (rule arg_cong [of _ _ sum_list], rule map_cong) (use fresh in auto)
  have sum: "exposure_with {?i} l' day = exposure_with {} l day + (if fst k = day then q * est else 0)" for day
    using same [of day] row by (simp add: exposure_with_def o')
  have "exposure_with {?i} l' day \<le> max 0 (order_daily_max_krw cfg)" if "sane_prices l'" for day
  proof -
    from that have "sane_prices l" by (simp add: sane_prices_def o')
    with assms(2,3) have "exposure_with {} l day \<le> max 0 (order_daily_max_krw cfg)"
      "exposure_with {} l (fst k) + q * est \<le> order_daily_max_krw cfg"
      by (simp_all add: day_limit_ok_def fits_day_def mult.commute)
    then show ?thesis by (auto simp: sum)
  qed
  with row show ?thesis by (simp add: day_limit_ok_def)
qed

lemma desk_ok_send:
  assumes "desk_ok cfg d" "quiet_awaits e" "by_client_id (book_ledger d) (rq_cid r) = None"
    and lim: "within_limits cfg \<lparr>s_cid = rq_cid r, s_key = k, s_qty = rq_qty r, s_price = rq_price r, s_unit = unit\<rparr>"
    and day: "fits_day cfg k (unit * rq_qty r) (book_ledger d)"
  shows "desk_ok cfg (fst (send_order k r unit e d))"
proof -
  let ?s = "\<lparr>s_cid = rq_cid r, s_key = k, s_qty = rq_qty r, s_price = rq_price r, s_unit = unit\<rparr>"
  obtain l res where n: "new_order (rq_cid r) k (rq_qty r) (rq_price r) unit (new_at e) (book_ledger d) = (l, res)"
    by fastforce
  have kl: "keeps_rows (book_ledger d) l"
    using keeps_step [of "book_ledger d" "NewOrder (rq_cid r) k (rq_qty r) (rq_price r) unit" "new_at e"] n assms(1)
    by (simp add: desk_sound_def)
  from lim n assms(3) obtain o' b where res: "res = Inr (o', b)"
    by (auto simp: new_order_def Let_def within_limits_def split: prod.splits)
  have row: "o' \<in> set (orders l)" "client_order_id o' = rq_cid r" "of_key k o'" "qty o' = rq_qty r"
    using n assms(3) res by (auto simp: new_order_def Let_def of_key_def log_event_def split: if_splits prod.splits)
  let ?d = "d\<lparr>book_ledger := l, sendings := sendings d @ [?s]\<rparr>"
  have limit: "day_limit_ok {oid o'} cfg l" "est_price o' = unit"
    using day_limit_new [OF _ _ day assms(3) _ _ _ n [unfolded res]] assms(1) lim
    by (simp_all add: desk_sound_def within_limits_def)
  have fresh: "rq_cid r \<notin> s_cid ` set (sendings d)"
    using assms(1,3) by (auto simp: desk_sound_def written_down_def by_client_id_def find_map_None)
  have "desk_sound {oid o'} cfg ?d"
    using assms(1) kl fresh row lim limit written_keeps [OF kl]
    by (auto simp: desk_sound_def written_down_def keeps_rows_def)
  then have "desk_sound {oid o'} cfg (meanwhile (during_order e) ?d)"
    using assms(2) by (intro desk_sound_meanwhile) (simp_all add: quiet_awaits_def)
  from desk_ok_settle [OF this, of e] show ?thesis by (simp add: send_order_def n res)
qed

lemma cids_meanwhile: "list_all background ops \<Longrightarrow> cids (book_ledger (meanwhile ops d)) = cids (book_ledger d)"
  by (simp add: meanwhile_def cids_fold)

lemma desk_ok_blocked [simp]: "desk_ok cfg (fst (blocked w st d)) = desk_ok cfg d"
  by (simp add: blocked_def)

lemma desk_ok_op:
  assumes "desk_ok cfg d" "background (c, now)"
  shows "desk_ok cfg (d\<lparr>book_ledger := ledger_step (c, now) (book_ledger d)\<rparr>)"
  using desk_sound_meanwhile [OF assms(1), of "[(c, now)]"] assms(2) by (simp add: meanwhile_def del: ledger_step.simps)

text \<open>A request that passed the checks before the limits.\<close>

definition admitted :: "desk_config \<Rightarrow> submit_request \<Rightarrow> int \<Rightarrow> desk \<Rightarrow> bool" where
  "admitted cfg r unit d \<longleftrightarrow> desk_ok cfg d \<and> by_client_id (book_ledger d) (rq_cid r) = None
     \<and> 1 \<le> rq_qty r \<and> rq_qty r \<le> order_max_qty cfg \<and> 0 \<le> rq_price r \<and> (rq_price r \<noteq> 0 \<longrightarrow> unit = rq_price r)"

lemma admitted_meanwhile: "admitted cfg r unit d \<Longrightarrow> list_all background ops \<Longrightarrow> admitted cfg r unit (meanwhile ops d)"
  by (auto simp: admitted_def by_client_id_cids cids_meanwhile desk_sound_meanwhile)

lemma admitted_totals:
  "admitted cfg r unit d \<Longrightarrow> admitted cfg r unit (d\<lparr>book_ledger := set_totals_baseline k t (book_ledger d)\<rparr>)"
  using desk_ok_op [of cfg d "SetTotalsBaseline k t"]
  by (auto simp: admitted_def by_client_id_cids cid_simps)

lemma desk_ok_take:
  assumes "admitted cfg r unit d" "quiet_awaits e" "unit * rq_qty r \<le> order_max_krw cfg"
    "fits_day cfg k (unit * rq_qty r) (book_ledger d)"
  shows "desk_ok cfg (fst (take_baseline k r unit e d))"
proof -
  have send: "desk_ok cfg (fst (send_order k r unit e d'))"
    if "admitted cfg r unit d'" "fits_day cfg k (unit * rq_qty r) (book_ledger d')" for d'
    by (rule desk_ok_send) (use that assms in \<open>auto simp: admitted_def within_limits_def\<close>)
  let ?d = "meanwhile (during_totals e) d"
  have bg: "list_all background (during_totals e)" using assms(2) by (simp add: quiet_awaits_def)
  have m: "admitted cfg r unit ?d" using assms(1) bg by (rule admitted_meanwhile)
  then have mo: "desk_ok cfg ?d" by (simp add: admitted_def)
  have "ledger_ok (book_ledger d)" using assms(1) by (simp add: admitted_def desk_sound_def)
  then have f: "fits_day cfg k (unit * rq_qty r) (book_ledger ?d)"
    using fits_day_lighter [OF assms(4) lighter_fold [OF _ bg]] by (simp add: meanwhile_def)
  have "ledger_ok (book_ledger ?d)" using mo by (simp add: desk_sound_def)
  then have "fits_day cfg k (unit * rq_qty r) (set_totals_baseline k t (book_ledger ?d))" for t
    using fits_day_lighter [OF f lighter_fold [of _ "[(SetTotalsBaseline k t, 0)]"]] by simp
  then show ?thesis
    by (auto simp: take_baseline_def Let_def mo send [OF assms(1,4)] send [OF admitted_totals [OF m]] split: answer.split)
qed

lemma desk_ok_limits:
  assumes "admitted cfg r unit d" "quiet_awaits e"
  shows "desk_ok cfg (fst (check_limits cfg k r unit e d))"
proof -
  have "fits_day cfg k (unit * rq_qty r) (book_ledger d)"
    if "notional_today (book_ledger d) (fst k) + unit * rq_qty r \<le> order_daily_max_krw cfg"
    using that exposure_today [of "book_ledger d" "fst k"] by (simp add: fits_day_def)
  then show ?thesis
    using assms by (auto simp: check_limits_def Let_def admitted_def [THEN iffD1] intro!: desk_ok_take)
qed

lemma desk_ok_submit:
  assumes "desk_ok cfg d" "quiet_awaits e"
  shows "desk_ok cfg (fst (submit cfg day rq e d))"
proof (cases rq)
  case (Some r)
  let ?dm = "meanwhile (during_price e) d"
  have dm: "desk_ok cfg ?dm" using assms by (simp add: desk_sound_meanwhile quiet_awaits_def)
  have a: "by_client_id (book_ledger d) (rq_cid r) = None \<Longrightarrow> 1 \<le> rq_qty r \<and> rq_qty r \<le> order_max_qty cfg \<Longrightarrow>
      0 \<le> rq_price r \<Longrightarrow> (rq_price r \<noteq> 0 \<longrightarrow> p = rq_price r) \<Longrightarrow> admitted cfg r p d" for p
    using assms(1) by (simp add: admitted_def)
  have am: "by_client_id (book_ledger d) (rq_cid r) = None \<Longrightarrow> 1 \<le> rq_qty r \<and> rq_qty r \<le> order_max_qty cfg \<Longrightarrow>
      rq_price r = 0 \<Longrightarrow> admitted cfg r p ?dm" for p
    using a [of p] assms(2) by (intro admitted_meanwhile) (simp_all add: quiet_awaits_def)
  show ?thesis
    using assms dm a am by (auto simp: submit_def Some Let_def split: option.split answer.split intro!: desk_ok_limits)
qed (simp add: submit_def assms)

lemma desk_ok_apply_all:
  assumes "desk_ok cfg d" "list_all (\<lambda>(_, ops, _). list_all background ops) as"
  shows "desk_ok cfg (fst (apply_all day sks as d))"
  using assms
proof (induction day sks as d rule: apply_all.induct)
  case (3 day sy sd sks a ops now as d)
  have m: "desk_ok cfg (meanwhile ops d)" using 3 by (simp add: desk_sound_meanwhile)
  show ?case
  proof (cases a)
    case (Answer t)
    obtain l bs where t: "apply_totals (day, sy, sd) t now (book_ledger (meanwhile ops d)) = (l, bs)" by fastforce
    have "desk_ok cfg (meanwhile ops d\<lparr>book_ledger := l\<rparr>)"
      using desk_ok_op [OF m, of "ApplyTotals (day, sy, sd) t" now] by (simp add: t)
    with 3 have "desk_ok cfg (fst (apply_all day sks as (meanwhile ops d\<lparr>book_ledger := l\<rparr>)))"
      by (simp add: Answer t)
    then show ?thesis by (auto simp: Answer t split: prod.split sum.split)
  qed (simp_all add: m)
qed simp_all

lemma desk_ok_take_holdings:
  assumes "desk_ok cfg d" "quiet_pass a"
  shows "desk_ok cfg (fst (take_holdings day a d))"
proof -
  let ?d = "meanwhile (during_first a) d"
  have m: "desk_ok cfg ?d" using assms by (simp add: desk_sound_meanwhile quiet_pass_def)
  have "desk_ok cfg (?d\<lparr>book_ledger := fst (set_holdings_baseline day hs (pass_now a) (book_ledger ?d))\<rparr>)" for hs
    using desk_ok_op [OF m, of "SetHoldingsBaseline day hs" "pass_now a"] by simp
  with assms m show ?thesis
    by (auto simp: take_holdings_def Let_def case_prod_beta split: answer.split)
qed

lemma desk_ok_reconcile:
  assumes "desk_ok cfg d" "quiet_pass a"
  shows "desk_ok cfg (fst (reconcile_once day a d))"
proof -
  obtain d1 x where t: "take_holdings day a d = (d1, x)" by fastforce
  with desk_ok_take_holdings [OF assms, of day] have d1: "desk_ok cfg d1" by simp
  obtain d2 y where u: "apply_all day (keys_to_watch (book_ledger d1) day) (totals_answers a) d1 = (d2, y)" by fastforce
  with desk_ok_apply_all [OF d1] assms(2) have d2: "desk_ok cfg d2" unfolding quiet_pass_def by (metis fst_conv)
  have "desk_ok cfg (meanwhile (during_last a) d2)" using d2 assms(2) by (simp add: desk_sound_meanwhile quiet_pass_def)
  with d1 d2 show ?thesis
    by (auto simp: reconcile_once_def t u Let_def split: option.split sum.split answer.split)
qed

lemma desk_ok_confirm: "desk_ok cfg (confirm found d) = desk_ok cfg d"
  by (rule desk_sound_same) (simp_all add: confirm_def)

lemma desk_ok_maybe_close: "desk_ok cfg d \<Longrightarrow> desk_ok cfg (maybe_close day minute now found d)"
proof -
  assume d: "desk_ok cfg d"
  obtain l r where c: "close_day day (length found) now (book_ledger d) = (l, r)" by fastforce
  have "desk_ok cfg (d\<lparr>book_ledger := l\<rparr>)"
    using desk_ok_op [OF d, of "CloseDay day (length found)" now] by (simp add: c)
  with d show ?thesis by (simp add: maybe_close_def c desk_sound_def)
qed

lemma desk_ok_turn:
  assumes "desk_ok cfg d" "quiet_pass a"
  shows "desk_ok cfg (reconcile_turn day minute a d)"
proof -
  obtain d1 x where r: "reconcile_once day a d = (d1, x)" by fastforce
  with desk_ok_reconcile [OF assms, of day] have d1: "desk_ok cfg d1" by simp
  let ?d2 = "\<lambda>f. (count_order ''reconcile_runs_total'' (confirm f d1))\<lparr>last_reconcile_at := pass_now a\<rparr>"
  have "desk_ok cfg (?d2 f)" for f
    using d1 desk_ok_confirm [of cfg f d1] by (simp add: desk_sound_def)
  with d1 show ?thesis
    by (auto simp: reconcile_turn_def r Let_def desk_ok_maybe_close split: sum.split pass_failure.split)
qed

lemma desk_ok_notice: "desk_ok cfg d \<Longrightarrow> desk_ok cfg (fst (on_fill_notice day no q p key now d))"
  using desk_ok_op [of cfg d "ApplyNotice day no q p key" now]
  by (simp add: on_fill_notice_def case_prod_beta desk_sound_def)

lemma desk_ok_restart: "desk_ok cfg d \<Longrightarrow> desk_ok cfg (restart now d)"
  using desk_ok_op [of cfg d RecoverPending now] by (simp add: restart_def new_desk_def desk_sound_def)

lemma desk_ok_event: "desk_ok cfg d \<Longrightarrow> quiet_event ev \<Longrightarrow> desk_ok cfg (desk_step cfg d ev)"
  by (cases ev) (simp_all add: desk_step_def desk_ok_submit desk_ok_turn desk_ok_notice desk_ok_restart)

lemma desk_ok_run: "desk_ok cfg d \<Longrightarrow> list_all quiet_event evs \<Longrightarrow> desk_ok cfg (foldl (desk_step cfg) d evs)"
  by (induction evs arbitrary: d) (simp_all add: desk_ok_event)

lemma desk_ok_new: "desk_ok cfg (new_desk now empty_ledger)"
  by (simp add: day_limit_ok_def exposure_with_def new_desk_def desk_sound_def recover_pending_def empty_ledger_def ledger_ok_def)

definition run_desk :: "desk_config \<Rightarrow> seconds \<Rightarrow> desk_event list \<Rightarrow> desk" where
  "run_desk cfg now evs = foldl (desk_step cfg) (new_desk now empty_ledger) evs"

text \<open>
  C3: over any sequence of requests, reconciliation turns, execution notices and restarts, and
  whatever other tasks do to the ledger during the awaits, no client order id is handed to the broker
  twice, also when a send died half way or its outcome stayed unknown. Every order handed over met the
  quantity limit and the per-order amount limit, and its row is in the ledger with that quantity and that
  price. As long as no price in the ledger is negative (they are prices the client gave, which the
  service checks, or the broker's quotes), the orders of a day that were not refused or found not sent
  together never cost more than the daily limit.
\<close>

theorem sent_at_most_once:
  assumes "list_all quiet_event evs"
  shows "distinct (map s_cid (sendings (run_desk cfg now evs)))
     \<and> (\<forall>s \<in> set (sendings (run_desk cfg now evs)). within_limits cfg s \<and> written_down (book_ledger (run_desk cfg now evs)) s)
     \<and> (sane_prices (book_ledger (run_desk cfg now evs)) \<longrightarrow>
          (\<forall>day. day_exposure (book_ledger (run_desk cfg now evs)) day \<le> max 0 (order_daily_max_krw cfg)))"
  using desk_ok_run [OF desk_ok_new assms, of cfg now]
  by (simp add: desk_sound_def run_desk_def day_limit_ok_def day_exposure_def)

definition demo_awaits :: awaits where
  "demo_awaits = \<lparr>at_price = Answer 70000, during_price = [], at_totals = Answer \<lparr>ord_qty = 0, ccld_qty = 0, ccld_amt = 0\<rparr>,
     during_totals = [], at_order = Died, during_order = [], new_at = 100, mark_at = 101\<rparr>"

definition demo_request :: submit_request where
  "demo_request = \<lparr>rq_cid = ''order-01'', rq_symbol = ''005930'', rq_side = ''buy'', rq_qty = 3, rq_price = 0\<rparr>"

definition demo_config :: desk_config where
  "demo_config = \<lparr>order_max_qty = 10, order_max_krw = 1000000, order_daily_max_krw = 300000, reconcile_closed_s = 60\<rparr>"

text \<open>The process dies in the send, restarts, and the same request comes again.\<close>

definition demo_events :: "desk_event list" where
  "demo_events = [SubmitRequest ''20260102'' (Some demo_request) demo_awaits, Restart 200,
     SubmitRequest ''20260102'' (Some demo_request) (demo_awaits\<lparr>at_order := Answer (''9'', ''ok'')\<rparr>)]"

text \<open>The witness: beside it two orders at the limit, the second of which is blocked by the first.\<close>

definition second_request :: "string \<Rightarrow> int \<Rightarrow> submit_request" where
  "second_request sy p = \<lparr>rq_cid = ''order-02'', rq_symbol = sy, rq_side = ''buy'', rq_qty = 1, rq_price = p\<rparr>"

definition limit_events :: "desk_event list" where
  "limit_events = demo_events @ [SubmitRequest ''20260102'' (Some (second_request ''000660'' 95000)) demo_awaits,
     SubmitRequest ''20260102'' (Some (second_request ''000660'' 90000)) demo_awaits]"

lemma sent_at_most_once_witness:
  "distinct (map s_cid (sendings (run_desk demo_config 1 limit_events)))
     \<and> map s_cid (sendings (run_desk demo_config 1 limit_events)) = [''order-01'', ''order-02'']
     \<and> day_exposure (book_ledger (run_desk demo_config 1 limit_events)) ''20260102'' \<le> 300000
     \<and> day_exposure (book_ledger (run_desk demo_config 1 limit_events)) ''20260102'' = 300000"
proof -
  have q: "list_all quiet_event limit_events" by code_simp
  have "sane_prices (book_ledger (run_desk demo_config 1 limit_events))" by code_simp
  with sent_at_most_once [OF q, of demo_config 1]
  have "distinct (map s_cid (sendings (run_desk demo_config 1 limit_events)))"
    "day_exposure (book_ledger (run_desk demo_config 1 limit_events)) ''20260102'' \<le> 300000"
    by (simp_all add: demo_config_def)
  moreover have "map s_cid (sendings (run_desk demo_config 1 limit_events)) = [''order-01'', ''order-02'']" by code_simp
  moreover have "day_exposure (book_ledger (run_desk demo_config 1 limit_events)) ''20260102'' = 300000" by code_simp
  ultimately show ?thesis by blast
qed

lemma demo_symbol: "symbol_ok ''005930''"
  by code_simp

text \<open>Digits of another script pass the check, here the Arabic-Indic zero, whose bytes are D9 A0.\<close>

lemma foreign_digits_pass: "symbol_ok [CHR 0xD9, CHR 0xA0, CHR 0xD9, CHR 0xA0, CHR 0xD9, CHR 0xA0, CHR 0xD9, CHR 0xA0, CHR 0xD9, CHR 0xA0, CHR 0xD9, CHR 0xA0]"
proof -
  have b: "map of_char [CHR 0xD9, CHR 0xA0, CHR 0xD9, CHR 0xA0, CHR 0xD9, CHR 0xA0, CHR 0xD9, CHR 0xA0, CHR 0xD9, CHR 0xA0, CHR 0xD9, CHR 0xA0] = ([0xD9, 0xA0, 0xD9, 0xA0, 0xD9, 0xA0, 0xD9, 0xA0, 0xD9, 0xA0, 0xD9, 0xA0] :: nat list)" by simp
  have c: "chop_newline [CHR 0xD9, CHR 0xA0, CHR 0xD9, CHR 0xA0, CHR 0xD9, CHR 0xA0, CHR 0xD9, CHR 0xA0, CHR 0xD9, CHR 0xA0, CHR 0xD9, CHR 0xA0] = [CHR 0xD9, CHR 0xA0, CHR 0xD9, CHR 0xA0, CHR 0xD9, CHR 0xA0, CHR 0xD9, CHR 0xA0, CHR 0xD9, CHR 0xA0, CHR 0xD9, CHR 0xA0]" by (simp add: chop_newline_def)
  have z: "utf8_char 0x660 = [0xD9, 0xA0]" by (simp add: utf8_char_def)
  have u: "utf8 [0x660, 0x660, 0x660, 0x660, 0x660, 0x660] = [0xD9, 0xA0, 0xD9, 0xA0, 0xD9, 0xA0, 0xD9, 0xA0, 0xD9, 0xA0, 0xD9, 0xA0]" by (simp add: z)
  have "utf8_decode (utf8 [0x660, 0x660, 0x660, 0x660, 0x660, 0x660]) = [0x660, 0x660, 0x660, 0x660, 0x660, 0x660]"
    by (rule utf8_decode_utf8) (simp add: scalar_def)
  moreover have "digit_char 0x660" by (simp add: digit_char_def DIGIT_ZEROS_def)
  ultimately show ?thesis unfolding symbol_ok_def c b Let_def u by (simp only: u list.pred_inject) simp
qed

text \<open>
  The day is checked before the awaited quote and not again: when the loop closes it meanwhile, the
  order goes out on a closed day.
\<close>

lemma order_after_close:
  "(let d = run_desk demo_config 1
      [SubmitRequest ''20260102'' (Some demo_request) (demo_awaits\<lparr>during_price := [(CloseDay ''20260102'' 0, 90)]\<rparr>)]
    in map s_cid (sendings d) = [''order-01''] \<and> day_close (book_ledger d) ''20260102'' \<noteq> None)"
proof -
  have close: "close_day ''20260102'' 0 90 empty_ledger
      = (log_event 90 (DayClosed ''20260102'' (summarise [] [])) None
          (empty_ledger\<lparr>day_closes := [(''20260102'', 90, summarise [] [])]\<rparr>), Closed 90 (summarise [] []))"
    by (simp add: close_day_def day_close_def list_orders_def empty_ledger_def Let_def)
  show ?thesis
    unfolding run_desk_def new_desk_def demo_request_def demo_awaits_def demo_config_def
    by (simp add: desk_step_def submit_def client_id_ok_def demo_symbol chop_newline_def word_char_def side_of_def
      Let_def by_client_id_def day_close_def open_order_def empty_ledger_def check_limits_def take_baseline_def send_order_def
      settle_def new_order_def meanwhile_def notional_today_def recover_pending_def totals_baseline_def
      set_totals_baseline_def close [unfolded empty_ledger_def] summarise_def log_event_def)
qed


text \<open>A quote of 0, which is what a quote without the price field is read as, passes every amount limit.\<close>

lemma zero_quote_passes:
  assumes "totals_baseline (book_ledger d) k \<noteq> None" "0 \<le> order_max_krw cfg"
    "notional_today (book_ledger d) (fst k) \<le> order_daily_max_krw cfg"
  shows "check_limits cfg k r 0 e d = send_order k r 0 e d"
  using assms by (simp add: check_limits_def take_baseline_def)

subsection \<open>The rate of guesses\<close>

text \<open>
  Requests and finished checks in any order: any of the passwords in the threads may come back next. \<open>door_run\<close>
  keeps beside the state the times at which a check was started.
\<close>

datatype door_event =
    LoginRequest "string option" "string option" seconds
  | CheckDone nat string seconds

fun door_at :: "door_event \<Rightarrow> seconds" where
  "door_at (LoginRequest _ _ now) = now"
| "door_at (CheckDone _ _ now) = now"

definition new_door :: door where
  "new_door = \<lparr>door_throttle = new_throttle, door_sessions = [], door_checks = []\<rparr>"

fun door_step :: "kdf \<Rightarrow> string \<Rightarrow> door \<times> seconds list \<Rightarrow> door_event \<Rightarrow> door \<times> seconds list" where
  "door_step kdf hash (d, starts) (LoginRequest header body now) =
     (case desk_login_begin header body now d of
        (d', None) \<Rightarrow> (d', starts @ [now])
      | (d', Some r) \<Rightarrow> (d', starts))"
| "door_step kdf hash (d, starts) (CheckDone i tok now) =
     (if i < length (door_checks d)
      then (fst (desk_login_end kdf hash tok now (door_checks d ! i)
              (d\<lparr>door_checks := take i (door_checks d) @ drop (Suc i) (door_checks d)\<rparr>)), starts)
      else (d, starts))"

definition door_run :: "kdf \<Rightarrow> string \<Rightarrow> door_event list \<Rightarrow> door \<times> seconds list" where
  "door_run kdf hash evs = foldl (door_step kdf hash) (new_door, []) evs"

fun wrong_guess :: "kdf \<Rightarrow> string \<Rightarrow> door_event \<Rightarrow> bool" where
  "wrong_guess kdf hash (LoginRequest _ (Some pw) _) = (\<not> verify_password kdf pw hash)"
| "wrong_guess kdf hash _ = True"

text \<open>
  The failures recorded so far, \<open>es\<close>, trail the starts by the checks still in a thread; \<open>K\<close> bounds these.
\<close>

definition door_ok :: "kdf \<Rightarrow> string \<Rightarrow> nat \<Rightarrow> seconds \<Rightarrow> door \<Rightarrow> seconds list \<Rightarrow> bool" where
  "door_ok kdf hash K now d starts \<longleftrightarrow>
     (\<exists>es. length starts = length es + length (door_checks d) \<and> (\<forall>i < length es. starts ! i \<le> es ! i)
        \<and> sorted es \<and> (\<forall>x \<in> set es. x \<le> now) \<and> counts_failures now es (door_throttle d))
     \<and> (\<forall>x \<in> set starts. x \<le> now) \<and> (\<forall>pw \<in> set (door_checks d). \<not> verify_password kdf pw hash)
     \<and> (\<forall>i. i + FAIL_LIMIT + K < length starts \<longrightarrow> LOCK_S \<le> starts ! (i + FAIL_LIMIT + K) - starts ! i)"

lemma door_ok_later:
  assumes "door_ok kdf hash K now d starts" "now \<le> now'"
  shows "door_ok kdf hash K now' d starts"
proof -
  obtain es where es: "length starts = length es + length (door_checks d)" "\<forall>i < length es. starts ! i \<le> es ! i"
    "sorted es" "\<forall>x \<in> set es. x \<le> now" "counts_failures now es (door_throttle d)"
    using assms(1) unfolding door_ok_def by blast
  have "\<forall>x \<in> set es. x \<le> now'" "\<forall>x \<in> set starts. x \<le> now'"
    using es(4) assms unfolding door_ok_def by force+
  with es assms(1) counts_failures_later [OF es(5) assms(2)] show ?thesis unfolding door_ok_def by blast
qed

text \<open>A check that starts: the failures known by then include the one of the check \<open>FAIL_LIMIT + K\<close> before.\<close>

lemma door_ok_start:
  assumes ok: "door_ok kdf hash K now d starts" and free: "locked_for now (door_throttle d) \<le> 0"
    and few: "length (door_checks d) \<le> K" and wrong: "\<not> verify_password kdf pw hash"
  shows "door_ok kdf hash K now (d\<lparr>door_checks := door_checks d @ [pw]\<rparr>) (starts @ [now])"
proof -
  obtain es where es: "length starts = length es + length (door_checks d)" "\<forall>i < length es. starts ! i \<le> es ! i"
    "sorted es" "\<forall>x \<in> set es. x \<le> now" "counts_failures now es (door_throttle d)"
    using ok unfolding door_ok_def by blast
  obtain old where old: "es = old @ fails (door_throttle d)" "length (fails (door_throttle d)) < FAIL_LIMIT"
    "\<forall>x \<in> set old. x + LOCK_S \<le> locked_until (door_throttle d) \<or> x + LOCK_S \<le> now"
    using es(5) unfolding counts_failures_def by blast
  have past: "\<forall>x \<in> set old. x + LOCK_S \<le> now" using old(3) free by (force simp: locked_for_def)
  have "LOCK_S \<le> (starts @ [now]) ! (i + FAIL_LIMIT + K) - (starts @ [now]) ! i" if i: "i + FAIL_LIMIT + K < length (starts @ [now])" for i
  proof (cases "i + FAIL_LIMIT + K < length starts")
    case True
    with ok show ?thesis by (auto simp: door_ok_def nth_append)
  next
    case False
    with i have n: "i + FAIL_LIMIT + K = length starts" by simp
    with es(1) few old(1,2) have io: "i < length old" "i < length es" by simp_all
    then have "es ! i + LOCK_S \<le> now" using past old(1) by (simp add: nth_append)
    with io(2) es(2) n show ?thesis by (force simp: nth_append FAIL_LIMIT_def)
  qed
  moreover have "\<forall>i < length es. (starts @ [now]) ! i \<le> es ! i" using es(1,2) by (simp add: nth_append)
  ultimately show ?thesis using ok es wrong unfolding door_ok_def
    by (intro conjI exI [of _ es]) auto
qed

text \<open>A check that comes back wrong is one more recorded failure.\<close>

lemma door_ok_end:
  assumes ok: "door_ok kdf hash K now d starts" and i: "i < length (door_checks d)"
  shows "door_ok kdf hash K now (fst (desk_login_end kdf hash tok now (door_checks d ! i)
    (d\<lparr>door_checks := take i (door_checks d) @ drop (Suc i) (door_checks d)\<rparr>))) starts"
proof -
  obtain es where es: "length starts = length es + length (door_checks d)" "\<forall>i < length es. starts ! i \<le> es ! i"
    "sorted es" "\<forall>x \<in> set es. x \<le> now" "counts_failures now es (door_throttle d)"
    using ok unfolding door_ok_def by blast
  have wrong: "\<not> verify_password kdf (door_checks d ! i) hash" using ok i by (simp add: door_ok_def)
  have "starts ! length es \<in> set starts" by (rule nth_mem) (use es(1) i in linarith)
  then have "starts ! length es \<le> now" using ok by (simp add: door_ok_def)
  then have le: "\<forall>j < length (es @ [now]). starts ! j \<le> (es @ [now]) ! j"
    using es(2) by (auto simp: nth_append less_Suc_eq)
  have "set (take i (door_checks d) @ drop (Suc i) (door_checks d)) \<subseteq> set (door_checks d)"
    by (auto dest: in_set_takeD in_set_dropD)
  then have rest: "\<forall>pw \<in> set (take i (door_checks d) @ drop (Suc i) (door_checks d)). \<not> verify_password kdf pw hash"
    using ok unfolding door_ok_def by blast
  have "sorted (es @ [now])" using es(3,4) by (simp add: sorted_append)
  then show ?thesis
    using ok es(1,4) i le rest wrong counts_failures_fail [OF es(5,3,4)] unfolding door_ok_def desk_login_end_def
    by (intro conjI exI [of _ "es @ [now]"]) auto
qed

lemma door_ok_step:
  assumes ok: "door_ok kdf hash K now d starts" and "now \<le> door_at ev" "wrong_guess kdf hash ev"
    and st: "door_step kdf hash (d, starts) ev = (d', starts')" "length (door_checks d') \<le> Suc K"
  shows "door_ok kdf hash K (door_at ev) d' starts'"
proof (cases ev)
  case (LoginRequest header body t)
  note now = door_ok_later [OF ok assms(2)]
  show ?thesis
  proof (cases "desk_login_begin header body t d")
    case (Pair d1 r)
    show ?thesis
    proof (cases r)
      case None
      with Pair obtain pw where b: "body = Some pw" "locked_for t (door_throttle d) \<le> 0"
        "d1 = d\<lparr>door_checks := door_checks d @ [pw]\<rparr>"
        by (auto simp: desk_login_begin_def Let_def split: if_splits option.splits)
      with st None Pair have "d' = d1" "starts' = starts @ [t]" "length (door_checks d) \<le> K"
        by (auto simp: LoginRequest)
      with door_ok_start [OF now [unfolded LoginRequest door_at.simps] b(2), of pw] b assms(3) show ?thesis
        by (simp add: LoginRequest)
    next
      case (Some x)
      with Pair have "d1 = d" by (auto simp: desk_login_begin_def Let_def split: if_splits option.splits)
      with st Some Pair now show ?thesis by (simp add: LoginRequest)
    qed
  qed
next
  case (CheckDone i tok t)
  with st door_ok_end [OF door_ok_later [OF ok assms(2)], of i tok] door_ok_later [OF ok assms(2)] show ?thesis
    by (auto split: if_splits)
qed

lemma door_ok_run:
  assumes "sorted (t0 # map door_at evs)" "list_all (wrong_guess kdf hash) evs"
    "\<forall>n. length (door_checks (fst (door_run kdf hash (take n evs)))) \<le> Suc K"
  shows "door_ok kdf hash K (last (t0 # map door_at evs)) (fst (door_run kdf hash evs)) (snd (door_run kdf hash evs))"
  using assms
proof (induction evs rule: rev_induct)
  case Nil
  show ?case by (simp add: door_run_def new_door_def door_ok_def counts_failures_def new_throttle_def FAIL_LIMIT_def)
next
  case (snoc ev evs)
  obtain d starts where r: "door_run kdf hash evs = (d, starts)" by fastforce
  obtain d' starts' where st: "door_step kdf hash (d, starts) ev = (d', starts')" by fastforce
  then have r': "door_run kdf hash (evs @ [ev]) = (d', starts')" using r by (simp add: door_run_def)
  have "\<forall>n. length (door_checks (fst (door_run kdf hash (take n evs)))) \<le> Suc K"
  proof
    fix n show "length (door_checks (fst (door_run kdf hash (take n evs)))) \<le> Suc K"
      using snoc.prems(3) [rule_format, of "min n (length evs)"] by (cases "n \<le> length evs") simp_all
  qed
  moreover have "sorted (t0 # map door_at evs)" "list_all (wrong_guess kdf hash) evs" "wrong_guess kdf hash ev"
    "last (t0 # map door_at evs) \<le> door_at ev"
    using snoc.prems(1,2) by (auto simp: sorted_append last_map)
  moreover have "length (door_checks d') \<le> Suc K"
    using snoc.prems(3) [rule_format, of "length (evs @ [ev])"] r' by simp
  ultimately have "door_ok kdf hash K (door_at ev) d' starts'"
    using snoc.IH door_ok_step [OF _ _ _ st] r by simp
  with r' show ?case by simp
qed

text \<open>
  C37: how fast passwords can be guessed. Requests and finished password checks come in any order, at
  times that do not go back, and every password is wrong. If never more than \<open>K\<close> checks are in the
  threads at once, a checked guess and the one \<open>FAIL_LIMIT + K - 1\<close> after it started at least
  \<open>LOCK_S\<close> seconds apart. With one check at a time these are five guesses a minute; each further check in
  flight allows one more, because the lock is tested before the check and the failure recorded after it.
\<close>

theorem guess_rate_bounded:
  assumes "sorted (map door_at evs)" "list_all (wrong_guess kdf hash) evs" "1 \<le> K"
    "\<forall>n. length (door_checks (fst (door_run kdf hash (take n evs)))) \<le> K"
    "i + FAIL_LIMIT + K - 1 < length (snd (door_run kdf hash evs))"
  shows "LOCK_S \<le> snd (door_run kdf hash evs) ! (i + FAIL_LIMIT + K - 1) - snd (door_run kdf hash evs) ! i"
proof -
  obtain k where K: "K = Suc k" using assms(3) by (cases K) auto
  have "sorted ((case evs of [] \<Rightarrow> 0 | ev # _ \<Rightarrow> door_at ev) # map door_at evs)"
    using assms(1) by (cases evs) auto
  from door_ok_run [OF this assms(2), of k] assms(4,5) show ?thesis by (simp add: K door_ok_def)
qed

definition two_at_once :: "door_event list" where
  "two_at_once = concat (map (\<lambda>t. [LoginRequest (Some ''1'') (Some ''x'') t, LoginRequest (Some ''1'') (Some ''y'') t,
     CheckDone 1 '''' (t + 1), CheckDone 0 '''' (t + 1)]) [0, 2, 4, 6, 70])"

theorem guess_rate_bounded_witness:
  "snd (door_run (\<lambda>pw salt n. []) [] two_at_once) = [0, 0, 2, 2, 4, 4, 70, 70]
     \<and> LOCK_S \<le> snd (door_run (\<lambda>pw salt n. []) [] two_at_once) ! 6 - snd (door_run (\<lambda>pw salt n. []) [] two_at_once) ! 0"
proof -
  let ?k = "\<lambda>pw salt n. []" and ?evs = two_at_once
  have run: "snd (door_run ?k [] ?evs) = [0, 0, 2, 2, 4, 4, 70, 70]" by code_simp
  have all: "list_all (\<lambda>n. length (door_checks (fst (door_run ?k [] (take n ?evs)))) \<le> 2) [0..<21]" by code_simp
  have "length (door_checks (fst (door_run ?k [] (take n ?evs)))) \<le> 2" for n
  proof (cases "n < 21")
    case True
    with all show ?thesis by (simp add: list_all_iff)
  next
    case False
    then have "take n ?evs = take 20 ?evs" by (simp add: two_at_once_def)
    with all show ?thesis by (simp add: list_all_iff)
  qed
  moreover have "sorted (map door_at ?evs)" by code_simp
  moreover have "list_all (wrong_guess ?k []) ?evs" by code_simp
  ultimately show ?thesis
    using guess_rate_bounded [of ?evs ?k "[]" 2 0] run by (simp add: FAIL_LIMIT_def)
qed
end
