(* ===== verification/McastClient.thy ===== *)
theory McastClient
  imports Json Auth Protocol
begin

section \<open>The multicast subscriber\<close>

text \<open>
  Models \<^verbatim>\<open>src/mdfeed/mcast_client.py\<close>: increments arrive over UDP (any order, lost or repeated),
  the snapshot and the retransmissions over TCP, and the subscriber hands the frames on in order.
  Every handler takes the time of the clock; one chunk is handled at one instant. The outcome of
  \<^verbatim>\<open>json.loads\<close> on a control payload is given by the parameter \<open>loads\<close>; \<open>None\<close> as a result is an
  exception, which ends \<^verbatim>\<open>run\<close>. Sockets and the latency samples are not modelled: the frames passed
  to \<^verbatim>\<open>on_frame\<close> and the ranges asked for are kept as lists.
\<close>

definition RETRANS_TIMEOUT_S :: seconds where "RETRANS_TIMEOUT_S = 1"
definition MAX_PENDING :: nat where "MAX_PENDING = 200000"

record mc_stats =
  st_delivered :: nat
  st_trades :: nat
  st_heartbeats :: nat
  st_snapshot_frames :: nat
  st_datagrams :: nat
  st_bytes_in :: nat
  st_duplicates :: nat
  st_discarded :: nat
  st_gaps :: nat
  st_requests :: nat
  st_retrans_frames :: int
  st_unrecoverable :: int
  st_reordered :: nat
  st_max_pending :: nat

definition no_stats :: mc_stats where
  "no_stats = \<lparr>st_delivered = 0, st_trades = 0, st_heartbeats = 0, st_snapshot_frames = 0, st_datagrams = 0,
     st_bytes_in = 0, st_duplicates = 0, st_discarded = 0, st_gaps = 0, st_requests = 0, st_retrans_frames = 0,
     st_unrecoverable = 0, st_reordered = 0, st_max_pending = 0\<rparr>"

record mcast =
  gap_fill_delay :: seconds
  mc_stats :: mc_stats
  next_expected :: "int option"
  pending :: "(int \<times> frame) list"
  outstanding :: "((int \<times> int) \<times> seconds) list"
  gap_seen_at :: "(int \<times> seconds) list"
  tcp_parser :: parser
  udp_parser :: parser
  snapshot_meta :: "json option"
  delivered :: "frame list"
  image :: "frame list"
  asked :: "(int \<times> int) list"

definition new_mcast :: "seconds \<Rightarrow> mcast" where
  "new_mcast delay = \<lparr>gap_fill_delay = delay, mc_stats = no_stats, next_expected = None, pending = [], outstanding = [],
     gap_seen_at = [], tcp_parser = new_parser, udp_parser = new_parser, snapshot_meta = None, delivered = [], image = [],
     asked = []\<rparr>"

definition count :: "(mc_stats \<Rightarrow> mc_stats) \<Rightarrow> mcast \<Rightarrow> mcast" where
  "count h s = s\<lparr>mc_stats := h (mc_stats s)\<rparr>"

definition count_duplicate :: "mcast \<Rightarrow> mcast" where
  "count_duplicate = count (\<lambda>t. t\<lparr>st_duplicates := st_duplicates t + 1\<rparr>)"

definition seq_no :: "frame \<Rightarrow> int" where "seq_no f = int (seq f)"

definition setdefault :: "'k \<Rightarrow> 'v \<Rightarrow> ('k \<times> 'v) list \<Rightarrow> ('k \<times> 'v) list" where
  "setdefault k v d = (if map_of d k = None then AList.update k v d else d)"

subsection \<open>Restoring the order\<close>

definition deliver :: "frame \<Rightarrow> mcast \<Rightarrow> mcast" where
  "deliver f s = (count (\<lambda>t. (let t1 = t\<lparr>st_delivered := st_delivered t + 1\<rparr> in
       if msg_type f = MSG_TRADE \<and> TRADE_SIZE \<le> length (payload f) then t1\<lparr>st_trades := st_trades t1 + 1\<rparr>
       else if msg_type f = MSG_HEARTBEAT then t1\<lparr>st_heartbeats := st_heartbeats t1 + 1\<rparr>
       else t1)) s)\<lparr>delivered := delivered s @ [f]\<rparr>"

lemma deliver_sel [simp]:
  "next_expected (deliver f s) = next_expected s" "pending (deliver f s) = pending s"
  "delivered (deliver f s) = delivered s @ [f]" "snapshot_meta (deliver f s) = snapshot_meta s"
  "st_unrecoverable (mc_stats (deliver f s)) = st_unrecoverable (mc_stats s)"
  "st_delivered (mc_stats (deliver f s)) = st_delivered (mc_stats s) + 1"
  by (simp_all add: deliver_def count_def Let_def)

definition drain_one :: "int \<Rightarrow> frame \<Rightarrow> mcast \<Rightarrow> mcast" where
  "drain_one e f s =
     (deliver f (s\<lparr>gap_seen_at := AList.delete e (gap_seen_at s), pending := AList.delete e (pending s)\<rparr>))
       \<lparr>next_expected := Some (e + 1)\<rparr>"

lemma length_delete_present: "map_of d k = Some v \<Longrightarrow> length (AList.delete k d) < length d"
  by (induction d) (auto simp: AList.delete_eq length_filter_le le_imp_less_Suc)

function drain_pending :: "mcast \<Rightarrow> mcast" where
  "drain_pending s =
     (case next_expected s of
        None \<Rightarrow> s
      | Some e \<Rightarrow> (case map_of (pending s) e of None \<Rightarrow> s | Some f \<Rightarrow> drain_pending (drain_one e f s)))"
  by auto

termination
  by (relation "measure (\<lambda>s. length (pending s))") (auto simp: drain_one_def intro: length_delete_present)

declare drain_pending.simps [simp del]

text \<open>The end of the missing run that starts at \<open>lo\<close>.\<close>

function run_end :: "(int \<times> frame) list \<Rightarrow> int \<Rightarrow> int \<Rightarrow> int" where
  "run_end p upto' hi =
     (if hi + 1 < upto' \<and> hi + 1 \<notin> fst ` set p then run_end p upto' (hi + 1) else hi)"
  by auto
termination by (relation "measure (\<lambda>(p, u, hi). nat (u - hi))") auto

declare run_end.simps [simp del]

lemma run_end_ge: "hi \<le> run_end p u hi"
proof (induction p u hi rule: run_end.induct)
  case (1 p u hi)
  then show ?case by (subst run_end.simps) force
qed

lemma run_end_less: "- run_end p u lo - 1 < - lo"
  using run_end_ge [of lo p u] by simp

definition ask :: "int \<Rightarrow> int \<Rightarrow> seconds \<Rightarrow> mcast \<Rightarrow> mcast" where
  "ask lo hi now s =
     (let s1 = s\<lparr>gap_seen_at := setdefault lo now (gap_seen_at s)\<rparr>;
          first_seen = the (map_of (gap_seen_at s1) lo);
          known = map_of (outstanding s) (lo, hi) in
      if known = None \<and> now - first_seen < gap_fill_delay s then s1
      else if now - (case known of None \<Rightarrow> 0 | Some t \<Rightarrow> t) \<ge> RETRANS_TIMEOUT_S then
        (count (\<lambda>t. t\<lparr>st_gaps := st_gaps t + (if known = None then 1 else 0), st_requests := st_requests t + 1\<rparr>) s1)
          \<lparr>outstanding := AList.update (lo, hi) now (outstanding s), asked := asked s @ [(lo, hi)]\<rparr>
      else s1)"

lemma ask_sel [simp]:
  "next_expected (ask lo hi now s) = next_expected s" "pending (ask lo hi now s) = pending s"
  "delivered (ask lo hi now s) = delivered s" "snapshot_meta (ask lo hi now s) = snapshot_meta s"
  "st_unrecoverable (mc_stats (ask lo hi now s)) = st_unrecoverable (mc_stats s)"
  "st_delivered (mc_stats (ask lo hi now s)) = st_delivered (mc_stats s)"
  by (simp_all add: ask_def count_def Let_def)

function ask_from :: "int \<Rightarrow> int \<Rightarrow> seconds \<Rightarrow> mcast \<Rightarrow> mcast" where
  "ask_from lo upto' now s =
     (if upto' \<le> lo then s
      else if lo \<in> fst ` set (pending s) then ask_from (lo + 1) upto' now s
      else let hi = run_end (pending s) upto' lo in ask_from (hi + 1) upto' now (ask lo hi now s))"
  by auto
termination
  by (relation "measure (\<lambda>(lo, u, now, s). nat (u - lo))") (auto simp: run_end_less)

declare ask_from.simps [simp del]

definition request_missing :: "int \<Rightarrow> seconds \<Rightarrow> mcast \<Rightarrow> mcast" where
  "request_missing upto' now s = (case next_expected s of None \<Rightarrow> s | Some e \<Rightarrow> ask_from e upto' now s)"

text \<open>Before the snapshot frames are only kept, the oldest one given up when there are too many.\<close>

definition hold :: "frame \<Rightarrow> mcast \<Rightarrow> mcast" where
  "hold f s =
     (let p = AList.update (seq_no f) f (pending s) in
      s\<lparr>pending := if MAX_PENDING < length p then AList.delete (Min (fst ` set p)) p else p\<rparr>)"

definition observe_frame :: "frame \<Rightarrow> bool \<Rightarrow> seconds \<Rightarrow> mcast \<Rightarrow> mcast" where
  "observe_frame f via_retrans now s =
     (case next_expected s of
        None \<Rightarrow> hold f s
      | Some e \<Rightarrow>
          if seq_no f < e then count_duplicate s
          else if seq_no f = e then drain_pending ((deliver f s)\<lparr>next_expected := Some (e + 1)\<rparr>)
          else if map_of (pending s) (seq_no f) \<noteq> None then request_missing (seq_no f) now (count_duplicate s)
          else let p = AList.update (seq_no f) f (pending s);
                   s1 = count (\<lambda>t. t\<lparr>st_max_pending := max (st_max_pending t) (length p),
                          st_reordered := st_reordered t + (if via_retrans then 0 else 1)\<rparr>) (s\<lparr>pending := p\<rparr>)
               in request_missing (seq_no f) now (s1\<lparr>gap_seen_at := setdefault e now (gap_seen_at s1)\<rparr>))"

subsection \<open>The recovery channel\<close>

text \<open>\<^verbatim>\<open>int(x)\<close> of a document's value; \<open>None\<close> is the exception.\<close>

definition json_int :: "json \<Rightarrow> int option" where
  "json_int j =
     (case j of JNum n \<Rightarrow> Some n | JBool b \<Rightarrow> Some (if b then 1 else 0)
      | JStr t \<Rightarrow> (if list_all (\<lambda>c. c < 128) t then py_int (map char_of t) else None) | _ \<Rightarrow> None)"

text \<open>\<^verbatim>\<open>d[k]\<close>.\<close>

definition obj_at :: "(text_u \<times> json) list \<Rightarrow> string \<Rightarrow> json option" where
  "obj_at kvs k = map_of (rev kvs) (asc k)"

definition start_at :: "int \<Rightarrow> seconds \<Rightarrow> mcast \<Rightarrow> mcast" where
  "start_at n now s =
     (let stale = filter (\<lambda>(k, _). k < n) (pending s);
          s1 = count (\<lambda>t. t\<lparr>st_discarded := st_discarded t + length stale\<rparr>)
                 (s\<lparr>next_expected := Some n, pending := filter (\<lambda>(k, _). \<not> k < n) (pending s)\<rparr>);
          s2 = drain_pending s1
      in if pending s2 = [] then s2 else request_missing (Min (fst ` set (pending s2))) now s2)"

definition on_snapshot :: "loaded \<Rightarrow> seconds \<Rightarrow> mcast \<Rightarrow> mcast option" where
  "on_snapshot l now s =
     (case l of
        Loaded (JObj kvs) \<Rightarrow>
          (case Option.bind (obj_at kvs ''next_seq'') json_int of
             None \<Rightarrow> None
           | Some n \<Rightarrow> Some (start_at n now (s\<lparr>snapshot_meta := Some (JObj kvs)\<rparr>)))
      | _ \<Rightarrow> None)"

definition give_up :: "int \<Rightarrow> int \<Rightarrow> mcast \<Rightarrow> mcast" where
  "give_up e oldest s =
     drain_pending ((count (\<lambda>t. t\<lparr>st_unrecoverable := st_unrecoverable t + (oldest - e)\<rparr>) s)
       \<lparr>gap_seen_at := filter (\<lambda>(g, _). \<not> g < oldest) (gap_seen_at s), next_expected := Some oldest\<rparr>)"

text \<open>A number as a dictionary key and in a comparison.\<close>

definition json_num :: "json \<Rightarrow> int option" where
  "json_num j = (case j of JNum n \<Rightarrow> Some n | JBool b \<Rightarrow> Some (if b then 1 else 0) | _ \<Rightarrow> None)"

definition forget_request :: "json \<Rightarrow> json \<Rightarrow> mcast \<Rightarrow> mcast" where
  "forget_request a b s =
     (case (json_num a, json_num b) of
        (Some lo, Some hi) \<Rightarrow> s\<lparr>outstanding := AList.delete (lo, hi) (outstanding s)\<rparr>
      | _ \<Rightarrow> s)"

definition on_unavailable :: "(text_u \<times> json) list \<Rightarrow> mcast \<Rightarrow> mcast option" where
  "on_unavailable kvs s =
     (case json_int (obj_get kvs (asc ''unavailable'') (JNum 0)) of
        None \<Rightarrow> None
      | Some u \<Rightarrow>
          (case next_expected s of
             None \<Rightarrow> Some s
           | Some e \<Rightarrow>
               if u = 0 then Some s
               else case Option.bind (obj_at kvs ''oldest_available'') json_num of
                 None \<Rightarrow> None
               | Some old \<Rightarrow> Some (if e < old then give_up e old s else s)))"

definition on_retrans_ack :: "(text_u \<times> json) list \<Rightarrow> mcast \<Rightarrow> mcast option" where
  "on_retrans_ack kvs s =
     (case (obj_at kvs ''from'', obj_at kvs ''to'') of
        (Some a, Some b) \<Rightarrow>
          if \<not> (hashable a \<and> hashable b) then None
          else (case json_int (obj_get kvs (asc ''sent'') (JNum 0)) of
             None \<Rightarrow> None
           | Some n \<Rightarrow> on_unavailable kvs
               (count (\<lambda>t. t\<lparr>st_retrans_frames := st_retrans_frames t + n\<rparr>) (forget_request a b s)))
      | _ \<Rightarrow> None)"

definition on_ack :: "loaded \<Rightarrow> mcast \<Rightarrow> mcast option" where
  "on_ack l s =
     (case l of
        Loaded (JObj kvs) \<Rightarrow>
          (if obj_get kvs (asc ''type'') JNull = JStr (asc ''retrans'') then on_retrans_ack kvs s else Some s)
      | _ \<Rightarrow> None)"

definition on_tcp_frame :: "(bytes \<Rightarrow> loaded) \<Rightarrow> seconds \<Rightarrow> frame \<Rightarrow> mcast \<Rightarrow> mcast option" where
  "on_tcp_frame loads now f s =
     (if odd (flags f) then
        (if msg_type f = MSG_SNAPSHOT then on_snapshot (loads (payload f)) now s
         else Some ((count (\<lambda>t. t\<lparr>st_snapshot_frames := st_snapshot_frames t + 1\<rparr>) s)\<lparr>image := image s @ [f]\<rparr>))
      else if msg_type f = MSG_ACK then on_ack (loads (payload f)) s
      else Some (observe_frame f True now s))"

fun tcp_frames :: "(bytes \<Rightarrow> loaded) \<Rightarrow> seconds \<Rightarrow> frame list \<Rightarrow> mcast \<Rightarrow> mcast option" where
  "tcp_frames loads now [] s = Some s"
| "tcp_frames loads now (f # fs) s = Option.bind (on_tcp_frame loads now f s) (tcp_frames loads now fs)"

definition on_tcp :: "(bytes \<Rightarrow> loaded) \<Rightarrow> bytes \<Rightarrow> seconds \<Rightarrow> mcast \<Rightarrow> mcast option" where
  "on_tcp loads chunk now s =
     (case feed (tcp_parser s) chunk of (p, fs) \<Rightarrow> tcp_frames loads now fs (s\<lparr>tcp_parser := p\<rparr>))"

definition on_udp :: "bytes \<Rightarrow> seconds \<Rightarrow> mcast \<Rightarrow> mcast" where
  "on_udp data now s =
     (case feed (udp_parser s) data of (p, fs) \<Rightarrow>
        fold (\<lambda>f. observe_frame f False now) fs
          (count (\<lambda>t. t\<lparr>st_datagrams := st_datagrams t + 1, st_bytes_in := st_bytes_in t + length data\<rparr>)
            (s\<lparr>udp_parser := p\<rparr>)))"

text \<open>The body of \<^verbatim>\<open>run\<close>: what is readable, then the retry of unanswered requests.\<close>

datatype mc_event = Datagram bytes seconds | Chunk bytes seconds | Retry seconds

definition retry :: "seconds \<Rightarrow> mcast \<Rightarrow> mcast" where
  "retry now s = (if next_expected s \<noteq> None \<and> pending s \<noteq> [] then request_missing (Max (fst ` set (pending s))) now s else s)"

definition mc_step :: "(bytes \<Rightarrow> loaded) \<Rightarrow> mc_event \<Rightarrow> mcast \<Rightarrow> mcast option" where
  "mc_step loads ev s =
     (case ev of
        Datagram data now \<Rightarrow> Some (on_udp data now s)
      | Chunk c now \<Rightarrow> if c = [] then None else on_tcp loads c now s
      | Retry now \<Rightarrow> Some (retry now s))"

fun run_mcast :: "(bytes \<Rightarrow> loaded) \<Rightarrow> mc_event list \<Rightarrow> mcast \<Rightarrow> mcast option" where
  "run_mcast loads [] s = Some s"
| "run_mcast loads (ev # evs) s = Option.bind (mc_step loads ev s) (run_mcast loads evs)"

subsection \<open>What the subscriber hands on\<close>

definition kept :: "mcast \<Rightarrow> int option \<times> (int \<times> frame) list \<times> frame list \<times> int" where
  "kept s = (next_expected s, pending s, delivered s, st_unrecoverable (mc_stats s))"

lemma kept_ask_from: "kept (ask_from lo u now s) = kept s"
proof (induction lo u now s rule: ask_from.induct)
  case (1 lo u now s)
  show ?case
  proof (cases "u \<le> lo \<or> lo \<in> fst ` set (pending s)")
    case True
    with 1 show ?thesis by (subst ask_from.simps) auto
  next
    case False
    with 1(2) have "kept (ask_from (run_end (pending s) u lo + 1) u now (ask lo (run_end (pending s) u lo) now s))
        = kept (ask lo (run_end (pending s) u lo) now s)" by simp
    with False show ?thesis by (subst ask_from.simps) (simp add: Let_def kept_def)
  qed
qed

lemma ask_from_sel [simp]:
  "next_expected (ask_from lo u now s) = next_expected s" "pending (ask_from lo u now s) = pending s"
  "delivered (ask_from lo u now s) = delivered s"
  "st_unrecoverable (mc_stats (ask_from lo u now s)) = st_unrecoverable (mc_stats s)"
  using kept_ask_from [of lo u now s] by (simp_all add: kept_def)

lemma request_sel [simp]:
  "next_expected (request_missing u now s) = next_expected s" "pending (request_missing u now s) = pending s"
  "delivered (request_missing u now s) = delivered s"
  "st_unrecoverable (mc_stats (request_missing u now s)) = st_unrecoverable (mc_stats s)"
  by (simp_all add: request_missing_def split: option.split)

definition keys_of :: "mcast \<Rightarrow> int set" where "keys_of s = fst ` set (pending s)"

definition pending_ok :: "(int \<Rightarrow> frame) \<Rightarrow> mcast \<Rightarrow> bool" where
  "pending_ok pub s \<longleftrightarrow> (\<forall>(k, f) \<in> set (pending s). f = pub k)"

lemma pending_ok_at: "pending_ok pub s \<Longrightarrow> map_of (pending s) k = Some f \<Longrightarrow> f = pub k"
  by (auto simp: pending_ok_def dest: map_of_SomeD)

lemma keys_map_of: "map_of (pending s) k = None \<longleftrightarrow> k \<notin> keys_of s"
  by (auto simp: keys_of_def map_of_eq_None_iff)

lemma keys_drain_one: "keys_of (drain_one e f s) = keys_of s - {e}"
  by (auto simp: keys_of_def drain_one_def AList.delete_eq)

lemma drain_one_sel [simp]:
  "next_expected (drain_one e f s) = Some (e + 1)" "delivered (drain_one e f s) = delivered s @ [f]"
  "st_unrecoverable (mc_stats (drain_one e f s)) = st_unrecoverable (mc_stats s)"
  by (simp_all add: drain_one_def deliver_def count_def Let_def)

lemma drain_spec:
  assumes "next_expected s = Some e" "pending_ok pub s"
  shows "\<exists>e' \<ge> e. next_expected (drain_pending s) = Some e' \<and> delivered (drain_pending s) = delivered s @ map pub [e..e' - 1]
    \<and> pending_ok pub (drain_pending s) \<and> keys_of (drain_pending s) = keys_of s - {e..<e'} \<and> {e..<e'} \<subseteq> keys_of s
    \<and> e' \<notin> keys_of s \<and> st_unrecoverable (mc_stats (drain_pending s)) = st_unrecoverable (mc_stats s)"
  using assms
proof (induction s arbitrary: e rule: drain_pending.induct)
  case (1 s)
  show ?case
  proof (cases "map_of (pending s) e")
    case None
    then have "drain_pending s = s" using 1 by (subst drain_pending.simps) simp
    with 1 None show ?thesis by (intro exI [of _ e]) (simp add: keys_map_of)
  next
    case (Some f)
    let ?s = "drain_one e f s"
    have d: "drain_pending s = drain_pending ?s" using 1 Some by (subst drain_pending.simps) simp
    have f: "f = pub e" using 1 Some by (simp add: pending_ok_at)
    have k: "e \<in> keys_of s" using Some keys_map_of [of s e] by auto
    have "pending_ok pub ?s" using 1 by (auto simp: pending_ok_def drain_one_def AList.delete_eq)
    from "1.IH" [OF "1.prems"(1) Some _ this, of "e + 1"] obtain e' where
      e': "e + 1 \<le> e'" "next_expected (drain_pending ?s) = Some e'"
        "delivered (drain_pending ?s) = delivered ?s @ map pub [e + 1..e' - 1]" "pending_ok pub (drain_pending ?s)"
        "keys_of (drain_pending ?s) = keys_of ?s - {e + 1..<e'}" "{e + 1..<e'} \<subseteq> keys_of ?s" "e' \<notin> keys_of ?s"
        "st_unrecoverable (mc_stats (drain_pending ?s)) = st_unrecoverable (mc_stats ?s)" by auto
    have "[e..e' - 1] = e # [e + 1..e' - 1]" using e'(1) by (simp add: upto_rec1)
    moreover have "{e..<e'} = insert e {e + 1..<e'}" using e'(1) by auto
    ultimately show ?thesis using e' k unfolding d by (intro exI [of _ e']) (auto simp: keys_drain_one f)
  qed
qed

text \<open>
  The state against the publisher's sequence \<open>pub\<close>, the first sequence number after the snapshot and the
  set \<open>R\<close> of numbers received: what was handed on is a rising part of the sequence, the numbers passed
  over are counted, and what is kept is exactly what was received beyond.
\<close>

definition mc_half :: "(int \<Rightarrow> frame) \<Rightarrow> int \<Rightarrow> int set \<Rightarrow> mcast \<Rightarrow> int \<Rightarrow> int list \<Rightarrow> bool" where
  "mc_half pub base R s e ds \<longleftrightarrow> next_expected s = Some e \<and> base \<le> e \<and> delivered s = map pub ds \<and> sorted_wrt (<) ds
     \<and> set ds \<subseteq> {base..<e} \<inter> R \<and> 0 \<le> st_unrecoverable (mc_stats s)
     \<and> int (length ds) + st_unrecoverable (mc_stats s) = e - base \<and> pending_ok pub s
     \<and> keys_of s \<inter> {e..} = R \<inter> {e..} \<and> (st_unrecoverable (mc_stats s) = 0 \<longrightarrow> ds = [base..e - 1])"

definition mc_post :: "(int \<Rightarrow> frame) \<Rightarrow> int \<Rightarrow> int set \<Rightarrow> mcast \<Rightarrow> bool" where
  "mc_post pub base R s \<longleftrightarrow> (\<exists>e ds. mc_half pub base R s e ds \<and> e \<notin> R)"

lemma mc_half_post: "mc_half pub base R s e ds \<Longrightarrow> e \<notin> keys_of s \<Longrightarrow> mc_post pub base R s"
  unfolding mc_post_def mc_half_def by (intro exI [of _ e] exI [of _ ds]) fastforce

lemma upto_split: "a \<le> b \<Longrightarrow> b \<le> c \<Longrightarrow> [a..b - 1] @ [b..c - 1] = [a..c - (1::int)]"
  by (cases "a = b"; cases "b = c") (auto simp: upto_split1 [of a b "c - 1"])

lemma drain_post:
  assumes h: "mc_half pub base R s e ds"
  shows "mc_post pub base R (drain_pending s)"
proof -
  have "next_expected s = Some e" "pending_ok pub s" using h by (simp_all add: mc_half_def)
  from drain_spec [OF this] obtain e' where
    e': "e \<le> e'" "next_expected (drain_pending s) = Some e'" "delivered (drain_pending s) = delivered s @ map pub [e..e' - 1]"
      "pending_ok pub (drain_pending s)" "keys_of (drain_pending s) = keys_of s - {e..<e'}" "{e..<e'} \<subseteq> keys_of s"
      "e' \<notin> keys_of s" "st_unrecoverable (mc_stats (drain_pending s)) = st_unrecoverable (mc_stats s)" by auto
  have k: "keys_of s \<inter> {e..} = R \<inter> {e..}" using h by (simp add: mc_half_def)
  have in_R: "{e..<e'} \<subseteq> R"
  proof
    fix x assume "x \<in> {e..<e'}"
    then have "x \<in> keys_of s \<inter> {e..}" using subsetD [OF e'(6)] by simp
    then show "x \<in> R" unfolding k by simp
  qed
  have keys: "keys_of (drain_pending s) \<inter> {e'..} = R \<inter> {e'..}"
  proof -
    have "keys_of (drain_pending s) \<inter> {e'..} = (keys_of s \<inter> {e..}) \<inter> {e'..}" unfolding e'(5) using e'(1) by fastforce
    also have "\<dots> = R \<inter> {e'..}" unfolding k using e'(1) by auto
    finally show ?thesis .
  qed
  have "mc_half pub base R (drain_pending s) e' (ds @ [e..e' - 1])"
    unfolding mc_half_def
  proof (intro conjI)
    have ds: "sorted_wrt (<) ds" "\<And>x. x \<in> set ds \<Longrightarrow> base \<le> x \<and> x < e \<and> x \<in> R"
      using h unfolding mc_half_def by (blast, auto)
    show "sorted_wrt (<) (ds @ [e..e' - 1])"
      unfolding sorted_wrt_append set_upto using ds by (metis atLeastAtMost_iff order_less_le_trans sorted_wrt_upto)
    have b: "base \<le> e" using h by (simp add: mc_half_def)
    show "set (ds @ [e..e' - 1]) \<subseteq> {base..<e'} \<inter> R"
    proof
      fix x assume "x \<in> set (ds @ [e..e' - 1])"
      then consider "x \<in> set ds" | "x \<in> {e..<e'}" by fastforce
      then show "x \<in> {base..<e'} \<inter> R"
        by cases (use ds(2) [of x] e'(1) b subsetD [OF in_R, of x] in \<open>simp_all\<close>)
    qed
    show "st_unrecoverable (mc_stats (drain_pending s)) = 0 \<longrightarrow> ds @ [e..e' - 1] = [base..e' - 1]"
      using h e'(1,8) upto_split [of base e e'] by (auto simp: mc_half_def)
  qed (use h e' keys in \<open>simp_all add: mc_half_def\<close>)
  then show ?thesis by (rule mc_half_post) (use e' in auto)
qed

lemma mc_half_nums:
  assumes "mc_half pub base R s e ds"
  shows "\<And>x. x \<in> set ds \<Longrightarrow> base \<le> x \<and> x < e \<and> x \<in> R" "sorted_wrt (<) ds" "base \<le> e"
  using assms unfolding mc_half_def by (auto dest: subsetD)

lemma mc_half_same:
  assumes "mc_half pub base R s e ds" "kept s' = kept s"
  shows "mc_half pub base R s' e ds"
  using assms by (simp add: mc_half_def kept_def pending_ok_def keys_of_def)

lemma mc_post_same: "mc_post pub base R s \<Longrightarrow> kept s' = kept s \<Longrightarrow> mc_post pub base R s'"
  unfolding mc_post_def using mc_half_same by blast

lemma kept_dup [simp]: "kept (count_duplicate s) = kept s"
  by (simp add: kept_def count_duplicate_def count_def)

lemma kept_request [simp]: "kept (request_missing u now s) = kept s"
  by (simp add: kept_def)

text \<open>A number that is not the expected one changes only what is kept.\<close>

lemma mc_half_more:
  assumes h: "mc_half pub base R s e ds" and s': "next_expected s' = next_expected s" "delivered s' = delivered s"
      "st_unrecoverable (mc_stats s') = st_unrecoverable (mc_stats s)" "pending_ok pub s'"
    and k: "keys_of s' \<inter> {e..} = insert q R \<inter> {e..}"
  shows "mc_half pub base (insert q R) s' e ds"
proof -
  have "set ds \<subseteq> {base..<e} \<inter> insert q R" using h unfolding mc_half_def by blast
  with h s' k show ?thesis by (simp add: mc_half_def)
qed

lemma pending_ok_update:
  "pending_ok pub s \<Longrightarrow> f = pub k \<Longrightarrow> pending_ok pub (s\<lparr>pending := AList.update k f (pending s)\<rparr>)"
proof -
  assume p: "pending_ok pub s" and f: "f = pub k"
  have "set (AList.update k f d) \<subseteq> insert (k, f) (set d)" for d :: "(int \<times> frame) list"
    by (induction d) auto
  with p f show ?thesis unfolding pending_ok_def by fastforce
qed

lemma observe_post:
  assumes p: "mc_post pub base R s" and f: "f = pub (seq_no f)"
  shows "mc_post pub base (insert (seq_no f) R) (observe_frame f b now s)"
proof -
  let ?q = "seq_no f"
  from p obtain e ds where h: "mc_half pub base R s e ds" and e: "e \<notin> R" unfolding mc_post_def by blast
  have se: "next_expected s = Some e" and ok: "pending_ok pub s" and k: "keys_of s \<inter> {e..} = R \<inter> {e..}"
    using h by (simp_all add: mc_half_def)
  consider (old) "?q < e" | (now) "?q = e" | (again) "e < ?q" "?q \<in> keys_of s" | (new) "e < ?q" "?q \<notin> keys_of s"
    by fastforce
  then show ?thesis
  proof cases
    case old
    then have "mc_half pub base (insert ?q R) s e ds"
      by (intro mc_half_more [OF h]) (use ok k old in \<open>simp_all add: Int_insert_left\<close>)
    then have "mc_post pub base (insert ?q R) s" unfolding mc_post_def using e old by blast
    then show ?thesis by (rule mc_post_same) (simp add: observe_frame_def se old)
  next
    case now
    let ?s = "(deliver f s)\<lparr>next_expected := Some (e + 1)\<rparr>"
    have k': "keys_of s \<inter> {e + 1..} = insert e R \<inter> {e + 1..}"
    proof -
      have "keys_of s \<inter> {e + 1..} = (keys_of s \<inter> {e..}) \<inter> {e + 1..}" by auto
      also have "\<dots> = insert e R \<inter> {e + 1..}" unfolding k by auto
      finally show ?thesis .
    qed
    have "set (ds @ [e]) \<subseteq> {base..<e + 1} \<inter> insert e R" "sorted_wrt (<) (ds @ [e])"
      using mc_half_nums [OF h] by (force, simp add: sorted_wrt_append)
    moreover have "ds = [base..e - 1] \<longrightarrow> ds @ [e] = [base..e]" "base \<le> e" using h by (auto simp: mc_half_def upto_rec2)
    moreover have "pending_ok pub ?s" "keys_of ?s = keys_of s" using ok by (simp_all add: pending_ok_def keys_of_def)
    ultimately have "mc_half pub base (insert ?q R) ?s (e + 1) (ds @ [e])"
      using h f now k' by (simp add: mc_half_def)
    from drain_post [OF this] show ?thesis by (simp add: observe_frame_def se now)
  next
    case again
    have "mc_half pub base (insert ?q R) s e ds"
      by (intro mc_half_more [OF h]) (use ok again in \<open>simp_all add: Int_insert_left k [symmetric] insert_absorb\<close>)
    then have "mc_post pub base (insert ?q R) s" unfolding mc_post_def using e again by blast
    then show ?thesis by (rule mc_post_same) (use again in \<open>auto simp: observe_frame_def se keys_map_of\<close>)
  next
    case new
    let ?s = "s\<lparr>pending := AList.update ?q f (pending s)\<rparr>"
    have ks: "keys_of ?s = insert ?q (keys_of s)" by (simp add: keys_of_def dom_update)
    have "mc_half pub base (insert ?q R) ?s e ds"
      by (intro mc_half_more [OF h]) (use k ks new pending_ok_update [OF ok f] in \<open>simp_all add: Int_insert_left\<close>)
    then have "mc_post pub base (insert ?q R) ?s" unfolding mc_post_def using e new by blast
    then show ?thesis
      by (rule mc_post_same) (use new in \<open>simp add: observe_frame_def se keys_map_of Let_def; simp add: kept_def count_def\<close>)
  qed
qed

lemma start_post:
  assumes "pending_ok pub s" "delivered s = []" "st_unrecoverable (mc_stats s) = 0" "keys_of s = R"
  shows "mc_post pub n R (start_at n now s)"
proof -
  let ?s = "count (\<lambda>t. t\<lparr>st_discarded := st_discarded t + length (filter (\<lambda>(k, _). k < n) (pending s))\<rparr>)
      (s\<lparr>next_expected := Some n, pending := filter (\<lambda>(k, _). \<not> k < n) (pending s)\<rparr>)"
  have k: "keys_of ?s \<inter> {n..} = R \<inter> {n..}" using assms(4) by (force simp: keys_of_def count_def)
  have "mc_half pub n R ?s n []" using assms(1-3) k by (auto simp: mc_half_def pending_ok_def count_def)
  from drain_post [OF this] show ?thesis
    by (rule mc_post_same) (simp add: start_at_def Let_def)
qed

lemma give_up_post:
  assumes p: "mc_post pub base R s" and "next_expected s = Some e" "e < old"
  shows "mc_post pub base R (give_up e old s)"
proof -
  from p assms(2) obtain ds where h: "mc_half pub base R s e ds" unfolding mc_post_def mc_half_def by auto
  have k: "keys_of s \<inter> {old..} = R \<inter> {old..}"
  proof -
    have "keys_of s \<inter> {old..} = (keys_of s \<inter> {e..}) \<inter> {old..}" using assms(3) by auto
    also have "\<dots> = (R \<inter> {e..}) \<inter> {old..}" using h by (simp add: mc_half_def)
    also have "\<dots> = R \<inter> {old..}" using assms(3) by auto
    finally show ?thesis .
  qed
  let ?s = "(count (\<lambda>t. t\<lparr>st_unrecoverable := st_unrecoverable t + (old - e)\<rparr>) s)
       \<lparr>gap_seen_at := filter (\<lambda>(g, _). \<not> g < old) (gap_seen_at s), next_expected := Some old\<rparr>"
  have "keys_of ?s = keys_of s" "pending_ok pub ?s"
    using h by (simp_all add: mc_half_def count_def pending_ok_def keys_of_def)
  moreover have "set ds \<subseteq> {base..<old} \<inter> R" using mc_half_nums(1) [OF h] assms(3) by force
  ultimately have "mc_half pub base R ?s old ds"
    using h k assms(3) by (simp add: mc_half_def count_def)
  from drain_post [OF this] show ?thesis by (simp add: give_up_def)
qed

subsection \<open>Whole runs\<close>

text \<open>The frames the two parsers take out of what was read; the mark says whether it came over TCP.\<close>

fun frames_in :: "parser \<Rightarrow> parser \<Rightarrow> mc_event list \<Rightarrow> (bool \<times> frame) list" where
  "frames_in u t [] = []"
| "frames_in u t (Datagram d now # evs) = map (Pair False) (snd (feed u d)) @ frames_in (fst (feed u d)) t evs"
| "frames_in u t (Chunk c now # evs) = map (Pair True) (snd (feed t c)) @ frames_in u (fst (feed t c)) evs"
| "frames_in u t (Retry now # evs) = frames_in u t evs"

definition is_data :: "bool \<times> frame \<Rightarrow> bool" where
  "is_data x \<longleftrightarrow> \<not> fst x \<or> even (flags (snd x)) \<and> msg_type (snd x) \<noteq> MSG_ACK"

definition is_start :: "bool \<times> frame \<Rightarrow> bool" where
  "is_start x \<longleftrightarrow> fst x \<and> odd (flags (snd x)) \<and> msg_type (snd x) = MSG_SNAPSHOT"

definition announced :: "(bytes \<Rightarrow> loaded) \<Rightarrow> frame \<Rightarrow> int option" where
  "announced loads f =
     (case loads (payload f) of Loaded (JObj kvs) \<Rightarrow> Option.bind (obj_at kvs ''next_seq'') json_int | _ \<Rightarrow> None)"

definition received :: "(bool \<times> frame) list \<Rightarrow> int set" where
  "received fr = set (map (\<lambda>x. seq_no (snd x)) (filter is_data fr))"

text \<open>
  The publisher's side: a number always names the same frame, one snapshot is sent, and not more frames
  come before it than the subscriber keeps.
\<close>

definition fair_feed :: "(int \<Rightarrow> frame) \<Rightarrow> (bool \<times> frame) list \<Rightarrow> bool" where
  "fair_feed pub fr \<longleftrightarrow> list_all (\<lambda>x. is_data x \<longrightarrow> snd x = pub (seq_no (snd x))) fr
     \<and> length (filter is_start fr) \<le> 1 \<and> length (takeWhile (\<lambda>x. \<not> is_start x) fr) \<le> MAX_PENDING"

lemma fair_feed_prefix: "fair_feed pub (a @ b) \<Longrightarrow> fair_feed pub a"
  unfolding fair_feed_def by (auto simp: takeWhile_append split: if_splits) (metis add_leD1 takeWhile_eq_all_conv)

definition handle :: "(bytes \<Rightarrow> loaded) \<Rightarrow> seconds \<Rightarrow> bool \<times> frame \<Rightarrow> mcast \<Rightarrow> mcast option" where
  "handle loads now x s = (if fst x then on_tcp_frame loads now (snd x) s else Some (observe_frame (snd x) False now s))"

definition mc_inv :: "(bytes \<Rightarrow> loaded) \<Rightarrow> (int \<Rightarrow> frame) \<Rightarrow> (bool \<times> frame) list \<Rightarrow> mcast \<Rightarrow> bool" where
  "mc_inv loads pub fr s \<longleftrightarrow>
     (case filter is_start fr of
        [] \<Rightarrow> next_expected s = None \<and> pending_ok pub s \<and> delivered s = [] \<and> st_unrecoverable (mc_stats s) = 0
          \<and> keys_of s = received fr \<and> length (pending s) \<le> length fr
      | x # _ \<Rightarrow> \<exists>n. announced loads (snd x) = Some n \<and> mc_post pub n (received fr) s)"

lemma mc_inv_kept: "mc_inv loads pub fr s \<Longrightarrow> kept s' = kept s \<Longrightarrow> mc_inv loads pub fr s'"
  unfolding mc_inv_def
  by (auto simp: kept_def keys_of_def pending_ok_def split: list.splits intro: mc_post_same [unfolded kept_def])

lemma received_snoc: "received (fr @ [x]) = (if is_data x then insert (seq_no (snd x)) (received fr) else received fr)"
  by (auto simp: received_def)

lemma mc_inv_other:
  "mc_inv loads pub fr s \<Longrightarrow> \<not> is_data x \<Longrightarrow> \<not> is_start x \<Longrightarrow> mc_inv loads pub (fr @ [x]) s"
  by (auto simp: mc_inv_def received_snoc split: list.splits)

lemma on_unavailable_cases:
  "on_unavailable kvs s = Some s' \<Longrightarrow> s' = s \<or> (\<exists>e old. next_expected s = Some e \<and> e < old \<and> s' = give_up e old s)"
  by (auto simp: on_unavailable_def split: option.splits if_splits)

lemma kept_ack_count: "kept (count (\<lambda>t. t\<lparr>st_retrans_frames := st_retrans_frames t + n\<rparr>) (forget_request a b s)) = kept s"
  by (auto simp: kept_def count_def forget_request_def split: option.split)

lemma on_retrans_cases: "on_retrans_ack kvs s = Some s' \<Longrightarrow> \<exists>s0. kept s0 = kept s \<and> on_unavailable kvs s0 = Some s'"
  using kept_ack_count unfolding on_retrans_ack_def by (fastforce split: option.splits if_splits)

lemma on_ack_cases:
  assumes "on_ack l s = Some s'"
  obtains "kept s' = kept s"
  | e old s0 where "kept s0 = kept s" "next_expected s0 = Some e" "e < old" "s' = give_up e old s0"
proof -
  obtain kvs where l: "l = Loaded (JObj kvs)"
    using assms by (simp add: on_ack_def split: loaded.splits json.splits)
  have "s' = s \<or> on_retrans_ack kvs s = Some s'"
    using assms by (simp add: on_ack_def l split: if_splits)
  then consider "s' = s" | "on_retrans_ack kvs s = Some s'" by blast
  then show thesis
  proof cases
    case 1
    then show ?thesis using that(1) by simp
  next
    case 2
    from on_retrans_cases [OF this] obtain s0 where "kept s0 = kept s" "on_unavailable kvs s0 = Some s'" by blast
    with on_unavailable_cases [OF this(2)] that show ?thesis by metis
  qed
qed

lemma length_update_Suc: "length (AList.update k v d) \<le> Suc (length d)"
  by (induction d) auto

lemma hold_inv:
  assumes i: "mc_inv loads pub fr s" and none: "filter is_start fr = []" and d: "is_data x" "snd x = pub (seq_no (snd x))"
    and len: "length (fr @ [x]) \<le> MAX_PENDING" and st: "\<not> is_start x"
  shows "mc_inv loads pub (fr @ [x]) (hold (snd x) s)"
proof -
  let ?p = "AList.update (seq_no (snd x)) (snd x) (pending s)"
  have "length ?p \<le> Suc (length (pending s))" by (rule length_update_Suc)
  moreover have "length (pending s) \<le> length fr" using i none by (simp add: mc_inv_def)
  ultimately have l: "length ?p \<le> length (fr @ [x])" by simp
  then have h: "hold (snd x) s = s\<lparr>pending := ?p\<rparr>" using len by (simp add: hold_def Let_def)
  have "pending_ok pub s" using i none by (simp add: mc_inv_def)
  from pending_ok_update [OF this d(2)] show ?thesis
    using i none st d(1) l by (simp add: mc_inv_def h received_snoc keys_of_def dom_update)
qed

lemma data_inv:
  assumes i: "mc_inv loads pub fr s" and fair: "fair_feed pub (fr @ [x])" and d: "is_data x"
  shows "mc_inv loads pub (fr @ [x]) (observe_frame (snd x) b now s)"
proof -
  have st: "\<not> is_start x" using d by (auto simp: is_data_def is_start_def)
  have pub: "snd x = pub (seq_no (snd x))" using fair d by (simp add: fair_feed_def)
  show ?thesis
  proof (cases "filter is_start fr")
    case Nil
    then have "takeWhile (\<lambda>x. \<not> is_start x) (fr @ [x]) = fr @ [x]"
      using st by (simp add: takeWhile_eq_all_conv filter_empty_conv)
    then have "length (fr @ [x]) \<le> MAX_PENDING" using fair by (simp add: fair_feed_def)
    from hold_inv [OF i Nil d pub this st] show ?thesis using i Nil by (simp add: mc_inv_def observe_frame_def)
  next
    case (Cons y ys)
    with i obtain n where n: "announced loads (snd y) = Some n" "mc_post pub n (received fr) s" by (auto simp: mc_inv_def)
    from observe_post [OF n(2) pub] n(1) Cons st d show ?thesis by (simp add: mc_inv_def received_snoc)
  qed
qed

lemma start_inv:
  assumes i: "mc_inv loads pub fr s" and fair: "fair_feed pub (fr @ [x])" and st: "is_start x"
    and s': "on_snapshot (loads (payload (snd x))) now s = Some s'"
  shows "mc_inv loads pub (fr @ [x]) s'"
proof -
  have none: "filter is_start fr = []" using fair st by (simp add: fair_feed_def)
  have d: "\<not> is_data x" using st by (auto simp: is_data_def is_start_def)
  obtain kvs n where n: "announced loads (snd x) = Some n" "s' = start_at n now (s\<lparr>snapshot_meta := Some (JObj kvs)\<rparr>)"
    using s' by (auto simp: on_snapshot_def announced_def split: loaded.splits json.splits option.splits)
  have "mc_post pub n (received fr) s'"
    unfolding n(2) by (rule start_post) (use i none in \<open>simp_all add: mc_inv_def pending_ok_def keys_of_def\<close>)
  with none st d n(1) show ?thesis by (simp add: mc_inv_def received_snoc)
qed

lemma handle_inv:
  assumes i: "mc_inv loads pub fr s" and fair: "fair_feed pub (fr @ [x])" and s': "handle loads now x s = Some s'"
  shows "mc_inv loads pub (fr @ [x]) s'"
proof -
  obtain t f where x: "x = (t, f)" by (cases x)
  consider (data) "is_data x" | (start) "is_start x" | (image) "t" "odd (flags f)" "msg_type f \<noteq> MSG_SNAPSHOT"
    | (ack) "t" "even (flags f)" "msg_type f = MSG_ACK" by (auto simp: x is_data_def is_start_def)
  then show ?thesis
  proof cases
    case data
    have "s' = observe_frame (snd x) t now s"
      using s' data by (auto simp: handle_def x on_tcp_frame_def is_data_def split: if_splits)
    with data_inv [OF i fair data] show ?thesis by simp
  next
    case start
    have "on_snapshot (loads (payload (snd x))) now s = Some s'"
      using s' start by (simp add: handle_def x on_tcp_frame_def is_start_def)
    with start_inv [OF i fair start] show ?thesis .
  next
    case image
    then have "kept s' = kept s" using s' by (auto simp: handle_def x on_tcp_frame_def kept_def count_def)
    then have "mc_inv loads pub fr s'" by (rule mc_inv_kept [OF i])
    then show ?thesis by (rule mc_inv_other) (use image in \<open>simp_all add: x is_data_def is_start_def\<close>)
  next
    case ack
    have a: "on_ack (loads (payload f)) s = Some s'" using s' ack by (simp add: handle_def x on_tcp_frame_def)
    have "mc_inv loads pub fr s'"
      using a
    proof (cases rule: on_ack_cases)
      case 1
      then show ?thesis by (rule mc_inv_kept [OF i])
    next
      case (2 e old s0)
      have i0: "mc_inv loads pub fr s0" by (rule mc_inv_kept [OF i 2(1)])
      then obtain y ys n where "filter is_start fr = y # ys" "announced loads (snd y) = Some n"
          "mc_post pub n (received fr) s0"
        using 2(2) by (auto simp: mc_inv_def split: list.splits)
      with give_up_post [OF this(3) 2(2,3)] show ?thesis by (simp add: mc_inv_def 2(4))
    qed
    then show ?thesis by (rule mc_inv_other) (use ack in \<open>simp_all add: x is_data_def is_start_def\<close>)
  qed
qed

lemma tcp_frames_inv:
  "mc_inv loads pub fr s \<Longrightarrow> fair_feed pub (fr @ map (Pair True) fs) \<Longrightarrow> tcp_frames loads now fs s = Some s' \<Longrightarrow>
   mc_inv loads pub (fr @ map (Pair True) fs) s'"
proof (induction fs arbitrary: fr s)
  case (Cons f fs)
  obtain s1 where s1: "on_tcp_frame loads now f s = Some s1" "tcp_frames loads now fs s1 = Some s'"
    using Cons.prems(3) by (auto simp: Option.bind_eq_Some_conv)
  have fair: "fair_feed pub ((fr @ [(True, f)]) @ map (Pair True) fs)" using Cons.prems(2) by simp
  have "mc_inv loads pub (fr @ [(True, f)]) s1"
    by (rule handle_inv [OF Cons.prems(1) fair_feed_prefix [OF fair], where now = now]) (simp add: handle_def s1(1))
  from Cons.IH [OF this fair s1(2)] show ?case by simp
qed simp

lemma udp_frames_inv:
  "mc_inv loads pub fr s \<Longrightarrow> fair_feed pub (fr @ map (Pair False) fs) \<Longrightarrow>
   mc_inv loads pub (fr @ map (Pair False) fs) (fold (\<lambda>f. observe_frame f False now) fs s)"
proof (induction fs arbitrary: fr s)
  case (Cons f fs)
  have fair: "fair_feed pub ((fr @ [(False, f)]) @ map (Pair False) fs)" using Cons.prems(2) by simp
  have "mc_inv loads pub (fr @ [(False, f)]) (observe_frame f False now s)"
    by (rule handle_inv [OF Cons.prems(1) fair_feed_prefix [OF fair], where now = now]) (simp add: handle_def)
  from Cons.IH [OF this fair] show ?case by simp
qed simp

definition parsers :: "mcast \<Rightarrow> parser \<times> parser" where "parsers s = (udp_parser s, tcp_parser s)"

lemma parsers_drain: "parsers (drain_pending s) = parsers s"
proof (induction s rule: drain_pending.induct)
  case (1 s)
  have "parsers (drain_one e f s) = parsers s" for e f
    by (simp add: parsers_def drain_one_def deliver_def count_def Let_def)
  with 1 show ?case by (subst drain_pending.simps) (simp split: option.split)
qed

lemma parsers_ask_from: "parsers (ask_from lo u now s) = parsers s"
proof (induction lo u now s rule: ask_from.induct)
  case (1 lo u now s)
  have "parsers (ask lo hi now s) = parsers s" for hi
    by (simp add: parsers_def ask_def count_def Let_def)
  with 1 show ?case by (subst ask_from.simps) (simp add: Let_def)
qed

lemma parsers_request: "parsers (request_missing u now s) = parsers s"
  by (simp add: request_missing_def parsers_ask_from split: option.split)

lemma parsers_observe: "parsers (observe_frame f b now s) = parsers s"
  by (simp add: observe_frame_def Let_def parsers_drain parsers_request split: option.split)
    (simp add: parsers_def hold_def Let_def count_duplicate_def count_def deliver_def)

lemma parsers_start: "parsers (start_at n now s) = parsers s"
  by (simp add: start_at_def Let_def parsers_drain parsers_request) (simp add: parsers_def count_def)

lemma parsers_give_up: "parsers (give_up e old s) = parsers s"
  by (simp add: give_up_def parsers_drain) (simp add: parsers_def count_def)

lemma parsers_ack: "on_ack l s = Some s' \<Longrightarrow> parsers s' = parsers s"
  unfolding on_ack_def on_retrans_ack_def on_unavailable_def
  by (auto simp: parsers_give_up split: loaded.splits json.splits option.splits if_splits)
    (simp_all add: parsers_def count_def forget_request_def split: option.split)

lemma parsers_tcp_frame: "on_tcp_frame loads now f s = Some s' \<Longrightarrow> parsers s' = parsers s"
  unfolding on_tcp_frame_def on_snapshot_def
  by (auto simp: parsers_start parsers_ack parsers_observe split: loaded.splits json.splits option.splits if_splits)
    (simp_all add: parsers_def count_def)

lemma parsers_tcp: "tcp_frames loads now fs s = Some s' \<Longrightarrow> parsers s' = parsers s"
  by (induction fs arbitrary: s) (auto simp: Option.bind_eq_Some_conv dest!: parsers_tcp_frame)

lemma parsers_udp: "parsers (fold (\<lambda>f. observe_frame f False now) fs s) = parsers s"
  by (induction fs arbitrary: s) (simp_all add: parsers_observe)

lemma mc_step_inv:
  assumes i: "mc_inv loads pub fr s" and fair: "fair_feed pub (fr @ frames_in (udp_parser s) (tcp_parser s) (ev # evs))"
    and s': "mc_step loads ev s = Some s'"
  shows "\<exists>new. frames_in (udp_parser s) (tcp_parser s) (ev # evs) = new @ frames_in (udp_parser s') (tcp_parser s') evs
    \<and> mc_inv loads pub (fr @ new) s'"
proof (cases ev)
  case (Datagram d now)
  obtain p fs where f: "feed (udp_parser s) d = (p, fs)" by fastforce
  let ?s = "count (\<lambda>t. t\<lparr>st_datagrams := st_datagrams t + 1, st_bytes_in := st_bytes_in t + length d\<rparr>) (s\<lparr>udp_parser := p\<rparr>)"
  have s'': "s' = fold (\<lambda>f. observe_frame f False now) fs ?s"
    using s' by (simp add: mc_step_def Datagram on_udp_def f)
  have "mc_inv loads pub fr ?s" by (rule mc_inv_kept [OF i]) (simp add: kept_def count_def)
  from udp_frames_inv [OF this fair_feed_prefix, of fs "frames_in p (tcp_parser s) evs" now] fair
  have "mc_inv loads pub (fr @ map (Pair False) fs) s'" by (simp add: Datagram f s'')
  moreover have "parsers s' = (p, tcp_parser s)" unfolding s'' parsers_udp by (simp add: parsers_def count_def)
  ultimately show ?thesis by (intro exI [of _ "map (Pair False) fs"]) (simp add: Datagram f parsers_def)
next
  case (Chunk c now)
  obtain p fs where f: "feed (tcp_parser s) c = (p, fs)" by fastforce
  have s'': "tcp_frames loads now fs (s\<lparr>tcp_parser := p\<rparr>) = Some s'"
    using s' by (simp add: mc_step_def Chunk on_tcp_def f split: if_splits)
  have "mc_inv loads pub fr (s\<lparr>tcp_parser := p\<rparr>)" by (rule mc_inv_kept [OF i]) (simp add: kept_def)
  from tcp_frames_inv [OF this fair_feed_prefix s'', of "frames_in (udp_parser s) p evs"] fair
  have "mc_inv loads pub (fr @ map (Pair True) fs) s'" by (simp add: Chunk f)
  moreover have "parsers s' = (udp_parser s, p)" using parsers_tcp [OF s''] by (simp add: parsers_def)
  ultimately show ?thesis by (intro exI [of _ "map (Pair True) fs"]) (simp add: Chunk f parsers_def)
next
  case (Retry now)
  have r: "s' = s \<or> s' = request_missing (Max (fst ` set (pending s))) now s"
    using s' by (auto simp: mc_step_def Retry retry_def)
  then have "kept s' = kept s" "parsers s' = parsers s" using parsers_request by auto
  with mc_inv_kept [OF i] show ?thesis by (intro exI [of _ "[]"]) (simp add: Retry parsers_def)
qed

lemma run_mcast_inv:
  "mc_inv loads pub fr s \<Longrightarrow> fair_feed pub (fr @ frames_in (udp_parser s) (tcp_parser s) evs) \<Longrightarrow>
   run_mcast loads evs s = Some s' \<Longrightarrow> mc_inv loads pub (fr @ frames_in (udp_parser s) (tcp_parser s) evs) s'"
proof (induction evs arbitrary: fr s)
  case (Cons ev evs)
  obtain s1 where s1: "mc_step loads ev s = Some s1" "run_mcast loads evs s1 = Some s'"
    using Cons.prems(3) by (auto simp: Option.bind_eq_Some_conv)
  from mc_step_inv [OF Cons.prems(1,2) s1(1)] obtain new where
    n: "frames_in (udp_parser s) (tcp_parser s) (ev # evs) = new @ frames_in (udp_parser s1) (tcp_parser s1) evs"
      "mc_inv loads pub (fr @ new) s1" by blast
  from Cons.IH [OF n(2) _ s1(2)] Cons.prems(2) show ?case by (simp add: n(1))
qed simp

text \<open>
  C18: the subscriber restores the publisher's order. Whatever the order, repetition and cutting of the
  datagrams and of the recovery stream, and however often lost ranges are asked for, the frames handed
  on are frames received, each once, with rising sequence numbers, from the number the snapshot announced
  on; the numbers passed over are exactly the ones counted as unrecoverable; and the subscriber never
  holds back a frame whose predecessors are settled. If no range was given up, what was handed on is the
  publisher's sequence itself, without a hole, up to the first number that was not received.
\<close>

theorem mcast_in_order:
  assumes "run_mcast loads evs (new_mcast delay) = Some s" "fair_feed pub (frames_in new_parser new_parser evs)"
    and "next_expected s = Some e"
  shows "\<exists>base ds. base \<in> set (List.map_filter (\<lambda>x. announced loads (snd x)) (filter is_start (frames_in new_parser new_parser evs)))
    \<and> delivered s = map pub ds \<and> sorted_wrt (<) ds \<and> set ds \<subseteq> {base..<e} \<inter> received (frames_in new_parser new_parser evs)
    \<and> int (length ds) + st_unrecoverable (mc_stats s) = e - base
    \<and> e \<notin> received (frames_in new_parser new_parser evs)
    \<and> (st_unrecoverable (mc_stats s) = 0 \<longrightarrow> delivered s = map pub [base..e - 1])"
proof -
  let ?fr = "frames_in new_parser new_parser evs"
  have "mc_inv loads pub [] (new_mcast delay)"
    by (simp add: mc_inv_def new_mcast_def pending_ok_def keys_of_def received_def no_stats_def)
  moreover have p: "udp_parser (new_mcast delay) = new_parser" "tcp_parser (new_mcast delay) = new_parser"
    by (simp_all add: new_mcast_def)
  ultimately have "mc_inv loads pub ?fr s"
    using run_mcast_inv [of loads pub "[]" "new_mcast delay" evs s] assms(1,2) by simp
  with assms(3) obtain x xs n where x: "filter is_start ?fr = x # xs" "announced loads (snd x) = Some n"
      "mc_post pub n (received ?fr) s" by (auto simp: mc_inv_def split: list.splits)
  then obtain ds where h: "mc_half pub n (received ?fr) s e ds" "e \<notin> received ?fr"
    using assms(3) unfolding mc_post_def mc_half_def by auto
  have "n \<in> set (List.map_filter (\<lambda>x. announced loads (snd x)) (filter is_start ?fr))"
    using x(1,2) by (simp add: List.map_filter_simps)
  with h show ?thesis unfolding mc_half_def by (intro exI [of _ n] exI [of _ ds]) simp
qed

definition demo_pub :: "int \<Rightarrow> frame" where
  "demo_pub k = \<lparr>msg_type = MSG_HEARTBEAT, seq = nat k, flags = 0, payload = []\<rparr>"

definition demo_start :: frame where
  "demo_start = \<lparr>msg_type = MSG_SNAPSHOT, seq = 0, flags = FLAG_SNAPSHOT, payload = []\<rparr>"

definition demo_loads :: "bytes \<Rightarrow> loaded" where
  "demo_loads b = Loaded (JObj [(asc ''next_seq'', JNum 5)])"

text \<open>6 comes before the snapshot, then 8 and 5 out of order.\<close>

definition demo_feed :: "mc_event list" where
  "demo_feed = [Datagram (frame_bytes (demo_pub 6)) 100, Chunk (frame_bytes demo_start) 100,
     Datagram (frame_bytes (demo_pub 8) @ frame_bytes (demo_pub 5)) 100, Retry 101]"

lemma demo_fed:
  "feed new_parser (frame_bytes (demo_pub 6)) = (new_parser, [demo_pub 6])"
  "feed new_parser (frame_bytes demo_start) = (new_parser, [demo_start])"
  "feed new_parser (frame_bytes (demo_pub 8) @ frame_bytes (demo_pub 5)) = (new_parser, [demo_pub 8, demo_pub 5])"
proof -
  have n: "new_parser = clean_parser []" by (simp add: new_parser_def clean_parser_def)
  have ok: "frame_ok (demo_pub 6)" "frame_ok demo_start" "frame_ok (demo_pub 8)" "frame_ok (demo_pub 5)"
    by (simp_all add: frame_ok_def demo_pub_def demo_start_def MAX_PAYLOAD_def msg_defs FLAG_SNAPSHOT_def)
  have one: "feed (clean_parser []) (frame_bytes f) = (clean_parser [], [f])" if "frame_ok f" for f
    using mdfp.feed_frame [OF that, of "[]" "frame_bytes f" "[]"] mdfp.feed_empty by simp
  show "feed new_parser (frame_bytes (demo_pub 6)) = (new_parser, [demo_pub 6])"
    "feed new_parser (frame_bytes demo_start) = (new_parser, [demo_start])"
    "feed new_parser (frame_bytes (demo_pub 8) @ frame_bytes (demo_pub 5)) = (new_parser, [demo_pub 8, demo_pub 5])"
    using ok one mdfp.feed_frame [OF ok(3), of "[]" "frame_bytes (demo_pub 8) @ frame_bytes (demo_pub 5)" "frame_bytes (demo_pub 5)"]
    by (simp_all add: n)
qed

lemma demo_sel [simp]:
  "0 \<le> k \<Longrightarrow> seq_no (demo_pub k) = k" "msg_type (demo_pub k) = MSG_HEARTBEAT" "flags (demo_pub k) = 0"
  "payload (demo_pub k) = []" "msg_type demo_start = MSG_SNAPSHOT" "flags demo_start = FLAG_SNAPSHOT"
  by (simp_all add: demo_pub_def demo_start_def seq_no_def)

lemma frame_bytes_nonempty [simp]: "frame_bytes f \<noteq> []"
  by (metis add_is_0 length_frame_bytes list.size(3) zero_neq_numeral)

lemma demo_run:
  "map_option (\<lambda>s. (next_expected s, delivered s, st_unrecoverable (mc_stats s), asked s))
     (run_mcast demo_loads demo_feed (new_mcast 0)) = Some (Some 7, [demo_pub 5, demo_pub 6], 0, [(5, 5), (7, 7), (7, 7)])"
  by (simp add: demo_feed_def mc_step_def on_udp_def on_tcp_def new_mcast_def demo_fed count_def no_stats_def
      observe_frame_def hold_def MAX_PENDING_def on_tcp_frame_def on_snapshot_def demo_loads_def obj_at_def json_int_def
      start_at_def Let_def request_missing_def ask_from.simps run_end.simps ask_def setdefault_def RETRANS_TIMEOUT_S_def
      drain_pending.simps drain_one_def deliver_def msg_defs FLAG_SNAPSHOT_def retry_def)

theorem mcast_in_order_witness:
  "\<exists>s. run_mcast demo_loads demo_feed (new_mcast 0) = Some s \<and> delivered s = map demo_pub [5..6]
     \<and> 7 \<notin> received (frames_in new_parser new_parser demo_feed)"
proof -
  from demo_run obtain s where s: "run_mcast demo_loads demo_feed (new_mcast 0) = Some s" "next_expected s = Some 7"
      "delivered s = [demo_pub 5, demo_pub 6]" "st_unrecoverable (mc_stats s) = 0" by auto
  have fr: "frames_in new_parser new_parser demo_feed
      = [(False, demo_pub 6), (True, demo_start), (False, demo_pub 8), (False, demo_pub 5)]"
    by (simp add: demo_feed_def demo_fed)
  have "fair_feed demo_pub (frames_in new_parser new_parser demo_feed)"
    unfolding fr by (simp add: fair_feed_def is_start_def is_data_def FLAG_SNAPSHOT_def MAX_PENDING_def)
  from mcast_in_order [OF s(1) this s(2)] s(3,4) have "7 \<notin> received (frames_in new_parser new_parser demo_feed)"
    by blast
  moreover have "delivered s = map demo_pub [5..6]" using s(3) by (simp add: upto_rec1)
  ultimately show ?thesis using s(1) by blast
qed

text \<open>
  An unavailable range is given up as a whole: a frame of it that is already held is counted as
  unrecoverable and never handed on.
\<close>

lemma held_frame_given_up:
  "let s = give_up 5 8 ((new_mcast 0)\<lparr>next_expected := Some 5, pending := [(6, demo_pub 6)]\<rparr>)
   in delivered s = [] \<and> pending s = [(6, demo_pub 6)] \<and> next_expected s = Some 8 \<and> st_unrecoverable (mc_stats s) = 3"
  by (simp add: give_up_def new_mcast_def no_stats_def count_def drain_pending.simps Let_def)

end
