(* ===== verification/Migration.thy ===== *)
theory Migration
  imports Models Auth
begin

section \<open>Migration of the store from SQLite to PostgreSQL\<close>

text \<open>
  Models \<^verbatim>\<open>src/mdfeed/storage/catalog.py\<close> and \<^verbatim>\<open>src/mdfeed/migration/\<close>: the catalogue of tables, the
  normalisation of rows on both sides, the preflight, the digests, and the copy in chunks with its
  checkpoints, which a run that died continues. A database is its tables; a transaction is one update
  of the target. Parameters stand for SHA-256 over the JSON texts (\<open>hashes\<close>), for
  \<^verbatim>\<open>datetime.fromisoformat\<close> and for the order PostgreSQL gives to texts; the constraints of the target tables are those
  of \<^verbatim>\<open>storage/schema.sql\<close>. Finite floats are exact rationals; values come back from PostgreSQL as they were
  stored. Opening files, DSN checks and the printing of receipts are not modelled.
\<close>

datatype sql_value = SNull | SInt int | SReal rat | SText text_u | SBool bool
datatype pg_value = PNull | PInt int | PReal rat | PText text_u | PBool bool | PTime int

type_synonym sql_row = "sql_value list"
type_synonym pg_row = "pg_value list"

datatype mig_error = Preflight string | RuntimeErr string | BadValue

subsection \<open>The catalogue\<close>

record column =
  col_name :: string
  sqlite_type :: string
  postgres_type :: string
  nullable :: bool
  timed :: bool

record table =
  tname :: string
  columns :: "column list"
  primary_key :: "string list"
  natural_key :: "string list"
  verification_order :: "string list"
  raw_retention :: bool

definition col :: "string \<Rightarrow> string \<Rightarrow> string \<Rightarrow> column" where
  "col n s p = \<lparr>col_name = n, sqlite_type = s, postgres_type = p, nullable = False, timed = False\<rparr>"

definition maybe :: "column \<Rightarrow> column" where "maybe c = c\<lparr>nullable := True\<rparr>"

definition time_col :: "string \<Rightarrow> column" where
  "time_col n = (col n ''INTEGER'' ''TIMESTAMPTZ'')\<lparr>timed := True\<rparr>"

definition text_col :: "string \<Rightarrow> column" where "text_col n = col n ''TEXT'' ''TEXT''"
definition real_col :: "string \<Rightarrow> column" where "real_col n = col n ''REAL'' ''DOUBLE PRECISION''"
definition int_col :: "string \<Rightarrow> column" where "int_col n = col n ''INTEGER'' ''INTEGER''"
definition big_col :: "string \<Rightarrow> column" where "big_col n = col n ''INTEGER'' ''BIGINT''"
definition small_col :: "string \<Rightarrow> column" where "small_col n = col n ''INTEGER'' ''SMALLINT''"

definition instruments :: table where
  "instruments = \<lparr>tname = ''instruments'',
     columns = [text_col ''venue'', text_col ''symbol'', maybe (text_col ''base''), maybe (text_col ''quote''),
       col ''active'' ''INTEGER'' ''BOOLEAN'',
       maybe ((col ''first_seen'' ''TEXT'' ''TIMESTAMPTZ'')\<lparr>timed := True\<rparr>),
       maybe ((col ''last_seen'' ''TEXT'' ''TIMESTAMPTZ'')\<lparr>timed := True\<rparr>)],
     primary_key = [''venue'', ''symbol''], natural_key = [''venue'', ''symbol''],
     verification_order = [''venue'', ''symbol''], raw_retention = False\<rparr>"

definition trades :: table where
  "trades = \<lparr>tname = ''trades'',
     columns = [time_col ''ts'', text_col ''venue'', text_col ''symbol'', real_col ''price'', real_col ''qty'',
       small_col ''side'', time_col ''recv_ts'', maybe (int_col ''latency_us''), maybe (big_col ''seq'')],
     primary_key = [], natural_key = [''venue'', ''symbol'', ''ts'', ''seq''],
     verification_order = [''venue'', ''symbol'', ''ts'', ''seq''], raw_retention = True\<rparr>"

definition book_top_table :: table where
  "book_top_table = \<lparr>tname = ''book_top'',
     columns = [time_col ''ts'', text_col ''venue'', text_col ''symbol'', maybe (real_col ''bid''),
       maybe (real_col ''bid_qty''), maybe (real_col ''ask''), maybe (real_col ''ask_qty''), maybe (real_col ''spread_bp'')],
     primary_key = [], natural_key = [''venue'', ''symbol'', ''ts''],
     verification_order = [''venue'', ''symbol'', ''ts''], raw_retention = True\<rparr>"

definition bars_1m :: table where
  "bars_1m = \<lparr>tname = ''bars_1m'',
     columns = [time_col ''bucket'', text_col ''venue'', text_col ''symbol'', real_col ''open'', real_col ''high'',
       real_col ''low'', real_col ''close'', real_col ''volume'', real_col ''notional'', maybe (real_col ''vwap''),
       int_col ''tick_count''],
     primary_key = [''venue'', ''symbol'', ''bucket''], natural_key = [''venue'', ''symbol'', ''bucket''],
     verification_order = [''venue'', ''symbol'', ''bucket''], raw_retention = False\<rparr>"

definition signals :: table where
  "signals = \<lparr>tname = ''signals'',
     columns = [time_col ''ts'', text_col ''venue'', text_col ''symbol'', text_col ''strategy'', small_col ''action'',
       maybe (real_col ''strength''), maybe (real_col ''ref_price'')],
     primary_key = [], natural_key = [''venue'', ''symbol'', ''strategy'', ''ts''],
     verification_order = [''venue'', ''symbol'', ''strategy'', ''ts''], raw_retention = False\<rparr>"

definition feed_stats :: table where
  "feed_stats = \<lparr>tname = ''feed_stats'',
     columns = [time_col ''ts'', text_col ''service'', maybe (text_col ''venue''), maybe (big_col ''ticks''),
       maybe (int_col ''latency_p50_us''), maybe (int_col ''latency_p99_us''), maybe (int_col ''gaps''),
       maybe (int_col ''drops''), maybe (int_col ''subscribers'')],
     primary_key = [], natural_key = [''service'', ''venue'', ''ts''],
     verification_order = [''service'', ''venue'', ''ts''], raw_retention = False\<rparr>"

definition latest :: table where
  "latest = \<lparr>tname = ''latest'',
     columns = [text_col ''venue'', text_col ''symbol'', time_col ''ts'', real_col ''price'', real_col ''qty'',
       small_col ''side'', maybe (big_col ''latency_us'')],
     primary_key = [''venue'', ''symbol''], natural_key = [''venue'', ''symbol''],
     verification_order = [''venue'', ''symbol''], raw_retention = False\<rparr>"

definition quality_events :: table where
  "quality_events = \<lparr>tname = ''quality_events'',
     columns = [time_col ''ts'', text_col ''check_name'', text_col ''severity'', maybe (text_col ''venue''),
       maybe (text_col ''symbol''), maybe (text_col ''detail''), maybe (real_col ''value'')],
     primary_key = [], natural_key = [''check_name'', ''severity'', ''venue'', ''symbol'', ''ts''],
     verification_order = [''check_name'', ''severity'', ''venue'', ''symbol'', ''ts''], raw_retention = False\<rparr>"

definition CATALOG :: "table list" where
  "CATALOG = [instruments, trades, book_top_table, bars_1m, signals, feed_stats, latest, quality_events]"

definition column_names :: "table \<Rightarrow> string list" where "column_names tb = map col_name (columns tb)"

definition timestamp_columns :: "table \<Rightarrow> string list" where
  "timestamp_columns tb = map col_name (filter timed (columns tb))"

definition order_columns :: "table \<Rightarrow> string list" where
  "order_columns tb = verification_order tb @ filter (\<lambda>c. c \<notin> set (verification_order tb)) (column_names tb)"

subsection \<open>Times\<close>

text \<open>Aware datetimes are instants in microseconds; \<^verbatim>\<open>fromtimestamp\<close> takes the years 1 to 9999.\<close>

definition MIN_TIME :: int where "MIN_TIME = - 62135596800000000"
definition MAX_TIME :: int where "MAX_TIME = 253402300799999999"

definition epoch_us_to_datetime :: "int \<Rightarrow> int option" where
  "epoch_us_to_datetime v = (if MIN_TIME \<le> v \<and> v \<le> MAX_TIME then Some (v div 1000000 * 1000000 + v mod 1000000) else None)"

text \<open>\<^verbatim>\<open>int(...)\<close> cuts towards zero.\<close>

definition towards_zero :: "rat \<Rightarrow> int" where
  "towards_zero q = (if q < 0 then - \<lfloor>- q\<rfloor> else \<lfloor>q\<rfloor>)"

definition datetime_to_epoch_us :: "int \<Rightarrow> int" where
  "datetime_to_epoch_us t = towards_zero (of_int t / 1000000) * 1000000 + t mod 1000000"

text \<open>\<open>fromiso\<close> is \<^verbatim>\<open>datetime.fromisoformat\<close>: the instant, \<open>None\<close> when it fails or has no zone.\<close>

definition replace_z :: "text_u \<Rightarrow> text_u" where
  "replace_z t = (if t \<noteq> [] \<and> last t = 90 then butlast t @ [43, 48, 48, 58, 48, 48] else t)"

definition is_space_u :: "nat \<Rightarrow> bool" where
  "is_space_u c \<longleftrightarrow> c \<in> set ([9..<14] @ [28..<33] @ [133, 160, 5760] @ [8192..<8203] @ [8232, 8233, 8239, 8287, 12288])"

definition strip_u :: "text_u \<Rightarrow> text_u" where
  "strip_u t = rev (dropWhile is_space_u (rev (dropWhile is_space_u t)))"

definition parse_aware_text :: "(text_u \<Rightarrow> int option) \<Rightarrow> text_u \<Rightarrow> mig_error + int" where
  "parse_aware_text fromiso t =
     (case fromiso (replace_z (strip_u t)) of
        None \<Rightarrow> Inl (Preflight ''instrument timestamp text'') | Some i \<Rightarrow> Inr (datetime_to_epoch_us i))"

subsection \<open>Rows of both sides\<close>

text \<open>\<^verbatim>\<open>int(value)\<close>; \<open>None\<close> is the exception.\<close>

definition value_int :: "sql_value \<Rightarrow> int option" where
  "value_int v =
     (case v of SNull \<Rightarrow> None | SInt n \<Rightarrow> Some n | SReal q \<Rightarrow> Some (towards_zero q) | SBool b \<Rightarrow> Some (if b then 1 else 0)
      | SText t \<Rightarrow> (if list_all (\<lambda>c. c < 128) t then py_int (map char_of t) else None))"

text \<open>The first error of a list of results.\<close>

fun collect :: "('e + 'a) list \<Rightarrow> 'e + 'a list" where
  "collect [] = Inr []"
| "collect (Inl e # rs) = Inl e"
| "collect (Inr x # rs) = (case collect rs of Inl e \<Rightarrow> Inl e | Inr xs \<Rightarrow> Inr (x # xs))"

definition normalize_sqlite_value :: "(text_u \<Rightarrow> int option) \<Rightarrow> table \<Rightarrow> column \<Rightarrow> sql_value \<Rightarrow> mig_error + sql_value" where
  "normalize_sqlite_value fromiso tb c rv =
     (if rv = SNull then Inr SNull
      else if timed c \<and> tname tb = ''instruments'' then
        (case rv of
           SText t \<Rightarrow> map_sum id SInt (parse_aware_text fromiso t)
         | _ \<Rightarrow> Inl (Preflight ''instrument timestamp must be timezone text or NULL''))
      else if tname tb = ''instruments'' \<and> col_name c = ''active'' then
        (case value_int rv of
           None \<Rightarrow> Inl BadValue
         | Some a \<Rightarrow> if a = 0 \<or> a = 1 then Inr (SInt a) else Inl (Preflight ''instruments.active must be 0 or 1''))
      else Inr rv)"

definition normalize_sqlite_row :: "(text_u \<Rightarrow> int option) \<Rightarrow> table \<Rightarrow> sql_row \<Rightarrow> mig_error + sql_row" where
  "normalize_sqlite_row fromiso tb row = collect (map2 (normalize_sqlite_value fromiso tb) (columns tb) row)"

definition postgres_value :: "table \<Rightarrow> column \<Rightarrow> sql_value \<Rightarrow> mig_error + pg_value" where
  "postgres_value tb c v =
     (if v = SNull then Inr PNull
      else if tname tb = ''instruments'' \<and> col_name c = ''active'' then
        (case value_int v of None \<Rightarrow> Inl BadValue | Some a \<Rightarrow> Inr (PBool (a = 1)))
      else if timed c then
        (case Option.bind (value_int v) epoch_us_to_datetime of None \<Rightarrow> Inl BadValue | Some t \<Rightarrow> Inr (PTime t))
      else Inr (case v of SInt n \<Rightarrow> PInt n | SReal q \<Rightarrow> PReal q | SText t \<Rightarrow> PText t | SBool b \<Rightarrow> PBool b | SNull \<Rightarrow> PNull))"

definition postgres_row :: "table \<Rightarrow> sql_row \<Rightarrow> mig_error + pg_row" where
  "postgres_row tb row = collect (map2 (postgres_value tb) (columns tb) row)"

definition pg_truthy :: "pg_value \<Rightarrow> bool" where
  "pg_truthy v = (case v of PNull \<Rightarrow> False | PInt n \<Rightarrow> n \<noteq> 0 | PReal q \<Rightarrow> q \<noteq> 0 | PText t \<Rightarrow> t \<noteq> [] | PBool b \<Rightarrow> b | PTime t \<Rightarrow> True)"

definition normalize_postgres_value :: "column \<Rightarrow> pg_value \<Rightarrow> mig_error + sql_value" where
  "normalize_postgres_value c v =
     (if v = PNull then Inr SNull
      else if timed c then
        (case v of PTime t \<Rightarrow> Inr (SInt (datetime_to_epoch_us t))
         | _ \<Rightarrow> Inl (Preflight ''PostgreSQL timestamp column is not a datetime''))
      else if col_name c = ''active'' then Inr (SInt (if pg_truthy v then 1 else 0))
      else (case v of
              PTime t \<Rightarrow> Inl (Preflight ''PostgreSQL datetime value appeared in a non-time column'')
            | PInt n \<Rightarrow> Inr (SInt n) | PReal q \<Rightarrow> Inr (SReal q) | PText t \<Rightarrow> Inr (SText t) | PBool b \<Rightarrow> Inr (SBool b)
            | PNull \<Rightarrow> Inr SNull))"

definition normalize_postgres_row :: "table \<Rightarrow> pg_row \<Rightarrow> mig_error + sql_row" where
  "normalize_postgres_row tb row = collect (map2 normalize_postgres_value (columns tb) row)"

subsection \<open>ORDER BY\<close>

fun insert_by :: "('a \<Rightarrow> 'a \<Rightarrow> bool) \<Rightarrow> 'a \<Rightarrow> 'a list \<Rightarrow> 'a list" where
  "insert_by le x [] = [x]"
| "insert_by le x (y # ys) = (if le x y then x # y # ys else y # insert_by le x ys)"

fun sort_by :: "('a \<Rightarrow> 'a \<Rightarrow> bool) \<Rightarrow> 'a list \<Rightarrow> 'a list" where
  "sort_by le [] = []"
| "sort_by le (x # xs) = insert_by le x (sort_by le xs)"

text \<open>Both sides order numbers and times by value. SQLite puts NULL first, then numbers, then texts by
  their bytes (for UTF-8 the order of the code points); PostgreSQL puts NULL last and orders texts by
  its collation \<open>tle\<close>.\<close>

fun text_le :: "text_u \<Rightarrow> text_u \<Rightarrow> bool" where
  "text_le [] t = True"
| "text_le (a # s) [] = False"
| "text_le (a # s) (b # t) = (if a = b then text_le s t else a < b)"

definition number_of :: "sql_value \<Rightarrow> rat option" where
  "number_of v = (case v of SInt n \<Rightarrow> Some (of_int n) | SReal q \<Rightarrow> Some q | SBool b \<Rightarrow> Some (if b then 1 else 0) | _ \<Rightarrow> None)"

definition sqlite_le :: "sql_value \<Rightarrow> sql_value \<Rightarrow> bool" where
  "sqlite_le a b =
     (if a = SNull then True else if b = SNull then False
      else case (number_of a, number_of b) of
        (Some x, Some y) \<Rightarrow> x \<le> y | (Some x, None) \<Rightarrow> True | (None, Some y) \<Rightarrow> False
      | (None, None) \<Rightarrow> (case (a, b) of (SText s, SText t) \<Rightarrow> text_le s t | _ \<Rightarrow> True))"

definition pg_number :: "pg_value \<Rightarrow> rat option" where
  "pg_number v = (case v of PInt n \<Rightarrow> Some (of_int n) | PReal q \<Rightarrow> Some q | PBool b \<Rightarrow> Some (if b then 1 else 0)
     | PTime t \<Rightarrow> Some (of_int t) | _ \<Rightarrow> None)"

definition pg_le :: "(text_u \<Rightarrow> text_u \<Rightarrow> bool) \<Rightarrow> pg_value \<Rightarrow> pg_value \<Rightarrow> bool" where
  "pg_le tle a b =
     (if b = PNull then True else if a = PNull then False
      else case (pg_number a, pg_number b) of
        (Some x, Some y) \<Rightarrow> x \<le> y | (Some x, None) \<Rightarrow> True | (None, Some y) \<Rightarrow> False
      | (None, None) \<Rightarrow> (case (a, b) of (PText s, PText t) \<Rightarrow> tle s t | _ \<Rightarrow> True))"

fun lex_le :: "('a \<Rightarrow> 'a \<Rightarrow> bool) \<Rightarrow> 'a list \<Rightarrow> 'a list \<Rightarrow> bool" where
  "lex_le le [] bs = True"
| "lex_le le (a # as) [] = False"
| "lex_le le (a # as) (b # bs) = (if le a b \<and> le b a then lex_le le as bs else le a b)"

definition cell :: "table \<Rightarrow> 'a list \<Rightarrow> string \<Rightarrow> 'a option" where
  "cell tb row c = map_of (zip (column_names tb) row) c"

definition order_key :: "table \<Rightarrow> 'a list \<Rightarrow> 'a list" where
  "order_key tb row = List.map_filter (cell tb row) (order_columns tb)"

definition sqlite_order :: "table \<Rightarrow> sql_row list \<Rightarrow> sql_row list" where
  "sqlite_order tb = sort_by (\<lambda>r s. lex_le sqlite_le (order_key tb r) (order_key tb s))"

definition pg_order :: "(text_u \<Rightarrow> text_u \<Rightarrow> bool) \<Rightarrow> table \<Rightarrow> pg_row list \<Rightarrow> pg_row list" where
  "pg_order tle tb = sort_by (\<lambda>r s. lex_le (pg_le tle) (order_key tb r) (order_key tb s))"

subsection \<open>Preflight and digests\<close>

record source =
  src_tables :: "string \<Rightarrow> (int \<times> sql_row) list"
  src_columns :: "string \<Rightarrow> string list"

definition KNOWN_VENUES :: "string list" where
  "KNOWN_VENUES = [''UPBIT'', ''BINANCE'', ''KIS'', ''KRX'', ''KRX-IDX'', ''RATE'']"

definition known_venue :: "sql_value \<Rightarrow> bool" where
  "known_venue v = (case v of SNull \<Rightarrow> True | SText t \<Rightarrow> t \<in> (map of_char) ` set KNOWN_VENUES | _ \<Rightarrow> False)"

definition preflight_table :: "source \<Rightarrow> table \<Rightarrow> mig_error option" where
  "preflight_table s tb =
     (let rows = src_tables s (tname tb) in
      if list_ex (\<lambda>(i, _). i \<le> 0) rows then Some (Preflight ''rowid <= 0'')
      else if list_all (\<lambda>(_, r). case cell tb r ''venue'' of None \<Rightarrow> True | Some v \<Rightarrow> known_venue v) rows then None
      else Some (Preflight ''unknown venue''))"

fun first_error :: "('a \<Rightarrow> 'e option) \<Rightarrow> 'a list \<Rightarrow> 'e option" where
  "first_error h [] = None"
| "first_error h (x # xs) = (case h x of Some e \<Rightarrow> Some e | None \<Rightarrow> first_error h xs)"

definition preflight_values :: "source \<Rightarrow> mig_error option" where
  "preflight_values s = first_error (preflight_table s) CATALOG"

definition assert_columns :: "source \<Rightarrow> table \<Rightarrow> mig_error option" where
  "assert_columns s tb =
     (if src_columns s (tname tb) = column_names tb then None else Some (Preflight ''SQLite schema mismatch''))"

record table_digest =
  d_name :: string
  row_count :: nat
  null_counts :: "(string \<times> nat) list"
  min_times :: "(string \<times> int option) list"
  max_times :: "(string \<times> int option) list"
  content_hash :: string

record storage_digest =
  fingerprint :: string
  digests :: "table_digest list"

text \<open>SHA-256 over the JSON texts of rows, of a chunk, and of the digests.\<close>

record hashes =
  rows_hash :: "sql_row list \<Rightarrow> string"
  chunk_hash :: "(int \<times> sql_row) list \<Rightarrow> string"
  print_hash :: "table_digest list \<Rightarrow> string"

definition fold_time :: "(int \<Rightarrow> int \<Rightarrow> int) \<Rightarrow> int list \<Rightarrow> int option" where
  "fold_time h ts = fold (\<lambda>t m. Some (case m of None \<Rightarrow> t | Some x \<Rightarrow> h x t)) ts None"

definition times_in :: "table \<Rightarrow> sql_row list \<Rightarrow> string \<Rightarrow> int list" where
  "times_in tb rows c =
     List.map_filter (\<lambda>r. case cell tb r c of None \<Rightarrow> None | Some v \<Rightarrow> if v = SNull then None else value_int v) rows"

definition times_readable :: "table \<Rightarrow> sql_row \<Rightarrow> bool" where
  "times_readable tb r \<longleftrightarrow>
     list_all (\<lambda>c. case cell tb r c of None \<Rightarrow> True | Some v \<Rightarrow> v = SNull \<or> value_int v \<noteq> None) (timestamp_columns tb)"

definition digest_rows :: "hashes \<Rightarrow> table \<Rightarrow> sql_row list \<Rightarrow> mig_error + table_digest" where
  "digest_rows H tb rows =
     (if \<not> list_all (times_readable tb) rows then Inl BadValue
      else Inr \<lparr>d_name = tname tb, row_count = length rows,
        null_counts = map (\<lambda>c. (col_name c, length (filter (\<lambda>r. cell tb r (col_name c) = Some SNull) rows)))
          (filter nullable (columns tb)),
        min_times = map (\<lambda>c. (c, fold_time min (times_in tb rows c))) (timestamp_columns tb),
        max_times = map (\<lambda>c. (c, fold_time max (times_in tb rows c))) (timestamp_columns tb),
        content_hash = rows_hash H rows\<rparr>)"

definition bind_sum :: "'e + 'a \<Rightarrow> ('a \<Rightarrow> 'e + 'b) \<Rightarrow> 'e + 'b" where
  "bind_sum r k = (case r of Inl e \<Rightarrow> Inl e | Inr x \<Rightarrow> k x)"

definition sqlite_table_digest :: "hashes \<Rightarrow> (text_u \<Rightarrow> int option) \<Rightarrow> source \<Rightarrow> table \<Rightarrow> mig_error + table_digest" where
  "sqlite_table_digest H fromiso s tb =
     (case assert_columns s tb of
        Some e \<Rightarrow> Inl e
      | None \<Rightarrow> bind_sum (collect (map (normalize_sqlite_row fromiso tb) (sqlite_order tb (map snd (src_tables s (tname tb))))))
          (digest_rows H tb))"

definition storage_digest_of :: "hashes \<Rightarrow> (mig_error + table_digest) list \<Rightarrow> mig_error + storage_digest" where
  "storage_digest_of H ds = map_sum id (\<lambda>ts. \<lparr>fingerprint = print_hash H ts, digests = ts\<rparr>) (collect ds)"

definition canonical_sqlite_digest :: "hashes \<Rightarrow> (text_u \<Rightarrow> int option) \<Rightarrow> source \<Rightarrow> mig_error + storage_digest" where
  "canonical_sqlite_digest H fromiso s =
     (case preflight_values s of
        Some e \<Rightarrow> Inl e
      | None \<Rightarrow> storage_digest_of H (map (sqlite_table_digest H fromiso s) CATALOG))"

definition postgres_table_digest :: "hashes \<Rightarrow> (text_u \<Rightarrow> text_u \<Rightarrow> bool) \<Rightarrow> (string \<Rightarrow> pg_row list) \<Rightarrow> table \<Rightarrow> mig_error + table_digest" where
  "postgres_table_digest H tle pg tb =
     bind_sum (collect (map (normalize_postgres_row tb) (pg_order tle tb (pg (tname tb))))) (digest_rows H tb)"

definition canonical_postgres_digest :: "hashes \<Rightarrow> (text_u \<Rightarrow> text_u \<Rightarrow> bool) \<Rightarrow> (string \<Rightarrow> pg_row list) \<Rightarrow> mig_error + storage_digest" where
  "canonical_postgres_digest H tle pg = storage_digest_of H (map (postgres_table_digest H tle pg) CATALOG)"

definition digest_of :: "storage_digest \<Rightarrow> string \<Rightarrow> table_digest option" where
  "digest_of d n = map_of (rev (map (\<lambda>t. (d_name t, t)) (digests d))) n"

subsection \<open>Checkpoints and the copy\<close>

text \<open>What lies outside the program: the hashes and the two parameters above.\<close>

record world =
  w_hashes :: hashes
  w_iso :: "text_u \<Rightarrow> int option"
  w_collation :: "text_u \<Rightarrow> text_u \<Rightarrow> bool"

text \<open>
  The constraints of \<^verbatim>\<open>schema.sql\<close>: NOT NULL (which \<open>feed_stats.ts\<close> lacks although the catalogue calls it not nullable), the
  ranges of the integer types, no NUL in a text, the venue of an instrument in \<^verbatim>\<open>venues\<close> (whose rows are the known
  venues), the primary keys. A value of another type than its column's counts as refused; PostgreSQL converts a
  few of these (it rounds a fraction given to an integer column, and the digests then differ).
\<close>

definition column_takes :: "table \<Rightarrow> column \<Rightarrow> pg_value \<Rightarrow> bool" where
  "column_takes tb c v =
     (case v of
        PNull \<Rightarrow> nullable c \<or> tname tb = ''feed_stats'' \<and> col_name c = ''ts''
      | PText t \<Rightarrow> postgres_type c = ''TEXT'' \<and> 0 \<notin> set t
      | PReal _ \<Rightarrow> postgres_type c = ''DOUBLE PRECISION''
      | PBool _ \<Rightarrow> postgres_type c = ''BOOLEAN''
      | PTime _ \<Rightarrow> postgres_type c = ''TIMESTAMPTZ''
      | PInt n \<Rightarrow> postgres_type c = ''SMALLINT'' \<and> - (2 ^ 15) \<le> n \<and> n < 2 ^ 15
          \<or> postgres_type c = ''INTEGER'' \<and> - (2 ^ 31) \<le> n \<and> n < 2 ^ 31
          \<or> postgres_type c = ''BIGINT'' \<and> - (2 ^ 63) \<le> n \<and> n < 2 ^ 63)"

definition venue_takes :: "table \<Rightarrow> pg_row \<Rightarrow> bool" where
  "venue_takes tb r \<longleftrightarrow> (tname tb = ''instruments'' \<longrightarrow>
     cell tb r ''venue'' \<in> (\<lambda>v. Some (PText (map of_char v))) ` set KNOWN_VENUES)"

definition key_cells :: "table \<Rightarrow> pg_row \<Rightarrow> pg_value option list" where
  "key_cells tb r = map (cell tb r) (primary_key tb)"

definition schema_takes :: "table \<Rightarrow> pg_row list \<Rightarrow> pg_row list \<Rightarrow> bool" where
  "schema_takes tb old new \<longleftrightarrow> list_all (\<lambda>r. list_all2 (column_takes tb) (columns tb) r \<and> venue_takes tb r) new
     \<and> (primary_key tb \<noteq> [] \<longrightarrow> distinct (map (key_cells tb) (old @ new)))"

lemma schema_takes_part: "schema_takes tb [] (a @ b @ c) \<Longrightarrow> schema_takes tb a b"
  by (auto simp: schema_takes_def)

record checkpoint =
  first_rowid :: int
  last_rowid :: int
  chunk_rows :: nat
  rows_done :: nat
  chunk_digest :: string

datatype run_state = RUNNING | COMPLETED

record target =
  schema_made :: bool
  pg_tables :: "string \<Rightarrow> pg_row list"
  checkpoints :: "((string \<times> string) \<times> checkpoint) list"
  runs :: "(string \<times> string \<times> run_state) list"

definition empty_target :: "bool \<Rightarrow> target" where
  "empty_target made = \<lparr>schema_made = made, pg_tables = (\<lambda>_. []), checkpoints = [], runs = []\<rparr>"

definition normalize_chunk :: "world \<Rightarrow> table \<Rightarrow> (int \<times> sql_row) list \<Rightarrow> mig_error + (int \<times> sql_row) list" where
  "normalize_chunk w tb rows = collect (map (\<lambda>(i, r). map_sum id (Pair i) (normalize_sqlite_row (w_iso w) tb r)) rows)"

text \<open>A negative LIMIT is no limit.\<close>

definition read_sqlite_chunk :: "world \<Rightarrow> source \<Rightarrow> table \<Rightarrow> int \<Rightarrow> int \<Rightarrow> mig_error + (int \<times> sql_row) list" where
  "read_sqlite_chunk w s tb after limit =
     (let rows = filter (\<lambda>(i, _). i > after) (src_tables s (tname tb))
      in normalize_chunk w tb (if limit < 0 then rows else take (nat limit) rows))"

definition read_sqlite_rowid_range :: "world \<Rightarrow> source \<Rightarrow> table \<Rightarrow> int \<Rightarrow> int \<Rightarrow> mig_error + (int \<times> sql_row) list" where
  "read_sqlite_rowid_range w s tb a b = normalize_chunk w tb (filter (\<lambda>(i, _). a \<le> i \<and> i \<le> b) (src_tables s (tname tb)))"

definition assert_empty_or_matching :: "target \<Rightarrow> string \<Rightarrow> string \<Rightarrow> mig_error option" where
  "assert_empty_or_matching T run fp =
     (if \<not> schema_made T then None
      else case map_of (runs T) run of
        Some (f, _) \<Rightarrow> if f \<noteq> fp then Some (Preflight ''migration run source fingerprint changed'') else None
      | None \<Rightarrow> if list_ex (\<lambda>tb. pg_tables T (tname tb) \<noteq> []) CATALOG
                then Some (Preflight ''target is not empty and run does not match'') else None)"

definition checkpoint_hash_from_source :: "world \<Rightarrow> source \<Rightarrow> table \<Rightarrow> checkpoint \<Rightarrow> mig_error + string" where
  "checkpoint_hash_from_source w s tb cp =
     bind_sum (read_sqlite_rowid_range w s tb (first_rowid cp) (last_rowid cp)) (\<lambda>chunk.
       if length chunk \<noteq> chunk_rows cp then Inl (RuntimeErr ''checkpoint source row count mismatch'')
       else Inr (chunk_hash (w_hashes w) chunk))"

definition validate_checkpoint :: "world \<Rightarrow> source \<Rightarrow> target \<Rightarrow> string \<Rightarrow> checkpoint \<Rightarrow> mig_error option" where
  "validate_checkpoint w s T name cp =
     (case find (\<lambda>tb. tname tb = name) CATALOG of
        None \<Rightarrow> Some (RuntimeErr ''StopIteration'')
      | Some tb \<Rightarrow>
          (case checkpoint_hash_from_source w s tb cp of
             Inl e \<Rightarrow> Some e
           | Inr h \<Rightarrow>
               if chunk_digest cp \<noteq> h then Some (RuntimeErr ''checkpoint tamper detected'')
               else if length (pg_tables T name) \<noteq> rows_done cp
                 then Some (RuntimeErr ''checkpoint target row count mismatch'')
               else None))"

definition validate_checkpoints :: "world \<Rightarrow> source \<Rightarrow> target \<Rightarrow> string \<Rightarrow> mig_error option" where
  "validate_checkpoints w s T run =
     (if \<not> schema_made T then Some (RuntimeErr ''UndefinedTable'')
      else first_error (\<lambda>((r, name), cp). validate_checkpoint w s T name cp) (filter (\<lambda>((r, _), _). r = run) (checkpoints T)))"

definition ensure_run :: "string \<Rightarrow> string \<Rightarrow> target \<Rightarrow> target" where
  "ensure_run run fp T = (if map_of (runs T) run = None then T\<lparr>runs := runs T @ [(run, fp, RUNNING)]\<rparr> else T)"

definition checkpoint_rowid :: "target \<Rightarrow> string \<Rightarrow> string \<Rightarrow> int" where
  "checkpoint_rowid T run name = (case map_of (checkpoints T) (run, name) of None \<Rightarrow> 0 | Some cp \<Rightarrow> last_rowid cp)"

definition checkpoint_count :: "target \<Rightarrow> string \<Rightarrow> string \<Rightarrow> nat" where
  "checkpoint_count T run name = (case map_of (checkpoints T) (run, name) of None \<Rightarrow> 0 | Some cp \<Rightarrow> rows_done cp)"

text \<open>One transaction: the rows and the checkpoint together.\<close>

definition insert_chunk :: "world \<Rightarrow> string \<Rightarrow> table \<Rightarrow> (int \<times> sql_row) list \<Rightarrow> target \<Rightarrow> mig_error + target" where
  "insert_chunk w run tb chunk T =
     bind_sum (collect (map (postgres_row tb) (map snd chunk))) (\<lambda>rows.
       let old = pg_tables T (tname tb) in
       if \<not> schema_takes tb old rows then Inl (RuntimeErr ''database error'')
       else Inr (T\<lparr>pg_tables := (pg_tables T)(tname tb := old @ rows),
         checkpoints := AList.update (run, tname tb)
           \<lparr>first_rowid = fst (hd chunk), last_rowid = fst (last chunk), chunk_rows = length chunk,
             rows_done = checkpoint_count T run (tname tb) + length chunk,
             chunk_digest = chunk_hash (w_hashes w) chunk\<rparr> (checkpoints T)\<rparr>))"

text \<open>\<open>n\<close> is the number of chunk transactions until the process is killed.\<close>

datatype copy_result = Copied | CopyRaised mig_error | Died

fun copy_table :: "world \<Rightarrow> source \<Rightarrow> string \<Rightarrow> storage_digest \<Rightarrow> table \<Rightarrow> int \<Rightarrow> nat \<Rightarrow> target \<Rightarrow> target \<times> nat \<times> copy_result" where
  "copy_table w s run d tb limit 0 T = (T, 0, Died)"
| "copy_table w s run d tb limit (Suc n) T =
     (case read_sqlite_chunk w s tb (checkpoint_rowid T run (tname tb)) limit of
        Inl e \<Rightarrow> (T, Suc n, CopyRaised e)
      | Inr [] \<Rightarrow> (T, Suc n, Copied)
      | Inr chunk \<Rightarrow>
          (case insert_chunk w run tb chunk T of
             Inl e \<Rightarrow> (T, n, CopyRaised e)
           | Inr T' \<Rightarrow>
               (case digest_of d (tname tb) of
                  None \<Rightarrow> (T', n, CopyRaised (RuntimeErr ''KeyError''))
                | Some td \<Rightarrow>
                    if checkpoint_count T' run (tname tb) > row_count td
                    then (T', n, CopyRaised (Preflight ''checkpoint row count exceeds source count''))
                    else copy_table w s run d tb limit n T')))"

fun copy_tables :: "world \<Rightarrow> source \<Rightarrow> string \<Rightarrow> storage_digest \<Rightarrow> table list \<Rightarrow> int \<Rightarrow> nat \<Rightarrow> target \<Rightarrow> target \<times> copy_result" where
  "copy_tables w s run d [] limit n T = (T, Copied)"
| "copy_tables w s run d (tb # tbs) limit n T =
     (case copy_table w s run d tb limit n T of
        (T', m, Copied) \<Rightarrow> copy_tables w s run d tbs limit m T'
      | (T', m, r) \<Rightarrow> (T', r))"

subsection \<open>A run\<close>

record receipt =
  r_run :: string
  r_fingerprint :: string
  r_completed :: bool
  r_source :: storage_digest
  r_target :: storage_digest

datatype outcome = Finished receipt | Raised mig_error | Killed

definition complete_run :: "string \<Rightarrow> target \<Rightarrow> target" where
  "complete_run run T = T\<lparr>runs := map (\<lambda>(r, f, st). (r, f, if r = run then COMPLETED else st)) (runs T)\<rparr>"

text \<open>The last part of a run: the source is read again (\<open>later\<close>), the target is read back.\<close>

definition verify_copy :: "world \<Rightarrow> source \<Rightarrow> string \<Rightarrow> storage_digest \<Rightarrow> target \<Rightarrow> target \<times> outcome" where
  "verify_copy w later run d T =
     (case canonical_sqlite_digest (w_hashes w) (w_iso w) later of
        Inl e \<Rightarrow> (T, Raised e)
      | Inr d2 \<Rightarrow>
          if fingerprint d2 \<noteq> fingerprint d then (T, Raised (RuntimeErr ''migration source changed during copy''))
          else case canonical_postgres_digest (w_hashes w) (w_collation w) (pg_tables T) of
            Inl e \<Rightarrow> (T, Raised e)
          | Inr td \<Rightarrow>
              if fingerprint d \<noteq> fingerprint td
              then (T, Raised (RuntimeErr ''migration verify failed: source and target digests differ''))
              else (complete_run run T,
                Finished \<lparr>r_run = run, r_fingerprint = fingerprint d, r_completed = True, r_source = d, r_target = td\<rparr>))"

record run_args =
  a_run :: string
  a_limit :: int
  a_init :: bool
  a_locked :: bool
  a_steps :: nat

definition run_migration :: "world \<Rightarrow> source \<Rightarrow> source \<Rightarrow> run_args \<Rightarrow> target \<Rightarrow> target \<times> outcome" where
  "run_migration w s later a T0 =
     (case canonical_sqlite_digest (w_hashes w) (w_iso w) s of
        Inl e \<Rightarrow> (T0, Raised e)
      | Inr d \<Rightarrow>
          let T = (if a_init a then T0\<lparr>schema_made := True\<rparr> else T0) in
          if a_locked a then (T, Raised (RuntimeErr ''another migration is already running for this target''))
          else case assert_empty_or_matching T (a_run a) (fingerprint d) of
            Some e \<Rightarrow> (T, Raised e)
          | None \<Rightarrow>
              (case validate_checkpoints w s T (a_run a) of
                 Some e \<Rightarrow> (T, Raised e)
               | None \<Rightarrow>
                   (case copy_tables w s (a_run a) d CATALOG (a_limit a) (a_steps a)
                      (ensure_run (a_run a) (fingerprint d) T) of
                      (T', Copied) \<Rightarrow> verify_copy w later (a_run a) d T'
                    | (T', CopyRaised e) \<Rightarrow> (T', Raised e)
                    | (T', Died) \<Rightarrow> (T', Killed))))"

definition run_state_of :: "target \<Rightarrow> string \<Rightarrow> string \<Rightarrow> mig_error + run_state option" where
  "run_state_of T run fp =
     (if \<not> schema_made T then Inl (RuntimeErr ''UndefinedTable'')
      else case map_of (runs T) run of
        None \<Rightarrow> Inr None
      | Some (f, st) \<Rightarrow> if f \<noteq> fp then Inl (Preflight ''migration run source fingerprint changed'') else Inr (Some st))"

definition migration_status :: "world \<Rightarrow> source \<Rightarrow> string \<Rightarrow> target \<Rightarrow> mig_error + receipt" where
  "migration_status w s run T =
     bind_sum (canonical_sqlite_digest (w_hashes w) (w_iso w) s) (\<lambda>d.
     bind_sum (canonical_postgres_digest (w_hashes w) (w_collation w) (pg_tables T)) (\<lambda>td.
     bind_sum (run_state_of T run (fingerprint d)) (\<lambda>st.
       Inr \<lparr>r_run = run, r_fingerprint = fingerprint d,
         r_completed = (st = Some COMPLETED \<and> fingerprint d = fingerprint td), r_source = d, r_target = td\<rparr>)))"

definition verify_migration :: "world \<Rightarrow> source \<Rightarrow> string \<Rightarrow> target \<Rightarrow> mig_error + receipt" where
  "verify_migration w s run T =
     bind_sum (migration_status w s run T) (\<lambda>r.
       if r_completed r then Inr r else Inl (RuntimeErr ''migration verification failed''))"

subsection \<open>Times and values survive\<close>

lemma datetime_roundtrip: "0 \<le> t \<Longrightarrow> datetime_to_epoch_us t = t"
proof -
  assume t: "0 \<le> t"
  have "\<not> (of_int t :: rat) / 1000000 < 0" using t by (simp add: not_less)
  moreover have "\<lfloor>(of_int t :: rat) / 1000000\<rfloor> = t div 1000000"
    using floor_divide_of_int_eq [of t 1000000, where 'a = rat] by simp
  ultimately have "towards_zero (of_int t / 1000000) = t div 1000000" unfolding towards_zero_def by (rule trans [OF if_not_P])
  then show ?thesis by (simp add: datetime_to_epoch_us_def)
qed

text \<open>Before 1970 an instant between two seconds does not survive.\<close>

lemma old_time_moves: "epoch_us_to_datetime (- 500000) = Some (- 500000)" "datetime_to_epoch_us (- 500000) = 500000"
  by code_simp+

lemma collect_Inr: "collect rs = Inr xs \<longleftrightarrow> rs = map Inr xs"
proof (induction rs arbitrary: xs)
  case (Cons r rs)
  show ?case
  proof (cases r)
    case (Inr x)
    show ?thesis
    proof (cases xs)
      case (Cons y ys)
      show ?thesis using Cons.IH [of ys] by (auto simp: Inr Cons split: sum.split)
    qed (simp add: Inr split: sum.split)
  qed (auto simp: Cons_eq_map_conv)
qed auto

lemma collect_map_Inr: "collect (map h xs) = Inr ys \<longleftrightarrow> length xs = length ys \<and> (\<forall>i < length xs. h (xs ! i) = Inr (ys ! i))"
  by (auto simp: collect_Inr list_eq_iff_nth_eq)

definition good_value :: "table \<Rightarrow> column \<Rightarrow> sql_value \<Rightarrow> bool" where
  "good_value tb c v \<longleftrightarrow>
     (timed c \<longrightarrow> v = SNull \<or> (case v of SInt n \<Rightarrow> 0 \<le> n \<and> n \<le> MAX_TIME | _ \<Rightarrow> False))
     \<and> (col_name c = ''active'' \<longrightarrow> tname tb = ''instruments'' \<and> \<not> timed c \<and> v \<in> {SNull, SInt 0, SInt 1})"

definition good_row :: "table \<Rightarrow> sql_row \<Rightarrow> bool" where
  "good_row tb r \<longleftrightarrow> list_all2 (good_value tb) (columns tb) r"

lemma value_back:
  assumes "good_value tb c v"
  shows "\<exists>p. postgres_value tb c v = Inr p \<and> normalize_postgres_value c p = Inr v"
proof (cases "v = SNull")
  case True
  then show ?thesis by (simp add: postgres_value_def normalize_postgres_value_def)
next
  case False
  show ?thesis
  proof (cases "timed c")
    case True
    then obtain n where "v = SInt n" "0 \<le> n" "n \<le> MAX_TIME"
      using assms False by (auto simp: good_value_def split: sql_value.splits)
    moreover have "\<not> (tname tb = ''instruments'' \<and> col_name c = ''active'')" using assms True by (auto simp: good_value_def)
    ultimately show ?thesis using True
      by (auto simp: postgres_value_def normalize_postgres_value_def value_int_def epoch_us_to_datetime_def MIN_TIME_def
          datetime_roundtrip)
  next
    case nt: False
    show ?thesis
    proof (cases "col_name c = ''active''")
      case True
      with assms False have "tname tb = ''instruments''" "v = SInt 0 \<or> v = SInt 1" by (auto simp: good_value_def)
      moreover have "postgres_value tb c v = Inr (PBool b) \<and> normalize_postgres_value c (PBool b) = Inr v"
        if "tname tb = ''instruments''" "v = SInt (if b then 1 else 0)" for b
        using that True nt by (simp add: postgres_value_def normalize_postgres_value_def value_int_def pg_truthy_def)
      ultimately show ?thesis by (metis (full_types))
    next
      case na: False
      show ?thesis by (cases v) (simp_all add: postgres_value_def normalize_postgres_value_def nt na)
    qed
  qed
qed

lemma row_back:
  assumes "good_row tb r"
  shows "\<exists>p. postgres_row tb r = Inr p \<and> normalize_postgres_row tb p = Inr r \<and> length p = length (columns tb)"
proof -
  have "\<exists>p. collect (map2 (postgres_value tb) cs r) = Inr p \<and> collect (map2 normalize_postgres_value cs p) = Inr r
      \<and> length p = length cs" if "list_all2 (good_value tb) cs r" for cs
    using that
  proof (induction cs r rule: list_all2_induct)
    case (Cons c cs v r)
    then obtain p q where "postgres_value tb c v = Inr q" "normalize_postgres_value c q = Inr v"
        "collect (map2 (postgres_value tb) cs r) = Inr p" "collect (map2 normalize_postgres_value cs p) = Inr r"
        "length p = length cs"
      using value_back by blast
    then show ?case by (intro exI [of _ "q # p"]) simp
  qed simp
  with assms show ?thesis by (simp add: good_row_def postgres_row_def normalize_postgres_row_def)
qed

text \<open>A source row and its image in the target.\<close>

definition row_ready :: "world \<Rightarrow> table \<Rightarrow> sql_row \<Rightarrow> bool" where
  "row_ready w tb r \<longleftrightarrow> (case normalize_sqlite_row (w_iso w) tb r of Inl _ \<Rightarrow> False | Inr r' \<Rightarrow> good_row tb r')"

definition norm_of :: "world \<Rightarrow> table \<Rightarrow> sql_row \<Rightarrow> sql_row" where
  "norm_of w tb r = (case normalize_sqlite_row (w_iso w) tb r of Inl _ \<Rightarrow> [] | Inr r' \<Rightarrow> r')"

definition image_of :: "world \<Rightarrow> table \<Rightarrow> sql_row \<Rightarrow> pg_row" where
  "image_of w tb r = (case postgres_row tb (norm_of w tb r) of Inl _ \<Rightarrow> [] | Inr p \<Rightarrow> p)"

lemma row_ready_image:
  assumes "row_ready w tb r"
  shows "normalize_sqlite_row (w_iso w) tb r = Inr (norm_of w tb r)" "postgres_row tb (norm_of w tb r) = Inr (image_of w tb r)"
    "normalize_postgres_row tb (image_of w tb r) = Inr (norm_of w tb r)"
proof -
  show n: "normalize_sqlite_row (w_iso w) tb r = Inr (norm_of w tb r)"
    using assms by (auto simp: row_ready_def norm_of_def split: sum.splits)
  have "good_row tb (norm_of w tb r)" using assms by (simp add: row_ready_def n)
  from row_back [OF this] show "postgres_row tb (norm_of w tb r) = Inr (image_of w tb r)"
    "normalize_postgres_row tb (image_of w tb r) = Inr (norm_of w tb r)" by (auto simp: image_of_def)
qed

lemma collect_ready: "(\<forall>r \<in> set rs. h r = Inr (k r)) \<Longrightarrow> collect (map h rs) = Inr (map k rs)"
  by (simp add: collect_Inr)

subsection \<open>Both orders\<close>

lemma set_insert_by: "set (insert_by le x xs) = insert x (set xs)"
  by (induction xs) auto

lemma set_sort_by: "set (sort_by le xs) = set xs"
  by (induction xs) (auto simp: set_insert_by)

lemma insert_by_map:
  "(\<forall>y \<in> set ys. le' (h x) (h y) = le x y) \<Longrightarrow> insert_by le' (h x) (map h ys) = map h (insert_by le x ys)"
  by (induction ys) auto

lemma sort_by_map:
  "(\<forall>x \<in> set xs. \<forall>y \<in> set xs. le' (h x) (h y) = le x y) \<Longrightarrow> sort_by le' (map h xs) = map h (sort_by le xs)"
  by (induction xs) (simp_all add: insert_by_map set_sort_by)

text \<open>The two ORDER BY clauses compare the rows of a table alike.\<close>

definition same_order :: "world \<Rightarrow> table \<Rightarrow> sql_row list \<Rightarrow> bool" where
  "same_order w tb rs \<longleftrightarrow> list_all (\<lambda>r. list_all (\<lambda>s.
     lex_le (pg_le (w_collation w)) (order_key tb (image_of w tb r)) (order_key tb (image_of w tb s))
       = lex_le sqlite_le (order_key tb r) (order_key tb s)) rs) rs"

lemma orders_agree:
  "same_order w tb rs \<Longrightarrow> pg_order (w_collation w) tb (map (image_of w tb) rs) = map (image_of w tb) (sqlite_order tb rs)"
  unfolding pg_order_def sqlite_order_def by (rule sort_by_map) (simp add: same_order_def list_all_iff)

definition raws :: "source \<Rightarrow> table \<Rightarrow> (int \<times> sql_row) list" where "raws s tb = src_tables s (tname tb)"

definition table_ready :: "world \<Rightarrow> source \<Rightarrow> table \<Rightarrow> bool" where
  "table_ready w s tb \<longleftrightarrow> sorted_wrt (<) (map fst (raws s tb)) \<and> list_all (row_ready w tb) (map snd (raws s tb))"

lemma table_digests_equal:
  assumes r: "table_ready w s tb" and so: "same_order w tb (map snd (raws s tb))" and a: "assert_columns s tb = None"
    and pg: "pg (tname tb) = map (image_of w tb) (map snd (raws s tb))"
  shows "postgres_table_digest H (w_collation w) pg tb = sqlite_table_digest H (w_iso w) s tb"
proof -
  let ?rs = "map snd (raws s tb)"
  have o: "pg_order (w_collation w) tb (pg (tname tb)) = map (image_of w tb) (sqlite_order tb ?rs)"
    unfolding pg by (rule orders_agree [OF so])
  have ok: "\<forall>r \<in> set (sqlite_order tb ?rs). row_ready w tb r"
    using r by (simp add: table_ready_def list_all_iff sqlite_order_def set_sort_by)
  have "collect (map (normalize_postgres_row tb) (map (image_of w tb) (sqlite_order tb ?rs)))
      = Inr (map (norm_of w tb) (sqlite_order tb ?rs))"
    unfolding map_map by (rule collect_ready) (use ok row_ready_image(3) in auto)
  moreover have "collect (map (normalize_sqlite_row (w_iso w) tb) (sqlite_order tb ?rs))
      = Inr (map (norm_of w tb) (sqlite_order tb ?rs))"
    by (rule collect_ready) (use ok row_ready_image(1) in auto)
  ultimately show ?thesis
    by (simp add: postgres_table_digest_def sqlite_table_digest_def a o raws_def [symmetric] del: map_map)
qed

subsection \<open>The copy keeps the target a prefix of the source\<close>

definition normed :: "world \<Rightarrow> source \<Rightarrow> table \<Rightarrow> (int \<times> sql_row) list" where
  "normed w s tb = map (\<lambda>(i, r). (i, norm_of w tb r)) (raws s tb)"

lemma normalize_chunk_ready:
  assumes "list_all (row_ready w tb) (map snd rows)"
  shows "normalize_chunk w tb rows = Inr (map (\<lambda>(i, r). (i, norm_of w tb r)) rows)"
  unfolding normalize_chunk_def
  by (rule collect_ready) (use assms row_ready_image(1) in \<open>fastforce simp: list_all_iff\<close>)

lemma rowids:
  assumes "sorted_wrt (<) (map fst xs)"
  shows "a < b \<Longrightarrow> b < length xs \<Longrightarrow> fst (xs ! a) < (fst (xs ! b) :: int)"
    "a \<le> b \<Longrightarrow> b < length xs \<Longrightarrow> fst (xs ! a) \<le> fst (xs ! b)"
  using sorted_wrt_nth_less [OF assms, of a b] by (auto simp: le_less)

lemma in_takeE: "p \<in> set (take k xs) \<Longrightarrow> k \<le> length xs \<Longrightarrow> \<exists>i < k. p = xs ! i"
  by (auto simp: in_set_conv_nth)

lemma in_dropE: "p \<in> set (drop k xs) \<Longrightarrow> \<exists>i \<ge> k. i < length xs \<and> p = xs ! i"
proof -
  assume "p \<in> set (drop k xs)"
  then obtain i where "i < length xs - k" "p = xs ! (k + i)" by (auto simp: in_set_conv_nth)
  then show ?thesis by (intro exI [of _ "k + i"]) simp
qed

lemma filter_above:
  assumes s: "sorted_wrt (<) (map fst xs)" and "0 < k" "k \<le> length xs"
  shows "filter (\<lambda>p. fst p > fst (xs ! (k - 1))) xs = drop k (xs :: (int \<times> 'a) list)"
proof -
  have "\<not> fst p > fst (xs ! (k - 1))" if p: "p \<in> set (take k xs)" for p
  proof -
    from in_takeE [OF p assms(3)] obtain i where i: "i < k" "p = xs ! i" by blast
    have "fst (xs ! i) \<le> fst (xs ! (k - 1))" by (rule rowids(2) [OF s]) (use i assms in auto)
    with i show ?thesis by simp
  qed
  moreover have "fst p > fst (xs ! (k - 1))" if p: "p \<in> set (drop k xs)" for p
  proof -
    from in_dropE [OF p] obtain i where i: "k \<le> i" "i < length xs" "p = xs ! i" by blast
    have "fst (xs ! (k - 1)) < fst (xs ! i)" by (rule rowids(1) [OF s]) (use i assms in auto)
    with i show ?thesis by simp
  qed
  ultimately have "filter (\<lambda>p. fst p > fst (xs ! (k - 1))) (take k xs @ drop k xs) = drop k xs"
    unfolding filter_append by (simp add: filter_id_conv filter_empty_conv)
  then show ?thesis by simp
qed

lemma filter_between:
  assumes s: "sorted_wrt (<) (map fst xs)" and "j < k" "k \<le> length xs"
  shows "filter (\<lambda>p. fst (xs ! j) \<le> fst p \<and> fst p \<le> fst (xs ! (k - 1))) xs = drop j (take k (xs :: (int \<times> 'a) list))"
proof -
  let ?P = "\<lambda>p. fst (xs ! j) \<le> fst p \<and> fst p \<le> fst (xs ! (k - 1))"
  have mid: "?P p" if p: "p \<in> set (drop j (take k xs))" for p
  proof -
    from in_dropE [OF p] obtain i where i: "j \<le> i" "i < k" "p = xs ! i" using assms(3) by auto
    have "fst (xs ! j) \<le> fst (xs ! i)" "fst (xs ! i) \<le> fst (xs ! (k - 1))"
      by (rule rowids(2) [OF s]; use i assms in auto)+
    with i show ?thesis by simp
  qed
  have lo: "\<not> ?P p" if p: "p \<in> set (take j xs)" for p
  proof -
    from in_takeE [OF p] obtain i where i: "i < j" "p = xs ! i" using assms by auto
    have "fst (xs ! i) < fst (xs ! j)" by (rule rowids(1) [OF s]) (use i assms in auto)
    with i show ?thesis by simp
  qed
  have hi: "\<not> ?P p" if p: "p \<in> set (drop k xs)" for p
  proof -
    from in_dropE [OF p] obtain i where i: "k \<le> i" "i < length xs" "p = xs ! i" by blast
    have "fst (xs ! (k - 1)) < fst (xs ! i)" by (rule rowids(1) [OF s]) (use i assms in auto)
    with i show ?thesis by simp
  qed
  have split: "xs = take j xs @ drop j (take k xs) @ drop k xs"
    using assms(2) by (metis append.assoc append_take_drop_id less_imp_le min.absorb1 take_take)
  have "filter ?P (take j xs @ drop j (take k xs) @ drop k xs) = drop j (take k xs)"
    unfolding filter_append using lo mid hi by (simp add: filter_id_conv filter_empty_conv)
  then show ?thesis using split by simp
qed

definition table_synced :: "world \<Rightarrow> source \<Rightarrow> string \<Rightarrow> target \<Rightarrow> table \<Rightarrow> bool" where
  "table_synced w s run T tb \<longleftrightarrow>
     (case map_of (checkpoints T) (run, tname tb) of
        None \<Rightarrow> pg_tables T (tname tb) = []
      | Some cp \<Rightarrow> \<exists>j k. j < k \<and> k \<le> length (raws s tb)
          \<and> pg_tables T (tname tb) = map (image_of w tb) (map snd (take k (raws s tb)))
          \<and> cp = \<lparr>first_rowid = fst (raws s tb ! j), last_rowid = fst (raws s tb ! (k - 1)), chunk_rows = k - j,
              rows_done = k, chunk_digest = chunk_hash (w_hashes w) (drop j (take k (normed w s tb)))\<rparr>)"

definition copied :: "target \<Rightarrow> table \<Rightarrow> nat" where "copied T tb = length (pg_tables T (tname tb))"

text \<open>Where a table stands: \<open>copied\<close> rows are there, in order, and the checkpoint says so.\<close>

lemma table_synced_pos:
  assumes "table_synced w s run T tb"
  shows "copied T tb \<le> length (raws s tb)"
    "pg_tables T (tname tb) = map (image_of w tb) (map snd (take (copied T tb) (raws s tb)))"
    "checkpoint_count T run (tname tb) = copied T tb"
    "checkpoint_rowid T run (tname tb) = (if copied T tb = 0 then 0 else fst (raws s tb ! (copied T tb - 1)))"
  using assms
  by (auto simp: table_synced_def copied_def checkpoint_count_def checkpoint_rowid_def split: option.splits)

lemma read_ready:
  assumes r: "table_ready w s tb" and p: "\<forall>(i, _) \<in> set (raws s tb). 0 < i" and t: "table_synced w s run T tb"
  shows "read_sqlite_chunk w s tb (checkpoint_rowid T run (tname tb)) limit
    = Inr (let rest = drop (copied T tb) (normed w s tb) in if limit < 0 then rest else take (nat limit) rest)"
proof -
  let ?k = "copied T tb"
  have "filter (\<lambda>p. fst p > checkpoint_rowid T run (tname tb)) (raws s tb) = drop ?k (raws s tb)"
  proof (cases "?k = 0")
    case True
    with p show ?thesis by (auto simp: table_synced_pos(4) [OF t] filter_id_conv)
  next
    case False
    with filter_above [of "raws s tb" ?k] r table_synced_pos(1) [OF t] show ?thesis
      by (simp add: table_synced_pos(4) [OF t] table_ready_def)
  qed
  moreover have "list_all (row_ready w tb) (map snd (drop ?k (raws s tb)))"
    "list_all (row_ready w tb) (map snd (take n (drop ?k (raws s tb))))" for n
    using r unfolding table_ready_def by (auto simp: list_all_iff dest!: in_set_takeD in_set_dropD)
  ultimately show ?thesis
    by (simp add: read_sqlite_chunk_def raws_def [symmetric] normalize_chunk_ready normed_def drop_map take_map Let_def
        case_prod_unfold)
qed

lemma length_normed [simp]: "length (normed w s tb) = length (raws s tb)"
  by (simp add: normed_def)

lemma fst_normed: "i < length (raws s tb) \<Longrightarrow> fst (normed w s tb ! i) = fst (raws s tb ! i)"
  by (simp add: normed_def case_prod_unfold)

text \<open>The schema takes the rows of the source.\<close>

definition table_fits :: "world \<Rightarrow> source \<Rightarrow> table \<Rightarrow> bool" where
  "table_fits w s tb \<longleftrightarrow> schema_takes tb [] (map (image_of w tb) (map snd (raws s tb)))"

lemma insert_step:
  assumes r: "table_ready w s tb" and t: "table_synced w s run T tb" and acc: "table_fits w s tb"
    and c: "chunk = take m (drop (copied T tb) (normed w s tb))" "chunk \<noteq> []"
  shows "\<exists>T'. insert_chunk w run tb chunk T = Inr T' \<and> table_synced w s run T' tb
    \<and> copied T' tb = copied T tb + length chunk \<and> schema_made T' = schema_made T \<and> runs T' = runs T
    \<and> (\<forall>n. n \<noteq> tname tb \<longrightarrow> pg_tables T' n = pg_tables T n)
    \<and> (\<forall>k. k \<noteq> (run, tname tb) \<longrightarrow> map_of (checkpoints T') k = map_of (checkpoints T) k)
    \<and> fst ` set (checkpoints T') = insert (run, tname tb) (fst ` set (checkpoints T))
    \<and> (distinct (map fst (checkpoints T)) \<longrightarrow> distinct (map fst (checkpoints T')))"
proof -
  let ?k = "copied T tb"
  define l where "l = length chunk"
  have l: "0 < l" "?k + l \<le> length (raws s tb)" using c by (auto simp: l_def)
  have ch: "chunk = drop ?k (take (?k + l) (normed w s tb))"
    using c(1) unfolding l_def by (simp add: drop_take min_def)
  have "map snd chunk = map (norm_of w tb) (map snd (drop ?k (take (?k + l) (raws s tb))))"
    unfolding ch normed_def by (simp add: drop_map take_map case_prod_unfold)
  moreover have "\<forall>r \<in> set (map snd (drop ?k (take (?k + l) (raws s tb)))). postgres_row tb (norm_of w tb r) = Inr (image_of w tb r)"
    using r row_ready_image(2) unfolding table_ready_def list_all_iff by (fastforce dest: in_set_dropD in_set_takeD)
  ultimately have rows: "collect (map (postgres_row tb) (map snd chunk))
      = Inr (map (image_of w tb) (map snd (drop ?k (take (?k + l) (raws s tb)))))"
    using collect_ready [of "map snd (drop ?k (take (?k + l) (raws s tb)))" "\<lambda>r. postgres_row tb (norm_of w tb r)" "image_of w tb"]
    by (simp add: comp_def)
  let ?cp = "\<lparr>first_rowid = fst (hd chunk), last_rowid = fst (last chunk), chunk_rows = length chunk,
     rows_done = checkpoint_count T run (tname tb) + length chunk, chunk_digest = chunk_hash (w_hashes w) chunk\<rparr>"
  let ?T = "T\<lparr>pg_tables := (pg_tables T)(tname tb := pg_tables T (tname tb)
        @ map (image_of w tb) (map snd (drop ?k (take (?k + l) (raws s tb))))),
      checkpoints := AList.update (run, tname tb) ?cp (checkpoints T)\<rparr>"
  have "raws s tb = take ?k (raws s tb) @ drop ?k (take (?k + l) (raws s tb)) @ drop (?k + l) (raws s tb)"
    by (metis append.assoc append_take_drop_id le_add1 min.absorb1 take_take)
  then have "map (image_of w tb) (map snd (raws s tb)) = map (image_of w tb) (map snd (take ?k (raws s tb)))
      @ map (image_of w tb) (map snd (drop ?k (take (?k + l) (raws s tb)))) @ map (image_of w tb) (map snd (drop (?k + l) (raws s tb)))"
    by (metis map_append)
  then have "schema_takes tb (pg_tables T (tname tb)) (map (image_of w tb) (map snd (drop ?k (take (?k + l) (raws s tb)))))"
    using acc unfolding table_fits_def table_synced_pos(2) [OF t] by (simp only: schema_takes_part)
  then have ins: "insert_chunk w run tb chunk T = Inr ?T"
    unfolding insert_chunk_def rows by (simp add: bind_sum_def Let_def)
  have all: "pg_tables ?T (tname tb) = map (image_of w tb) (map snd (take (?k + l) (raws s tb)))"
  proof -
    have old: "pg_tables T (tname tb) = map (image_of w tb) (map snd (take ?k (take (?k + l) (raws s tb))))"
      using table_synced_pos(2) [OF t] by (simp add: take_take min_def)
    have "pg_tables T (tname tb) @ map (image_of w tb) (map snd (drop ?k (take (?k + l) (raws s tb))))
        = map (image_of w tb) (map snd (take (?k + l) (raws s tb)))"
      unfolding old map_append [symmetric] append_take_drop_id ..
    then show ?thesis by simp
  qed
  have "hd chunk = normed w s tb ! ?k" "last chunk = normed w s tb ! (?k + l - 1)"
    using l unfolding ch by (simp_all add: hd_drop_conv_nth last_conv_nth)
  moreover have "fst (normed w s tb ! ?k) = fst (raws s tb ! ?k)"
    "fst (normed w s tb ! (?k + l - 1)) = fst (raws s tb ! (?k + l - 1))"
    by (rule fst_normed; use l in simp)+
  ultimately have cp: "?cp = \<lparr>first_rowid = fst (raws s tb ! ?k), last_rowid = fst (raws s tb ! (?k + l - 1)), chunk_rows = ?k + l - ?k,
      rows_done = ?k + l, chunk_digest = chunk_hash (w_hashes w) (drop ?k (take (?k + l) (normed w s tb)))\<rparr>"
    by (simp add: table_synced_pos(3) [OF t] ch [symmetric] l_def [symmetric])
  have m: "map_of (checkpoints ?T) (run, tname tb) = Some ?cp" by (simp add: update_conv')
  have "table_synced w s run ?T tb"
    unfolding table_synced_def m option.case
    by (rule exI [of _ ?k], rule exI [of _ "?k + l"], intro conjI, rule less_add_same_cancel1 [THEN iffD2, OF l(1)],
      rule l(2), rule all, rule cp)
  moreover have "copied ?T tb = ?k + length chunk"
    using all l by (simp add: copied_def l_def)
  ultimately show ?thesis
    using ins by (intro exI [of _ ?T]) (auto simp: update_conv' dom_update distinct_update)
qed

definition source_ready :: "world \<Rightarrow> source \<Rightarrow> bool" where
  "source_ready w s \<longleftrightarrow>
     list_all (\<lambda>tb. table_ready w s tb \<and> table_fits w s tb \<and> list_all (\<lambda>p. 0 < fst p) (raws s tb)) CATALOG"

text \<open>Both databases put the stored rows of every table into the same order.\<close>

definition same_orders :: "world \<Rightarrow> source \<Rightarrow> bool" where
  "same_orders w s \<longleftrightarrow> list_all (\<lambda>tb. same_order w tb (map snd (raws s tb))) CATALOG"

lemma source_readyD:
  assumes "source_ready w s" "tb \<in> set CATALOG"
  shows "table_ready w s tb" "\<forall>(i, _) \<in> set (raws s tb). 0 < i" "table_fits w s tb"
  using assms by (fastforce simp: source_ready_def list_all_iff)+

lemma CATALOG_distinct: "distinct (map tname CATALOG)"
  by code_simp

lemma CATALOG_names: "tb \<in> set CATALOG \<Longrightarrow> tb' \<in> set CATALOG \<Longrightarrow> tname tb = tname tb' \<Longrightarrow> tb = tb'"
  using CATALOG_distinct by (auto simp: distinct_map dest: inj_onD)

definition synced :: "world \<Rightarrow> source \<Rightarrow> string \<Rightarrow> target \<Rightarrow> bool" where
  "synced w s run T \<longleftrightarrow> schema_made T \<and> (\<forall>tb \<in> set CATALOG. table_synced w s run T tb)
     \<and> distinct (map fst (checkpoints T)) \<and> fst ` set (checkpoints T) \<subseteq> Pair run ` tname ` set CATALOG"

lemma synced_step:
  assumes rd: "source_ready w s" and sy: "synced w s run T" and tb: "tb \<in> set CATALOG"
    and c: "chunk = take m (drop (copied T tb) (normed w s tb))" "chunk \<noteq> []"
  shows "\<exists>T'. insert_chunk w run tb chunk T = Inr T' \<and> synced w s run T' \<and> runs T' = runs T
    \<and> copied T' tb = copied T tb + length chunk \<and> (\<forall>u \<in> set CATALOG. u \<noteq> tb \<longrightarrow> copied T' u = copied T u)"
proof -
  have "table_synced w s run T tb" using sy tb by (simp add: synced_def)
  from insert_step [OF source_readyD(1) [OF rd tb] this source_readyD(3) [OF rd tb] c] obtain T' where
    T': "insert_chunk w run tb chunk T = Inr T'" "table_synced w s run T' tb" "copied T' tb = copied T tb + length chunk"
      "schema_made T' = schema_made T" "runs T' = runs T" "\<forall>n. n \<noteq> tname tb \<longrightarrow> pg_tables T' n = pg_tables T n"
      "\<forall>k. k \<noteq> (run, tname tb) \<longrightarrow> map_of (checkpoints T') k = map_of (checkpoints T) k"
      "fst ` set (checkpoints T') = insert (run, tname tb) (fst ` set (checkpoints T))"
      "distinct (map fst (checkpoints T)) \<longrightarrow> distinct (map fst (checkpoints T'))" by blast
  have other: "table_synced w s run T' u \<and> copied T' u = copied T u" if "u \<in> set CATALOG" "u \<noteq> tb" for u
  proof -
    have n: "tname u \<noteq> tname tb" using CATALOG_names [OF that(1) tb] that(2) by blast
    have "table_synced w s run T u" using sy that(1) by (simp add: synced_def)
    moreover have "pg_tables T' (tname u) = pg_tables T (tname u)" using n T'(6) by blast
    moreover have "map_of (checkpoints T') (run, tname u) = map_of (checkpoints T) (run, tname u)" using n T'(7) by blast
    ultimately show ?thesis by (simp add: table_synced_def copied_def cong: option.case_cong)
  qed
  have "synced w s run T'"
    unfolding synced_def using sy T'(2,4,8,9) other tb by (auto simp: synced_def)
  with T' other show ?thesis by blast
qed

text \<open>The rows still to be copied.\<close>

definition missing :: "source \<Rightarrow> target \<Rightarrow> table \<Rightarrow> nat" where "missing s T tb = length (raws s tb) - copied T tb"

definition counts_known :: "source \<Rightarrow> storage_digest \<Rightarrow> bool" where
  "counts_known s d \<longleftrightarrow> (\<forall>tb \<in> set CATALOG. \<exists>td. digest_of d (tname tb) = Some td \<and> row_count td = length (raws s tb))"

lemma copy_table_synced:
  assumes rd: "source_ready w s" and tb: "tb \<in> set CATALOG" and ck: "counts_known s d" and lim': "limit \<noteq> 0"
  shows "synced w s run T \<Longrightarrow> copy_table w s run d tb limit n T = (T', m, r) \<Longrightarrow>
    synced w s run T' \<and> runs T' = runs T \<and> (\<forall>u \<in> set CATALOG. u \<noteq> tb \<longrightarrow> copied T' u = copied T u)
    \<and> copied T tb \<le> copied T' tb \<and> n \<le> m + (copied T' tb - copied T tb)
    \<and> (r = Copied \<and> copied T' tb = length (raws s tb) \<or> r = Died \<and> m = 0)"
proof (induction n arbitrary: T)
  case (Suc n)
  let ?rest = "drop (copied T tb) (normed w s tb)"
  let ?m = "if limit < 0 then length ?rest else nat limit"
  let ?chunk = "take ?m ?rest"
  have ts: "table_synced w s run T tb" using Suc.prems(1) tb by (simp add: synced_def)
  have read: "read_sqlite_chunk w s tb (checkpoint_rowid T run (tname tb)) limit = Inr ?chunk"
    using read_ready [OF source_readyD(1,2) [OF rd tb] ts, of limit] by (simp add: Let_def)
  have le: "copied T tb \<le> length (raws s tb)" by (rule table_synced_pos(1) [OF ts])
  show ?case
  proof (cases ?chunk)
    case Nil
    then have "copied T tb = length (raws s tb)" using lim' le by (simp split: if_splits)
    with Suc.prems read Nil show ?thesis by auto
  next
    case (Cons x xs)
    then have ne: "?chunk \<noteq> []" by simp
    from synced_step [OF rd Suc.prems(1) tb refl this] obtain T1 where
      T1: "insert_chunk w run tb ?chunk T = Inr T1" "synced w s run T1" "runs T1 = runs T"
        "copied T1 tb = copied T tb + length ?chunk" "\<forall>u \<in> set CATALOG. u \<noteq> tb \<longrightarrow> copied T1 u = copied T u" by blast
    have ts1: "table_synced w s run T1 tb" using T1(2) tb by (simp add: synced_def)
    obtain td where td: "digest_of d (tname tb) = Some td" "row_count td = length (raws s tb)"
      using ck tb by (auto simp: counts_known_def)
    have "\<not> checkpoint_count T1 run (tname tb) > row_count td"
      using table_synced_pos(1,3) [OF ts1] td(2) by simp
    with Suc.prems(2) read Cons T1(1) td(1) have c: "copy_table w s run d tb limit n T1 = (T', m, r)" by simp
    from Suc.IH [OF T1(2) c] T1 ne show ?thesis by (cases ?chunk) auto
  qed
qed auto

lemma copy_tables_synced:
  assumes rd: "source_ready w s" and ck: "counts_known s d" and lim': "limit \<noteq> 0"
  shows "set tbs \<subseteq> set CATALOG \<Longrightarrow> distinct tbs \<Longrightarrow> synced w s run T \<Longrightarrow>
    copy_tables w s run d tbs limit n T = (T', r) \<Longrightarrow>
    synced w s run T' \<and> runs T' = runs T \<and> (\<forall>u \<in> set CATALOG. u \<notin> set tbs \<longrightarrow> copied T' u = copied T u)
    \<and> (r = Copied \<and> (\<forall>tb \<in> set tbs. copied T' tb = length (raws s tb))
       \<or> r = Died \<and> n \<le> (\<Sum>tb \<leftarrow> tbs. missing s T tb))"
proof (induction tbs arbitrary: T n)
  case (Cons tb tbs)
  obtain T1 m r1 where c: "copy_table w s run d tb limit n T = (T1, m, r1)" by (metis prod_cases3)
  have tb: "tb \<in> set CATALOG" using Cons.prems(1) by simp
  from copy_table_synced [OF rd tb ck lim' Cons.prems(3) c] have
    T1: "synced w s run T1" "runs T1 = runs T" "\<forall>u \<in> set CATALOG. u \<noteq> tb \<longrightarrow> copied T1 u = copied T u"
      "copied T tb \<le> copied T1 tb" "n \<le> m + (copied T1 tb - copied T tb)"
      "r1 = Copied \<and> copied T1 tb = length (raws s tb) \<or> r1 = Died \<and> m = 0" by blast+
  have full: "copied T1 tb \<le> length (raws s tb)" using table_synced_pos(1) T1(1) tb by (auto simp: synced_def)
  from T1(6) show ?case
  proof
    assume died: "r1 = Died \<and> m = 0"
    then have "T' = T1" "r = Died" using Cons.prems(4) c by auto
    then show ?thesis using T1 died full by (auto simp: missing_def)
  next
    assume ok: "r1 = Copied \<and> copied T1 tb = length (raws s tb)"
    then have c2: "copy_tables w s run d tbs limit m T1 = (T', r)" using Cons.prems(4) c by simp
    have out: "tb \<notin> set tbs" "set tbs \<subseteq> set CATALOG" using Cons.prems(1,2) by auto
    have same: "map (missing s T1) tbs = map (missing s T) tbs"
      using T1(3) out by (auto simp: missing_def intro!: map_cong)
    have "n \<le> m + missing s T tb" using T1(5) ok by (simp add: missing_def)
    with Cons.IH [OF out(2) _ T1(1) c2] Cons.prems(2) T1(2,3) ok out tb same show ?thesis by auto
  qed
qed simp

lemma first_error_None: "first_error h xs = None \<longleftrightarrow> (\<forall>x \<in> set xs. h x = None)"
  by (induction xs) (auto split: option.split)

lemma find_table: "tb \<in> set CATALOG \<Longrightarrow> find (\<lambda>t. tname t = tname tb) CATALOG = Some tb"
  using CATALOG_names
  by (cases "find (\<lambda>t. tname t = tname tb) CATALOG") (auto simp: find_map_None dest!: find_SomeD)

lemma validate_synced:
  assumes rd: "source_ready w s" and sy: "synced w s run T"
  shows "validate_checkpoints w s T run = None"
proof -
  have "validate_checkpoint w s T n cp = None" if m: "((r, n), cp) \<in> set (checkpoints T)" for r n cp
  proof -
    obtain tb where tb: "r = run" "n = tname tb" "tb \<in> set CATALOG" using sy m by (force simp: synced_def)
    have "map_of (checkpoints T) (run, tname tb) = Some cp" using m sy tb by (simp add: synced_def)
    moreover have "table_synced w s run T tb" using sy tb by (simp add: synced_def)
    ultimately obtain j k where jk: "j < k" "k \<le> length (raws s tb)"
      "pg_tables T (tname tb) = map (image_of w tb) (map snd (take k (raws s tb)))"
      "cp = \<lparr>first_rowid = fst (raws s tb ! j), last_rowid = fst (raws s tb ! (k - 1)), chunk_rows = k - j,
         rows_done = k, chunk_digest = chunk_hash (w_hashes w) (drop j (take k (normed w s tb)))\<rparr>"
      unfolding table_synced_def by auto
    have r: "table_ready w s tb" by (rule source_readyD(1) [OF rd tb(3)])
    then have "filter (\<lambda>p. fst (raws s tb ! j) \<le> fst p \<and> fst p \<le> fst (raws s tb ! (k - 1))) (raws s tb) = drop j (take k (raws s tb))"
      by (intro filter_between jk(1,2)) (simp add: table_ready_def)
    moreover have "list_all (row_ready w tb) (map snd (drop j (take k (raws s tb))))"
      using r unfolding table_ready_def by (auto simp: list_all_iff dest!: in_set_takeD in_set_dropD)
    ultimately have "read_sqlite_rowid_range w s tb (first_rowid cp) (last_rowid cp) = Inr (drop j (take k (normed w s tb)))"
      by (simp add: read_sqlite_rowid_range_def raws_def [symmetric] jk(4) normalize_chunk_ready normed_def drop_map take_map
          case_prod_unfold)
    then show ?thesis using jk
      by (simp add: validate_checkpoint_def tb(2) find_table [OF tb(3)] checkpoint_hash_from_source_def bind_sum_def)
  qed
  with sy show ?thesis by (auto simp: validate_checkpoints_def synced_def first_error_None)
qed

subsection \<open>Digests of a complete copy\<close>

lemma sqlite_digest_parts:
  assumes "canonical_sqlite_digest H fromiso s = Inr d"
  shows "map (sqlite_table_digest H fromiso s) CATALOG = map Inr (digests d)" "fingerprint d = print_hash H (digests d)"
    "\<And>tb. tb \<in> set CATALOG \<Longrightarrow> assert_columns s tb = None"
proof -
  have d: "storage_digest_of H (map (sqlite_table_digest H fromiso s) CATALOG) = Inr d"
    using assms by (simp add: canonical_sqlite_digest_def split: option.splits)
  then obtain ts where ts: "collect (map (sqlite_table_digest H fromiso s) CATALOG) = Inr ts"
    "d = \<lparr>fingerprint = print_hash H ts, digests = ts\<rparr>"
    by (auto simp: storage_digest_of_def map_sum_def split: sum.splits)
  then show m: "map (sqlite_table_digest H fromiso s) CATALOG = map Inr (digests d)" "fingerprint d = print_hash H (digests d)"
    by (simp_all add: collect_Inr)
  fix tb assume "tb \<in> set CATALOG"
  then have "sqlite_table_digest H fromiso s tb \<in> set (map Inr (digests d))" unfolding m(1) [symmetric] by simp
  then obtain td where "sqlite_table_digest H fromiso s tb = Inr td" by auto
  then show "assert_columns s tb = None" by (auto simp: sqlite_table_digest_def split: option.splits)
qed

lemma insert_by_length: "length (insert_by le x xs) = Suc (length xs)"
  by (induction xs) auto

lemma sort_by_length: "length (sort_by le xs) = length xs"
  by (induction xs) (auto simp: insert_by_length)

lemma digest_names: "sqlite_table_digest H fromiso s tb = Inr td \<Longrightarrow> d_name td = tname tb \<and> row_count td = length (raws s tb)"
  by (auto simp: sqlite_table_digest_def bind_sum_def digest_rows_def collect_map_Inr sqlite_order_def sort_by_length raws_def
      split: option.splits sum.splits if_splits)

lemma counts_from_digest:
  assumes "canonical_sqlite_digest H fromiso s = Inr d"
  shows "counts_known s d"
  unfolding counts_known_def
proof
  fix tb assume tb: "tb \<in> set CATALOG"
  note parts = sqlite_digest_parts [OF assms]
  have "sqlite_table_digest H fromiso s tb \<in> set (map Inr (digests d))" using tb unfolding parts(1) [symmetric] by simp
  then obtain td where td: "sqlite_table_digest H fromiso s tb = Inr td" "td \<in> set (digests d)" by auto
  have "map d_name (digests d) = map tname CATALOG"
  proof (rule nth_equalityI)
    show len: "length (map d_name (digests d)) = length (map tname CATALOG)" using arg_cong [OF parts(1), of length] by simp
    fix i assume i: "i < length (map d_name (digests d))"
    then have "sqlite_table_digest H fromiso s (CATALOG ! i) = Inr (digests d ! i)"
      using arg_cong [OF parts(1), of "\<lambda>l. l ! i"] len by simp
    with i len show "map d_name (digests d) ! i = map tname CATALOG ! i" using digest_names by simp
  qed
  then have "distinct (map fst (rev (map (\<lambda>t. (d_name t, t)) (digests d))))"
    using CATALOG_distinct by (simp add: rev_map [symmetric] comp_def)
  moreover have "(tname tb, td) \<in> set (rev (map (\<lambda>t. (d_name t, t)) (digests d)))"
    using td digest_names [OF td(1)] by force
  ultimately have "digest_of d (tname tb) = Some td" unfolding digest_of_def by (rule map_of_is_SomeI)
  then show "\<exists>td. digest_of d (tname tb) = Some td \<and> row_count td = length (raws s tb)"
    using digest_names [OF td(1)] by blast
qed

lemma complete_copy_digest:
  assumes rd: "source_ready w s" and so: "same_orders w s" and d: "canonical_sqlite_digest (w_hashes w) (w_iso w) s = Inr d"
    and sy: "synced w s run T" and full: "\<forall>tb \<in> set CATALOG. copied T tb = length (raws s tb)"
  shows "canonical_postgres_digest (w_hashes w) (w_collation w) (pg_tables T) = Inr d"
proof -
  have "postgres_table_digest (w_hashes w) (w_collation w) (pg_tables T) tb = sqlite_table_digest (w_hashes w) (w_iso w) s tb"
    if tb: "tb \<in> set CATALOG" for tb
  proof (rule table_digests_equal [OF source_readyD(1) [OF rd tb] _ sqlite_digest_parts(3) [OF d tb]])
    show "same_order w tb (map snd (raws s tb))" using so tb by (simp add: same_orders_def list_all_iff)
    have "table_synced w s run T tb" using sy tb by (simp add: synced_def)
    from table_synced_pos(2) [OF this] full tb
    show "pg_tables T (tname tb) = map (image_of w tb) (map snd (raws s tb))" by simp
  qed
  then have eq: "map (postgres_table_digest (w_hashes w) (w_collation w) (pg_tables T)) CATALOG
      = map (sqlite_table_digest (w_hashes w) (w_iso w) s) CATALOG" by (simp cong: map_cong)
  show ?thesis using d unfolding canonical_postgres_digest_def eq by (simp add: canonical_sqlite_digest_def split: option.splits)
qed

subsection \<open>Interrupted runs\<close>

definition receipt_of :: "string \<Rightarrow> storage_digest \<Rightarrow> receipt" where
  "receipt_of run d = \<lparr>r_run = run, r_fingerprint = fingerprint d, r_completed = True, r_source = d, r_target = d\<rparr>"

definition run_synced :: "world \<Rightarrow> source \<Rightarrow> string \<Rightarrow> string \<Rightarrow> target \<Rightarrow> bool" where
  "run_synced w s run fp T \<longleftrightarrow> synced w s run T
     \<and> (runs T = [] \<and> (\<forall>tb \<in> set CATALOG. copied T tb = 0) \<or> (\<exists>st. runs T = [(run, fp, st)]))"

lemma synced_same:
  assumes "synced w s run T" "pg_tables T' = pg_tables T" "checkpoints T' = checkpoints T" "schema_made T'"
  shows "synced w s run T'"
  using assms by (simp add: synced_def table_synced_def cong: option.case_cong)

lemma run_synced_step:
  assumes rd: "source_ready w s" and d: "canonical_sqlite_digest (w_hashes w) (w_iso w) s = Inr d"
    and a: "\<not> a_locked a" "a_limit a \<noteq> 0" and sy: "run_synced w s (a_run a) (fingerprint d) T"
    and run: "run_migration w s s a T = (T', out)"
  shows "run_synced w s (a_run a) (fingerprint d) T'
    \<and> (out = Killed \<and> a_steps a \<le> (\<Sum>tb \<leftarrow> CATALOG. missing s T tb)
       \<or> (\<forall>tb \<in> set CATALOG. copied T' tb = length (raws s tb))
          \<and> (same_orders w s \<longrightarrow> out = Finished (receipt_of (a_run a) d) \<and> runs T' = [(a_run a, fingerprint d, COMPLETED)]))"
proof -
  let ?T = "if a_init a then T\<lparr>schema_made := True\<rparr> else T"
  have s0: "synced w s (a_run a) T" "schema_made T" using sy by (simp_all add: run_synced_def synced_def)
  have T: "?T = T" using s0(2) by simp
  have "assert_empty_or_matching T (a_run a) (fingerprint d) = None"
    using sy by (auto simp: assert_empty_or_matching_def run_synced_def list_ex_iff copied_def)
  then have run': "run_migration w s s a T =
      (case copy_tables w s (a_run a) d CATALOG (a_limit a) (a_steps a) (ensure_run (a_run a) (fingerprint d) T) of
         (T', Copied) \<Rightarrow> verify_copy w s (a_run a) d T' | (T', CopyRaised e) \<Rightarrow> (T', Raised e) | (T', Died) \<Rightarrow> (T', Killed))"
    using a(1) validate_synced [OF rd s0(1)] unfolding run_migration_def d sum.case Let_def T by simp
  let ?T1 = "ensure_run (a_run a) (fingerprint d) T"
  have runs1: "\<exists>st. runs ?T1 = [(a_run a, fingerprint d, st)]"
    using sy by (auto simp: ensure_run_def run_synced_def)
  have same: "copied ?T1 = copied T" "pg_tables ?T1 = pg_tables T" "checkpoints ?T1 = checkpoints T" "schema_made ?T1"
    using s0(2) by (auto simp: ensure_run_def copied_def)
  have s1: "synced w s (a_run a) ?T1" by (rule synced_same [OF s0(1) same(2-4)])
  obtain T2 r2 where c: "copy_tables w s (a_run a) d CATALOG (a_limit a) (a_steps a) ?T1 = (T2, r2)" by fastforce
  have dis: "distinct CATALOG" using CATALOG_distinct by (simp add: distinct_map)
  from copy_tables_synced [OF rd counts_from_digest [OF d] a(2) subset_refl dis s1 c] have
    T2: "synced w s (a_run a) T2" "runs T2 = runs ?T1"
      "r2 = Copied \<and> (\<forall>tb \<in> set CATALOG. copied T2 tb = length (raws s tb))
        \<or> r2 = Died \<and> a_steps a \<le> (\<Sum>tb \<leftarrow> CATALOG. missing s ?T1 tb)" by auto
  from T2(3) show ?thesis
  proof
    assume full: "r2 = Copied \<and> (\<forall>tb \<in> set CATALOG. copied T2 tb = length (raws s tb))"
    have v: "verify_copy w s (a_run a) d T2 = (complete_run (a_run a) T2, Finished (receipt_of (a_run a) d))" if "same_orders w s"
      using complete_copy_digest [OF rd that d T2(1)] full d by (simp add: verify_copy_def receipt_of_def)
    have end': "verify_copy w s (a_run a) d T2 = (T', out)" using run run' c full by simp
    have "T' = T2 \<or> T' = complete_run (a_run a) T2"
      using arg_cong [OF end', of fst] by (auto simp: verify_copy_def split: sum.splits if_splits)
    then have T': "pg_tables T' = pg_tables T2" "checkpoints T' = checkpoints T2" "schema_made T' = schema_made T2"
      "\<exists>st. runs T' = [(a_run a, fingerprint d, st)]" "copied T' = copied T2"
      using T2(2) runs1 by (auto simp: complete_run_def copied_def)
    have "synced w s (a_run a) T'"
      by (rule synced_same [OF T2(1) T'(1,2)]) (use T2(1) T'(3) in \<open>simp add: synced_def\<close>)
    moreover have "runs T' = [(a_run a, fingerprint d, COMPLETED)]" if "same_orders w s"
      using T2(2) runs1 v [OF that] end' by (auto simp: complete_run_def)
    ultimately show ?thesis using full T'(4,5) v end' by (auto simp: run_synced_def)
  next
    assume died: "r2 = Died \<and> a_steps a \<le> (\<Sum>tb \<leftarrow> CATALOG. missing s ?T1 tb)"
    then have "T' = T2" "out = Killed" using run run' c by auto
    with died T2(1,2) runs1 same(1) show ?thesis by (auto simp: run_synced_def missing_def)
  qed
qed

definition proper :: "string \<Rightarrow> run_args \<Rightarrow> bool" where
  "proper run a \<longleftrightarrow> a_run a = run \<and> \<not> a_locked a \<and> a_limit a \<noteq> 0"

definition attempts :: "world \<Rightarrow> source \<Rightarrow> run_args list \<Rightarrow> target" where
  "attempts w s as = foldl (\<lambda>T a. fst (run_migration w s s a T)) (empty_target True) as"

lemma attempts_synced:
  assumes rd: "source_ready w s" and d: "canonical_sqlite_digest (w_hashes w) (w_iso w) s = Inr d"
  shows "list_all (proper run) as \<Longrightarrow> run_synced w s run (fingerprint d) (attempts w s as)"
proof (induction as rule: rev_induct)
  case Nil
  then show ?case
    by (simp add: attempts_def run_synced_def synced_def table_synced_def empty_target_def copied_def)
next
  case (snoc a as)
  obtain T' out where r: "run_migration w s s a (attempts w s as) = (T', out)" by fastforce
  have "a_run a = run" "\<not> a_locked a" "a_limit a \<noteq> 0" using snoc.prems by (auto simp: proper_def)
  moreover have "run_synced w s run (fingerprint d) (attempts w s as)" using snoc by simp
  ultimately have "run_synced w s run (fingerprint d) T'" using run_synced_step [OF rd d _ _ _ r] by simp
  then show ?case using r by (simp add: attempts_def)
qed

text \<open>
  C7: a migration survives being killed. Take a source whose rows can be read, converted and taken by the target's
  schema (NOT NULL, integer ranges, keys and venues as in \<^verbatim>\<open>schema.sql\<close>). After any number of attempts, each with its own
  chunk size and killed after any number of chunk transactions, one more attempt with steps enough for all rows copies the
  rest: in every table of the target the rows read back as those of the source, row for row, none missing and none twice.
  When moreover both databases put the stored rows of each table into the same order, this attempt completes the run and the
  verification confirms it. (Otherwise it may raise, as \<open>null_order_fails\<close> below shows, although the copy is complete.)
\<close>

theorem migration_resumes:
  assumes rd: "source_ready w s" and d: "canonical_sqlite_digest (w_hashes w) (w_iso w) s = Inr d"
    and att: "list_all (proper run) as" and a: "proper run a" and steps: "(\<Sum>tb \<leftarrow> CATALOG. length (src_tables s (tname tb))) < a_steps a"
  shows "\<exists>T' out. run_migration w s s a (attempts w s as) = (T', out)
    \<and> (\<forall>tb \<in> set CATALOG. collect (map (normalize_postgres_row tb) (pg_tables T' (tname tb)))
         = collect (map (normalize_sqlite_row (w_iso w) tb) (map snd (src_tables s (tname tb))))
         \<and> length (pg_tables T' (tname tb)) = length (src_tables s (tname tb)))
    \<and> (same_orders w s \<longrightarrow> (\<exists>r. out = Finished r \<and> r_completed r \<and> verify_migration w s run T' = Inr r))"
proof -
  obtain T' out where r: "run_migration w s s a (attempts w s as) = (T', out)" by fastforce
  have a': "a_run a = run" "\<not> a_locked a" "a_limit a \<noteq> 0" using a by (auto simp: proper_def)
  have "(\<Sum>tb \<leftarrow> CATALOG. missing s (attempts w s as) tb) \<le> (\<Sum>tb \<leftarrow> CATALOG. length (src_tables s (tname tb)))"
    by (rule sum_list_mono) (simp add: missing_def raws_def)
  then have T': "run_synced w s run (fingerprint d) T'" "\<forall>tb \<in> set CATALOG. copied T' tb = length (raws s tb)"
      "same_orders w s \<Longrightarrow> out = Finished (receipt_of run d) \<and> runs T' = [(run, fingerprint d, COMPLETED)]"
    using run_synced_step [OF rd d a'(2,3) _ r] attempts_synced [OF rd d att] steps a'(1) by auto
  have sy: "synced w s run T'" using T'(1) by (simp add: run_synced_def)
  have same_rows: "collect (map (normalize_postgres_row tb) (pg_tables T' (tname tb)))
      = collect (map (normalize_sqlite_row (w_iso w) tb) (map snd (src_tables s (tname tb))))" if tb: "tb \<in> set CATALOG" for tb
  proof -
    have ok: "\<forall>x \<in> set (map snd (raws s tb)). row_ready w tb x"
      using source_readyD(1) [OF rd tb] by (simp add: table_ready_def list_all_iff)
    have "table_synced w s run T' tb" using sy tb by (simp add: synced_def)
    from table_synced_pos(2) [OF this] have "pg_tables T' (tname tb) = map (image_of w tb) (map snd (raws s tb))"
      using T'(2) tb by simp
    moreover have "collect (map (normalize_postgres_row tb \<circ> image_of w tb) (map snd (raws s tb)))
        = Inr (map (norm_of w tb) (map snd (raws s tb)))"
      by (rule collect_ready) (use ok row_ready_image(3) in auto)
    moreover have "collect (map (normalize_sqlite_row (w_iso w) tb) (map snd (raws s tb)))
        = Inr (map (norm_of w tb) (map snd (raws s tb)))"
      by (rule collect_ready) (use ok row_ready_image(1) in auto)
    ultimately show ?thesis by (simp add: raws_def comp_assoc)
  qed
  have "verify_migration w s run T' = Inr (receipt_of run d)" if so: "same_orders w s"
    using complete_copy_digest [OF rd so d sy T'(2)] d sy T'(3) [OF so]
    by (simp add: verify_migration_def migration_status_def bind_sum_def run_state_of_def synced_def receipt_of_def)
  then have "same_orders w s \<longrightarrow> (\<exists>r. out = Finished r \<and> r_completed r \<and> verify_migration w s run T' = Inr r)"
    using T'(3) by (auto simp: receipt_of_def)
  with r T'(2) same_rows show ?thesis by (intro exI [of _ T'] exI [of _ out]) (simp add: copied_def raws_def)
qed

definition demo_world :: world where
  "demo_world = \<lparr>w_hashes = \<lparr>rows_hash = (\<lambda>rs. if rs \<noteq> [] \<and> last (hd rs) = SNull then ''n'' else ''v''),
       chunk_hash = (\<lambda>c. map (\<lambda>_. CHR ''x'') c), print_hash = (\<lambda>ts. concat (map content_hash ts))\<rparr>,
     w_iso = (\<lambda>_. None), w_collation = text_le\<rparr>"

definition demo_trade :: "int \<Rightarrow> sql_value \<Rightarrow> sql_row" where
  "demo_trade ts sq = [SInt ts, SText (map of_char ''KIS''), SText (map of_char ''005930''), SReal 70000, SReal 1, SInt 1, SInt ts,
     SNull, sq]"

definition demo_source :: "(int \<times> sql_row) list \<Rightarrow> source" where
  "demo_source rows = \<lparr>src_tables = (\<lambda>n. if n = ''trades'' then rows else []),
     src_columns = (\<lambda>n. case find (\<lambda>tb. tname tb = n) CATALOG of None \<Rightarrow> [] | Some tb \<Rightarrow> column_names tb)\<rparr>"

definition demo_rows :: "(int \<times> sql_row) list" where
  "demo_rows = [(1, demo_trade 20 (SInt 2)), (2, demo_trade 10 (SInt 1)), (5, demo_trade 30 SNull)]"

definition demo_args :: "nat \<Rightarrow> run_args" where
  "demo_args n = \<lparr>a_run = ''r1'', a_limit = 1, a_init = False, a_locked = False, a_steps = n\<rparr>"

text \<open>Killed before the first chunk and after two chunks, then run through.\<close>

theorem migration_resumes_witness:
  "\<exists>T' r. run_migration demo_world (demo_source demo_rows) (demo_source demo_rows) (demo_args 4)
     (attempts demo_world (demo_source demo_rows) [demo_args 0, demo_args 2]) = (T', Finished r) \<and> r_completed r
     \<and> length (pg_tables T' ''trades'') = 3"
proof -
  have "source_ready demo_world (demo_source demo_rows)" by code_simp
  moreover have "\<not> isl (canonical_sqlite_digest (w_hashes demo_world) (w_iso demo_world) (demo_source demo_rows))" by code_simp
  then obtain d where "canonical_sqlite_digest (w_hashes demo_world) (w_iso demo_world) (demo_source demo_rows) = Inr d"
    by (auto simp: isl_def) (metis sum.exhaust)
  moreover have "list_all (proper ''r1'') [demo_args 0, demo_args 2]" "proper ''r1'' (demo_args 4)"
    by (simp_all add: proper_def demo_args_def)
  moreover have "(\<Sum>tb \<leftarrow> CATALOG. length (src_tables (demo_source demo_rows) (tname tb))) < a_steps (demo_args 4)" by code_simp
  ultimately obtain T' out where T': "run_migration demo_world (demo_source demo_rows) (demo_source demo_rows) (demo_args 4)
      (attempts demo_world (demo_source demo_rows) [demo_args 0, demo_args 2]) = (T', out)"
    "\<forall>tb \<in> set CATALOG. length (pg_tables T' (tname tb)) = length (src_tables (demo_source demo_rows) (tname tb))"
    "same_orders demo_world (demo_source demo_rows) \<longrightarrow> (\<exists>r. out = Finished r \<and> r_completed r)"
    using migration_resumes [of demo_world "demo_source demo_rows" d "''r1''" "[demo_args 0, demo_args 2]" "demo_args 4"] by blast
  moreover have "same_orders demo_world (demo_source demo_rows)" by code_simp
  moreover have "trades \<in> set CATALOG" "tname trades = ''trades''" "length (src_tables (demo_source demo_rows) ''trades'') = 3"
    by (simp_all add: CATALOG_def trades_def demo_source_def demo_rows_def)
  ultimately show ?thesis by metis
qed

text \<open>
  Two trades of the same instant, one without a sequence number: the copy is complete and equal row for
  row, but the databases put NULL at different ends, the digests differ, and the run never completes.
\<close>

definition null_rows :: "(int \<times> sql_row) list" where
  "null_rows = [(1, demo_trade 10 (SInt 1)), (2, demo_trade 10 SNull)]"

lemma null_order_fails:
  "(case run_migration demo_world (demo_source null_rows) (demo_source null_rows) (demo_args 5) (empty_target True) of (T, out) \<Rightarrow>
      out = Raised (RuntimeErr ''migration verify failed: source and target digests differ'')
      \<and> collect (map (normalize_postgres_row trades) (pg_tables T ''trades''))
          = collect (map (normalize_sqlite_row (w_iso demo_world) trades) (map snd null_rows)))"
  by code_simp

end
