(* ===== verification/Clock.thy ===== *)
theory Clock
  imports Prelude
begin

section \<open>Clock offset per venue\<close>

text \<open>
  Models \<^verbatim>\<open>src/mdfeed/clock.py\<close>: the offset between the clock of a venue and ours, estimated as the
  smallest latency seen in a sliding window of buckets. The report dictionaries are not modelled.
\<close>

record skew =
  bucket_s :: seconds
  buckets :: "rat option list"
  cur_idx :: nat
  cur_start :: seconds
  samples :: nat

definition new_skew :: "seconds \<Rightarrow> nat \<Rightarrow> seconds \<Rightarrow> skew" where
  "new_skew window n now =
     \<lparr>bucket_s = window / of_nat n, buckets = replicate n None, cur_idx = 0, cur_start = now, samples = 0\<rparr>"

text \<open>One step of the ring: the oldest bucket is emptied.\<close>

definition roll_one :: "skew \<Rightarrow> skew" where
  "roll_one e = (let i = (cur_idx e + 1) mod length (buckets e) in e\<lparr>cur_idx := i, buckets := (buckets e)[i := None]\<rparr>)"

definition roll :: "seconds \<Rightarrow> skew \<Rightarrow> skew" where
  "roll now e =
     (let elapsed = now - cur_start e in
      if elapsed < bucket_s e then e
      else let steps = min (nat \<lfloor>elapsed / bucket_s e\<rfloor>) (length (buckets e))
           in ((roll_one ^^ steps) e)\<lparr>cur_start := cur_start e + of_nat steps * bucket_s e\<rparr>)"

definition offset_us :: "skew \<Rightarrow> rat" where
  "offset_us e = (let vals = List.map_filter id (buckets e) in if vals = [] then 0 else Min (set vals))"

definition observe_latency :: "rat \<Rightarrow> seconds \<Rightarrow> skew \<Rightarrow> skew \<times> rat" where
  "observe_latency x now e0 =
     (let e1 = roll now e0;
          b = buckets e1 ! cur_idx e1;
          e2 = (case b of
                  None \<Rightarrow> e1\<lparr>buckets := (buckets e1)[cur_idx e1 := Some x]\<rparr>
                | Some y \<Rightarrow> if x < y then e1\<lparr>buckets := (buckets e1)[cur_idx e1 := Some x]\<rparr> else e1);
          e3 = e2\<lparr>samples := samples e2 + 1\<rparr>
      in (e3, max 0 (x - offset_us e3)))"

definition suspicious :: "skew \<Rightarrow> bool" where "suspicious e \<longleftrightarrow> offset_us e < - 1000"

text \<open>One estimator per venue, made at the first observation.\<close>

type_synonym 'k clock_monitor = "('k \<times> skew) list"

definition WINDOW_S :: seconds where "WINDOW_S = 300"
definition BUCKETS :: nat where "BUCKETS = 10"

definition monitor_observe :: "'k \<Rightarrow> rat \<Rightarrow> seconds \<Rightarrow> 'k clock_monitor \<Rightarrow> 'k clock_monitor \<times> rat" where
  "monitor_observe v x now m =
     (let e = (case map_of m v of None \<Rightarrow> new_skew WINDOW_S BUCKETS now | Some e \<Rightarrow> e);
          (e', y) = observe_latency x now e
      in (AList.update v e' m, y))"

definition any_suspicious :: "'k clock_monitor \<Rightarrow> bool" where
  "any_suspicious m \<longleftrightarrow> list_ex (\<lambda>(_, e). suspicious e) m"

subsection \<open>The corrected latency\<close>

definition skew_ok :: "skew \<Rightarrow> bool" where "skew_ok e \<longleftrightarrow> cur_idx e < length (buckets e)"

lemma skew_ok_new: "0 < n \<Longrightarrow> skew_ok (new_skew w n now)"
  by (simp add: skew_ok_def new_skew_def)

lemma roll_one_ok:
  assumes "skew_ok e"
  shows "skew_ok (roll_one e)" "length (buckets (roll_one e)) = length (buckets e)"
proof -
  have "0 < length (buckets e)" using assms by (cases "buckets e") (auto simp: skew_ok_def)
  then show "skew_ok (roll_one e)" by (simp add: skew_ok_def roll_one_def Let_def)
qed (simp add: roll_one_def Let_def)

lemma rolls_ok:
  "skew_ok e \<Longrightarrow> skew_ok ((roll_one ^^ n) e) \<and> length (buckets ((roll_one ^^ n) e)) = length (buckets e)"
  by (induction n) (simp_all add: roll_one_ok)

lemma rolls_bucket [simp]: "bucket_s ((roll_one ^^ n) e) = bucket_s e"
  by (induction n) (simp_all add: roll_one_def Let_def)

lemma roll_ok: "skew_ok e \<Longrightarrow> skew_ok (roll now e)"
  using rolls_ok [of e "min (nat \<lfloor>(now - cur_start e) / bucket_s e\<rfloor>) (length (buckets e))"]
  by (simp add: roll_def Let_def skew_ok_def)

lemma set_map_filter_id: "set (List.map_filter id bs) = {y. Some y \<in> set bs}"
  by (force simp: List.map_filter_def)

lemma offset_le: "Some y \<in> set (buckets e) \<Longrightarrow> offset_us e \<le> y"
proof -
  assume "Some y \<in> set (buckets e)"
  then have y: "y \<in> set (List.map_filter id (buckets e))" by (simp add: set_map_filter_id)
  then have "List.map_filter id (buckets e) \<noteq> []" by auto
  then show ?thesis using Min_le [OF finite_set y] by (simp add: offset_us_def Let_def)
qed

text \<open>The sample is never below the estimated offset, so the difference is not cut.\<close>

lemma observe_offset:
  assumes "skew_ok e"
  shows "offset_us (fst (observe_latency x now e)) \<le> x" "skew_ok (fst (observe_latency x now e))"
proof -
  let ?e1 = "roll now e" and ?e3 = "fst (observe_latency x now e)"
  have i: "cur_idx ?e1 < length (buckets ?e1)" using roll_ok [OF assms] by (simp add: skew_ok_def)
  have "\<exists>y \<le> x. Some y \<in> set (buckets ?e3)"
  proof (cases "\<exists>y \<le> x. buckets ?e1 ! cur_idx ?e1 = Some y")
    case True
    then obtain y where y: "y \<le> x" "buckets ?e1 ! cur_idx ?e1 = Some y" by blast
    then have "Some y \<in> set (buckets ?e1)" using nth_mem [OF i] by simp
    then show ?thesis using y i set_update_memI [OF i, of "Some x"]
      by (auto simp: observe_latency_def Let_def)
  next
    case False
    then have "buckets ?e3 = (buckets ?e1)[cur_idx ?e1 := Some x]"
      by (auto simp: observe_latency_def Let_def not_le split: option.split)
    then show ?thesis using set_update_memI [OF i, of "Some x"] by auto
  qed
  then show "offset_us ?e3 \<le> x" using offset_le order_trans by blast
  show "skew_ok ?e3" using i by (auto simp: skew_ok_def observe_latency_def Let_def split: option.split)
qed

lemma corrected_latency:
  assumes "skew_ok e"
  shows "snd (observe_latency x now e) = x - offset_us (fst (observe_latency x now e))"
  using observe_offset(1) [OF assms, of x now] by (simp add: observe_latency_def Let_def)

text \<open>The report for one venue over a run of samples.\<close>

primrec observe_run :: "(rat \<times> seconds) list \<Rightarrow> skew \<Rightarrow> skew \<times> (rat \<times> rat) list" where
  "observe_run [] e = (e, [])"
| "observe_run (s # ss) e =
     (let (e1, y) = observe_latency (fst s) (snd s) e; (e2, out) = observe_run ss e1
      in (e2, (y, offset_us e1) # out))"

lemma observe_run_corrected:
  "skew_ok e \<Longrightarrow>
    list_all2 (\<lambda>s (y, off). y = fst s - off \<and> 0 \<le> y) ss (snd (observe_run ss e))"
proof (induction ss arbitrary: e)
  case (Cons s ss)
  have "skew_ok (fst (observe_latency (fst s) (snd s) e))" by (rule observe_offset) (rule Cons.prems)
  from Cons.IH [OF this] show ?case
    using corrected_latency [OF Cons.prems, of "fst s" "snd s"]
      observe_offset(1) [OF Cons.prems, of "fst s" "snd s"]
    by (simp add: split_beta Let_def)
qed simp

text \<open>After an idle time of a whole window every bucket is emptied: the sample is its own offset.\<close>

lemma rolls_empty:
  assumes "skew_ok e" "n \<le> length (buckets e)"
  shows "cur_idx ((roll_one ^^ n) e) = (cur_idx e + n) mod length (buckets e)
    \<and> (\<forall>k \<in> {1..n}. buckets ((roll_one ^^ n) e) ! ((cur_idx e + k) mod length (buckets e)) = None)"
  using assms(2)
proof (induction n)
  case 0 then show ?case using assms(1) by (simp add: skew_ok_def)
next
  case (Suc n)
  let ?e = "(roll_one ^^ n) e" and ?L = "length (buckets e)"
  have L: "length (buckets ?e) = ?L" and pos: "0 < ?L"
    using rolls_ok [OF assms(1)] assms(1) by (auto simp: skew_ok_def)
  have c: "cur_idx ?e = (cur_idx e + n) mod ?L" using Suc by simp
  have i: "(cur_idx ?e + 1) mod ?L = (cur_idx e + Suc n) mod ?L"
    unfolding c by (simp add: mod_Suc_eq)
  have b: "buckets (roll_one ?e) = (buckets ?e)[(cur_idx e + Suc n) mod ?L := None]"
    "cur_idx (roll_one ?e) = (cur_idx e + Suc n) mod ?L"
    using i L by (simp_all add: roll_one_def Let_def)
  have "\<forall>k \<in> {1..n}. buckets ?e ! ((cur_idx e + k) mod ?L) = None" using Suc by simp
  then have "\<forall>k \<in> {1..Suc n}. buckets (roll_one ?e) ! ((cur_idx e + k) mod ?L) = None"
    unfolding b using L pos by (auto simp: nth_list_update le_Suc_eq)
  then show ?case using b by simp
qed

lemma rolls_all_empty:
  assumes "skew_ok e" "i < length (buckets e)"
  shows "buckets ((roll_one ^^ length (buckets e)) e) ! i = None"
proof -
  let ?L = "length (buckets e)"
  have c: "cur_idx e < ?L" using assms(1) by (simp add: skew_ok_def)
  have "\<exists>k \<in> {1..?L}. (cur_idx e + k) mod ?L = i"
  proof (cases "cur_idx e < i")
    case True
    then show ?thesis using assms(2) by (intro bexI [of _ "i - cur_idx e"]) auto
  next
    case False
    then show ?thesis using assms(2) c by (intro bexI [of _ "?L + i - cur_idx e"]) auto
  qed
  then show ?thesis using rolls_empty [OF assms(1) order_refl] by force
qed

lemma idle_window:
  assumes "skew_ok e" "0 < bucket_s e" "of_nat (length (buckets e)) * bucket_s e \<le> now - cur_start e"
  shows "snd (observe_latency x now e) = 0" "offset_us (fst (observe_latency x now e)) = x"
    "cur_start (fst (observe_latency x now e)) = cur_start e + of_nat (length (buckets e)) * bucket_s e"
proof -
  let ?L = "length (buckets e)" let ?r = "(roll_one ^^ ?L) e" let ?e1 = "roll now e"
  have pos: "0 < ?L" using assms(1) by (auto simp: skew_ok_def)
  have "of_nat ?L \<le> (now - cur_start e) / bucket_s e"
    using assms(2,3) by (simp add: pos_le_divide_eq)
  then have "int ?L \<le> \<lfloor>(now - cur_start e) / bucket_s e\<rfloor>" by (simp add: le_floor_iff)
  then have steps: "min (nat \<lfloor>(now - cur_start e) / bucket_s e\<rfloor>) ?L = ?L" by simp
  have "1 * bucket_s e \<le> of_nat ?L * bucket_s e"
    using assms(2) pos by (intro mult_right_mono) (auto simp: Suc_le_eq)
  then have "\<not> now - cur_start e < bucket_s e" using assms(3) by simp
  then have e1: "?e1 = ?r\<lparr>cur_start := cur_start e + of_nat ?L * bucket_s e\<rparr>"
    by (simp add: roll_def Let_def steps)
  have len: "length (buckets ?r) = ?L" and ok: "cur_idx ?r < ?L"
    using rolls_ok [OF assms(1), of ?L] by (auto simp: skew_ok_def)
  have b: "buckets ?r = replicate ?L None"
    by (rule nth_equalityI) (simp_all add: len rolls_all_empty [OF assms(1)])
  have e3: "buckets (fst (observe_latency x now e)) = (replicate ?L None)[cur_idx ?r := Some x]"
    "cur_start (fst (observe_latency x now e)) = cur_start e + of_nat ?L * bucket_s e"
    using ok by (simp_all add: observe_latency_def Let_def e1 b)
  have "{y. Some y \<in> set ((replicate ?L None)[cur_idx ?r := Some x])} = {x}"
    using ok set_update_memI [of "cur_idx ?r" "replicate ?L None" "Some x"]
      set_update_subset_insert [of "replicate ?L None" "cur_idx ?r" "Some x"] by auto
  then have "set (List.map_filter id (buckets (fst (observe_latency x now e)))) = {x}"
    by (simp add: e3 set_map_filter_id)
  then show off: "offset_us (fst (observe_latency x now e)) = x"
    by (auto simp: offset_us_def Let_def)
  then show "snd (observe_latency x now e) = 0"
    by (simp add: corrected_latency [OF assms(1)])
  show "cur_start (fst (observe_latency x now e)) = cur_start e + of_nat ?L * bucket_s e" by (rule e3)
qed

text \<open>
  The correction never cuts and never lies about the sign. For every run of raw latencies and
  times given to a fresh estimator with at least one bucket, each reported latency is exactly the raw
  latency minus the offset of the estimator after that sample, and it is not negative, however the
  venue's clock is shifted.
\<close>

theorem clock_corrected:
  assumes "0 < n"
  shows "list_all2 (\<lambda>s (y, off). y = fst s - off \<and> 0 \<le> y) ss (snd (observe_run ss (new_skew w n now)))"
  by (rule observe_run_corrected) (rule skew_ok_new [OF assms])

theorem clock_corrected_witness:
  "list_all2 (\<lambda>s (y, off). y = fst s - off \<and> 0 \<le> y) [(- 30000, 0 :: seconds), (- 28000, 1), (- 30500, 2)]
     (snd (observe_run [(- 30000, 0), (- 28000, 1), (- 30500, 2)] (new_skew WINDOW_S BUCKETS 0)))"
  by (rule clock_corrected) (simp add: BUCKETS_def)

text \<open>
  The start of the current bucket is moved by at most one window, so after a long idle time it stays
  behind: a second sample at the very same instant empties every bucket again and reports zero,
  although a smaller sample was just seen.
\<close>

lemma idle_catch_up:
  assumes "skew_ok e" "0 < bucket_s e" "2 * (of_nat (length (buckets e)) * bucket_s e) \<le> now - cur_start e"
  shows "snd (observe_latency y now (fst (observe_latency x now e))) = 0"
proof -
  let ?w = "of_nat (length (buckets e)) * bucket_s e" and ?e = "fst (observe_latency x now e)"
  have "0 \<le> ?w" using assms(2) by simp
  then have one: "?w \<le> now - cur_start e" using assms(3) by linarith
  have "length (buckets ?e) = length (buckets e)" "bucket_s ?e = bucket_s e"
    using rolls_ok [OF assms(1)] by (simp_all add: observe_latency_def roll_def Let_def rolls_bucket split: option.split)
  moreover have "cur_start ?e = cur_start e + ?w" by (rule idle_window(3) [OF assms(1,2) one])
  moreover have "skew_ok ?e" by (rule observe_offset(2) [OF assms(1)])
  ultimately show ?thesis using assms(2,3) by (intro idle_window(1)) (simp_all add: algebra_simps)
qed

end
