(* ===== verification/Storage.thy ===== *)
theory Storage
  imports Models "HOL-Library.Sublist" "HOL-Library.Product_Lexorder"
begin

section \<open>The store of market data and its batch receipts\<close>

text \<open>
  Models the write side of \<^verbatim>\<open>src/mdfeed/storage/db.py\<close> for both back ends: the four row
  types, the batch with its id and digest, the newest row per instrument, the three insert statements
  and the two upserts of \<^verbatim>\<open>write_batch\<close>, and the receipts that make a batch that is sent again
  recognisable. A table is the list of its rows in insertion order, a table with a primary key an
  association list. The databases are parameters only through what can go wrong
  (\<open>db_fault\<close>): a query or a write fails and the transaction rolls back, or the commit took
  effect and its acknowledgement was lost. What both back ends promise to the writer is the locale
  \<open>batch_store\<close>, interpreted on both. Time columns stay microseconds (the PostgreSQL conversion is
  in \<open>Migration\<close>).
\<close>

subsection \<open>Rows, batches, tables\<close>

record trade_row =
  r_ts :: int
  r_venue :: text_u
  r_symbol :: text_u
  r_price :: rat
  r_qty :: rat
  r_side :: int
  r_recv_ts :: int
  r_latency :: int
  r_seq :: nat

record book_row =
  q_ts :: int
  q_venue :: text_u
  q_symbol :: text_u
  q_bid :: rat
  q_bid_qty :: rat
  q_ask :: rat
  q_ask_qty :: rat
  q_spread :: rat

record signal_row =
  g_ts :: int
  g_venue :: text_u
  g_symbol :: text_u
  g_strategy :: text_u
  g_action :: int
  g_strength :: rat
  g_ref_price :: rat

record bar_row =
  o_bucket :: int
  o_venue :: text_u
  o_symbol :: text_u
  o_open :: rat
  o_high :: rat
  o_low :: rat
  o_close :: rat
  o_volume :: rat
  o_notional :: rat
  o_vwap :: rat
  o_ticks :: nat

record latest_row =
  l_venue :: text_u
  l_symbol :: text_u
  l_ts :: int
  l_price :: rat
  l_qty :: rat
  l_side :: int
  l_latency :: int

record storage_batch =
  batch_id :: string
  digest :: string
  bt_trades :: "trade_row list"
  bt_books :: "book_row list"
  bt_signals :: "signal_row list"
  bt_bars :: "bar_row list"

definition batch_rows :: "storage_batch \<Rightarrow> nat" where
  "batch_rows b = length (bt_trades b) + length (bt_books b) + length (bt_signals b)"

definition batch_bars :: "storage_batch \<Rightarrow> nat" where "batch_bars b = length (bt_bars b)"

definition table_counts :: "storage_batch \<Rightarrow> (string \<times> nat) list" where
  "table_counts b = [(''trades'', length (bt_trades b)), (''book_top'', length (bt_books b)),
     (''signals'', length (bt_signals b)), (''bars_1m'', length (bt_bars b))]"

text \<open>The receipt that a write returns, and the rows of \<^verbatim>\<open>ingest_batch_receipts\<close>.\<close>

record batch_receipt =
  rp_batch_id :: string
  rp_digest :: string
  rp_rows :: nat
  rp_bars :: nat

record receipt_row =
  rc_id :: string
  rc_table :: string
  rc_hash :: string
  rc_count :: nat

record db =
  trades_t :: "trade_row list"
  book_t :: "book_row list"
  signals_t :: "signal_row list"
  bars_t :: "((text_u \<times> text_u \<times> int) \<times> bar_row) list"
  latest_t :: "((text_u \<times> text_u) \<times> latest_row) list"
  receipts_t :: "receipt_row list"

datatype storage_error = StorageUnavailable | DbError

datatype db_fault = NoFault | QueryFails | WriteFails | AckLost

text \<open>The digest of a batch (\<^verbatim>\<open>sha256\<close> of the JSON text) and the random part of its id are arguments.\<close>

type_synonym digester = "trade_row list \<Rightarrow> book_row list \<Rightarrow> signal_row list \<Rightarrow> bar_row list \<Rightarrow> string"

definition make_storage_batch ::
  "digester \<Rightarrow> string \<Rightarrow> trade_row list \<Rightarrow> book_row list \<Rightarrow> signal_row list \<Rightarrow> bar_row list \<Rightarrow> storage_batch" where
  "make_storage_batch dg uid ts ks ss bs =
     \<lparr>batch_id = ''batch:'' @ uid, digest = dg ts ks ss bs, bt_trades = ts, bt_books = ks, bt_signals = ss, bt_bars = bs\<rparr>"

subsection \<open>Upserts\<close>

definition newest_step :: "trade_row \<Rightarrow> ((text_u \<times> text_u) \<times> trade_row) list \<Rightarrow> ((text_u \<times> text_u) \<times> trade_row) list" where
  "newest_step r m =
     (let k = (r_venue r, r_symbol r) in
      case map_of m k of
        None \<Rightarrow> AList.update k r m
      | Some o1 \<Rightarrow> if r_ts r > r_ts o1 then AList.update k r m else m)"

definition latest_of :: "trade_row \<Rightarrow> latest_row" where
  "latest_of r = \<lparr>l_venue = r_venue r, l_symbol = r_symbol r, l_ts = r_ts r, l_price = r_price r, l_qty = r_qty r,
     l_side = r_side r, l_latency = r_latency r\<rparr>"

definition latest_rows :: "trade_row list \<Rightarrow> latest_row list" where
  "latest_rows ts = map (latest_of \<circ> snd) (fold newest_step ts [])"

definition latest_upsert :: "latest_row \<Rightarrow> ((text_u \<times> text_u) \<times> latest_row) list \<Rightarrow> ((text_u \<times> text_u) \<times> latest_row) list" where
  "latest_upsert x m =
     (let k = (l_venue x, l_symbol x) in
      case map_of m k of
        None \<Rightarrow> AList.update k x m
      | Some o1 \<Rightarrow> if l_ts o1 \<le> l_ts x then AList.update k x m else m)"

definition merge_bar :: "bar_row \<Rightarrow> bar_row \<Rightarrow> bar_row" where
  "merge_bar old new =
     old\<lparr>o_high := max (o_high old) (o_high new), o_low := min (o_low old) (o_low new), o_close := o_close new,
       o_volume := o_volume old + o_volume new, o_notional := o_notional old + o_notional new,
       o_vwap := o_vwap new, o_ticks := o_ticks old + o_ticks new\<rparr>"

definition bar_upsert :: "bar_row \<Rightarrow> ((text_u \<times> text_u \<times> int) \<times> bar_row) list \<Rightarrow> ((text_u \<times> text_u \<times> int) \<times> bar_row) list" where
  "bar_upsert x m =
     (let k = (o_venue x, o_symbol x, o_bucket x) in
      AList.update k (case map_of m k of None \<Rightarrow> x | Some o1 \<Rightarrow> merge_bar o1 x) m)"

definition upsert_bars :: "bar_row list \<Rightarrow> db \<Rightarrow> db" where
  "upsert_bars bs d = d\<lparr>bars_t := fold bar_upsert bs (bars_t d)\<rparr>"

subsection \<open>Receipts\<close>

definition receipt_id_of :: "storage_batch \<Rightarrow> string \<Rightarrow> string" where
  "receipt_id_of b n = batch_id b @ '':'' @ n"

definition expected_counts :: "storage_batch \<Rightarrow> (string \<times> nat) list" where
  "expected_counts b = filter (\<lambda>(_, c). c \<noteq> 0) (table_counts b)"

definition receipts_of :: "storage_batch \<Rightarrow> receipt_row list" where
  "receipts_of b = map (\<lambda>(n, c). \<lparr>rc_id = receipt_id_of b n, rc_table = n, rc_hash = digest b, rc_count = c\<rparr>)
     (expected_counts b)"

text \<open>The comparison of the rows found with the counts expected; a later row of a table replaces an earlier one.\<close>

definition check_found :: "receipt_row list \<Rightarrow> storage_batch \<Rightarrow> storage_error + bool" where
  "check_found rows b =
     (if rows = [] then Inr False
      else let found = map_of (rev (map (\<lambda>r. (rc_table r, r)) rows)) in
        if set (map rc_table rows) \<noteq> set (map fst (expected_counts b)) then Inl StorageUnavailable
        else if list_ex (\<lambda>(n, c). case found n of None \<Rightarrow> True
                 | Some r \<Rightarrow> rc_hash r \<noteq> digest b \<or> rc_count r \<noteq> c) (expected_counts b)
        then Inl StorageUnavailable
        else Inr True)"

text \<open>SQLite looks the receipts up by the prefix of their id (\<^verbatim>\<open>LIKE\<close>), PostgreSQL by the ids themselves.\<close>

definition sqlite_committed :: "storage_batch \<Rightarrow> db \<Rightarrow> storage_error + bool" where
  "sqlite_committed b d =
     (if expected_counts b = [] then Inr False
      else check_found (filter (\<lambda>r. prefix (batch_id b @ '':'') (rc_id r)) (receipts_t d)) b)"

definition pg_found :: "storage_batch \<Rightarrow> db \<Rightarrow> receipt_row list" where
  "pg_found b d = filter (\<lambda>r. rc_id r \<in> set (map (receipt_id_of b \<circ> fst) (expected_counts b))) (receipts_t d)"

definition pg_committed :: "storage_batch \<Rightarrow> db \<Rightarrow> storage_error + bool" where
  "pg_committed b d = (if expected_counts b = [] then Inr False else check_found (pg_found b d) b)"

text \<open>SQLite inserts the receipts and fails on a duplicate key.\<close>

fun insert_receipts :: "receipt_row list \<Rightarrow> receipt_row list \<Rightarrow> receipt_row list option" where
  "insert_receipts [] t = Some t"
| "insert_receipts (r # rs) t = (if rc_id r \<in> set (map rc_id t) then None else insert_receipts rs (t @ [r]))"

definition write_receipts :: "storage_batch \<Rightarrow> db \<Rightarrow> db option" where
  "write_receipts b d = map_option (\<lambda>t. d\<lparr>receipts_t := t\<rparr>) (insert_receipts (receipts_of b) (receipts_t d))"

text \<open>PostgreSQL claims them one by one (\<^verbatim>\<open>ON CONFLICT DO NOTHING\<close>) and counts the claimed ones.\<close>

fun claim_each :: "receipt_row list \<Rightarrow> receipt_row list \<Rightarrow> nat \<times> receipt_row list" where
  "claim_each [] t = (0, t)"
| "claim_each (r # rs) t =
     (if rc_id r \<in> set (map rc_id t) then claim_each rs t
      else let (n, t1) = claim_each rs (t @ [r]) in (n + 1, t1))"

definition claim_receipts :: "storage_batch \<Rightarrow> db \<Rightarrow> (storage_error + bool) \<times> db" where
  "claim_receipts b d =
     (let (n, t) = claim_each (receipts_of b) (receipts_t d); d1 = d\<lparr>receipts_t := t\<rparr> in
      if n = length (receipts_of b) then (Inr True, d1)
      else if n \<noteq> 0 then (Inl StorageUnavailable, d1)
      else case check_found (pg_found b d1) b of
        Inl e \<Rightarrow> (Inl e, d1)
      | Inr found \<Rightarrow> if found then (Inr False, d1) else (Inl StorageUnavailable, d1))"

subsection \<open>Writing a batch\<close>

definition insert_rows :: "storage_batch \<Rightarrow> db \<Rightarrow> db" where
  "insert_rows b d = upsert_bars (bt_bars b)
     (d\<lparr>trades_t := trades_t d @ bt_trades b, latest_t := fold latest_upsert (latest_rows (bt_trades b)) (latest_t d),
        book_t := book_t d @ bt_books b, signals_t := signals_t d @ bt_signals b\<rparr>)"

definition batch_empty :: "storage_batch \<Rightarrow> bool" where
  "batch_empty b \<longleftrightarrow> bt_trades b = [] \<and> bt_books b = [] \<and> bt_signals b = [] \<and> bt_bars b = []"

definition no_receipt :: "storage_batch \<Rightarrow> batch_receipt" where
  "no_receipt b = \<lparr>rp_batch_id = batch_id b, rp_digest = digest b, rp_rows = 0, rp_bars = 0\<rparr>"

definition full_receipt :: "storage_batch \<Rightarrow> batch_receipt" where
  "full_receipt b = \<lparr>rp_batch_id = batch_id b, rp_digest = digest b, rp_rows = batch_rows b, rp_bars = batch_bars b\<rparr>"

text \<open>The end of a transaction: what the caller sees and which of the two states stays.\<close>

definition end_transaction :: "db_fault \<Rightarrow> storage_batch \<Rightarrow> db \<Rightarrow> db \<Rightarrow> (storage_error + batch_receipt) \<times> db" where
  "end_transaction f b before after =
     (case f of NoFault \<Rightarrow> (Inr (full_receipt b), after)
      | AckLost \<Rightarrow> (Inl DbError, after)
      | _ \<Rightarrow> (Inl DbError, before))"

definition sqlite_write_batch :: "db_fault \<Rightarrow> storage_batch \<Rightarrow> db \<Rightarrow> (storage_error + batch_receipt) \<times> db" where
  "sqlite_write_batch f b d =
     (if batch_empty b then (Inr (no_receipt b), d)
      else if f = QueryFails then (Inl DbError, d)
      else case sqlite_committed b d of
        Inl e \<Rightarrow> (Inl e, d)
      | Inr True \<Rightarrow> (Inr (full_receipt b), d)
      | Inr False \<Rightarrow>
          (case write_receipts b d of
             None \<Rightarrow> (Inl DbError, d)
           | Some d1 \<Rightarrow> end_transaction f b d (insert_rows b d1)))"

text \<open>Between the look-up and the claim another connection may have committed (\<open>other\<close>).\<close>

definition pg_write_batch ::
  "(db \<Rightarrow> db) \<Rightarrow> db_fault \<Rightarrow> storage_batch \<Rightarrow> db \<Rightarrow> (storage_error + batch_receipt) \<times> db" where
  "pg_write_batch other f b d0 =
     (if batch_empty b then (Inr (no_receipt b), d0)
      else if f = QueryFails then (Inl DbError, d0)
      else case pg_committed b d0 of
        Inl e \<Rightarrow> (Inl e, d0)
      | Inr True \<Rightarrow> (Inr (full_receipt b), d0)
      | Inr False \<Rightarrow>
          (let d = other d0 in
           case claim_receipts b d of
             (Inl e, _) \<Rightarrow> (Inl e, d)
           | (Inr False, d1) \<Rightarrow> (Inr (full_receipt b), d1)
           | (Inr True, d1) \<Rightarrow> end_transaction f b d (insert_rows b d1)))"

subsection \<open>A batch is written once\<close>

definition id_ok :: "string \<Rightarrow> bool" where
  "id_ok i \<longleftrightarrow> (\<exists>u. i = ''batch:'' @ u \<and> CHR '':'' \<notin> set u)"

definition own_receipts :: "storage_batch \<Rightarrow> receipt_row list \<Rightarrow> receipt_row list" where
  "own_receipts b t = filter (\<lambda>r. prefix (batch_id b @ '':'') (rc_id r)) t"

definition batch_new :: "storage_batch \<Rightarrow> db \<Rightarrow> bool" where
  "batch_new b d \<longleftrightarrow> own_receipts b (receipts_t d) = []"

definition batch_done :: "storage_batch \<Rightarrow> db \<Rightarrow> bool" where
  "batch_done b d \<longleftrightarrow> own_receipts b (receipts_t d) = receipts_of b"

definition commit_batch :: "storage_batch \<Rightarrow> db \<Rightarrow> db" where
  "commit_batch b d = insert_rows b (d\<lparr>receipts_t := receipts_t d @ receipts_of b\<rparr>)"

lemma insert_rows_receipts [simp]: "receipts_t (insert_rows b d) = receipts_t d"
  by (simp add: insert_rows_def upsert_bars_def)

lemma commit_batch_sel [simp]:
  "receipts_t (commit_batch b d) = receipts_t d @ receipts_of b"
  "trades_t (commit_batch b d) = trades_t d @ bt_trades b"
  "book_t (commit_batch b d) = book_t d @ bt_books b"
  "signals_t (commit_batch b d) = signals_t d @ bt_signals b"
  by (simp_all add: commit_batch_def insert_rows_def upsert_bars_def)

lemma own_receipts_append [simp]: "own_receipts b (t @ t') = own_receipts b t @ own_receipts b t'"
  by (simp add: own_receipts_def)

lemma own_receipts_self [simp]: "own_receipts b (receipts_of b) = receipts_of b"
  by (auto simp: own_receipts_def receipts_of_def receipt_id_of_def intro!: filter_True)

lemma own_receipts_other:
  assumes "id_ok (batch_id b)" "id_ok (batch_id b')" "batch_id b \<noteq> batch_id b'"
  shows "own_receipts b (receipts_of b') = []"
proof -
  have "batch_id b = batch_id b'" if "prefix (batch_id b @ '':'') (batch_id b' @ '':'' @ n)" for n
  proof -
    from assms(1,2) obtain u v where u: "batch_id b = ''batch:'' @ u" "CHR '':'' \<notin> set u"
      and v: "batch_id b' = ''batch:'' @ v" "CHR '':'' \<notin> set v" by (auto simp: id_ok_def)
    from that u v obtain z where "u @ CHR '':'' # z = v @ CHR '':'' # n" by (auto simp: prefix_def)
    then have "takeWhile (\<lambda>c. c \<noteq> CHR '':'') (u @ CHR '':'' # z) = takeWhile (\<lambda>c. c \<noteq> CHR '':'') (v @ CHR '':'' # n)"
      by simp
    moreover have "takeWhile (\<lambda>c. c \<noteq> CHR '':'') (x @ CHR '':'' # y) = x" if "CHR '':'' \<notin> set x" for x y
      using that by (subst takeWhile_append2) auto
    ultimately have "u = v" using u(2) v(2) by metis
    with u v show ?thesis by simp
  qed
  with assms(3) show ?thesis
    by (auto simp: own_receipts_def receipts_of_def receipt_id_of_def filter_empty_conv)
qed

lemma batch_done_commit: "batch_new b d \<Longrightarrow> batch_done b (commit_batch b d)"
  by (simp add: batch_new_def batch_done_def)

lemma other_batch_keeps:
  assumes "id_ok (batch_id b)" "id_ok (batch_id b')" "batch_id b \<noteq> batch_id b'"
  shows "batch_new b (commit_batch b' d) = batch_new b d" "batch_done b (commit_batch b' d) = batch_done b d"
  using own_receipts_other [OF assms] by (simp_all add: batch_new_def batch_done_def)

lemma expected_names: "distinct (map fst (expected_counts b))"
  by (simp add: expected_counts_def table_counts_def)

lemma expected_empty: "expected_counts b = [] \<longleftrightarrow> batch_empty b"
  by (simp add: expected_counts_def table_counts_def batch_empty_def)

lemma receipts_of_empty: "receipts_of b = [] \<longleftrightarrow> batch_empty b"
  by (simp add: receipts_of_def expected_empty)

lemma receipt_tables: "map rc_table (receipts_of b) = map fst (expected_counts b)"
  by (simp add: receipts_of_def case_prod_unfold comp_def)

lemma receipt_ids: "distinct (map rc_id (receipts_of b))"
proof -
  have "map rc_id (receipts_of b) = map (receipt_id_of b) (map fst (expected_counts b))"
    by (simp add: receipts_of_def case_prod_unfold comp_def)
  then show ?thesis using expected_names [of b]
    by (simp add: distinct_map inj_on_def receipt_id_of_def)
qed

lemma check_found_own:
  assumes "\<not> batch_empty b"
  shows "check_found (receipts_of b) b = Inr True"
proof -
  let ?l = "map (\<lambda>r. (rc_table r, r)) (receipts_of b)"
  have dist: "distinct (map fst (rev ?l))"
    using expected_names [of b] receipt_tables [of b] by (simp add: comp_def flip: rev_map)
  have "map_of (rev ?l) n = Some \<lparr>rc_id = receipt_id_of b n, rc_table = n, rc_hash = digest b, rc_count = c\<rparr>"
    if "(n, c) \<in> set (expected_counts b)" for n c
    using that by (intro map_of_is_SomeI [OF dist]) (force simp: receipts_of_def)
  then show ?thesis using assms receipt_tables [of b]
    by (auto simp: check_found_def Let_def receipts_of_empty list_ex_iff simp flip: set_map)
qed

lemma pg_found_own: "pg_found b d = filter (\<lambda>r. rc_id r \<in> set (map (receipt_id_of b \<circ> fst) (expected_counts b)))
    (own_receipts b (receipts_t d))"
  by (auto simp: pg_found_def own_receipts_def receipt_id_of_def intro!: filter_cong)

lemma pg_found_self: "batch_done b d \<Longrightarrow> pg_found b d = receipts_of b"
  by (force simp: pg_found_own batch_done_def receipts_of_def intro!: filter_True)

lemma insert_receipts_fresh:
  "distinct (map rc_id rs) \<Longrightarrow> set (map rc_id rs) \<inter> set (map rc_id t) = {} \<Longrightarrow> insert_receipts rs t = Some (t @ rs)"
  by (induction rs arbitrary: t) auto

lemma claim_each_fresh:
  "distinct (map rc_id rs) \<Longrightarrow> set (map rc_id rs) \<inter> set (map rc_id t) = {} \<Longrightarrow> claim_each rs t = (length rs, t @ rs)"
  by (induction rs arbitrary: t) auto

lemma claim_each_present: "set (map rc_id rs) \<subseteq> set (map rc_id t) \<Longrightarrow> claim_each rs t = (0, t)"
  by (induction rs) auto

lemma new_receipt_ids: "batch_new b d \<Longrightarrow> set (map rc_id (receipts_of b)) \<inter> set (map rc_id (receipts_t d)) = {}"
proof -
  assume new: "batch_new b d"
  have "prefix (batch_id b @ '':'') (rc_id r)" if "r \<in> set (receipts_of b)" for r
    using that by (auto simp: receipts_of_def receipt_id_of_def)
  with new show ?thesis by (fastforce simp: batch_new_def own_receipts_def filter_empty_conv)
qed

lemma done_receipt_ids: "batch_done b d \<Longrightarrow> set (map rc_id (receipts_of b)) \<subseteq> set (map rc_id (receipts_t d))"
proof -
  assume "batch_done b d"
  then have "set (receipts_of b) \<subseteq> set (receipts_t d)" by (metis batch_done_def filter_is_subset own_receipts_def)
  then show ?thesis by auto
qed

lemma sqlite_committed_own: "sqlite_committed b d = (if batch_empty b then Inr False else check_found (own_receipts b (receipts_t d)) b)"
  by (simp add: sqlite_committed_def own_receipts_def expected_empty)

lemma pg_committed_cases:
  assumes "\<not> batch_empty b"
  shows "batch_new b d \<Longrightarrow> pg_committed b d = Inr False" "batch_done b d \<Longrightarrow> pg_committed b d = Inr True"
  using assms check_found_own [OF assms] pg_found_self
  by (simp_all add: pg_committed_def expected_empty pg_found_own batch_new_def check_found_def)

text \<open>The contract of \<^verbatim>\<open>write_batch\<close>.\<close>

locale batch_store =
  fixes put :: "db_fault \<Rightarrow> storage_batch \<Rightarrow> db \<Rightarrow> (storage_error + batch_receipt) \<times> db"
  assumes write_empty: "batch_empty b \<Longrightarrow> put f b d = (Inr (no_receipt b), d)"
    and write_new: "\<not> batch_empty b \<Longrightarrow> batch_new b d \<Longrightarrow>
      put f b d = (if f = QueryFails then (Inl DbError, d) else end_transaction f b d (commit_batch b d))"
    and write_done: "\<not> batch_empty b \<Longrightarrow> batch_done b d \<Longrightarrow>
      put f b d = (if f = QueryFails then (Inl DbError, d) else (Inr (full_receipt b), d))"
begin

lemma retries_done:
  "batch_done b d \<Longrightarrow> fold (\<lambda>f d. snd (put f b d)) fs d = d"
  by (induction fs) (cases "batch_empty b"; simp add: write_empty write_done)+

lemma retries:
  "batch_new b d \<Longrightarrow>
    fold (\<lambda>f d. snd (put f b d)) fs d
      = (if batch_empty b \<or> set fs \<subseteq> {QueryFails, WriteFails} then d else commit_batch b d)"
proof (induction fs)
  case (Cons f fs)
  then show ?case
  proof (cases "batch_empty b")
    case False
    then show ?thesis using Cons retries_done [OF batch_done_commit [OF Cons.prems], of fs]
      by (cases f) (auto simp: write_new end_transaction_def)
  qed (simp add: write_empty)
qed simp

lemma success:
  "batch_new b d \<or> batch_done b d \<Longrightarrow> fst (put f b d) = Inr r \<Longrightarrow>
    batch_empty b \<and> snd (put f b d) = d \<and> r = no_receipt b
    \<or> batch_done b (snd (put f b d)) \<and> r = full_receipt b"
  by (cases "batch_empty b"; cases f)
    (auto simp: write_empty write_new write_done end_transaction_def batch_done_commit)

lemma no_fault:
  "batch_new b d \<or> batch_done b d \<Longrightarrow> \<exists>r. fst (put NoFault b d) = Inr r"
  by (cases "batch_empty b") (auto simp: write_empty write_new write_done end_transaction_def)

end

interpretation sqlite: batch_store sqlite_write_batch
proof
  fix b f d assume ne: "\<not> batch_empty b" and new: "batch_new b d"
  have "write_receipts b d = Some (d\<lparr>receipts_t := receipts_t d @ receipts_of b\<rparr>)"
    by (simp add: write_receipts_def insert_receipts_fresh [OF receipt_ids new_receipt_ids [OF new]])
  then show "sqlite_write_batch f b d = (if f = QueryFails then (Inl DbError, d) else end_transaction f b d (commit_batch b d))"
    using ne new by (simp add: sqlite_write_batch_def sqlite_committed_own batch_new_def check_found_def commit_batch_def)
next
  fix b f d assume ne: "\<not> batch_empty b" and "batch_done b d"
  then show "sqlite_write_batch f b d = (if f = QueryFails then (Inl DbError, d) else (Inr (full_receipt b), d))"
    by (simp add: sqlite_write_batch_def sqlite_committed_own batch_done_def check_found_own)
qed (simp add: sqlite_write_batch_def)

lemma claim_new:
  "batch_new b d \<Longrightarrow> claim_receipts b d = (Inr True, d\<lparr>receipts_t := receipts_t d @ receipts_of b\<rparr>)"
  by (simp add: claim_receipts_def claim_each_fresh [OF receipt_ids new_receipt_ids])

lemma claim_done:
  assumes "\<not> batch_empty b" "batch_done b d"
  shows "claim_receipts b d = (Inr False, d)"
  using assms pg_found_self [OF assms(2)]
  by (simp add: claim_receipts_def claim_each_present [OF done_receipt_ids] check_found_own receipts_of_empty)

interpretation pg: batch_store "pg_write_batch id"
proof
  fix b f d assume ne: "\<not> batch_empty b" and new: "batch_new b d"
  then show "pg_write_batch id f b d = (if f = QueryFails then (Inl DbError, d) else end_transaction f b d (commit_batch b d))"
    by (simp add: pg_write_batch_def pg_committed_cases claim_new commit_batch_def)
next
  fix b f d assume "\<not> batch_empty b" and "batch_done b d"
  then show "pg_write_batch id f b d = (if f = QueryFails then (Inl DbError, d) else (Inr (full_receipt b), d))"
    by (simp add: pg_write_batch_def pg_committed_cases)
qed (simp add: pg_write_batch_def)

text \<open>
  C16: a batch is written once. Whatever happens to a series of attempts to write one batch whose id
  is new to the database, failed look-ups, failed writes, commits whose acknowledgement is lost, the
  database ends as after exactly one commit of it when some attempt committed, and untouched
  otherwise; and a second PostgreSQL connection that commits the same batch between the look-up and
  the claim of the first does not make it twice.
\<close>

theorem batch_written_once:
  assumes "batch_new b d" "\<not> batch_empty b"
  shows "(let after = (if set fs \<subseteq> {QueryFails, WriteFails} then d else commit_batch b d) in
      fold (\<lambda>f d. snd (sqlite_write_batch f b d)) fs d = after
      \<and> fold (\<lambda>f d. snd (pg_write_batch id f b d)) fs d = after)
    \<and> pg_write_batch (\<lambda>d. snd (pg_write_batch id NoFault b d)) NoFault b d = (Inr (full_receipt b), commit_batch b d)"
proof (intro conjI)
  have "snd (pg_write_batch id NoFault b d) = commit_batch b d"
    using assms by (simp add: pg.write_new end_transaction_def)
  then show "pg_write_batch (\<lambda>d. snd (pg_write_batch id NoFault b d)) NoFault b d = (Inr (full_receipt b), commit_batch b d)"
    using assms claim_done [OF assms(2) batch_done_commit [OF assms(1)]]
    by (simp add: pg_write_batch_def [of "\<lambda>d. snd (pg_write_batch id NoFault b d)"] pg_committed_cases)
qed (simp_all add: sqlite.retries [OF assms(1)] pg.retries [OF assms(1)] assms(2))

definition empty_db :: db where
  "empty_db = \<lparr>trades_t = [], book_t = [], signals_t = [], bars_t = [], latest_t = [], receipts_t = []\<rparr>"

definition sample_row :: trade_row where
  "sample_row = \<lparr>r_ts = 5, r_venue = [85], r_symbol = [66], r_price = 100, r_qty = 2, r_side = 1, r_recv_ts = 6,
     r_latency = 1, r_seq = 1\<rparr>"

theorem batch_written_once_witness:
  "let b = make_storage_batch (\<lambda>_ _ _ _. ''d'') ''a'' [sample_row] [] [] [];
       d = fold (\<lambda>f d. snd (sqlite_write_batch f b d)) [WriteFails, AckLost, NoFault] empty_db in
     trades_t d = [sample_row] \<and> length (receipts_t d) = 1"
proof -
  let ?b = "make_storage_batch (\<lambda>_ _ _ _. ''d'') ''a'' [sample_row] [] [] []"
  have "batch_new ?b empty_db" "\<not> batch_empty ?b"
    by (simp_all add: batch_new_def own_receipts_def empty_db_def batch_empty_def make_storage_batch_def)
  from batch_written_once [OF this, of "[WriteFails, AckLost, NoFault]"] show ?thesis
    by (simp add: Let_def empty_db_def make_storage_batch_def receipts_of_def expected_counts_def table_counts_def)
qed

subsection \<open>The single inserts\<close>

text \<open>Each is one transaction; trades and \<^verbatim>\<open>latest\<close> move together.\<close>

definition insert_trades :: "trade_row list \<Rightarrow> db \<Rightarrow> nat \<times> db" where
  "insert_trades rows d =
     (if rows = [] then (0, d)
      else (length rows, d\<lparr>trades_t := trades_t d @ rows, latest_t := fold latest_upsert (latest_rows rows) (latest_t d)\<rparr>))"

definition insert_book :: "book_row list \<Rightarrow> db \<Rightarrow> nat \<times> db" where
  "insert_book rows d = (if rows = [] then (0, d) else (length rows, d\<lparr>book_t := book_t d @ rows\<rparr>))"

definition insert_signals :: "signal_row list \<Rightarrow> db \<Rightarrow> nat \<times> db" where
  "insert_signals rows d = (if rows = [] then (0, d) else (length rows, d\<lparr>signals_t := signals_t d @ rows\<rparr>))"

definition upsert_latest :: "latest_row list \<Rightarrow> db \<Rightarrow> nat \<times> db" where
  "upsert_latest rows d =
     (if rows = [] then (0, d) else (length rows, d\<lparr>latest_t := fold latest_upsert rows (latest_t d)\<rparr>))"

subsection \<open>Reads\<close>

text \<open>\<^verbatim>\<open>LIMIT\<close> with a negative number is no limit in SQLite. The upper case of a text is an argument.\<close>

definition limit_rows :: "int \<Rightarrow> 'a list \<Rightarrow> 'a list" where
  "limit_rows n rows = (if n < 0 then rows else take (nat n) rows)"

definition latest_query ::
  "(text_u \<Rightarrow> text_u) \<Rightarrow> int \<Rightarrow> text_u option \<Rightarrow> text_u option \<Rightarrow> db \<Rightarrow> latest_row list" where
  "latest_query upper n venue symbol d =
     (let ok = (\<lambda>x. (case venue of None \<Rightarrow> True | Some v \<Rightarrow> v = [] \<or> l_venue x = upper v)
                  \<and> (case symbol of None \<Rightarrow> True | Some s \<Rightarrow> s = [] \<or> l_symbol x = s))
      in limit_rows n (sort_key (\<lambda>x. (l_venue x, l_symbol x)) (filter ok (map snd (latest_t d)))))"

definition bars_query :: "text_u \<Rightarrow> text_u \<Rightarrow> int \<Rightarrow> db \<Rightarrow> bar_row list" where
  "bars_query venue symbol n d =
     limit_rows n (rev (sort_key o_bucket (filter (\<lambda>b. o_venue b = venue \<and> o_symbol b = symbol) (map snd (bars_t d)))))"

definition symbols_query :: "db \<Rightarrow> (text_u \<times> text_u \<times> nat \<times> int) list" where
  "symbols_query d =
     (let bs = map snd (bars_t d);
          keys = sort (remdups (map (\<lambda>b. (o_venue b, o_symbol b)) bs))
      in map (\<lambda>(v, s). let own = filter (\<lambda>b. o_venue b = v \<and> o_symbol b = s) bs
                         in (v, s, length own, Max (set (map o_bucket own)))) keys)"

definition counts_query :: "db \<Rightarrow> (string \<times> nat) list" where
  "counts_query d = [(''trades'', length (trades_t d)), (''book_top'', length (book_t d)),
     (''bars_1m'', length (bars_t d)), (''signals'', length (signals_t d))]"

text \<open>A table \<^verbatim>\<open>latest\<close> made for an old database is filled from the history.\<close>

definition backfill_latest :: "db \<Rightarrow> db" where
  "backfill_latest d =
     (if latest_t d \<noteq> [] \<or> trades_t d = [] then d
      else d\<lparr>latest_t := map (\<lambda>(k, r). (k, latest_of r)) (fold newest_step (trades_t d) [])\<rparr>)"

subsection \<open>The latest price is the newest trade\<close>

definition row_key :: "trade_row \<Rightarrow> text_u \<times> text_u" where "row_key r = (r_venue r, r_symbol r)"

definition newest_in :: "trade_row list \<Rightarrow> text_u \<times> text_u \<Rightarrow> trade_row \<Rightarrow> bool" where
  "newest_in ts k r \<longleftrightarrow> r \<in> set ts \<and> row_key r = k \<and> (\<forall>r' \<in> set ts. row_key r' = k \<longrightarrow> r_ts r' \<le> r_ts r)"

definition newest_map :: "trade_row list \<Rightarrow> ((text_u \<times> text_u) \<times> trade_row) list \<Rightarrow> bool" where
  "newest_map ts m \<longleftrightarrow> distinct (map fst m) \<and> (\<forall>k. case map_of m k of
     None \<Rightarrow> k \<notin> row_key ` set ts | Some r \<Rightarrow> newest_in ts k r)"

lemma newest_step_ok: "newest_map ts m \<Longrightarrow> newest_map (ts @ [r]) (newest_step r m)"
  unfolding newest_map_def
proof (intro conjI allI)
  fix k
  assume a: "distinct (map fst m) \<and> (\<forall>k. case map_of m k of None \<Rightarrow> k \<notin> row_key ` set ts | Some r \<Rightarrow> newest_in ts k r)"
  then show "distinct (map fst (newest_step r m))"
    by (auto simp: newest_step_def Let_def distinct_update split: option.split)
  from a have k: "case map_of m k of None \<Rightarrow> k \<notin> row_key ` set ts | Some r \<Rightarrow> newest_in ts k r" by blast
  then show "case map_of (newest_step r m) k of
      None \<Rightarrow> k \<notin> row_key ` set (ts @ [r]) | Some r' \<Rightarrow> newest_in (ts @ [r]) k r'"
    by (cases "k = row_key r")
      (auto simp: newest_step_def Let_def update_conv' newest_in_def row_key_def image_iff split: option.splits if_splits;
        force)+
qed

lemma newest_fold: "newest_map ts (fold newest_step ts [])"
  by (induction ts rule: rev_induct) (simp add: newest_map_def, simp add: newest_step_ok)

definition latest_ok :: "db \<Rightarrow> bool" where
  "latest_ok d \<longleftrightarrow> (\<forall>k. case map_of (latest_t d) k of
     None \<Rightarrow> k \<notin> row_key ` set (trades_t d)
   | Some x \<Rightarrow> (\<exists>r. newest_in (trades_t d) k r \<and> x = latest_of r))"

lemma latest_upsert_get:
  "map_of (latest_upsert (latest_of r) m) k =
    (if k = row_key r then Some (case map_of m k of None \<Rightarrow> latest_of r
        | Some x \<Rightarrow> if l_ts x \<le> r_ts r then latest_of r else x) else map_of m k)"
  by (auto simp: latest_upsert_def latest_of_def row_key_def Let_def update_conv' split: option.split)

lemma latest_fold_get:
  "distinct (map fst m) \<Longrightarrow> \<forall>(k, r) \<in> set m. row_key r = k \<Longrightarrow>
    map_of (fold latest_upsert (map (latest_of \<circ> snd) m) l) k =
      (case map_of m k of None \<Rightarrow> map_of l k
       | Some r \<Rightarrow> Some (case map_of l k of None \<Rightarrow> latest_of r
           | Some x \<Rightarrow> if l_ts x \<le> r_ts r then latest_of r else x))"
proof (induction m arbitrary: l)
  case (Cons p m)
  obtain k' r' where p: "p = (k', r')" by (cases p)
  have "map_of m k' = None" using Cons.prems(1) p by (simp add: map_of_eq_None_iff)
  with Cons p show ?case by (auto simp: latest_upsert_get split: option.split)
qed simp

lemma newest_left:
  "newest_in ts k r \<Longrightarrow> k \<notin> row_key ` set us \<Longrightarrow> newest_in (ts @ us) k r"
  unfolding newest_in_def image_iff by simp (metis Un_iff)

lemma newest_right:
  "newest_in us k r \<Longrightarrow> k \<notin> row_key ` set ts \<Longrightarrow> newest_in (ts @ us) k r"
  unfolding newest_in_def image_iff by simp (metis Un_iff)

lemma newest_both:
  assumes "newest_in ts k q" "newest_in us k r"
  shows "newest_in (ts @ us) k (if r_ts q \<le> r_ts r then r else q)"
  using assms by (fastforce simp: newest_in_def)

lemma latest_ok_rows:
  assumes "latest_ok d"
  shows "latest_ok (insert_rows b d)"
proof -
  let ?m = "fold newest_step (bt_trades b) []" and ?t = "bt_trades b"
  have m: "newest_map ?t ?m" by (rule newest_fold)
  then have dist: "distinct (map fst ?m)"
    and get: "case map_of ?m k of None \<Rightarrow> k \<notin> row_key ` set ?t | Some r \<Rightarrow> newest_in ?t k r" for k
    unfolding newest_map_def by blast+
  have key: "\<forall>(k, r) \<in> set ?m. row_key r = k"
  proof clarify
    fix a c r assume "((a, c), r) \<in> set ?m"
    then have "map_of ?m (a, c) = Some r" using dist by simp
    then show "row_key r = (a, c)" using get [of "(a, c)"] by (simp add: newest_in_def)
  qed
  have tr: "trades_t (insert_rows b d) = trades_t d @ ?t"
    and la: "latest_t (insert_rows b d) = fold latest_upsert (map (latest_of \<circ> snd) ?m) (latest_t d)"
    by (simp_all add: insert_rows_def upsert_bars_def latest_rows_def)
  show ?thesis unfolding latest_ok_def tr la
  proof
    fix k
    have old: "case map_of (latest_t d) k of None \<Rightarrow> k \<notin> row_key ` set (trades_t d)
        | Some x \<Rightarrow> (\<exists>r. newest_in (trades_t d) k r \<and> x = latest_of r)"
      using assms unfolding latest_ok_def by blast
    have ts: "l_ts (latest_of r) = r_ts r" for r by (simp add: latest_of_def)
    show "case map_of (fold latest_upsert (map (latest_of \<circ> snd) ?m) (latest_t d)) k of
        None \<Rightarrow> k \<notin> row_key ` set (trades_t d @ ?t)
      | Some x \<Rightarrow> (\<exists>r. newest_in (trades_t d @ ?t) k r \<and> x = latest_of r)"
    proof (cases "map_of ?m k")
      case None
      then have "k \<notin> row_key ` set ?t" using get [of k] by simp
      with None old show ?thesis
        by (cases "map_of (latest_t d) k") (auto simp: latest_fold_get [OF dist key] intro!: newest_left)
    next
      case (Some r)
      then have r: "newest_in ?t k r" using get [of k] by simp
      show ?thesis
      proof (cases "map_of (latest_t d) k")
        case None
        with old have "k \<notin> row_key ` set (trades_t d)" by simp
        then show ?thesis using r None Some by (auto simp: latest_fold_get [OF dist key] intro!: newest_right)
      next
        case (Some x)
        with old obtain q where q: "newest_in (trades_t d) k q" "x = latest_of q" by auto
        show ?thesis using newest_both [OF q(1) r] q(2) Some \<open>map_of ?m k = Some r\<close>
          by (auto simp: latest_fold_get [OF dist key] ts split: if_splits)
      qed
    qed
  qed
qed

lemma latest_ok_receipts: "latest_ok (d\<lparr>receipts_t := t\<rparr>) = latest_ok d"
  by (simp add: latest_ok_def cong: option.case_cong)

text \<open>
  The table \<^verbatim>\<open>latest\<close> shows the newest trade of every instrument. After any batches written to an
  empty database, in any order of their times, an instrument has a row there exactly if it has a
  trade, and that row is a stored trade of the instrument with the greatest time.
\<close>

theorem latest_is_newest:
  "case map_of (latest_t (fold commit_batch bs empty_db)) k of
     None \<Rightarrow> k \<notin> row_key ` set (trades_t (fold commit_batch bs empty_db))
   | Some x \<Rightarrow> (\<exists>r. newest_in (trades_t (fold commit_batch bs empty_db)) k r \<and> x = latest_of r)"
proof -
  have "latest_ok (fold commit_batch bs empty_db)"
  proof (induction bs rule: rev_induct)
    case (snoc b bs)
    then show ?case by (simp add: commit_batch_def latest_ok_rows latest_ok_receipts)
  qed (simp add: latest_ok_def empty_db_def)
  then show ?thesis unfolding latest_ok_def by blast
qed

text \<open>
  With two trades of one time, the row kept is the first of them when they come in one batch and the
  later one when they come in two, so the shown price depends on how the stream was cut into batches.
\<close>

lemma latest_tie:
  "let r = sample_row; r' = sample_row\<lparr>r_price := 7, r_seq := 2\<rparr>;
       one = [make_storage_batch dg ''a'' [r, r'] [] [] []];
       two = [make_storage_batch dg ''a'' [r] [] [] [], make_storage_batch dg ''b'' [r'] [] [] []] in
     map (l_price \<circ> snd) (latest_t (fold commit_batch one empty_db)) = [100]
     \<and> map (l_price \<circ> snd) (latest_t (fold commit_batch two empty_db)) = [7]"
  by (simp add: Let_def commit_batch_def insert_rows_def upsert_bars_def make_storage_batch_def empty_db_def sample_row_def
      latest_rows_def newest_step_def latest_of_def latest_upsert_def)

end
