(* ===== verification/Writer.thy ===== *)
theory Writer
  imports Protocol Clock Storage Json
begin

section \<open>The writer: from frames to stored rows and bars\<close>

text \<open>
  Models \<^verbatim>\<open>src/mdfeed/services/writer.py\<close>: what a received frame does to the buffers
  (\<open>ingest\<close>), the flush with its retry batch, the final writes of a shutdown. The storage is any
  \<open>write\<close> that keeps the contract \<open>batch_store\<close>, so the results hold for both back ends. A flush
  runs in a thread while the event loop keeps receiving: the frames that arrive while the database
  works are the argument \<open>during\<close>. The swap of the buffers before the write and the bookkeeping
  after it are taken as atomic. Archiving and the retention loop are in \<open>Retention\<close>; metrics, health
  and logging are not modelled.
\<close>

record writer_config =
  pending_max_rows :: nat
  write_batch_size :: nat
  bar_interval :: int

type_synonym bar_key = "text_u \<times> text_u \<times> int"

record writer =
  w_trades :: "trade_row list"
  w_books :: "book_row list"
  w_signals :: "signal_row list"
  w_bars :: "(bar_key \<times> bar) list"
  w_retry :: "storage_batch option"
  w_last_book :: "(text_u \<times> seconds) list"
  w_clock :: "text_u clock_monitor"
  w_tracks :: "(text_u \<times> seq_tracker) list"
  w_frames_in :: nat
  w_last_frame_at :: seconds
  w_upstream_ok :: bool
  w_gap_messages :: nat
  w_rows_written :: nat
  w_bars_written :: nat
  w_db_errors :: nat
  w_dropped :: nat

definition new_writer :: writer where
  "new_writer = \<lparr>w_trades = [], w_books = [], w_signals = [], w_bars = [], w_retry = None, w_last_book = [],
     w_clock = [], w_tracks = [], w_frames_in = 0, w_last_frame_at = 0, w_upstream_ok = False, w_gap_messages = 0,
     w_rows_written = 0, w_bars_written = 0, w_db_errors = 0, w_dropped = 0\<rparr>"

definition pending_row_count :: "writer \<Rightarrow> nat" where
  "pending_row_count w =
     (case w_retry w of None \<Rightarrow> 0 | Some b \<Rightarrow> batch_rows b + batch_bars b)
     + length (w_trades w) + length (w_books w) + length (w_signals w)"

subsection \<open>Receiving\<close>

definition BOOK_SAMPLE_S :: seconds where "BOOK_SAMPLE_S = 1"

definition accumulate_bar :: "int \<Rightarrow> trade \<Rightarrow> (bar_key \<times> bar) list \<Rightarrow> (bar_key \<times> bar) list" where
  "accumulate_bar iv t bs =
     (let bucket = t_event_ns t div (iv * 1000000000) * (iv * 1000000000);
          k = (t_venue t, t_symbol t, bucket);
          b = (case map_of bs k of None \<Rightarrow> new_bar (t_venue t) (t_symbol t) bucket iv | Some b \<Rightarrow> b)
      in AList.update k (bar_update b t) bs)"

definition trade_row_of :: "trade \<Rightarrow> int \<Rightarrow> nat \<Rightarrow> trade_row" where
  "trade_row_of t lat sq =
     \<lparr>r_ts = t_event_ns t div 1000, r_venue = t_venue t, r_symbol = t_symbol t, r_price = t_price t, r_qty = t_qty t,
      r_side = t_side t, r_recv_ts = t_recv_ns t div 1000, r_latency = lat, r_seq = sq\<rparr>"

definition book_row_of :: "book_top \<Rightarrow> book_row" where
  "book_row_of k =
     \<lparr>q_ts = bk_event_ns k div 1000, q_venue = bk_venue k, q_symbol = bk_symbol k, q_bid = bid k, q_bid_qty = bid_qty k,
      q_ask = ask k, q_ask_qty = ask_qty k, q_spread = spread_bp k\<rparr>"

definition signal_row_of :: "signal \<Rightarrow> signal_row" where
  "signal_row_of s =
     \<lparr>g_ts = s_ts_ns s div 1000, g_venue = s_venue s, g_symbol = s_symbol s, g_strategy = s_strategy s,
      g_action = s_action s, g_strength = s_strength s, g_ref_price = s_ref_price s\<rparr>"

text \<open>The gap accounting per source, before anything else.\<close>

definition track :: "text_u \<Rightarrow> frame \<Rightarrow> writer \<Rightarrow> writer" where
  "track src f w =
     (let t = (case map_of (w_tracks w) src of None \<Rightarrow> new_tracker | Some t \<Rightarrow> t);
          (t', lost) = Protocol.observe t (seq f)
      in w\<lparr>w_tracks := AList.update src t' (w_tracks w), w_gap_messages := w_gap_messages w + lost\<rparr>)"

definition ingest_trade :: "writer_config \<Rightarrow> seconds \<Rightarrow> nat \<Rightarrow> trade \<Rightarrow> writer \<Rightarrow> py_error option \<times> writer" where
  "ingest_trade cfg now sq t w =
     (let (clk, lat) = monitor_observe (t_venue t) (latency_us t) now (w_clock w);
          w1 = w\<lparr>w_clock := clk, w_trades := w_trades w @ [trade_row_of t \<lfloor>lat\<rfloor> sq]\<rparr>
      in if bar_interval cfg = 0 then (Some ZeroDivisionError, w1)
         else (None, w1\<lparr>w_bars := accumulate_bar (bar_interval cfg) t (w_bars w1)\<rparr>))"

definition ingest_book :: "seconds \<Rightarrow> book_top \<Rightarrow> writer \<Rightarrow> writer" where
  "ingest_book now k w =
     (let key = bk_venue k @ asc '':'' @ bk_symbol k;
          last_at = (case map_of (w_last_book w) key of None \<Rightarrow> 0 | Some t \<Rightarrow> t)
      in if now - last_at < BOOK_SAMPLE_S then w
         else w\<lparr>w_last_book := AList.update key now (w_last_book w), w_books := w_books w @ [book_row_of k]\<rparr>)"

definition ingest :: "writer_config \<Rightarrow> doubles \<Rightarrow> seconds \<Rightarrow> text_u \<Rightarrow> frame \<Rightarrow> writer \<Rightarrow> py_error option \<times> writer" where
  "ingest cfg D now src f w0 =
     (let w = track src f (w0\<lparr>w_frames_in := w_frames_in w0 + 1, w_last_frame_at := now, w_upstream_ok := True\<rparr>) in
      if pending_max_rows cfg \<le> pending_row_count w then (None, w\<lparr>w_dropped := w_dropped w + 1\<rparr>)
      else if msg_type f = MSG_TRADE \<and> TRADE_SIZE \<le> length (payload f) then
        (case unpack_trade D (payload f) of Inl e \<Rightarrow> (Some e, w) | Inr t \<Rightarrow> ingest_trade cfg now (seq f) t w)
      else if msg_type f = MSG_BOOK \<and> BOOK_SIZE \<le> length (payload f) then
        (case unpack_book D (payload f) of Inl e \<Rightarrow> (Some e, w) | Inr k \<Rightarrow> (None, ingest_book now k w))
      else if msg_type f = MSG_SIGNAL \<and> SIGNAL_SIZE \<le> length (payload f) then
        (case unpack_signal D (payload f) of Inl e \<Rightarrow> (Some e, w)
         | Inr s \<Rightarrow> (None, w\<lparr>w_signals := w_signals w @ [signal_row_of s]\<rparr>))
      else (None, w))"

text \<open>A run of frames; an exception ends the consumer task, which its supervisor starts again.\<close>

type_synonym arrival = "seconds \<times> text_u \<times> frame"

definition ingest_all :: "writer_config \<Rightarrow> doubles \<Rightarrow> arrival list \<Rightarrow> writer \<Rightarrow> writer" where
  "ingest_all cfg D as w = foldl (\<lambda>w (now, src, f). snd (ingest cfg D now src f w)) w as"

subsection \<open>Flushing\<close>

definition bar_to_row :: "bar \<Rightarrow> bar_row" where
  "bar_to_row b =
     \<lparr>o_bucket = bucket_ns b div 1000, o_venue = bar_venue b, o_symbol = bar_symbol b, o_open = b_open b,
      o_high = b_high b, o_low = b_low b, o_close = b_close b, o_volume = b_volume b, o_notional = b_notional b,
      o_vwap = vwap b, o_ticks = tick_count b\<rparr>"

text \<open>The bars of buckets that are over at \<open>now_ns\<close>.\<close>

definition finished :: "int \<Rightarrow> int \<Rightarrow> (bar_key \<times> bar) list \<Rightarrow> (bar_key \<times> bar) list" where
  "finished iv now_ns bs =
     (let iv_ns = iv * 1000000000; limit_ns = now_ns div iv_ns * iv_ns
      in filter (\<lambda>((_, _, k), _). k < limit_ns) bs)"

text \<open>The first half of a flush without a retry batch: the buffers are taken over into the new batch.\<close>

definition flush_begin ::
  "writer_config \<Rightarrow> digester \<Rightarrow> string \<Rightarrow> int \<Rightarrow> writer \<Rightarrow> storage_batch \<times> bar_key list \<times> writer" where
  "flush_begin cfg dg uid now_ns w =
     (let ended = finished (bar_interval cfg) now_ns (w_bars w);
          b = make_storage_batch dg uid (w_trades w) (w_books w) (w_signals w) (map (bar_to_row \<circ> snd) ended)
      in (b, map fst ended, w\<lparr>w_trades := [], w_books := [], w_signals := [], w_retry := Some b\<rparr>))"

text \<open>The second half: the bars that were written leave the buffer.\<close>

definition pop_written :: "storage_batch \<Rightarrow> bar_key list \<Rightarrow> (bar_key \<times> bar) list \<Rightarrow> (bar_key \<times> bar) list" where
  "pop_written b ks bs =
     fold (\<lambda>k m. case map_of m k of
         None \<Rightarrow> m
       | Some c \<Rightarrow> if bucket_ns c div 1000 \<in> set (map o_bucket (bt_bars b)) then AList.delete k m else m) ks bs"

definition count_written :: "batch_receipt \<Rightarrow> writer \<Rightarrow> writer" where
  "count_written r w = w\<lparr>w_rows_written := w_rows_written w + rp_rows r, w_bars_written := w_bars_written w + rp_bars r\<rparr>"

definition flush ::
  "(db_fault \<Rightarrow> storage_batch \<Rightarrow> db \<Rightarrow> (storage_error + batch_receipt) \<times> db) \<Rightarrow> writer_config \<Rightarrow> doubles \<Rightarrow> digester
    \<Rightarrow> db_fault \<Rightarrow> string \<Rightarrow> int \<Rightarrow> arrival list \<Rightarrow> writer \<times> db \<Rightarrow> writer \<times> db" where
  "flush write cfg D dg f uid now_ns during st =
     (let (w, d) = st in
      if w_retry w = None \<and> w_trades w = [] \<and> w_books w = [] \<and> w_signals w = [] \<and> w_bars w = []
      then (ingest_all cfg D during w, d)
      else case w_retry w of
        Some b \<Rightarrow>
          (let (res, d1) = write f b d; w1 = ingest_all cfg D during w in
           case res of
             Inl _ \<Rightarrow> (w1\<lparr>w_db_errors := w_db_errors w1 + 1\<rparr>, d1)
           | Inr r \<Rightarrow> (count_written r (w1\<lparr>w_retry := None\<rparr>), d1))
      | None \<Rightarrow>
          (let (b, ks, w1) = flush_begin cfg dg uid now_ns w; (res, d1) = write f b d; w2 = ingest_all cfg D during w1 in
           case res of
             Inl _ \<Rightarrow> (w2\<lparr>w_db_errors := w_db_errors w2 + 1\<rparr>, d1)
           | Inr r \<Rightarrow> (count_written r (w2\<lparr>w_retry := None, w_bars := pop_written b ks (w_bars w2)\<rparr>), d1)))"

text \<open>One frame of \<^verbatim>\<open>_consume\<close>: a full trade buffer is flushed at once. The frames \<open>during\<close> follow in
  either case, while the flush works or after the frame. An event carries what the environment decides:
  the outcome of the database, the random part of the next batch id and the time.\<close>

datatype writer_event =
    Received arrival db_fault string int "arrival list"
  | Timer db_fault string int "arrival list"

fun writer_step where
  "writer_step write cfg D dg (Received (now, src, f) flt uid now_ns during) (w, d) =
     (let (e, w1) = ingest cfg D now src f w in
      if e = None \<and> write_batch_size cfg \<le> length (w_trades w1)
      then flush write cfg D dg flt uid now_ns during (w1, d)
      else (ingest_all cfg D during w1, d))"
| "writer_step write cfg D dg (Timer flt uid now_ns during) (w, d) = flush write cfg D dg flt uid now_ns during (w, d)"

text \<open>The end of \<^verbatim>\<open>run\<close>: one last flush, then every remaining bar is written.\<close>

definition shutdown where
  "shutdown write cfg D dg f uid now_ns bars_fail st =
     (let (w, d) = flush write cfg D dg f uid now_ns [] st; rows = map (bar_to_row \<circ> snd) (w_bars w)
      in (w, if rows = [] \<or> bars_fail then d else upsert_bars rows d))"

definition writer_run where
  "writer_run write cfg D dg evs st = foldl (\<lambda>st e. writer_step write cfg D dg e st) st evs"

fun event_uid :: "writer_event \<Rightarrow> string" where
  "event_uid (Received a f uid n during) = uid"
| "event_uid (Timer f uid n during) = uid"

fun event_arrivals :: "writer_event \<Rightarrow> arrival list" where
  "event_arrivals (Received a f uid n during) = a # during"
| "event_arrivals (Timer f uid n during) = during"

subsection \<open>Rows are conserved\<close>

text \<open>The rows of the three tables, side by side.\<close>

type_synonym rows3 = "trade_row list \<times> book_row list \<times> signal_row list"

fun cat3 :: "rows3 \<Rightarrow> rows3 \<Rightarrow> rows3" where
  "cat3 (a, b, c) (a', b', c') = (a @ a', b @ b', c @ c')"

definition nil3 :: rows3 where "nil3 = ([], [], [])"

lemma cat3_assoc: "cat3 (cat3 x y) z = cat3 x (cat3 y z)"
  by (cases x, cases y, cases z) simp

lemma cat3_nil [simp]: "cat3 nil3 x = x" "cat3 x nil3 = x"
  by (cases x, simp add: nil3_def)+

definition buffered :: "writer \<Rightarrow> rows3" where "buffered w = (w_trades w, w_books w, w_signals w)"
definition stored :: "db \<Rightarrow> rows3" where "stored d = (trades_t d, book_t d, signals_t d)"
definition batch3 :: "storage_batch \<Rightarrow> rows3" where "batch3 b = (bt_trades b, bt_books b, bt_signals b)"

text \<open>The rows of a batch that waits for its retry and is not in the database.\<close>

definition inflight :: "writer \<Rightarrow> db \<Rightarrow> rows3" where
  "inflight w d = (case w_retry w of None \<Rightarrow> nil3 | Some b \<Rightarrow> if batch_new b d then batch3 b else nil3)"

definition whole :: "writer \<Rightarrow> db \<Rightarrow> rows3" where
  "whole w d = cat3 (stored d) (cat3 (inflight w d) (buffered w))"

text \<open>What decides the rows a frame becomes: the venue clocks and the sampling times.\<close>

definition same_front :: "writer \<Rightarrow> writer \<Rightarrow> bool" where
  "same_front w v \<longleftrightarrow> w_clock w = w_clock v \<and> w_last_book w = w_last_book v"

lemma track_sel [simp]:
  "w_clock (track src f w) = w_clock w" "w_last_book (track src f w) = w_last_book w" "w_retry (track src f w) = w_retry w"
  "w_trades (track src f w) = w_trades w" "w_books (track src f w) = w_books w" "w_signals (track src f w) = w_signals w"
  "w_dropped (track src f w) = w_dropped w" "w_bars (track src f w) = w_bars w" "w_db_errors (track src f w) = w_db_errors w"
  by (simp_all add: track_def Let_def split_beta)

lemma ingest_dropped:
  "w_dropped (snd (ingest cfg D now src f w)) =
    w_dropped w + (if pending_max_rows cfg \<le> pending_row_count w then 1 else 0)"
  by (auto simp: ingest_def ingest_trade_def ingest_book_def Let_def pending_row_count_def split_beta split: sum.split)

lemma ingest_retry [simp]: "w_retry (snd (ingest cfg D now src f w)) = w_retry w"
  by (auto simp: ingest_def ingest_trade_def ingest_book_def Let_def split_beta split: sum.split)

lemma ingest_front:
  assumes "same_front w v" "bar_interval cfg = bar_interval cfg'"
    and "w_dropped (snd (ingest cfg D now src f w)) = w_dropped w"
    and "w_dropped (snd (ingest cfg' D now src f v)) = w_dropped v"
  shows "same_front (snd (ingest cfg D now src f w)) (snd (ingest cfg' D now src f v))
    \<and> (\<exists>g. buffered (snd (ingest cfg D now src f w)) = cat3 (buffered w) g
        \<and> buffered (snd (ingest cfg' D now src f v)) = cat3 (buffered v) g)"
proof -
  have "\<not> pending_max_rows cfg \<le> pending_row_count w" "\<not> pending_max_rows cfg' \<le> pending_row_count v"
    using assms(3,4) by (simp_all add: ingest_dropped split: if_splits)
  then show ?thesis using assms(1,2)
    by (simp add: ingest_def pending_row_count_def)
      (auto simp: ingest_trade_def ingest_book_def Let_def same_front_def buffered_def split_beta split: sum.split)
qed

lemma ingest_all_Nil [simp]: "ingest_all cfg D [] w = w"
  by (simp add: ingest_all_def)

lemma ingest_all_Cons [simp]:
  "ingest_all cfg D ((now, src, f) # as) w = ingest_all cfg D as (snd (ingest cfg D now src f w))"
  by (simp add: ingest_all_def)

lemma ingest_all_append: "ingest_all cfg D (as @ bs) w = ingest_all cfg D bs (ingest_all cfg D as w)"
  by (simp add: ingest_all_def)

lemma ingest_all_retry [simp]: "w_retry (ingest_all cfg D as w) = w_retry w"
proof (induction as arbitrary: w)
  case (Cons a as) then show ?case by (cases a) simp
qed simp

lemma ingest_all_dropped: "w_dropped w \<le> w_dropped (ingest_all cfg D as w)"
proof (induction as arbitrary: w)
  case (Cons a as)
  obtain now src f where "a = (now, src, f)" by (cases a)
  with Cons [of "snd (ingest cfg D now src f w)"] show ?case by (simp add: ingest_dropped)
qed simp

lemma ingest_all_front:
  assumes "same_front w v" "bar_interval cfg = bar_interval cfg'"
    and "w_dropped (ingest_all cfg D as w) = w_dropped w" "w_dropped (ingest_all cfg' D as v) = w_dropped v"
  shows "same_front (ingest_all cfg D as w) (ingest_all cfg' D as v)
    \<and> (\<exists>g. buffered (ingest_all cfg D as w) = cat3 (buffered w) g \<and> buffered (ingest_all cfg' D as v) = cat3 (buffered v) g)"
  using assms(1,3,4)
proof (induction as arbitrary: w v)
  case Nil
  then show ?case by (auto intro: exI [where x = nil3] simp del: split_paired_Ex)
next
  case (Cons a as)
  obtain now src f where a: "a = (now, src, f)" by (cases a)
  let ?w = "snd (ingest cfg D now src f w)" and ?v = "snd (ingest cfg' D now src f v)"
  have "w_dropped w \<le> w_dropped ?w" "w_dropped v \<le> w_dropped ?v" by (simp_all add: ingest_dropped)
  then have eq: "w_dropped ?w = w_dropped w" "w_dropped ?v = w_dropped v"
    using Cons.prems(2,3) ingest_all_dropped [of ?w cfg D as] ingest_all_dropped [of ?v cfg' D as] by (simp_all add: a)
  from ingest_front [OF Cons.prems(1) assms(2) eq] obtain g where
    g: "same_front ?w ?v" "buffered ?w = cat3 (buffered w) g" "buffered ?v = cat3 (buffered v) g" by blast
  from Cons.IH [OF g(1)] Cons.prems(2,3) eq obtain h where
    "same_front (ingest_all cfg D as ?w) (ingest_all cfg' D as ?v)"
    "buffered (ingest_all cfg D as ?w) = cat3 (buffered ?w) h" "buffered (ingest_all cfg' D as ?v) = cat3 (buffered ?v) h"
    by (auto simp: a)
  then show ?case using g by (auto simp: a cat3_assoc simp del: split_paired_Ex)
qed

text \<open>The reference: the frames go into buffers that are never full and never flushed.\<close>

definition rows_of_arrivals :: "writer_config \<Rightarrow> doubles \<Rightarrow> arrival list \<Rightarrow> rows3" where
  "rows_of_arrivals cfg D as = buffered (ingest_all (cfg\<lparr>pending_max_rows := length as\<rparr>) D as new_writer)"

lemma ingest_count:
  "pending_row_count (snd (ingest cfg D now src f w)) \<le> Suc (pending_row_count w)"
  by (auto simp: ingest_def ingest_trade_def ingest_book_def Let_def pending_row_count_def split_beta split: sum.split)

lemma ingest_all_no_drop:
  "pending_row_count w + length as \<le> pending_max_rows cfg \<Longrightarrow> w_dropped (ingest_all cfg D as w) = w_dropped w"
proof (induction as arbitrary: w)
  case (Cons a as)
  obtain now src f where a: "a = (now, src, f)" by (cases a)
  let ?w = "snd (ingest cfg D now src f w)"
  have "w_dropped ?w = w_dropped w" using Cons.prems by (simp add: ingest_dropped)
  moreover have "w_dropped (ingest_all cfg D as ?w) = w_dropped ?w"
    using Cons.prems ingest_count [of cfg D now src f w] by (intro Cons.IH) simp
  ultimately show ?case by (simp add: a)
qed simp

subsection \<open>The flush against a store that keeps its contract\<close>

text \<open>No receipt of the database carries the id.\<close>

definition id_new :: "string \<Rightarrow> db \<Rightarrow> bool" where
  "id_new i d \<longleftrightarrow> (\<forall>r \<in> set (receipts_t d). \<not> prefix (i @ '':'') (rc_id r))"

definition uid_ok :: "string \<Rightarrow> bool" where "uid_ok u \<longleftrightarrow> CHR '':'' \<notin> set u"

lemma batch_new_id: "batch_new b d \<longleftrightarrow> id_new (batch_id b) d"
  by (simp add: batch_new_def own_receipts_def id_new_def filter_empty_conv)

lemma id_new_commit:
  assumes "id_new i d" "id_ok i" "id_ok (batch_id b)" "i \<noteq> batch_id b"
  shows "id_new i (commit_batch b d)"
proof -
  define x where "x = \<lparr>batch_id = i, digest = [], bt_trades = [], bt_books = [], bt_signals = [], bt_bars = []\<rparr>"
  have i: "batch_id x = i" by (simp add: x_def)
  show ?thesis using other_batch_keeps(1) [of x b d] assms by (simp add: batch_new_id i)
qed

definition ids_of :: "string set \<Rightarrow> string set" where "ids_of us = (\<lambda>u. ''batch:'' @ u) ` us"

lemma ids_ok: "\<forall>u \<in> us. uid_ok u \<Longrightarrow> i \<in> ids_of us \<Longrightarrow> id_ok i"
  by (auto simp: ids_of_def id_ok_def uid_ok_def)

text \<open>
  The invariant of a run, for the uids \<open>us\<close> that are still to come and the reference writer \<open>v\<close>: nothing
  is lost or doubled between the database, the retry batch and the buffers.
\<close>

definition writer_ok :: "db \<Rightarrow> string set \<Rightarrow> writer \<Rightarrow> db \<Rightarrow> writer \<Rightarrow> bool" where
  "writer_ok d0 us w d v \<longleftrightarrow> same_front w v \<and> whole w d = cat3 (stored d0) (buffered v)
    \<and> (\<forall>i \<in> ids_of us. id_new i d)
    \<and> (\<forall>b. w_retry w = Some b \<longrightarrow> id_ok (batch_id b) \<and> (batch_new b d \<or> batch_done b d) \<and> batch_id b \<notin> ids_of us)"

lemma writer_ok_front:
  assumes "writer_ok d0 us w d v" "bar_interval cfg = bar_interval cfg'"
    and "w_dropped (ingest_all cfg D as w) = w_dropped w" "w_dropped (ingest_all cfg' D as v) = w_dropped v"
  shows "writer_ok d0 us (ingest_all cfg D as w) d (ingest_all cfg' D as v)"
proof -
  have "same_front w v" using assms(1) by (simp add: writer_ok_def)
  from ingest_all_front [OF this assms(2-4)] obtain g where
    g: "same_front (ingest_all cfg D as w) (ingest_all cfg' D as v)"
      "buffered (ingest_all cfg D as w) = cat3 (buffered w) g" "buffered (ingest_all cfg' D as v) = cat3 (buffered v) g"
    by blast
  have "whole (ingest_all cfg D as w) d = cat3 (whole w d) g"
    by (simp add: whole_def inflight_def g(2) cat3_assoc)
  then show ?thesis using assms(1) g by (simp add: writer_ok_def cat3_assoc)
qed

lemma flush_begin_sel:
  assumes "flush_begin cfg dg uid now_ns w = (b, ks, w1)"
  shows "batch_id b = ''batch:'' @ uid" "batch3 b = buffered w" "buffered w1 = nil3" "w_retry w1 = Some b"
    "same_front w1 v = same_front w v" "w_dropped w1 = w_dropped w"
  using assms by (auto simp: flush_begin_def Let_def make_storage_batch_def batch3_def buffered_def nil3_def same_front_def)

lemma writer_ok_begin:
  assumes "writer_ok d0 us w d v" "w_retry w = None" "uid \<in> us" "\<forall>u \<in> us. uid_ok u"
    and "flush_begin cfg dg uid now_ns w = (b, ks, w1)"
  shows "writer_ok d0 (us - {uid}) w1 d v"
proof -
  note sel = flush_begin_sel [OF assms(5)]
  have i: "batch_id b \<in> ids_of us" using assms(3) sel(1) by (auto simp: ids_of_def)
  then have new: "batch_new b d" "id_ok (batch_id b)"
    using assms(1) ids_ok [OF assms(4)] by (auto simp: writer_ok_def batch_new_id)
  have "whole w1 d = whole w d"
    using sel new assms(2) by (simp add: whole_def inflight_def)
  moreover have "batch_id b \<notin> ids_of (us - {uid})" using sel(1) by (auto simp: ids_of_def)
  moreover have "ids_of (us - {uid}) \<subseteq> ids_of us" by (auto simp: ids_of_def)
  ultimately show ?thesis using assms(1) sel(4) sel(5) [of v] new
    by (auto simp: writer_ok_def)
qed

text \<open>A write of the retry batch, whatever its outcome, moves its rows or leaves them.\<close>

context batch_store
begin

lemma put_cases:
  assumes "batch_new b d \<or> batch_done b d"
  shows "snd (put f b d) = d \<or> batch_new b d \<and> \<not> batch_empty b \<and> snd (put f b d) = commit_batch b d"
  using assms by (cases "batch_empty b"; cases f) (auto simp: write_empty write_new write_done end_transaction_def)

lemma writer_ok_put:
  assumes "writer_ok d0 us w d v" "w_retry w = Some b" "\<forall>u \<in> us. uid_ok u"
  shows "writer_ok d0 us w (snd (put f b d)) v"
proof -
  have b: "batch_new b d \<or> batch_done b d" "id_ok (batch_id b)" "batch_id b \<notin> ids_of us"
    using assms(1,2) by (auto simp: writer_ok_def)
  show ?thesis
  proof (cases "snd (put f b d) = d")
    case False
    with put_cases [OF b(1), of f] have c: "batch_new b d" "\<not> batch_empty b" "snd (put f b d) = commit_batch b d" by auto
    have settled: "batch_done b (commit_batch b d)" by (rule batch_done_commit [OF c(1)])
    moreover have "\<not> batch_new b (commit_batch b d)"
      using settled c(2) by (simp add: batch_new_def batch_done_def receipts_of_empty)
    moreover have "stored (commit_batch b d) = cat3 (stored d) (batch3 b)" by (simp add: stored_def batch3_def)
    moreover have "id_new i (commit_batch b d)" if "i \<in> ids_of us" for i
      using that assms(1) b ids_ok [OF assms(3) that] by (intro id_new_commit) (auto simp: writer_ok_def)
    ultimately show ?thesis using assms(1,2) b c
      by (auto simp: writer_ok_def whole_def inflight_def cat3_assoc)
  qed (use assms(1) in simp)
qed

text \<open>When the write reports success the batch is settled.\<close>

lemma writer_ok_settled:
  assumes "writer_ok d0 us w d v" "w_retry w = Some b" "\<forall>u \<in> us. uid_ok u" "fst (put f b d) = Inr r"
  shows "writer_ok d0 us (w\<lparr>w_retry := None\<rparr>) (snd (put f b d)) v"
proof -
  have "batch_new b d \<or> batch_done b d" using assms(1,2) by (auto simp: writer_ok_def)
  from success [OF this assms(4)] have "inflight w (snd (put f b d)) = nil3"
    using assms(2) by (auto simp: inflight_def batch3_def nil3_def batch_empty_def batch_new_def batch_done_def receipts_of_empty)
  then show ?thesis using writer_ok_put [OF assms(1-3), of f]
    by (simp add: writer_ok_def whole_def inflight_def same_front_def buffered_def)
qed

lemma flush_dropped: "w_dropped (fst (flush put cfg D dg f uid now_ns during (w, d))) =
    w_dropped (ingest_all cfg D during (case w_retry w of
        None \<Rightarrow> if buffered w = nil3 \<and> w_bars w = [] then w else snd (snd (flush_begin cfg dg uid now_ns w))
      | Some b \<Rightarrow> w))"
  by (auto simp: flush_def Let_def split_beta count_written_def buffered_def nil3_def split: option.split sum.split)

lemma writer_ok_same:
  assumes "writer_ok d0 us w d v" "same_front w' w" "w_retry w' = w_retry w" "buffered w' = buffered w"
  shows "writer_ok d0 us w' d v"
  using assms by (simp add: writer_ok_def whole_def inflight_def same_front_def)

lemma writer_ok_write:
  assumes ok: "writer_ok d0 us w d v" "w_retry w = Some b" "\<forall>u \<in> us. uid_ok u" "bar_interval cfg = bar_interval cfg'"
    and drop: "w_dropped (ingest_all cfg D as w) = w_dropped w" "w_dropped (ingest_all cfg' D as v) = w_dropped v"
  shows "case fst (put f b d) of
      Inl _ \<Rightarrow> writer_ok d0 us (ingest_all cfg D as w) (snd (put f b d)) (ingest_all cfg' D as v)
    | Inr r \<Rightarrow> writer_ok d0 us (ingest_all cfg D as w\<lparr>w_retry := None\<rparr>) (snd (put f b d)) (ingest_all cfg' D as v)"
proof -
  have ok1: "writer_ok d0 us (ingest_all cfg D as w) d (ingest_all cfg' D as v)"
    by (rule writer_ok_front [OF ok(1,4) drop])
  have "w_retry (ingest_all cfg D as w) = Some b" using ok(2) by simp
  from writer_ok_put [OF ok1 this ok(3)] writer_ok_settled [OF ok1 this ok(3)]
  show ?thesis by (auto split: sum.split)
qed

lemma flush_ok:
  assumes ok: "writer_ok d0 us w d v" and u: "uid \<in> us" "\<forall>u \<in> us. uid_ok u" and iv: "bar_interval cfg = bar_interval cfg'"
    and st: "flush put cfg D dg f uid now_ns as (w, d) = (w', d')"
    and drop: "w_dropped w' = w_dropped w" "w_dropped (ingest_all cfg' D as v) = w_dropped v"
  shows "writer_ok d0 (us - {uid}) w' d' (ingest_all cfg' D as v)"
proof -
  have sub: "writer_ok d0 (us - {uid}) x y z" if "writer_ok d0 us x y z" for x y z
    using that by (auto simp: writer_ok_def ids_of_def)
  have us: "\<forall>u \<in> us - {uid}. uid_ok u" using u(2) by blast
  show ?thesis
  proof (cases "w_retry w")
    case (Some b)
    have dr: "w_dropped (ingest_all cfg D as w) = w_dropped w"
      using drop(1) flush_dropped [of cfg D dg f uid now_ns as w d] st Some by simp
    show ?thesis using writer_ok_write [OF sub [OF ok] Some us iv dr drop(2), of f] st Some
      by (auto simp: flush_def Let_def split_beta count_written_def split: sum.splits
          elim!: writer_ok_same simp: same_front_def buffered_def)
  next
    case None
    show ?thesis
    proof (cases "buffered w = nil3 \<and> w_bars w = []")
      case True
      then have "w' = ingest_all cfg D as w" "d' = d"
        using st None by (auto simp: flush_def buffered_def nil3_def)
      then show ?thesis using writer_ok_front [OF sub [OF ok] iv _ drop(2)] drop(1) by simp
    next
      case False
      obtain b ks w1 where fb: "flush_begin cfg dg uid now_ns w = (b, ks, w1)" by (cases "flush_begin cfg dg uid now_ns w")
      note sel = flush_begin_sel [OF fb]
      have dr: "w_dropped (ingest_all cfg D as w1) = w_dropped w1"
        using drop(1) flush_dropped [of cfg D dg f uid now_ns as w d] st None False sel(6) by (auto simp: fb)
      show ?thesis using writer_ok_write [OF writer_ok_begin [OF ok None u fb] sel(4) us iv dr drop(2), of f] st None False
        by (auto simp: flush_def fb Let_def split_beta count_written_def split: sum.splits if_splits
            elim!: writer_ok_same simp: same_front_def buffered_def nil3_def)
    qed
  qed
qed

lemma flush_dropped_mono: "w_dropped w \<le> w_dropped (fst (flush put cfg D dg f uid now_ns as (w, d)))"
proof (cases "w_retry w")
  case None
  obtain b ks w1 where fb: "flush_begin cfg dg uid now_ns w = (b, ks, w1)" by (cases "flush_begin cfg dg uid now_ns w")
  then show ?thesis using flush_begin_sel(6) [OF fb] ingest_all_dropped [of w1 cfg D as] ingest_all_dropped [of w cfg D as]
    by (simp add: flush_dropped None)
qed (simp add: flush_dropped ingest_all_dropped)

end

context batch_store
begin

lemma step_dropped_mono: "w_dropped w \<le> w_dropped (fst (writer_step put cfg D dg e (w, d)))"
proof (cases e)
  case (Received a f uid n as)
  obtain now src fr where a: "a = (now, src, fr)" by (cases a)
  have "w_dropped w \<le> w_dropped (snd (ingest cfg D now src fr w))" by (simp add: ingest_dropped)
  then show ?thesis
    using Received a flush_dropped_mono [of "snd (ingest cfg D now src fr w)" cfg D dg f uid n as d]
      ingest_all_dropped [of "snd (ingest cfg D now src fr w)" cfg D as]
    by (simp add: Let_def split_beta)
qed (simp add: flush_dropped_mono)

lemma step_ok:
  assumes ok: "writer_ok d0 us w d v" and u: "event_uid e \<in> us" "\<forall>u \<in> us. uid_ok u" and iv: "bar_interval cfg = bar_interval cfg'"
    and st: "writer_step put cfg D dg e (w, d) = (w', d')"
    and drop: "w_dropped w' = w_dropped w" "w_dropped (ingest_all cfg' D (event_arrivals e) v) = w_dropped v"
  shows "writer_ok d0 (us - {event_uid e}) w' d' (ingest_all cfg' D (event_arrivals e) v)"
proof (cases e)
  case (Timer f uid n as)
  then show ?thesis using flush_ok [OF ok _ u(2) iv, of uid D dg f n as w' d'] u st drop by simp
next
  case (Received a f uid n as)
  obtain now src fr where a: "a = (now, src, fr)" by (cases a)
  let ?w = "snd (ingest cfg D now src fr w)" and ?v = "snd (ingest cfg' D now src fr v)"
  have le: "w_dropped w \<le> w_dropped ?w" "w_dropped v \<le> w_dropped ?v" by (simp_all add: ingest_dropped)
  have v: "w_dropped ?v = w_dropped v" "w_dropped (ingest_all cfg' D as ?v) = w_dropped ?v"
    using drop(2) le(2) ingest_all_dropped [of ?v cfg' D as] by (simp_all add: Received a)
  have st': "(if fst (ingest cfg D now src fr w) = None \<and> write_batch_size cfg \<le> length (w_trades ?w)
      then flush put cfg D dg f uid n as (?w, d) else (ingest_all cfg D as ?w, d)) = (w', d')"
    using st by (simp add: Received a Let_def split_beta)
  have w: "w_dropped ?w = w_dropped w" "w_dropped w' = w_dropped ?w"
    using st' drop(1) le(1) flush_dropped_mono [of ?w cfg D dg f uid n as d] ingest_all_dropped [of ?w cfg D as]
    by (auto split: if_splits)
  have "writer_ok d0 us (ingest_all cfg D [(now, src, fr)] w) d (ingest_all cfg' D [(now, src, fr)] v)"
    using v w by (intro writer_ok_front [OF ok iv]) simp_all
  then have ok1: "writer_ok d0 us ?w d ?v" by simp
  show ?thesis
  proof (cases "fst (ingest cfg D now src fr w) = None \<and> write_batch_size cfg \<le> length (w_trades ?w)")
    case True
    then show ?thesis using flush_ok [OF ok1 _ u(2) iv _ w(2) v(2), of uid dg f n d'] u(1) st'
      by (simp add: Received a)
  next
    case False
    then have "w' = ingest_all cfg D as ?w" "d' = d" using st' by auto
    then have "writer_ok d0 us w' d' (ingest_all cfg' D as ?v)"
      using writer_ok_front [OF ok1 iv _ v(2)] w(2) by simp
    then show ?thesis by (auto simp: Received a writer_ok_def ids_of_def)
  qed
qed

lemma run_dropped_mono: "w_dropped (fst st) \<le> w_dropped (fst (writer_run put cfg D dg evs st))"
proof (induction evs rule: rev_induct)
  case (snoc e evs)
  then show ?case
    using step_dropped_mono [of "fst (writer_run put cfg D dg evs st)" cfg D dg e "snd (writer_run put cfg D dg evs st)"]
    by (simp add: writer_run_def)
qed (simp add: writer_run_def)

lemma run_ok:
  assumes "\<forall>u \<in> us. uid_ok u" "bar_interval cfg = bar_interval cfg'"
    and "writer_ok d0 us w d v" "distinct (map event_uid evs)" "set (map event_uid evs) \<subseteq> us"
    and "writer_run put cfg D dg evs (w, d) = (w', d')" "w_dropped w' = w_dropped w"
    and "w_dropped (ingest_all cfg' D (concat (map event_arrivals evs)) v) = w_dropped v"
  shows "writer_ok d0 (us - set (map event_uid evs)) w' d' (ingest_all cfg' D (concat (map event_arrivals evs)) v)"
  using assms(4-)
proof (induction evs arbitrary: w' d' rule: rev_induct)
  case Nil
  then show ?case using assms(3) by (simp add: writer_run_def)
next
  case (snoc e evs)
  obtain w1 d1 where run: "writer_run put cfg D dg evs (w, d) = (w1, d1)"
    by (cases "writer_run put cfg D dg evs (w, d)")
  have step: "writer_step put cfg D dg e (w1, d1) = (w', d')" using snoc.prems(3) run by (simp add: writer_run_def)
  let ?v = "ingest_all cfg' D (concat (map event_arrivals evs)) v"
  have le: "w_dropped w \<le> w_dropped w1" "w_dropped w1 \<le> w_dropped w'" "w_dropped v \<le> w_dropped ?v"
    "w_dropped ?v \<le> w_dropped (ingest_all cfg' D (event_arrivals e) ?v)"
    using run_dropped_mono [of "(w, d)" cfg D dg evs] step_dropped_mono [of w1 cfg D dg e d1]
    by (simp_all add: run step ingest_all_dropped)
  have app: "ingest_all cfg' D (concat (map event_arrivals (evs @ [e]))) v = ingest_all cfg' D (event_arrivals e) ?v"
    by (simp add: ingest_all_append)
  have "writer_ok d0 (us - set (map event_uid evs)) w1 d1 ?v"
    using snoc.prems run le app by (intro snoc.IH) auto
  from step_ok [OF this _ _ assms(2) step] have
    "writer_ok d0 (us - set (map event_uid evs) - {event_uid e}) w' d' (ingest_all cfg' D (event_arrivals e) ?v)"
    using snoc.prems le app assms(1) by auto
  then show ?case unfolding app by (simp add: insert_commute Diff_insert [symmetric])
qed

text \<open>One undisturbed flush settles the retry batch, or else empties the buffers.\<close>

lemma flush_settles:
  assumes "writer_ok d0 us w d v" "uid \<in> us" "\<forall>u \<in> us. uid_ok u"
    and "flush put cfg D dg NoFault uid now_ns [] (w, d) = (w', d')"
  shows "w_retry w' = None \<and> buffered w' = (if w_retry w = None then nil3 else buffered w) \<and> w_dropped w' = w_dropped w"
proof (cases "w_retry w")
  case (Some b)
  have "batch_new b d \<or> batch_done b d" using assms(1) Some by (auto simp: writer_ok_def)
  from no_fault [OF this] assms(4) Some show ?thesis
    by (auto simp: flush_def Let_def split_beta count_written_def buffered_def split: sum.splits)
next
  case None
  obtain b ks w1 where fb: "flush_begin cfg dg uid now_ns w = (b, ks, w1)" by (cases "flush_begin cfg dg uid now_ns w")
  note sel = flush_begin_sel [OF fb]
  have "batch_new b d" using writer_ok_begin [OF assms(1) None assms(2,3) fb] sel assms(1,2)
    by (auto simp: writer_ok_def batch_new_id ids_of_def)
  from no_fault [OF disjI1 [OF this]] assms(4) None sel show ?thesis
    by (auto simp: flush_def fb Let_def split_beta count_written_def buffered_def nil3_def split: sum.splits if_splits)
qed

lemma drains:
  assumes "distinct (map event_uid evs @ [u1, u2])" "\<forall>u \<in> set (map event_uid evs @ [u1, u2]). uid_ok u \<and> id_new (''batch:'' @ u) d0"
    and run: "writer_run put cfg D dg evs (new_writer, d0) = (w, d)" "w_dropped w = 0"
    and last: "flush put cfg D dg NoFault u2 n2 [] (flush put cfg D dg NoFault u1 n1 [] (w, d)) = (w2, d2)"
  shows "stored d2 = cat3 (stored d0) (rows_of_arrivals cfg D (concat (map event_arrivals evs)))
    \<and> w_retry w2 = None \<and> buffered w2 = nil3"
proof -
  let ?us = "set (map event_uid evs @ [u1, u2])" and ?as = "concat (map event_arrivals evs)"
  let ?cfg = "cfg\<lparr>pending_max_rows := length ?as\<rparr>"
  let ?v = "ingest_all ?cfg D ?as new_writer"
  have u: "\<forall>u \<in> ?us. uid_ok u" using assms(2) by blast
  have init: "writer_ok d0 ?us new_writer d0 new_writer"
    using assms(2) by (auto simp: writer_ok_def same_front_def whole_def inflight_def new_writer_def buffered_def ids_of_def
        simp flip: nil3_def)
  have "w_dropped ?v = w_dropped new_writer"
    by (rule ingest_all_no_drop) (simp add: new_writer_def pending_row_count_def)
  then have "writer_ok d0 (?us - set (map event_uid evs)) w d ?v"
    using assms(1) run by (intro run_ok [OF u _ init]) (auto simp: new_writer_def)
  moreover have "?us - set (map event_uid evs) = {u1, u2}" using assms(1) by auto
  ultimately have ok: "writer_ok d0 {u1, u2} w d ?v" by simp
  obtain w1 d1 where f1: "flush put cfg D dg NoFault u1 n1 [] (w, d) = (w1, d1)"
    by (cases "flush put cfg D dg NoFault u1 n1 [] (w, d)")
  have u12: "\<forall>u \<in> {u1, u2}. uid_ok u" "u1 \<noteq> u2" using u assms(1) by auto
  note s1 = flush_settles [OF ok _ u12(1) f1, simplified]
  have "writer_ok d0 ({u1, u2} - {u1}) w1 d1 (ingest_all ?cfg D [] ?v)"
    using s1 by (intro flush_ok [OF ok _ u12(1) _ f1]) simp_all
  then have ok1: "writer_ok d0 {u2} w1 d1 ?v" using u12(2) by (simp add: insert_Diff_if)
  have f2: "flush put cfg D dg NoFault u2 n2 [] (w1, d1) = (w2, d2)" using last by (simp add: f1)
  note s2 = flush_settles [OF ok1 _ _ f2, simplified]
  have "writer_ok d0 ({u2} - {u2}) w2 d2 (ingest_all ?cfg D [] ?v)"
    using s2 u12(1) by (intro flush_ok [OF ok1 _ _ _ f2]) simp_all
  then have "whole w2 d2 = cat3 (stored d0) (buffered ?v)" by (simp add: writer_ok_def)
  then show ?thesis using s1 s2 u12 by (simp add: whole_def inflight_def rows_of_arrivals_def)
qed

end

text \<open>
  C4: no row is lost, doubled or reordered on its way to the tables. Take any run of received frames
  and timer flushes, with any outcome of the database at every flush, lost acknowledgements
  included, in which the pending limit dropped nothing. After two further flushes that the database
  accepts, the stored trades, quotes and signals are those the database had, followed by exactly the
  rows that the frames give when they are buffered without any limit and never flushed, in their
  order, and the writer holds nothing back. The batch ids must be new to the database and distinct.
\<close>

theorem writer_stores_every_row:
  assumes "put = sqlite_write_batch \<or> put = pg_write_batch id"
    and "distinct (map event_uid evs @ [u1, u2])"
    and "\<forall>u \<in> set (map event_uid evs @ [u1, u2]). uid_ok u \<and> id_new (''batch:'' @ u) d0"
    and "writer_run put cfg D dg evs (new_writer, d0) = (w, d)" "w_dropped w = 0"
    and "flush put cfg D dg NoFault u2 n2 [] (flush put cfg D dg NoFault u1 n1 [] (w, d)) = (w2, d2)"
  shows "stored d2 = cat3 (stored d0) (rows_of_arrivals cfg D (concat (map event_arrivals evs)))
    \<and> w_retry w2 = None \<and> buffered w2 = nil3"
  using assms(1) sqlite.drains [of evs u1 u2 d0 cfg D dg w d n2 n1 w2 d2]
    pg.drains [of evs u1 u2 d0 cfg D dg w d n2 n1 w2 d2] assms(2-) by auto

definition demo_config :: writer_config where
  "demo_config = \<lparr>pending_max_rows = 9, write_batch_size = 5, bar_interval = 60\<rparr>"

definition demo_arrival :: arrival where
  "demo_arrival = (1, [1], \<lparr>msg_type = MSG_TRADE, seq = 1, flags = 0, payload = replicate 64 0\<rparr>)"

definition demo_events :: "writer_event list" where
  "demo_events = [Received demo_arrival NoFault ''a'' 0 [], Timer AckLost ''b'' 0 []]"

lemma writer_demo_run: "w_dropped (fst (writer_run put demo_config D dg demo_events (new_writer, d0))) = 0"
proof -
  let ?f = "\<lparr>msg_type = MSG_TRADE, seq = 1, flags = 0, payload = replicate 64 0\<rparr>"
  let ?w = "snd (ingest demo_config D 1 [1] ?f new_writer)"
  have c: "pending_row_count ?w \<le> 1"
    using ingest_count [of demo_config D 1 "[1]" ?f new_writer] by (simp add: pending_row_count_def new_writer_def)
  then have "length (w_trades ?w) < 5" by (simp add: pending_row_count_def)
  then have "writer_run put demo_config D dg demo_events (new_writer, d0)
      = flush put demo_config D dg AckLost ''b'' 0 [] (?w, d0)"
    by (simp add: writer_run_def demo_events_def demo_arrival_def Let_def split_beta demo_config_def)
  moreover have "w_dropped ?w = 0"
    by (simp add: ingest_dropped demo_config_def pending_row_count_def new_writer_def)
  moreover have "w_retry ?w = None" by (simp add: new_writer_def)
  ultimately show ?thesis
    by (simp add: flush_def flush_begin_def Let_def split_beta count_written_def split: sum.split)
qed

theorem writer_stores_every_row_witness:
  "\<exists>w2 d2. flush sqlite_write_batch demo_config sample_doubles (\<lambda>_ _ _ _. []) NoFault ''d'' 0 []
      (flush sqlite_write_batch demo_config sample_doubles (\<lambda>_ _ _ _. []) NoFault ''c'' 0 []
        (writer_run sqlite_write_batch demo_config sample_doubles (\<lambda>_ _ _ _. []) demo_events (new_writer, empty_db))) = (w2, d2)
    \<and> length (trades_t d2) = 1 \<and> w_trades w2 = []"
proof -
  obtain w d where run: "writer_run sqlite_write_batch demo_config sample_doubles (\<lambda>_ _ _ _. []) demo_events (new_writer, empty_db) = (w, d)"
    by fastforce
  obtain w2 d2 where fl: "flush sqlite_write_batch demo_config sample_doubles (\<lambda>_ _ _ _. []) NoFault ''d'' 0 []
      (flush sqlite_write_batch demo_config sample_doubles (\<lambda>_ _ _ _. []) NoFault ''c'' 0 [] (w, d)) = (w2, d2)" by fastforce
  have "w_dropped w = 0" using writer_demo_run [of sqlite_write_batch sample_doubles _ empty_db] run by (metis fst_conv)
  then have "stored d2 = cat3 (stored empty_db) (rows_of_arrivals demo_config sample_doubles (concat (map event_arrivals demo_events)))
      \<and> w_retry w2 = None \<and> buffered w2 = nil3"
    using run fl by (intro writer_stores_every_row [of sqlite_write_batch demo_events "''c''" "''d''" empty_db])
      (simp_all add: demo_events_def uid_ok_def id_new_def empty_db_def)
  moreover have "length (fst (rows_of_arrivals demo_config sample_doubles [demo_arrival])) = 1"
    by (simp add: rows_of_arrivals_def demo_arrival_def demo_config_def ingest_def pending_row_count_def new_writer_def
        TRADE_SIZE_def unpack_trade_def ingest_trade_def Let_def split_beta track_def buffered_def)
  ultimately show ?thesis using run fl
    by (cases "rows_of_arrivals demo_config sample_doubles [demo_arrival]")
      (auto simp: demo_events_def stored_def empty_db_def buffered_def nil3_def split_beta)
qed

text \<open>
  A shutdown flushes once, so with a retry batch at hand it writes that batch and leaves everything
  buffered since out of the database.
\<close>

context batch_store
begin

lemma shutdown_drops_buffer:
  assumes "w_retry w = Some b" "shutdown put cfg D dg f uid now_ns bars_fail (w, d) = (w', d')"
  shows "stored d' = stored (snd (put f b d))" "buffered w' = buffered w"
  using assms by (auto simp: shutdown_def flush_def Let_def split_beta count_written_def stored_def upsert_bars_def
      buffered_def split: sum.splits if_splits)

end

subsection \<open>Bars\<close>

definition bar_of :: "text_u \<Rightarrow> text_u \<Rightarrow> int \<Rightarrow> int \<Rightarrow> trade list \<Rightarrow> bar_row" where
  "bar_of v s k iv ts = bar_to_row (foldl bar_update (new_bar v s k iv) ts)"

lemma bar_fold_key:
  "let b = foldl bar_update (new_bar v s k iv) ts in bar_venue b = v \<and> bar_symbol b = s \<and> bucket_ns b = k"
  by (induction ts rule: rev_induct) (simp_all add: new_bar_def bar_update_def Let_def)

lemma bar_of_key [simp]: "o_venue (bar_of v s k iv ts) = v" "o_symbol (bar_of v s k iv ts) = s"
  "o_bucket (bar_of v s k iv ts) = k div 1000"
  using bar_fold_key [of v s k iv ts] by (simp_all add: bar_of_def bar_to_row_def Let_def)

lemma merge_bar_of:
  assumes "ts \<noteq> []" "us \<noteq> []"
  shows "merge_bar (bar_of v s k iv ts) (bar_of v s k iv us) = (bar_of v s k iv (ts @ us))\<lparr>o_vwap := o_vwap (bar_of v s k iv us)\<rparr>"
proof -
  let ?b = "\<lambda>ts. foldl bar_update (new_bar v s k iv) ts"
  have "Max (t_price ` set (ts @ us)) = max (Max (t_price ` set ts)) (Max (t_price ` set us))"
    "Min (t_price ` set (ts @ us)) = min (Min (t_price ` set ts)) (Min (t_price ` set us))"
    using assms by (simp_all add: image_Un Max_Un Min_Un)
  then show ?thesis
    using assms bar_fold [OF assms(1), of v s k iv] bar_fold [OF assms(2), of v s k iv] bar_fold [of "ts @ us" v s k iv]
      bar_fold_key [of v s k iv ts] bar_fold_key [of v s k iv us] bar_fold_key [of v s k iv "ts @ us"]
    by (simp add: merge_bar_def bar_of_def bar_to_row_def Let_def)
qed

text \<open>
  C39: a bar that is written in two parts is the bar of all its trades. When the trades of a bucket
  reach the table as two bars, the row is the one of all the trades together in open, high, low,
  close, volume, notional and count; only the volume-weighted price is that of the second part.
\<close>

theorem split_bar_merges:
  assumes "ts \<noteq> []" "us \<noteq> []" "map_of m (v, s, k div 1000) = None"
  shows "map_of (fold bar_upsert [bar_of v s k iv ts, bar_of v s k iv us] m) (v, s, k div 1000)
    = Some ((bar_of v s k iv (ts @ us))\<lparr>o_vwap := o_vwap (bar_of v s k iv us)\<rparr>)"
  using assms(3) by (simp add: bar_upsert_def Let_def update_conv' merge_bar_of [OF assms(1,2)])

theorem split_bar_merges_witness:
  "map_of (fold bar_upsert [bar_of [85] [66] 0 60 [sample_trade], bar_of [85] [66] 0 60 [sample_trade\<lparr>t_price := 9\<rparr>]] []) ([85], [66], 0)
    = Some ((bar_of [85] [66] 0 60 [sample_trade, sample_trade\<lparr>t_price := 9\<rparr>])
        \<lparr>o_vwap := o_vwap (bar_of [85] [66] 0 60 [sample_trade\<lparr>t_price := 9\<rparr>])\<rparr>)"
  using split_bar_merges [of "[sample_trade]" "[sample_trade\<lparr>t_price := 9\<rparr>]" "[]" "[85]" "[66]" 0 60] by simp

text \<open>So the stored volume-weighted price of a split bar is not its notional over its volume.\<close>

lemma split_bar_vwap:
  "let x = merge_bar (bar_of [85] [66] 0 60 [sample_trade\<lparr>t_price := 1, t_qty := 1\<rparr>])
       (bar_of [85] [66] 0 60 [sample_trade\<lparr>t_price := 3, t_qty := 1\<rparr>]) in
     o_notional x / o_volume x = 2 \<and> o_vwap x = 3"
  by (simp add: merge_bar_def bar_of_def bar_to_row_def new_bar_def bar_update_def vwap_def trade_notional_def Let_def)

text \<open>
  A batch that failed keeps its finished bars in the buffer; when the retry succeeds they are still
  there, so the next flush writes each of them again, and the table adds them up.
\<close>

context batch_store
begin

lemma retried_bar_doubles:
  assumes w: "w_retry w = None" "w_trades w = []" "w_books w = []" "w_signals w = []"
      "w_bars w = [((bar_venue b, bar_symbol b, bucket_ns b), b)]"
    and over: "bucket_ns b < now_ns div (bar_interval cfg * 1000000000) * (bar_interval cfg * 1000000000)"
    and d: "bars_t d = []" "uid_ok u1" "uid_ok u2" "u1 \<noteq> u2" "id_new (''batch:'' @ u1) d" "id_new (''batch:'' @ u2) d"
  shows "bars_t (snd (flush put cfg D dg NoFault u2 now_ns [] (flush put cfg D dg NoFault u2 now_ns []
      (flush put cfg D dg WriteFails u1 now_ns [] (w, d)))))
    = [((bar_venue b, bar_symbol b, bucket_ns b div 1000), merge_bar (bar_to_row b) (bar_to_row b))]"
proof -
  let ?b = "\<lambda>u. make_storage_batch dg u [] [] [] [bar_to_row b]"
  have fin: "finished (bar_interval cfg) now_ns [((bar_venue b, bar_symbol b, bucket_ns b), b)]
      = [((bar_venue b, bar_symbol b, bucket_ns b), b)]" using over by (simp add: finished_def Let_def)
  have ne: "\<not> batch_empty (?b u)" for u by (simp add: batch_empty_def make_storage_batch_def)
  have id: "batch_id (?b u) = ''batch:'' @ u" for u by (simp add: make_storage_batch_def)
  have new: "batch_new (?b u1) d" "batch_new (?b u2) d" using d by (simp_all add: batch_new_id id)
  let ?d1 = "commit_batch (?b u1) d"
  have ids: "id_ok (''batch:'' @ u1)" "id_ok (''batch:'' @ u2)" using d(2,3) by (auto simp: id_ok_def uid_ok_def)
  have "id_new (''batch:'' @ u2) ?d1" using d ids by (intro id_new_commit) (simp_all add: id)
  then have new2: "batch_new (?b u2) ?d1" by (simp add: batch_new_id id)
  have "\<exists>w1. flush put cfg D dg WriteFails u1 now_ns [] (w, d) = (w1, d) \<and> w_retry w1 = Some (?b u1)
      \<and> w_trades w1 = [] \<and> w_books w1 = [] \<and> w_signals w1 = [] \<and> w_bars w1 = w_bars w"
    by (simp add: w flush_def flush_begin_def fin Let_def write_new [OF ne new(1)] end_transaction_def)
  then obtain w1 where w1: "flush put cfg D dg WriteFails u1 now_ns [] (w, d) = (w1, d)" "w_retry w1 = Some (?b u1)"
    "w_trades w1 = []" "w_books w1 = []" "w_signals w1 = []" "w_bars w1 = w_bars w" by blast
  have "\<exists>w2. flush put cfg D dg NoFault u2 now_ns [] (w1, d) = (w2, ?d1) \<and> w_retry w2 = None
      \<and> w_trades w2 = [] \<and> w_books w2 = [] \<and> w_signals w2 = [] \<and> w_bars w2 = w_bars w"
    by (simp add: w1 flush_def Let_def write_new [OF ne new(1)] end_transaction_def count_written_def)
  then obtain w2 where w2: "flush put cfg D dg NoFault u2 now_ns [] (w1, d) = (w2, ?d1)" "w_retry w2 = None"
    "w_trades w2 = []" "w_books w2 = []" "w_signals w2 = []" "w_bars w2 = w_bars w" by blast
  have "snd (flush put cfg D dg NoFault u2 now_ns [] (w2, ?d1)) = commit_batch (?b u2) ?d1"
    by (simp add: w2 w fin flush_def flush_begin_def Let_def write_new [OF ne new2] end_transaction_def)
  then show ?thesis unfolding w1(1) w2(1) using d(1)
    by (simp add: commit_batch_def insert_rows_def upsert_bars_def make_storage_batch_def bar_upsert_def Let_def bar_to_row_def)
qed

end

end
