(* ===== verification/Retention.thy ===== *)
theory Retention
  imports Json "HOL-Library.Multiset"
begin

section \<open>Retention: only archived rows are deleted\<close>

text \<open>
  Models \<^verbatim>\<open>src/mdfeed/retention.py\<close>: the strict reading of remote archive receipts, the proof of a
  source day against its receipt or against the progress file of an interrupted deletion, the cutoff
  that follows, and \<open>prune\<close>, which deletes in batches under the lock and re-derives the cutoff for
  every batch. A table is a list of rows \<open>(ts, line)\<close>, the microsecond time and the CSV line of the
  row. Arguments stand for the digest of a table's lines, the order of the \<^verbatim>\<open>SELECT\<close> and the calendar's
  text form of a day; a day is its number since the epoch. What happens around a batch (the clock,
  the inserts of others between batches, a failing statement) is a list of ticks, so a run may also be
  cut off after any batch. The disk watch's reading of the file system is not modelled.
\<close>

type_synonym src_row = "int \<times> text_u"

record source =
  src_trades :: "src_row list"
  src_book :: "src_row list"

datatype prune_table = Trades | BookTop

definition PRUNE_TABLES :: "prune_table list" where "PRUNE_TABLES = [Trades, BookTop]"
definition DELETE_BATCH :: nat where "DELETE_BATCH = 50000"
definition DAY_US :: int where "DAY_US = 86400 * 1000000"

fun table_name :: "prune_table \<Rightarrow> text_u" where
  "table_name Trades = asc ''trades''"
| "table_name BookTop = asc ''book_top''"

fun rows_of :: "prune_table \<Rightarrow> source \<Rightarrow> src_row list" where
  "rows_of Trades s = src_trades s"
| "rows_of BookTop s = src_book s"

fun set_rows :: "prune_table \<Rightarrow> src_row list \<Rightarrow> source \<Rightarrow> source" where
  "set_rows Trades rs s = s\<lparr>src_trades := rs\<rparr>"
| "set_rows BookTop rs s = s\<lparr>src_book := rs\<rparr>"

text \<open>The calendar, the digest and the order of the rows in a day's \<^verbatim>\<open>SELECT\<close>.\<close>

record retention_env =
  day_of_text :: "text_u \<Rightarrow> int option"
  text_of_day :: "int \<Rightarrow> text_u"
  content_sha :: "text_u \<Rightarrow> text_u list \<Rightarrow> text_u"
  select_order :: "src_row list \<Rightarrow> src_row list"

subsection \<open>Days\<close>

definition day_start_us :: "int \<Rightarrow> int" where "day_start_us day = day * DAY_US"

definition day_bounds_us :: "int \<Rightarrow> int \<times> int" where
  "day_bounds_us day = (day_start_us day, day_start_us day + DAY_US)"

definition day_of_us :: "int \<Rightarrow> int" where "day_of_us ts = ts div DAY_US"

definition source_floor_day :: "source \<Rightarrow> int option" where
  "source_floor_day s =
     (let floors = map (\<lambda>t. day_of_us (Min (fst ` set (rows_of t s)))) (filter (\<lambda>t. rows_of t s \<noteq> []) PRUNE_TABLES)
      in if floors = [] then None else Some (Min (set floors)))"

subsection \<open>Receipts\<close>

text \<open>\<^verbatim>\<open>data.get(key)\<close> of an object, and Python's equality of a value with an integer (\<^verbatim>\<open>True == 1\<close>).\<close>

definition get_key :: "(text_u \<times> json) list \<Rightarrow> string \<Rightarrow> json" where
  "get_key kvs k = obj_get kvs (asc k) JNull"

fun py_int :: "json \<Rightarrow> int option" where
  "py_int (JNum n) = Some n"
| "py_int (JBool b) = Some (if b then 1 else 0)"
| "py_int _ = None"

definition positive_int :: "json \<Rightarrow> int option" where
  "positive_int j = (case py_int j of None \<Rightarrow> None | Some n \<Rightarrow> if 0 \<le> n then Some n else None)"

definition lower_ascii :: "nat \<Rightarrow> nat" where "lower_ascii c = (if 65 \<le> c \<and> c \<le> 90 then c + 32 else c)"

definition is_sha256 :: "json \<Rightarrow> bool" where
  "is_sha256 j = (case j of
     JStr s \<Rightarrow> length s = 64 \<and> list_all (\<lambda>c. lower_ascii c \<in> set (asc ''0123456789abcdef'')) s
   | _ \<Rightarrow> False)"

record day_receipt =
  dr_day :: int
  dr_rows :: int
  dr_sha :: text_u

definition strict_receipt :: "retention_env \<Rightarrow> json \<Rightarrow> prune_table \<Rightarrow> day_receipt option" where
  "strict_receipt E j t =
     (case j of JObj d \<Rightarrow>
        (let g = get_key d; name = JStr (table_name t) in
         if py_int (g ''schema_version'') \<noteq> Some 1 \<or> g ''status'' \<noteq> JStr (asc ''verified'') then None
         else (case g ''day'' of JStr day_text \<Rightarrow>
           if g ''table'' \<noteq> name then None
           else (case day_of_text E day_text of None \<Rightarrow> None | Some day \<Rightarrow>
             if \<not> list_all (is_sha256 \<circ> g) [''local_sha256'', ''remote_fetch_sha256'', ''manifest_sha256'',
                    ''remote_manifest_sha256'', ''source_content_sha256'']
                \<or> g ''local_sha256'' \<noteq> g ''remote_fetch_sha256'' \<or> g ''manifest_sha256'' \<noteq> g ''remote_manifest_sha256''
             then None
             else (case (positive_int (g ''local_bytes''), positive_int (g ''remote_fetch_bytes''),
                         positive_int (g ''local_rows''), positive_int (g ''remote_fetch_rows''), positive_int (g ''source_rows'')) of
                (Some lb, Some rb, Some lr, Some rr, Some sr) \<Rightarrow>
                  (let (lo, hi) = day_bounds_us day in
                   if lb \<noteq> rb \<or> lr \<noteq> rr \<or> lr \<noteq> sr then None
                   else if g ''source_table'' \<noteq> name \<or> g ''source_day'' \<noteq> JStr day_text then None
                   else if py_int (g ''source_from_us'') \<noteq> Some lo \<or> py_int (g ''source_to_us'') \<noteq> Some hi then None
                   else (case (g ''object_id'', g ''source_content_sha256'') of
                      (JStr obj, JStr sha) \<Rightarrow> if obj = [] then None else Some \<lparr>dr_day = day, dr_rows = sr, dr_sha = sha\<rparr>
                    | _ \<Rightarrow> None))
              | _ \<Rightarrow> None))
         | _ \<Rightarrow> None))
      | _ \<Rightarrow> None)"

text \<open>The receipt directory: names in listing order with their parsed content, \<open>None\<close> when unreadable.\<close>

type_synonym receipt_dir = "(text_u \<times> json option) list"

definition ends_json :: "text_u \<Rightarrow> bool" where
  "ends_json n \<longleftrightarrow> drop (length n - 5) n = asc ''.json''"

definition remote_receipts :: "retention_env \<Rightarrow> receipt_dir \<Rightarrow> prune_table \<Rightarrow> (int \<times> day_receipt) list" where
  "remote_receipts E dir t =
     fold (\<lambda>(n, c) m. if \<not> ends_json n then m
        else case c of None \<Rightarrow> m
          | Some j \<Rightarrow> (case strict_receipt E j t of None \<Rightarrow> m | Some r \<Rightarrow> AList.update (dr_day r) r m)) dir []"

subsection \<open>The proof of a source day\<close>

definition day_rows :: "retention_env \<Rightarrow> source \<Rightarrow> prune_table \<Rightarrow> int \<Rightarrow> src_row list" where
  "day_rows E s t day =
     (let (lo, hi) = day_bounds_us day in select_order E (filter (\<lambda>(ts, _). lo \<le> ts \<and> ts < hi) (rows_of t s)))"

definition source_day_proof :: "retention_env \<Rightarrow> source \<Rightarrow> prune_table \<Rightarrow> int \<Rightarrow> int \<times> text_u" where
  "source_day_proof E s t day =
     (let rs = day_rows E s t day in (int (length rs), content_sha E (table_name t) (map snd rs)))"

definition progress_path :: "retention_env \<Rightarrow> prune_table \<Rightarrow> int \<Rightarrow> text_u" where
  "progress_path E t day = asc ''.retention-progress-'' @ table_name t @ asc ''-'' @ text_of_day E day @ asc ''.json''"

definition read_progress :: "retention_env \<Rightarrow> receipt_dir \<Rightarrow> prune_table \<Rightarrow> int \<Rightarrow> (json \<times> json) option" where
  "read_progress E dir t day =
     (case map_of dir (progress_path E t day) of
        Some (Some (JObj d)) \<Rightarrow>
          (let g = get_key d in
           if g ''table'' \<noteq> JStr (table_name t) \<or> g ''day'' \<noteq> JStr (text_of_day E day) then None
           else if positive_int (g ''remaining_rows'') = None \<or> \<not> is_sha256 (g ''remaining_content_sha256'') then None
           else Some (g ''remaining_rows'', g ''remaining_content_sha256''))
      | _ \<Rightarrow> None)"

definition progress_json :: "retention_env \<Rightarrow> prune_table \<Rightarrow> int \<Rightarrow> int \<times> text_u \<Rightarrow> text_u \<Rightarrow> json" where
  "progress_json E t day proof_of updated_at =
     JObj [(asc ''schema_version'', JNum 1), (asc ''table'', JStr (table_name t)), (asc ''day'', JStr (text_of_day E day)),
       (asc ''remaining_rows'', JNum (fst proof_of)), (asc ''remaining_content_sha256'', JStr (snd proof_of)),
       (asc ''updated_at'', JStr updated_at)]"

definition write_progress ::
  "retention_env \<Rightarrow> prune_table \<Rightarrow> int \<Rightarrow> int \<times> text_u \<Rightarrow> text_u \<Rightarrow> receipt_dir \<Rightarrow> receipt_dir" where
  "write_progress E t day pr updated_at dir =
     AList.update (progress_path E t day) (Some (progress_json E t day pr updated_at)) dir"

datatype block_reason =
    NoSourceRows
  | MissingRemoteCoverage
  | SourceDayChanged
  | SourceFloorChanged
  | VerifiedRemoteCoverage

definition source_matches :: "retention_env \<Rightarrow> source \<Rightarrow> receipt_dir \<Rightarrow> prune_table \<Rightarrow> day_receipt \<Rightarrow> block_reason option" where
  "source_matches E s dir t r =
     (let (n, sha) = source_day_proof E s t (dr_day r) in
      case read_progress E dir t (dr_day r) of
        Some (pn, psha) \<Rightarrow> if py_int pn = Some n \<and> psha = JStr sha then None else Some SourceDayChanged
      | None \<Rightarrow> if dr_rows r \<noteq> n \<or> dr_sha r \<noteq> sha then Some SourceDayChanged else None)"

subsection \<open>The cutoff\<close>

record retention_cutoff =
  allowed :: bool
  cutoff_us :: int
  reason :: block_reason

text \<open>All receipts of one day, one per table, tried in the order of the tables.\<close>

definition day_mismatch ::
  "retention_env \<Rightarrow> source \<Rightarrow> receipt_dir \<Rightarrow> (prune_table \<times> (int \<times> day_receipt) list) list \<Rightarrow> int \<Rightarrow> block_reason option" where
  "day_mismatch E s dir per_table day =
     fold (\<lambda>(t, rs) found. case found of Some x \<Rightarrow> Some x
        | None \<Rightarrow> (case map_of rs day of None \<Rightarrow> Some MissingRemoteCoverage | Some r \<Rightarrow> source_matches E s dir t r))
       per_table None"

lemma later_days_less:
  assumes "(day::int) \<in> set common"
  shows "card {d \<in> set common. day + 1 \<le> d} < card {d \<in> set common. day \<le> d}"
proof (rule psubset_card_mono)
  have "day \<in> {d \<in> set common. day \<le> d} - {d \<in> set common. day + 1 \<le> d}" using assms by simp
  then show "{d \<in> set common. day + 1 \<le> d} \<subset> {d \<in> set common. day \<le> d}" by fastforce
qed simp

function cutoff_loop :: "(int \<Rightarrow> block_reason option) \<Rightarrow> int list \<Rightarrow> int \<Rightarrow> retention_cutoff" where
  "cutoff_loop mismatch common day =
     (if day \<in> set common then
        (case mismatch day of
           Some x \<Rightarrow> \<lparr>allowed = False, cutoff_us = 0, reason = x\<rparr>
         | None \<Rightarrow> cutoff_loop mismatch common (day + 1))
      else \<lparr>allowed = True, cutoff_us = day_start_us day, reason = VerifiedRemoteCoverage\<rparr>)"
  by pat_completeness auto
termination
proof (relation "measure (\<lambda>(_, common, day). card {d \<in> set common. day \<le> d})", simp, clarsimp)
  fix common :: "int list" and day assume "day \<in> set common"
  then show "card {d \<in> set common. day + 1 \<le> d} < card {d \<in> set common. day \<le> d}" by (rule later_days_less)
qed

declare cutoff_loop.simps [simp del]

definition get_cutoff :: "retention_env \<Rightarrow> source \<Rightarrow> receipt_dir \<Rightarrow> retention_cutoff" where
  "get_cutoff E s dir =
     (case source_floor_day s of
        None \<Rightarrow> \<lparr>allowed = False, cutoff_us = 0, reason = NoSourceRows\<rparr>
      | Some day0 \<Rightarrow>
          (let per_table = map (\<lambda>t. (t, remote_receipts E dir t)) PRUNE_TABLES;
               common = filter (\<lambda>d. list_all (\<lambda>(_, rs). d \<in> fst ` set rs) per_table) (map fst (snd (hd per_table)))
           in if day0 \<notin> set common then \<lparr>allowed = False, cutoff_us = 0, reason = MissingRemoteCoverage\<rparr>
              else cutoff_loop (day_mismatch E s dir per_table) common day0))"

subsection \<open>Pruning\<close>

record prune_result =
  pr_deleted :: "(prune_table \<times> nat) list"
  pr_budget_hit :: bool
  pr_batches :: nat
  pr_blocked :: "block_reason option"

definition no_prune :: "block_reason option \<Rightarrow> prune_result" where
  "no_prune b = \<lparr>pr_deleted = [], pr_budget_hit = False, pr_batches = 0, pr_blocked = b\<rparr>"

text \<open>The first rows that qualify, in table order, and what stays.\<close>

fun delete_first :: "nat \<Rightarrow> int \<Rightarrow> src_row list \<Rightarrow> src_row list \<times> src_row list" where
  "delete_first n cut_us [] = ([], [])"
| "delete_first n cut_us (r # rs) =
     (if fst r < cut_us \<and> 0 < n then let (gone, kept) = delete_first (n - 1) cut_us rs in (r # gone, kept)
      else let (gone, kept) = delete_first n cut_us rs in (gone, r # kept))"

definition delete_older_than :: "prune_table \<Rightarrow> int \<Rightarrow> nat \<Rightarrow> source \<Rightarrow> src_row list \<times> source" where
  "delete_older_than t cut_us n s =
     (let (gone, kept) = delete_first n cut_us (rows_of t s) in (gone, set_rows t kept s))"

text \<open>What the environment does at a batch: the time since the start, the inserts of others before it, and
  whether the delete or the writing of the progress file fails.\<close>

datatype trouble = Fine | DeleteFails | ProgressFails

record tick =
  elapsed :: seconds
  others :: "source \<Rightarrow> source"
  trouble_of :: trouble
  stamp :: text_u

text \<open>The state of a run; \<open>gone\<close> only remembers what was deleted.\<close>

record prune_state =
  ps_src :: source
  ps_dir :: receipt_dir
  ps_deleted :: "(prune_table \<times> nat) list"
  ps_batches :: nat
  ps_count :: nat
  gone :: "(prune_table \<times> src_row) list"

text \<open>How one batch of a table ends: the next batch, the end of this table, or the end of the whole call.\<close>

datatype batch_end = Again | TableDone | Blocked block_reason | BudgetHit

text \<open>The cutoff and the day of a batch when the remote receipts count.\<close>

definition batch_bounds ::
  "retention_env \<Rightarrow> int option \<Rightarrow> int \<Rightarrow> bool \<Rightarrow> source \<Rightarrow> receipt_dir \<Rightarrow> batch_end + int \<times> int option" where
  "batch_bounds E floor_us limit_us some_deleted s dir =
     (let rc = get_cutoff E s dir in
      if \<not> allowed rc then
        (let r = (case (reason rc, floor_us, source_floor_day s) of
                   (MissingRemoteCoverage, Some fl, Some day) \<Rightarrow>
                     if day_start_us day < fl then SourceFloorChanged else MissingRemoteCoverage
                 | (x, _, _) \<Rightarrow> x)
         in if r = NoSourceRows \<and> some_deleted then Inl TableDone else Inl (Blocked r))
      else let c1 = min limit_us (cutoff_us rc) in
        (case source_floor_day s of
           None \<Rightarrow> Inr (c1, None)
         | Some day \<Rightarrow> Inr (min c1 (snd (day_bounds_us day)), Some day)))"

definition prune_batch ::
  "retention_env \<Rightarrow> bool \<Rightarrow> rat option \<Rightarrow> int option \<Rightarrow> int \<Rightarrow> prune_table \<Rightarrow> tick \<Rightarrow> prune_state \<Rightarrow> batch_end \<times> prune_state" where
  "prune_batch E remote budget_s floor_us limit_us t tk st0 =
     (let st = st0\<lparr>ps_src := others tk (ps_src st0)\<rparr> in
      if (case budget_s of None \<Rightarrow> False | Some b \<Rightarrow> b \<le> elapsed tk) then (BudgetHit, st)
      else case (if remote then batch_bounds E floor_us limit_us (ps_deleted st \<noteq> []) (ps_src st) (ps_dir st)
                 else Inr (limit_us, None)) of
        Inl e \<Rightarrow> (e, st)
      | Inr (cut_us, day) \<Rightarrow>
          if trouble_of tk = DeleteFails then (TableDone, st)
          else let (dead, src1) = delete_older_than t cut_us DELETE_BATCH (ps_src st);
                   st1 = st\<lparr>ps_src := src1, gone := gone st @ map (Pair t) dead\<rparr>;
                   mark = (case day of None \<Rightarrow> False | Some d \<Rightarrow> dead \<noteq> [])
            in if mark \<and> trouble_of tk = ProgressFails then (TableDone, st1)
               else let st2 = (case day of None \<Rightarrow> st1
                          | Some d \<Rightarrow> if dead = [] then st1
                              else st1\<lparr>ps_dir := write_progress E t d (source_day_proof E src1 t d) (stamp tk) (ps_dir st1)\<rparr>);
                        st3 = st2\<lparr>ps_batches := ps_batches st2 + 1, ps_count := ps_count st2 + length dead\<rparr>
                 in (if dead = [] \<or> length dead < DELETE_BATCH then TableDone else Again, st3))"

text \<open>The batches of one table, as long as the ticks last (\<open>None\<close>: the process is gone).\<close>

fun prune_one where
  "prune_one E remote budget_s floor_us limit_us t [] st = (None, [], st)"
| "prune_one E remote budget_s floor_us limit_us t (tk # tks) st =
     (case prune_batch E remote budget_s floor_us limit_us t tk st of
        (Again, st1) \<Rightarrow> prune_one E remote budget_s floor_us limit_us t tks st1
      | (e, st1) \<Rightarrow> (Some e, tks, st1))"

definition note_deleted :: "prune_table \<Rightarrow> prune_state \<Rightarrow> prune_state" where
  "note_deleted t st = (if ps_count st = 0 then st else st\<lparr>ps_deleted := ps_deleted st @ [(t, ps_count st)]\<rparr>)"

definition result_of :: "bool \<Rightarrow> block_reason option \<Rightarrow> prune_state \<Rightarrow> prune_result" where
  "result_of hit b st = \<lparr>pr_deleted = ps_deleted st, pr_budget_hit = hit, pr_batches = ps_batches st, pr_blocked = b\<rparr>"

fun prune_tables where
  "prune_tables E remote budget_s floor_us limit_us [] tks st = (Some (result_of False None st), tks, st)"
| "prune_tables E remote budget_s floor_us limit_us (t # ts) tks st =
     (case prune_one E remote budget_s floor_us limit_us t tks (st\<lparr>ps_count := 0\<rparr>) of
        (None, tks1, st1) \<Rightarrow> (None, tks1, st1)
      | (Some (Blocked r), tks1, st1) \<Rightarrow> (Some (result_of False (Some r) st1), tks1, st1)
      | (Some BudgetHit, tks1, st1) \<Rightarrow>
          (let st2 = note_deleted t st1 in (Some (result_of True None st2), tks1, st2))
      | (Some _, tks1, st1) \<Rightarrow> prune_tables E remote budget_s floor_us limit_us ts tks1 (note_deleted t st1))"

text \<open>\<^verbatim>\<open>int(x) * 1_000_000\<close> of a time in seconds truncates towards zero.\<close>

definition trunc :: "rat \<Rightarrow> int" where "trunc x = (if 0 \<le> x then \<lfloor>x\<rfloor> else - \<lfloor>- x\<rfloor>)"

definition cutoff_for :: "rat \<Rightarrow> rat \<Rightarrow> int" where
  "cutoff_for retention_days now_s = trunc (now_s - retention_days * 86400) * 1000000"

definition prune ::
  "retention_env \<Rightarrow> rat \<Rightarrow> rat \<Rightarrow> rat option \<Rightarrow> int option \<Rightarrow> receipt_dir option \<Rightarrow> bool \<Rightarrow> tick list \<Rightarrow> source
    \<Rightarrow> prune_result option \<times> prune_state" where
  "prune E retention_days now_s budget_s floor_us receipts allow_local tks s =
     (let st0 = \<lparr>ps_src = s, ps_dir = (case receipts of None \<Rightarrow> [] | Some d \<Rightarrow> d), ps_deleted = [], ps_batches = 0,
                 ps_count = 0, gone = []\<rparr>;
          remote = (receipts \<noteq> None) in
      if retention_days \<le> 0 then (Some (no_prune None), st0)
      else if floor_us \<noteq> None \<and> \<not> remote \<and> \<not> allow_local then (Some (no_prune (Some MissingRemoteCoverage)), st0)
      else case floor_us of
        Some fl \<Rightarrow>
          if fl \<le> 0 then (Some (no_prune (if remote then Some MissingRemoteCoverage else None)), st0)
          else let (r, _, st) = prune_tables E remote budget_s floor_us (min (cutoff_for retention_days now_s) fl) PRUNE_TABLES tks st0
               in (r, st)
      | None \<Rightarrow>
          (let (r, _, st) = prune_tables E remote budget_s floor_us (cutoff_for retention_days now_s) PRUNE_TABLES tks st0
           in (r, st)))"

text \<open>What would be deleted, without deleting.\<close>

definition plan_batches :: "nat \<Rightarrow> nat" where "plan_batches doomed = (doomed + DELETE_BATCH - 1) div DELETE_BATCH"

definition prune_plan :: "rat \<Rightarrow> rat \<Rightarrow> source \<Rightarrow> (prune_table \<times> nat \<times> nat \<times> nat \<times> nat) list" where
  "prune_plan retention_days now_s s =
     (let cut_us = (if 0 < retention_days then cutoff_for retention_days now_s else 0) in
      map (\<lambda>t. let n = length (rows_of t s);
                  doomed = (if 0 < retention_days then length (filter (\<lambda>r. fst r < cut_us) (rows_of t s)) else 0)
              in (t, n, doomed, n - doomed, plan_batches doomed)) PRUNE_TABLES)"

subsection \<open>Only archived rows are deleted\<close>

text \<open>
  \<open>arc t day\<close> is the set of contents that the remote archive holds for a day, each a list of CSV lines.
  A part of it is a list whose lines all come from one of them, each no more often than there. The
  digest binds when no other list of lines has the digest of such a part.
\<close>

type_synonym archive = "prune_table \<Rightarrow> int \<Rightarrow> text_u list set"

definition archived_part :: "archive \<Rightarrow> prune_table \<Rightarrow> int \<Rightarrow> text_u list \<Rightarrow> bool" where
  "archived_part arc t day ls \<longleftrightarrow> (\<exists>c \<in> arc t day. mset ls \<subseteq># mset c)"

definition digest_binds :: "retention_env \<Rightarrow> archive \<Rightarrow> bool" where
  "digest_binds E arc \<longleftrightarrow> (\<forall>t day ls ls'. archived_part arc t day ls
     \<longrightarrow> content_sha E (table_name t) ls' = content_sha E (table_name t) ls \<longrightarrow> ls' = ls)"

definition env_ok :: "retention_env \<Rightarrow> bool" where
  "env_ok E \<longleftrightarrow> (\<forall>d. day_of_text E (text_of_day E d) = Some d) \<and> (\<forall>xs. mset (select_order E xs) = mset xs)"

text \<open>A verified receipt carries the digest of the archived content; a progress file the digest of a part.\<close>

definition file_ok :: "retention_env \<Rightarrow> archive \<Rightarrow> json \<Rightarrow> bool" where
  "file_ok E arc j \<longleftrightarrow>
     (\<forall>t r. strict_receipt E j t = Some r \<longrightarrow> dr_sha r \<in> content_sha E (table_name t) ` arc t (dr_day r))
     \<and> (\<forall>d t day. j = JObj d \<longrightarrow> get_key d ''table'' = JStr (table_name t) \<longrightarrow> get_key d ''day'' = JStr (text_of_day E day)
         \<longrightarrow> is_sha256 (get_key d ''remaining_content_sha256'')
         \<longrightarrow> (\<exists>ls. archived_part arc t day ls \<and> get_key d ''remaining_content_sha256'' = JStr (content_sha E (table_name t) ls)))"

definition dir_ok :: "retention_env \<Rightarrow> archive \<Rightarrow> receipt_dir \<Rightarrow> bool" where
  "dir_ok E arc dir \<longleftrightarrow> (\<forall>n j. (n, Some j) \<in> set dir \<longrightarrow> file_ok E arc j)"

lemma table_name_inject [simp]: "table_name t = table_name t' \<longleftrightarrow> t = t'"
  by (cases t; cases t') (simp_all add: asc_def)

lemma text_of_day_inject: "env_ok E \<Longrightarrow> text_of_day E d = text_of_day E d' \<longleftrightarrow> d = d'"
  by (metis env_ok_def option.inject)

lemma remote_receipts_ok:
  assumes "dir_ok E arc dir" "map_of (remote_receipts E dir t) day = Some r"
  shows "dr_day r = day \<and> dr_sha r \<in> content_sha E (table_name t) ` arc t day"
proof -
  let ?P = "\<lambda>m. \<forall>k r. map_of m k = Some r \<longrightarrow> dr_day r = k \<and> dr_sha r \<in> content_sha E (table_name t) ` arc t k"
  let ?f = "\<lambda>(n, c) m. if \<not> ends_json n then m
        else case c of None \<Rightarrow> m
          | Some j \<Rightarrow> (case strict_receipt E j t of None \<Rightarrow> m | Some r \<Rightarrow> AList.update (dr_day r) r m)"
  have run: "?P (fold ?f fs m)" if "dir_ok E arc fs" "?P m" for fs m
    using that
  proof (induction fs arbitrary: m)
    case (Cons p fs)
    obtain n c where p: "p = (n, c)" by (cases p)
    have stepped: "?P (?f p m)"
    proof (cases "\<exists>j r. ends_json n \<and> c = Some j \<and> strict_receipt E j t = Some r")
      case True
      then obtain j r where j: "ends_json n" "c = Some j" "strict_receipt E j t = Some r" by blast
      then have "file_ok E arc j" using Cons.prems(1) by (simp add: dir_ok_def p)
      then have "dr_sha r \<in> content_sha E (table_name t) ` arc t (dr_day r)" using j(3) by (simp add: file_ok_def)
      then show ?thesis using Cons.prems(2) j by (simp add: p update_conv')
    next
      case False
      then have "?f p m = m" by (auto simp: p split: option.split)
      then show ?thesis using Cons.prems(2) by simp
    qed
    have "dir_ok E arc fs" using Cons.prems(1) by (auto simp: dir_ok_def)
    from Cons.IH [OF this stepped] show ?case unfolding fold_simps o_apply .
  qed simp
  have "?P (remote_receipts E dir t)" unfolding remote_receipts_def by (rule run [OF assms(1)]) simp
  then show ?thesis using assms(2) by blast
qed

lemma read_progressD:
  assumes "read_progress E dir t day = Some (pn, psha)"
  shows "\<exists>d. (progress_path E t day, Some (JObj d)) \<in> set dir \<and> get_key d ''table'' = JStr (table_name t)
    \<and> get_key d ''day'' = JStr (text_of_day E day) \<and> is_sha256 psha \<and> get_key d ''remaining_content_sha256'' = psha"
  using assms by (auto simp: read_progress_def Let_def split: option.splits json.splits if_splits dest: map_of_SomeD)

lemma source_matches_archived:
  assumes "digest_binds E arc" "dir_ok E arc dir" "source_matches E s dir t r = None"
    and "dr_sha r \<in> content_sha E (table_name t) ` arc t (dr_day r)"
  shows "archived_part arc t (dr_day r) (map snd (day_rows E s t (dr_day r)))"
proof -
  let ?ls = "map snd (day_rows E s t (dr_day r))"
  have "\<exists>ls. archived_part arc t (dr_day r) ls \<and> content_sha E (table_name t) ?ls = content_sha E (table_name t) ls"
  proof (cases "read_progress E dir t (dr_day r)")
    case None
    from assms(4) obtain c where c: "c \<in> arc t (dr_day r)" "dr_sha r = content_sha E (table_name t) c" by blast
    with None show ?thesis using assms(3)
      by (intro exI [of _ c])
        (auto simp: source_matches_def source_day_proof_def Let_def archived_part_def split: if_splits)
  next
    case (Some p)
    obtain pn psha where p: "p = (pn, psha)" by (cases p)
    from read_progressD [OF Some [unfolded p]] obtain d where d: "(progress_path E t (dr_day r), Some (JObj d)) \<in> set dir"
      "get_key d ''table'' = JStr (table_name t)" "get_key d ''day'' = JStr (text_of_day E (dr_day r))"
      "is_sha256 psha" "get_key d ''remaining_content_sha256'' = psha" by blast
    then have "\<exists>ls. archived_part arc t (dr_day r) ls \<and> psha = JStr (content_sha E (table_name t) ls)"
      using assms(2) unfolding dir_ok_def file_ok_def by blast
    moreover have "psha = JStr (content_sha E (table_name t) ?ls)"
      using assms(3) Some p by (auto simp: source_matches_def source_day_proof_def Let_def split: if_splits)
    ultimately show ?thesis by auto
  qed
  then show ?thesis using assms(1) unfolding digest_binds_def by metis
qed

lemma day_bounds_iff: "fst (day_bounds_us day) \<le> ts \<and> ts < snd (day_bounds_us day) \<longleftrightarrow> day_of_us ts = day"
proof -
  have "0 \<le> ts mod DAY_US" "ts mod DAY_US < DAY_US" by (simp_all add: DAY_US_def)
  then have "ts div DAY_US * DAY_US \<le> ts \<and> ts < ts div DAY_US * DAY_US + DAY_US"
    using div_mult_mod_eq [of ts DAY_US] by linarith
  moreover have "ts div DAY_US = day" if "day * DAY_US \<le> ts" "ts < day * DAY_US + DAY_US"
    by (rule int_div_pos_eq [of ts DAY_US day "ts - day * DAY_US"]) (use that in \<open>simp_all add: algebra_simps\<close>)
  ultimately show ?thesis
    by (auto simp: day_bounds_us_def day_start_us_def day_of_us_def)
qed

lemma mset_day_rows:
  assumes "env_ok E"
  shows "mset (day_rows E s t day) = filter_mset (\<lambda>r. day_of_us (fst r) = day) (mset (rows_of t s))"
  using assms day_bounds_iff [of day]
  by (simp add: day_rows_def env_ok_def Let_def split_beta mset_filter)

lemma source_floor_le:
  assumes "source_floor_day s = Some day" "row \<in> set (rows_of t s)"
  shows "day \<le> day_of_us (fst row)"
proof -
  have t: "t \<in> set (filter (\<lambda>t. rows_of t s \<noteq> []) PRUNE_TABLES)"
    using assms(2) by (cases t) (auto simp: PRUNE_TABLES_def)
  then have "day \<le> day_of_us (Min (fst ` set (rows_of t s)))"
    using assms(1) by (auto simp: source_floor_day_def Let_def split: if_splits intro!: Min_le)
  also have "\<dots> \<le> day_of_us (fst row)"
    using assms(2) by (auto simp: day_of_us_def DAY_US_def intro!: zdiv_mono1 Min_le)
  finally show ?thesis .
qed

lemma cutoff_loop_first:
  "allowed (cutoff_loop m common day) \<Longrightarrow> day \<in> set common \<Longrightarrow> m day = None"
  by (subst (asm) cutoff_loop.simps) (auto split: option.splits)

lemma get_cutoff_archived:
  assumes "digest_binds E arc" "dir_ok E arc dir" "allowed (get_cutoff E s dir)"
  shows "\<exists>day. source_floor_day s = Some day \<and> (\<forall>t. archived_part arc t day (map snd (day_rows E s t day)))"
proof -
  let ?pt = "map (\<lambda>t. (t, remote_receipts E dir t)) PRUNE_TABLES"
  from assms(3) obtain day where day: "source_floor_day s = Some day"
    by (auto simp: get_cutoff_def split: option.splits)
  with assms(3) have none: "day_mismatch E s dir ?pt day = None"
    by (auto simp: get_cutoff_def Let_def simp del: set_filter set_map split: if_splits dest!: cutoff_loop_first)
  have "archived_part arc t day (map snd (day_rows E s t day))" for t
  proof -
    from none obtain r where r: "map_of (remote_receipts E dir t) day = Some r" "source_matches E s dir t r = None"
      by (cases t) (auto simp: day_mismatch_def PRUNE_TABLES_def split: option.splits)
    from remote_receipts_ok [OF assms(2) r(1)] source_matches_archived [OF assms(1,2) r(2)] show ?thesis by simp
  qed
  with day show ?thesis by blast
qed

lemma delete_first_spec:
  "delete_first n c rs = (dead, kept) \<Longrightarrow>
    mset rs = mset dead + mset kept \<and> (\<forall>r \<in> set dead. fst r < c) \<and> length dead \<le> n
    \<and> (length dead < n \<longrightarrow> (\<forall>r \<in> set kept. c \<le> fst r))"
proof (induction n c rs arbitrary: dead kept rule: delete_first.induct)
  case (2 n c r rs)
  show ?case
  proof (cases "fst r < c \<and> 0 < n")
    case True
    obtain g k where gk: "delete_first (n - 1) c rs = (g, k)" by fastforce
    with "2.IH"(1) [OF True gk] "2.prems" True show ?thesis by auto
  next
    case False
    obtain g k where gk: "delete_first n c rs = (g, k)" by fastforce
    from "2.IH"(2) [OF False gk] "2.prems" False gk show ?thesis by auto
  qed
qed simp

lemma rows_of_set_rows [simp]: "rows_of t (set_rows t rs s) = rs"
  by (cases t) simp_all

lemma delete_spec:
  assumes "delete_older_than t c n s = (dead, s1)"
  shows "mset (rows_of t s) = mset dead + mset (rows_of t s1)" "\<forall>r \<in> set dead. fst r < c" "length dead \<le> n"
    "length dead < n \<Longrightarrow> \<forall>r \<in> set (rows_of t s1). c \<le> fst r"
  using assms delete_first_spec [of n c "rows_of t s"]
  by (auto simp: delete_older_than_def Let_def split: prod.splits)

lemma archived_part_mono:
  "archived_part arc t day ls \<Longrightarrow> mset ls' \<subseteq># mset ls \<Longrightarrow> archived_part arc t day ls'"
  unfolding archived_part_def by (meson subset_mset.order_trans)

lemma day_rows_after_delete:
  assumes "env_ok E" "delete_older_than t c n s = (dead, s1)"
  shows "mset (map snd (day_rows E s1 t day)) \<subseteq># mset (map snd (day_rows E s t day))"
  using delete_spec(1) [OF assms(2)]
  by (auto simp: mset_day_rows [OF assms(1)] intro!: image_mset_subseteq_mono multiset_filter_mono)

lemma update_memD: "(n, c) \<in> set (AList.update k v al) \<Longrightarrow> (n, c) = (k, v) \<or> (n, c) \<in> set al"
  by (induction al) (auto split: if_splits)

lemma dir_ok_write_progress:
  assumes "env_ok E" "dir_ok E arc dir" "archived_part arc t day (map snd (day_rows E s t day))"
  shows "dir_ok E arc (write_progress E t day (source_day_proof E s t day) upd dir)"
proof -
  have "file_ok E arc (progress_json E t day (source_day_proof E s t day) upd)"
    using assms(3) text_of_day_inject [OF assms(1)]
    by (auto simp: file_ok_def progress_json_def strict_receipt_def get_key_def obj_get_def asc_def source_day_proof_def Let_def)
  then show ?thesis using assms(2) by (auto simp: dir_ok_def write_progress_def dest!: update_memD)
qed

text \<open>The invariant of a run with remote receipts.\<close>

definition archived_row :: "archive \<Rightarrow> int \<Rightarrow> prune_table \<times> src_row \<Rightarrow> bool" where
  "archived_row arc limit_us p \<longleftrightarrow>
     snd (snd p) \<in> \<Union> (set ` arc (fst p) (day_of_us (fst (snd p)))) \<and> fst (snd p) < limit_us"

definition prune_safe :: "retention_env \<Rightarrow> archive \<Rightarrow> int \<Rightarrow> prune_state \<Rightarrow> bool" where
  "prune_safe E arc limit_us st \<longleftrightarrow> dir_ok E arc (ps_dir st)
     \<and> list_all (archived_row arc limit_us) (gone st)"

lemma batch_bounds_archived:
  assumes "digest_binds E arc" "dir_ok E arc dir" "batch_bounds E fl limit_us sd s dir = Inr (c, day)"
  shows "\<exists>d. day = Some d \<and> source_floor_day s = Some d \<and> c \<le> limit_us \<and> c \<le> snd (day_bounds_us d)
    \<and> (\<forall>t. archived_part arc t d (map snd (day_rows E s t d)))"
proof -
  have "allowed (get_cutoff E s dir)" using assms(3) by (auto simp: batch_bounds_def Let_def split: if_splits)
  from get_cutoff_archived [OF assms(1,2) this] obtain d where
    "source_floor_day s = Some d" "\<forall>t. archived_part arc t d (map snd (day_rows E s t d))" by blast
  with assms(3) show ?thesis by (auto simp: batch_bounds_def Let_def split: if_splits)
qed

lemma prune_batch_safe:
  assumes env: "env_ok E" "digest_binds E arc" and safe: "prune_safe E arc limit_us st0"
    and batch: "prune_batch E True budget fl limit_us t tk st0 = (e, st)"
  shows "prune_safe E arc limit_us st"
proof -
  define st1 where "st1 = st0\<lparr>ps_src := others tk (ps_src st0)\<rparr>"
  have safe1: "prune_safe E arc limit_us st1" using safe by (simp add: prune_safe_def st1_def)
  let ?bb = "batch_bounds E fl limit_us (ps_deleted st1 \<noteq> []) (ps_src st1) (ps_dir st1)"
  obtain dead src1 where del: "delete_older_than t (fst (projr ?bb)) DELETE_BATCH (ps_src st1) = (dead, src1)"
    by fastforce
  show ?thesis
  proof (cases "\<exists>c d. ?bb = Inr (c, d)")
    case False
    then obtain x where "?bb = Inl x" by (cases ?bb) auto
    with batch safe1 show ?thesis
      by (auto simp: prune_batch_def Let_def simp flip: st1_def split: if_splits)
  next
    case True
    then obtain c d' where bb: "?bb = Inr (c, d')" by blast
    have dir: "dir_ok E arc (ps_dir st1)" using safe1 by (simp add: prune_safe_def)
    from batch_bounds_archived [OF env(2) dir bb] obtain d where d: "d' = Some d" "source_floor_day (ps_src st1) = Some d"
      "c \<le> limit_us" "c \<le> snd (day_bounds_us d)"
      "\<And>t. archived_part arc t d (map snd (day_rows E (ps_src st1) t d))" by blast
    have del': "delete_older_than t c DELETE_BATCH (ps_src st1) = (dead, src1)" using del bb by simp
    note spec = delete_spec [OF del']
    have "archived_row arc limit_us (t, row)" if "row \<in> set dead" for row
    proof -
      have row: "row \<in> set (rows_of t (ps_src st1))" "fst row < c"
        using that spec(1,2) by (auto simp flip: set_mset_mset)
      have lo: "d \<le> day_of_us (fst row)" by (rule source_floor_le [OF d(2) row(1)])
      have "fst (day_bounds_us d) \<le> fst (day_bounds_us (day_of_us (fst row)))"
        using lo by (simp add: day_bounds_us_def day_start_us_def DAY_US_def)
      also have "\<dots> \<le> fst row" using day_bounds_iff [of "day_of_us (fst row)" "fst row"] by simp
      finally have day: "day_of_us (fst row) = d"
        using row(2) d(4) day_bounds_iff [of d "fst row"] by simp
      have "row \<in># mset (day_rows E (ps_src st1) t d)" using row(1) day by (simp add: mset_day_rows [OF env(1)])
      then have "snd row \<in># mset (map snd (day_rows E (ps_src st1) t d))" by auto
      then have "snd row \<in> \<Union> (set ` arc t d)"
        using d(5) [of t] unfolding archived_part_def by (metis UN_iff mset_subset_eqD set_mset_mset)
      then show ?thesis using day row(2) d(3) by (simp add: archived_row_def)
    qed
    then have dead: "list_all (archived_row arc limit_us) (map (Pair t) dead)" by (auto simp: list_all_iff)
    have part: "archived_part arc t d (map snd (day_rows E src1 t d))"
      by (rule archived_part_mono [OF d(5) day_rows_after_delete [OF env(1) del']])
    have dir1: "dir_ok E arc (write_progress E t d (source_day_proof E src1 t d) (stamp tk) (ps_dir st1))"
      by (rule dir_ok_write_progress [OF env(1) dir part])
    show ?thesis using batch safe1 dead dir1 d(1)
      by (auto simp: prune_batch_def Let_def bb del' prune_safe_def simp flip: st1_def split: if_splits)
  qed
qed

lemma prune_one_safe:
  assumes "env_ok E" "digest_binds E arc"
  shows "prune_safe E arc limit_us st \<Longrightarrow>
    prune_safe E arc limit_us (snd (snd (prune_one E True budget fl limit_us t tks st)))"
proof (induction tks arbitrary: st)
  case (Cons tk tks)
  obtain e st1 where b: "prune_batch E True budget fl limit_us t tk st = (e, st1)" by fastforce
  then have "prune_safe E arc limit_us st1" by (rule prune_batch_safe [OF assms Cons.prems])
  then show ?case using Cons.IH [of st1] b by (cases e) simp_all
qed simp

lemma prune_safe_sel [simp]:
  "prune_safe E arc limit_us (st\<lparr>ps_count := n\<rparr>) = prune_safe E arc limit_us st"
  "prune_safe E arc limit_us (note_deleted t st) = prune_safe E arc limit_us st"
  by (simp_all add: prune_safe_def note_deleted_def)

lemma prune_tables_safe:
  assumes "env_ok E" "digest_binds E arc"
  shows "prune_safe E arc limit_us st \<Longrightarrow>
    prune_safe E arc limit_us (snd (snd (prune_tables E True budget fl limit_us ts tks st)))"
proof (induction ts arbitrary: st tks)
  case (Cons t ts)
  obtain e tks1 st1 where one: "prune_one E True budget fl limit_us t tks (st\<lparr>ps_count := 0\<rparr>) = (e, tks1, st1)"
    by (cases "prune_one E True budget fl limit_us t tks (st\<lparr>ps_count := 0\<rparr>)")
  have "prune_safe E arc limit_us st1"
    using prune_one_safe [OF assms, of limit_us "st\<lparr>ps_count := 0\<rparr>" budget fl t tks] Cons.prems one by simp
  then show ?case using Cons.IH one by (auto simp: Let_def split: option.splits batch_end.splits)
qed simp

lemma prune_run_safe:
  assumes "env_ok E" "digest_binds E arc" "dir_ok E arc dir"
  shows "prune_safe E arc (case floor_us of None \<Rightarrow> cutoff_for retention_days now_s | Some fl \<Rightarrow> min (cutoff_for retention_days now_s) fl)
    (snd (prune E retention_days now_s budget_s floor_us (Some dir) allow_local tks s))"
proof -
  let ?st0 = "\<lparr>ps_src = s, ps_dir = dir, ps_deleted = [], ps_batches = 0, ps_count = 0, gone = []\<rparr>"
  have init: "prune_safe E arc l ?st0" for l using assms(3) by (simp add: prune_safe_def)
  have "prune_safe E arc l (snd (snd (prune_tables E True budget_s floor_us l PRUNE_TABLES tks ?st0)))" for l
    by (rule prune_tables_safe [OF assms(1,2) init])
  with init show ?thesis by (auto simp: prune_def Let_def split_beta split: option.split)
qed

text \<open>
  Retention deletes only what the archive holds. Let every verified receipt carry the digest of
  an archived content of its day and let these digests bind. Then over any run of \<^verbatim>\<open>prune\<close> with
  remote receipts, whatever others insert between the batches, whichever statements fail and wherever
  the run is cut off, every deleted row is a line of the archive of its own day, older than the
  retention limit and than the archive floor; and the directory is again one the next run can trust.
\<close>

theorem prune_only_archived:
  assumes "env_ok E" "digest_binds E arc" "dir_ok E arc dir"
  shows "let st = snd (prune E retention_days now_s budget_s floor_us (Some dir) allow_local tks s) in
    dir_ok E arc (ps_dir st)
    \<and> list_all (\<lambda>(t, ts, line). line \<in> \<Union> (set ` arc t (day_of_us ts)) \<and> ts < cutoff_for retention_days now_s
        \<and> (case floor_us of None \<Rightarrow> True | Some fl \<Rightarrow> ts < fl)) (gone st)"
proof -
  note ok = prune_run_safe [OF assms, of retention_days now_s floor_us budget_s allow_local tks s, unfolded prune_safe_def]
  show ?thesis unfolding Let_def
    by (rule conjI [OF conjunct1 [OF ok]], rule list.pred_mono_strong [OF conjunct2 [OF ok]])
      (auto simp: archived_row_def split: option.splits)
qed

text \<open>A small world for the witnesses: one line a day, and a digest that tells the archived contents apart.\<close>

definition demo_sha :: "text_u \<Rightarrow> text_u list \<Rightarrow> text_u" where
  "demo_sha t ls = replicate 64 (if ls = [] then 48 else if ls = [[65]] then 49 else 50)"

definition demo_day_text :: "int \<Rightarrow> text_u" where
  "demo_day_text d = (if 0 \<le> d then [48, nat d] else [45, nat (- d)])"

definition demo_text_day :: "text_u \<Rightarrow> int option" where
  "demo_text_day s = (if length s = 2 then Some (if s ! 0 = 48 then int (s ! 1) else - int (s ! 1)) else None)"

definition demo_env :: retention_env where
  "demo_env = \<lparr>day_of_text = demo_text_day, text_of_day = demo_day_text,
     content_sha = demo_sha, select_order = id\<rparr>"

definition demo_receipt :: "prune_table \<Rightarrow> int \<Rightarrow> json" where
  "demo_receipt t day =
     JObj [(asc ''schema_version'', JNum 1), (asc ''status'', JStr (asc ''verified'')), (asc ''table'', JStr (table_name t)),
       (asc ''day'', JStr (demo_day_text day)), (asc ''local_sha256'', JStr (replicate 64 48)),
       (asc ''remote_fetch_sha256'', JStr (replicate 64 48)), (asc ''manifest_sha256'', JStr (replicate 64 48)),
       (asc ''remote_manifest_sha256'', JStr (replicate 64 48)), (asc ''source_content_sha256'', JStr (demo_sha [] [[65]])),
       (asc ''local_bytes'', JNum 1), (asc ''remote_fetch_bytes'', JNum 1), (asc ''local_rows'', JNum 1),
       (asc ''remote_fetch_rows'', JNum 1), (asc ''source_rows'', JNum 1), (asc ''source_table'', JStr (table_name t)),
       (asc ''source_day'', JStr (demo_day_text day)), (asc ''source_from_us'', JNum (day_start_us day)),
       (asc ''source_to_us'', JNum (day_start_us day + DAY_US)), (asc ''object_id'', JStr [65])]"

definition demo_dir :: receipt_dir where
  "demo_dir = [(asc ''a.json'', Some (demo_receipt Trades 0)), (asc ''b.json'', Some (demo_receipt BookTop 0))]"

lemma demo_receipt_read:
  "strict_receipt demo_env (demo_receipt t day) t' =
    (if t' = t then Some \<lparr>dr_day = day, dr_rows = 1, dr_sha = demo_sha [] [[65]]\<rparr> else None)"
  by (cases t; cases t') (simp_all add: strict_receipt_def demo_receipt_def demo_env_def get_key_def obj_get_def asc_def
      is_sha256_def demo_sha_def demo_day_text_def demo_text_day_def lower_ascii_def list_all_iff positive_int_def day_bounds_us_def)

definition demo_archive :: archive where "demo_archive t day = (if day = 0 then {[[65]]} else {})"

lemma demo_env_ok: "env_ok demo_env"
  by (simp add: env_ok_def demo_env_def demo_day_text_def demo_text_day_def)

lemma demo_binds: "digest_binds demo_env demo_archive"
proof -
  have part: "ls = [] \<or> ls = [[65]]" if "archived_part demo_archive t day ls" for t day ls
  proof (cases ls)
    case (Cons x xs)
    have sub: "mset ls \<subseteq># {#[65]#}" using that by (auto simp: archived_part_def demo_archive_def split: if_splits)
    from size_mset_mono [OF this] sub Cons show ?thesis by simp
  qed simp
  have "ls' = ls" if p: "archived_part demo_archive t day ls" and d: "demo_sha n ls' = demo_sha n ls" for t day ls ls' n
    using part [OF p] d by (auto simp: demo_sha_def split: if_splits)
  then show ?thesis by (simp add: digest_binds_def demo_env_def)
qed

lemma demo_dir_ok: "dir_ok demo_env demo_archive demo_dir"
proof -
  have "file_ok demo_env demo_archive (demo_receipt t 0)" for t
    unfolding file_ok_def
  proof (intro conjI allI impI)
    fix t' r assume "strict_receipt demo_env (demo_receipt t 0) t' = Some r"
    then have "r = \<lparr>dr_day = 0, dr_rows = 1, dr_sha = demo_sha [] [[65]]\<rparr>"
      by (simp add: demo_receipt_read split: if_splits)
    then show "dr_sha r \<in> content_sha demo_env (table_name t') ` demo_archive t' (dr_day r)"
      by (simp add: demo_archive_def demo_env_def demo_sha_def)
  next
    fix d t' day
    assume "demo_receipt t 0 = JObj d" "is_sha256 (get_key d ''remaining_content_sha256'')"
    then show "\<exists>ls. archived_part demo_archive t' day ls
        \<and> get_key d ''remaining_content_sha256'' = JStr (content_sha demo_env (table_name t') ls)"
      by (auto simp: demo_receipt_def get_key_def obj_get_def asc_def is_sha256_def)
  qed
  then show ?thesis by (auto simp: dir_ok_def demo_dir_def)
qed

definition demo_source :: source where
  "demo_source = \<lparr>src_trades = [(5, [65]), (DAY_US * 3, [66])], src_book = [(6, [65])]\<rparr>"

definition demo_tick :: tick where "demo_tick = \<lparr>elapsed = 0, others = id, trouble_of = Fine, stamp = []\<rparr>"

theorem prune_only_archived_witness:
  "let st = snd (prune demo_env 1 300000 None None (Some demo_dir) False [demo_tick, demo_tick] demo_source) in
    dir_ok demo_env demo_archive (ps_dir st)
    \<and> list_all (\<lambda>(t, ts, line). line \<in> \<Union> (set ` demo_archive t (day_of_us ts)) \<and> ts < cutoff_for 1 300000) (gone st)"
  using prune_only_archived [OF demo_env_ok demo_binds demo_dir_ok, of 1 300000 None None False "[demo_tick, demo_tick]" demo_source]
  by simp
subsection \<open>A call ends\<close>

definition quiet :: "tick \<Rightarrow> bool" where "quiet tk \<longleftrightarrow> others tk = id \<and> trouble_of tk = Fine"

lemma rows_of_other [simp]: "t' \<noteq> t \<Longrightarrow> rows_of t' (set_rows t rs s) = rows_of t' s"
  by (cases t; cases t') simp_all

lemma delete_other: "delete_older_than t c n s = (dead, s1) \<Longrightarrow> t' \<noteq> t \<Longrightarrow> rows_of t' s1 = rows_of t' s"
  by (auto simp: delete_older_than_def Let_def split: prod.splits)

lemma delete_first_kept:
  "delete_first n c rs = (dead, kept) \<Longrightarrow> filter (\<lambda>r. c \<le> fst r) kept = filter (\<lambda>r. c \<le> fst r) rs"
  by (induction n c rs arbitrary: dead kept rule: delete_first.induct) (auto simp: Let_def split: prod.splits if_splits)

lemma delete_kept:
  "delete_older_than t c n s = (dead, s1) \<Longrightarrow>
    filter (\<lambda>r. c \<le> fst r) (rows_of t s1) = filter (\<lambda>r. c \<le> fst r) (rows_of t s)"
  by (auto simp: delete_older_than_def Let_def dest: delete_first_kept split: prod.splits)

text \<open>A quiet batch leaves the other tables alone, and one that asks for another has removed a row.\<close>

lemma prune_batch_shrinks:
  assumes "quiet tk" "prune_batch E remote budget fl limit_us t tk st0 = (e, st)"
  shows "t' \<noteq> t \<Longrightarrow> rows_of t' (ps_src st) = rows_of t' (ps_src st0)"
    and "length (rows_of t (ps_src st)) \<le> length (rows_of t (ps_src st0))"
    and "e = Again \<Longrightarrow> length (rows_of t (ps_src st)) < length (rows_of t (ps_src st0))"
proof -
  have same: "st0\<lparr>ps_src := others tk (ps_src st0)\<rparr> = st0" using assms(1) by (simp add: quiet_def)
  consider "ps_src st = ps_src st0" "e \<noteq> Again"
    | c dead src1 where "delete_older_than t c DELETE_BATCH (ps_src st0) = (dead, src1)" "ps_src st = src1"
      "e = Again \<longrightarrow> dead \<noteq> []"
    using assms(2) unfolding prune_batch_def same Let_def
    by (auto split: if_splits sum.splits option.splits prod.splits simp: batch_bounds_def Let_def)
  then have "(t' \<noteq> t \<longrightarrow> rows_of t' (ps_src st) = rows_of t' (ps_src st0))
      \<and> length (rows_of t (ps_src st)) \<le> length (rows_of t (ps_src st0))
      \<and> (e = Again \<longrightarrow> length (rows_of t (ps_src st)) < length (rows_of t (ps_src st0)))"
  proof cases
    case 2
    from arg_cong [OF delete_spec(1) [OF 2(1)], of size] show ?thesis using 2 delete_other [OF 2(1)] by auto
  qed auto
  then show "t' \<noteq> t \<Longrightarrow> rows_of t' (ps_src st) = rows_of t' (ps_src st0)"
    "length (rows_of t (ps_src st)) \<le> length (rows_of t (ps_src st0))"
    "e = Again \<Longrightarrow> length (rows_of t (ps_src st)) < length (rows_of t (ps_src st0))" by blast+
qed

lemma prune_one_ends:
  "list_all quiet tks \<Longrightarrow> length (rows_of t (ps_src st)) < length tks \<Longrightarrow>
    prune_one E remote budget fl limit_us t tks st = (e, tks1, st1) \<Longrightarrow>
    e \<noteq> None \<and> list_all quiet tks1 \<and> (\<forall>t'. t' \<noteq> t \<longrightarrow> rows_of t' (ps_src st1) = rows_of t' (ps_src st))
    \<and> length tks \<le> length tks1 + length (rows_of t (ps_src st)) + 1"
proof (induction tks arbitrary: st)
  case (Cons tk tks)
  obtain x st2 where b: "prune_batch E remote budget fl limit_us t tk st = (x, st2)" by fastforce
  have q: "quiet tk" using Cons.prems(1) by simp
  note sh = prune_batch_shrinks [OF q b]
  show ?case
  proof (cases "x = Again")
    case True
    then have "length (rows_of t (ps_src st2)) < length tks" using sh(3) Cons.prems(2) by simp
    with Cons.IH [of st2] Cons.prems(1,3) b True sh(1,3) show ?thesis by fastforce
  next
    case False
    with Cons.prems b sh(1) show ?thesis by (cases x) auto
  qed
qed simp

lemma prune_tables_end:
  "list_all quiet tks \<Longrightarrow> distinct ts \<Longrightarrow> sum_list (map (\<lambda>t. length (rows_of t (ps_src st)) + 1) ts) \<le> length tks \<Longrightarrow>
    fst (prune_tables E remote budget fl limit_us ts tks st) \<noteq> None"
proof (induction ts arbitrary: tks st)
  case (Cons t ts)
  obtain e tks1 st1 where one: "prune_one E remote budget fl limit_us t tks (st\<lparr>ps_count := 0\<rparr>) = (e, tks1, st1)"
    by (cases "prune_one E remote budget fl limit_us t tks (st\<lparr>ps_count := 0\<rparr>)")
  have ends: "e \<noteq> None" "list_all quiet tks1" "\<forall>t'. t' \<noteq> t \<longrightarrow> rows_of t' (ps_src st1) = rows_of t' (ps_src st)"
    "length tks \<le> length tks1 + length (rows_of t (ps_src st)) + 1"
    using prune_one_ends [OF Cons.prems(1) _ one] Cons.prems(3) by auto
  have src: "ps_src (note_deleted t st1) = ps_src st1" by (simp add: note_deleted_def)
  have lens: "map (\<lambda>t. length (rows_of t (ps_src st1)) + 1) ts = map (\<lambda>t. length (rows_of t (ps_src st)) + 1) ts"
    using ends(3) Cons.prems(2) by auto
  have "sum_list (map (\<lambda>t. length (rows_of t (ps_src st1)) + 1) ts) \<le> length tks1"
    unfolding lens using ends(4) Cons.prems(3) by simp
  then have "fst (prune_tables E remote budget fl limit_us ts tks1 (note_deleted t st1)) \<noteq> None"
    using ends(2) Cons.prems(2) by (intro Cons.IH) (simp_all add: src)
  then show ?case using one ends(1) by (auto simp: Let_def split: batch_end.split)
qed simp

text \<open>Without remote receipts, budget and trouble the whole range goes and nothing else does.\<close>

lemma prune_one_complete:
  "list_all quiet tks \<Longrightarrow> length (rows_of t (ps_src st)) < length tks \<Longrightarrow>
    prune_one E False None fl limit_us t tks st = (e, tks1, st1) \<Longrightarrow>
    e = Some TableDone \<and> rows_of t (ps_src st1) = filter (\<lambda>r. limit_us \<le> fst r) (rows_of t (ps_src st))"
proof (induction tks arbitrary: st)
  case (Cons tk tks)
  have q: "quiet tk" using Cons.prems(1) by simp
  have same: "st\<lparr>ps_src := others tk (ps_src st)\<rparr> = st" using q by (simp add: quiet_def)
  obtain dead src1 where d: "delete_older_than t limit_us DELETE_BATCH (ps_src st) = (dead, src1)" by fastforce
  define st2 where "st2 = st\<lparr>ps_src := src1, gone := gone st @ map (Pair t) dead, ps_batches := ps_batches st + 1,
    ps_count := ps_count st + length dead\<rparr>"
  have b: "prune_batch E False None fl limit_us t tk st
      = (if dead = [] \<or> length dead < DELETE_BATCH then TableDone else Again, st2)"
    using q unfolding prune_batch_def same by (simp add: d quiet_def Let_def st2_def)
  note spec = delete_spec [OF d]
  show ?case
  proof (cases "dead = [] \<or> length dead < DELETE_BATCH")
    case True
    then have "length dead < DELETE_BATCH" by (auto simp: DELETE_BATCH_def)
    then have all: "\<forall>r \<in> set (rows_of t src1). limit_us \<le> fst r" by (rule spec(4))
    then have "rows_of t src1 = filter (\<lambda>r. limit_us \<le> fst r) (rows_of t src1)" by simp
    also have "\<dots> = filter (\<lambda>r. limit_us \<le> fst r) (rows_of t (ps_src st))" by (rule delete_kept [OF d])
    finally show ?thesis using Cons.prems(3) b True by (auto simp: st2_def)
  next
    case False
    have "length (rows_of t src1) < length tks"
      using arg_cong [OF spec(1), of size] Cons.prems(2) False by (cases dead) auto
    then show ?thesis using Cons.IH [of st2] Cons.prems(1,3) b False delete_kept [OF d] by (simp add: st2_def)
  qed
qed simp

lemma note_deleted_src [simp]: "ps_src (note_deleted t st) = ps_src st"
  by (simp add: note_deleted_def)

lemma prune_tables_complete:
  assumes "list_all quiet tks" "length (src_trades (ps_src st)) + length (src_book (ps_src st)) + 2 \<le> length tks"
    and "prune_tables E False None fl limit_us PRUNE_TABLES tks st = (r, tks1, st1)"
  shows "\<forall>t. rows_of t (ps_src st1) = filter (\<lambda>r. limit_us \<le> fst r) (rows_of t (ps_src st))"
proof -
  obtain e2 tks2 st2 where one: "prune_one E False None fl limit_us Trades tks (st\<lparr>ps_count := 0\<rparr>) = (e2, tks2, st2)"
    by (cases "prune_one E False None fl limit_us Trades tks (st\<lparr>ps_count := 0\<rparr>)")
  have l1: "length (rows_of Trades (ps_src (st\<lparr>ps_count := 0\<rparr>))) < length tks" using assms(2) by simp
  note c1 = prune_one_complete [OF assms(1) l1 one] and e1 = prune_one_ends [OF assms(1) l1 one]
  let ?st2 = "note_deleted Trades st2\<lparr>ps_count := 0\<rparr>"
  have src: "ps_src ?st2 = ps_src st2" by simp
  obtain e3 tks3 st3 where two: "prune_one E False None fl limit_us BookTop tks2 ?st2 = (e3, tks3, st3)"
    by (cases "prune_one E False None fl limit_us BookTop tks2 ?st2")
  have book: "rows_of BookTop (ps_src st2) = rows_of BookTop (ps_src st)"
    using conjunct1 [OF conjunct2 [OF conjunct2 [OF e1]], rule_format, of BookTop] by simp
  have q2: "list_all quiet tks2" using e1 by blast
  have l2: "length (rows_of BookTop (ps_src ?st2)) < length tks2" using e1 assms(2) book by (simp add: src)
  note c2 = prune_one_complete [OF q2 l2 two] and e2 = prune_one_ends [OF q2 l2 two]
  have "ps_src st1 = ps_src st3"
    using assms(3) conjunct1 [OF c1] conjunct1 [OF c2] by (auto simp: PRUNE_TABLES_def one two)
  moreover have "rows_of Trades (ps_src st3) = rows_of Trades (ps_src ?st2)"
    using conjunct1 [OF conjunct2 [OF conjunct2 [OF e2]], rule_format, of Trades] by simp
  moreover have "rows_of Trades (ps_src st2) = filter (\<lambda>r. limit_us \<le> fst r) (rows_of Trades (ps_src st))"
    using conjunct2 [OF c1] by simp
  moreover have "rows_of BookTop (ps_src st3) = filter (\<lambda>r. limit_us \<le> fst r) (rows_of BookTop (ps_src st))"
    using conjunct2 [OF c2] book unfolding src by simp
  ultimately show ?thesis unfolding src by (intro allI, case_tac t) simp_all
qed

text \<open>
  C40: a call of \<^verbatim>\<open>prune\<close> comes back. When nobody inserts meanwhile and no statement fails, one
  batch more than there are rows, for each table, is always enough for a result, in every mode; and
  a call without receipts, floor and budget has then deleted the rows older than the limit, all of
  them, and nothing else.
\<close>

theorem prune_returns:
  assumes "list_all quiet tks" "length (src_trades s) + length (src_book s) + 2 \<le> length tks"
  shows "fst (prune E retention_days now_s budget_s floor_us receipts allow_local tks s) \<noteq> None
    \<and> (0 < retention_days \<longrightarrow> (\<forall>t. rows_of t (ps_src (snd (prune E retention_days now_s None None None allow_local tks s)))
        = filter (\<lambda>r. cutoff_for retention_days now_s \<le> fst r) (rows_of t s)))"
proof
  have "fst (prune_tables E r b fl l PRUNE_TABLES tks st) \<noteq> None" if "ps_src st = s" for r b fl l st
    using assms that by (intro prune_tables_end) (simp_all add: PRUNE_TABLES_def)
  then show "fst (prune E retention_days now_s budget_s floor_us receipts allow_local tks s) \<noteq> None"
    by (simp add: prune_def Let_def split_beta del: prune_tables.simps split: option.split)
next
  let ?st = "\<lparr>ps_src = s, ps_dir = [], ps_deleted = [], ps_batches = 0, ps_count = 0, gone = []\<rparr>"
  have "\<forall>t. rows_of t (ps_src (snd (snd (prune_tables E False None None l PRUNE_TABLES tks ?st))))
      = filter (\<lambda>r. l \<le> fst r) (rows_of t s)" for l
    using assms prune_tables_complete [OF assms(1), of ?st E None l]
    by (cases "prune_tables E False None None l PRUNE_TABLES tks ?st") (simp del: prune_tables.simps)
  then show "0 < retention_days \<longrightarrow> (\<forall>t. rows_of t (ps_src (snd (prune E retention_days now_s None None None allow_local tks s)))
        = filter (\<lambda>r. cutoff_for retention_days now_s \<le> fst r) (rows_of t s))"
    by (simp add: prune_def Let_def split_beta del: prune_tables.simps)
qed

theorem prune_returns_witness:
  "fst (prune demo_env 1 300000 (Some 30) (Some 1) (Some demo_dir) False (replicate 5 demo_tick) demo_source) \<noteq> None
    \<and> src_trades (ps_src (snd (prune demo_env 1 300000 None None None False (replicate 5 demo_tick) demo_source)))
      = [(DAY_US * 3, [66])]"
proof -
  have t: "list_all quiet (replicate 5 demo_tick)" "length (src_trades demo_source) + length (src_book demo_source) + 2 \<le> length (replicate 5 demo_tick)"
    by (simp_all add: quiet_def demo_tick_def demo_source_def list_all_iff)
  have "rows_of Trades (ps_src (snd (prune demo_env 1 300000 None None None False (replicate 5 demo_tick) demo_source)))
      = filter (\<lambda>r. cutoff_for 1 300000 \<le> fst r) (rows_of Trades demo_source)"
    using prune_returns [OF t, of demo_env 1 300000 None None None False] by simp
  also have "\<dots> = [(DAY_US * 3, [66])]"
    by (simp add: demo_source_def cutoff_for_def trunc_def DAY_US_def)
  finally show ?thesis using prune_returns [OF t, of demo_env 1 300000 "Some 30" "Some 1" "Some demo_dir" False]
    by simp
qed

text \<open>
  A deletion whose progress file is not written, the process killed between the two or the disk full,
  leaves a day that matches neither its receipt nor a progress file: from then on every call is
  refused as long as rows of that day remain, although all of them are archived.
\<close>

lemma lost_progress_blocks:
  assumes "source_floor_day s = Some day" "read_progress E dir t day = None"
    and "map_of (remote_receipts E dir t) day = Some r" "map_of (remote_receipts E dir t') day = Some r'"
    and "t \<noteq> t'" "source_matches E s dir t' r' = None"
    and "dr_day r = day" "dr_rows r \<noteq> int (length (day_rows E s t day))"
  shows "get_cutoff E s dir = \<lparr>allowed = False, cutoff_us = 0, reason = SourceDayChanged\<rparr>"
proof -
  have no: "source_matches E s dir t r = Some SourceDayChanged"
    using assms(2,7,8) by (simp add: source_matches_def source_day_proof_def Let_def)
  let ?pt = "map (\<lambda>t. (t, remote_receipts E dir t)) PRUNE_TABLES"
  have "day_mismatch E s dir ?pt day = Some SourceDayChanged"
    using no assms(3-6) by (cases t; cases t') (simp_all add: day_mismatch_def PRUNE_TABLES_def)
  moreover have "day \<in> fst ` set (remote_receipts E dir x)" for x
    using assms(3-5) by (cases t; cases t'; cases x) (auto dest!: map_of_SomeD simp: rev_image_eqI)
  ultimately show ?thesis using assms(1)
    by (simp add: get_cutoff_def Let_def cutoff_loop.simps [of _ _ day] PRUNE_TABLES_def)
qed

subsection \<open>Disk watch\<close>

text \<open>The growth of the database between the first and the last sample, and the hours until the disk is full.\<close>

record disk_watch =
  first_sample :: "(seconds \<times> int) option"
  last_sample :: "(seconds \<times> int) option"

definition disk_sample :: "seconds \<Rightarrow> int \<Rightarrow> disk_watch \<Rightarrow> disk_watch" where
  "disk_sample now bytes w =
     w\<lparr>first_sample := (case first_sample w of None \<Rightarrow> Some (now, bytes) | Some x \<Rightarrow> Some x), last_sample := Some (now, bytes)\<rparr>"

definition growth_bytes_per_hour :: "disk_watch \<Rightarrow> rat" where
  "growth_bytes_per_hour w =
     (case (first_sample w, last_sample w) of
        (Some (t0, b0), Some (t1, b1)) \<Rightarrow>
          (let dt = t1 - t0 in if dt < 60 then 0 else of_int (b1 - b0) / dt * 3600)
      | _ \<Rightarrow> 0)"

definition hours_until_full :: "int \<Rightarrow> disk_watch \<Rightarrow> rat option" where
  "hours_until_full free_bytes w =
     (let g = growth_bytes_per_hour w in if g \<le> 0 then None else Some (of_int free_bytes / g))"

end
