(* ===== verification/PyText.thy ===== *)
theory PyText
  imports Json
begin

section \<open>Texts: splitting, stripping, numbers\<close>

text \<open>
  The methods of Python's \<^verbatim>\<open>str\<close> that several components use, on texts as lists of code points: \<^verbatim>\<open>split\<close>
  by one character, \<^verbatim>\<open>int\<close> of a text.
\<close>

fun split_on :: "nat \<Rightarrow> text_u \<Rightarrow> text_u list" where
  "split_on c [] = [[]]"
| "split_on c (x # s) = (if x = c then [] # split_on c s else (x # hd (split_on c s)) # tl (split_on c s))"

lemma split_on_head: "c \<notin> set a \<Longrightarrow> split_on c (a @ c # s) = a # split_on c s" and split_on_end: "c \<notin> set a \<Longrightarrow> split_on c a = [a]"
  by (induction a) auto

text \<open>\<^verbatim>\<open>int(text)\<close>: blanks around, a sign, decimal digits with single underscores between them.\<close>

fun digits_value :: "bool \<Rightarrow> nat \<Rightarrow> text_u \<Rightarrow> nat option" where
  "digits_value after acc [] = (if after then Some acc else None)"
| "digits_value after acc (c # s) =
     (if 48 \<le> c \<and> c \<le> 57 then digits_value True (10 * acc + (c - 48)) s
      else if c = 95 \<and> after then digits_value False acc s else None)"

definition blank :: "nat \<Rightarrow> bool" where "blank c \<longleftrightarrow> c = 32 \<or> 9 \<le> c \<and> c \<le> 13 \<or> 28 \<le> c \<and> c \<le> 31"

definition text_int :: "text_u \<Rightarrow> int option" where
  "text_int s =
     (case rev (dropWhile blank (rev (dropWhile blank s))) of
        [] \<Rightarrow> None
      | c # r \<Rightarrow> if c = 45 then map_option (\<lambda>n. - int n) (digits_value False 0 r)
          else map_option int (digits_value False 0 (if c = 43 then r else c # r)))"

end
