(* ===== verification/Archive.thy ===== *)
theory Archive
  imports Retention PyText
begin

section \<open>Archive: exported days, round trips to the remote, receipts\<close>

text \<open>
  Models \<^verbatim>\<open>src/mdfeed/archive.py\<close> and the archive run of \<^verbatim>\<open>src/mdfeed/services/writer.py\<close>: the export
  of a day with its manifest and its versioned copy, the verification of a file against a manifest
  with its cache, the transfer commands, the round trip that ends in a receipt, the days that are still
  to be archived and the day up to which everything is. The archive directory is an association list
  from names below it to files; a file the program wrote as JSON is kept as the document, any other
  as its bytes. Bytes are numbers below 256. Arguments stand for SHA-256, gzip, the layout of
  the printed JSON and \<^verbatim>\<open>shlex\<close>; each transfer command is a function from its argument vector to what
  the program outside did. One reading of the clock serves a whole operation.
\<close>

type_synonym octets = "nat list"

text \<open>What reading something gives: nothing (a caught error), a value, or an exception that escapes.\<close>

datatype 'a got = Missing | Got 'a | Raises

record archive_env =
  cal :: retention_env
  sha_hex :: "octets \<Rightarrow> text_u"
  gzip :: "octets \<Rightarrow> octets"
  gunzip :: "octets \<Rightarrow> octets got"
  doc_bytes :: "json \<Rightarrow> octets"
  parse_json :: "octets \<Rightarrow> json option"
  shlex :: "text_u \<Rightarrow> text_u list option"
  repr_of :: "json \<Rightarrow> text_u"

subsection \<open>Names and columns\<close>

definition REMOTE_RECEIPT_SCHEMA_VERSION :: int where "REMOTE_RECEIPT_SCHEMA_VERSION = 1"
definition CACHE_SETTLE_S :: seconds where "CACHE_SETTLE_S = 10"
definition VERIFY_CACHE_MAX :: nat where "VERIFY_CACHE_MAX = 4096"

fun archive_columns :: "prune_table \<Rightarrow> text_u list" where
  "archive_columns Trades = map asc [''ts'', ''venue'', ''symbol'', ''price'', ''qty'', ''side'', ''recv_ts'', ''latency_us'', ''seq'']"
| "archive_columns BookTop = map asc [''ts'', ''venue'', ''symbol'', ''bid'', ''bid_qty'', ''ask'', ''ask_qty'', ''spread_bp'']"

fun join_with :: "nat \<Rightarrow> text_u list \<Rightarrow> text_u" where
  "join_with c [] = []"
| "join_with c [x] = x"
| "join_with c (x # xs) = x @ c # join_with c xs"

definition archive_name :: "archive_env \<Rightarrow> prune_table \<Rightarrow> int \<Rightarrow> text_u" where
  "archive_name A t day = table_name t @ 45 # text_of_day (cal A) day @ asc ''.csv.gz''"

definition manifest_name :: "text_u \<Rightarrow> text_u" where "manifest_name p = p @ asc ''.json''"

definition ends_csv_gz :: "text_u \<Rightarrow> bool" where
  "ends_csv_gz n \<longleftrightarrow> drop (length n - 7) n = asc ''.csv.gz''"

definition starts_with :: "text_u \<Rightarrow> text_u \<Rightarrow> bool" where "starts_with p s \<longleftrightarrow> take (length p) s = p"

subsection \<open>The archive directory\<close>

datatype content = Doc json | Blob octets

record stored =
  body :: content
  mtime :: seconds

record vault =
  files :: "(text_u \<times> stored) list"
  cache :: "((text_u \<times> nat \<times> seconds) \<times> bool) list"

definition file_bytes :: "archive_env \<Rightarrow> stored \<Rightarrow> octets" where
  "file_bytes A f = (case body f of Doc j \<Rightarrow> doc_bytes A j | Blob b \<Rightarrow> b)"

definition file_json :: "archive_env \<Rightarrow> stored \<Rightarrow> json option" where
  "file_json A f = (case body f of Doc j \<Rightarrow> Some j | Blob b \<Rightarrow> parse_json A b)"

definition put_file :: "text_u \<Rightarrow> stored \<Rightarrow> vault \<Rightarrow> vault" where
  "put_file n f v = v\<lparr>files := AList.update n f (files v)\<rparr>"

definition remove_file :: "text_u \<Rightarrow> vault \<Rightarrow> vault" where
  "remove_file n v = v\<lparr>files := AList.delete n (files v)\<rparr>"

text \<open>\<^verbatim>\<open>shutil.copy2\<close> keeps the modification time.\<close>

definition copy_file :: "text_u \<Rightarrow> text_u \<Rightarrow> vault \<Rightarrow> vault" where
  "copy_file src dst v = (case map_of (files v) src of None \<Rightarrow> v | Some f \<Rightarrow> put_file dst f v)"

subsection \<open>Manifests\<close>

type_synonym manifest = "(text_u \<times> json) list"

text \<open>\<^verbatim>\<open>dict(...)\<close> of a parsed document: an object, or a sequence of pairs; keys that are no texts are never asked for.\<close>

fun seq_items :: "json \<Rightarrow> json list option" where
  "seq_items (JArr xs) = Some xs"
| "seq_items (JStr s) = Some (map (\<lambda>c. JStr [c]) s)"
| "seq_items (JObj kvs) = Some (map JStr (rev (remdups (rev (map fst kvs)))))"
| "seq_items _ = None"

fun dict_pairs :: "json list \<Rightarrow> manifest got" where
  "dict_pairs [] = Got []"
| "dict_pairs (x # xs) =
     (case seq_items x of
        None \<Rightarrow> Raises
      | Some [k, v] \<Rightarrow>
          if \<not> hashable k then Raises
          else (case dict_pairs xs of Got r \<Rightarrow> Got (case k of JStr s \<Rightarrow> (s, v) # r | _ \<Rightarrow> r) | e \<Rightarrow> e)
      | Some _ \<Rightarrow> Missing)"

fun dict_of :: "json \<Rightarrow> manifest got" where
  "dict_of (JObj kvs) = Got kvs"
| "dict_of j = (case seq_items j of None \<Rightarrow> Raises | Some xs \<Rightarrow> dict_pairs xs)"

definition read_manifest :: "archive_env \<Rightarrow> vault \<Rightarrow> text_u \<Rightarrow> manifest got" where
  "read_manifest A v p =
     (case map_of (files v) p of
        None \<Rightarrow> Missing
      | Some f \<Rightarrow> (case file_json A f of None \<Rightarrow> Missing | Some j \<Rightarrow> dict_of j))"

definition man_int :: "manifest \<Rightarrow> string \<Rightarrow> int option" where
  "man_int man k = (case get_key man k of
     JNum n \<Rightarrow> Some n | JBool b \<Rightarrow> Some (if b then 1 else 0) | JStr s \<Rightarrow> text_int s | _ \<Rightarrow> Some 0)"

text \<open>\<^verbatim>\<open>str(value)\<close>; the text of a list or a dictionary is the argument.\<close>

definition py_str :: "archive_env \<Rightarrow> json \<Rightarrow> text_u" where
  "py_str A j = (case j of
     JStr s \<Rightarrow> s | JNum n \<Rightarrow> int_text n | JBool b \<Rightarrow> asc (if b then ''True'' else ''False'') | JNull \<Rightarrow> asc ''None'' | _ \<Rightarrow> repr_of A j)"

definition man_sha256 :: "archive_env \<Rightarrow> manifest \<Rightarrow> text_u" where
  "man_sha256 A man = py_str A (obj_get man (asc ''sha256'') (JStr []))"

definition manifest_int :: "manifest \<Rightarrow> string \<Rightarrow> json" where
  "manifest_int man k = (let j = get_key man k in if py_int j = None then JNull else j)"

definition manifest_text :: "archive_env \<Rightarrow> manifest \<Rightarrow> string \<Rightarrow> json" where
  "manifest_text A man k = (let j = get_key man k in if j = JNull then JNull else JStr (py_str A j))"

subsection \<open>Verification of a file\<close>

text \<open>Lines as text mode with \<^verbatim>\<open>newline=''\<close> counts them: LF, CR and CR LF end a line, and so does the end of the file.\<close>

fun line_count :: "text_u \<Rightarrow> nat" where
  "line_count [] = 0"
| "line_count (c # s) =
     (if c = 13 \<and> s \<noteq> [] \<and> hd s = 10 then Suc (line_count (tl s))
      else if c = 10 \<or> c = 13 \<or> s = [] then Suc (line_count s) else line_count s)"

definition strict_decode :: "octets \<Rightarrow> text_u option" where
  "strict_decode b = (let s = utf8_decode b in if utf8 s = b then Some s else None)"

text \<open>\<open>None\<close>: an exception that is not caught here, for bytes that are no UTF-8 or a row count that is no number.\<close>

definition verify_file_uncached :: "archive_env \<Rightarrow> vault \<Rightarrow> text_u \<Rightarrow> manifest \<Rightarrow> bool option" where
  "verify_file_uncached A v p man =
     (case map_of (files v) p of
        None \<Rightarrow> Some False
      | Some f \<Rightarrow>
          (let b = file_bytes A f in
           if py_int (get_key man ''bytes'') \<noteq> Some (int (length b)) then Some False
           else if sha_hex A b \<noteq> man_sha256 A man then Some False
           else (case gunzip A b of
               Missing \<Rightarrow> Some False
             | Raises \<Rightarrow> None
             | Got plain \<Rightarrow>
                 (case (strict_decode plain, man_int man ''rows'') of
                    (Some s, Some rows) \<Rightarrow> Some (int (line_count s - 1) = rows)
                  | _ \<Rightarrow> None))))"

definition verify_file :: "archive_env \<Rightarrow> seconds \<Rightarrow> bool \<Rightarrow> text_u \<Rightarrow> manifest \<Rightarrow> vault \<Rightarrow> bool option \<times> vault" where
  "verify_file A now use_cache p man v =
     (if \<not> use_cache then (verify_file_uncached A v p man, v)
      else case map_of (files v) p of
        None \<Rightarrow> (Some False, v)
      | Some f \<Rightarrow>
          if now - mtime f < CACHE_SETTLE_S then (verify_file_uncached A v p man, v)
          else let key = (p, length (file_bytes A f), mtime f) in
            (case map_of (cache v) key of
               Some hit \<Rightarrow> (Some hit, v)
             | None \<Rightarrow> (case verify_file_uncached A v p man of
                   None \<Rightarrow> (None, v)
                 | Some ok \<Rightarrow> (Some ok, v\<lparr>cache := (key, ok) # (if VERIFY_CACHE_MAX \<le> length (cache v) then [] else cache v)\<rparr>))))"

subsection \<open>Errors, object names and transfers\<close>

datatype arc_error =
    Escaped
  | QueryFailed
  | NoTableDay
  | NoSourceDigest
  | BadObjectId
  | CommandMissing
  | PlaceholdersMissing "text_u list"
  | FilePlaceholder
  | CommandParse
  | TransferFailed
  | TransferTimeout
  | TransferExit int
  | NoLocalManifest
  | LocalMismatch
  | FetchedManifestUnreadable
  | FetchedManifestDiffers
  | FetchedArtifactBad
  | FetchedContentDiffers
  | ReceiptNotWritten

definition object_id_for_manifest :: "manifest \<Rightarrow> arc_error + text_u" where
  "object_id_for_manifest man =
     (let first = (\<lambda>a b. if truthy (get_key man a) then get_key man a else get_key man b) in
      case (first ''source_table'' ''table'', first ''source_day'' ''day'') of
        (JStr t, JStr d) \<Rightarrow>
          (case get_key man ''source_content_sha256'' of
             JStr sha \<Rightarrow>
               if length sha = 64 then Inr (asc ''archive/'' @ t @ 47 # d @ 47 # sha @ asc ''.csv.gz'') else Inl NoSourceDigest
           | _ \<Rightarrow> Inl NoSourceDigest)
      | _ \<Rightarrow> Inl NoTableDay)"

text \<open>The components of a path: empty ones and single dots drop out.\<close>

definition path_parts :: "text_u \<Rightarrow> text_u list" where
  "path_parts s = filter (\<lambda>c. c \<noteq> [] \<and> c \<noteq> [46]) (split_on 47 s)"

definition path_name :: "text_u \<Rightarrow> text_u" where
  "path_name s = (if path_parts s = [] then [] else last (path_parts s))"

definition valid_object_id :: "text_u \<Rightarrow> bool" where
  "valid_object_id s \<longleftrightarrow> s \<noteq> [] \<and> \<not> starts_with [47] s \<and> [46, 46] \<notin> set (path_parts s)"

fun contains :: "text_u \<Rightarrow> text_u \<Rightarrow> bool" where
  "contains p [] = (p = [])"
| "contains p (c # s) = (starts_with p (c # s) \<or> contains p s)"

fun replace_all :: "text_u \<Rightarrow> text_u \<Rightarrow> text_u \<Rightarrow> text_u" where
  "replace_all p r [] = []"
| "replace_all p r (c # s) =
     (if p \<noteq> [] \<and> starts_with p (c # s) then r @ replace_all p r (drop (length p - 1) s)
      else c # replace_all p r s)"

text \<open>What the program outside did: it could not be started, it ran too long, or it ended with a code and
  left the destination with some content or none.\<close>

datatype outcome = NotStarted | TimedOut | Exit int "octets option"

definition transport_id :: "archive_env \<Rightarrow> text_u \<Rightarrow> text_u" where
  "transport_id A command =
     (case shlex A command of None \<Rightarrow> asc ''invalid'' | Some [] \<Rightarrow> asc ''empty'' | Some (p # _) \<Rightarrow> path_name p)"

definition transfer_argv :: "text_u list \<Rightarrow> text_u \<Rightarrow> text_u \<Rightarrow> text_u \<Rightarrow> text_u list" where
  "transfer_argv parts src obj dst =
     map (\<lambda>part. replace_all (asc ''{destination}'') dst
       (replace_all (asc ''{object}'') obj (replace_all (asc ''{source}'') src part))) parts"

definition run_transfer ::
  "archive_env \<Rightarrow> text_u \<Rightarrow> text_u option \<Rightarrow> text_u \<Rightarrow> text_u option \<Rightarrow> (text_u list \<Rightarrow> outcome) \<Rightarrow> arc_error + octets option" where
  "run_transfer A command src obj dst exec =
     (let needed = (if dst = None then [] else [asc ''{destination}'']) @ asc ''{object}'' # (if src = None then [] else [asc ''{source}'']);
          missing = filter (\<lambda>p. \<not> contains p command) needed;
          val = (\<lambda>x. case x of None \<Rightarrow> [] | Some y \<Rightarrow> y) in
      if list_all blank command then Inl CommandMissing
      else if \<not> valid_object_id obj then Inl BadObjectId
      else if missing \<noteq> [] then Inl (PlaceholdersMissing missing)
      else if contains (asc ''{file}'') command then Inl FilePlaceholder
      else case shlex A command of
        None \<Rightarrow> Inl CommandParse
      | Some parts \<Rightarrow>
          (case exec (transfer_argv parts (val src) obj (val dst)) of
             NotStarted \<Rightarrow> Inl TransferFailed
           | TimedOut \<Rightarrow> Inl TransferTimeout
           | Exit code left \<Rightarrow> if code \<noteq> 0 then Inl (TransferExit code) else Inr left))"

subsection \<open>Versioned copies\<close>

definition preserve_versioned :: "text_u \<Rightarrow> manifest \<Rightarrow> vault \<Rightarrow> arc_error + vault" where
  "preserve_versioned p man v =
     (case object_id_for_manifest man of
        Inl e \<Rightarrow> Inl e
      | Inr obj \<Rightarrow>
          (let v1 = (if map_of (files v) obj = None then copy_file p obj v else v) in
           Inr (if map_of (files v1) (manifest_name obj) = None then copy_file (manifest_name p) (manifest_name obj) v1 else v1)))"

fun text_less :: "text_u \<Rightarrow> text_u \<Rightarrow> bool" where
  "text_less s [] = False"
| "text_less [] (b # t) = True"
| "text_less (a # s) (b # t) = (if a = b then text_less s t else a < b)"

definition version_root :: "archive_env \<Rightarrow> prune_table \<Rightarrow> int \<Rightarrow> text_u" where
  "version_root A t day = asc ''archive/'' @ table_name t @ 47 # text_of_day (cal A) day @ [47]"

text \<open>The manifests of the versions of a day, whether each verifies, and the best of those that do: the
  most rows, and the first name among equals. \<open>None\<close>: an exception.\<close>

definition version_manifests :: "archive_env \<Rightarrow> prune_table \<Rightarrow> int \<Rightarrow> vault \<Rightarrow> text_u list" where
  "version_manifests A t day v =
     filter (\<lambda>n. starts_with (version_root A t day) n \<and> 47 \<notin> set (drop (length (version_root A t day)) n)
       \<and> ends_json n \<and> ends_csv_gz (take (length n - 5) n)) (map fst (files v))"

definition candidate :: "archive_env \<Rightarrow> vault \<Rightarrow> text_u \<Rightarrow> (int \<times> text_u) got" where
  "candidate A v n =
     (case read_manifest A v n of
        Missing \<Rightarrow> Missing
      | Raises \<Rightarrow> Raises
      | Got man \<Rightarrow>
          (case verify_file_uncached A v (take (length n - 5) n) man of
             None \<Rightarrow> Raises
           | Some ok \<Rightarrow> if \<not> ok then Missing
               else (case man_int man ''rows'' of None \<Rightarrow> Raises | Some r \<Rightarrow> Got (r, n))))"

definition better :: "int \<times> text_u \<Rightarrow> (int \<times> text_u) option \<Rightarrow> (int \<times> text_u) option" where
  "better c best =
     (case best of None \<Rightarrow> Some c
      | Some b \<Rightarrow> if fst b < fst c \<or> fst b = fst c \<and> text_less (snd c) (snd b) then Some c else Some b)"

fun best_candidate :: "(int \<times> text_u) got list \<Rightarrow> (int \<times> text_u) option got" where
  "best_candidate [] = Got None"
| "best_candidate (c # cs) =
     (case c of
        Missing \<Rightarrow> best_candidate cs
      | Raises \<Rightarrow> Raises
      | Got x \<Rightarrow> (case best_candidate cs of Got b \<Rightarrow> Got (better x b) | e \<Rightarrow> e))"

definition skipped :: "manifest \<Rightarrow> manifest" where "skipped man = man @ [(asc ''skipped'', JBool True)]"

definition restore_versioned :: "archive_env \<Rightarrow> prune_table \<Rightarrow> int \<Rightarrow> text_u \<Rightarrow> vault \<Rightarrow> manifest got \<times> vault" where
  "restore_versioned A t day p v =
     (case best_candidate (map (candidate A v) (version_manifests A t day v)) of
        Raises \<Rightarrow> (Raises, v)
      | Missing \<Rightarrow> (Missing, v)
      | Got None \<Rightarrow> (Missing, v)
      | Got (Some (_, n)) \<Rightarrow>
          (let v1 = copy_file n (manifest_name p) (copy_file (take (length n - 5) n) p v) in
           case read_manifest A v1 (manifest_name p) of
             Missing \<Rightarrow> (Missing, v1)
           | Raises \<Rightarrow> (Raises, v1)
           | Got man \<Rightarrow>
               (case verify_file_uncached A v1 p man of
                  None \<Rightarrow> (Raises, v1)
                | Some ok \<Rightarrow> (if ok then Got (skipped man) else Missing, v1))))"

subsection \<open>Exporting a day\<close>

definition csv_text :: "prune_table \<Rightarrow> text_u list \<Rightarrow> text_u" where
  "csv_text t ls = concat (map (\<lambda>l. l @ [10]) (join_with 44 (archive_columns t) # ls))"

text \<open>The description of the format: csv.gz, one header line, UTF-8, ascending by time.\<close>

definition format_text :: text_u where
  "format_text = asc ''csv.gz ('' @ [0xD5E4, 0xB354] @ asc '' 1'' @ [0xC904] @ 32 # [0xD3EC, 0xD568] @ asc '', UTF-8, ts ''
     @ [0xC624, 0xB984, 0xCC28, 0xC21C] @ asc '')''"

definition manifest_json :: "archive_env \<Rightarrow> prune_table \<Rightarrow> int \<Rightarrow> text_u list \<Rightarrow> octets \<Rightarrow> manifest" where
  "manifest_json A t day ls b =
     (let name = JStr (table_name t); d = JStr (text_of_day (cal A) day); (lo, hi) = day_bounds_us day; n = JNum (int (length ls)) in
      [(asc ''table'', name), (asc ''day'', d), (asc ''columns'', JArr (map JStr (archive_columns t))), (asc ''rows'', n),
       (asc ''ts_from_us'', JNum lo), (asc ''ts_to_us'', JNum hi), (asc ''source_table'', name), (asc ''source_day'', d),
       (asc ''source_from_us'', JNum lo), (asc ''source_to_us'', JNum hi), (asc ''source_rows'', n),
       (asc ''source_content_sha256'', JStr (sha_hex A (utf8 (csv_text t ls)))), (asc ''bytes'', JNum (int (length b))),
       (asc ''sha256'', JStr (sha_hex A b)), (asc ''format'', JStr format_text)])"

text \<open>\<open>broken\<close>: the query fails after this much of the partial file is written.\<close>

definition export_fresh ::
  "archive_env \<Rightarrow> seconds \<Rightarrow> octets option \<Rightarrow> prune_table \<Rightarrow> int \<Rightarrow> source \<Rightarrow> text_u \<Rightarrow> vault \<Rightarrow> (arc_error + manifest) \<times> vault" where
  "export_fresh A now broken t day s p v =
     (let ls = map snd (day_rows (cal A) s t day); part = p @ asc ''.partial'' in
      case broken of
        Some half \<Rightarrow> (Inl QueryFailed, put_file part \<lparr>body = Blob half, mtime = now\<rparr> v)
      | None \<Rightarrow>
          (let b = gzip A (utf8 (csv_text t ls)); man = manifest_json A t day ls b;
               v1 = put_file p \<lparr>body = Blob b, mtime = now\<rparr> (remove_file part v);
               v2 = put_file (manifest_name p) \<lparr>body = Doc (JObj man), mtime = now\<rparr> v1
           in case preserve_versioned p man v2 of Inl e \<Rightarrow> (Inl e, v2) | Inr v3 \<Rightarrow> (Inr man, v3)))"

definition export_day ::
  "archive_env \<Rightarrow> seconds \<Rightarrow> octets option \<Rightarrow> prune_table \<Rightarrow> int \<Rightarrow> source \<Rightarrow> vault \<Rightarrow> (arc_error + manifest) \<times> vault" where
  "export_day A now broken t day s v =
     (let p = archive_name A t day;
          fresh = (\<lambda>v1. case restore_versioned A t day p v1 of
              (Raises, v2) \<Rightarrow> (Inl Escaped, v2)
            | (Got man, v2) \<Rightarrow> (Inr man, v2)
            | (Missing, v2) \<Rightarrow> export_fresh A now broken t day s p v2)
      in case read_manifest A v (manifest_name p) of
        Raises \<Rightarrow> (Inl Escaped, v)
      | Missing \<Rightarrow> fresh v
      | Got man \<Rightarrow>
          if man = [] then fresh v
          else (case verify_file A now True p man v of
              (None, v1) \<Rightarrow> (Inl Escaped, v1)
            | (Some False, v1) \<Rightarrow> fresh v1
            | (Some True, v1) \<Rightarrow>
                (case preserve_versioned p man v1 of Inl e \<Rightarrow> (Inl e, v1) | Inr v2 \<Rightarrow> (Inr (skipped man), v2))))"

subsection \<open>The round trip and its receipt\<close>

record remote_receipt =
  rc_object_id :: text_u
  rc_artifact :: text_u
  rc_manifest :: text_u
  rc_table :: json
  rc_day :: json
  rc_local_sha256 :: text_u
  rc_local_bytes :: int
  rc_local_rows :: int
  rc_fetch_sha256 :: text_u
  rc_fetch_bytes :: int
  rc_fetch_rows :: int
  rc_manifest_sha256 :: text_u
  rc_remote_manifest_sha256 :: text_u
  rc_source_table :: json
  rc_source_day :: json
  rc_source_from_us :: json
  rc_source_to_us :: json
  rc_source_rows :: json
  rc_source_content_sha256 :: json
  rc_verified_at :: text_u
  rc_transport :: text_u

text \<open>\<^verbatim>\<open>to_json\<close>, in the order of \<^verbatim>\<open>sort_keys\<close>.\<close>

definition receipt_json :: "remote_receipt \<Rightarrow> json" where
  "receipt_json r = JObj
     [(asc ''artifact'', JStr (rc_artifact r)), (asc ''day'', rc_day r), (asc ''local_bytes'', JNum (rc_local_bytes r)),
      (asc ''local_rows'', JNum (rc_local_rows r)), (asc ''local_sha256'', JStr (rc_local_sha256 r)),
      (asc ''manifest'', JStr (rc_manifest r)), (asc ''manifest_sha256'', JStr (rc_manifest_sha256 r)),
      (asc ''object_id'', JStr (rc_object_id r)), (asc ''remote_fetch_bytes'', JNum (rc_fetch_bytes r)),
      (asc ''remote_fetch_rows'', JNum (rc_fetch_rows r)), (asc ''remote_fetch_sha256'', JStr (rc_fetch_sha256 r)),
      (asc ''remote_manifest_sha256'', JStr (rc_remote_manifest_sha256 r)), (asc ''schema_version'', JNum REMOTE_RECEIPT_SCHEMA_VERSION),
      (asc ''source_content_sha256'', rc_source_content_sha256 r), (asc ''source_day'', rc_source_day r),
      (asc ''source_from_us'', rc_source_from_us r), (asc ''source_rows'', rc_source_rows r),
      (asc ''source_table'', rc_source_table r), (asc ''source_to_us'', rc_source_to_us r),
      (asc ''status'', JStr (asc ''verified'')), (asc ''table'', rc_table r), (asc ''transport'', JStr (rc_transport r)),
      (asc ''verified_at'', JStr (rc_verified_at r))]"

definition receipt_name :: "text_u \<Rightarrow> text_u" where
  "receipt_name obj = map (\<lambda>c. if c = 47 then 95 else c) obj @ asc ''.json''"

definition write_receipt :: "seconds \<Rightarrow> remote_receipt \<Rightarrow> vault \<Rightarrow> vault" where
  "write_receipt now r v = put_file (receipt_name (rc_object_id r)) \<lparr>body = Doc (receipt_json r), mtime = now\<rparr> v"

text \<open>The settings of the transfers, and what happens in one round trip.\<close>

record remote_cfg =
  push_command :: text_u
  fetch_command :: text_u
  out_dir :: text_u

record trip =
  push_artifact :: "text_u list \<Rightarrow> outcome"
  push_manifest :: "text_u list \<Rightarrow> outcome"
  fetch_artifact :: "text_u list \<Rightarrow> outcome"
  fetch_manifest :: "text_u list \<Rightarrow> outcome"
  temp_dir :: text_u
  verified_at :: text_u

definition path_join :: "text_u \<Rightarrow> text_u \<Rightarrow> text_u" where
  "path_join d n = (if d = [] \<or> last d = 47 then d @ n else d @ 47 # n)"

text \<open>A step that may fail, and the steps after it.\<close>

definition attempt :: "'e + 'a \<Rightarrow> ('a \<Rightarrow> 'e + 'b) \<Rightarrow> 'e + 'b" where
  "attempt m f = (case m of Inl e \<Rightarrow> Inl e | Inr x \<Rightarrow> f x)"

definition require :: "bool \<Rightarrow> 'e \<Rightarrow> 'e + unit" where "require ok e = (if ok then Inr () else Inl e)"

definition caught :: "arc_error \<Rightarrow> 'a got \<Rightarrow> arc_error + 'a" where
  "caught e g = (case g of Missing \<Rightarrow> Inl e | Raises \<Rightarrow> Inl Escaped | Got x \<Rightarrow> Inr x)"

definition verified :: "archive_env \<Rightarrow> vault \<Rightarrow> text_u \<Rightarrow> manifest \<Rightarrow> arc_error \<Rightarrow> arc_error + unit" where
  "verified A v p man e =
     (case verify_file_uncached A v p man of None \<Rightarrow> Inl Escaped | Some ok \<Rightarrow> require ok e)"

definition local_manifest :: "archive_env \<Rightarrow> vault \<Rightarrow> text_u \<Rightarrow> arc_error + manifest" where
  "local_manifest A v p =
     attempt (caught NoLocalManifest (read_manifest A v (manifest_name p))) (\<lambda>man.
     attempt (verified A v p man LocalMismatch) (\<lambda>_. Inr man))"

definition push_both :: "archive_env \<Rightarrow> remote_cfg \<Rightarrow> trip \<Rightarrow> text_u \<Rightarrow> text_u \<Rightarrow> arc_error + octets option" where
  "push_both A cfg tr p obj =
     attempt (run_transfer A (push_command cfg) (Some (path_join (out_dir cfg) p)) obj None (push_artifact tr)) (\<lambda>_.
       run_transfer A (push_command cfg) (Some (path_join (out_dir cfg) (manifest_name p))) (manifest_name obj) None (push_manifest tr))"

text \<open>The directory of the fetched files: the artifact and its manifest, as far as they arrived.\<close>

definition fetched_path :: "trip \<Rightarrow> text_u \<Rightarrow> text_u" where "fetched_path tr p = path_join (temp_dir tr) (path_name p)"

definition fetched_vault :: "text_u \<Rightarrow> octets option \<Rightarrow> octets option \<Rightarrow> vault" where
  "fetched_vault p art man =
     (let file_of = (\<lambda>n b. case b of None \<Rightarrow> [] | Some x \<Rightarrow> [(n, \<lparr>body = Blob x, mtime = 0\<rparr>)]) in
      \<lparr>files = file_of p art @ file_of (manifest_name p) man, cache = []\<rparr>)"

definition fetch_both :: "archive_env \<Rightarrow> remote_cfg \<Rightarrow> trip \<Rightarrow> text_u \<Rightarrow> text_u \<Rightarrow> arc_error + octets option \<times> octets option" where
  "fetch_both A cfg tr p obj =
     attempt (run_transfer A (fetch_command cfg) None obj (Some (fetched_path tr p)) (fetch_artifact tr)) (\<lambda>art.
     attempt (run_transfer A (fetch_command cfg) None (manifest_name obj) (Some (manifest_name (fetched_path tr p))) (fetch_manifest tr))
       (\<lambda>man. Inr (art, man)))"

text \<open>Python's \<^verbatim>\<open>==\<close> of two values that may be numbers.\<close>

definition json_eq :: "json \<Rightarrow> json \<Rightarrow> bool" where
  "json_eq a b \<longleftrightarrow> a = b \<or> py_int a \<noteq> None \<and> py_int a = py_int b"

definition manifest_number :: "manifest \<Rightarrow> string \<Rightarrow> arc_error + int" where
  "manifest_number man k = (case man_int man k of None \<Rightarrow> Inl Escaped | Some n \<Rightarrow> Inr n)"

definition fetched_manifest :: "archive_env \<Rightarrow> text_u \<Rightarrow> octets option \<times> octets option \<Rightarrow> text_u \<Rightarrow> manifest \<Rightarrow> arc_error + manifest" where
  "fetched_manifest A fp got_files man_sha man =
     (let fv = fetched_vault fp (fst got_files) (snd got_files) in
      case snd got_files of
        None \<Rightarrow> Inl FetchedManifestUnreadable
      | Some mb \<Rightarrow>
          attempt (require (sha_hex A mb = man_sha) FetchedManifestDiffers) (\<lambda>_.
          attempt (caught FetchedArtifactBad (read_manifest A fv (manifest_name fp))) (\<lambda>fman.
          attempt (verified A fv fp fman FetchedArtifactBad) (\<lambda>_.
          attempt (manifest_number fman ''rows'') (\<lambda>fr.
          attempt (manifest_number man ''rows'') (\<lambda>lr.
          attempt (require (man_sha256 A fman = man_sha256 A man \<and> fr = lr
              \<and> json_eq (get_key fman ''bytes'') (get_key man ''bytes'')) FetchedContentDiffers) (\<lambda>_. Inr fman)))))))"

text \<open>The second component of the result only remembers the bytes that came back.\<close>

definition verify_remote_roundtrip ::
  "archive_env \<Rightarrow> remote_cfg \<Rightarrow> trip \<Rightarrow> text_u \<Rightarrow> text_u \<Rightarrow> prune_table option \<Rightarrow> int option \<Rightarrow> bool \<Rightarrow> vault
    \<Rightarrow> arc_error + remote_receipt \<times> octets" where
  "verify_remote_roundtrip A cfg tr p obj tbl day push_first v =
     attempt (local_manifest A v p) (\<lambda>man.
     let man_sha = (case map_of (files v) (manifest_name p) of None \<Rightarrow> [] | Some f \<Rightarrow> sha_hex A (file_bytes A f)) in
     attempt (if push_first then push_both A cfg tr p obj else Inr None) (\<lambda>_.
     attempt (fetch_both A cfg tr p obj) (\<lambda>got_files.
     attempt (fetched_manifest A (fetched_path tr p) got_files man_sha man) (\<lambda>fman.
     attempt (manifest_number man ''bytes'') (\<lambda>lb. attempt (manifest_number man ''rows'') (\<lambda>lr.
     attempt (manifest_number fman ''bytes'') (\<lambda>fb. attempt (manifest_number fman ''rows'') (\<lambda>fr.
       Inr (\<lparr>rc_object_id = obj, rc_artifact = path_name p, rc_manifest = path_name (manifest_name p),
             rc_table = (case tbl of None \<Rightarrow> JNull | Some t \<Rightarrow> JStr (table_name t)),
             rc_day = (case day of None \<Rightarrow> JNull | Some d \<Rightarrow> JStr (text_of_day (cal A) d)),
             rc_local_sha256 = man_sha256 A man, rc_local_bytes = lb, rc_local_rows = lr,
             rc_fetch_sha256 = man_sha256 A fman, rc_fetch_bytes = fb, rc_fetch_rows = fr,
             rc_manifest_sha256 = man_sha, rc_remote_manifest_sha256 = man_sha,
             rc_source_table = manifest_text A man ''source_table'', rc_source_day = manifest_text A man ''source_day'',
             rc_source_from_us = manifest_int man ''source_from_us'', rc_source_to_us = manifest_int man ''source_to_us'',
             rc_source_rows = manifest_int man ''source_rows'',
             rc_source_content_sha256 = manifest_text A man ''source_content_sha256'',
             rc_verified_at = verified_at tr, rc_transport = transport_id A (fetch_command cfg)\<rparr>,
            case fst got_files of None \<Rightarrow> [] | Some b \<Rightarrow> b)))))))))"

definition archive_day_remote ::
  "archive_env \<Rightarrow> seconds \<Rightarrow> remote_cfg \<Rightarrow> trip \<Rightarrow> octets option \<Rightarrow> bool \<Rightarrow> prune_table \<Rightarrow> int \<Rightarrow> source \<Rightarrow> vault
    \<Rightarrow> (arc_error + remote_receipt \<times> octets) \<times> vault" where
  "archive_day_remote A now cfg tr broken unwritten t day s v =
     (case export_day A now broken t day s v of
        (Inl e, v1) \<Rightarrow> (Inl e, v1)
      | (Inr man, v1) \<Rightarrow>
          (case attempt (object_id_for_manifest man) (\<lambda>obj.
              verify_remote_roundtrip A cfg tr (archive_name A t day) obj (Some t) (Some day) True v1) of
             Inl e \<Rightarrow> (Inl e, v1)
           | Inr (r, b) \<Rightarrow> if unwritten then (Inl ReceiptNotWritten, v1) else (Inr (r, b), write_receipt now r v1)))"

text \<open>The upload command of the command line: the artifact, then the manifest. \<open>None\<close>: \<^verbatim>\<open>shlex\<close> raises.\<close>

definition upload ::
  "archive_env \<Rightarrow> text_u \<Rightarrow> text_u \<Rightarrow> text_u \<Rightarrow> (text_u list \<Rightarrow> outcome) \<Rightarrow> (text_u list \<Rightarrow> outcome) \<Rightarrow> bool option" where
  "upload A command p mp exec1 exec2 =
     (if \<not> contains (asc ''{file}'') command then Some False
      else case shlex A command of
        None \<Rightarrow> None
      | Some parts \<Rightarrow>
          (let argv = (\<lambda>f. map (replace_all (asc ''{file}'') f) parts) in
           case exec1 (argv p) of
             Exit code _ \<Rightarrow> (case exec2 (argv mp) of Exit code2 _ \<Rightarrow> Some (code = 0 \<and> code2 = 0) | _ \<Rightarrow> Some False)
           | _ \<Rightarrow> Some False))"

subsection \<open>Archived days, pending days, the day up to which everything is archived\<close>

definition in_dir :: "text_u \<Rightarrow> bool" where "in_dir n \<longleftrightarrow> 47 \<notin> set n"

fun insert_name :: "text_u \<Rightarrow> text_u list \<Rightarrow> text_u list" where
  "insert_name n [] = [n]"
| "insert_name n (m # ms) = (if text_less m n then m # insert_name n ms else n # m # ms)"

fun sort_names :: "text_u list \<Rightarrow> text_u list" where
  "sort_names [] = []"
| "sort_names (n # ns) = insert_name n (sort_names ns)"

text \<open>\<open>None\<close>: an exception escapes. The cache is left as it was then.\<close>

fun archived_in :: "archive_env \<Rightarrow> seconds \<Rightarrow> prune_table \<Rightarrow> text_u list \<Rightarrow> vault \<Rightarrow> int list option \<times> vault" where
  "archived_in A now t [] v = (Some [], v)"
| "archived_in A now t (n # ns) v =
     (if \<not> (starts_with (table_name t @ [45]) n \<and> ends_csv_gz n) then archived_in A now t ns v
      else case read_manifest A v (manifest_name n) of
        Raises \<Rightarrow> (None, v)
      | Missing \<Rightarrow> archived_in A now t ns v
      | Got man \<Rightarrow>
          if man = [] then archived_in A now t ns v
          else (case verify_file A now True n man v of
              (None, v1) \<Rightarrow> (None, v1)
            | (Some False, v1) \<Rightarrow> archived_in A now t ns v1
            | (Some True, v1) \<Rightarrow>
                (let k = length (table_name t @ [45]) in
                 case archived_in A now t ns v1 of
                   (None, v2) \<Rightarrow> (None, v2)
                 | (Some days, v2) \<Rightarrow>
                     (case day_of_text (cal A) (take (length n - 7 - k) (drop k n)) of
                        None \<Rightarrow> (Some days, v2) | Some d \<Rightarrow> (Some (d # days), v2)))))"

definition archived_days :: "archive_env \<Rightarrow> seconds \<Rightarrow> prune_table \<Rightarrow> vault \<Rightarrow> int list option \<times> vault" where
  "archived_days A now t v = archived_in A now t (sort_names (filter in_dir (map fst (files v)))) v"

definition receipt_day :: "archive_env \<Rightarrow> json \<Rightarrow> prune_table \<Rightarrow> int option" where
  "receipt_day A j t =
     (case j of JObj d \<Rightarrow>
        (let g = get_key d; name = JStr (table_name t) in
         if py_int (g ''schema_version'') \<noteq> Some REMOTE_RECEIPT_SCHEMA_VERSION then None
         else if g ''status'' \<noteq> JStr (asc ''verified'') \<or> g ''table'' \<noteq> name then None
         else (case g ''day'' of JStr day_text \<Rightarrow>
           if \<not> list_all (is_sha256 \<circ> g) [''local_sha256'', ''remote_fetch_sha256'', ''manifest_sha256'',
                  ''remote_manifest_sha256'', ''source_content_sha256''] then None
           else if g ''local_sha256'' \<noteq> g ''remote_fetch_sha256'' then None
           else if g ''manifest_sha256'' \<noteq> g ''remote_manifest_sha256'' then None
           else if g ''source_table'' \<noteq> name \<or> g ''source_day'' \<noteq> JStr day_text then None
           else day_of_text (cal A) day_text
         | _ \<Rightarrow> None))
      | _ \<Rightarrow> None)"

text \<open>The directory as the readers of receipts see it: only files named \<^verbatim>\<open>.json\<close> are opened.\<close>

definition receipt_view :: "archive_env \<Rightarrow> vault \<Rightarrow> receipt_dir" where
  "receipt_view A v = map (\<lambda>(n, f). (n, if ends_json n then file_json A f else None)) (filter (\<lambda>(n, f). in_dir n) (files v))"

definition remote_receipt_days :: "archive_env \<Rightarrow> receipt_dir \<Rightarrow> prune_table \<Rightarrow> int list" where
  "remote_receipt_days A dir t =
     List.map_filter (\<lambda>(n, c). if \<not> ends_json n then None else case c of None \<Rightarrow> None | Some j \<Rightarrow> receipt_day A j t) dir"

function first_gap :: "int list \<Rightarrow> int \<Rightarrow> int" where
  "first_gap common day = (if day \<in> set common then first_gap common (day + 1) else day)"
  by pat_completeness auto
termination
proof (relation "measure (\<lambda>(common, day). card {d \<in> set common. day \<le> d})", simp, clarsimp)
  fix common :: "int list" and day assume "day \<in> set common"
  then show "card {d \<in> set common. day + 1 \<le> d} < card {d \<in> set common. day \<le> d}" by (rule later_days_less)
qed

declare first_gap.simps [simp del]

definition safe_delete_cutoff_us :: "archive_env \<Rightarrow> seconds \<Rightarrow> vault \<Rightarrow> int option" where
  "safe_delete_cutoff_us A now v =
     (case archived_days A now Trades v of
        (None, _) \<Rightarrow> None
      | (Some ds, v1) \<Rightarrow>
          (case archived_days A now BookTop v1 of
             (None, _) \<Rightarrow> None
           | (Some bs, _) \<Rightarrow>
               (let common = filter (\<lambda>d. d \<in> set bs) ds in
                Some (if common = [] then 0 else fst (day_bounds_us (first_gap common (Min (set common))))))))"

text \<open>The days to archive; \<open>None\<close> for the source: its query fails.\<close>

definition pending_between :: "seconds \<Rightarrow> seconds \<Rightarrow> int list \<Rightarrow> src_row list \<Rightarrow> int list" where
  "pending_between now lag_s have rs =
     (let lo = Min (fst ` set rs); hi = Max (fst ` set rs) in
      if rs = [] \<or> lo = 0 then []
      else filter (\<lambda>d. of_int (snd (day_bounds_us d)) / 1000000 \<le> now - lag_s \<and> d \<notin> set have) [day_of_us lo..day_of_us hi])"

definition pending_days ::
  "archive_env \<Rightarrow> seconds \<Rightarrow> seconds \<Rightarrow> bool \<Rightarrow> prune_table \<Rightarrow> source option \<Rightarrow> vault \<Rightarrow> int list option \<times> vault" where
  "pending_days A now lag_s remote t s v =
     (case s of
        None \<Rightarrow> (Some [], v)
      | Some src \<Rightarrow>
          if rows_of t src = [] then (Some [], v)
          else if remote then (Some (pending_between now lag_s (remote_receipt_days A (receipt_view A v) t) (rows_of t src)), v)
          else (case archived_days A now t v of
              (None, v1) \<Rightarrow> (None, v1)
            | (Some have, v1) \<Rightarrow> (Some (pending_between now lag_s have (rows_of t src)), v1)))"

subsection \<open>The archive run of the writer\<close>

record archive_cfg =
  transfers :: remote_cfg
  archive_dir_set :: bool
  archive_lag_s :: seconds
  retention_days_cfg :: seconds
  retention_budget_s :: seconds
  production :: bool
  requires_archive :: bool

definition remote_enabled :: "archive_cfg \<Rightarrow> bool" where
  "remote_enabled c \<longleftrightarrow> push_command (transfers c) \<noteq> [] \<and> fetch_command (transfers c) \<noteq> []"

definition remote_required :: "archive_cfg \<Rightarrow> bool" where
  "remote_required c \<longleftrightarrow> production c \<or> requires_archive c"

text \<open>What happens while one table of one day is archived.\<close>

record job_tick =
  job_now :: seconds
  job_others :: "source \<Rightarrow> source"
  job_broken :: "octets option"
  job_trip :: trip
  receipt_fails :: bool

text \<open>\<open>exports\<close> and \<open>fetches\<close> only remember: what a table held for a day when its export was asked for, and
  the artifacts that came back for a receipt.\<close>

record arc_state =
  ar_src :: source
  ar_vault :: vault
  ar_done :: "(prune_table \<times> int) list"
  ar_failed :: "(prune_table \<times> int) list"
  ar_rows :: int
  exports :: "(prune_table \<times> int \<times> text_u list) list"
  fetches :: "(prune_table \<times> int \<times> octets) list"

definition job_failed :: "prune_table \<Rightarrow> int \<Rightarrow> arc_state \<Rightarrow> arc_state" where
  "job_failed t day st = st\<lparr>ar_failed := ar_failed st @ [(t, day)]\<rparr>"

definition job_done :: "prune_table \<Rightarrow> int \<Rightarrow> int \<Rightarrow> arc_state \<Rightarrow> arc_state" where
  "job_done t day n st = st\<lparr>ar_done := ar_done st @ [(t, day)], ar_rows := ar_rows st + n\<rparr>"

definition archive_job_remote :: "archive_env \<Rightarrow> archive_cfg \<Rightarrow> job_tick \<Rightarrow> prune_table \<Rightarrow> int \<Rightarrow> arc_state \<Rightarrow> arc_state" where
  "archive_job_remote A c k t day st =
     (case archive_day_remote A (job_now k) (transfers c) (job_trip k) (job_broken k) (receipt_fails k) t day (ar_src st) (ar_vault st) of
        (Inl e, v) \<Rightarrow> job_failed t day (st\<lparr>ar_vault := v\<rparr>)
      | (Inr (r, b), v) \<Rightarrow> job_done t day (rc_local_rows r) (st\<lparr>ar_vault := v, fetches := (t, day, b) # fetches st\<rparr>))"

definition archive_job_local :: "archive_env \<Rightarrow> job_tick \<Rightarrow> prune_table \<Rightarrow> int \<Rightarrow> arc_state \<Rightarrow> arc_state" where
  "archive_job_local A k t day st =
     (case export_day A (job_now k) (job_broken k) t day (ar_src st) (ar_vault st) of
        (Inl e, v) \<Rightarrow> job_failed t day (st\<lparr>ar_vault := v\<rparr>)
      | (Inr man, v) \<Rightarrow>
          (case verify_file A (job_now k) True (archive_name A t day) man v of
             (None, v1) \<Rightarrow> job_failed t day (st\<lparr>ar_vault := v1\<rparr>)
           | (Some False, v1) \<Rightarrow> job_failed t day (st\<lparr>ar_vault := v1\<rparr>)
           | (Some True, v1) \<Rightarrow>
               if truthy (get_key man ''skipped'') then st\<lparr>ar_vault := v1\<rparr>
               else (case man_int man ''rows'' of
                   None \<Rightarrow> job_failed t day (st\<lparr>ar_vault := v1\<rparr>)
                 | Some n \<Rightarrow> job_done t day n (st\<lparr>ar_vault := v1\<rparr>))))"

definition archive_job :: "archive_env \<Rightarrow> archive_cfg \<Rightarrow> job_tick \<Rightarrow> prune_table \<times> int \<Rightarrow> arc_state \<Rightarrow> arc_state" where
  "archive_job A c k td st0 =
     (let st1 = st0\<lparr>ar_src := job_others k (ar_src st0)\<rparr>;
          st = st1\<lparr>exports := (fst td, snd td, map snd (day_rows (cal A) (ar_src st1) (fst td) (snd td))) # exports st1\<rparr> in
      if remote_enabled c then archive_job_remote A c k (fst td) (snd td) st
      else archive_job_local A k (fst td) (snd td) st)"

text \<open>The jobs in order, as long as the ticks last.\<close>

fun archive_jobs :: "archive_env \<Rightarrow> archive_cfg \<Rightarrow> (prune_table \<times> int) list \<Rightarrow> job_tick list \<Rightarrow> arc_state \<Rightarrow> arc_state" where
  "archive_jobs A c [] ks st = st"
| "archive_jobs A c (td # tds) [] st = st"
| "archive_jobs A c (td # tds) (k # ks) st = archive_jobs A c tds ks (archive_job A c k td st)"

text \<open>Days outside, tables inside, so that a day is complete before the next one begins.\<close>

definition job_order :: "int list \<Rightarrow> int list \<Rightarrow> (prune_table \<times> int) list" where
  "job_order trades_days book_days =
     concat (map (\<lambda>d. (if d \<in> set trades_days then [(Trades, d)] else []) @ (if d \<in> set book_days then [(BookTop, d)] else []))
       (sort (remdups (trades_days @ book_days))))"

text \<open>\<open>readable\<close>: whether the queries for the first and last row of a table succeed. \<open>False\<close>: the run ends by an exception.\<close>

definition archive_once ::
  "archive_env \<Rightarrow> archive_cfg \<Rightarrow> seconds \<Rightarrow> (prune_table \<Rightarrow> bool) \<Rightarrow> job_tick list \<Rightarrow> arc_state \<Rightarrow> bool \<times> arc_state" where
  "archive_once A c now readable ks st0 =
     (let st = st0\<lparr>ar_done := [], ar_failed := [], ar_rows := 0\<rparr>;
          src = (\<lambda>t. if readable t then Some (ar_src st) else None) in
      case pending_days A now (archive_lag_s c) (remote_enabled c) Trades (src Trades) (ar_vault st) of
        (None, v) \<Rightarrow> (False, st\<lparr>ar_vault := v\<rparr>)
      | (Some ds, v) \<Rightarrow>
          (case pending_days A now (archive_lag_s c) (remote_enabled c) BookTop (src BookTop) v of
             (None, v1) \<Rightarrow> (False, st\<lparr>ar_vault := v1\<rparr>)
           | (Some bs, v1) \<Rightarrow>
               (let st1 = archive_jobs A c (job_order ds bs) ks (st\<lparr>ar_vault := v1\<rparr>) in (True, st1))))"

subsection \<open>The floor and the deletion of the writer\<close>

definition archive_floor_us :: "archive_env \<Rightarrow> archive_cfg \<Rightarrow> source \<Rightarrow> vault \<Rightarrow> int option" where
  "archive_floor_us A c s v =
     (let commands = archive_dir_set c \<and> push_command (transfers c) \<noteq> [] \<and> fetch_command (transfers c) \<noteq> [] in
      if 0 < retention_days_cfg c \<and> remote_required c \<and> \<not> commands then Some 0
      else if \<not> (archive_dir_set c \<and> remote_required c) then None
      else (let rc = get_cutoff (cal A) s (receipt_view A v) in Some (if allowed rc then cutoff_us rc else 0)))"

text \<open>The progress files that a deletion wrote, back in the directory.\<close>

definition store_progress :: "seconds \<Rightarrow> receipt_dir \<Rightarrow> receipt_dir \<Rightarrow> vault \<Rightarrow> vault" where
  "store_progress now before after v =
     fold (\<lambda>(n, c) v. case c of None \<Rightarrow> v
        | Some j \<Rightarrow> if map_of before n = Some (Some j) then v else put_file n \<lparr>body = Doc j, mtime = now\<rparr> v) after v"

definition prune_locked ::
  "archive_env \<Rightarrow> archive_cfg \<Rightarrow> seconds \<Rightarrow> tick list \<Rightarrow> arc_state \<Rightarrow> prune_result option \<times> (prune_table \<times> src_row) list \<times> arc_state" where
  "prune_locked A c now tks st =
     (let view = receipt_view A (ar_vault st);
          receipts = (if archive_dir_set c then Some view else None);
          (r, ps) = prune (cal A) (retention_days_cfg c) now (Some (retention_budget_s c))
            (archive_floor_us A c (ar_src st) (ar_vault st)) receipts False tks (ar_src st)
      in (r, gone ps, st\<lparr>ar_src := ps_src ps,
            ar_vault := (if archive_dir_set c then store_progress now view (ps_dir ps) (ar_vault st) else ar_vault st)\<rparr>))"

text \<open>The life of the archive: others write, an archive run, a deletion. A run that is cut off has fewer ticks.\<close>

datatype arc_event =
    OthersWrite "source \<Rightarrow> source"
  | ArchiveRun seconds "prune_table \<Rightarrow> bool" "job_tick list"
  | PruneRun seconds "tick list"

fun arc_step :: "archive_env \<Rightarrow> archive_cfg \<Rightarrow> arc_event \<Rightarrow> arc_state \<times> (prune_table \<times> src_row) list
    \<Rightarrow> arc_state \<times> (prune_table \<times> src_row) list" where
  "arc_step A c (OthersWrite f) (st, dead) = (st\<lparr>ar_src := f (ar_src st)\<rparr>, dead)"
| "arc_step A c (ArchiveRun now readable ks) (st, dead) = (snd (archive_once A c now readable ks st), dead)"
| "arc_step A c (PruneRun now tks) (st, dead) = (let (r, d, st1) = prune_locked A c now tks st in (st1, dead @ d))"

definition arc_run :: "archive_env \<Rightarrow> archive_cfg \<Rightarrow> arc_event list \<Rightarrow> arc_state \<Rightarrow> arc_state \<times> (prune_table \<times> src_row) list" where
  "arc_run A c es st = fold (arc_step A c) es (st, [])"

end
