(* ===== verification/ArchiveSafety.thy ===== *)
theory ArchiveSafety
  imports Archive
begin

section \<open>Archive and retention together: only what came back from the remote is deleted\<close>

text \<open>
  The invariant of the archive directory: a file named \<^verbatim>\<open>.json\<close> is the manifest of an export of this
  program, or a document that is no manifest and that the readers of receipts may trust. Exports,
  restored versions, receipts and progress files keep it, whatever the transfers do, and with it a
  deletion of \<^verbatim>\<open>retention.py\<close> only takes rows of an exported day whose bytes came back.
\<close>

lemma get_key_simps:
  "get_key ((k, v) # kvs) s = (case map_of (rev kvs) (asc s) of None \<Rightarrow> if asc s = k then v else JNull | Some x \<Rightarrow> x)"
  by (simp add: get_key_def obj_get_def map_add_def split: option.split)

lemma asc_eq [simp]: "asc a = asc b \<longleftrightarrow> a = b"
  unfolding asc_def by (rule inj_map_eq_map) (simp add: inj_on_def)

lemma manifest_fields:
  fixes A t day ls b
  defines "m \<equiv> manifest_json A t day ls b"
  shows "get_key m ''table'' = JStr (table_name t)" "get_key m ''day'' = JStr (text_of_day (cal A) day)"
    "get_key m ''rows'' = JNum (int (length ls))" "get_key m ''source_table'' = JStr (table_name t)"
    "get_key m ''source_day'' = JStr (text_of_day (cal A) day)" "get_key m ''source_from_us'' = JNum (fst (day_bounds_us day))"
    "get_key m ''source_to_us'' = JNum (snd (day_bounds_us day))" "get_key m ''source_rows'' = JNum (int (length ls))"
    "get_key m ''source_content_sha256'' = JStr (sha_hex A (utf8 (csv_text t ls)))"
    "get_key m ''bytes'' = JNum (int (length b))" "man_sha256 A m = sha_hex A b" "man_sha256 A (skipped m) = sha_hex A b"
    "get_key m ''schema_version'' = JNull" "get_key m ''remaining_content_sha256'' = JNull"
    "get_key m ''skipped'' = JNull"
  unfolding m_def manifest_json_def
  by (simp_all add: Let_def split_beta get_key_def obj_get_def man_sha256_def py_str_def skipped_def)

lemma skipped_get [simp]: "k \<noteq> ''skipped'' \<Longrightarrow> get_key (skipped m) k = get_key m k"
  by (simp add: get_key_def obj_get_def skipped_def)

lemma skipped_sha [simp]: "man_sha256 A (skipped m) = man_sha256 A m"
  by (simp add: man_sha256_def obj_get_def skipped_def)

subsection \<open>Names of files\<close>

lemma ends_json_app: "length s \<ge> 5 \<Longrightarrow> ends_json (p @ s) \<longleftrightarrow> ends_json s"
  by (simp add: ends_json_def)

lemma ends_json_manifest [simp]: "ends_json (manifest_name p)"
  by (simp add: manifest_name_def ends_json_app) (simp add: ends_json_def asc_def)

lemma artifact_not_json [simp]: "\<not> ends_json (p @ asc ''.csv.gz'')" "\<not> ends_json (p @ asc ''.partial'')"
  by (simp_all add: ends_json_app asc_def) (simp_all add: ends_json_def asc_def)

lemma archive_name_not_json [simp]: "\<not> ends_json (archive_name A t day)"
  using artifact_not_json(1) [of "table_name t @ 45 # text_of_day (cal A) day"] by (simp add: archive_name_def)

lemma object_id_not_json: "object_id_for_manifest man = Inr obj \<Longrightarrow> \<not> ends_json obj"
  by (auto simp: object_id_for_manifest_def Let_def split: json.splits if_splits simp flip: append_assoc append_Cons)

lemma manifest_name_cut [simp]: "take (length (manifest_name p) - 5) (manifest_name p) = p"
  by (simp add: manifest_name_def asc_def)

lemma ends_json_cut: "ends_json n \<Longrightarrow> manifest_name (take (length n - 5) n) = n"
  by (metis append_take_drop_id ends_json_def manifest_name_def)

lemma version_manifestsD:
  assumes "n \<in> set (version_manifests A t day v)"
  shows "ends_json n" "\<not> ends_json (take (length n - 5) n)"
proof -
  have n: "ends_json n" "ends_csv_gz (take (length n - 5) n)" using assms by (auto simp: version_manifests_def)
  show "ends_json n" by (rule n)
  let ?m = "take (length n - 5) n"
  have "?m = take (length ?m - 7) ?m @ asc ''.csv.gz''" using n(2) by (metis append_take_drop_id ends_csv_gz_def)
  then show "\<not> ends_json ?m" by (metis artifact_not_json(1))
qed

subsection \<open>What the archive directory holds\<close>

text \<open>The exports that the model remembers, and those whose artifact came back from the remote.\<close>

type_synonym export = "prune_table \<times> int \<times> text_u list"

definition artifact :: "archive_env \<Rightarrow> prune_table \<Rightarrow> text_u list \<Rightarrow> octets" where
  "artifact A t ls = gzip A (utf8 (csv_text t ls))"

definition safe_archive :: "archive_env \<Rightarrow> export set \<Rightarrow> (prune_table \<times> int \<times> octets) set \<Rightarrow> archive" where
  "safe_archive A xs fs t day = {ls. (t, day, ls) \<in> xs \<and> (t, day, artifact A t ls) \<in> fs}"

definition archive_ok :: "archive_env \<Rightarrow> bool" where
  "archive_ok A \<longleftrightarrow> env_ok (cal A) \<and> (\<forall>t ls. content_sha (cal A) (table_name t) ls = sha_hex A (utf8 (csv_text t ls)))
     \<and> (\<forall>b. gunzip A (gzip A b) = Got b) \<and> (\<forall>b. length (sha_hex A b) = 64)"

text \<open>No other bytes have the digest of an exported file, no other lines the digest of a part of an exported day.\<close>

definition digests_bind :: "archive_env \<Rightarrow> export set \<Rightarrow> bool" where
  "digests_bind A xs \<longleftrightarrow> (\<forall>t day ls. (t, day, ls) \<in> xs \<longrightarrow>
     (\<forall>b. sha_hex A b = sha_hex A (artifact A t ls) \<longrightarrow> b = artifact A t ls)
     \<and> (\<forall>part other. mset part \<subseteq># mset ls \<longrightarrow> sha_hex A (utf8 (csv_text t other)) = sha_hex A (utf8 (csv_text t part)) \<longrightarrow> other = part))"

definition doc_ok :: "archive_env \<Rightarrow> export set \<Rightarrow> archive \<Rightarrow> json \<Rightarrow> bool" where
  "doc_ok A xs arc j \<longleftrightarrow> (\<exists>t day ls. (t, day, ls) \<in> xs \<and> j = JObj (manifest_json A t day ls (artifact A t ls)))
     \<or> (\<exists>kvs. j = JObj kvs \<and> man_sha256 A kvs = []) \<and> file_ok (cal A) arc j"

definition vault_ok :: "archive_env \<Rightarrow> export set \<Rightarrow> archive \<Rightarrow> vault \<Rightarrow> bool" where
  "vault_ok A xs arc v \<longleftrightarrow> (\<forall>n f. (n, f) \<in> set (files v) \<longrightarrow> ends_json n \<longrightarrow> (\<exists>j. body f = Doc j \<and> doc_ok A xs arc j))"

lemma vault_ok_put:
  "vault_ok A xs arc v \<Longrightarrow> (ends_json n \<Longrightarrow> \<exists>j. body f = Doc j \<and> doc_ok A xs arc j) \<Longrightarrow> vault_ok A xs arc (put_file n f v)"
  by (auto simp: vault_ok_def put_file_def dest!: update_memD)

lemma vault_ok_cache [simp]: "vault_ok A xs arc (v\<lparr>cache := c\<rparr>) = vault_ok A xs arc v"
  by (simp add: vault_ok_def)

lemma vault_ok_remove: "vault_ok A xs arc v \<Longrightarrow> vault_ok A xs arc (remove_file n v)"
  by (auto simp: vault_ok_def remove_file_def AList.delete_eq)

lemma vault_ok_copy:
  "vault_ok A xs arc v \<Longrightarrow> (ends_json dst \<Longrightarrow> ends_json src) \<Longrightarrow> vault_ok A xs arc (copy_file src dst v)"
  by (auto simp: copy_file_def split: option.split intro!: vault_ok_put) (auto simp: vault_ok_def dest!: map_of_SomeD)

lemma vault_ok_preserve:
  "vault_ok A xs arc v \<Longrightarrow> preserve_versioned p man v = Inr v1 \<Longrightarrow> vault_ok A xs arc v1"
  by (auto simp: preserve_versioned_def Let_def split: sum.splits if_splits intro!: vault_ok_copy dest: object_id_not_json)

lemma vault_ok_verify: "vault_ok A xs arc v \<Longrightarrow> vault_ok A xs arc (snd (verify_file A now c p man v))"
  by (auto simp: verify_file_def Let_def split: option.split)

lemma best_candidate_in:
  "best_candidate cs = Got (Some x) \<Longrightarrow> Got x \<in> set cs"
proof (induction cs arbitrary: x)
  case (Cons c cs)
  then show ?case by (auto simp: better_def split: got.splits option.splits if_splits)
qed simp

lemma best_candidate_name:
  assumes "best_candidate (map (candidate A v) ns) = Got (Some (r, n))"
  shows "n \<in> set ns"
proof -
  from best_candidate_in [OF assms] obtain m where m: "m \<in> set ns" "candidate A v m = Got (r, n)" by auto
  then have "m = n" by (auto simp: candidate_def split: got.splits option.splits if_splits)
  with m show ?thesis by simp
qed

lemma vault_ok_restore:
  assumes "vault_ok A xs arc v" "\<not> ends_json p"
  shows "vault_ok A xs arc (snd (restore_versioned A t day p v))"
proof (cases "best_candidate (map (candidate A v) (version_manifests A t day v))")
  case (Got b)
  show ?thesis
  proof (cases b)
    case (Some rn)
    obtain r n where rn: "rn = (r, n)" by (cases rn)
    have n: "ends_json n" using best_candidate_name Got Some rn version_manifestsD(1) by blast
    have "vault_ok A xs arc (copy_file n (manifest_name p) (copy_file (take (length n - 5) n) p v))"
      by (intro vault_ok_copy assms(1)) (use n assms(2) in auto)
    then show ?thesis by (auto simp: restore_versioned_def Got Some rn Let_def split: got.split option.split)
  qed (use assms Got in \<open>simp add: restore_versioned_def\<close>)
qed (use assms in \<open>simp_all add: restore_versioned_def\<close>)

lemma vault_ok_export:
  assumes "vault_ok A xs arc v" "(t, day, map snd (day_rows (cal A) s t day)) \<in> xs"
  shows "vault_ok A xs arc (snd (export_day A now broken t day s v))"
proof -
  let ?p = "archive_name A t day"
  have doc: "doc_ok A xs arc (JObj (manifest_json A t day (map snd (day_rows (cal A) s t day))
      (gzip A (utf8 (csv_text t (map snd (day_rows (cal A) s t day)))))))"
    using assms(2) by (auto simp: doc_ok_def artifact_def)
  have fresh0: "vault_ok A xs arc (snd (export_fresh A now broken t day s ?p w))" if w: "vault_ok A xs arc w" for w
    using w doc by (auto simp: export_fresh_def Let_def split: option.split sum.split intro!: vault_ok_put vault_ok_remove
        elim!: vault_ok_preserve [rotated])
  have fresh: "vault_ok A xs arc (snd (case restore_versioned A t day ?p w of (Missing, v2) \<Rightarrow> export_fresh A now broken t day s ?p v2
      | (Got man, v2) \<Rightarrow> (Inr man, v2) | (Raises, v2) \<Rightarrow> (Inl Escaped, v2)))" if w: "vault_ok A xs arc w" for w
    using vault_ok_restore [OF w, of ?p t day] fresh0 by (auto split: prod.splits got.splits)
  have ver: "vault_ok A xs arc (snd (verify_file A now True ?p man v))" for man by (rule vault_ok_verify [OF assms(1)])
  show ?thesis
  proof (cases "read_manifest A v (manifest_name ?p)")
    case (Got man)
    obtain r v1 where r: "verify_file A now True ?p man v = (r, v1)" by fastforce
    with ver [of man] have v1: "vault_ok A xs arc v1" by simp
    show ?thesis using fresh [OF assms(1)] fresh [OF v1] v1 vault_ok_preserve [OF v1, of ?p man]
      by (auto simp: export_day_def Let_def Got r split: option.split bool.split sum.split simp del: prod.case)
  qed (use assms(1) fresh [OF assms(1)] in \<open>simp_all add: export_day_def Let_def\<close>)
qed

subsection \<open>A receipt means that the exported bytes came back\<close>

lemma attempt_Inr: "attempt m f = Inr y \<longleftrightarrow> (\<exists>x. m = Inr x \<and> f x = Inr y)"
  by (cases m) (auto simp: attempt_def)

lemma require_Inr [simp]: "require ok e = Inr u \<longleftrightarrow> ok"
  by (simp add: require_def)

lemma caught_Inr [simp]: "caught e g = Inr x \<longleftrightarrow> g = Got x"
  by (simp add: caught_def split: got.split)

lemma verified_Inr [simp]: "verified A v p man e = Inr u \<longleftrightarrow> verify_file_uncached A v p man = Some True"
  by (simp add: verified_def split: option.split)

lemma manifest_number_Inr [simp]: "manifest_number man k = Inr n \<longleftrightarrow> man_int man k = Some n"
  by (simp add: manifest_number_def split: option.split)

lemma verified_bytes:
  assumes "verify_file_uncached A v p man = Some True"
  shows "\<exists>f. map_of (files v) p = Some f \<and> sha_hex A (file_bytes A f) = man_sha256 A man
    \<and> py_int (get_key man ''bytes'') = Some (int (length (file_bytes A f)))"
  using assms by (auto simp: verify_file_uncached_def Let_def split: option.splits if_splits)

lemma read_manifest_ok:
  assumes "vault_ok A xs arc v" "read_manifest A v (manifest_name p) = Got man" "length (man_sha256 A man) = 64"
  shows "\<exists>t day ls. (t, day, ls) \<in> xs \<and> man = manifest_json A t day ls (artifact A t ls)"
proof -
  from assms(2) obtain f j where f: "map_of (files v) (manifest_name p) = Some f" "file_json A f = Some j" "dict_of j = Got man"
    by (auto simp: read_manifest_def split: option.splits)
  from assms(1) f(1) obtain k where k: "body f = Doc k" "doc_ok A xs arc k"
    unfolding vault_ok_def by (metis ends_json_manifest map_of_SomeD)
  with f(2) have "k = j" by (simp add: file_json_def)
  with k(2) f(3) assms(3) show ?thesis by (fastforce simp: doc_ok_def)
qed

lemma fetched_vault_artifact:
  "map_of (files (fetched_vault p art man)) p = map_option (\<lambda>b. \<lparr>body = Blob b, mtime = 0\<rparr>) art"
proof -
  have "p \<noteq> manifest_name p" by (simp add: manifest_name_def asc_def)
  then show ?thesis by (auto simp: fetched_vault_def split: option.split)
qed

lemma roundtrip_receipt:
  assumes ok: "archive_ok A" "digests_bind A xs" "vault_ok A xs arc v"
    and trip: "verify_remote_roundtrip A cfg tr p obj tbl day pf v = Inr (r, b)"
  shows "\<exists>t d ls. (t, d, ls) \<in> xs \<and> b = artifact A t ls \<and> rc_source_table r = JStr (table_name t)
    \<and> rc_source_day r = JStr (text_of_day (cal A) d) \<and> rc_source_content_sha256 r = JStr (sha_hex A (utf8 (csv_text t ls)))
    \<and> rc_table r = (case tbl of None \<Rightarrow> JNull | Some t \<Rightarrow> JStr (table_name t))
    \<and> rc_day r = (case day of None \<Rightarrow> JNull | Some d \<Rightarrow> JStr (text_of_day (cal A) d))"
proof -
  from trip obtain man fman got_files man_sha where local: "local_manifest A v p = Inr man"
    and fetched: "fetched_manifest A (fetched_path tr p) got_files man_sha man = Inr fman"
    and b: "b = (case fst got_files of None \<Rightarrow> [] | Some x \<Rightarrow> x)"
    and r: "rc_source_table r = manifest_text A man ''source_table''" "rc_source_day r = manifest_text A man ''source_day''"
      "rc_source_content_sha256 r = manifest_text A man ''source_content_sha256''"
      "rc_table r = (case tbl of None \<Rightarrow> JNull | Some t \<Rightarrow> JStr (table_name t))"
      "rc_day r = (case day of None \<Rightarrow> JNull | Some d \<Rightarrow> JStr (text_of_day (cal A) d))"
    unfolding verify_remote_roundtrip_def Let_def attempt_Inr by auto
  from local obtain f where f: "read_manifest A v (manifest_name p) = Got man"
    "sha_hex A (file_bytes A f) = man_sha256 A man"
    by (auto simp: local_manifest_def attempt_Inr dest!: verified_bytes)
  have "length (man_sha256 A man) = 64" using ok(1) f(2) by (metis archive_ok_def)
  from read_manifest_ok [OF ok(3) f(1) this] obtain t d ls where
    x: "(t, d, ls) \<in> xs" and man: "man = manifest_json A t d ls (artifact A t ls)" by blast
  from fetched have fv: "verify_file_uncached A (fetched_vault (fetched_path tr p) (fst got_files) (snd got_files)) (fetched_path tr p) fman = Some True"
    and same: "man_sha256 A fman = man_sha256 A man"
    by (auto simp: fetched_manifest_def Let_def attempt_Inr split: option.splits)
  from verified_bytes [OF fv] obtain ab where "fst got_files = Some ab" "sha_hex A ab = man_sha256 A fman"
    by (auto simp: fetched_vault_artifact file_bytes_def)
  with b same have "sha_hex A b = sha_hex A (artifact A t ls)" by (simp add: man manifest_fields)
  with ok(2) x have "b = artifact A t ls" unfolding digests_bind_def by blast
  with x r show ?thesis by (intro exI [of _ t] exI [of _ d] exI [of _ ls]) (simp add: man manifest_text_def manifest_fields py_str_def Let_def)
qed

lemma strict_receiptD:
  assumes "strict_receipt E (JObj d) t = Some r"
  shows "get_key d ''table'' = JStr (table_name t) \<and> get_key d ''source_table'' = JStr (table_name t)
    \<and> get_key d ''source_content_sha256'' = JStr (dr_sha r)
    \<and> (\<exists>s. get_key d ''day'' = JStr s \<and> get_key d ''source_day'' = JStr s \<and> day_of_text E s = Some (dr_day r))"
  using assms by (auto simp: strict_receipt_def Let_def split_beta split: if_splits json.splits option.splits)

lemma receipt_fields:
  "\<exists>d. receipt_json r = JObj d \<and> get_key d ''table'' = rc_table r \<and> get_key d ''day'' = rc_day r
    \<and> get_key d ''source_table'' = rc_source_table r \<and> get_key d ''source_day'' = rc_source_day r
    \<and> get_key d ''source_content_sha256'' = rc_source_content_sha256 r
    \<and> get_key d ''remaining_content_sha256'' = JNull \<and> (\<forall>A. man_sha256 A d = [])"
  by (simp add: receipt_json_def get_key_def obj_get_def man_sha256_def py_str_def)

lemma doc_ok_receipt:
  assumes ok: "archive_ok A" "digests_bind A xs" "vault_ok A xs arc v"
    and trip: "verify_remote_roundtrip A cfg tr p obj (Some t) (Some day) pf v = Inr (r, b)"
    and arc: "\<And>ls. (t, day, ls) \<in> xs \<Longrightarrow> b = artifact A t ls \<Longrightarrow> ls \<in> arc t day"
  shows "doc_ok A xs arc (receipt_json r)"
proof -
  from roundtrip_receipt [OF ok trip] obtain t' d ls where x: "(t', d, ls) \<in> xs" "b = artifact A t' ls"
    "rc_source_table r = JStr (table_name t')" "rc_source_day r = JStr (text_of_day (cal A) d)"
    "rc_source_content_sha256 r = JStr (sha_hex A (utf8 (csv_text t' ls)))"
    "rc_table r = JStr (table_name t)" "rc_day r = JStr (text_of_day (cal A) day)" by auto
  from receipt_fields [of r] obtain kvs where kvs: "receipt_json r = JObj kvs" "get_key kvs ''table'' = rc_table r"
    "get_key kvs ''day'' = rc_day r" "get_key kvs ''source_table'' = rc_source_table r" "get_key kvs ''source_day'' = rc_source_day r"
    "get_key kvs ''source_content_sha256'' = rc_source_content_sha256 r" "get_key kvs ''remaining_content_sha256'' = JNull"
    "man_sha256 A kvs = []" by blast
  have env: "env_ok (cal A)" using ok(1) by (simp add: archive_ok_def)
  have "dr_sha q \<in> content_sha (cal A) (table_name u) ` arc u (dr_day q)" if q: "strict_receipt (cal A) (JObj kvs) u = Some q" for u q
  proof -
    from strict_receiptD [OF q] x kvs have u: "u = t" "u = t'" and "text_of_day (cal A) day = text_of_day (cal A) d"
      and dd: "day_of_text (cal A) (text_of_day (cal A) day) = Some (dr_day q)" and sha: "dr_sha q = sha_hex A (utf8 (csv_text t' ls))"
      by auto
    then have d: "d = day" "dr_day q = day" using env text_of_day_inject [OF env] by (auto simp: env_ok_def)
    have "ls \<in> arc t day" by (rule arc) (use x u d in auto)
    with u d sha ok(1) show ?thesis by (auto simp: archive_ok_def)
  qed
  then have "file_ok (cal A) arc (JObj kvs)" using kvs(7) by (auto simp: file_ok_def is_sha256_def)
  with kvs show ?thesis by (auto simp: doc_ok_def)
qed

lemma strict_manifest_none: "strict_receipt E (JObj (manifest_json A t day ls b)) u = None"
  by (simp add: strict_receipt_def manifest_fields Let_def)

lemma doc_ok_file: "doc_ok A xs arc j \<Longrightarrow> file_ok (cal A) arc j"
  by (auto simp: doc_ok_def file_ok_def strict_manifest_none manifest_fields is_sha256_def)

lemma file_ok_mono:
  assumes "file_ok E arc j" "\<And>t day. arc t day \<subseteq> arc' t day"
  shows "file_ok E arc' j"
  using assms unfolding file_ok_def archived_part_def by blast

lemma doc_ok_mono:
  "doc_ok A xs arc j \<Longrightarrow> xs \<subseteq> xs' \<Longrightarrow> (\<And>t day. arc t day \<subseteq> arc' t day) \<Longrightarrow> doc_ok A xs' arc' j"
  using file_ok_mono [of "cal A" arc j arc'] unfolding doc_ok_def by blast

lemma vault_ok_mono:
  assumes "vault_ok A xs arc v" "xs \<subseteq> xs'" "\<And>t day. arc t day \<subseteq> arc' t day"
  shows "vault_ok A xs' arc' v"
  using assms doc_ok_mono [of A xs arc _ xs' arc'] unfolding vault_ok_def by meson

lemma digests_bind_mono: "digests_bind A xs' \<Longrightarrow> xs \<subseteq> xs' \<Longrightarrow> digests_bind A xs"
  unfolding digests_bind_def by blast

lemma digest_binds_archive:
  assumes "archive_ok A" "digests_bind A xs"
  shows "digest_binds (cal A) (safe_archive A xs fs)"
  using assms unfolding digest_binds_def archived_part_def safe_archive_def digests_bind_def archive_ok_def by auto

lemma dir_ok_view:
  assumes "vault_ok A xs arc v"
  shows "dir_ok (cal A) arc (receipt_view A v)"
  using assms doc_ok_file [of A xs arc]
  by (fastforce simp: dir_ok_def receipt_view_def vault_ok_def file_json_def split: if_splits)

subsection \<open>The jobs of a run\<close>

definition arc_inv :: "archive_env \<Rightarrow> arc_state \<Rightarrow> bool" where
  "arc_inv A st \<longleftrightarrow> vault_ok A (set (exports st)) (safe_archive A (set (exports st)) (set (fetches st))) (ar_vault st)"

lemma arc_inv_src [simp]: "arc_inv A (st\<lparr>ar_src := s\<rparr>) = arc_inv A st"
  "arc_inv A (job_failed t day st) = arc_inv A st" "arc_inv A (job_done t day n st) = arc_inv A st"
  by (simp_all add: arc_inv_def job_failed_def job_done_def)

lemma exports_sel [simp]: "exports (job_failed t day st) = exports st" "exports (job_done t day n st) = exports st"
  "fetches (job_failed t day st) = fetches st" "fetches (job_done t day n st) = fetches st"
  by (simp_all add: job_failed_def job_done_def)

lemma arc_inv_grow:
  assumes "arc_inv A st" "set (exports st) \<subseteq> set xs" "set (fetches st) \<subseteq> set fs"
  shows "arc_inv A (st\<lparr>exports := xs, fetches := fs\<rparr>)"
  using assms unfolding arc_inv_def
  by simp (erule vault_ok_mono, simp_all add: safe_archive_def, blast)

lemma archive_remote_ok:
  assumes ok: "archive_ok A" "digests_bind A (set (exports st))" and inv: "arc_inv A st"
    and x: "(t, day, map snd (day_rows (cal A) (ar_src st) t day)) \<in> set (exports st)"
  shows "arc_inv A (archive_job_remote A c k t day st)"
proof -
  obtain e v where run: "archive_day_remote A (job_now k) (transfers c) (job_trip k) (job_broken k) (receipt_fails k) t day
      (ar_src st) (ar_vault st) = (e, v)" by fastforce
  let ?xs = "set (exports st)"
  let ?arc = "safe_archive A ?xs (set (fetches st))"
  obtain m v1 where ex: "export_day A (job_now k) (job_broken k) t day (ar_src st) (ar_vault st) = (m, v1)" by fastforce
  have v1: "vault_ok A ?xs ?arc v1"
    using vault_ok_export [OF inv [unfolded arc_inv_def] x, of "job_now k" "job_broken k"] ex by simp
  show ?thesis
  proof (cases e)
    case (Inl err)
    then have "v = v1" using run ex by (auto simp: archive_day_remote_def split: sum.splits prod.splits if_splits)
    with v1 show ?thesis by (simp add: archive_job_remote_def run Inl arc_inv_def job_failed_def)
  next
    case (Inr rb)
    obtain r b where rb: "rb = (r, b)" by (cases rb)
    let ?fs = "insert (t, day, b) (set (fetches st))"
    let ?arc' = "safe_archive A ?xs ?fs"
    have up: "vault_ok A ?xs ?arc' v1" by (rule vault_ok_mono [OF v1]) (auto simp: safe_archive_def)
    from run ex Inr rb obtain man obj where trip: "verify_remote_roundtrip A (transfers c) (job_trip k) (archive_name A t day) obj (Some t) (Some day) True v1 = Inr (r, b)"
      and v: "v = write_receipt (job_now k) r v1"
      by (auto simp: archive_day_remote_def attempt_Inr split: sum.splits prod.splits if_splits)
    have "doc_ok A ?xs ?arc' (receipt_json r)"
      by (rule doc_ok_receipt [OF ok up trip]) (auto simp: safe_archive_def)
    then have "vault_ok A ?xs ?arc' v" unfolding v write_receipt_def by (intro vault_ok_put up) simp
    then show ?thesis by (simp add: archive_job_remote_def run Inr rb arc_inv_def job_done_def)
  qed
qed

lemma archive_local_ok:
  assumes inv: "arc_inv A st" and x: "(t, day, map snd (day_rows (cal A) (ar_src st) t day)) \<in> set (exports st)"
  shows "arc_inv A (archive_job_local A k t day st)"
proof -
  obtain m v1 where ex: "export_day A (job_now k) (job_broken k) t day (ar_src st) (ar_vault st) = (m, v1)" by fastforce
  have v1: "vault_ok A (set (exports st)) (safe_archive A (set (exports st)) (set (fetches st))) v1"
    using vault_ok_export [OF inv [unfolded arc_inv_def] x, of "job_now k" "job_broken k"] ex by simp
  show ?thesis
  proof (cases m)
    case (Inr man)
    obtain r v2 where ver: "verify_file A (job_now k) True (archive_name A t day) man v1 = (r, v2)" by fastforce
    with vault_ok_verify [OF v1, of "job_now k" True "archive_name A t day" man]
    have "arc_inv A (st\<lparr>ar_vault := v2\<rparr>)" by (simp add: arc_inv_def)
    then show ?thesis by (simp add: archive_job_local_def ex Inr ver split: option.split bool.split)
  qed (use v1 in \<open>simp add: archive_job_local_def ex arc_inv_def job_failed_def\<close>)
qed

lemma archive_job_exports:
  "exports (archive_job A c k td st) = (fst td, snd td, map snd (day_rows (cal A) (job_others k (ar_src st)) (fst td) (snd td))) # exports st"
  by (auto simp: archive_job_def archive_job_remote_def archive_job_local_def Let_def split: prod.split sum.split option.split bool.split)

lemma archive_job_fetches: "set (fetches st) \<subseteq> set (fetches (archive_job A c k td st))"
  by (auto simp: archive_job_def archive_job_remote_def archive_job_local_def Let_def split: prod.split sum.split option.split bool.split)

lemma archive_job_ok:
  assumes "archive_ok A" "digests_bind A (set (exports (archive_job A c k td st)))" "arc_inv A st"
  shows "arc_inv A (archive_job A c k td st)"
proof -
  let ?x = "(fst td, snd td, map snd (day_rows (cal A) (job_others k (ar_src st)) (fst td) (snd td)))"
  let ?st = "st\<lparr>ar_src := job_others k (ar_src st), exports := ?x # exports st\<rparr>"
  have "arc_inv A (st\<lparr>exports := ?x # exports st, fetches := fetches st\<rparr>)"
    by (rule arc_inv_grow [OF assms(3)]) auto
  then have inv: "arc_inv A ?st" by (simp add: arc_inv_def)
  have bind: "digests_bind A (set (exports ?st))" using assms(2) by (simp add: archive_job_exports)
  have x: "(fst td, snd td, map snd (day_rows (cal A) (ar_src ?st) (fst td) (snd td))) \<in> set (exports ?st)" by simp
  show ?thesis using archive_remote_ok [OF assms(1) bind inv x] archive_local_ok [OF inv x]
    by (simp add: archive_job_def Let_def)
qed
subsection \<open>The deletion\<close>

definition progress_only :: "retention_env \<Rightarrow> receipt_dir \<Rightarrow> receipt_dir \<Rightarrow> bool" where
  "progress_only E dir0 dir \<longleftrightarrow> (\<forall>n j. (n, Some j) \<in> set dir \<longrightarrow>
     (n, Some j) \<in> set dir0 \<or> (\<exists>t day pr upd. j = progress_json E t day pr upd))"

lemma progress_only_write: "progress_only E dir0 dir \<Longrightarrow> progress_only E dir0 (write_progress E t day pr upd dir)"
  unfolding progress_only_def write_progress_def by (blast dest: update_memD)

lemma progress_only_batch:
  assumes "progress_only E dir0 (ps_dir st)" "prune_batch E r budget fl l t tk st = (e, st1)"
  shows "progress_only E dir0 (ps_dir st1)"
  using assms by (auto simp: prune_batch_def Let_def intro!: progress_only_write
      split: sum.splits prod.splits if_splits option.splits)

lemma progress_only_one:
  "progress_only E dir0 (ps_dir st) \<Longrightarrow> progress_only E dir0 (ps_dir (snd (snd (prune_one E r budget fl l t tks st))))"
proof (induction tks arbitrary: st)
  case (Cons tk tks)
  obtain e st1 where b: "prune_batch E r budget fl l t tk st = (e, st1)" by fastforce
  then have "progress_only E dir0 (ps_dir st1)" by (rule progress_only_batch [OF Cons.prems])
  then show ?case using Cons.IH [of st1] b by (cases e) simp_all
qed simp

lemma note_deleted_dir [simp]: "ps_dir (note_deleted t st) = ps_dir st"
  by (simp add: note_deleted_def)

lemma progress_only_tables:
  "progress_only E dir0 (ps_dir st) \<Longrightarrow> progress_only E dir0 (ps_dir (snd (snd (prune_tables E r budget fl l ts tks st))))"
proof (induction ts arbitrary: st tks)
  case (Cons t ts)
  obtain e tks1 st1 where one: "prune_one E r budget fl l t tks (st\<lparr>ps_count := 0\<rparr>) = (e, tks1, st1)"
    by (cases "prune_one E r budget fl l t tks (st\<lparr>ps_count := 0\<rparr>)")
  have "progress_only E dir0 (ps_dir st1)"
    using progress_only_one [of E dir0 "st\<lparr>ps_count := 0\<rparr>" r budget fl l t tks] Cons.prems one by simp
  then show ?case using Cons.IH one by (auto simp: Let_def split: option.splits batch_end.splits)
qed simp

lemma progress_only_prune: "progress_only E dir (ps_dir (snd (prune E rd now_s budget fl (Some dir) al tks s)))"
proof -
  let ?st0 = "\<lparr>ps_src = s, ps_dir = dir, ps_deleted = [], ps_batches = 0, ps_count = 0, gone = []\<rparr>"
  have "progress_only E dir (ps_dir ?st0)" by (simp add: progress_only_def)
  with progress_only_tables [OF this] show ?thesis
    by (auto simp: prune_def Let_def split_beta split: option.split)
qed

lemma progress_no_manifest: "\<exists>kvs. progress_json E t day pr upd = JObj kvs \<and> man_sha256 A kvs = []"
  by (simp add: progress_json_def man_sha256_def obj_get_def py_str_def)

lemma vault_ok_progress:
  assumes "vault_ok A xs arc v" "dir_ok (cal A) arc after" "progress_only (cal A) (receipt_view A v) after"
  shows "vault_ok A xs arc (store_progress now (receipt_view A v) after v)"
proof -
  let ?f = "\<lambda>(n, c) w. case c of None \<Rightarrow> w
        | Some j \<Rightarrow> if map_of (receipt_view A v) n = Some (Some j) then w else put_file n \<lparr>body = Doc j, mtime = now\<rparr> w"
  have doc: "doc_ok A xs arc j" if j: "(n, Some j) \<in> set after" for n j
  proof (cases "(n, Some j) \<in> set (receipt_view A v)")
    case True
    then obtain f where "(n, f) \<in> set (files v)" "ends_json n" "file_json A f = Some j"
      by (auto simp: receipt_view_def split: if_splits)
    with assms(1) show ?thesis unfolding vault_ok_def by (fastforce simp: file_json_def)
  next
    case False
    then obtain t day pr upd where "j = progress_json (cal A) t day pr upd"
      using assms(3) j unfolding progress_only_def by blast
    moreover have "file_ok (cal A) arc j" using assms(2) j by (simp add: dir_ok_def)
    ultimately show ?thesis using progress_no_manifest [of "cal A" t day pr upd A] by (auto simp: doc_ok_def)
  qed
  have "vault_ok A xs arc (fold ?f fs w)" if "set fs \<subseteq> set after" "vault_ok A xs arc w" for fs w
    using that
  proof (induction fs arbitrary: w)
    case (Cons p fs)
    obtain n c where p: "p = (n, c)" by (cases p)
    have "vault_ok A xs arc (?f p w)"
      using Cons.prems doc by (auto simp: p split: option.split intro!: vault_ok_put)
    from Cons.IH [OF _ this] Cons.prems(1) show ?case by simp
  qed simp
  from this [OF order_refl assms(1)] show ?thesis by (simp add: store_progress_def)
qed

text \<open>What a deleted row must be: a line of what came back for its own day.\<close>

definition fetched_back :: "archive_env \<Rightarrow> arc_state \<Rightarrow> prune_table \<times> src_row \<Rightarrow> bool" where
  "fetched_back A st p \<longleftrightarrow> (\<exists>ls b. snd (snd p) \<in> set ls \<and> (fst p, day_of_us (fst (snd p)), ls) \<in> set (exports st)
     \<and> (fst p, day_of_us (fst (snd p)), b) \<in> set (fetches st) \<and> gunzip A b = Got (utf8 (csv_text (fst p) ls)))"

lemma fetched_back_intro:
  assumes "archive_ok A" "archived_row (safe_archive A (set (exports st)) (set (fetches st))) l p"
  shows "fetched_back A st p"
  using assms unfolding archived_row_def safe_archive_def fetched_back_def archive_ok_def artifact_def by fast

lemma archived_row_prune:
  assumes "archive_ok A" "digests_bind A (set (exports st))" "arc_inv A st" "archive_dir_set c \<or> remote_required c"
    and run: "prune_locked A c now tks st = (r, dead, st1)"
  shows "arc_inv A st1 \<and> list_all (fetched_back A st) dead \<and> exports st1 = exports st \<and> fetches st1 = fetches st"
proof (cases "archive_dir_set c")
  case True
  let ?arc = "safe_archive A (set (exports st)) (set (fetches st))" and ?view = "receipt_view A (ar_vault st)"
  let ?run = "prune (cal A) (retention_days_cfg c) now (Some (retention_budget_s c)) (archive_floor_us A c (ar_src st) (ar_vault st)) (Some ?view) False tks (ar_src st)"
  have env: "env_ok (cal A)" using assms(1) by (simp add: archive_ok_def)
  have inv: "vault_ok A (set (exports st)) ?arc (ar_vault st)" using assms(3) by (simp add: arc_inv_def)
  have binds: "digest_binds (cal A) ?arc" by (rule digest_binds_archive [OF assms(1,2)])
  obtain r0 ps where ps: "?run = (r0, ps)" by fastforce
  from prune_run_safe [OF env binds dir_ok_view [OF inv]] obtain l where safe: "prune_safe (cal A) ?arc l ps"
    using ps by (metis snd_conv)
  have only: "progress_only (cal A) ?view (ps_dir ps)" using progress_only_prune ps by (metis snd_conv)
  have v: "vault_ok A (set (exports st)) ?arc (store_progress now ?view (ps_dir ps) (ar_vault st))"
    by (rule vault_ok_progress [OF inv _ only]) (use safe in \<open>simp add: prune_safe_def\<close>)
  have "list_all (fetched_back A st) (gone ps)"
    by (rule list.pred_mono_strong [of "archived_row ?arc l"]) (use safe fetched_back_intro [OF assms(1)] in \<open>auto simp: prune_safe_def\<close>)
  with v run show ?thesis by (auto simp: prune_locked_def Let_def True ps arc_inv_def)
next
  case False
  then have "archive_floor_us A c (ar_src st) (ar_vault st) = Some 0 \<or> \<not> 0 < retention_days_cfg c"
    using assms(4) by (simp add: archive_floor_us_def)
  then have "gone (snd (prune (cal A) (retention_days_cfg c) now (Some (retention_budget_s c)) (archive_floor_us A c (ar_src st) (ar_vault st)) None False tks (ar_src st))) = []"
    by (auto simp: prune_def Let_def)
  with False run assms(3) show ?thesis by (auto simp: prune_locked_def Let_def arc_inv_def split: prod.splits)
qed
subsection \<open>Runs\<close>

definition grows :: "arc_state \<Rightarrow> arc_state \<Rightarrow> bool" where
  "grows st st' \<longleftrightarrow> set (exports st) \<subseteq> set (exports st') \<and> set (fetches st) \<subseteq> set (fetches st')"

lemma grows_trans: "grows a b \<Longrightarrow> grows b c \<Longrightarrow> grows a c"
  by (auto simp: grows_def)

lemma fetched_back_grows: "grows st st' \<Longrightarrow> fetched_back A st p \<Longrightarrow> fetched_back A st' p"
  unfolding grows_def fetched_back_def by blast

lemma archive_jobs_grows: "grows st (archive_jobs A c tds ks st)"
proof (induction A c tds ks st rule: archive_jobs.induct)
  case (3 A c td tds k ks st)
  have "grows st (archive_job A c k td st)" using archive_job_fetches by (auto simp: grows_def archive_job_exports)
  then show ?case using grows_trans 3 by simp
qed (simp_all add: grows_def)

lemma archive_jobs_ok:
  "archive_ok A \<Longrightarrow> digests_bind A (set (exports (archive_jobs A c tds ks st))) \<Longrightarrow> arc_inv A st
    \<Longrightarrow> arc_inv A (archive_jobs A c tds ks st)"
proof (induction A c tds ks st rule: archive_jobs.induct)
  case (3 A c td tds k ks st)
  have "digests_bind A (set (exports (archive_job A c k td st)))"
    by (rule digests_bind_mono [OF 3(3)]) (use archive_jobs_grows in \<open>auto simp: grows_def\<close>)
  then show ?case using 3 archive_job_ok by simp
qed simp_all

lemma arc_inv_vault:
  "arc_inv A st \<Longrightarrow> vault_ok A (set (exports st)) (safe_archive A (set (exports st)) (set (fetches st))) v
    \<Longrightarrow> arc_inv A (st\<lparr>ar_vault := v\<rparr>)"
  by (simp add: arc_inv_def)

lemma verify_files: "verify_file A now c p man v = (r, v1) \<Longrightarrow> files v1 = files v"
  by (auto simp: verify_file_def Let_def split: option.splits if_splits)

lemma archived_in_files: "archived_in A now t ns v = (r, v1) \<Longrightarrow> files v1 = files v"
proof (induction ns arbitrary: v r v1)
  case (Cons n ns)
  obtain r2 v2 where rest: "archived_in A now t ns v = (r2, v2)" by fastforce
  show ?case
  proof (cases "read_manifest A v (manifest_name n)")
    case (Got man)
    obtain ok w where w: "verify_file A now True n man v = (ok, w)" by fastforce
    obtain r3 v3 where rest': "archived_in A now t ns w = (r3, v3)" by fastforce
    show ?thesis using Cons.prems Cons.IH [OF rest] Cons.IH [OF rest'] verify_files [OF w]
      by (auto simp: Got w rest rest' Let_def split: if_splits option.splits bool.splits)
  qed (use Cons.prems Cons.IH [OF rest] in \<open>auto simp: rest split: if_splits\<close>)
qed simp

lemma pending_files: "pending_days A now lag b t s v = (r, v1) \<Longrightarrow> files v1 = files v"
  by (auto simp: pending_days_def archived_days_def split: option.splits if_splits prod.splits dest: archived_in_files)

lemma vault_ok_files: "files v1 = files v \<Longrightarrow> vault_ok A xs arc v1 = vault_ok A xs arc v"
  by (simp add: vault_ok_def)

lemma archive_once_cases:
  obtains st1 where "files (ar_vault st1) = files (ar_vault st)" "exports st1 = exports st" "fetches st1 = fetches st"
    "snd (archive_once A c now readable ks st) = st1 \<or> (\<exists>tds. snd (archive_once A c now readable ks st) = archive_jobs A c tds ks st1)"
proof -
  let ?st = "st\<lparr>ar_done := [], ar_failed := [], ar_rows := 0\<rparr>"
  obtain r v where 1: "pending_days A now (archive_lag_s c) (remote_enabled c) Trades (if readable Trades then Some (ar_src ?st) else None) (ar_vault ?st) = (r, v)"
    by fastforce
  obtain r1 v1 where 2: "pending_days A now (archive_lag_s c) (remote_enabled c) BookTop (if readable BookTop then Some (ar_src ?st) else None) v = (r1, v1)"
    by fastforce
  have f: "files v = files (ar_vault st)" "files v1 = files (ar_vault st)" using pending_files [OF 1] pending_files [OF 2] by simp_all
  show thesis
  proof (cases r)
    case None
    show thesis by (rule that [of "?st\<lparr>ar_vault := v\<rparr>"])
        (use f None in \<open>simp_all only: archive_once_def Let_def 1 prod.case option.case, simp_all\<close>)
  next
    case (Some ds)
    have "snd (archive_once A c now readable ks st) = (case r1 of None \<Rightarrow> ?st\<lparr>ar_vault := v1\<rparr>
        | Some bs \<Rightarrow> archive_jobs A c (job_order ds bs) ks (?st\<lparr>ar_vault := v1\<rparr>))"
      by (simp only: archive_once_def Let_def 1 2 Some prod.case option.case) (simp split: option.split)
    then show thesis by (intro that [of "?st\<lparr>ar_vault := v1\<rparr>"]) (use f in \<open>auto split: option.splits\<close>)
  qed
qed

lemma archive_once_ok:
  assumes "archive_ok A" "arc_inv A st" "digests_bind A (set (exports (snd (archive_once A c now readable ks st))))"
  shows "arc_inv A (snd (archive_once A c now readable ks st)) \<and> grows st (snd (archive_once A c now readable ks st))"
proof -
  obtain st1 where s: "files (ar_vault st1) = files (ar_vault st)" "exports st1 = exports st" "fetches st1 = fetches st"
    and e: "snd (archive_once A c now readable ks st) = st1 \<or> (\<exists>tds. snd (archive_once A c now readable ks st) = archive_jobs A c tds ks st1)"
    by (rule archive_once_cases)
  have "arc_inv A st1" using assms(2) s vault_ok_files [OF s(1)] by (simp add: arc_inv_def)
  moreover have "grows st st1" by (simp add: grows_def s)
  ultimately show ?thesis using e archive_jobs_ok [OF assms(1)] archive_jobs_grows grows_trans assms(3) by metis
qed

lemma prune_locked_ghosts: "prune_locked A c now tks st = (r, dead, st1) \<Longrightarrow> exports st1 = exports st \<and> fetches st1 = fetches st"
  by (auto simp: prune_locked_def Let_def split: prod.splits)

lemma archive_once_grows: "grows st (snd (archive_once A c now readable ks st))"
proof -
  obtain st1 where "exports st1 = exports st" "fetches st1 = fetches st"
    and "snd (archive_once A c now readable ks st) = st1 \<or> (\<exists>tds. snd (archive_once A c now readable ks st) = archive_jobs A c tds ks st1)"
    by (rule archive_once_cases)
  then show ?thesis using archive_jobs_grows grows_trans [of st st1] by (metis grows_def order_refl)
qed

lemma arc_step_grows: "grows (fst s) (fst (arc_step A c e s))"
proof (cases s)
  case (Pair st dead)
  show ?thesis
  proof (cases e)
    case (PruneRun now tks)
    obtain r d st1 where "prune_locked A c now tks st = (r, d, st1)" by (cases "prune_locked A c now tks st")
    with prune_locked_ghosts [OF this] show ?thesis by (simp add: Pair PruneRun grows_def)
  qed (simp_all add: Pair archive_once_grows, simp add: grows_def)
qed

lemma arc_fold_grows: "grows (fst s) (fst (fold (arc_step A c) es s))"
proof (induction es arbitrary: s)
  case (Cons e es)
  have "grows (fst s) (fst (fold (arc_step A c) es (arc_step A c e s)))" by (rule grows_trans [OF arc_step_grows Cons.IH])
  then show ?case by simp
qed (simp add: grows_def)

lemma arc_step_ok:
  assumes "archive_ok A" "archive_dir_set c \<or> remote_required c" "arc_inv A (fst s)" "list_all (fetched_back A (fst s)) (snd s)"
    and "digests_bind A (set (exports (fst (arc_step A c e s))))"
  shows "arc_inv A (fst (arc_step A c e s)) \<and> list_all (fetched_back A (fst (arc_step A c e s))) (snd (arc_step A c e s))"
proof (cases s)
  case (Pair st dead)
  have old: "list_all (fetched_back A st') dead" if "grows st st'" for st'
    by (rule list.pred_mono_strong [OF assms(4) [unfolded Pair snd_conv]]) (use that fetched_back_grows Pair in auto)
  show ?thesis
  proof (cases e)
    case (OthersWrite f)
    show ?thesis using assms(3) old [of "st\<lparr>ar_src := f (ar_src st)\<rparr>"] by (simp add: Pair OthersWrite grows_def)
  next
    case (ArchiveRun now readable ks)
    show ?thesis using archive_once_ok [OF assms(1)] assms(3,5) old by (simp add: Pair ArchiveRun)
  next
    case (PruneRun now tks)
    obtain r d st1 where run: "prune_locked A c now tks st = (r, d, st1)" by (cases "prune_locked A c now tks st")
    note g = prune_locked_ghosts [OF run]
    have "digests_bind A (set (exports st))" using assms(5) run g by (simp add: Pair PruneRun)
    from archived_row_prune [OF assms(1) this _ assms(2) run] assms(3)
    have new: "arc_inv A st1" "list_all (fetched_back A st) d" by (simp_all add: Pair)
    have "fetched_back A st1 p = fetched_back A st p" for p using g by (simp add: fetched_back_def)
    with new old [of st] show ?thesis by (auto simp: Pair PruneRun run grows_def list_all_iff)
  qed
qed

lemma arc_fold_ok:
  "archive_ok A \<Longrightarrow> archive_dir_set c \<or> remote_required c \<Longrightarrow> arc_inv A (fst s) \<Longrightarrow> list_all (fetched_back A (fst s)) (snd s)
    \<Longrightarrow> digests_bind A (set (exports (fst (fold (arc_step A c) es s))))
    \<Longrightarrow> arc_inv A (fst (fold (arc_step A c) es s))
      \<and> list_all (fetched_back A (fst (fold (arc_step A c) es s))) (snd (fold (arc_step A c) es s))"
proof (induction es arbitrary: s)
  case (Cons e es)
  have "digests_bind A (set (exports (fst (arc_step A c e s))))"
    by (rule digests_bind_mono [OF Cons.prems(5)]) (use arc_fold_grows [of "arc_step A c e s" A c es] in \<open>simp add: grows_def\<close>)
  from arc_step_ok [OF Cons.prems(1-4) this] Cons.IH [OF Cons.prems(1,2)] Cons.prems(5) show ?case by simp
qed simp

text \<open>
  C2: the writer only deletes what came back from the remote. Let the archive directory be set, or the
  archive be required. Over any run of inserts, archive runs and deletions, whatever the transfer
  commands do and bring back, whichever queries, receipts and batches fail, wherever a run is cut
  off, every deleted row is a line of an export of its own table and day, and for that table and day
  bytes were fetched from the remote that decompress to exactly that export. The digests of the exports bind.
\<close>

theorem deleted_rows_came_back:
  assumes "archive_ok A" "archive_dir_set c \<or> remote_required c" "arc_inv A st"
    and "digests_bind A (set (exports (fst (arc_run A c es st))))"
  shows "list_all (fetched_back A (fst (arc_run A c es st))) (snd (arc_run A c es st))"
  using arc_fold_ok [OF assms(1,2), of "(st, [])" es] assms(3,4) by (simp add: arc_run_def)
subsection \<open>A transfer that works\<close>

lemma line_count_line:
  "list_all (\<lambda>c. c \<noteq> 10 \<and> c \<noteq> 13) l \<Longrightarrow> line_count (l @ 10 # s) = Suc (line_count s)"
  by (induction l) auto

definition clean_line :: "text_u \<Rightarrow> bool" where
  "clean_line l \<longleftrightarrow> list_all (\<lambda>c. c \<noteq> 10 \<and> c \<noteq> 13 \<and> scalar c) l"

lemma clean_header: "clean_line (join_with 44 (archive_columns t))"
  by (cases t) (simp_all add: clean_line_def asc_def scalar_def)

lemma line_count_lines:
  "list_all clean_line ls \<Longrightarrow> line_count (concat (map (\<lambda>l. l @ [10]) ls)) = length ls"
proof (induction ls)
  case (Cons l ls)
  then have "list_all (\<lambda>c. c \<noteq> 10 \<and> c \<noteq> 13) l" by (simp add: clean_line_def list_all_iff)
  from line_count_line [OF this] Cons show ?case by simp
qed simp

lemma line_count_csv: "list_all clean_line ls \<Longrightarrow> line_count (csv_text t ls) = Suc (length ls)"
  using line_count_lines [of "join_with 44 (archive_columns t) # ls"] clean_header by (simp add: csv_text_def)

lemma decode_csv:
  assumes "list_all clean_line ls"
  shows "strict_decode (utf8 (csv_text t ls)) = Some (csv_text t ls)"
proof -
  have "\<forall>l \<in> set (join_with 44 (archive_columns t) # ls). clean_line l"
    using assms clean_header [of t] by (auto simp: list_all_iff)
  moreover have "scalar 10" by (simp add: scalar_def)
  ultimately have "\<forall>c \<in> set (csv_text t ls). scalar c" unfolding csv_text_def by (auto simp: clean_line_def list_all_iff)
  from utf8_decode_utf8 [OF this] show ?thesis by (simp add: strict_decode_def Let_def)
qed

lemma exported_verifies:
  assumes "archive_ok A" "list_all clean_line ls" "map_of (files v) p = Some f" "file_bytes A f = artifact A t ls"
  shows "verify_file_uncached A v p (manifest_json A t day ls (artifact A t ls)) = Some True"
proof -
  have "gunzip A (artifact A t ls) = Got (utf8 (csv_text t ls))" using assms(1) by (simp add: archive_ok_def artifact_def)
  with assms show ?thesis
    by (simp add: verify_file_uncached_def Let_def manifest_fields decode_csv line_count_csv man_int_def)
qed

lemma object_id_manifest:
  assumes "archive_ok A" "text_of_day (cal A) day \<noteq> []"
  shows "object_id_for_manifest (manifest_json A t day ls b) =
    Inr (asc ''archive/'' @ table_name t @ 47 # text_of_day (cal A) day @ 47 # sha_hex A (utf8 (csv_text t ls)) @ asc ''.csv.gz'')"
proof -
  have "table_name t \<noteq> []" by (cases t) (simp_all add: asc_def)
  with assms show ?thesis by (simp add: object_id_for_manifest_def manifest_fields Let_def archive_ok_def)
qed

lemma archive_name_apart [simp]: "archive_name A t day \<noteq> asc ''archive/'' @ s" "manifest_name (archive_name A t day) \<noteq> asc ''archive/'' @ s"
  by (cases t; simp add: archive_name_def manifest_name_def asc_def)+

lemmas archive_name_apart' [simp] = archive_name_apart [symmetric]

lemma manifest_name_app [simp]: "manifest_name (a @ b) = a @ manifest_name b"
  by (simp add: manifest_name_def)

lemma preserve_files:
  assumes "preserve_versioned p man v = Inr v1" "object_id_for_manifest man = Inr obj" "n \<noteq> obj" "n \<noteq> manifest_name obj"
  shows "map_of (files v1) n = map_of (files v) n"
  using assms by (auto simp: preserve_versioned_def Let_def copy_file_def put_file_def update_conv' split: option.splits if_splits)

lemma names_apart [simp]: "manifest_name p \<noteq> p" "p \<noteq> manifest_name p"
  by (simp_all add: manifest_name_def asc_def)

lemma export_day_fresh:
  assumes "archive_ok A" "text_of_day (cal A) day \<noteq> []"
    and "map_of (files v) (manifest_name (archive_name A t day)) = None" "version_manifests A t day v = []"
    and ls: "ls = map snd (day_rows (cal A) s t day)"
  obtains v1 where "export_day A now None t day s v = (Inr (manifest_json A t day ls (artifact A t ls)), v1)"
    "map_of (files v1) (archive_name A t day) = Some \<lparr>body = Blob (artifact A t ls), mtime = now\<rparr>"
    "map_of (files v1) (manifest_name (archive_name A t day)) = Some \<lparr>body = Doc (JObj (manifest_json A t day ls (artifact A t ls))), mtime = now\<rparr>"
proof -
  let ?p = "archive_name A t day" and ?m = "manifest_json A t day ls (artifact A t ls)"
  let ?v2 = "put_file (manifest_name ?p) \<lparr>body = Doc (JObj ?m), mtime = now\<rparr>
      (put_file ?p \<lparr>body = Blob (artifact A t ls), mtime = now\<rparr> (remove_file (?p @ asc ''.partial'') v))"
  note obj = object_id_manifest [OF assms(1,2), of t ls "artifact A t ls"]
  have "\<exists>v1. preserve_versioned ?p ?m ?v2 = Inr v1" by (simp add: preserve_versioned_def obj Let_def)
  then obtain v1 where v1: "preserve_versioned ?p ?m ?v2 = Inr v1" by blast
  have "export_day A now None t day s v = (Inr ?m, v1)"
    using assms(3,4) v1 by (simp add: export_day_def read_manifest_def restore_versioned_def export_fresh_def Let_def
        artifact_def ls)
  moreover have "map_of (files v1) n = map_of (files ?v2) n" if "n = ?p \<or> n = manifest_name ?p" for n
    by (rule preserve_files [OF v1 obj]) (use that in auto)
  from this [of ?p] this [of "manifest_name ?p"]
  have "map_of (files v1) ?p = Some \<lparr>body = Blob (artifact A t ls), mtime = now\<rparr>"
    "map_of (files v1) (manifest_name ?p) = Some \<lparr>body = Doc (JObj ?m), mtime = now\<rparr>"
    by (simp_all add: put_file_def update_conv')
  ultimately show thesis by (rule that)
qed

text \<open>A command that can be run, and a remote that gives back what was pushed to it.\<close>

definition usable :: "archive_env \<Rightarrow> text_u \<Rightarrow> text_u \<Rightarrow> bool" where
  "usable A command path_word \<longleftrightarrow> \<not> list_all blank command \<and> contains (asc ''{object}'') command \<and> contains path_word command
     \<and> \<not> contains (asc ''{file}'') command \<and> shlex A command \<noteq> None"

definition faithful_trip :: "trip \<Rightarrow> octets \<Rightarrow> octets \<Rightarrow> bool" where
  "faithful_trip tr art man \<longleftrightarrow> (\<forall>argv. push_artifact tr argv = Exit 0 None \<and> push_manifest tr argv = Exit 0 None
     \<and> fetch_artifact tr argv = Exit 0 (Some art) \<and> fetch_manifest tr argv = Exit 0 (Some man))"

lemma run_transfer_push:
  "usable A command (asc ''{source}'') \<Longrightarrow> valid_object_id obj \<Longrightarrow> (\<And>argv. exec argv = Exit 0 left)
    \<Longrightarrow> run_transfer A command (Some src) obj None exec = Inr left"
  by (auto simp: run_transfer_def usable_def Let_def)

lemma run_transfer_fetch:
  "usable A command (asc ''{destination}'') \<Longrightarrow> valid_object_id obj \<Longrightarrow> (\<And>argv. exec argv = Exit 0 left)
    \<Longrightarrow> run_transfer A command None obj (Some dst) exec = Inr left"
  by (auto simp: run_transfer_def usable_def Let_def)

lemma attempt_Inr_left [simp]: "attempt (Inr x) f = f x"
  by (simp add: attempt_def)

lemma caught_Got [simp]: "caught e (Got x) = Inr x" and require_True [simp]: "require True e = Inr ()"
  by (simp_all add: caught_def require_def)

lemma fetched_vault_manifest:
  "map_of (files (fetched_vault p (Some art) (Some man))) (manifest_name p) = Some \<lparr>body = Blob man, mtime = 0\<rparr>"
  by (simp add: fetched_vault_def)

definition full_receipt :: "archive_env \<Rightarrow> remote_cfg \<Rightarrow> trip \<Rightarrow> prune_table \<Rightarrow> int \<Rightarrow> text_u list \<Rightarrow> text_u \<Rightarrow> remote_receipt" where
  "full_receipt A cfg tr t day ls obj =
     (let man = manifest_json A t day ls (artifact A t ls); n = int (length ls); b = int (length (artifact A t ls));
          msha = sha_hex A (doc_bytes A (JObj man)); p = archive_name A t day in
      \<lparr>rc_object_id = obj, rc_artifact = path_name p, rc_manifest = path_name (manifest_name p), rc_table = JStr (table_name t),
        rc_day = JStr (text_of_day (cal A) day), rc_local_sha256 = sha_hex A (artifact A t ls), rc_local_bytes = b, rc_local_rows = n,
        rc_fetch_sha256 = sha_hex A (artifact A t ls), rc_fetch_bytes = b, rc_fetch_rows = n, rc_manifest_sha256 = msha,
        rc_remote_manifest_sha256 = msha, rc_source_table = JStr (table_name t), rc_source_day = JStr (text_of_day (cal A) day),
        rc_source_from_us = JNum (fst (day_bounds_us day)), rc_source_to_us = JNum (snd (day_bounds_us day)), rc_source_rows = JNum n,
        rc_source_content_sha256 = JStr (sha_hex A (utf8 (csv_text t ls))), rc_verified_at = verified_at tr,
        rc_transport = transport_id A (fetch_command cfg)\<rparr>)"

lemma roundtrip_succeeds:
  assumes ok: "archive_ok A" "list_all clean_line ls"
    and files: "map_of (files v) (archive_name A t day) = Some \<lparr>body = Blob (artifact A t ls), mtime = m1\<rparr>"
      "map_of (files v) (manifest_name (archive_name A t day)) = Some \<lparr>body = Doc (JObj (manifest_json A t day ls (artifact A t ls))), mtime = m2\<rparr>"
    and cmds: "usable A (push_command cfg) (asc ''{source}'')" "usable A (fetch_command cfg) (asc ''{destination}'')"
      "valid_object_id obj" "valid_object_id (manifest_name obj)"
    and trip: "faithful_trip tr (artifact A t ls) (doc_bytes A (JObj (manifest_json A t day ls (artifact A t ls))))"
      "parse_json A (doc_bytes A (JObj (manifest_json A t day ls (artifact A t ls)))) = Some (JObj (manifest_json A t day ls (artifact A t ls)))"
  shows "verify_remote_roundtrip A cfg tr (archive_name A t day) obj (Some t) (Some day) True v =
    Inr (full_receipt A cfg tr t day ls obj, artifact A t ls)"
proof -
  let ?p = "archive_name A t day" and ?m = "manifest_json A t day ls (artifact A t ls)" and ?b = "artifact A t ls"
  let ?mb = "doc_bytes A (JObj ?m)"
  let ?fv = "fetched_vault (fetched_path tr ?p) (Some ?b) (Some ?mb)"
  have local: "local_manifest A v ?p = Inr ?m"
    using exported_verifies [OF ok(1,2) files(1), where day = day] files(2)
    by (simp add: local_manifest_def read_manifest_def file_bytes_def file_json_def verified_def)
  have push: "push_both A cfg tr ?p obj = Inr None"
    using trip(1) by (simp add: push_both_def run_transfer_push [OF cmds(1,3)] run_transfer_push [OF cmds(1,4)] faithful_trip_def)
  have fetch: "fetch_both A cfg tr ?p obj = Inr (Some ?b, Some ?mb)"
    using trip(1) by (simp add: fetch_both_def run_transfer_fetch [OF cmds(2,3)] run_transfer_fetch [OF cmds(2,4)] faithful_trip_def)
  have fv: "verify_file_uncached A ?fv (fetched_path tr ?p) ?m = Some True"
    by (rule exported_verifies [OF ok(1,2), where f = "\<lparr>body = Blob (artifact A t ls), mtime = 0\<rparr>"]) (simp_all add: fetched_vault_artifact file_bytes_def)
  have fm: "read_manifest A ?fv (manifest_name (fetched_path tr ?p)) = Got ?m"
    by (simp add: read_manifest_def fetched_vault_manifest file_json_def trip(2))
  have returned: "fetched_manifest A (fetched_path tr ?p) (Some ?b, Some ?mb) (sha_hex A ?mb) ?m = Inr ?m"
    by (simp add: fetched_manifest_def Let_def fm verified_def fv manifest_number_def man_int_def manifest_fields json_eq_def)
  show ?thesis
    by (simp add: verify_remote_roundtrip_def local push fetch returned files(2) file_bytes_def Let_def manifest_number_def man_int_def
        manifest_fields manifest_text_def manifest_int_def py_str_def full_receipt_def)
qed

lemma full_receipt_strict:
  assumes "archive_ok A" "\<And>b. is_sha256 (JStr (sha_hex A b))" "obj \<noteq> []"
  shows "strict_receipt (cal A) (receipt_json (full_receipt A cfg tr t day ls obj)) t =
    Some \<lparr>dr_day = day, dr_rows = int (length ls), dr_sha = content_sha (cal A) (table_name t) ls\<rparr>"
  using assms
  by (simp add: strict_receipt_def receipt_json_def full_receipt_def Let_def get_key_def obj_get_def REMOTE_RECEIPT_SCHEMA_VERSION_def
      archive_ok_def env_ok_def positive_int_def split_beta)

lemma day_archived_remotely:
  assumes ok: "archive_ok A"
    and cmds: "usable A (push_command cfg) (asc ''{source}'')" "usable A (fetch_command cfg) (asc ''{destination}'')"
    and fresh: "map_of (files v) (manifest_name (archive_name A t day)) = None" "version_manifests A t day v = []"
    and ls: "ls = map snd (day_rows (cal A) s t day)" "list_all clean_line ls"
    and obj: "obj = asc ''archive/'' @ table_name t @ 47 # text_of_day (cal A) day @ 47 # sha_hex A (utf8 (csv_text t ls)) @ asc ''.csv.gz''"
      "valid_object_id obj" "valid_object_id (manifest_name obj)" "text_of_day (cal A) day \<noteq> []"
    and trip: "faithful_trip tr (artifact A t ls) (doc_bytes A (JObj (manifest_json A t day ls (artifact A t ls))))"
      "parse_json A (doc_bytes A (JObj (manifest_json A t day ls (artifact A t ls)))) = Some (JObj (manifest_json A t day ls (artifact A t ls)))"
  shows "\<exists>v1. archive_day_remote A now cfg tr None False t day s v =
    (Inr (full_receipt A cfg tr t day ls obj, artifact A t ls), write_receipt now (full_receipt A cfg tr t day ls obj) v1)"
proof -
  obtain v1 where ex: "export_day A now None t day s v = (Inr (manifest_json A t day ls (artifact A t ls)), v1)"
    and f: "map_of (files v1) (archive_name A t day) = Some \<lparr>body = Blob (artifact A t ls), mtime = now\<rparr>"
      "map_of (files v1) (manifest_name (archive_name A t day)) = Some \<lparr>body = Doc (JObj (manifest_json A t day ls (artifact A t ls))), mtime = now\<rparr>"
    using export_day_fresh [OF ok obj(4) fresh ls(1)] by metis
  note trip = roundtrip_succeeds [OF ok ls(2) f cmds obj(2,3) trip]
  show ?thesis by (intro exI [of _ v1]) (simp add: archive_day_remote_def ex object_id_manifest [OF ok obj(4)] trip flip: obj(1))
qed

lemma full_receipt_day:
  assumes "archive_ok A" "\<And>b. is_sha256 (JStr (sha_hex A b))"
  shows "receipt_day A (receipt_json (full_receipt A cfg tr t day ls obj)) t = Some day"
  using assms
  by (simp add: receipt_day_def receipt_json_def full_receipt_def Let_def get_key_def obj_get_def REMOTE_RECEIPT_SCHEMA_VERSION_def
      archive_ok_def env_ok_def)

lemma receipt_in_view:
  assumes "in_dir (receipt_name (rc_object_id r))"
  shows "(receipt_name (rc_object_id r), Some (receipt_json r)) \<in> set (receipt_view A (write_receipt now r v))"
proof -
  have "map_of (files (write_receipt now r v)) (receipt_name (rc_object_id r)) = Some \<lparr>body = Doc (receipt_json r), mtime = now\<rparr>"
    by (simp add: write_receipt_def put_file_def update_conv')
  moreover have "ends_json (receipt_name (rc_object_id r))"
    by (simp add: receipt_name_def ends_json_app) (simp add: ends_json_def asc_def)
  ultimately show ?thesis using assms by (force simp: receipt_view_def file_json_def dest: map_of_SomeD)
qed

text \<open>
  C20: a day whose transfers work is archived for good. Let nothing of a day of a table be in the archive
  directory yet, its lines hold no line break, both commands be usable and the remote give back the
  pushed bytes. Then archiving the day succeeds; the directory holds a receipt that the strict reading
  of retention accepts, with exactly the row count and the digest of the source's rows of that
  day; and the day is no longer among those that are still to be archived.
\<close>

theorem archived_day_counts:
  assumes ok: "archive_ok A" "\<forall>b. is_sha256 (JStr (sha_hex A b))"
    and cmds: "usable A (push_command cfg) (asc ''{source}'')" "usable A (fetch_command cfg) (asc ''{destination}'')"
    and fresh: "map_of (files v) (manifest_name (archive_name A t day)) = None" "version_manifests A t day v = []"
    and ls: "ls = map snd (day_rows (cal A) s t day)" "list_all clean_line ls"
    and obj: "obj = asc ''archive/'' @ table_name t @ 47 # text_of_day (cal A) day @ 47 # sha_hex A (utf8 (csv_text t ls)) @ asc ''.csv.gz''"
      "valid_object_id obj" "valid_object_id (manifest_name obj)" "text_of_day (cal A) day \<noteq> []"
    and trip: "faithful_trip tr (artifact A t ls) (doc_bytes A (JObj (manifest_json A t day ls (artifact A t ls))))"
      "parse_json A (doc_bytes A (JObj (manifest_json A t day ls (artifact A t ls)))) = Some (JObj (manifest_json A t day ls (artifact A t ls)))"
  shows "\<exists>r v1. archive_day_remote A now cfg tr None False t day s v = (Inr (r, artifact A t ls), v1)
    \<and> (receipt_name obj, Some (receipt_json r)) \<in> set (receipt_view A v1)
    \<and> strict_receipt (cal A) (receipt_json r) t =
        Some \<lparr>dr_day = day, dr_rows = fst (source_day_proof (cal A) s t day), dr_sha = snd (source_day_proof (cal A) s t day)\<rparr>
    \<and> day \<notin> set (pending_between now lag_s (remote_receipt_days A (receipt_view A v1) t) rows)"
proof -
  let ?r = "full_receipt A cfg tr t day ls obj"
  from day_archived_remotely [OF ok(1) cmds fresh ls obj trip] obtain v1 where
    run: "archive_day_remote A now cfg tr None False t day s v = (Inr (?r, artifact A t ls), write_receipt now ?r v1)" by blast
  have id: "rc_object_id ?r = obj" by (simp add: full_receipt_def Let_def)
  have "in_dir (receipt_name obj)" by (auto simp: in_dir_def receipt_name_def asc_def)
  with receipt_in_view [of ?r A now v1] have view: "(receipt_name obj, Some (receipt_json ?r)) \<in> set (receipt_view A (write_receipt now ?r v1))"
    by (simp add: id)
  have strict: "strict_receipt (cal A) (receipt_json ?r) t =
      Some \<lparr>dr_day = day, dr_rows = int (length ls), dr_sha = content_sha (cal A) (table_name t) ls\<rparr>"
    by (rule full_receipt_strict) (use ok obj(1) in \<open>simp_all add: asc_def\<close>)
  have "ends_json (receipt_name obj)" by (simp add: receipt_name_def ends_json_app) (simp add: ends_json_def asc_def)
  then have "day \<in> set (remote_receipt_days A (receipt_view A (write_receipt now ?r v1)) t)"
    using view full_receipt_day [OF ok(1), of cfg tr t day ls obj] ok(2)
    by (force simp: remote_receipt_days_def map_filter_def)
  then have "day \<notin> set (pending_between now lag_s (remote_receipt_days A (receipt_view A (write_receipt now ?r v1)) t) rows)"
    by (simp add: pending_between_def Let_def)
  with run view strict show ?thesis
    by (intro exI [of _ ?r] exI [of _ "write_receipt now ?r v1"]) (simp add: source_day_proof_def Let_def ls(1))
qed
subsection \<open>A small world for the witnesses\<close>

text \<open>One line in each table, a digest that tells the texts of this world apart, a remote that gives back what it got.\<close>

definition demo_texts :: "octets list" where
  "demo_texts = [utf8 (csv_text Trades []), utf8 (csv_text Trades [[65]]), utf8 (csv_text BookTop []), utf8 (csv_text BookTop [[65]])]"

definition demo_sha_hex :: "octets \<Rightarrow> text_u" where
  "demo_sha_hex b = replicate 64 (48 + length (takeWhile (\<lambda>x. x \<noteq> b) demo_texts))"

definition demo_content_sha :: "text_u \<Rightarrow> text_u list \<Rightarrow> text_u" where
  "demo_content_sha n ls = demo_sha_hex (utf8 (csv_text (if n = table_name Trades then Trades else BookTop) ls))"

definition demo_archive_env :: archive_env where
  "demo_archive_env = \<lparr>cal = \<lparr>day_of_text = demo_text_day, text_of_day = demo_day_text, content_sha = demo_content_sha, select_order = id\<rparr>,
     sha_hex = demo_sha_hex, gzip = id, gunzip = Got, doc_bytes = (\<lambda>j. [7]), parse_json = (\<lambda>b. None),
     shlex = (\<lambda>s. Some [s]), repr_of = (\<lambda>j. [])\<rparr>"

lemma demo_archive_ok: "archive_ok demo_archive_env"
proof -
  have "demo_content_sha (table_name t) ls = demo_sha_hex (utf8 (csv_text t ls))" for t ls
    by (cases t) (simp_all add: demo_content_sha_def)
  then show ?thesis using demo_env_ok by (simp add: archive_ok_def demo_archive_env_def env_ok_def demo_env_def demo_sha_hex_def)
qed

lemma demo_hex: "is_sha256 (JStr (demo_sha_hex b))"
proof -
  have "length (takeWhile (\<lambda>x. x \<noteq> b) demo_texts) \<le> length demo_texts" by (rule length_takeWhile_le)
  then have "length (takeWhile (\<lambda>x. x \<noteq> b) demo_texts) \<in> {0, 1, 2, 3, 4}" by (auto simp: demo_texts_def)
  then show ?thesis by (auto simp: is_sha256_def demo_sha_hex_def lower_ascii_def asc_def list_all_iff)
qed

lemma utf8_ascii: "list_all (\<lambda>c. c < 0x80) u \<Longrightarrow> utf8 s = u \<longleftrightarrow> s = u"
proof (induction s arbitrary: u)
  case (Cons c s)
  show ?case
  proof (cases "c < 0x80")
    case True
    then show ?thesis using Cons by (cases u) (auto simp: utf8_char_def)
  next
    case False
    then have "\<exists>b bs. utf8_char c = b # bs \<and> 0x80 \<le> b" by (auto simp: utf8_char_def)
    then show ?thesis using Cons.prems False by (cases u) auto
  qed
qed auto

lemma index_inject:
  "x \<in> set xs \<Longrightarrow> length (takeWhile (\<lambda>y. y \<noteq> b) xs) = length (takeWhile (\<lambda>y. y \<noteq> x) xs) \<longleftrightarrow> b = x"
  by (induction xs) auto

lemma demo_sha_inject: "x \<in> set demo_texts \<Longrightarrow> demo_sha_hex b = demo_sha_hex x \<longleftrightarrow> b = x"
  using index_inject [of x demo_texts b] by (simp add: demo_sha_hex_def)

definition demo_exports :: "export list" where "demo_exports = [(Trades, 0, [[65]]), (BookTop, 0, [[65]])]"

lemma demo_csv_ascii: "ls \<in> {[], [[65]]} \<Longrightarrow> list_all (\<lambda>c. c < 0x80) (csv_text t ls)"
  by (cases t) (auto simp: csv_text_def asc_def)

lemma demo_csv_inject: "ls \<in> {[], [[65]]} \<Longrightarrow> csv_text t other = csv_text t ls \<longleftrightarrow> other = ls"
  by (cases other) (auto simp: csv_text_def append_eq_Cons_conv concat_eq_Nil_conv)

lemma demo_binds_exports: "digests_bind demo_archive_env (set demo_exports)"
proof -
  have known: "utf8 (csv_text t ls) \<in> set demo_texts" if "ls \<in> {[], [[65]]}" for t ls
    using that by (cases t) (auto simp: demo_texts_def)
  have part: "part = [] \<or> part = [[65]]" if "mset part \<subseteq># {#[65::nat]#}" for part
    using size_mset_mono [OF that] that by (cases part) auto
  have "other = part" if "part \<in> {[], [[65]]}" "demo_sha_hex (utf8 (csv_text t other)) = demo_sha_hex (utf8 (csv_text t part))" for t part other
    using that demo_sha_inject [OF known [OF that(1)]] utf8_ascii [OF demo_csv_ascii [OF that(1)]] demo_csv_inject [OF that(1)]
    by (metis demo_csv_ascii utf8_ascii)
  moreover have "b = artifact demo_archive_env t [[65]]" if "demo_sha_hex b = demo_sha_hex (artifact demo_archive_env t [[65]])" for t b
    using that demo_sha_inject [of "utf8 (csv_text t [[65]])" b, OF known] by (simp add: artifact_def demo_archive_env_def)
  ultimately show ?thesis using part
    by (auto simp: digests_bind_def demo_exports_def demo_archive_env_def)
qed

definition demo_doc :: "prune_table \<Rightarrow> json" where
  "demo_doc t = receipt_json (full_receipt demo_archive_env \<lparr>push_command = [], fetch_command = [], out_dir = []\<rparr>
     \<lparr>push_artifact = (\<lambda>_. NotStarted), push_manifest = (\<lambda>_. NotStarted), fetch_artifact = (\<lambda>_. NotStarted),
      fetch_manifest = (\<lambda>_. NotStarted), temp_dir = [], verified_at = []\<rparr> t 0 [[65]] [65])"

lemma demo_doc_strict:
  "strict_receipt (cal demo_archive_env) (demo_doc t) u =
    (if u = t then Some \<lparr>dr_day = 0, dr_rows = 1, dr_sha = content_sha (cal demo_archive_env) (table_name t) [[65]]\<rparr> else None)"
proof (cases "u = t")
  case True
  have "is_sha256 (JStr (sha_hex demo_archive_env b))" for b using demo_hex by (simp add: demo_archive_env_def)
  from full_receipt_strict [OF demo_archive_ok this] True show ?thesis by (simp add: demo_doc_def)
next
  case False
  have "strict_receipt (cal demo_archive_env) (demo_doc t) u = None"
  proof (rule ccontr)
    assume "strict_receipt (cal demo_archive_env) (demo_doc t) u \<noteq> None"
    then obtain r where r: "strict_receipt (cal demo_archive_env) (demo_doc t) u = Some r" by blast
    obtain d where d: "demo_doc t = JObj d" "get_key d ''table'' = JStr (table_name t)"
      using receipt_fields unfolding demo_doc_def by (metis (no_types, lifting) full_receipt_def remote_receipt.select_convs(4))
    show False using strict_receiptD [OF r [unfolded d(1)]] d(2) False by simp
  qed
  with False show ?thesis by simp
qed

definition demo_cfg :: archive_cfg where
  "demo_cfg = \<lparr>transfers = \<lparr>push_command = [], fetch_command = [], out_dir = []\<rparr>, archive_dir_set = True, archive_lag_s = 3600,
     retention_days_cfg = 1, retention_budget_s = 30, production = False, requires_archive = False\<rparr>"

definition demo_state :: arc_state where
  "demo_state = \<lparr>ar_src = \<lparr>src_trades = [(5, [65])], src_book = [(6, [65])]\<rparr>,
     ar_vault = \<lparr>files = [(asc ''a.json'', \<lparr>body = Doc (demo_doc Trades), mtime = 0\<rparr>), (asc ''b.json'', \<lparr>body = Doc (demo_doc BookTop), mtime = 0\<rparr>)],
       cache = []\<rparr>, ar_done = [], ar_failed = [], ar_rows = 0, exports = demo_exports,
     fetches = map (\<lambda>(t, d, ls). (t, d, artifact demo_archive_env t ls)) demo_exports\<rparr>"

definition demo_tick0 :: tick where
  "demo_tick0 = \<lparr>elapsed = 0, others = id, trouble_of = Fine, stamp = []\<rparr>"

lemma demo_arc_inv: "arc_inv demo_archive_env demo_state"
proof -
  let ?arc = "safe_archive demo_archive_env (set (exports demo_state)) (set (fetches demo_state))"
  have "[[65]] \<in> ?arc t 0" for t by (cases t) (auto simp: safe_archive_def demo_state_def demo_exports_def)
  then have strict: "dr_sha r \<in> content_sha (cal demo_archive_env) (table_name u) ` ?arc u (dr_day r)"
    if "strict_receipt (cal demo_archive_env) (demo_doc t) u = Some r" for t u r
    using that by (auto simp: demo_doc_strict split: if_splits)
  have "doc_ok demo_archive_env (set (exports demo_state)) ?arc (demo_doc t)" for t
  proof -
    obtain d where d: "demo_doc t = JObj d" "get_key d ''remaining_content_sha256'' = JNull" "man_sha256 demo_archive_env d = []"
      using receipt_fields unfolding demo_doc_def by blast
    have "file_ok (cal demo_archive_env) ?arc (demo_doc t)"
      using strict [of t] d(2) by (auto simp: file_ok_def d(1) is_sha256_def)
    with d show ?thesis by (auto simp: doc_ok_def)
  qed
  then show ?thesis unfolding arc_inv_def vault_ok_def by (auto simp: demo_state_def)
qed

definition demo_receipts :: receipt_dir where
  "demo_receipts = [(asc ''a.json'', Some (demo_doc Trades)), (asc ''b.json'', Some (demo_doc BookTop))]"

lemma demo_view: "receipt_view demo_archive_env (ar_vault demo_state) = demo_receipts"
  by (simp add: receipt_view_def demo_state_def demo_receipts_def ends_json_def in_dir_def file_json_def asc_def)

lemma strict_progress_none: "strict_receipt E (progress_json E' t day pr upd) u = None"
  by (simp add: strict_receipt_def progress_json_def get_key_def obj_get_def Let_def asc_def)

definition demo_r :: "prune_table \<Rightarrow> day_receipt" where
  "demo_r t = \<lparr>dr_day = 0, dr_rows = 1, dr_sha = content_sha (cal demo_archive_env) (table_name t) [[65]]\<rparr>"

lemma demo_remote:
  "remote_receipts (cal demo_archive_env) demo_receipts t = [(0, demo_r t)]"
  "remote_receipts (cal demo_archive_env) (write_progress (cal demo_archive_env) Trades 0 pr upd demo_receipts) t = [(0, demo_r t)]"
  by (cases t; simp add: remote_receipts_def demo_receipts_def demo_doc_strict demo_r_def write_progress_def progress_path_def
      ends_json_def asc_def strict_progress_none split: option.split)+

lemma demo_progress:
  "read_progress (cal demo_archive_env) demo_receipts t d = None"
  "read_progress (cal demo_archive_env) (write_progress (cal demo_archive_env) Trades 0 (0, demo_sha_hex b) upd demo_receipts) t 0 =
    (if t = Trades then Some (JNum 0, JStr (demo_sha_hex b)) else None)"
  using demo_hex [of b]
  by (cases t; simp add: read_progress_def demo_receipts_def progress_path_def asc_def write_progress_def progress_json_def
      get_key_def obj_get_def demo_archive_env_def positive_int_def)+

definition demo_src :: "src_row list \<Rightarrow> source" where "demo_src ts = \<lparr>src_trades = ts, src_book = [(6, [65])]\<rparr>"

lemma demo_proofs:
  "source_day_proof (cal demo_archive_env) (demo_src [(5, [65])]) t 0 = (1, dr_sha (demo_r t))"
  "source_day_proof (cal demo_archive_env) (demo_src []) BookTop 0 = (1, dr_sha (demo_r BookTop))"
  "source_day_proof (cal demo_archive_env) (demo_src []) Trades 0 = (0, demo_sha_hex (utf8 (csv_text Trades [])))"
  by (cases t; simp add: source_day_proof_def day_rows_def demo_src_def demo_r_def demo_archive_env_def day_bounds_us_def
      day_start_us_def DAY_US_def demo_content_sha_def Let_def)+

lemma demo_floor: "source_floor_day (demo_src [(5, [65])]) = Some 0" "source_floor_day (demo_src []) = Some 0"
  by (simp_all add: source_floor_day_def demo_src_def PRUNE_TABLES_def day_of_us_def DAY_US_def)

lemma demo_cutoff:
  assumes "source_floor_day s = Some 0" "\<And>t. remote_receipts E dir t = [(0, demo_r t)]" "\<And>t. source_matches E s dir t (demo_r t) = None"
  shows "get_cutoff E s dir = \<lparr>allowed = True, cutoff_us = DAY_US, reason = VerifiedRemoteCoverage\<rparr>"
  using assms by (simp add: get_cutoff_def PRUNE_TABLES_def cutoff_loop.simps [of _ _ 0] cutoff_loop.simps [of _ _ 1] day_mismatch_def
      day_start_us_def)

lemma demo_cutoff0: "get_cutoff (cal demo_archive_env) (demo_src [(5, [65])]) demo_receipts
    = \<lparr>allowed = True, cutoff_us = DAY_US, reason = VerifiedRemoteCoverage\<rparr>"
  by (rule demo_cutoff) (simp_all add: demo_floor demo_remote source_matches_def demo_r_def demo_progress demo_proofs [unfolded demo_r_def])

lemma demo_cutoff1: "get_cutoff (cal demo_archive_env) (demo_src [])
    (write_progress (cal demo_archive_env) Trades 0 (0, demo_sha_hex (utf8 (csv_text Trades []))) [] demo_receipts)
    = \<lparr>allowed = True, cutoff_us = DAY_US, reason = VerifiedRemoteCoverage\<rparr>"
proof (rule demo_cutoff)
  show "source_matches (cal demo_archive_env) (demo_src [])
    (write_progress (cal demo_archive_env) Trades 0 (0, demo_sha_hex (utf8 (csv_text Trades []))) [] demo_receipts) t (demo_r t) = None" for t
    by (cases t) (simp_all add: source_matches_def demo_r_def demo_progress demo_proofs [unfolded demo_r_def])
qed (simp_all add: demo_floor demo_remote)

lemma demo_limit: "cutoff_for 1 300000 = 213600000000"
  by (simp add: cutoff_for_def trunc_def)

lemma demo_bounds:
  "batch_bounds (cal demo_archive_env) fl 213600000000 b (demo_src [(5, [65])]) demo_receipts = Inr (86400000000, Some 0)"
  "batch_bounds (cal demo_archive_env) fl 213600000000 b (demo_src []) (write_progress (cal demo_archive_env) Trades 0
     (0, demo_sha_hex (utf8 (csv_text Trades []))) [] demo_receipts) = Inr (86400000000, Some 0)"
  by (simp_all add: batch_bounds_def Let_def demo_cutoff0 demo_cutoff1 demo_floor day_bounds_us_def day_start_us_def DAY_US_def)

lemma demo_delete:
  "delete_older_than Trades 86400000000 DELETE_BATCH (demo_src [(5, [65])]) = ([(5, [65])], demo_src [])"
  "delete_older_than BookTop 86400000000 DELETE_BATCH (demo_src []) = ([(6, [65])], \<lparr>src_trades = [], src_book = []\<rparr>)"
  by (simp_all add: delete_older_than_def DELETE_BATCH_def demo_src_def)

lemma demo_tick0_sel [simp]: "elapsed demo_tick0 = 0" "others demo_tick0 = id" "trouble_of demo_tick0 = Fine" "stamp demo_tick0 = []"
  by (simp_all add: demo_tick0_def)

lemma demo_batch1:
  "prune_batch (cal demo_archive_env) True (Some 30) fl 213600000000 Trades demo_tick0
     \<lparr>ps_src = demo_src [(5, [65])], ps_dir = demo_receipts, ps_deleted = [], ps_batches = 0, ps_count = 0, gone = []\<rparr>
   = (TableDone, \<lparr>ps_src = demo_src [], ps_dir = write_progress (cal demo_archive_env) Trades 0 (0, demo_sha_hex (utf8 (csv_text Trades []))) [] demo_receipts,
        ps_deleted = [], ps_batches = 1, ps_count = 1, gone = [(Trades, 5, [65])]\<rparr>)"
  by (simp add: prune_batch_def Let_def demo_bounds demo_delete demo_proofs) (simp add: DELETE_BATCH_def)

lemma demo_batch2:
  "\<exists>st. prune_batch (cal demo_archive_env) True (Some 30) fl 213600000000 BookTop demo_tick0
     \<lparr>ps_src = demo_src [], ps_dir = write_progress (cal demo_archive_env) Trades 0 (0, demo_sha_hex (utf8 (csv_text Trades []))) [] demo_receipts,
        ps_deleted = dd, ps_batches = 1, ps_count = 0, gone = [(Trades, 5, [65])]\<rparr>
   = (TableDone, st) \<and> gone st = [(Trades, 5, [65]), (BookTop, 6, [65])]"
  by (simp add: prune_batch_def Let_def demo_bounds demo_delete) (simp add: DELETE_BATCH_def)

lemma demo_prune:
  "gone (snd (prune (cal demo_archive_env) 1 300000 (Some 30) None (Some demo_receipts) False [demo_tick0, demo_tick0] (demo_src [(5, [65])])))
    = [(Trades, 5, [65]), (BookTop, 6, [65])]"
proof -
  from demo_batch2 [of None "[(Trades, 1)]"] show ?thesis
    by (auto simp: prune_def demo_limit Let_def PRUNE_TABLES_def demo_batch1 note_deleted_def)
qed

theorem deleted_rows_came_back_witness:
  "list_all (fetched_back demo_archive_env (fst (arc_run demo_archive_env demo_cfg [OthersWrite id, PruneRun 300000 [demo_tick0, demo_tick0]] demo_state)))
      (snd (arc_run demo_archive_env demo_cfg [OthersWrite id, PruneRun 300000 [demo_tick0, demo_tick0]] demo_state))
    \<and> snd (arc_run demo_archive_env demo_cfg [OthersWrite id, PruneRun 300000 [demo_tick0, demo_tick0]] demo_state) = [(Trades, 5, [65]), (BookTop, 6, [65])]"
proof
  let ?es = "[OthersWrite id, PruneRun 300000 [demo_tick0, demo_tick0]]"
  have src: "ar_src demo_state = demo_src [(5, [65])]" by (simp add: demo_state_def demo_src_def)
  obtain r d st where run: "prune_locked demo_archive_env demo_cfg 300000 [demo_tick0, demo_tick0] demo_state = (r, d, st)"
    by (cases "prune_locked demo_archive_env demo_cfg 300000 [demo_tick0, demo_tick0] demo_state")
  have d: "d = [(Trades, 5, [65]), (BookTop, 6, [65])]"
    using run demo_prune by (simp add: prune_locked_def Let_def demo_view src split_beta archive_floor_us_def remote_required_def demo_cfg_def)
  have step: "arc_run demo_archive_env demo_cfg ?es demo_state = (st, d)" by (simp add: arc_run_def run)
  have "exports st = exports demo_state" using prune_locked_ghosts [OF run] by simp
  then have binds: "digests_bind demo_archive_env (set (exports (fst (arc_run demo_archive_env demo_cfg ?es demo_state))))"
    using demo_binds_exports by (simp add: step) (simp add: demo_state_def)
  show "list_all (fetched_back demo_archive_env (fst (arc_run demo_archive_env demo_cfg ?es demo_state)))
      (snd (arc_run demo_archive_env demo_cfg ?es demo_state))"
    by (rule deleted_rows_came_back [OF demo_archive_ok _ demo_arc_inv binds]) (simp add: demo_cfg_def)
  show "snd (arc_run demo_archive_env demo_cfg ?es demo_state) = [(Trades, 5, [65]), (BookTop, 6, [65])]"
    by (simp add: step d)
qed

definition demo_manifest :: manifest where
  "demo_manifest = manifest_json demo_archive_env Trades 0 [[65]] (artifact demo_archive_env Trades [[65]])"

definition demo_env2 :: archive_env where
  "demo_env2 = demo_archive_env\<lparr>parse_json := (\<lambda>b. Some (JObj demo_manifest))\<rparr>"

definition demo_remote_cfg :: remote_cfg where
  "demo_remote_cfg = \<lparr>push_command = asc ''p{source}{object}'', fetch_command = asc ''f{object}{destination}'', out_dir = [65]\<rparr>"

definition demo_trip :: trip where
  "demo_trip = \<lparr>push_artifact = (\<lambda>_. Exit 0 None), push_manifest = (\<lambda>_. Exit 0 None),
     fetch_artifact = (\<lambda>_. Exit 0 (Some (artifact demo_env2 Trades [[65]]))), fetch_manifest = (\<lambda>_. Exit 0 (Some [7])),
     temp_dir = [84], verified_at = []\<rparr>"

definition demo_object :: text_u where
  "demo_object = asc ''archive/'' @ table_name Trades @ 47 # demo_day_text 0 @ 47 # demo_sha_hex (utf8 (csv_text Trades [[65]])) @ asc ''.csv.gz''"

lemma demo_object_text: "demo_object = asc ''archive/trades/0'' @ 0 # 47 # replicate 64 49 @ asc ''.csv.gz''"
proof -
  have "csv_text Trades [] \<noteq> csv_text Trades [[65]]" using demo_csv_inject [of "[[65]]" Trades "[]"] by simp
  moreover have "utf8 (csv_text Trades ls) = csv_text Trades ls" if "ls \<in> {[], [[65]]}" for ls
    using utf8_ascii [OF demo_csv_ascii [OF that], of "csv_text Trades ls" Trades] by simp
  ultimately have "takeWhile (\<lambda>x. x \<noteq> utf8 (csv_text Trades [[65]])) demo_texts = [utf8 (csv_text Trades [])]"
    by (simp add: demo_texts_def)
  then show ?thesis by (simp add: demo_object_def demo_sha_hex_def demo_day_text_def asc_def)
qed

lemma demo_object_valid: "valid_object_id demo_object" "valid_object_id (manifest_name demo_object)"
proof -
  have parts: "path_parts (demo_object @ s) = [asc ''archive'', asc ''trades'', [48, 0], replicate 64 49 @ asc ''.csv.gz'' @ s]"
    if "47 \<notin> set s" for s
  proof -
    have "demo_object @ s = asc ''archive'' @ 47 # asc ''trades'' @ 47 # [48, 0] @ 47 # (replicate 64 49 @ asc ''.csv.gz'' @ s)"
      by (simp add: demo_object_text asc_def)
    moreover have "47 \<notin> set (asc ''archive'')" "47 \<notin> set (asc ''trades'')" "47 \<notin> set [48, 0::nat]"
      "47 \<notin> set (replicate 64 49 @ asc ''.csv.gz'' @ s)" using that by (auto simp: asc_def)
    ultimately have "split_on 47 (demo_object @ s) = [asc ''archive'', asc ''trades'', [48, 0], replicate 64 49 @ asc ''.csv.gz'' @ s]"
      by (simp only: split_on_head split_on_end not_False_eq_True)
    then show ?thesis by (simp add: path_parts_def asc_def)
  qed
  have "starts_with [47] demo_object = False" "demo_object \<noteq> []" by (simp_all add: demo_object_text starts_with_def asc_def)
  then show "valid_object_id demo_object" "valid_object_id (manifest_name demo_object)"
    using parts [of "[]"] parts [of "asc ''.json''"]
    by (simp_all add: valid_object_id_def manifest_name_def starts_with_def asc_def demo_object_text)
qed

theorem archived_day_counts_witness:
  "\<exists>r v1. archive_day_remote demo_env2 300000 demo_remote_cfg demo_trip None False Trades 0 (demo_src [(5, [65])]) \<lparr>files = [], cache = []\<rparr>
      = (Inr (r, artifact demo_env2 Trades [[65]]), v1)
    \<and> (receipt_name demo_object, Some (receipt_json r)) \<in> set (receipt_view demo_env2 v1)
    \<and> strict_receipt (cal demo_env2) (receipt_json r) Trades = Some \<lparr>dr_day = 0,
        dr_rows = fst (source_day_proof (cal demo_env2) (demo_src [(5, [65])]) Trades 0), dr_sha = snd (source_day_proof (cal demo_env2) (demo_src [(5, [65])]) Trades 0)\<rparr>
    \<and> 0 \<notin> set (pending_between 300000 3600 (remote_receipt_days demo_env2 (receipt_view demo_env2 v1) Trades) [(5, [65])])"
proof (rule archived_day_counts)
  note env = demo_env2_def demo_archive_env_def
  show "archive_ok demo_env2" using demo_archive_ok by (simp add: archive_ok_def env)
  show "\<forall>b. is_sha256 (JStr (sha_hex demo_env2 b))" using demo_hex by (simp add: env)
  show "usable demo_env2 (push_command demo_remote_cfg) (asc ''{source}'')"
    "usable demo_env2 (fetch_command demo_remote_cfg) (asc ''{destination}'')"
    by (simp_all add: usable_def env demo_remote_cfg_def asc_def blank_def starts_with_def)
  show "[[65]] = map snd (day_rows (cal demo_env2) (demo_src [(5, [65])]) Trades 0)"
    by (simp add: day_rows_def env demo_src_def day_bounds_us_def day_start_us_def DAY_US_def)
  show "list_all clean_line [[65]]" by (simp add: clean_line_def scalar_def)
  show "demo_object = asc ''archive/'' @ table_name Trades @ 47 # text_of_day (cal demo_env2) 0 @ 47 # sha_hex demo_env2 (utf8 (csv_text Trades [[65]])) @ asc ''.csv.gz''"
    by (simp add: demo_object_def env)
  show "text_of_day (cal demo_env2) 0 \<noteq> []" by (simp add: env demo_day_text_def)
  have man: "manifest_json demo_env2 Trades 0 [[65]] (artifact demo_env2 Trades [[65]]) = demo_manifest"
    by (simp add: demo_manifest_def manifest_json_def artifact_def env)
  show "faithful_trip demo_trip (artifact demo_env2 Trades [[65]]) (doc_bytes demo_env2 (JObj (manifest_json demo_env2 Trades 0 [[65]] (artifact demo_env2 Trades [[65]]))))"
    by (simp add: faithful_trip_def demo_trip_def env)
  show "parse_json demo_env2 (doc_bytes demo_env2 (JObj (manifest_json demo_env2 Trades 0 [[65]] (artifact demo_env2 Trades [[65]]))))
    = Some (JObj (manifest_json demo_env2 Trades 0 [[65]] (artifact demo_env2 Trades [[65]])))"
    unfolding man by (simp add: demo_env2_def)
qed (simp_all add: demo_object_valid version_manifests_def)
subsection \<open>Where the archive and retention do not meet\<close>

text \<open>\<^verbatim>\<open>safe_delete_cutoff_us\<close> stops at the first day that is not archived for both tables.\<close>

lemma first_gap_spec:
  "day \<le> first_gap common day \<and> first_gap common day \<notin> set common \<and> (\<forall>d. day \<le> d \<longrightarrow> d < first_gap common day \<longrightarrow> d \<in> set common)"
proof (induction common day rule: first_gap.induct)
  case (1 common day)
  show ?case
  proof (cases "day \<in> set common")
    case True
    then have "first_gap common day = first_gap common (day + 1)" by (simp add: first_gap.simps [of common day])
    moreover have "d \<in> set common" if "day \<le> d" "d < first_gap common (day + 1)" for d
      using that 1 [OF True] True by (cases "d = day") auto
    ultimately show ?thesis using 1 [OF True] by auto
  qed (simp add: first_gap.simps)
qed

lemma safe_cutoff_contiguous:
  assumes "archived_days A now Trades v = (Some ds, v1)" "archived_days A now BookTop v1 = (Some bs, v2)"
    and "set ds \<inter> set bs \<noteq> {}"
  shows "\<exists>gap. safe_delete_cutoff_us A now v = Some (day_start_us gap) \<and> gap \<notin> set ds \<inter> set bs
    \<and> (\<forall>d. Min (set ds \<inter> set bs) \<le> d \<longrightarrow> d < gap \<longrightarrow> d \<in> set ds \<and> d \<in> set bs)"
proof -
  let ?common = "filter (\<lambda>d. d \<in> set bs) ds"
  have c: "set ?common = set ds \<inter> set bs" by auto
  then have "?common \<noteq> []" using assms(3) by (metis empty_set)
  then have "safe_delete_cutoff_us A now v = Some (day_start_us (first_gap ?common (Min (set ?common))))"
    by (simp add: safe_delete_cutoff_us_def assms(1,2) day_bounds_us_def Let_def)
  moreover note first_gap_spec [of "Min (set ?common)" ?common]
  ultimately show ?thesis unfolding c by blast
qed

text \<open>
  The days to archive begin at each table's own first row, but retention asks for a receipt of both tables
  for the first day of either: a table that began later never gets the receipt, and nothing is ever deleted.
\<close>

lemma uneven_start_blocks:
  assumes "source_floor_day s = Some day" "day < day_of_us (Min (fst ` set (rows_of t s)))"
  shows "day \<notin> set (pending_between now lag_s have (rows_of t s))"
    and "day \<notin> fst ` set (remote_receipts E dir t)
      \<Longrightarrow> get_cutoff E s dir = \<lparr>allowed = False, cutoff_us = 0, reason = MissingRemoteCoverage\<rparr>"
  using assms by (auto simp: pending_between_def Let_def get_cutoff_def PRUNE_TABLES_def) (cases t; force)

text \<open>
  A day whose file is there and verifies is never exported again, whatever the source holds by now: rows
  that come later than the export leave the day different from its receipt for good.
\<close>

lemma export_ignores_late_rows:
  assumes "read_manifest A v (manifest_name (archive_name A t day)) = Got man" "man \<noteq> []"
    and "verify_file A now True (archive_name A t day) man v = (Some True, v1)"
  shows "export_day A now broken t day s v = export_day A now broken t day s' v"
  using assms by (simp add: export_day_def Let_def)

text \<open>A receipt that the archive run takes for done but that retention does not accept: the day is neither archived again nor deleted.\<close>

lemma receipt_readings_differ:
  assumes "archive_ok A" "\<And>b. is_sha256 (JStr (sha_hex A b))"
  shows "receipt_day A (receipt_json (full_receipt A cfg tr t day ls obj \<lparr>rc_local_rows := 0, rc_source_rows := JNull\<rparr>)) t = Some day"
    and "strict_receipt (cal A) (receipt_json (full_receipt A cfg tr t day ls obj \<lparr>rc_local_rows := 0, rc_source_rows := JNull\<rparr>)) t = None"
  using assms
  by (simp_all add: strict_receipt_def receipt_day_def receipt_json_def full_receipt_def Let_def get_key_def obj_get_def
      REMOTE_RECEIPT_SCHEMA_VERSION_def archive_ok_def env_ok_def positive_int_def split_beta split: option.split)

text \<open>With a directory as the only destination nothing is ever deleted, however much of it is verified.\<close>

lemma local_archive_never_deletes:
  assumes "archive_dir_set c" "remote_required c" "0 < retention_days_cfg c" "\<not> remote_enabled c"
  shows "fst (prune_locked A c now tks st) = Some (no_prune (Some MissingRemoteCoverage))"
    and "fst (snd (prune_locked A c now tks st)) = []"
  using assms by (auto simp: prune_locked_def Let_def archive_floor_us_def remote_enabled_def prune_def no_prune_def)
end
