(* ===== verification/WsProto.thy ===== *)
theory WsProto
  imports StreamCodec Json
begin

unbundle bit_operations_syntax

section \<open>WebSocket frames and messages\<close>

text \<open>
  Models \<^verbatim>\<open>src/mdfeed/wsproto.py\<close>: the encoding of a frame, the streaming decoder with its masking rule
  and the reassembly of fragmented messages, the handshake on both sides and the client that answers
  pings while it waits for data. The masking key, random in the code, is an argument; a parsed frame
  keeps its key only so that frames can be compared. Opening the connection is not modelled. The model
  of a read parses all of its frames before the client looks at the messages; the code interleaves the
  two, which differs only in what is left in the decoder of a connection that has failed.
\<close>

subsection \<open>Frames on the wire\<close>

definition OP_CONT :: nat where "OP_CONT = 0"
definition OP_TEXT :: nat where "OP_TEXT = 1"
definition OP_BINARY :: nat where "OP_BINARY = 2"
definition OP_CLOSE :: nat where "OP_CLOSE = 8"
definition OP_PING :: nat where "OP_PING = 9"
definition OP_PONG :: nat where "OP_PONG = 10"
definition CONTROL_OPS :: "nat list" where "CONTROL_OPS = [OP_CLOSE, OP_PING, OP_PONG]"
definition MAX_FRAME :: nat where "MAX_FRAME = 16 * 1024 * 1024"

lemmas op_defs = OP_CONT_def OP_TEXT_def OP_BINARY_def OP_CLOSE_def OP_PING_def OP_PONG_def CONTROL_OPS_def

datatype ws_error = ControlTooLong | FrameTooBig nat | MaskRule | NoStart | ConnectionClosed | CloseReceived
  | UpgradeRefused | AcceptMismatch | KeyMissing

record wire =
  w_fin :: bool
  w_op :: nat
  w_key :: bytes
  w_payload :: bytes

definition mask_bytes :: "bytes \<Rightarrow> bytes \<Rightarrow> bytes" where
  "mask_bytes key p = map (\<lambda>i. (p ! i) XOR (key ! (i mod 4))) [0..<length p]"

definition ws_length_bytes :: "bool \<Rightarrow> nat \<Rightarrow> bytes" where
  "ws_length_bytes masked n =
     (let mask_bit = (if masked then 128 else 0) in
      if n < 126 then [of_nat (mask_bit + n)]
      else if n < 65536 then of_nat (mask_bit + 126) # be_bytes 2 n
      else of_nat (mask_bit + 127) # be_bytes 8 n)"

definition wire_bytes :: "wire \<Rightarrow> bytes" where
  "wire_bytes w =
     of_nat ((if w_fin w then 128 else 0) + w_op w) # ws_length_bytes (w_key w \<noteq> []) (length (w_payload w))
       @ w_key w @ (if w_key w = [] then w_payload w else mask_bytes (w_key w) (w_payload w))"

text \<open>\<open>key\<close>: \<open>None\<close> for a server's frame, the four random bytes for a client's.\<close>

definition encode_frame :: "nat \<Rightarrow> bytes \<Rightarrow> bytes option \<Rightarrow> ws_error + bytes" where
  "encode_frame opcode payload key =
     (if opcode \<in> set CONTROL_OPS \<and> 125 < length payload then Inl ControlTooLong
      else Inr (wire_bytes \<lparr>w_fin = True, w_op = opcode, w_key = (case key of None \<Rightarrow> [] | Some k \<Rightarrow> k), w_payload = payload\<rparr>))"

definition server_frame :: "nat \<Rightarrow> bytes \<Rightarrow> ws_error + bytes" where
  "server_frame opcode payload = encode_frame opcode payload None"

subsection \<open>The decoder\<close>

record ws_decoder =
  wbuf :: bytes
  expect_masked :: bool
  frag_op :: nat
  frag :: bytes

definition new_decoder :: "bool \<Rightarrow> ws_decoder" where
  "new_decoder m = \<lparr>wbuf = [], expect_masked = m, frag_op = 0, frag = []\<rparr>"

text \<open>One frame and the bytes behind it; \<open>None\<close>: not enough bytes yet.\<close>

definition ws_parse :: "bool \<Rightarrow> bytes \<Rightarrow> ws_error + (wire \<times> bytes) option" where
  "ws_parse expect buf =
     (if length buf < 2 then Inr None
      else let b0 = unat (buf ! 0); b1 = unat (buf ! 1);
               fin = (128 \<le> b0); opcode = b0 mod 16; masked = (128 \<le> b1); len7 = b1 mod 128;
               extra = (if len7 = 126 then 2 else if len7 = 127 then 8 else 0) in
        if length buf < 2 + extra then Inr None
        else let n = (if extra = 0 then len7 else be_val (read_at 2 extra buf)); off = 2 + extra in
          if MAX_FRAME < n then Inl (FrameTooBig n)
          else if masked \<noteq> expect then Inl MaskRule
          else if masked \<and> length buf < off + 4 then Inr None
          else let key = (if masked then read_at off 4 buf else []); off1 = off + length key in
            if length buf < off1 + n then Inr None
            else let p = read_at off1 n buf in
              Inr (Some (\<lparr>w_fin = fin, w_op = opcode, w_key = key, w_payload = (if masked then mask_bytes key p else p)\<rparr>,
                drop (off1 + n) buf)))"

type_synonym ws_message = "nat \<times> bytes"

text \<open>What one frame does: the message it completes, if any.\<close>

definition ws_take :: "wire \<Rightarrow> ws_decoder \<Rightarrow> ws_error + ws_decoder \<times> ws_message list" where
  "ws_take w d =
     (if w_op w \<in> set CONTROL_OPS then Inr (d, [(w_op w, w_payload w)])
      else if w_op w = OP_CONT then
        (if frag_op d = 0 then Inl NoStart
         else let all = frag d @ w_payload w in
           if w_fin w then Inr (d\<lparr>frag_op := 0, frag := []\<rparr>, [(frag_op d, all)]) else Inr (d\<lparr>frag := all\<rparr>, []))
      else if w_fin w then Inr (d, [(w_op w, w_payload w)])
      else Inr (d\<lparr>frag_op := w_op w, frag := w_payload w\<rparr>, []))"

lemma ws_parse_shorter: "ws_parse m buf = Inr (Some (w, r)) \<Longrightarrow> length r < length buf"
  by (auto simp: ws_parse_def Let_def split: if_splits)

lemma ws_take_buf: "ws_take w d = Inr (d1, ms) \<Longrightarrow> wbuf d1 = wbuf d"
  by (auto simp: ws_take_def Let_def split: if_splits)

function ws_loop :: "ws_decoder \<Rightarrow> ws_decoder \<times> ws_message list \<times> ws_error option" where
  "ws_loop d =
     (case ws_parse (expect_masked d) (wbuf d) of
        Inl e \<Rightarrow> (d, [], Some e)
      | Inr None \<Rightarrow> (d, [], None)
      | Inr (Some (w, r)) \<Rightarrow>
          (case ws_take w (d\<lparr>wbuf := r\<rparr>) of
             Inl e \<Rightarrow> (d\<lparr>wbuf := r\<rparr>, [], Some e)
           | Inr (d1, ms) \<Rightarrow> (let (d2, ms2, e) = ws_loop d1 in (d2, ms @ ms2, e))))"
  by pat_completeness auto
termination
  by (relation "measure (length \<circ> wbuf)") (auto dest!: ws_parse_shorter ws_take_buf)

declare ws_loop.simps [simp del]

definition ws_feed :: "ws_decoder \<Rightarrow> bytes \<Rightarrow> ws_decoder \<times> ws_message list \<times> ws_error option" where
  "ws_feed d data = ws_loop (d\<lparr>wbuf := wbuf d @ data\<rparr>)"

text \<open>Feeding piece after piece, as long as no error ends the connection.\<close>

fun ws_feeds :: "ws_decoder \<Rightarrow> bytes list \<Rightarrow> ws_decoder \<times> ws_message list \<times> ws_error option" where
  "ws_feeds d [] = (d, [], None)"
| "ws_feeds d (c # cs) =
     (case ws_feed d c of
        (d1, ms, Some e) \<Rightarrow> (d1, ms, Some e)
      | (d1, ms, None) \<Rightarrow> (let (d2, ms2, e) = ws_feeds d1 cs in (d2, ms @ ms2, e)))"


subsection \<open>One frame at a time\<close>

definition wire_ok :: "bool \<Rightarrow> wire \<Rightarrow> bool" where
  "wire_ok m w \<longleftrightarrow> w_op w < 16 \<and> length (w_payload w) \<le> MAX_FRAME \<and> length (w_key w) = (if m then 4 else 0)"

lemma length_mask [simp]: "length (mask_bytes key p) = length p"
  by (simp add: mask_bytes_def)

lemma mask_mask [simp]: "mask_bytes key (mask_bytes key p) = p"
  by (rule nth_equalityI) (simp_all add: mask_bytes_def xor.assoc)

definition ext_size :: "nat \<Rightarrow> nat" where "ext_size len7 = (if len7 = 126 then 2 else if len7 = 127 then 8 else 0)"

lemma unat_byte: "n < 256 \<Longrightarrow> unat (of_nat n :: byte) = n"
  by (simp add: unat_of_nat)

lemma ws_length_layout:
  assumes "n \<le> MAX_FRAME"
  obtains b1 ext where "ws_length_bytes masked n = b1 # ext" "(128 \<le> unat b1) = masked"
    "length ext = ext_size (unat b1 mod 128)" "n = (if ext_size (unat b1 mod 128) = 0 then unat b1 mod 128 else be_val ext)"
proof -
  let ?m = "if masked then 128 else (0::nat)"
  have big: "n < 256 ^ 8" using assms by (simp add: MAX_FRAME_def)
  have byte: "\<exists>b::byte. unat b = ?m + k \<and> of_nat (?m + k) = b" if "k < 128" for k
    using that by (intro exI [of _ "of_nat (?m + k)"] conjI unat_byte) auto
  consider (small) "n < 126" | (mid) "126 \<le> n" "n < 65536" | (large) "65536 \<le> n" by linarith
  then show thesis
  proof cases
    case small
    then have "n < 128" by simp
    from byte [OF this] obtain b :: byte where b: "unat b = ?m + n" "of_nat (?m + n) = b" by blast
    show thesis by (rule that [of b "[]"]) (use small b(1) in \<open>auto simp: ws_length_bytes_def Let_def b(2) ext_size_def simp del: of_nat_add\<close>)
  next
    case mid
    have "(126::nat) < 128" by simp
    from byte [OF this] obtain b :: byte where b: "unat b = ?m + 126" "of_nat (?m + 126) = b" by blast
    show thesis by (rule that [of b "be_bytes 2 n"])
        (use mid b(1) in \<open>auto simp: ws_length_bytes_def Let_def b(2) ext_size_def codec_simps simp del: be_bytes.simps of_nat_add\<close>)
  next
    case large
    have "(127::nat) < 128" by simp
    from byte [OF this] obtain b :: byte where b: "unat b = ?m + 127" "of_nat (?m + 127) = b" by blast
    show thesis by (rule that [of b "be_bytes 8 n"])
        (use large big b(1) in \<open>auto simp: ws_length_bytes_def Let_def b(2) ext_size_def codec_simps simp del: be_bytes.simps of_nat_add\<close>)
  qed
qed

definition masked_payload :: "wire \<Rightarrow> bytes" where
  "masked_payload w = (if w_key w = [] then w_payload w else mask_bytes (w_key w) (w_payload w))"

lemma wire_layout:
  assumes "wire_ok m w"
  obtains b0 b1 ext where "wire_bytes w = b0 # b1 # ext @ w_key w @ masked_payload w"
    "unat b0 mod 16 = w_op w" "(128 \<le> unat b0) = w_fin w" "(128 \<le> unat b1) = m"
    "length ext = ext_size (unat b1 mod 128)"
    "length (w_payload w) = (if ext_size (unat b1 mod 128) = 0 then unat b1 mod 128 else be_val ext)"
proof -
  let ?f = "(if w_fin w then 128 else 0) + w_op w"
  have key: "(w_key w \<noteq> []) = m" using assms by (cases "w_key w") (auto simp: wire_ok_def split: if_splits)
  have n: "length (w_payload w) \<le> MAX_FRAME" using assms by (simp add: wire_ok_def)
  obtain b1 ext where e: "ws_length_bytes m (length (w_payload w)) = b1 # ext" "(128 \<le> unat b1) = m"
    "length ext = ext_size (unat b1 mod 128)" "length (w_payload w) = (if ext_size (unat b1 mod 128) = 0 then unat b1 mod 128 else be_val ext)"
    by (rule ws_length_layout [OF n, of m])
  have u: "unat (of_nat ?f :: byte) = ?f" by (intro unat_byte) (use assms in \<open>simp add: wire_ok_def\<close>)
  have h: "x < 16 \<Longrightarrow> (128 + x) mod 16 = x" for x :: nat by presburger
  show thesis
  proof (rule that [of "of_nat ?f" b1 ext])
    show "wire_bytes w = of_nat ?f # b1 # ext @ w_key w @ masked_payload w"
      using e(1) by (simp add: wire_bytes_def key masked_payload_def del: of_nat_add)
    show "unat (of_nat ?f :: byte) mod 16 = w_op w" "(128 \<le> unat (of_nat ?f :: byte)) = w_fin w"
      unfolding u using assms h by (auto simp: wire_ok_def)
  qed (fact e)+
qed

lemma ws_parse_wire:
  assumes ok: "wire_ok m w"
  shows "ws_parse m (wire_bytes w @ r) = Inr (Some (w, r))"
proof -
  from ok obtain b0 b1 ext where w: "wire_bytes w = b0 # b1 # ext @ w_key w @ masked_payload w"
    "unat b0 mod 16 = w_op w" "(128 \<le> unat b0) = w_fin w" "(128 \<le> unat b1) = m"
    "length ext = ext_size (unat b1 mod 128)" "length (w_payload w) = (if ext_size (unat b1 mod 128) = 0 then unat b1 mod 128 else be_val ext)"
    by (rule wire_layout)
  have key: "length (w_key w) = (if m then 4 else 0)" and n: "\<not> MAX_FRAME < length (w_payload w)"
    using ok by (simp_all add: wire_ok_def)
  have len: "length (masked_payload w) = length (w_payload w)" by (simp add: masked_payload_def)
  let ?x = "ext_size (unat b1 mod 128)"
  have r1: "read_at 2 ?x (wire_bytes w @ r) = ext" by (simp add: w(1) read_at_def w(5) [symmetric])
  have r2: "read_at (2 + ?x) (length (w_key w)) (wire_bytes w @ r) = w_key w" by (simp add: w(1) read_at_def w(5) [symmetric])
  have r3: "read_at (2 + ?x + length (w_key w)) (length (w_payload w)) (wire_bytes w @ r) = masked_payload w"
    by (simp add: w(1) read_at_def w(5) [symmetric] len [symmetric])
  have r4: "drop (2 + ?x + length (w_key w) + length (w_payload w)) (wire_bytes w @ r) = r"
    by (simp add: w(1) w(5) [symmetric] len [symmetric])
  have l: "length (wire_bytes w) = 2 + ?x + length (w_key w) + length (w_payload w)" by (simp add: w(1) w(5) len)
  have b: "(wire_bytes w @ r) ! 0 = b0" "(wire_bytes w @ r) ! 1 = b1" by (simp_all add: w(1))
  show ?thesis
  proof (cases m)
    case True
    then have k: "length (w_key w) = 4" "w_key w \<noteq> []" using key by auto
    show ?thesis
      unfolding ws_parse_def Let_def b ext_size_def [symmetric] r1 w(6) [symmetric] w(4)
      using n r2 r3 r4 by (simp add: l True k w(2,3) masked_payload_def)
  next
    case False
    then have k: "w_key w = []" using key by simp
    show ?thesis
      unfolding ws_parse_def Let_def b ext_size_def [symmetric] r1 w(6) [symmetric] w(4)
      using n r3 r4 by (simp add: l False k w(2,3) masked_payload_def)
  qed
qed

lemma ws_parse_prefix:
  assumes ok: "wire_ok m w" and pq: "p @ q = wire_bytes w" "q \<noteq> []"
  shows "ws_parse m p = Inr None"
proof -
  from ok obtain b0 b1 ext where w: "wire_bytes w = b0 # b1 # ext @ w_key w @ masked_payload w"
    "unat b0 mod 16 = w_op w" "(128 \<le> unat b0) = w_fin w" "(128 \<le> unat b1) = m"
    "length ext = ext_size (unat b1 mod 128)" "length (w_payload w) = (if ext_size (unat b1 mod 128) = 0 then unat b1 mod 128 else be_val ext)"
    by (rule wire_layout)
  have key: "length (w_key w) = (if m then 4 else 0)" and n: "\<not> MAX_FRAME < length (w_payload w)"
    using ok by (simp_all add: wire_ok_def)
  let ?x = "ext_size (unat b1 mod 128)"
  have len: "length p < 2 + ?x + length (w_key w) + length (w_payload w)"
    using arg_cong [OF pq(1), of length] pq(2) w(1,5) by (cases q) (simp_all add: masked_payload_def split: if_splits)
  have first2: "p ! 0 = b0 \<and> p ! 1 = b1" if "2 \<le> length p"
  proof -
    from that obtain x y p' where "p = x # y # p'" by (auto simp: numeral_2_eq_2 Suc_le_length_iff)
    then show ?thesis using pq(1) w(1) by simp
  qed
  show ?thesis
  proof (cases "2 + ?x \<le> length p")
    case True
    have "read_at 2 ?x (p @ q) = ext" by (simp add: pq(1) w(1) read_at_def w(5) [symmetric])
    then have r1: "read_at 2 ?x p = ext" using True read_at_append [of 2 ?x p q] by simp
    have b: "p ! 0 = b0" "p ! 1 = b1" using first2 True by auto
    show ?thesis
      unfolding ws_parse_def Let_def b ext_size_def [symmetric] r1 w(6) [symmetric] w(4)
      using key n len True by (cases m) simp_all
  next
    case False
    show ?thesis
    proof (cases "2 \<le> length p")
      case True
      have b: "p ! 1 = b1" using first2 True by auto
      show ?thesis unfolding ws_parse_def Let_def b ext_size_def [symmetric] using False by simp
    qed (simp add: ws_parse_def)
  qed
qed

subsection \<open>Any cutting of the stream\<close>

text \<open>The frames of a buffer, what is left of it and the error that ended the parsing.\<close>

function parse_all :: "bool \<Rightarrow> bytes \<Rightarrow> wire list \<times> bytes \<times> ws_error option" where
  "parse_all m buf =
     (case ws_parse m buf of
        Inl e \<Rightarrow> ([], buf, Some e)
      | Inr None \<Rightarrow> ([], buf, None)
      | Inr (Some (w, r)) \<Rightarrow> (let (ws, b, e) = parse_all m r in (w # ws, b, e)))"
  by pat_completeness auto
termination by (relation "measure (length \<circ> snd)") (auto dest: ws_parse_shorter)

declare parse_all.simps [simp del]

definition ws_wires :: "bool \<Rightarrow> bytes \<times> ws_error option \<Rightarrow> bytes \<Rightarrow> (bytes \<times> ws_error option) \<times> wire list" where
  "ws_wires m s c =
     (if snd s \<noteq> None then (s, []) else let (ws, r, e) = parse_all m (fst s @ c) in ((r, e), ws))"

interpretation ws: stream_codec wire_bytes "wire_ok m" "ws_wires m" "\<lambda>b. (b, None)" for m
proof unfold_locales
  fix f :: wire and b c r q :: bytes
  assume ok: "wire_ok m f"
  then show "wire_bytes f \<noteq> []" by (simp add: wire_bytes_def)
  show "ws_wires m (b, None) c = (fst (ws_wires m ([], None) r), f # snd (ws_wires m ([], None) r))" if "b @ c = wire_bytes f @ r"
    using that ws_parse_wire [OF ok, of r] by (simp add: ws_wires_def parse_all.simps [of m "wire_bytes f @ r"] split_beta)
  show "ws_wires m (b, None) c = ((b @ c, None), [])" if "b @ c @ q = wire_bytes f" "q \<noteq> []"
    using ws_parse_prefix [OF ok, of "b @ c" q] that by (simp add: ws_wires_def parse_all.simps [of m "b @ c"])
qed (simp add: ws_wires_def parse_all.simps ws_parse_def)

text \<open>Taking the frames of a list one after the other.\<close>

fun ws_takes :: "wire list \<Rightarrow> ws_decoder \<Rightarrow> ws_error + ws_decoder \<times> ws_message list" where
  "ws_takes [] d = Inr (d, [])"
| "ws_takes (w # ws) d =
     (case ws_take w d of
        Inl e \<Rightarrow> Inl e
      | Inr (d1, ms) \<Rightarrow> (case ws_takes ws d1 of Inl e \<Rightarrow> Inl e | Inr (d2, ms2) \<Rightarrow> Inr (d2, ms @ ms2)))"

lemma ws_take_wbuf: "ws_take w (d\<lparr>wbuf := b\<rparr>) = (case ws_take w d of Inl e \<Rightarrow> Inl e | Inr (d1, ms) \<Rightarrow> Inr (d1\<lparr>wbuf := b\<rparr>, ms))"
  by (simp add: ws_take_def Let_def)

lemma ws_take_expect: "ws_take w d = Inr (d1, ms) \<Longrightarrow> expect_masked d1 = expect_masked d"
  by (auto simp: ws_take_def Let_def split: if_splits)

lemma ws_takes_wbuf: "ws_takes ws d = Inr (d1, ms) \<Longrightarrow> ws_takes ws (d\<lparr>wbuf := b\<rparr>) = Inr (d1\<lparr>wbuf := b\<rparr>, ms)"
  by (induction ws arbitrary: d ms) (auto simp: ws_take_wbuf split: sum.splits prod.splits)

lemma ws_loop_takes:
  assumes "parse_all (expect_masked d) (wbuf d) = (ws, r, None)" "ws_takes ws d = Inr (d1, ms)"
  shows "ws_loop d = (d1\<lparr>wbuf := r\<rparr>, ms, None) \<and> expect_masked d1 = expect_masked d"
  using assms
proof (induction ws arbitrary: d ms d1)
  case Nil
  then have "ws_parse (expect_masked d) (wbuf d) = Inr None" "r = wbuf d"
    by (auto simp: parse_all.simps [of "expect_masked d" "wbuf d"] split: sum.splits option.splits prod.splits)
  then show ?case using Nil.prems(2) by (simp add: ws_loop.simps [of d1])
next
  case (Cons w ws)
  from Cons.prems(1) obtain r1 where p: "ws_parse (expect_masked d) (wbuf d) = Inr (Some (w, r1))"
    "parse_all (expect_masked d) r1 = (ws, r, None)"
    by (auto simp: parse_all.simps [of "expect_masked d" "wbuf d"] split: sum.splits option.splits prod.splits)
  from Cons.prems(2) obtain d2 m2 d3 m3 where t: "ws_take w d = Inr (d2, m2)" "ws_takes ws d2 = Inr (d3, m3)" "d1 = d3" "ms = m2 @ m3"
    by (auto split: sum.splits prod.splits)
  have e2: "expect_masked d2 = expect_masked d" by (rule ws_take_expect [OF t(1)])
  from Cons.IH [of "d2\<lparr>wbuf := r1\<rparr>" "d3\<lparr>wbuf := r1\<rparr>" m3] p(2) ws_takes_wbuf [OF t(2), of r1] e2
  have "ws_loop (d2\<lparr>wbuf := r1\<rparr>) = (d3\<lparr>wbuf := r\<rparr>, m3, None) \<and> expect_masked d3 = expect_masked d" by simp
  then show ?case using p(1) t by (simp add: ws_loop.simps [of d] ws_take_wbuf)
qed

lemma feed_all_error: "feed_all (ws_wires m) (b, Some e) cs = ((b, Some e), [])"
  by (induction cs) (simp_all add: ws_wires_def)

lemma ws_feeds_takes:
  assumes "feed_all (ws_wires (expect_masked d)) (wbuf d, None) cs = ((r, None), ws)" "ws_takes ws d = Inr (d1, ms)"
  shows "ws_feeds d cs = (d1\<lparr>wbuf := r\<rparr>, ms, None)"
  using assms
proof (induction cs arbitrary: d d1 ws ms)
  case Nil
  then show ?case by auto
next
  case (Cons c cs)
  obtain ws1 r1 e where p: "parse_all (expect_masked d) (wbuf d @ c) = (ws1, r1, e)" by (cases "parse_all (expect_masked d) (wbuf d @ c)")
  obtain ws2 s2 where rest: "feed_all (ws_wires (expect_masked d)) (r1, e) cs = (s2, ws2)" by fastforce
  have step: "ws_wires (expect_masked d) (wbuf d, None) c = ((r1, e), ws1)" by (simp add: ws_wires_def p)
  from Cons.prems(1) rest have s2: "s2 = (r, None)" "ws = ws1 @ ws2" by (simp_all add: step)
  with rest feed_all_error [of "expect_masked d" r1 _ cs] have e: "e = None" by (cases e) auto
  have split: "\<exists>da ma db mb. ws_takes ws1 d = Inr (da, ma) \<and> ws_takes ws2 da = Inr (db, mb) \<and> d1 = db \<and> ms = ma @ mb"
    if "ws_takes (ws1 @ ws2) d = Inr (d1, ms)" for ws1 ws2 d ms
    using that by (induction ws1 arbitrary: d ms) (fastforce split: sum.splits prod.splits)+
  from split [OF Cons.prems(2) [unfolded s2]] obtain da ma mb where
    t: "ws_takes ws1 d = Inr (da, ma)" "ws_takes ws2 da = Inr (d1, mb)" "ms = ma @ mb" by blast
  have l: "ws_loop (d\<lparr>wbuf := wbuf d @ c\<rparr>) = (da\<lparr>wbuf := r1\<rparr>, ma, None) \<and> expect_masked da = expect_masked d"
    using ws_loop_takes [of "d\<lparr>wbuf := wbuf d @ c\<rparr>" ws1 r1 "da\<lparr>wbuf := wbuf d @ c\<rparr>" ma] p e ws_takes_wbuf [OF t(1)] by simp
  from Cons.IH [of "da\<lparr>wbuf := r1\<rparr>" ws2] rest s2 e l have "ws_feeds (da\<lparr>wbuf := r1\<rparr>) cs = (d1\<lparr>wbuf := r\<rparr>, mb, None)"
    using ws_takes_wbuf [OF t(2), of r1] by simp
  with l t(3) show ?case by (simp add: ws_feed_def)
qed

subsection \<open>Messages, whole or in pieces\<close>

text \<open>What a peer sends: a control frame, a message in one frame, or one in pieces with control frames between them;
  each frame with its own key.\<close>

type_synonym keyed = "bytes \<times> bytes"

datatype sent =
    Control nat keyed
  | Whole nat keyed
  | Pieces nat keyed "((nat \<times> keyed) list \<times> keyed) list" "(nat \<times> keyed) list" keyed

definition wire_of :: "bool \<Rightarrow> nat \<Rightarrow> keyed \<Rightarrow> wire" where
  "wire_of fin opcode p = \<lparr>w_fin = fin, w_op = opcode, w_key = fst p, w_payload = snd p\<rparr>"

fun wires_of :: "sent \<Rightarrow> wire list" where
  "wires_of (Control opcode p) = [wire_of True opcode p]"
| "wires_of (Whole opcode p) = [wire_of True opcode p]"
| "wires_of (Pieces opcode p ps cs q) =
     wire_of False opcode p # concat (map (\<lambda>(cs, x). map (\<lambda>(c, y). wire_of True c y) cs @ [wire_of False OP_CONT x]) ps)
       @ map (\<lambda>(c, y). wire_of True c y) cs @ [wire_of True OP_CONT q]"

fun messages_of :: "sent \<Rightarrow> ws_message list" where
  "messages_of (Control opcode p) = [(opcode, snd p)]"
| "messages_of (Whole opcode p) = [(opcode, snd p)]"
| "messages_of (Pieces opcode p ps cs q) =
     concat (map (\<lambda>(cs, x). map (\<lambda>(c, y). (c, snd y)) cs) ps) @ map (\<lambda>(c, y). (c, snd y)) cs
       @ [(opcode, snd p @ concat (map (snd \<circ> snd) ps) @ snd q)]"

definition control_ok :: "(nat \<times> keyed) list \<Rightarrow> bool" where
  "control_ok cs = list_all (\<lambda>c. fst c \<in> set CONTROL_OPS) cs"

definition data_op :: "nat \<Rightarrow> bool" where "data_op c \<longleftrightarrow> c \<noteq> OP_CONT \<and> c \<notin> set CONTROL_OPS"

fun sent_ok :: "sent \<Rightarrow> bool" where
  "sent_ok (Control opcode p) = (opcode \<in> set CONTROL_OPS)"
| "sent_ok (Whole opcode p) = data_op opcode"
| "sent_ok (Pieces opcode p ps cs q) = (data_op opcode \<and> list_all (control_ok \<circ> fst) ps \<and> control_ok cs)"

lemma ws_takes_append:
  "ws_takes (a @ b) d = (case ws_takes a d of Inl e \<Rightarrow> Inl e
     | Inr (d1, ms) \<Rightarrow> (case ws_takes b d1 of Inl e \<Rightarrow> Inl e | Inr (d2, ms2) \<Rightarrow> Inr (d2, ms @ ms2)))"
  by (induction a arbitrary: d) (auto split: sum.split)

lemma ws_takes_controls:
  "control_ok cs \<Longrightarrow> ws_takes (map (\<lambda>(c, y). wire_of True c y) cs) d = Inr (d, map (\<lambda>(c, y). (c, snd y)) cs)"
  by (induction cs) (auto simp: control_ok_def ws_take_def wire_of_def)

lemma ws_take_cont:
  "frag_op d \<noteq> 0 \<Longrightarrow> ws_take (wire_of False OP_CONT x) d = Inr (d\<lparr>frag := frag d @ snd x\<rparr>, [])"
  "frag_op d \<noteq> 0 \<Longrightarrow> ws_take (wire_of True OP_CONT x) d = Inr (d\<lparr>frag_op := 0, frag := []\<rparr>, [(frag_op d, frag d @ snd x)])"
  by (simp_all add: ws_take_def wire_of_def op_defs)

lemma ws_takes_pieces:
  "frag_op d \<noteq> 0 \<Longrightarrow> list_all (control_ok \<circ> fst) ps \<Longrightarrow>
    ws_takes (concat (map (\<lambda>(cs, x). map (\<lambda>(c, y). wire_of True c y) cs @ [wire_of False OP_CONT x]) ps)) d
    = Inr (d\<lparr>frag := frag d @ concat (map (snd \<circ> snd) ps)\<rparr>, concat (map (\<lambda>(cs, x). map (\<lambda>(c, y). (c, snd y)) cs) ps))"
proof (induction ps arbitrary: d)
  case (Cons m ps)
  obtain cs x where m: "m = (cs, x)" by (cases m)
  have c: "control_ok cs" using Cons.prems(2) m by simp
  from Cons.IH [of "d\<lparr>frag := frag d @ snd x\<rparr>"] Cons.prems show ?case
    by (simp add: m ws_takes_append ws_takes_controls [OF c] ws_take_cont)
qed simp

lemma ws_takes_sent:
  assumes "sent_ok s" "frag_op d = 0" "frag d = []"
  shows "ws_takes (wires_of s) d = Inr (d, messages_of s)"
proof (cases s)
  case (Pieces opcode p ps cs q)
  let ?d = "d\<lparr>frag_op := opcode, frag := snd p\<rparr>"
  have ok: "data_op opcode" "list_all (control_ok \<circ> fst) ps" "control_ok cs" using assms(1) Pieces by simp_all
  then have op: "frag_op ?d \<noteq> 0" by (simp add: data_op_def op_defs)
  have first: "ws_take (wire_of False opcode p) d = Inr (?d, [])" using ok(1) by (simp add: ws_take_def wire_of_def data_op_def)
  show ?thesis using assms(2,3) op
    by (simp add: Pieces first ws_takes_append ws_takes_pieces [OF op ok(2)] ws_takes_controls [OF ok(3)] ws_take_cont)
qed (use assms in \<open>auto simp: ws_take_def wire_of_def data_op_def\<close>)

lemma ws_takes_all:
  assumes "list_all sent_ok ss" "frag_op d = 0" "frag d = []"
  shows "ws_takes (concat (map wires_of ss)) d = Inr (d, concat (map messages_of ss))"
  using assms by (induction ss) (simp_all add: ws_takes_append ws_takes_sent)

text \<open>
  C33: what a peer sends is what the decoder hands out. Any sequence of control frames, whole messages and
  messages in pieces with control frames between the pieces, every frame masked with a key of its own in the
  one direction and unmasked in the other, cut into reads in any way, yields exactly the messages, in
  order, each put together once, without an error and with nothing left in the decoder.
\<close>

theorem ws_messages_survive:
  assumes "list_all sent_ok ss" "list_all (wire_ok m) (concat (map wires_of ss))"
    and "concat cs = concat (map wire_bytes (concat (map wires_of ss)))"
  shows "ws_feeds (new_decoder m) cs = (new_decoder m, concat (map messages_of ss), None)"
proof -
  have "feed_all (ws_wires m) ([], None) cs = (([], None), concat (map wires_of ss))"
    by (rule ws.any_chunking [OF _ assms(3)]) (use assms(2) in \<open>simp add: list_all_iff\<close>)
  moreover have "ws_takes (concat (map wires_of ss)) (new_decoder m) = Inr (new_decoder m, concat (map messages_of ss))"
    by (rule ws_takes_all [OF assms(1)]) (simp_all add: new_decoder_def)
  ultimately have "ws_feeds (new_decoder m) cs = ((new_decoder m)\<lparr>wbuf := []\<rparr>, concat (map messages_of ss), None)"
    by (intro ws_feeds_takes) (simp_all add: new_decoder_def)
  then show ?thesis by (simp add: new_decoder_def)
qed

theorem ws_messages_survive_witness:
  "ws_feeds (new_decoder True) (map (\<lambda>b. [b]) (concat (map wire_bytes (concat (map wires_of
     [Control 9 ([1, 2, 3, 4], [7]), Pieces 1 ([5, 6, 7, 8], [65]) [([(9, [1, 1, 1, 1], [])], [9, 9, 9, 9], [66])] [] ([0, 1, 0, 1], [67])])))))
   = (new_decoder True, [(9, [7]), (9, []), (1, [65, 66, 67])], None)"
proof -
  let ?ss = "[Control 9 ([1, 2, 3, 4], [7]), Pieces 1 ([5, 6, 7, 8], [65]) [([(9, [1, 1, 1, 1], [])], [9, 9, 9, 9], [66])] [] ([0, 1, 0, 1], [67])]"
  have "list_all sent_ok ?ss" by (simp add: op_defs data_op_def control_ok_def)
  moreover have "list_all (wire_ok True) (concat (map wires_of ?ss))" by (simp add: wire_ok_def wire_of_def op_defs MAX_FRAME_def)
  moreover have "concat (map (\<lambda>b. [b]) xs) = xs" for xs :: bytes by (induction xs) simp_all
  ultimately have "ws_feeds (new_decoder True) (map (\<lambda>b. [b]) (concat (map wire_bytes (concat (map wires_of ?ss)))))
    = (new_decoder True, concat (map messages_of ?ss), None)" by (rule ws_messages_survive)
  then show ?thesis by simp
qed

text \<open>The frames the code itself sends are of this kind.\<close>

lemma encode_frame_wire:
  "encode_frame c p key = Inr b \<Longrightarrow> c < 16 \<Longrightarrow> length p \<le> MAX_FRAME \<Longrightarrow> (case key of None \<Rightarrow> \<not> m | Some k \<Rightarrow> m \<and> length k = 4)
    \<Longrightarrow> b = wire_bytes (wire_of True c (case key of None \<Rightarrow> [] | Some k \<Rightarrow> k, p))
      \<and> wire_ok m (wire_of True c (case key of None \<Rightarrow> [] | Some k \<Rightarrow> k, p))"
  by (auto simp: encode_frame_def wire_of_def wire_ok_def split: if_splits option.splits)

text \<open>A frame that breaks the masking rule or is announced too long ends the decoding, and stays at the front of the buffer.\<close>

lemma wrong_mask_refused:
  assumes "wire_ok (\<not> m) w"
  shows "ws_feed (new_decoder m) (wire_bytes w) = ((new_decoder m)\<lparr>wbuf := wire_bytes w\<rparr>, [], Some MaskRule)"
proof -
  from assms obtain b0 b1 ext where w: "wire_bytes w = b0 # b1 # ext @ w_key w @ masked_payload w"
    "(128 \<le> unat b1) = (\<not> m)" "length ext = ext_size (unat b1 mod 128)"
    "length (w_payload w) = (if ext_size (unat b1 mod 128) = 0 then unat b1 mod 128 else be_val ext)"
    by (rule wire_layout)
  have r: "read_at 2 (ext_size (unat b1 mod 128)) (wire_bytes w) = ext" by (simp add: w(1) read_at_def w(3) [symmetric])
  have b: "wire_bytes w ! 0 = b0" "wire_bytes w ! 1 = b1" by (simp_all add: w(1))
  have n: "\<not> MAX_FRAME < length (w_payload w)" using assms by (simp add: wire_ok_def)
  have "length (wire_bytes w) = 2 + ext_size (unat b1 mod 128) + length (w_key w @ masked_payload w)" by (simp add: w(1,3))
  then have "ws_parse m (wire_bytes w) = Inl MaskRule"
    unfolding ws_parse_def Let_def b ext_size_def [symmetric] r w(4) [symmetric] w(2) using n by simp
  then show ?thesis by (simp add: ws_feed_def ws_loop.simps new_decoder_def)
qed

text \<open>
  A single frame is limited, a message is not: a peer that goes on sending pieces makes the decoder
  hold as many bytes as it likes.
\<close>

lemma message_unbounded:
  assumes "data_op c" "c \<noteq> 0"
  shows "ws_takes (wire_of False c (key, []) # replicate n (wire_of False OP_CONT (key, p))) (new_decoder m)
    = Inr (new_decoder m\<lparr>frag_op := c, frag := concat (replicate n p)\<rparr>, [])"
proof -
  have "ws_takes (replicate n (wire_of False OP_CONT (key, p))) d = Inr (d\<lparr>frag := frag d @ concat (replicate n p)\<rparr>, [])"
    if "frag_op d \<noteq> 0" for d
    using that by (induction n arbitrary: d) (simp_all add: ws_take_cont)
  moreover have "ws_take (wire_of False c (key, [])) (new_decoder m) = Inr (new_decoder m\<lparr>frag_op := c, frag := []\<rparr>, [])"
    using assms by (simp add: ws_take_def wire_of_def data_op_def)
  ultimately show ?thesis using assms(2) by simp
qed

subsection \<open>The client\<close>

record ws_client =
  wc_dec :: ws_decoder
  wc_pending :: "ws_message list"
  wc_closed :: bool
  wc_bytes_in :: nat
  wc_written :: "bytes list"

definition new_client :: ws_client where
  "new_client = \<lparr>wc_dec = new_decoder False, wc_pending = [], wc_closed = False, wc_bytes_in = 0, wc_written = []\<rparr>"

definition ws_write :: "nat \<Rightarrow> bytes \<Rightarrow> bytes \<Rightarrow> ws_client \<Rightarrow> ws_error + ws_client" where
  "ws_write c p key s = (case encode_frame c p (Some key) of Inl e \<Rightarrow> Inl e | Inr b \<Rightarrow> Inr (s\<lparr>wc_written := wc_written s @ [b]\<rparr>))"

definition send_text :: "text_u \<Rightarrow> bytes \<Rightarrow> ws_client \<Rightarrow> ws_error + ws_client" where
  "send_text t key s = ws_write OP_TEXT (raw (utf8 t)) key s"

definition send_binary :: "bytes \<Rightarrow> bytes \<Rightarrow> ws_client \<Rightarrow> ws_error + ws_client" where
  "send_binary b key s = ws_write OP_BINARY b key s"

definition ping :: "bytes \<Rightarrow> bytes \<Rightarrow> ws_client \<Rightarrow> ws_error + ws_client" where
  "ping b key s = ws_write OP_PING b key s"

definition pong :: "bytes \<Rightarrow> bytes \<Rightarrow> ws_client \<Rightarrow> ws_error + ws_client" where
  "pong b key s = ws_write OP_PONG (take 125 b) key s"

definition close_client :: "bytes \<Rightarrow> ws_client \<Rightarrow> ws_client" where
  "close_client key s =
     (let s1 = s\<lparr>wc_closed := True\<rparr> in
      case ws_write OP_CLOSE (be_bytes 2 1000) key s1 of Inl e \<Rightarrow> s1 | Inr s2 \<Rightarrow> s2)"

text \<open>The messages of one read, in order; each pong takes the next of the keys.\<close>

fun ws_handle :: "ws_message list \<Rightarrow> bytes list \<Rightarrow> ws_client \<Rightarrow> ws_error option \<times> bytes list \<times> ws_client" where
  "ws_handle [] keys s = (None, keys, s)"
| "ws_handle ((c, p) # ms) keys s =
     (if c = OP_PING then
        (case ws_write OP_PONG p (if keys = [] then [] else hd keys) s of
           Inl e \<Rightarrow> (Some e, keys, s) | Inr s1 \<Rightarrow> ws_handle ms (tl keys) s1)
      else if c = OP_PONG then ws_handle ms keys s
      else if c = OP_CLOSE then (Some CloseReceived, keys, s\<lparr>wc_closed := True\<rparr>)
      else ws_handle ms keys (s\<lparr>wc_pending := wc_pending s @ [(c, p)]\<rparr>))"

text \<open>\<^verbatim>\<open>recv\<close> over the reads that arrive (an empty read is the end of the stream); \<open>None\<close>: it still waits.\<close>

fun ws_recv :: "bytes list \<Rightarrow> bytes list \<Rightarrow> ws_client \<Rightarrow> (ws_error + ws_message) option \<times> bytes list \<times> bytes list \<times> ws_client" where
  "ws_recv chunks keys s =
     (case wc_pending s of
        m # ms \<Rightarrow> (Some (Inr m), chunks, keys, s\<lparr>wc_pending := ms\<rparr>)
      | [] \<Rightarrow>
          (case chunks of
             [] \<Rightarrow> (None, [], keys, s)
           | c # cs \<Rightarrow>
               if c = [] then (Some (Inl ConnectionClosed), cs, keys, s\<lparr>wc_closed := True\<rparr>)
               else (let (d, ms, e) = ws_feed (wc_dec s) c;
                         (e1, keys1, s1) = ws_handle ms keys (s\<lparr>wc_dec := d, wc_bytes_in := wc_bytes_in s + length c\<rparr>)
                     in case (e1, e) of
                       (Some x, _) \<Rightarrow> (Some (Inl x), cs, keys1, s1)
                     | (None, Some x) \<Rightarrow> (Some (Inl x), cs, keys1, s1)
                     | (None, None) \<Rightarrow> ws_recv cs keys1 s1)))"

declare ws_recv.simps [simp del]

text \<open>Of the messages of a read the client keeps the data, in order, and answers each ping with its own bytes.\<close>

lemma ws_handle_data:
  assumes "list_all (\<lambda>m. fst m \<noteq> OP_CLOSE \<and> (fst m = OP_PING \<longrightarrow> length (snd m) \<le> 125)) ms"
    and "length (filter (\<lambda>m. fst m = OP_PING) ms) \<le> length keys" "ws_handle ms keys s = (e, keys1, s1)"
  shows "e = None \<and> wc_pending s1 = wc_pending s @ filter (\<lambda>m. fst m \<notin> {OP_PING, OP_PONG}) ms
    \<and> wc_written s1 = wc_written s @ map2 (\<lambda>m k. wire_bytes (wire_of True OP_PONG (k, snd m))) (filter (\<lambda>m. fst m = OP_PING) ms) keys"
  using assms
proof (induction ms arbitrary: keys s)
  case (Cons m ms)
  obtain c p where m: "m = (c, p)" by (cases m)
  show ?case
  proof (cases "c = OP_PING")
    case True
    then obtain k ks where k: "keys = k # ks" using Cons.prems(2) m by (cases keys) auto
    have "encode_frame OP_PONG p (Some k) = Inr (wire_bytes (wire_of True OP_PONG (k, p)))"
      using Cons.prems(1) m True by (simp add: encode_frame_def wire_of_def)
    with Cons.IH [of ks "s\<lparr>wc_written := wc_written s @ [wire_bytes (wire_of True OP_PONG (k, p))]\<rparr>"] Cons.prems m True k
    show ?thesis by (simp add: ws_write_def)
  next
    case False
    then show ?thesis using Cons.IH [of keys] Cons.prems m by (auto simp: op_defs)
  qed
qed simp

subsection \<open>The handshake\<close>

definition GUID :: bytes where "GUID = raw (asc ''258EAFA5-E914-47DA-95CA-C5AB0DC85B11'')"

definition accept_key :: "(bytes \<Rightarrow> bytes) \<Rightarrow> (bytes \<Rightarrow> text_u) \<Rightarrow> text_u \<Rightarrow> text_u" where
  "accept_key sha1 b64 key = b64 (sha1 (raw (utf8 key) @ GUID))"

definition crlf :: text_u where "crlf = [13, 10]"

definition handshake_response :: "(bytes \<Rightarrow> bytes) \<Rightarrow> (bytes \<Rightarrow> text_u) \<Rightarrow> (text_u \<times> text_u) list \<Rightarrow> ws_error + text_u" where
  "handshake_response sha1 b64 headers =
     (case map_of headers (asc ''sec-websocket-key'') of
        None \<Rightarrow> Inl KeyMissing
      | Some key \<Rightarrow>
          if key = [] then Inl KeyMissing
          else Inr (asc ''HTTP/1.1 101 Switching Protocols'' @ crlf @ asc ''Upgrade: websocket'' @ crlf @ asc ''Connection: Upgrade'' @ crlf
            @ asc ''Sec-WebSocket-Accept: '' @ accept_key sha1 b64 key @ crlf @ crlf))"

fun split_crlf :: "text_u \<Rightarrow> text_u list" where
  "split_crlf [] = [[]]"
| "split_crlf (c # s) =
     (if c = 13 \<and> s \<noteq> [] \<and> hd s = 10 then [] # split_crlf (tl s) else (c # hd (split_crlf s)) # tl (split_crlf s))"

definition lower_u :: "text_u \<Rightarrow> text_u" where "lower_u = map (\<lambda>c. if 65 \<le> c \<and> c \<le> 90 then c + 32 else c)"

definition ws_blank :: "nat \<Rightarrow> bool" where "ws_blank c \<longleftrightarrow> c \<in> set ([9..<14] @ [28..<33] @ [133, 160])"

fun has_sub :: "text_u \<Rightarrow> text_u \<Rightarrow> bool" where
  "has_sub p [] = (p = [])"
| "has_sub p (c # s) = (take (length p) (c # s) = p \<or> has_sub p s)"

text \<open>The client's test of the answer; the last of several accept lines counts.\<close>

definition accept_line :: text_u where "accept_line = asc ''sec-websocket-accept:''"

definition client_accepts :: "(bytes \<Rightarrow> bytes) \<Rightarrow> (bytes \<Rightarrow> text_u) \<Rightarrow> text_u \<Rightarrow> text_u \<Rightarrow> ws_error + unit" where
  "client_accepts sha1 b64 key head =
     (let lines = split_crlf head;
          accept = fold (\<lambda>l acc. if take (length accept_line) (lower_u l) = accept_line
             then rev (dropWhile ws_blank (rev (dropWhile ws_blank (drop (length accept_line) l)))) else acc) (tl lines) []
      in if \<not> has_sub (asc ''101'') (hd lines) then Inl UpgradeRefused
         else if accept \<noteq> accept_key sha1 b64 key then Inl AcceptMismatch else Inr ())"

lemma split_crlf_line: "13 \<notin> set a \<Longrightarrow> split_crlf (a @ 13 # 10 # s) = a # split_crlf s"
  by (induction a) auto

text \<open>A client accepts the answer that this server gives to its key, and no answer made for another accept value.\<close>

lemma handshake_agrees:
  assumes "key \<noteq> []" "list_all (\<lambda>c. 32 < c \<and> c < 127) (accept_key sha1 b64 key)"
    and "handshake_response sha1 b64 [(asc ''sec-websocket-key'', key)] = Inr answer"
  shows "client_accepts sha1 b64 key' answer = (if accept_key sha1 b64 key' = accept_key sha1 b64 key then Inr () else Inl AcceptMismatch)"
proof -
  let ?a = "accept_key sha1 b64 key"
  have nb: "\<not> ws_blank c" if "c \<in> set ?a" for c
    using assms(2) that by (auto simp: list_all_iff ws_blank_def)
  have cr: "13 \<notin> set ?a" using assms(2) by (auto simp: list_all_iff)
  have lines: "split_crlf answer = [asc ''HTTP/1.1 101 Switching Protocols'', asc ''Upgrade: websocket'', asc ''Connection: Upgrade'',
      asc ''Sec-WebSocket-Accept: '' @ ?a, [], []]"
  proof -
    have "answer = asc ''HTTP/1.1 101 Switching Protocols'' @ 13 # 10 # asc ''Upgrade: websocket'' @ 13 # 10 # asc ''Connection: Upgrade'' @ 13 # 10
        # (asc ''Sec-WebSocket-Accept: '' @ ?a) @ 13 # 10 # [] @ 13 # 10 # []"
      using assms(1,3) by (simp add: handshake_response_def crlf_def)
    moreover have "13 \<notin> set (asc ''HTTP/1.1 101 Switching Protocols'')" "13 \<notin> set (asc ''Upgrade: websocket'')"
      "13 \<notin> set (asc ''Connection: Upgrade'')" "13 \<notin> set (asc ''Sec-WebSocket-Accept: '' @ ?a)" "13 \<notin> set ([] :: text_u)"
      using cr by (simp_all add: asc_def)
    ultimately show ?thesis by (simp only: split_crlf_line not_False_eq_True split_crlf.simps(1))
  qed
  have strip: "dropWhile ws_blank ?a = ?a" "dropWhile ws_blank (rev ?a) = rev ?a" "ws_blank 32"
    using nb nb [of "hd ?a"] nb [of "last ?a"] by (auto simp: dropWhile_eq_self_iff hd_rev ws_blank_def)
  have head: "has_sub (asc ''101'') (asc ''HTTP/1.1 101 Switching Protocols'')" by (simp add: asc_def)
  have others: "take (length accept_line) (lower_u l) \<noteq> accept_line" if "l \<in> {asc ''Upgrade: websocket'', asc ''Connection: Upgrade'', []}" for l
    using that by (auto simp: accept_line_def lower_u_def asc_def)
  have own: "take (length accept_line) (lower_u (asc ''Sec-WebSocket-Accept: '' @ ?a)) = accept_line"
    "drop (length accept_line) (asc ''Sec-WebSocket-Accept: '' @ ?a) = 32 # ?a"
    by (simp_all add: accept_line_def lower_u_def asc_def)
  show ?thesis using others by (simp add: client_accepts_def lines head own strip del: drop_append take_append)
qed
end
