(* ===== verification/WsGateway.thy ===== *)
theory WsGateway
  imports WsProto PyText TcpGateway Clock "HOL-Library.List_Lexorder" "HOL-Library.Product_Lexorder"
begin

section \<open>The WebSocket gateway\<close>

text \<open>
  Models \<^verbatim>\<open>src/mdfeed/services/ws_gateway.py\<close>: the snapshot table the bus frames keep, the browsers'
  connections with their bounded queues, the 100 ms cycle that sends what changed (or everything, to a
  browser that lost a message), the raw stream, the commands of a browser and the two API routes. A
  message is a value here; its JSON text is what \<^verbatim>\<open>json.dumps\<close> makes of it and is framed by
  \<open>server_frame\<close>. One cycle reads the clock once. The parsing of JSON (\<open>loads\<close>), SHA-1 and base64 are
  arguments; floats are exact rationals, rounded as \<^verbatim>\<open>round\<close> does. HTTP serving, the supervised consumer
  tasks and the gauges are not modelled here.
\<close>

subsection \<open>Messages and connections\<close>

record trade_part =
  tp_last :: rat
  tp_qty :: rat
  tp_side :: int
  tp_ts_ns :: int
  tp_latency_us :: rat
  tp_trades :: nat
  tp_volume :: rat
  tp_dir :: "int option"

record book_part =
  bp_bid :: rat
  bp_ask :: rat
  bp_mid :: rat
  bp_spread_bp :: rat

text \<open>An entry of the snapshot: the keys of a trade are set together, those of a quote too.\<close>

record ws_item =
  it_venue :: text_u
  it_symbol :: text_u
  it_trade :: "trade_part option"
  it_book :: "book_part option"

text \<open>A snapshot carries the number of drops when it is sent because of them.\<close>

datatype ws_out =
    SnapshotMsg seconds "ws_item list" "nat option"
  | TickMsg seconds "ws_item list"
  | TradeMsg trade
  | SignalMsg signal
  | HeartbeatMsg nat seconds

datatype ws_written = Message ws_out | Pong bytes

record ws_conn =
  cn_id :: nat
  cn_queue :: "ws_out list"
  cn_cap :: int
  cn_raw :: bool
  cn_symbols :: "json list option"
  cn_sent :: nat
  cn_dropped :: nat
  cn_needs_resync :: bool
  cn_resyncs :: nat
  cn_dec :: ws_decoder
  cn_written :: "ws_written list"

definition new_conn :: "nat \<Rightarrow> int \<Rightarrow> ws_conn" where
  "new_conn cid cap = \<lparr>cn_id = cid, cn_queue = [], cn_cap = cap, cn_raw = False, cn_symbols = None, cn_sent = 0,
     cn_dropped = 0, cn_needs_resync = False, cn_resyncs = 0, cn_dec = new_decoder True, cn_written = []\<rparr>"

definition filtered :: "ws_conn \<Rightarrow> bool" where
  "filtered c \<longleftrightarrow> (case cn_symbols c of None \<Rightarrow> False | Some js \<Rightarrow> js \<noteq> [])"

definition sees :: "ws_conn \<Rightarrow> text_u \<Rightarrow> bool" where
  "sees c k \<longleftrightarrow> \<not> filtered c \<or> JStr k \<in> set (the (cn_symbols c))"

record ws_gateway =
  wg_clients :: "ws_conn list"
  wg_next_id :: nat
  wg_snapshot :: "(text_u \<times> ws_item) list"
  wg_dirty :: "text_u list"
  wg_frames_in :: nat
  wg_last_frame_at :: seconds
  wg_upstream_ok :: bool
  wg_clock :: "text_u clock_monitor"
  wg_counters :: "(string \<times> int) list"
  wg_queue_size :: int

definition new_ws_gateway :: "int \<Rightarrow> ws_gateway" where
  "new_ws_gateway cap = \<lparr>wg_clients = [], wg_next_id = 0, wg_snapshot = [], wg_dirty = [], wg_frames_in = 0,
     wg_last_frame_at = 0, wg_upstream_ok = False, wg_clock = [],
     wg_counters = map (\<lambda>n. (n, 0)) [''dropped_total'', ''connections_total'', ''coalesced_batches_total'', ''resyncs_total''],
     wg_queue_size = cap\<rparr>"

subsection \<open>Queueing\<close>

definition ws_enqueue :: "ws_out \<Rightarrow> ws_conn \<Rightarrow> ws_conn" where
  "ws_enqueue m c =
     (let c1 = (if q_full (cn_cap c) (cn_queue c)
                then c\<lparr>cn_queue := tl (cn_queue c), cn_dropped := cn_dropped c + 1, cn_needs_resync := True\<rparr> else c)
      in c1\<lparr>cn_queue := q_put (cn_cap c1) m (cn_queue c1)\<rparr>)"

text \<open>The registry counts a drop beside the connection.\<close>

definition drop_count :: "ws_conn \<Rightarrow> string list" where
  "drop_count c = (if q_full (cn_cap c) (cn_queue c) then [''dropped_total''] else [])"

definition raw_passes :: "ws_out \<Rightarrow> text_u option \<Rightarrow> ws_conn \<Rightarrow> bool" where
  "raw_passes m key c \<longleftrightarrow>
     \<not> ((case m of TradeMsg _ \<Rightarrow> True | _ \<Rightarrow> False) \<and> \<not> cn_raw c)
     \<and> (case key of None \<Rightarrow> True | Some k \<Rightarrow> k = [] \<or> sees c k)"

definition push_raw :: "ws_out \<Rightarrow> text_u option \<Rightarrow> ws_gateway \<Rightarrow> ws_gateway" where
  "push_raw m key g =
     g\<lparr>wg_clients := map (\<lambda>c. if raw_passes m key c then ws_enqueue m c else c) (wg_clients g),
       wg_counters := bump (concat (map drop_count (filter (raw_passes m key) (wg_clients g)))) (wg_counters g)\<rparr>"

subsection \<open>Frames of the bus\<close>

definition round_to :: "nat \<Rightarrow> rat \<Rightarrow> rat" where
  "round_to n x = of_int (py_round (x * 10 ^ n)) / 10 ^ n"

definition empty_item :: "text_u \<Rightarrow> text_u \<Rightarrow> ws_item" where
  "empty_item v s = \<lparr>it_venue = v, it_symbol = s, it_trade = None, it_book = None\<rparr>"

definition item_trade :: "trade \<Rightarrow> rat \<Rightarrow> ws_item \<Rightarrow> ws_item" where
  "item_trade t latency cur =
     (let old = it_trade cur;
          dir = (case old of None \<Rightarrow> None
                 | Some p \<Rightarrow> if tp_last p = 0 then tp_dir p
                     else Some (if tp_last p < t_price t then 1 else if t_price t < tp_last p then - 1 else 0))
      in cur\<lparr>it_trade := Some \<lparr>tp_last = t_price t, tp_qty = t_qty t, tp_side = t_side t, tp_ts_ns = t_event_ns t,
           tp_latency_us = round_to 1 latency,
           tp_trades = (case old of None \<Rightarrow> 0 | Some p \<Rightarrow> tp_trades p) + 1,
           tp_volume = round_to 8 ((case old of None \<Rightarrow> 0 | Some p \<Rightarrow> tp_volume p) + t_qty t), tp_dir = dir\<rparr>\<rparr>)"

definition item_book :: "book_top \<Rightarrow> ws_item \<Rightarrow> ws_item" where
  "item_book b cur = cur\<lparr>it_book := Some \<lparr>bp_bid = bid b, bp_ask = ask b, bp_mid = Models.mid b,
     bp_spread_bp = round_to 3 (spread_bp b)\<rparr>\<rparr>"

text \<open>\<^verbatim>\<open>setdefault\<close>, the change of the entry, and the mark that the key has changed.\<close>

definition touch :: "text_u \<Rightarrow> text_u \<Rightarrow> (ws_item \<Rightarrow> ws_item) \<Rightarrow> ws_gateway \<Rightarrow> ws_gateway" where
  "touch v s h g =
     (let k = feed_key v s; cur = (case map_of (wg_snapshot g) k of None \<Rightarrow> empty_item v s | Some i \<Rightarrow> i)
      in g\<lparr>wg_snapshot := AList.update k (h cur) (wg_snapshot g), wg_dirty := List.insert k (wg_dirty g)\<rparr>)"

definition ws_ingest :: "doubles \<Rightarrow> seconds \<Rightarrow> frame \<Rightarrow> ws_gateway \<Rightarrow> ws_gateway" where
  "ws_ingest D now f g0 =
     (let g = g0\<lparr>wg_frames_in := wg_frames_in g0 + 1, wg_last_frame_at := now, wg_upstream_ok := True\<rparr> in
      if msg_type f = MSG_TRADE \<and> TRADE_SIZE \<le> length (payload f) then
        (case unpack_trade D (payload f) of Inl _ \<Rightarrow> g
         | Inr t \<Rightarrow>
            let (clk, lat) = monitor_observe (t_venue t) (latency_us t) now (wg_clock g);
                g1 = touch (t_venue t) (t_symbol t) (item_trade t lat) (g\<lparr>wg_clock := clk\<rparr>)
            in if list_ex cn_raw (wg_clients g1) then push_raw (TradeMsg t) (Some (feed_key (t_venue t) (t_symbol t))) g1 else g1)
      else if msg_type f = MSG_BOOK \<and> BOOK_SIZE \<le> length (payload f) then
        (case unpack_book D (payload f) of Inl _ \<Rightarrow> g | Inr b \<Rightarrow> touch (bk_venue b) (bk_symbol b) (item_book b) g)
      else if msg_type f = MSG_SIGNAL \<and> SIGNAL_SIZE \<le> length (payload f) then
        (case unpack_signal D (payload f) of Inl _ \<Rightarrow> g
         | Inr s \<Rightarrow> push_raw (SignalMsg s) (Some (feed_key (s_venue s) (s_symbol s))) g)
      else if msg_type f = MSG_HEARTBEAT then push_raw (HeartbeatMsg (seq f) now) None g
      else g)"

subsection \<open>The cycle\<close>

text \<open>\<open>keys\<close>: the changed keys in the order the set gives them; \<open>shared\<close>: the batch of the browsers without a filter.\<close>

fun cycle_clients :: "(text_u \<times> ws_item) list \<Rightarrow> text_u list \<Rightarrow> seconds \<Rightarrow> ws_out option \<Rightarrow> ws_conn list
    \<Rightarrow> ws_conn list \<times> string list" where
  "cycle_clients snap keys now shared [] = ([], [])"
| "cycle_clients snap keys now shared (c # cs) =
     (let go = (\<lambda>c1 names sh. case cycle_clients snap keys now sh cs of (cs1, ns) \<Rightarrow> (c1 # cs1, names @ ns)) in
      if cn_raw c then go c [] shared
      else if cn_needs_resync c then
        (let c1 = c\<lparr>cn_needs_resync := False, cn_resyncs := cn_resyncs c + 1\<rparr>;
             items = map snd (filter (\<lambda>(k, _). sees c k) snap)
         in if items = [] then go c1 [''resyncs_total''] shared
            else let c2 = c1\<lparr>cn_queue := []\<rparr>; c3 = ws_enqueue (SnapshotMsg now items (Some (cn_dropped c))) c2
              in go (c3\<lparr>cn_needs_resync := False\<rparr>) (''resyncs_total'' # drop_count c2) shared)
      else if filtered c then
        (let items = List.map_filter (map_of snap) (filter (sees c) keys)
         in if items = [] then go c [] shared else go (ws_enqueue (TickMsg now items) c) (drop_count c) shared)
      else case shared of
             Some m \<Rightarrow> go (ws_enqueue m c) (drop_count c) shared
           | None \<Rightarrow>
              (let items = List.map_filter (map_of snap) keys; m = TickMsg now items
               in if items = [] then (c # cs, []) else go (ws_enqueue m c) (drop_count c) (Some m)))"

definition coalesce :: "text_u list \<Rightarrow> seconds \<Rightarrow> ws_gateway \<Rightarrow> ws_gateway" where
  "coalesce keys now g =
     (if wg_dirty g = [] \<or> wg_clients g = [] then g\<lparr>wg_dirty := []\<rparr>
      else case cycle_clients (wg_snapshot g) keys now None (wg_clients g) of
        (cs, names) \<Rightarrow> g\<lparr>wg_clients := cs, wg_dirty := [], wg_counters := bump (names @ [''coalesced_batches_total'']) (wg_counters g)\<rparr>)"

subsection \<open>A connection's life\<close>

definition ws_connect :: "(bytes \<Rightarrow> bytes) \<Rightarrow> (bytes \<Rightarrow> text_u) \<Rightarrow> (text_u \<times> text_u) list \<Rightarrow> (text_u \<times> text_u) list \<Rightarrow> seconds
    \<Rightarrow> ws_gateway \<Rightarrow> ws_gateway" where
  "ws_connect sha1 b64 headers query now g =
     (let cid = wg_next_id g; g1 = g\<lparr>wg_next_id := wg_next_id g + 1\<rparr> in
      case handshake_response sha1 b64 headers of
        Inl _ \<Rightarrow> g1
      | Inr _ \<Rightarrow>
          (let c = new_conn cid (wg_queue_size g);
               c1 = c\<lparr>cn_raw := (map_of query (asc ''mode'') = Some (asc ''raw'')),
                 cn_symbols := (case map_of query (asc ''symbols'') of None \<Rightarrow> None
                   | Some s \<Rightarrow> if s = [] then None else Some (remdups (map JStr (split_on 44 s))))\<rparr>;
               c2 = ws_enqueue (SnapshotMsg now (map snd (wg_snapshot g)) None) c1
           in g1\<lparr>wg_clients := wg_clients g @ [c2],
                 wg_counters := bump (''connections_total'' # drop_count c1) (wg_counters g)\<rparr>))"

text \<open>A set identifies \<^verbatim>\<open>True\<close> with 1; \<^verbatim>\<open>sorted\<close> compares texts with texts and numbers with numbers.\<close>

definition as_number :: "json \<Rightarrow> int option" where
  "as_number j = (case j of JNum n \<Rightarrow> Some n | JBool b \<Rightarrow> Some (if b then 1 else 0) | _ \<Rightarrow> None)"

definition as_text :: "json \<Rightarrow> text_u option" where
  "as_text j = (case j of JStr s \<Rightarrow> Some s | _ \<Rightarrow> None)"

definition same_member :: "json \<Rightarrow> json \<Rightarrow> bool" where
  "same_member a b \<longleftrightarrow> a = b \<or> as_number a \<noteq> None \<and> as_number a = as_number b"

definition py_set :: "json list \<Rightarrow> json list" where
  "py_set js = fold (\<lambda>j r. if list_ex (same_member j) r then r else r @ [j]) js []"

text \<open>A command; \<open>None\<close>: an exception that ends the connection.\<close>

definition on_command :: "(bytes \<Rightarrow> loaded) \<Rightarrow> bytes \<Rightarrow> ws_conn \<Rightarrow> ws_conn option" where
  "on_command loads p c =
     (case loads p of
        DecodeError \<Rightarrow> Some c
      | Loaded (JObj kvs) \<Rightarrow>
          (let op = obj_get kvs (asc ''op'') JNull in
           if op = JStr (asc ''subscribe'') then
             (let syms = obj_get kvs (asc ''symbols'') JNull in
              if \<not> truthy syms then Some (c\<lparr>cn_symbols := None\<rparr>)
              else case requested_list syms of
                     Inl _ \<Rightarrow> None
                   | Inr js \<Rightarrow> if list_all hashable js then Some (c\<lparr>cn_symbols := Some (py_set js)\<rparr>) else None)
           else if op = JStr (asc ''mode'') then
             Some (c\<lparr>cn_raw := (obj_get kvs (asc ''value'') JNull = JStr (asc ''raw''))\<rparr>)
           else Some c)
      | _ \<Rightarrow> None)"

text \<open>The messages of one read; \<open>True\<close>: the connection ends.\<close>

fun ws_serve :: "(bytes \<Rightarrow> loaded) \<Rightarrow> ws_message list \<Rightarrow> ws_conn \<Rightarrow> ws_conn \<times> bool" where
  "ws_serve loads [] c = (c, False)"
| "ws_serve loads ((op, p) # ms) c =
     (if op = OP_PING then
        (case server_frame OP_PONG p of Inl _ \<Rightarrow> (c, True)
         | Inr _ \<Rightarrow> ws_serve loads ms (c\<lparr>cn_written := cn_written c @ [Pong p]\<rparr>))
      else if op = OP_CLOSE then (c, True)
      else if op = OP_TEXT then (case on_command loads p c of None \<Rightarrow> (c, True) | Some c1 \<Rightarrow> ws_serve loads ms c1)
      else ws_serve loads ms c)"

definition ws_gone :: "nat \<Rightarrow> ws_gateway \<Rightarrow> ws_gateway" where
  "ws_gone cid g = g\<lparr>wg_clients := filter (\<lambda>c. cn_id c \<noteq> cid) (wg_clients g)\<rparr>"

definition read_conn :: "(bytes \<Rightarrow> loaded) \<Rightarrow> bytes \<Rightarrow> ws_conn \<Rightarrow> ws_conn \<times> bool" where
  "read_conn loads chunk c =
     (if chunk = [] then (c, True)
      else case ws_feed (cn_dec c) chunk of
        (d, ms, e) \<Rightarrow> (case ws_serve loads ms (c\<lparr>cn_dec := d\<rparr>) of (c1, ends) \<Rightarrow> (c1, ends \<or> e \<noteq> None)))"

definition ws_read :: "(bytes \<Rightarrow> loaded) \<Rightarrow> nat \<Rightarrow> bytes \<Rightarrow> ws_gateway \<Rightarrow> ws_gateway" where
  "ws_read loads cid chunk g =
     g\<lparr>wg_clients := concat (map (\<lambda>c. if cn_id c \<noteq> cid then [c]
        else case read_conn loads chunk c of (c1, ends) \<Rightarrow> if ends then [] else [c1]) (wg_clients g))\<rparr>"

text \<open>A turn of the sender of one connection.\<close>

definition send_conn :: "ws_conn \<Rightarrow> ws_conn" where
  "send_conn c = (case cn_queue c of [] \<Rightarrow> c
     | m # q \<Rightarrow> c\<lparr>cn_queue := q, cn_written := cn_written c @ [Message m], cn_sent := cn_sent c + 1\<rparr>)"

definition ws_send :: "nat \<Rightarrow> ws_gateway \<Rightarrow> ws_gateway" where
  "ws_send cid g = g\<lparr>wg_clients := map (\<lambda>c. if cn_id c = cid then send_conn c else c) (wg_clients g)\<rparr>"

subsection \<open>The API routes and the health report\<close>

definition sorted_json :: "json list \<Rightarrow> py_error + json list" where
  "sorted_json js =
     (if length js < 2 then Inr js
      else if list_all (\<lambda>j. as_text j \<noteq> None) js then Inr (sort_key (the \<circ> as_text) js)
      else if list_all (\<lambda>j. as_number j \<noteq> None) js then Inr (sort_key (the \<circ> as_number) js)
      else Inl TypeError)"

record conn_info =
  ci_id :: nat
  ci_raw :: bool
  ci_symbols :: json
  ci_sent :: nat
  ci_dropped :: nat
  ci_resyncs :: nat
  ci_needs_resync :: bool

definition info :: "ws_conn \<Rightarrow> py_error + conn_info" where
  "info c =
     (case (if filtered c then sorted_json (the (cn_symbols c)) else Inr []) of
        Inl e \<Rightarrow> Inl e
      | Inr js \<Rightarrow> Inr \<lparr>ci_id = cn_id c, ci_raw = cn_raw c, ci_symbols = (if filtered c then JArr js else JStr (asc ''ALL'')),
          ci_sent = cn_sent c, ci_dropped = cn_dropped c, ci_resyncs = cn_resyncs c, ci_needs_resync = cn_needs_resync c\<rparr>)"

definition api_clients :: "ws_gateway \<Rightarrow> py_error + conn_info list" where
  "api_clients g =
     (let is = map info (wg_clients g) in
      case find isl is of Some (Inl e) \<Rightarrow> Inl e | _ \<Rightarrow> Inr (map projr is))"

definition api_snapshot :: "ws_gateway \<Rightarrow> ws_item list" where
  "api_snapshot g = sort_key (\<lambda>i. (it_venue i, it_symbol i)) (map snd (wg_snapshot g))"

definition ws_frame_age :: "seconds \<Rightarrow> ws_gateway \<Rightarrow> seconds option" where
  "ws_frame_age now g = (if wg_last_frame_at g = 0 then None else Some (now - wg_last_frame_at g))"

definition ws_healthy :: "seconds \<Rightarrow> ws_gateway \<Rightarrow> bool" where
  "ws_healthy now g \<longleftrightarrow> wg_upstream_ok g \<and> (case ws_frame_age now g of None \<Rightarrow> True | Some a \<Rightarrow> a < 30)"


subsection \<open>Queueing is the bounded queue that drops the oldest\<close>

definition conn_valid :: "ws_conn \<Rightarrow> bool" where
  "conn_valid c \<longleftrightarrow> 0 < cn_cap c \<and> int (length (cn_queue c)) \<le> cn_cap c"

interpretation wsq: drop_oldest "\<lambda>c m. ws_enqueue m c" cn_queue cn_dropped "\<lambda>c. nat (cn_cap c)" conn_valid
proof
  fix c :: ws_conn and m
  assume v: "conn_valid c"
  then show "0 < nat (cn_cap c) \<and> length (cn_queue c) \<le> nat (cn_cap c)" by (auto simp: conn_valid_def)
  show "conn_valid (ws_enqueue m c)"
    using v by (cases "cn_queue c") (auto simp: conn_valid_def ws_enqueue_def Let_def q_put_def q_full_def)
  show "nat (cn_cap (ws_enqueue m c)) = nat (cn_cap c)" by (simp add: ws_enqueue_def Let_def)
  show "cn_queue (ws_enqueue m c) = cn_queue c @ [m] \<and> cn_dropped (ws_enqueue m c) = cn_dropped c"
    if "length (cn_queue c) < nat (cn_cap c)"
    using that v by (auto simp: conn_valid_def ws_enqueue_def Let_def q_put_def q_full_def)
  show "cn_queue (ws_enqueue m c) = tl (cn_queue c) @ [m] \<and> cn_dropped (ws_enqueue m c) = cn_dropped c + 1"
    if "length (cn_queue c) = nat (cn_cap c)"
    using that v by (cases "cn_queue c") (auto simp: conn_valid_def ws_enqueue_def Let_def q_put_def q_full_def)
qed

lemma enqueue_keeps [simp]:
  "cn_id (ws_enqueue m c) = cn_id c" "cn_raw (ws_enqueue m c) = cn_raw c" "cn_symbols (ws_enqueue m c) = cn_symbols c"
  "cn_cap (ws_enqueue m c) = cn_cap c" "cn_written (ws_enqueue m c) = cn_written c"
  by (simp_all add: ws_enqueue_def Let_def)

subsection \<open>What a browser displays\<close>

text \<open>
  The table of the dashboard (\<^verbatim>\<open>docs/index.html\<close>): a snapshot replaces it, a batch sets the rows of
  its items, the other messages leave it alone. \<open>displays\<close> is the table once everything written and
  everything still queued has arrived.
\<close>

definition item_key :: "ws_item \<Rightarrow> text_u" where
  "item_key i = feed_key (it_venue i) (it_symbol i)"

definition render_rows :: "ws_item list \<Rightarrow> (text_u \<rightharpoonup> ws_item) \<Rightarrow> (text_u \<rightharpoonup> ws_item)" where
  "render_rows items v = foldl (\<lambda>v i. v(item_key i \<mapsto> i)) v items"

fun browser_takes :: "ws_out \<Rightarrow> (text_u \<rightharpoonup> ws_item) \<Rightarrow> (text_u \<rightharpoonup> ws_item)" where
  "browser_takes (SnapshotMsg now items why) v = render_rows items Map.empty"
| "browser_takes (TickMsg now items) v = render_rows items v"
| "browser_takes m v = v"

definition told :: "ws_conn \<Rightarrow> ws_out list" where
  "told c = List.map_filter (\<lambda>w. case w of Message m \<Rightarrow> Some m | Pong _ \<Rightarrow> None) (cn_written c) @ cn_queue c"

definition displays :: "ws_conn \<Rightarrow> text_u \<rightharpoonup> ws_item" where
  "displays c = fold browser_takes (told c) Map.empty"

lemma rows_other: "k \<notin> item_key ` set items \<Longrightarrow> render_rows items v k = v k"
  unfolding render_rows_def by (induction items arbitrary: v) auto

lemma rows_in: "x \<in> set items \<Longrightarrow> (\<And>i. i \<in> set items \<Longrightarrow> item_key i = k \<Longrightarrow> i = x) \<Longrightarrow> item_key x = k \<Longrightarrow> render_rows items v k = Some x"
proof (induction items rule: rev_induct)
  case (snoc i items)
  have last: "render_rows (items @ [i]) v = (render_rows items v)(item_key i \<mapsto> i)" by (simp add: render_rows_def)
  show ?case
  proof (cases "item_key i = k")
    case True
    moreover from True have "i = x" by (intro snoc.prems(2)) simp_all
    ultimately show ?thesis unfolding last by simp
  next
    case False
    then have "x \<in> set items" using snoc.prems(1,3) by auto
    then have "render_rows items v k = Some x" by (rule snoc.IH) (use snoc.prems(2,3) in simp_all)
    then show ?thesis unfolding last using False by simp
  qed
qed simp

definition table_ok :: "(text_u \<times> ws_item) list \<Rightarrow> bool" where
  "table_ok snap \<longleftrightarrow> distinct (map fst snap) \<and> list_all (\<lambda>(k, i). item_key i = k) snap"

lemma table_key: "table_ok snap \<Longrightarrow> map_of snap k = Some x \<Longrightarrow> item_key x = k"
  by (auto simp: table_ok_def list_all_iff dest!: map_of_SomeD)

text \<open>The rows of the part of the table a browser sees, and of the changed keys of it.\<close>

lemma rows_table:
  assumes "table_ok snap" "map_of snap k = Some x" "P k"
  shows "render_rows (map snd (filter (\<lambda>(k, _). P k) snap)) v k = Some x"
proof (rule rows_in)
  show "x \<in> set (map snd (filter (\<lambda>(k, _). P k) snap))" using assms(2,3) by (force dest: map_of_SomeD)
  show "i = x" if "i \<in> set (map snd (filter (\<lambda>(k, _). P k) snap))" "item_key i = k" for i
  proof -
    from that(1) obtain j where j: "(j, i) \<in> set snap" by auto
    then have "j = k" using that(2) assms(1) by (auto simp: table_ok_def list_all_iff)
    with j assms(1,2) show ?thesis by (auto simp: table_ok_def dest!: map_of_is_SomeI)
  qed
  show "item_key x = k" using assms by (blast intro: table_key)
qed

lemma rows_batch:
  assumes "table_ok snap" "map_of snap k = Some x"
  shows "render_rows (List.map_filter (map_of snap) (filter P keys)) v k = (if k \<in> set keys \<and> P k then Some x else v k)"
proof -
  have mem: "i \<in> set (List.map_filter (map_of snap) (filter P keys)) \<longleftrightarrow> (\<exists>j \<in> set keys. P j \<and> map_of snap j = Some i)" for i
    by (force simp: List.map_filter_def)
  show ?thesis
  proof (cases "k \<in> set keys \<and> P k")
    case True
    then have "render_rows (List.map_filter (map_of snap) (filter P keys)) v k = Some x"
      by (intro rows_in) (use assms table_key [OF assms(1)] in \<open>auto simp: mem\<close>)
    with True show ?thesis by simp
  next
    case False
    then have "k \<notin> item_key ` set (List.map_filter (map_of snap) (filter P keys))"
      using table_key [OF assms(1)] by (auto simp: mem)
    from rows_other [OF this] False show ?thesis by auto
  qed
qed

definition up_to_date :: "(text_u \<times> ws_item) list \<Rightarrow> text_u list \<Rightarrow> ws_conn \<Rightarrow> bool" where
  "up_to_date snap dirty c \<longleftrightarrow> (\<forall>k x. map_of snap k = Some x \<and> k \<notin> set dirty \<and> sees c k \<longrightarrow> displays c k = Some x)"

lemma enqueue_room:
  assumes "\<not> q_full (cn_cap c) (cn_queue c)"
  shows "displays (ws_enqueue m c) = browser_takes m (displays c)" "cn_needs_resync (ws_enqueue m c) = cn_needs_resync c"
    "cn_queue (ws_enqueue m c) = cn_queue c @ [m]"
  using assms by (simp_all add: ws_enqueue_def q_put_def displays_def told_def)

lemma enqueue_full: "q_full (cn_cap c) (cn_queue c) \<Longrightarrow> cn_needs_resync (ws_enqueue m c)"
  by (simp add: ws_enqueue_def Let_def)

lemma sees_cong: "cn_symbols c = cn_symbols c' \<Longrightarrow> sees c k = sees c' k" "cn_symbols c = cn_symbols c' \<Longrightarrow> filtered c = filtered c'"
  by (simp_all add: sees_def filtered_def)

lemma sees_enqueue [simp]: "sees (ws_enqueue m c) = sees c"
  by (rule ext) (rule sees_cong, simp)

subsection \<open>The cycle, browser by browser\<close>

definition cycle_one :: "(text_u \<times> ws_item) list \<Rightarrow> text_u list \<Rightarrow> seconds \<Rightarrow> ws_conn \<Rightarrow> ws_conn" where
  "cycle_one snap keys now c =
     (if cn_raw c then c
      else if cn_needs_resync c then
        (let c1 = c\<lparr>cn_needs_resync := False, cn_resyncs := cn_resyncs c + 1\<rparr>;
             items = map snd (filter (\<lambda>(k, _). sees c k) snap)
         in if items = [] then c1
            else (ws_enqueue (SnapshotMsg now items (Some (cn_dropped c))) (c1\<lparr>cn_queue := []\<rparr>))\<lparr>cn_needs_resync := False\<rparr>)
      else (let items = List.map_filter (map_of snap) (filter (sees c) keys)
            in if items = [] then c else ws_enqueue (TickMsg now items) c))"

text \<open>Sharing one batch among the browsers without a filter, and leaving the loop when it is empty, changes nothing.\<close>

lemma cycle_each:
  assumes "keys \<noteq> []" "set keys \<subseteq> fst ` set snap"
    and "shared = None \<or> shared = Some (TickMsg now (List.map_filter (map_of snap) keys))"
  shows "fst (cycle_clients snap keys now shared cs) = map (cycle_one snap keys now) cs"
  using assms(3)
proof (induction cs arbitrary: shared)
  case (Cons c cs)
  have "map_of snap (hd keys) \<noteq> None" using assms(1,2) by (simp add: map_of_eq_None_iff subset_iff)
  then have some: "List.map_filter (map_of snap) keys \<noteq> []"
    using assms(1) by (cases keys) (auto simp: List.map_filter_def)
  have all: "filter (sees c) keys = keys" if "\<not> filtered c" using that by (simp add: sees_def)
  note IH = Cons.IH [of shared] Cons.IH [of "Some (TickMsg now (List.map_filter (map_of snap) keys))"]
  show ?case
    using Cons.prems IH some all
    by (auto simp: cycle_one_def Let_def case_prod_beta split: option.split)
qed simp

lemma cycle_one_keeps [simp]:
  "cn_id (cycle_one snap keys now c) = cn_id c" "cn_raw (cycle_one snap keys now c) = cn_raw c"
  "cn_symbols (cycle_one snap keys now c) = cn_symbols c"
  by (simp_all add: cycle_one_def Let_def)

lemma sees_cycle [simp]: "sees (cycle_one snap keys now c) = sees c"
  by (rule ext) (rule sees_cong, simp)

text \<open>A browser that lost something gets the whole of its table again.\<close>

lemma resync_one:
  assumes "table_ok snap" "\<not> cn_raw c" "cn_needs_resync c"
  shows "\<not> cn_needs_resync (cycle_one snap keys now c) \<and> up_to_date snap [] (cycle_one snap keys now c)"
proof -
  let ?items = "map snd (filter (\<lambda>(k, _). sees c k) snap)"
  let ?c1 = "c\<lparr>cn_needs_resync := False, cn_resyncs := cn_resyncs c + 1\<rparr>"
  show ?thesis
  proof (cases "?items = []")
    case True
    have "\<not> (map_of snap k = Some x \<and> sees c k)" for k x
      using True by (auto simp: filter_empty_conv dest!: map_of_SomeD)
    then have "up_to_date snap [] (cycle_one snap keys now c)" by (auto simp: up_to_date_def)
    then show ?thesis using assms True by (simp add: cycle_one_def Let_def)
  next
    case False
    let ?m = "SnapshotMsg now ?items (Some (cn_dropped c))" and ?c2 = "?c1\<lparr>cn_queue := []\<rparr>"
    have room: "\<not> q_full (cn_cap ?c2) (cn_queue ?c2)" by (simp add: q_full_def)
    have eq: "cycle_one snap keys now c = (ws_enqueue ?m ?c2)\<lparr>cn_needs_resync := False\<rparr>"
      using assms False by (simp add: cycle_one_def Let_def)
    have "displays (cycle_one snap keys now c) = displays (ws_enqueue ?m ?c2)"
      unfolding eq by (simp add: displays_def told_def)
    also have "\<dots> = render_rows ?items Map.empty" using enqueue_room(1) [OF room, of ?m] by simp
    finally show ?thesis using rows_table [OF assms(1), of _ _ "sees c"] by (simp add: up_to_date_def) (simp add: eq)
  qed
qed

lemma delta_one:
  assumes "table_ok snap" "\<not> cn_raw c" "\<not> cn_needs_resync c" "up_to_date snap keys c"
  shows "cn_needs_resync (cycle_one snap keys now c) \<or> up_to_date snap [] (cycle_one snap keys now c)"
proof -
  let ?items = "List.map_filter (map_of snap) (filter (sees c) keys)"
  have rows: "render_rows ?items (displays c) k = Some x" if "map_of snap k = Some x" "sees c k" for k x
    using rows_batch [OF assms(1) that(1), of "sees c" keys "displays c"] that assms(4) by (auto simp: up_to_date_def)
  show ?thesis
  proof (cases "?items = []")
    case True
    then show ?thesis using assms rows by (simp add: cycle_one_def up_to_date_def render_rows_def)
  next
    case False
    then have eq: "cycle_one snap keys now c = ws_enqueue (TickMsg now ?items) c" using assms by (simp add: cycle_one_def Let_def)
    show ?thesis
    proof (cases "q_full (cn_cap c) (cn_queue c)")
      case True
      then show ?thesis by (simp add: eq enqueue_full)
    next
      case nf: False
      show ?thesis using rows by (simp add: up_to_date_def eq enqueue_room(1) [OF nf])
    qed
  qed
qed

subsection \<open>Runs of the gateway\<close>

text \<open>
  What the event loop can do next: a frame of the bus, a browser that connects, bytes of a browser (none:
  it has closed), a connection that breaks, a turn of a sender, a cycle with the changed keys in whatever
  order. A run also collects the browsers whose filter or mode a command has changed.
\<close>

record ws_env =
  env_doubles :: doubles
  env_loads :: "bytes \<Rightarrow> loaded"
  env_sha1 :: "bytes \<Rightarrow> bytes"
  env_b64 :: "bytes \<Rightarrow> text_u"

inductive ws_step :: "ws_env \<Rightarrow> ws_gateway \<Rightarrow> ws_gateway \<Rightarrow> bool" for E where
  frame_step: "ws_step E g (ws_ingest (env_doubles E) now f g)"
| connect_step: "ws_step E g (ws_connect (env_sha1 E) (env_b64 E) headers query now g)"
| read_step: "ws_step E g (ws_read (env_loads E) cid chunk g)"
| gone_step: "ws_step E g (ws_gone cid g)"
| send_step: "ws_step E g (ws_send cid g)"
| cycle_step: "set keys = set (wg_dirty g) \<Longrightarrow> ws_step E g (coalesce keys now g)"

definition retuned :: "ws_gateway \<Rightarrow> ws_gateway \<Rightarrow> nat list" where
  "retuned g g' = map cn_id (filter (\<lambda>c. list_ex (\<lambda>b. cn_id b = cn_id c \<and> (cn_raw b \<noteq> cn_raw c \<or> cn_symbols b \<noteq> cn_symbols c))
     (wg_clients g)) (wg_clients g'))"

inductive ws_run :: "ws_env \<Rightarrow> int \<Rightarrow> nat list \<Rightarrow> ws_gateway \<Rightarrow> bool" for E cap where
  run_start: "ws_run E cap [] (new_ws_gateway cap)"
| run_step: "ws_run E cap ids g \<Longrightarrow> ws_step E g g' \<Longrightarrow> ws_run E cap (retuned g g' @ ids) g'"

inductive_cases ws_stepE: "ws_step E g g'"

subsection \<open>The invariant of a run\<close>

definition conn_good :: "nat list \<Rightarrow> (text_u \<times> ws_item) list \<Rightarrow> text_u list \<Rightarrow> ws_conn \<Rightarrow> bool" where
  "conn_good ids snap dirty c \<longleftrightarrow> cn_id c \<in> set ids \<or> cn_raw c \<or> cn_needs_resync c \<or> up_to_date snap dirty c"

definition keys_ok :: "ws_gateway \<Rightarrow> bool" where
  "keys_ok g \<longleftrightarrow> table_ok (wg_snapshot g) \<and> set (wg_dirty g) \<subseteq> fst ` set (wg_snapshot g)"

definition all_good :: "nat list \<Rightarrow> ws_gateway \<Rightarrow> bool" where
  "all_good ids g \<longleftrightarrow> (\<forall>c \<in> set (wg_clients g). conn_good ids (wg_snapshot g) (wg_dirty g) c)"

definition capped :: "int \<Rightarrow> ws_gateway \<Rightarrow> bool" where
  "capped cap g \<longleftrightarrow> wg_queue_size g = cap \<and> (\<forall>c \<in> set (wg_clients g). cn_cap c = cap \<and> (0 < cap \<longrightarrow> int (length (cn_queue c)) \<le> cap))"

lemma good_cong:
  "\<lbrakk>cn_id c' = cn_id c; cn_raw c' = cn_raw c; cn_symbols c' = cn_symbols c; cn_needs_resync c' = cn_needs_resync c;
    told c' = told c\<rbrakk> \<Longrightarrow> conn_good ids snap dirty c' = conn_good ids snap dirty c"
  by (simp add: conn_good_def up_to_date_def displays_def sees_cong(1) [of c' c])

text \<open>A message that is no part of the table changes nothing, unless it costs another one.\<close>

lemma good_neutral:
  assumes "conn_good ids snap dirty c" "\<And>v. browser_takes m v = v"
  shows "conn_good ids snap dirty (ws_enqueue m c)"
proof (cases "q_full (cn_cap c) (cn_queue c)")
  case True
  then show ?thesis by (simp add: conn_good_def enqueue_full)
next
  case False
  then show ?thesis using assms by (simp add: conn_good_def up_to_date_def enqueue_room)
qed

lemma good_push: "all_good ids g \<Longrightarrow> (\<And>v. browser_takes m v = v) \<Longrightarrow> all_good ids (push_raw m key g)"
  by (auto simp: all_good_def push_raw_def intro: good_neutral)

lemma table_update:
  assumes "table_ok snap" "item_key i = k"
  shows "table_ok (AList.update k i snap)"
proof -
  have "list_all (\<lambda>(k, i). item_key i = k) (AList.update k i snap)" if "list_all (\<lambda>(k, i). item_key i = k) snap"
    using that assms(2) by (induction snap) auto
  with assms(1) show ?thesis by (simp add: table_ok_def distinct_update)
qed

lemma touch_good:
  assumes "keys_ok g" "all_good ids g" "\<And>i. item_key (h i) = item_key i"
  shows "keys_ok (touch v s h g) \<and> all_good ids (touch v s h g)"
proof -
  let ?k = "feed_key v s"
  let ?cur = "case map_of (wg_snapshot g) ?k of None \<Rightarrow> empty_item v s | Some i \<Rightarrow> i"
  have "item_key ?cur = ?k"
    using assms(1) table_key [of "wg_snapshot g" ?k] by (simp add: keys_ok_def empty_item_def item_key_def split: option.split)
  with assms(1,3) have "keys_ok (touch v s h g)"
    by (auto simp: keys_ok_def touch_def Let_def dom_update intro!: table_update)
  moreover have "up_to_date (wg_snapshot (touch v s h g)) (wg_dirty (touch v s h g)) c"
    if "up_to_date (wg_snapshot g) (wg_dirty g) c" for c
    using that by (auto simp: up_to_date_def touch_def Let_def update_conv' split: if_splits)
  with assms(2) have "all_good ids (touch v s h g)"
    by (auto simp: all_good_def conn_good_def touch_def Let_def)
  ultimately show ?thesis by blast
qed

lemma keys_push [simp]: "keys_ok (push_raw m key g) = keys_ok g"
  by (simp add: keys_ok_def push_raw_def)

lemma item_keys [simp]: "item_key (item_trade t l i) = item_key i" "item_key (item_book b i) = item_key i"
  by (simp_all add: item_key_def item_trade_def item_book_def Let_def)

lemma good_fields:
  "\<lbrakk>wg_clients g' = wg_clients g; wg_snapshot g' = wg_snapshot g; wg_dirty g' = wg_dirty g\<rbrakk>
    \<Longrightarrow> keys_ok g' = keys_ok g \<and> all_good ids g' = all_good ids g"
  by (simp add: keys_ok_def all_good_def)

lemma ingest_good:
  assumes "keys_ok g" "all_good ids g"
  shows "keys_ok (ws_ingest D now f g) \<and> all_good ids (ws_ingest D now f g)"
proof -
  let ?g1 = "g\<lparr>wg_frames_in := wg_frames_in g + 1, wg_last_frame_at := now, wg_upstream_ok := True\<rparr>"
  have g1: "keys_ok ?g1" "all_good ids ?g1" using assms good_fields [of ?g1 g ids] by simp_all
  have clk: "keys_ok (?g1\<lparr>wg_clock := x\<rparr>)" "all_good ids (?g1\<lparr>wg_clock := x\<rparr>)" for x
    using assms good_fields [of "?g1\<lparr>wg_clock := x\<rparr>" g ids] by simp_all
  note T = touch_good [OF clk, of "item_trade _ _"]
  note B = touch_good [OF g1, of "item_book _"]
  show ?thesis
    using g1 T B by (auto simp: ws_ingest_def Let_def case_prod_beta good_push split: sum.split)
qed

lemma cycle_good:
  assumes "keys_ok g" "all_good ids g" "set keys = set (wg_dirty g)"
  shows "keys_ok (coalesce keys now g) \<and> all_good ids (coalesce keys now g)"
proof (cases "wg_dirty g = [] \<or> wg_clients g = []")
  case True
  then show ?thesis using assms(1,2) by (auto simp: coalesce_def keys_ok_def all_good_def)
next
  case False
  have tab: "table_ok (wg_snapshot g)" using assms(1) by (simp add: keys_ok_def)
  have "fst (cycle_clients (wg_snapshot g) keys now None (wg_clients g)) = map (cycle_one (wg_snapshot g) keys now) (wg_clients g)"
    using False assms(1,3) by (intro cycle_each) (auto simp: keys_ok_def)
  then have cs: "wg_clients (coalesce keys now g) = map (cycle_one (wg_snapshot g) keys now) (wg_clients g)"
    using False by (simp add: coalesce_def case_prod_beta)
  have rest: "wg_snapshot (coalesce keys now g) = wg_snapshot g" "wg_dirty (coalesce keys now g) = []"
    by (simp_all add: coalesce_def case_prod_beta)
  have "conn_good ids (wg_snapshot g) [] (cycle_one (wg_snapshot g) keys now c)" if "c \<in> set (wg_clients g)" for c
  proof -
    have "conn_good ids (wg_snapshot g) (wg_dirty g) c" using assms(2) that by (simp add: all_good_def)
    moreover have "up_to_date (wg_snapshot g) keys c = up_to_date (wg_snapshot g) (wg_dirty g) c"
      by (simp add: up_to_date_def assms(3))
    ultimately show ?thesis
      using resync_one [OF tab, of c keys now] delta_one [OF tab, of c keys now]
      by (cases "cn_needs_resync c") (auto simp: conn_good_def)
  qed
  with assms(1) show ?thesis by (simp add: keys_ok_def all_good_def cs rest)
qed

lemma good_more: "conn_good ids snap dirty c \<Longrightarrow> set ids \<subseteq> set ids' \<Longrightarrow> conn_good ids' snap dirty c"
  by (auto simp: conn_good_def)

lemma all_good_more: "all_good ids g \<Longrightarrow> set ids \<subseteq> set ids' \<Longrightarrow> all_good ids' g"
  by (auto simp: all_good_def intro: good_more)

text \<open>A browser that connects is up to date from its first message on.\<close>

lemma connect_good:
  assumes "keys_ok g" "all_good ids g"
  shows "keys_ok (ws_connect sha1 b64 headers query now g) \<and> all_good ids (ws_connect sha1 b64 headers query now g)"
proof -
  have tab: "table_ok (wg_snapshot g)" using assms(1) by (simp add: keys_ok_def)
  have new: "conn_good ids (wg_snapshot g) (wg_dirty g) (ws_enqueue (SnapshotMsg now (map snd (wg_snapshot g)) None)
      (new_conn cid cap\<lparr>cn_raw := r, cn_symbols := s\<rparr>))" for cid cap r s
  proof -
    let ?c = "new_conn cid cap\<lparr>cn_raw := r, cn_symbols := s\<rparr>"
    have room: "\<not> q_full (cn_cap ?c) (cn_queue ?c)" by (simp add: new_conn_def q_full_def)
    have "render_rows (map snd (wg_snapshot g)) Map.empty k = Some x" if "map_of (wg_snapshot g) k = Some x" for k x
      using rows_table [OF tab that, of "\<lambda>_. True"] by (simp add: case_prod_beta)
    then show ?thesis by (simp add: conn_good_def up_to_date_def enqueue_room(1) [OF room])
  qed
  show ?thesis
    using assms new by (auto simp: ws_connect_def Let_def keys_ok_def all_good_def split: sum.split)
qed

lemma serve_told: "ws_serve loads ms c = (c1, ends) \<Longrightarrow> cn_id c1 = cn_id c \<and> cn_needs_resync c1 = cn_needs_resync c
    \<and> told c1 = told c \<and> cn_queue c1 = cn_queue c \<and> cn_cap c1 = cn_cap c"
proof (induction loads ms c rule: ws_serve.induct)
  case (2 loads op p ms c)
  have cmd: "cn_id c2 = cn_id c \<and> cn_needs_resync c2 = cn_needs_resync c \<and> told c2 = told c \<and> cn_queue c2 = cn_queue c \<and> cn_cap c2 = cn_cap c"
    if "on_command loads p c = Some c2" for c2
    using that by (auto simp: on_command_def told_def Let_def split: loaded.splits json.splits sum.splits if_splits)
  have pong: "told (c\<lparr>cn_written := cn_written c @ [Pong p]\<rparr>) = told c"
    by (simp add: told_def List.map_filter_def)
  show ?case
  proof (cases "op = OP_PING")
    case ping: True
    show ?thesis
    proof (cases "server_frame OP_PONG p")
      case (Inl e)
      then show ?thesis using 2(4) ping by simp
    next
      case (Inr b)
      then show ?thesis using 2(1) [OF ping Inr] 2(4) ping pong by simp
    qed
  next
    case np: False
    show ?thesis
    proof (cases "op = OP_TEXT")
      case True
      show ?thesis
      proof (cases "on_command loads p c")
        case None
        then show ?thesis using 2(4) np True by (simp add: op_defs)
      next
        case (Some c2)
        from np True have "ws_serve loads ms c2 = (c1, ends)" using 2(4) Some by (simp add: op_defs)
        with 2(2) [OF np _ True Some] True cmd [OF Some] show ?thesis by (simp add: op_defs)
      qed
    next
      case False
      then show ?thesis using 2(3) [OF np _ False] 2(4) np by (simp split: if_splits)
    qed
  qed
qed simp

lemma told_dec [simp]: "told (c\<lparr>cn_dec := d\<rparr>) = told c"
  by (simp add: told_def)

lemma read_conn_keeps:
  assumes "read_conn loads chunk c = (c1, ends)"
  shows "cn_id c1 = cn_id c \<and> cn_needs_resync c1 = cn_needs_resync c \<and> told c1 = told c \<and> cn_queue c1 = cn_queue c \<and> cn_cap c1 = cn_cap c"
proof (cases "chunk = []")
  case True
  then show ?thesis using assms by (simp add: read_conn_def)
next
  case False
  obtain d ms e where f: "ws_feed (cn_dec c) chunk = (d, ms, e)" using prod_cases3 by blast
  obtain c2 ends2 where s: "ws_serve loads ms (c\<lparr>cn_dec := d\<rparr>) = (c2, ends2)" by fastforce
  show ?thesis using serve_told [OF s] assms False by (simp add: read_conn_def f s)
qed

lemma read_good:
  assumes "keys_ok g" "all_good ids g"
  shows "keys_ok (ws_read loads cid chunk g) \<and> all_good (retuned g (ws_read loads cid chunk g) @ ids) (ws_read loads cid chunk g)"
proof
  show "keys_ok (ws_read loads cid chunk g)" using assms(1) by (simp add: keys_ok_def ws_read_def)
  let ?g' = "ws_read loads cid chunk g"
  show "all_good (retuned g ?g' @ ids) ?g'"
    unfolding all_good_def
  proof
    fix c1 assume c1: "c1 \<in> set (wg_clients ?g')"
    then obtain c where c: "c \<in> set (wg_clients g)" "c1 = c \<or> (\<exists>ends. read_conn loads chunk c = (c1, ends))"
      by (auto simp: ws_read_def split: if_splits prod.splits) metis+
    have keeps: "cn_id c1 = cn_id c" "cn_needs_resync c1 = cn_needs_resync c" "told c1 = told c"
      using c(2) read_conn_keeps by blast+
    have sg: "wg_snapshot ?g' = wg_snapshot g" "wg_dirty ?g' = wg_dirty g" by (simp_all add: ws_read_def)
    have good: "conn_good ids (wg_snapshot g) (wg_dirty g) c" using assms(2) c(1) by (simp add: all_good_def)
    show "conn_good (retuned g ?g' @ ids) (wg_snapshot ?g') (wg_dirty ?g') c1"
    proof (cases "cn_raw c1 = cn_raw c \<and> cn_symbols c1 = cn_symbols c")
      case True
      then have "conn_good ids (wg_snapshot g) (wg_dirty g) c1" using good_cong [of c1 c ids] keeps good by simp
      then show ?thesis by (simp add: sg) (auto intro: good_more)
    next
      case False
      then have "list_ex (\<lambda>b. cn_id b = cn_id c1 \<and> (cn_raw b \<noteq> cn_raw c1 \<or> cn_symbols b \<noteq> cn_symbols c1)) (wg_clients g)"
        unfolding list_ex_iff using c(1) keeps(1) by (intro bexI [of _ c]) auto
      with c1 have "cn_id c1 \<in> set (retuned g ?g')" unfolding retuned_def by simp
      then show ?thesis by (simp add: conn_good_def)
    qed
  qed
qed

lemma send_conn_keeps:
  "cn_id (send_conn c) = cn_id c" "cn_raw (send_conn c) = cn_raw c" "cn_symbols (send_conn c) = cn_symbols c"
  "cn_needs_resync (send_conn c) = cn_needs_resync c" "told (send_conn c) = told c" "cn_cap (send_conn c) = cn_cap c"
  "length (cn_queue (send_conn c)) \<le> length (cn_queue c)"
  by (auto simp: send_conn_def told_def List.map_filter_def split: list.split)

lemma step_good:
  assumes "ws_step E g g'" "keys_ok g" "all_good ids g"
  shows "keys_ok g' \<and> all_good (retuned g g' @ ids) g'"
proof -
  have "keys_ok g' \<and> (all_good ids g' \<or> all_good (retuned g g' @ ids) g')"
    using assms(1)
  proof cases
    case (frame_step now f)
    then show ?thesis using ingest_good [OF assms(2,3)] by blast
  next
    case (connect_step headers query now)
    then show ?thesis using connect_good [OF assms(2,3)] by blast
  next
    case (read_step cid chunk)
    then show ?thesis using read_good [OF assms(2,3)] by blast
  next
    case (gone_step cid)
    then show ?thesis using assms(2,3) by (auto simp: ws_gone_def keys_ok_def all_good_def)
  next
    case (send_step cid)
    have "conn_good ids snap dirty (send_conn c) = conn_good ids snap dirty c" for snap dirty c
      by (rule good_cong) (simp_all add: send_conn_keeps)
    with send_step show ?thesis using assms(2,3) by (auto simp: ws_send_def keys_ok_def all_good_def)
  next
    case (cycle_step keys now)
    then show ?thesis using cycle_good [OF assms(2,3), of keys now] by blast
  qed
  then show ?thesis by (auto intro: all_good_more)
qed

lemma run_good: "ws_run E cap ids g \<Longrightarrow> keys_ok g \<and> all_good ids g"
proof (induction rule: ws_run.induct)
  case run_start
  show ?case by (simp add: new_ws_gateway_def keys_ok_def table_ok_def all_good_def)
next
  case (run_step ids g g')
  show ?case by (rule step_good [OF run_step.hyps(2)]) (use run_step.IH in simp_all)
qed

text \<open>
  C8: a browser is never left behind without the gateway knowing. In every run, whatever frames, connections,
  commands of others, slow senders, drops and cycles come in whatever order: a browser in the coalesced mode
  that has not changed its filter or mode and is not marked for a resynchronisation shows, once what
  is written and queued has arrived, the gateway's own entry for every key it sees, but for the
  keys that the next cycle is about to send.
\<close>

theorem browser_up_to_date:
  assumes "ws_run E cap ids g" "c \<in> set (wg_clients g)"
    and "cn_id c \<notin> set ids" "\<not> cn_raw c" "\<not> cn_needs_resync c"
    and "map_of (wg_snapshot g) k = Some i" "k \<notin> set (wg_dirty g)" "sees c k"
  shows "displays c k = Some i"
proof -
  have "conn_good ids (wg_snapshot g) (wg_dirty g) c" using run_good [OF assms(1)] assms(2) by (simp add: all_good_def)
  with assms(3-5) have "up_to_date (wg_snapshot g) (wg_dirty g) c" by (simp add: conn_good_def)
  with assms(6-8) show ?thesis by (simp add: up_to_date_def)
qed

text \<open>
  C19: the mark is acted upon. In every run, the next cycle with a change gives each marked browser in the
  coalesced mode, also one that has sent commands, the whole of its table: the mark is gone, and the browser
  shows the gateway's own entry for every key it sees, those that just changed included.
\<close>

theorem resync_restores:
  assumes "ws_run E cap ids g" "c \<in> set (wg_clients g)" "\<not> cn_raw c" "cn_needs_resync c"
    and "wg_dirty g \<noteq> []" "set keys = set (wg_dirty g)"
  shows "\<exists>c' \<in> set (wg_clients (coalesce keys now g)). cn_id c' = cn_id c \<and> cn_symbols c' = cn_symbols c \<and> \<not> cn_needs_resync c'
    \<and> (\<forall>k i. map_of (wg_snapshot (coalesce keys now g)) k = Some i \<and> sees c k \<longrightarrow> displays c' k = Some i)"
proof -
  have ok: "keys_ok g" using run_good [OF assms(1)] by blast
  then have "fst (cycle_clients (wg_snapshot g) keys now None (wg_clients g)) = map (cycle_one (wg_snapshot g) keys now) (wg_clients g)"
    using assms(5,6) by (intro cycle_each) (auto simp: keys_ok_def)
  then have "cycle_one (wg_snapshot g) keys now c \<in> set (wg_clients (coalesce keys now g))"
    using assms(2,5) by (cases "wg_clients g") (auto simp: coalesce_def case_prod_beta)
  moreover have "\<not> cn_needs_resync (cycle_one (wg_snapshot g) keys now c) \<and> up_to_date (wg_snapshot g) [] (cycle_one (wg_snapshot g) keys now c)"
    using ok assms(3,4) by (intro resync_one) (simp_all add: keys_ok_def)
  moreover have "wg_snapshot (coalesce keys now g) = wg_snapshot g" by (simp add: coalesce_def case_prod_beta)
  ultimately show ?thesis by (intro bexI [of _ "cycle_one (wg_snapshot g) keys now c"]) (simp_all add: up_to_date_def)
qed

subsection \<open>A run with a slow browser\<close>

text \<open>A queue of one message: the connection's snapshot is lost to the first heartbeat, a quote arrives, the next cycle sends all.\<close>

definition demo_env :: ws_env where
  "demo_env = \<lparr>env_doubles = sample_doubles, env_loads = \<lambda>_. DecodeError, env_sha1 = \<lambda>b. b, env_b64 = unraw\<rparr>"

definition demo_frame :: frame where
  "demo_frame = \<lparr>msg_type = MSG_BOOK, seq = 1, flags = 0, payload = projr (pack_book sample_doubles sample_book)\<rparr>"

definition demo_key :: text_u where "demo_key = feed_key [85, 80] [66, 84]"

definition demo_open :: ws_gateway where
  "demo_open = ws_connect (\<lambda>b. b) unraw [(asc ''sec-websocket-key'', [107])] [] 1 (new_ws_gateway 1)"

definition demo_beat :: ws_gateway where
  "demo_beat = ws_ingest sample_doubles 1 \<lparr>msg_type = MSG_HEARTBEAT, seq = 1, flags = 0, payload = []\<rparr> demo_open"

definition demo_slow :: ws_gateway where
  "demo_slow = ws_ingest sample_doubles 2 demo_frame demo_beat"

definition demo_done :: ws_gateway where
  "demo_done = coalesce [demo_key] 3 demo_slow"

definition demo_item :: ws_item where "demo_item = item_book sample_book (empty_item [85, 80] [66, 84])"

lemma demo_quote:
  "ws_ingest sample_doubles now demo_frame g =
     touch [85, 80] [66, 84] (item_book sample_book) (g\<lparr>wg_frames_in := wg_frames_in g + 1, wg_last_frame_at := now, wg_upstream_ok := True\<rparr>)"
proof -
  have "book_fits sample_doubles sample_book"
    by (simp add: book_fits_def sample_doubles_def sample_book_def fits_def scalar_def utf8_def utf8_char_def u64_ok_def carries_def)
  from book_roundtrip [OF this, of "[]"]
  have "unpack_book sample_doubles (payload demo_frame) = Inr sample_book \<and> length (payload demo_frame) = BOOK_SIZE"
    by (auto simp: demo_frame_def)
  then show ?thesis by (simp add: ws_ingest_def demo_frame_def msg_defs Let_def sample_book_def)
qed

definition demo_conn :: ws_conn where
  "demo_conn = (new_conn 0 1)\<lparr>cn_queue := [HeartbeatMsg 1 1], cn_dropped := 1, cn_needs_resync := True\<rparr>"

lemma demo_connected:
  "wg_clients demo_open = [(new_conn 0 1)\<lparr>cn_queue := [SnapshotMsg 1 [] None]\<rparr>]" "wg_snapshot demo_open = []" "wg_dirty demo_open = []"
  by (simp_all add: demo_open_def ws_connect_def handshake_response_def new_ws_gateway_def new_conn_def ws_enqueue_def q_put_def q_full_def asc_def)

lemma demo_waiting:
  "wg_clients demo_beat = [demo_conn]" "wg_snapshot demo_beat = []" "wg_dirty demo_beat = []"
  by (simp_all add: demo_beat_def ws_ingest_def msg_defs push_raw_def raw_passes_def demo_connected ws_enqueue_def q_put_def q_full_def
      demo_conn_def new_conn_def)

lemma demo_marked:
  "wg_clients demo_slow = [demo_conn]" "wg_snapshot demo_slow = [(demo_key, demo_item)]" "wg_dirty demo_slow = [demo_key]"
  by (simp_all add: demo_slow_def demo_quote touch_def Let_def demo_waiting demo_key_def demo_item_def)

lemma demo_resynced:
  "wg_clients demo_done = [demo_conn\<lparr>cn_queue := [SnapshotMsg 3 [demo_item] (Some 1)], cn_needs_resync := False, cn_resyncs := 1\<rparr>]"
  "wg_snapshot demo_done = [(demo_key, demo_item)]" "wg_dirty demo_done = []"
  by (simp_all add: demo_done_def coalesce_def demo_marked demo_conn_def new_conn_def sees_def filtered_def ws_enqueue_def q_put_def q_full_def)

lemma retuned_same:
  "wg_clients g = [] \<Longrightarrow> retuned g g' = []"
  "wg_clients g = [b] \<Longrightarrow> wg_clients g' = [c] \<Longrightarrow> cn_raw b = cn_raw c \<Longrightarrow> cn_symbols b = cn_symbols c \<Longrightarrow> retuned g g' = []"
  by (simp_all add: retuned_def)

lemma demo_runs: "ws_run demo_env 1 [] demo_slow" "ws_run demo_env 1 [] demo_done"
proof -
  have env: "env_doubles demo_env = sample_doubles" "env_sha1 demo_env = (\<lambda>b. b)" "env_b64 demo_env = unraw" by (simp_all add: demo_env_def)
  have "ws_step demo_env (new_ws_gateway 1) demo_open" using connect_step [of demo_env] unfolding demo_open_def env .
  from run_step [OF run_start this] have opened: "ws_run demo_env 1 [] demo_open"
    by (simp add: retuned_same(1) new_ws_gateway_def)
  have "ws_step demo_env demo_open demo_beat" using frame_step [of demo_env] unfolding demo_beat_def env .
  from run_step [OF opened this] have "ws_run demo_env 1 [] demo_beat"
    by (simp add: retuned_same(2) [OF demo_connected(1) demo_waiting(1)] demo_conn_def new_conn_def)
  moreover have "ws_step demo_env demo_beat demo_slow" using frame_step [of demo_env] unfolding demo_slow_def env .
  ultimately show slow: "ws_run demo_env 1 [] demo_slow"
    using run_step [of demo_env 1 "[]" demo_beat demo_slow] by (simp add: retuned_same(2) [OF demo_waiting(1) demo_marked(1)])
  have "ws_step demo_env demo_slow demo_done" unfolding demo_done_def by (rule cycle_step) (simp add: demo_marked)
  from run_step [OF slow this] show "ws_run demo_env 1 [] demo_done"
    by (simp add: retuned_same(2) [OF demo_marked(1) demo_resynced(1)])
qed

theorem resync_restores_witness:
  "\<exists>c' \<in> set (wg_clients demo_done). cn_id c' = 0 \<and> \<not> cn_needs_resync c' \<and> displays c' demo_key = Some demo_item"
proof -
  have c: "demo_conn \<in> set (wg_clients demo_slow)" "\<not> cn_raw demo_conn" "cn_needs_resync demo_conn" "cn_id demo_conn = 0" "sees demo_conn demo_key"
    by (simp_all add: demo_marked demo_conn_def new_conn_def sees_def filtered_def)
  have "wg_dirty demo_slow \<noteq> []" "set [demo_key] = set (wg_dirty demo_slow)" by (simp_all add: demo_marked)
  from resync_restores [OF demo_runs(1) c(1-3) this, of 3, folded demo_done_def] c(4,5) demo_resynced(2) show ?thesis by auto
qed

theorem browser_up_to_date_witness:
  "displays (hd (wg_clients demo_done)) demo_key = Some demo_item"
proof (rule browser_up_to_date [OF demo_runs(2)])
  show "hd (wg_clients demo_done) \<in> set (wg_clients demo_done)" by (simp add: demo_resynced)
qed (simp_all add: demo_resynced demo_conn_def new_conn_def sees_def filtered_def)

subsection \<open>Bounds, and what the gateway does not promise\<close>

text \<open>No queue is longer than the configured size; the laws of the bounded queue carry each message.\<close>

definition conn_capped :: "int \<Rightarrow> ws_conn \<Rightarrow> bool" where
  "conn_capped cap c \<longleftrightarrow> cn_cap c = cap \<and> (0 < cap \<longrightarrow> conn_valid c)"

lemma enqueue_capped: "conn_capped cap c \<Longrightarrow> conn_capped cap (ws_enqueue m c)"
  using wsq.offer_valid [of c m] by (simp add: conn_capped_def)

lemma conn_capped_shorter:
  "conn_capped cap c \<Longrightarrow> cn_cap c' = cn_cap c \<Longrightarrow> length (cn_queue c') \<le> length (cn_queue c) \<Longrightarrow> conn_capped cap c'"
  by (auto simp: conn_capped_def conn_valid_def)

lemma cycle_capped:
  assumes "conn_capped cap c"
  shows "conn_capped cap (cycle_one snap keys now c)"
proof -
  have "conn_capped cap (c\<lparr>cn_needs_resync := False, cn_resyncs := r\<rparr>)"
    "conn_capped cap (c\<lparr>cn_needs_resync := False, cn_resyncs := r, cn_queue := []\<rparr>)" for r
    by (rule conn_capped_shorter [OF assms]; simp)+
  moreover have "conn_capped cap (b\<lparr>cn_needs_resync := False\<rparr>)" if "conn_capped cap b" for b
    by (rule conn_capped_shorter [OF that]) simp_all
  ultimately show ?thesis using assms by (simp add: cycle_one_def Let_def enqueue_capped)
qed

lemma queues_bounded:
  assumes "ws_run E cap ids g"
  shows "wg_queue_size g = cap \<and> list_all (conn_capped cap) (wg_clients g)"
  using assms
proof (induction rule: ws_run.induct)
  case run_start
  show ?case by (simp add: new_ws_gateway_def)
next
  case (run_step ids g g')
  have size: "wg_queue_size g = cap" and cs: "list_all (conn_capped cap) (wg_clients g)" using run_step.IH by simp_all
  have push: "list_all (conn_capped cap) (wg_clients (push_raw m key h))" "wg_queue_size (push_raw m key h) = wg_queue_size h"
    if "list_all (conn_capped cap) (wg_clients h)" for m key h
    using that by (auto simp: push_raw_def list_all_iff enqueue_capped)
  show ?case
    using run_step.hyps(2)
  proof cases
    case (frame_step now f)
    then show ?thesis using size cs push
      by (simp add: ws_ingest_def Let_def case_prod_beta touch_def split: sum.split)
  next
    case (connect_step headers query now)
    have "conn_capped cap (ws_enqueue m (new_conn cid cap\<lparr>cn_raw := r, cn_symbols := s\<rparr>))" for m cid r s
      by (rule enqueue_capped) (simp add: conn_capped_def conn_valid_def new_conn_def)
    with connect_step size cs show ?thesis by (simp add: ws_connect_def Let_def split: sum.split)
  next
    case (read_step cid chunk)
    have "conn_capped cap c1" if "(c1, ends) = read_conn loads chunk c" "conn_capped cap c" for loads c c1 ends
      using that(2) by (rule conn_capped_shorter) (use read_conn_keeps [OF that(1) [symmetric]] in simp_all)
    with read_step size cs show ?thesis by (auto simp: ws_read_def list_all_iff split: prod.split if_splits)
  next
    case (gone_step cid)
    then show ?thesis using size cs by (simp add: ws_gone_def list_all_iff)
  next
    case (send_step cid)
    have "conn_capped cap (send_conn c)" if "conn_capped cap c" for c
      using that by (rule conn_capped_shorter) (simp_all add: send_conn_keeps)
    with send_step size cs show ?thesis by (auto simp: ws_send_def list_all_iff)
  next
    case (cycle_step keys now)
    show ?thesis
    proof (cases "wg_dirty g = [] \<or> wg_clients g = []")
      case True
      with cycle_step(1) size cs show ?thesis by (simp add: coalesce_def)
    next
      case False
      have "keys_ok g" using run_good [OF run_step.hyps(1)] by blast
      with False cycle_step(2)
      have "fst (cycle_clients (wg_snapshot g) keys now None (wg_clients g)) = map (cycle_one (wg_snapshot g) keys now) (wg_clients g)"
        by (intro cycle_each) (auto simp: keys_ok_def)
      with False cycle_step(1) size cs show ?thesis by (simp add: coalesce_def case_prod_beta list_all_iff cycle_capped)
    qed
  qed
qed

text \<open>A marked browser waits as long as no key changes: the cycle looks at the marks only when it has something to send.\<close>

lemma resync_waits: "wg_dirty g = [] \<Longrightarrow> wg_clients (coalesce keys now g) = wg_clients g"
  by (simp add: coalesce_def)

text \<open>The resynchronisation throws away what was waiting, signals included, and does not count it.\<close>

lemma resync_discards:
  assumes "\<not> cn_raw c" "cn_needs_resync c" "k \<in> fst ` set snap" "sees c k"
  shows "\<exists>items. cn_queue (cycle_one snap keys now c) = [SnapshotMsg now items (Some (cn_dropped c))]
    \<and> cn_dropped (cycle_one snap keys now c) = cn_dropped c"
proof -
  have "map snd (filter (\<lambda>(k, _). sees c k) snap) \<noteq> []" using assms(3,4) by (force simp: filter_empty_conv)
  then show ?thesis using assms(1,2) by (simp add: cycle_one_def Let_def ws_enqueue_def q_put_def q_full_def)
qed

text \<open>Commands send nothing: a key a browser asks for later stays as it was last shown, and so does
  every key after a return from the raw mode, until its next change.\<close>

lemma commands_send_nothing: "read_conn loads chunk c = (c1, ends) \<Longrightarrow> displays c1 = displays c"
  by (simp add: displays_def read_conn_keeps)

text \<open>The first snapshot ignores the filter that the request names.\<close>

lemma first_snapshot_unfiltered:
  assumes "handshake_response sha1 b64 headers = Inr r"
  shows "cn_queue (last (wg_clients (ws_connect sha1 b64 headers query now g))) = [SnapshotMsg now (map snd (wg_snapshot g)) None]"
  using assms by (simp add: ws_connect_def Let_def ws_enqueue_def q_put_def q_full_def new_conn_def)

text \<open>A document that is no object, and bytes that are no text, end the connection; one that does not parse does not.\<close>

lemma command_failures:
  "on_command loads p c = None" if "loads p = UnicodeError \<or> loads p = Loaded (JArr js) \<or> loads p = Loaded JNull"
  using that by (auto simp: on_command_def)

text \<open>One browser that asks for a text and a number makes the list of the connections fail for everyone.\<close>

lemma client_list_breaks:
  assumes "c \<in> set (wg_clients g)" "cn_symbols c = Some [JStr s, JNum n]"
  shows "\<exists>e. api_clients g = Inl e"
proof -
  have "info c = Inl TypeError"
    using assms(2) by (simp add: info_def filtered_def sorted_json_def as_text_def as_number_def)
  with assms(1) obtain e where "find isl (map info (wg_clients g)) = Some e" "isl e"
    by (cases "find isl (map info (wg_clients g))") (auto simp: find_None_iff find_Some_iff image_iff)
  then show ?thesis by (cases e) (simp_all add: api_clients_def)
qed
end
