(* ===== verification/Httpd.thy ===== *)
theory Httpd
  imports WsProto PyText
begin

section \<open>The HTTP server\<close>

text \<open>
  Models \<^verbatim>\<open>src/mdfeed/httpd.py\<close>: the parsing of a request head, the rendering of a response, the
  dispatch to routes, prefixes and static files, the loop of a keep-alive connection with its body and header limits and
  the hand-over to the WebSocket handler. A connection is a function of the bytes that arrive on it; a
  timeout is the end of these bytes. A route handler may change the state of its service and may raise. The splitting of a
  target into path and query (\<^verbatim>\<open>urllib.parse\<close>) and the guess of a file's type are arguments. Texts
  are code points; letters beyond ASCII keep their case. Listening, TLS and shutdown are not modelled.
\<close>

subsection \<open>Requests\<close>

definition MAX_HEADER_BYTES :: nat where "MAX_HEADER_BYTES = 16 * 1024"

text \<open>The limit of \<^verbatim>\<open>readuntil\<close>, the default of \<^verbatim>\<open>asyncio.start_server\<close>.\<close>

definition READ_LIMIT :: nat where "READ_LIMIT = 64 * 1024"

definition MAX_BODY :: nat where "MAX_BODY = 4 * 1024 * 1024"

record request =
  rq_method :: text_u
  rq_path :: text_u
  rq_query :: "(text_u \<times> text_u) list"
  rq_headers :: "(text_u \<times> text_u) list"
  rq_body :: bytes

type_synonym targets = "text_u \<Rightarrow> (text_u \<times> (text_u \<times> text_u) list) option"

definition strip_text :: "text_u \<Rightarrow> text_u" where
  "strip_text s = rev (dropWhile ws_blank (rev (dropWhile ws_blank s)))"

definition upper_u :: "text_u \<Rightarrow> text_u" where
  "upper_u = map (\<lambda>c. if 97 \<le> c \<and> c \<le> 122 then c - 32 else c)"

text \<open>\<^verbatim>\<open>int(self.query.get(key, default))\<close> between its bounds.\<close>

definition q_int :: "request \<Rightarrow> text_u \<Rightarrow> int \<Rightarrow> int \<Rightarrow> int \<Rightarrow> int" where
  "q_int r key d least most =
     (case map_of (rq_query r) key of
        None \<Rightarrow> max least (min most d)
      | Some s \<Rightarrow> (case text_int s of None \<Rightarrow> d | Some n \<Rightarrow> max least (min most n)))"

text \<open>Where the blank line that ends the head ends.\<close>

definition blank_line :: "bytes \<Rightarrow> bool" where "blank_line bs \<longleftrightarrow> take 4 bs = [13, 10, 13, 10]"

fun head_end :: "bytes \<Rightarrow> nat option" where
  "head_end [] = None"
| "head_end (b # bs) = (if blank_line (b # bs) then Some 4 else map_option Suc (head_end bs))"

definition header_of :: "text_u \<Rightarrow> (text_u \<times> text_u) option" where
  "header_of line =
     (if 58 \<in> set line then Some (lower_u (strip_text (takeWhile (\<lambda>c. c \<noteq> 58) line)), strip_text (tl (dropWhile (\<lambda>c. c \<noteq> 58) line)))
      else None)"

definition parse_request :: "targets \<Rightarrow> bytes \<Rightarrow> request option" where
  "parse_request target head =
     (let lines = split_crlf (unraw head) in
      case split_on 32 (hd lines) of
        [m, t, v] \<Rightarrow>
          if take 5 v \<noteq> asc ''HTTP/'' then None
          else (case target t of None \<Rightarrow> None
                | Some (p, q) \<Rightarrow> Some \<lparr>rq_method = upper_u m, rq_path = p, rq_query = q,
                    rq_headers = fold (\<lambda>(k, v). AList.update k v) (List.map_filter header_of (tl lines)) [], rq_body = []\<rparr>)
      | _ \<Rightarrow> None)"

definition header :: "request \<Rightarrow> string \<Rightarrow> text_u option" where
  "header r k = map_of (rq_headers r) (asc k)"

subsection \<open>Responses\<close>

record response =
  rs_status :: nat
  rs_body :: bytes
  rs_type :: text_u
  rs_headers :: "(text_u \<times> text_u) list"

definition status_text :: "nat \<Rightarrow> text_u" where
  "status_text n = (case map_of [(200, ''OK''), (204, ''No Content''), (400, ''Bad Request''), (404, ''Not Found''),
     (405, ''Method Not Allowed''), (426, ''Upgrade Required''), (500, ''Internal Server Error''), (503, ''Service Unavailable'')] n of
     None \<Rightarrow> asc ''OK'' | Some s \<Rightarrow> asc s)"

definition plain_response :: "nat \<Rightarrow> text_u \<Rightarrow> response" where
  "plain_response n s = \<lparr>rs_status = n, rs_body = raw (utf8 s), rs_type = asc ''text/plain; charset=utf-8'', rs_headers = []\<rparr>"

text \<open>\<^verbatim>\<open>json.dumps(..., ensure_ascii=False)\<close>.\<close>

definition plain_char :: "nat \<Rightarrow> text_u" where
  "plain_char c = (if 126 < c then [c] else escape_char c)"

fun plain_json :: "json \<Rightarrow> text_u" where
  "plain_json (JStr s) = 34 # concat (map plain_char s) @ [34]"
| "plain_json (JArr xs) = 91 # sep_concat (map plain_json xs) @ [93]"
| "plain_json (JObj kvs) = 123 # sep_concat (map (\<lambda>(k, v). 34 # concat (map plain_char k) @ [34, 58, 32] @ plain_json v) kvs) @ [125]"
| "plain_json j = dumps_text j"

definition json_response :: "json \<Rightarrow> nat \<Rightarrow> response" where
  "json_response j n = \<lparr>rs_status = n, rs_body = raw (utf8 (plain_json j)), rs_type = asc ''application/json; charset=utf-8'', rs_headers = []\<rparr>"

definition response_lines :: "bool \<Rightarrow> bool \<Rightarrow> (text_u \<times> text_u) list \<Rightarrow> response \<Rightarrow> text_u list" where
  "response_lines keep cors extra r =
     [asc ''HTTP/1.1 '' @ digits (rs_status r) @ 32 # status_text (rs_status r), asc ''Content-Type: '' @ rs_type r,
      asc ''Content-Length: '' @ digits (length (rs_body r)), asc ''Connection: '' @ (if keep then asc ''keep-alive'' else asc ''close'')]
     @ (if cors then [asc ''Access-Control-Allow-Origin: *''] else [])
     @ map (\<lambda>(k, v). k @ asc '': '' @ v) (fold (\<lambda>(k, v). AList.update k v) (extra @ rs_headers r) [])"

definition render :: "bool \<Rightarrow> bool \<Rightarrow> bool \<Rightarrow> (text_u \<times> text_u) list \<Rightarrow> response \<Rightarrow> bytes" where
  "render keep head_only cors extra r =
     raw (utf8 (concat (map (\<lambda>l. l @ crlf) (response_lines keep cors extra r)) @ crlf)) @ (if head_only then [] else rs_body r)"

subsection \<open>Static files\<close>

text \<open>An absolute, normalised path is the list of its components. The files below the mounted directory can be links; their targets are not looked at.\<close>

type_synonym path = "text_u list"

record disk =
  is_dir :: "path \<Rightarrow> bool"
  is_file :: "path \<Rightarrow> bool"
  content :: "path \<Rightarrow> bytes"

definition path_text :: "path \<Rightarrow> text_u" where
  "path_text p = (if p = [] then [47] else concat (map (\<lambda>c. 47 # c) p))"

definition norm_step :: "path \<Rightarrow> text_u \<Rightarrow> path" where
  "norm_step acc c = (if c = [] \<or> c = [46] then acc else if c = [46, 46] then butlast acc else acc @ [c])"

text \<open>\<^verbatim>\<open>os.path.abspath(os.path.join(base, rel))\<close> for a relative \<open>rel\<close>.\<close>

definition resolve :: "path \<Rightarrow> text_u \<Rightarrow> path" where
  "resolve base rel = foldl norm_step base (split_on 47 rel)"

definition starts :: "text_u \<Rightarrow> text_u \<Rightarrow> bool" where
  "starts p s \<longleftrightarrow> take (length p) s = p"

definition serve_static :: "(path \<Rightarrow> text_u option) \<Rightarrow> disk \<Rightarrow> text_u \<Rightarrow> path \<Rightarrow> text_u \<Rightarrow> response option" where
  "serve_static guess d url_prefix base path =
     (if \<not> starts url_prefix path then None
      else let rel0 = dropWhile (\<lambda>c. c = 47) (drop (length url_prefix) path);
               rel = (if rel0 = [] then asc ''index.html'' else rel0);
               target = resolve base rel in
        if \<not> starts (path_text base @ [47]) (path_text target) \<and> path_text target \<noteq> path_text base
        then Some (plain_response 404 (asc ''not found''))
        else let file = (if is_dir d target then target @ [asc ''index.html''] else target) in
          if \<not> is_file d file then None
          else let t = (case guess file of None \<Rightarrow> asc ''application/octet-stream'' | Some t \<Rightarrow> if t = [] then asc ''application/octet-stream'' else t);
                   t1 = (if starts (asc ''text/'') t \<or> starts (asc ''application/json'') t \<or> starts (asc ''application/javascript'') t
                         then t @ asc ''; charset=utf-8'' else t)
               in Some \<lparr>rs_status = 200, rs_body = content d file, rs_type = t1, rs_headers = [(asc ''Cache-Control'', asc ''no-cache'')]\<rparr>)"

subsection \<open>Dispatch\<close>

definition NOT_ALLOWED :: text_u where
  "NOT_ALLOWED = [54728, 50857, 46104, 51648, 32, 50506, 51008, 32, 47700, 49436, 46300]"

definition HEAD_TOO_LARGE :: text_u where
  "HEAD_TOO_LARGE = [54756, 45908, 44032, 32, 45320, 47924, 32, 53373, 45768, 45796]"

definition BAD_REQUEST :: text_u where
  "BAD_REQUEST = [51096, 47803, 46108, 32, 50836, 52397]"

text \<open>A handler: the new state of the service, and the response or the name and text of the exception.\<close>

type_synonym 's handler = "request \<Rightarrow> 's \<Rightarrow> 's \<times> (text_u \<times> text_u + response)"

record 's server =
  routes :: "((text_u \<times> text_u) \<times> 's handler) list"
  prefixes :: "(text_u \<times> text_u \<times> 's handler) list"
  static_mount :: "(text_u \<times> path) option"
  ws_path :: "text_u option"
  srv_cors :: bool
  srv_headers :: "(text_u \<times> text_u) list"
  srv_disk :: disk
  srv_guess :: "path \<Rightarrow> text_u option"
  srv_target :: targets

definition route :: "text_u \<Rightarrow> text_u \<Rightarrow> 's handler \<Rightarrow> 's server \<Rightarrow> 's server" where
  "route m p h v = v\<lparr>routes := AList.update (upper_u m, p) h (routes v)\<rparr>"

definition prefix_route :: "text_u \<Rightarrow> text_u \<Rightarrow> 's handler \<Rightarrow> 's server \<Rightarrow> 's server" where
  "prefix_route m p h v = v\<lparr>prefixes := prefixes v @ [(upper_u m, p, h)]\<rparr>"

definition mount_static :: "text_u \<Rightarrow> path \<Rightarrow> 's server \<Rightarrow> 's server" where
  "mount_static url_prefix dir v =
     (let s = rev (dropWhile (\<lambda>c. c = 47) (rev url_prefix)); p = (if s = [] then [47] else s)
      in v\<lparr>static_mount := Some (p, dir),
           routes := (if p = [47] then AList.delete (asc ''GET'', [47]) (routes v) else routes v)\<rparr>)"

record 's http_state =
  app :: 's
  requests :: nat
  errors :: nat

definition find_handler :: "'s server \<Rightarrow> text_u \<Rightarrow> text_u \<Rightarrow> 's handler option" where
  "find_handler v m p =
     (case map_of (routes v) (m, p) of
        Some h \<Rightarrow> Some h
      | None \<Rightarrow> map_option (\<lambda>(m', pre, h). h) (find (\<lambda>(m', pre, h). m' = m \<and> starts pre p) (prefixes v)))"

definition dispatch :: "'s server \<Rightarrow> request \<Rightarrow> 's http_state \<Rightarrow> 's http_state \<times> response" where
  "dispatch v r s =
     (let m = (if rq_method r = asc ''HEAD'' then asc ''GET'' else rq_method r) in
      case find_handler v m (rq_path r) of
        Some h \<Rightarrow>
          (case h r (app s) of
             (a, Inr resp) \<Rightarrow> (s\<lparr>app := a\<rparr>, resp)
           | (a, Inl (kind, why)) \<Rightarrow>
               (s\<lparr>app := a, errors := errors s + 1\<rparr>,
                json_response (JObj [(asc ''error'', JStr kind), (asc ''detail'', JStr why)]) 500))
      | None \<Rightarrow>
          (case (case static_mount v of None \<Rightarrow> None | Some (p, base) \<Rightarrow> serve_static (srv_guess v) (srv_disk v) p base (rq_path r)) of
             Some resp \<Rightarrow> (s, resp)
           | None \<Rightarrow>
               if list_ex (\<lambda>((_, p), _). p = rq_path r) (routes v) then (s, plain_response 405 NOT_ALLOWED)
               else (s, json_response (JObj [(asc ''error'', JStr (asc ''not found'')), (asc ''path'', JStr (rq_path r))]) 404)))"

subsection \<open>A connection\<close>

text \<open>
  What the connection sends, and how it ends: closed (also by an exception), or handed over to the
  WebSocket handler with the bytes not yet read.
\<close>

datatype conn_end = Closed | Upgraded request bytes

text \<open>The length of the body: \<open>Inl\<close> when the header is no number, which ends the connection.\<close>

definition body_length :: "request \<Rightarrow> py_error + nat" where
  "body_length r =
     (let h = (case header r ''content-length'' of None \<Rightarrow> asc ''0'' | Some [] \<Rightarrow> asc ''0'' | Some t \<Rightarrow> t) in
      case text_int h of None \<Rightarrow> Inl ValueError | Some n \<Rightarrow> Inr (if 0 < n then min (nat n) MAX_BODY else 0))"

definition wants_upgrade :: "'s server \<Rightarrow> request \<Rightarrow> bool" where
  "wants_upgrade v r \<longleftrightarrow> ws_path v = Some (rq_path r)
     \<and> (case header r ''upgrade'' of None \<Rightarrow> False | Some u \<Rightarrow> lower_u u = asc ''websocket'')"

definition keeps_alive :: "request \<Rightarrow> response \<Rightarrow> bool" where
  "keeps_alive r resp \<longleftrightarrow>
     lower_u (case header r ''connection'' of None \<Rightarrow> asc ''keep-alive'' | Some c \<Rightarrow> c) \<noteq> asc ''close'' \<and> rs_status resp < 500"

definition refuse :: "text_u \<Rightarrow> bytes" where
  "refuse why = render False False True [] (plain_response 400 why)"

lemma blank_line_length: "blank_line bs \<Longrightarrow> 4 \<le> length bs"
  unfolding blank_line_def by (drule arg_cong [of _ _ length]) simp

lemma head_end_le: "head_end bs = Some n \<Longrightarrow> 4 \<le> n \<and> n \<le> length bs"
  by (induction bs arbitrary: n) (fastforce split: if_splits dest: blank_line_length)+

function serve_conn :: "'s server \<Rightarrow> bytes \<Rightarrow> 's http_state \<Rightarrow> 's http_state \<times> bytes list \<times> conn_end" where
  "serve_conn v input s =
     (case head_end input of
        None \<Rightarrow> (s, if READ_LIMIT + 3 < length input then [refuse HEAD_TOO_LARGE] else [], Closed)
      | Some n \<Rightarrow>
          if MAX_HEADER_BYTES < n then (s, [refuse HEAD_TOO_LARGE], Closed)
          else case parse_request (srv_target v) (take (n - 4) input) of
            None \<Rightarrow> (s, [refuse BAD_REQUEST], Closed)
          | Some r0 \<Rightarrow>
              (let s1 = s\<lparr>requests := requests s + 1\<rparr> in
               case body_length r0 of
                 Inl _ \<Rightarrow> (s1, [], Closed)
               | Inr k \<Rightarrow>
                   if length input < n + k then (s1, [], Closed)
                   else let r = r0\<lparr>rq_body := take k (drop n input)\<rparr>; rest = drop (n + k) input in
                     if wants_upgrade v r then (s1, [], Upgraded r rest)
                     else case dispatch v r s1 of
                       (s2, resp) \<Rightarrow>
                         (let keep = keeps_alive r resp;
                              out = render keep (rq_method r = asc ''HEAD'') (srv_cors v) (srv_headers v) resp
                          in if keep then (case serve_conn v rest s2 of (s3, outs, e) \<Rightarrow> (s3, out # outs, e))
                             else (s2, [out], Closed))))"
  by pat_completeness auto
termination
  by (relation "measure (\<lambda>(v, input, s). length input)") (auto dest!: head_end_le)

declare serve_conn.simps [simp del]


subsection \<open>Static files stay inside the mounted directory\<close>

definition name_ok :: "text_u \<Rightarrow> bool" where
  "name_ok c \<longleftrightarrow> c \<noteq> [] \<and> 47 \<notin> set c \<and> c \<noteq> [46] \<and> c \<noteq> [46, 46]"

lemma split_on_free: "c \<in> set (split_on x s) \<Longrightarrow> x \<notin> set c"
proof (induction s arbitrary: c)
  case (Cons y s)
  have "split_on x s \<noteq> []" by (cases s) simp_all
  then have "hd (split_on x s) \<in> set (split_on x s)" "set (tl (split_on x s)) \<subseteq> set (split_on x s)"
    by (auto dest: list.set_sel(2))
  with Cons show ?case by (auto split: if_splits)
qed simp

lemma names_of_resolve:
  assumes "list_all name_ok base"
  shows "list_all name_ok (resolve base rel)"
proof -
  have "list_all name_ok (foldl norm_step acc cs)" if "list_all name_ok acc" "\<forall>c \<in> set cs. 47 \<notin> set c" for acc cs
    using that
  proof (induction cs arbitrary: acc)
    case (Cons c cs)
    have "list_all name_ok (norm_step acc c)"
      using Cons.prems by (auto simp: norm_step_def name_ok_def list_all_iff dest: in_set_butlastD)
    with Cons show ?case by simp
  qed simp
  from this [OF assms, of "split_on 47 rel"] show ?thesis by (auto simp: resolve_def dest: split_on_free)
qed

lemma path_prefix:
  assumes "list_all name_ok a" "list_all name_ok b" "concat (map (\<lambda>c. 47 # c) b) = concat (map (\<lambda>c. 47 # c) a) @ w" "w = [] \<or> hd w = 47"
  shows "\<exists>rest. b = a @ rest"
  using assms(1-3)
proof (induction a arbitrary: b)
  case (Cons x xs)
  from Cons.prems(3) obtain y ys where b: "b = y # ys" by (cases b) auto
  let ?t = "\<lambda>p. concat (map (\<lambda>c. 47 # c) p)"
  have cut: "takeWhile (\<lambda>c. c \<noteq> 47) (z @ u) = z" if "name_ok z" "u = [] \<or> hd u = (47 :: nat)" for z u
    using that by (cases u) (auto simp: name_ok_def takeWhile_append2 takeWhile_tail)
  have t: "?t p = [] \<or> hd (?t p) = 47" for p by (cases p) simp_all
  from Cons.prems(3) b have eq: "y @ ?t ys = x @ (?t xs @ w)" by simp
  have "?t xs @ w = [] \<or> hd (?t xs @ w) = 47" using t [of xs] assms(4) by (cases "?t xs") auto
  with Cons.prems(1) have "takeWhile (\<lambda>c. c \<noteq> 47) (x @ (?t xs @ w)) = x" by (intro cut) simp_all
  moreover have "takeWhile (\<lambda>c. c \<noteq> 47) (y @ ?t ys) = y" using Cons.prems(2) b t [of ys] by (intro cut) simp_all
  ultimately have "x = y" unfolding eq by simp
  with eq have "?t ys = ?t xs @ w" by simp
  with Cons.IH [of ys] Cons.prems(1,2) b have "\<exists>rest. ys = xs @ rest" by simp
  with b \<open>x = y\<close> show ?case by auto
qed simp

lemma inside_root:
  assumes "list_all name_ok base" "list_all name_ok target"
    and "starts (path_text base @ [47]) (path_text target) \<or> path_text target = path_text base"
  shows "\<exists>rest. list_all name_ok rest \<and> target = base @ rest"
proof -
  let ?t = "\<lambda>p. concat (map (\<lambda>c. 47 # c) p)"
  have "\<exists>rest. target = base @ rest"
  proof (cases "base = []")
    case False
    then have r: "path_text base = ?t base" by (simp add: path_text_def)
    have ne: "?t base \<noteq> [47]" "?t base \<noteq> []" using False assms(1) by (cases base; auto simp: name_ok_def)+
    have "target \<noteq> []" using assms(3) r ne False by (cases base) (auto simp: path_text_def starts_def)
    then have tt: "path_text target = ?t target" by (simp add: path_text_def)
    from assms(3) have "\<exists>w. ?t target = ?t base @ w \<and> (w = [] \<or> hd w = 47)"
    proof
      assume "starts (path_text base @ [47]) (path_text target)"
      then obtain u where "?t target = (?t base @ [47]) @ u"
        unfolding starts_def r tt by (metis append_take_drop_id)
      then show ?thesis by (intro exI [of _ "47 # u"]) simp
    next
      assume "path_text target = path_text base"
      then show ?thesis using r tt by simp
    qed
    then show ?thesis using path_prefix [OF assms(1,2)] by blast
  qed simp
  with assms(2) show ?thesis by auto
qed

text \<open>
  C12: a static path cannot leave the mounted directory. Whatever the path of a request, dots, doubled
  slashes and parent steps included, the answer depends only on the files below the mounted directory: two
  disks that agree there give the same answer.
\<close>

theorem static_stays_inside:
  assumes "list_all name_ok base"
    and "\<And>rest. list_all name_ok rest \<Longrightarrow> is_dir d (base @ rest) = is_dir d' (base @ rest)
      \<and> is_file d (base @ rest) = is_file d' (base @ rest) \<and> content d (base @ rest) = content d' (base @ rest)"
  shows "serve_static guess d url_prefix base path = serve_static guess d' url_prefix base path"
proof -
  let ?rel0 = "dropWhile (\<lambda>c. c = 47) (drop (length url_prefix) path)"
  let ?target = "resolve base (if ?rel0 = [] then asc ''index.html'' else ?rel0)"
  show ?thesis
  proof (cases "starts (path_text base @ [47]) (path_text ?target) \<or> path_text ?target = path_text base")
    case True
    then obtain rest where r: "list_all name_ok rest" "?target = base @ rest"
      using inside_root [OF assms(1) names_of_resolve [OF assms(1)]] by blast
    have "list_all name_ok (rest @ [asc ''index.html''])" using r(1) by (simp add: name_ok_def asc_def)
    from assms(2) [OF r(1)] assms(2) [OF this] show ?thesis unfolding serve_static_def Let_def r(2) by simp
  qed (simp add: serve_static_def Let_def)
qed

text \<open>A request for the file of another directory, and one for a file inside that names its directory the long way.\<close>

theorem static_stays_inside_witness:
  "serve_static (\<lambda>_. None) \<lparr>is_dir = \<lambda>_. False, is_file = \<lambda>_. True, content = \<lambda>p. if p = [[101]] then [1] else [2]\<rparr> [47] [[100]]
     [47, 46, 46, 47, 101]
   = serve_static (\<lambda>_. None) \<lparr>is_dir = \<lambda>_. False, is_file = \<lambda>_. True, content = \<lambda>p. if p = [[101]] then [9] else [2]\<rparr> [47] [[100]]
     [47, 46, 46, 47, 101]"
  by (rule static_stays_inside) (simp_all add: name_ok_def)

subsection \<open>Requests on a kept connection\<close>

text \<open>What a client sends: a head with lower-case header names and its declared body.\<close>

record sent_request =
  q_method :: text_u
  q_target :: text_u
  q_headers :: "(text_u \<times> text_u) list"
  q_body :: bytes

definition head_lines :: "sent_request \<Rightarrow> text_u list" where
  "head_lines q = (q_method q @ 32 # q_target q @ 32 # asc ''HTTP/1.1'') # map (\<lambda>(k, v). k @ 58 # 32 # v) (q_headers q)"

definition request_bytes :: "sent_request \<Rightarrow> bytes" where
  "request_bytes q = raw (concat (map (\<lambda>l. l @ [13, 10]) (head_lines q)) @ [13, 10]) @ q_body q"

definition token_ok :: "text_u \<Rightarrow> bool" where
  "token_ok s \<longleftrightarrow> s \<noteq> [] \<and> list_all (\<lambda>c. 33 \<le> c \<and> c \<le> 126) s"

definition key_ok :: "text_u \<Rightarrow> bool" where
  "key_ok k \<longleftrightarrow> token_ok k \<and> list_all (\<lambda>c. c \<noteq> 58 \<and> \<not> (65 \<le> c \<and> c \<le> 90)) k"

definition value_ok :: "text_u \<Rightarrow> bool" where
  "value_ok v \<longleftrightarrow> list_all (\<lambda>c. 32 \<le> c \<and> c \<le> 126) v \<and> (v \<noteq> [] \<longrightarrow> hd v \<noteq> 32 \<and> last v \<noteq> 32)"

definition clean_request :: "targets \<Rightarrow> sent_request \<Rightarrow> bool" where
  "clean_request target q \<longleftrightarrow> token_ok (q_method q) \<and> token_ok (q_target q) \<and> target (q_target q) \<noteq> None
     \<and> distinct (map fst (q_headers q)) \<and> list_all (\<lambda>(k, v). key_ok k \<and> value_ok v) (q_headers q)
     \<and> length (concat (map (\<lambda>l. l @ [13, 10]) (head_lines q))) + 2 \<le> MAX_HEADER_BYTES \<and> length (q_body q) \<le> MAX_BODY
     \<and> map_of (q_headers q) (asc ''content-length'') = (if q_body q = [] then None else Some (digits (length (q_body q))))"

lemma digits_value_foldl:
  assumes "list_all (\<lambda>c. 48 \<le> c \<and> c \<le> 57) xs" "xs \<noteq> [] \<or> b"
  shows "digits_value b a xs = Some (foldl (\<lambda>a c. 10 * a + (c - 48)) a xs)"
  using assms by (induction xs arbitrary: a b) auto

lemma digits_shape: "list_all (\<lambda>c. 48 \<le> c \<and> c \<le> 57) (digits n) \<and> digits n \<noteq> [] \<and> foldl (\<lambda>a c. 10 * a + (c - 48)) 0 (digits n) = n"
proof (induction n rule: digits.induct)
  case (1 n)
  show ?case
  proof (cases "n < 10")
    case True
    then show ?thesis by (subst (1 2 3) digits.simps) simp
  next
    case False
    with 1 show ?thesis by (subst (1 2 3) digits.simps) simp
  qed
qed

lemma text_int_digits: "text_int (digits n) = Some (int n)"
proof -
  note d = digits_shape [of n]
  have nb: "\<not> blank c" if "c \<in> set (digits n)" for c using d that by (auto simp: list_all_iff blank_def)
  have "dropWhile blank (digits n) = digits n" "dropWhile blank (rev (digits n)) = rev (digits n)"
    using d nb [of "hd (digits n)"] nb [of "last (digits n)"] by (auto simp: dropWhile_eq_self_iff hd_rev)
  moreover obtain c r where cr: "digits n = c # r" using d by (cases "digits n") auto
  moreover have "48 \<le> c" using d cr by simp
  moreover have "digits_value False 0 (digits n) = Some n" using digits_value_foldl [of "digits n" False 0] d by simp
  ultimately show ?thesis by (simp add: text_int_def)
qed

text \<open>The end of the head.\<close>

lemma head_end_line:
  assumes "13 \<notin> set l" "r = [] \<or> hd r \<noteq> 13"
  shows "head_end (l @ 13 # 10 # r) = map_option (\<lambda>n. n + (length l + 2)) (head_end r)"
  using assms(1)
proof (induction l)
  case Nil
  have "\<not> blank_line (13 # 10 # r)" "\<not> blank_line (10 # r)" using assms(2) by (cases r; simp add: blank_line_def)+
  then show ?case by (simp add: option.map_comp comp_def)
next
  case (Cons x l)
  then have "\<not> blank_line (x # l @ 13 # 10 # r)" by (auto simp: blank_line_def)
  with Cons show ?case by (simp add: option.map_comp comp_def)
qed

lemma head_end_stop: "13 \<notin> set l \<Longrightarrow> head_end (l @ 13 # 10 # 13 # 10 # r) = Some (length l + 4)"
proof (induction l)
  case (Cons x l)
  then have "\<not> blank_line (x # l @ 13 # 10 # 13 # 10 # r)" by (auto simp: blank_line_def)
  with Cons show ?case by simp
qed (simp add: blank_line_def)

lemma head_end_lines:
  assumes "ls \<noteq> []" "\<And>l. l \<in> set ls \<Longrightarrow> l \<noteq> [] \<and> (13 :: byte) \<notin> set l"
  shows "head_end (concat (map (\<lambda>l. l @ [13, 10]) ls) @ 13 # 10 # r) = Some (length (concat (map (\<lambda>l. l @ [13, 10]) ls)) + 2)"
  using assms
proof (induction ls)
  case (Cons l ls)
  show ?case
  proof (cases ls)
    case Nil
    then show ?thesis using head_end_stop [of l r] Cons.prems(2) [of l] by simp
  next
    case (Cons l2 ls2)
    let ?rest = "concat (map (\<lambda>l. l @ [13, 10]) ls) @ 13 # 10 # r"
    have "?rest = [] \<or> hd ?rest \<noteq> 13"
      using Cons.prems(2) [of l2] \<open>ls = l2 # ls2\<close> by (cases l2) auto
    from head_end_line [OF _ this, of l] Cons.prems(2) [of l] Cons.IH Cons.prems(2) \<open>ls = l2 # ls2\<close>
    show ?thesis by auto
  qed
qed simp

lemma split_lines:
  "(\<And>l. l \<in> set ls \<Longrightarrow> 13 \<notin> set l) \<Longrightarrow> split_crlf (concat (map (\<lambda>l. l @ [13, 10]) ls) @ x) = ls @ split_crlf x"
  by (induction ls) (simp_all add: split_crlf_line)

lemma split_crlf_end: "13 \<notin> set l \<Longrightarrow> split_crlf l = [l]"
  by (induction l) auto

lemma strip_ok: "(v \<noteq> [] \<Longrightarrow> \<not> ws_blank (hd v) \<and> \<not> ws_blank (last v)) \<Longrightarrow> strip_text v = v"
  unfolding strip_text_def by (cases "v = []") (auto simp: dropWhile_eq_self_iff [THEN iffD2] hd_rev)

lemma header_line:
  assumes "key_ok k" "value_ok v"
  shows "header_of (k @ 58 # 32 # v) = Some (k, v)"
proof -
  have k: "\<forall>c \<in> set k. 33 \<le> c \<and> c \<le> 126 \<and> c \<noteq> 58 \<and> \<not> (65 \<le> c \<and> c \<le> 90)" "k \<noteq> []"
    using assms(1) by (auto simp: key_ok_def token_ok_def list_all_iff)
  have nb: "\<not> ws_blank c" if "33 \<le> c \<and> c \<le> 126" for c using that by (auto simp: ws_blank_def)
  have "strip_text k = k"
    using nb k(1) hd_in_set [OF k(2)] last_in_set [OF k(2)] by (intro strip_ok) blast
  moreover have "lower_u k = k" using k(1) by (auto simp: lower_u_def intro!: map_idI)
  moreover have "strip_text (32 # v) = strip_text v" by (simp add: strip_text_def ws_blank_def)
  moreover have "strip_text v = v"
  proof (rule strip_ok)
    assume ne: "v \<noteq> []"
    have "32 \<le> c \<and> c \<le> 126" if "c \<in> set v" for c using assms(2) that by (simp add: value_ok_def list_all_iff)
    from this [OF hd_in_set [OF ne]] this [OF last_in_set [OF ne]] show "\<not> ws_blank (hd v) \<and> \<not> ws_blank (last v)"
      using assms(2) ne nb [of "hd v"] nb [of "last v"] by (auto simp: value_ok_def)
  qed
  moreover have "takeWhile (\<lambda>c. c \<noteq> 58) (k @ 58 # 32 # v) = k" "dropWhile (\<lambda>c. c \<noteq> 58) (k @ 58 # 32 # v) = 58 # 32 # v"
    using k(1) by (auto simp: takeWhile_append2 dropWhile_append2)
  ultimately show ?thesis by (simp add: header_of_def)
qed

lemma fold_update_new:
  "distinct (map fst hs) \<Longrightarrow> fst ` set hs \<inter> fst ` set acc = {} \<Longrightarrow> fold (\<lambda>(k, v). AList.update k v) hs acc = acc @ hs"
proof (induction hs arbitrary: acc)
  case (Cons h hs)
  have "AList.update k v al = al @ [(k, v)]" if "k \<notin> fst ` set al" for k v and al :: "('a \<times> 'b) list"
    using that by (induction al) auto
  with Cons show ?case by (cases h) auto
qed simp

lemma clean_lines:
  assumes "clean_request target q" "l \<in> set (head_lines q)"
  shows "l \<noteq> [] \<and> (\<forall>c \<in> set l. c \<noteq> 13 \<and> c < 256)"
proof -
  have tok: "\<forall>c \<in> set s. 33 \<le> c \<and> c \<le> 126" if "token_ok s" for s using that by (simp add: token_ok_def list_all_iff)
  have first: "token_ok (q_method q)" "token_ok (q_target q)"
    and fields: "\<And>k v. (k, v) \<in> set (q_headers q) \<Longrightarrow> token_ok k \<and> list_all (\<lambda>c. 32 \<le> c \<and> c \<le> 126) v"
    using assms(1) by (auto simp: clean_request_def list_all_iff key_ok_def value_ok_def)
  from assms(2) consider "l = q_method q @ 32 # q_target q @ 32 # asc ''HTTP/1.1''"
    | k v where "(k, v) \<in> set (q_headers q)" "l = k @ 58 # 32 # v"
    by (auto simp: head_lines_def)
  then show ?thesis
  proof cases
    case 1
    have "\<forall>c \<in> set l. 32 \<le> c \<and> c \<le> 126" using tok [OF first(1)] tok [OF first(2)] 1 by (auto simp: asc_def)
    then show ?thesis using 1 by fastforce
  next
    case 2
    have "\<forall>c \<in> set l. 32 \<le> c \<and> c \<le> 126" using fields [OF 2(1)] tok [of k] 2(2) by (auto simp: list_all_iff)
    then show ?thesis using 2(2) by fastforce
  qed
qed

lemma head_parses:
  assumes "clean_request target q"
  defines "n \<equiv> length (concat (map (\<lambda>l. l @ [13, 10]) (head_lines q))) + 2"
  shows "head_end (request_bytes q @ rest) = Some n"
    "drop n (request_bytes q @ rest) = q_body q @ rest"
    "parse_request target (take (n - 4) (request_bytes q @ rest)) = Some \<lparr>rq_method = upper_u (q_method q),
       rq_path = fst (the (target (q_target q))), rq_query = snd (the (target (q_target q))), rq_headers = q_headers q, rq_body = []\<rparr>"
proof -
  let ?text = "concat (map (\<lambda>l. l @ [13, 10]) (head_lines q))"
  have ok: "l \<noteq> [] \<and> 13 \<notin> set l \<and> (\<forall>c \<in> set l. c < 256)" if "l \<in> set (head_lines q)" for l
    using clean_lines [OF assms(1) that] by auto
  have split: "request_bytes q @ rest = raw ?text @ 13 # 10 # (q_body q @ rest)"
    by (simp add: request_bytes_def raw_def)
  have lines_raw: "raw ?text = concat (map (\<lambda>l. l @ [13, 10]) (map raw (head_lines q)))"
    by (simp add: raw_def map_concat comp_def)
  have "l \<noteq> [] \<and> (13 :: byte) \<notin> set l" if "l \<in> set (map raw (head_lines q))" for l
  proof -
    from that obtain u where u: "u \<in> set (head_lines q)" "l = raw u" by auto
    have "unat (of_nat c :: byte) = c" if "c \<in> set u" for c using ok [OF u(1)] that by (intro unat_byte) auto
    moreover have "unat (13 :: byte) = 13" by simp
    ultimately have "(of_nat c :: byte) \<noteq> 13" if "c \<in> set u" for c using ok [OF u(1)] that by metis
    then show ?thesis using ok [OF u(1)] u(2) by (auto simp: raw_def)
  qed
  moreover have "map raw (head_lines q) \<noteq> []" by (simp add: head_lines_def)
  ultimately have "head_end (raw ?text @ 13 # 10 # (q_body q @ rest)) = Some (length (raw ?text) + 2)"
    unfolding lines_raw by (intro head_end_lines)
  then show "head_end (request_bytes q @ rest) = Some n" unfolding split n_def by (simp add: raw_def)
  have len: "length (raw ?text) + 2 = n" by (simp add: n_def raw_def)
  show "drop n (request_bytes q @ rest) = q_body q @ rest" unfolding split len [symmetric] by (simp add: raw_def)
  obtain init l where il: "head_lines q = init @ [l]" by (cases "head_lines q" rule: rev_cases) (auto simp: head_lines_def)
  let ?joined = "concat (map (\<lambda>l. l @ [13, 10]) init) @ l"
  have "take (n - 4) (request_bytes q @ rest) = raw ?joined"
    unfolding split n_def il by (simp add: raw_def)
  moreover have "unraw (raw ?joined) = ?joined" using ok il by (intro unraw_raw) auto
  ultimately have lines: "split_crlf (unraw (take (n - 4) (request_bytes q @ rest))) = head_lines q"
    using ok split_lines [of init l] split_crlf_end [of l] by (simp add: il)
  have nosp: "32 \<notin> set s" if "token_ok s" for s using that by (auto simp: token_ok_def list_all_iff)
  have first: "split_on 32 (q_method q @ 32 # q_target q @ 32 # asc ''HTTP/1.1'') = [q_method q, q_target q, asc ''HTTP/1.1'']"
    using assms(1) nosp by (simp add: clean_request_def split_on_head) (simp add: asc_def)
  have "List.map_filter header_of (map (\<lambda>(k, v). k @ 58 # 32 # v) hs) = hs" if "list_all (\<lambda>(k, v). key_ok k \<and> value_ok v) hs" for hs
    using that by (induction hs) (auto simp: header_line List.map_filter_def)
  moreover have "fold (\<lambda>(k, v). AList.update k v) (q_headers q) [] = q_headers q"
    using assms(1) fold_update_new [of "q_headers q" "[]"] by (simp add: clean_request_def)
  moreover have "\<exists>p qs. target (q_target q) = Some (p, qs)" using assms(1) by (auto simp: clean_request_def)
  ultimately show "parse_request target (take (n - 4) (request_bytes q @ rest)) = Some \<lparr>rq_method = upper_u (q_method q),
       rq_path = fst (the (target (q_target q))), rq_query = snd (the (target (q_target q))), rq_headers = q_headers q, rq_body = []\<rparr>"
    using assms(1) unfolding parse_request_def Let_def lines
    by (auto simp: head_lines_def first clean_request_def) (simp_all add: asc_def)
qed

text \<open>The reference: the requests are answered one after the other, each with its own body, until one ends the connection.\<close>

definition request_of :: "'s server \<Rightarrow> sent_request \<Rightarrow> request" where
  "request_of v q = \<lparr>rq_method = upper_u (q_method q), rq_path = fst (the (srv_target v (q_target q))),
     rq_query = snd (the (srv_target v (q_target q))), rq_headers = q_headers q, rq_body = q_body q\<rparr>"

fun answers :: "'s server \<Rightarrow> sent_request list \<Rightarrow> bytes \<Rightarrow> 's http_state \<Rightarrow> 's http_state \<times> bytes list \<times> conn_end" where
  "answers v [] rest s = serve_conn v rest s"
| "answers v (q # qs) rest s =
     (let r = request_of v q; s1 = s\<lparr>requests := requests s + 1\<rparr> in
      if wants_upgrade v r then (s1, [], Upgraded r (concat (map request_bytes qs) @ rest))
      else let (s2, resp) = dispatch v r s1;
               out = render (keeps_alive r resp) (rq_method r = asc ''HEAD'') (srv_cors v) (srv_headers v) resp
           in if keeps_alive r resp then (let (s3, outs, e) = answers v qs rest s2 in (s3, out # outs, e))
              else (s2, [out], Closed))"

lemma clean_body:
  assumes "clean_request target q" "rq_headers r = q_headers q"
  shows "body_length r = Inr (length (q_body q))"
proof (cases "q_body q = []")
  case True
  have "text_int (asc ''0'') = Some 0" by (simp add: text_int_def asc_def blank_def)
  with True assms show ?thesis by (simp add: clean_request_def body_length_def header_def)
next
  case False
  obtain c d where d: "digits (length (q_body q)) = c # d" using digits_shape [of "length (q_body q)"] by (cases "digits (length (q_body q))") auto
  show ?thesis
    using False assms text_int_digits [of "length (q_body q)"]
    by (auto simp: clean_request_def body_length_def header_def d)
qed

lemma serve_one:
  assumes "clean_request (srv_target v) q"
  shows "serve_conn v (request_bytes q @ rest) s =
     (let r = request_of v q; s1 = s\<lparr>requests := requests s + 1\<rparr> in
      if wants_upgrade v r then (s1, [], Upgraded r rest)
      else let (s2, resp) = dispatch v r s1;
               out = render (keeps_alive r resp) (rq_method r = asc ''HEAD'') (srv_cors v) (srv_headers v) resp
           in if keeps_alive r resp then (let (s3, outs, e) = serve_conn v rest s2 in (s3, out # outs, e))
              else (s2, [out], Closed))"
proof -
  let ?n = "length (concat (map (\<lambda>l. l @ [13, 10]) (head_lines q))) + 2"
  let ?r0 = "\<lparr>rq_method = upper_u (q_method q), rq_path = fst (the (srv_target v (q_target q))),
       rq_query = snd (the (srv_target v (q_target q))), rq_headers = q_headers q, rq_body = []\<rparr>"
  note h = head_parses [OF assms, of rest]
  have small: "\<not> MAX_HEADER_BYTES < ?n" using assms by (simp add: clean_request_def)
  have body: "body_length ?r0 = Inr (length (q_body q))" using assms by (intro clean_body) simp_all
  have long: "\<not> length (request_bytes q @ rest) < ?n + length (q_body q)" by (simp add: request_bytes_def)
  have "drop (?n + length (q_body q)) (request_bytes q @ rest) = drop (length (q_body q)) (drop ?n (request_bytes q @ rest))"
    by (simp only: drop_drop add.commute)
  then have taken: "take (length (q_body q)) (drop ?n (request_bytes q @ rest)) = q_body q"
    "drop (?n + length (q_body q)) (request_bytes q @ rest) = rest"
    unfolding h(2) by simp_all
  have r: "?r0\<lparr>rq_body := q_body q\<rparr> = request_of v q" by (simp add: request_of_def)
  show ?thesis
    unfolding serve_conn.simps [of v "request_bytes q @ rest"] h(1) h(3) option.case body sum.case Let_def taken r
    using small long by (simp add: case_prod_beta)
qed

text \<open>
  C22: requests on a kept connection do not run into each other. For every list of well-formed requests sent one
  behind the other, with whatever bytes after them, the connection does exactly what serving them one by one
  would do: each handler gets its own request with its own body, the answers come in order, and the bytes behind the
  last request are what the connection (or the WebSocket handler) continues with.
\<close>

theorem requests_stay_apart:
  assumes "list_all (clean_request (srv_target v)) qs"
  shows "serve_conn v (concat (map request_bytes qs) @ rest) s = answers v qs rest s"
  using assms
proof (induction qs arbitrary: s)
  case (Cons q qs)
  then show ?case
    using serve_one [of v q "concat (map request_bytes qs) @ rest" s] by (simp add: Let_def case_prod_beta)
qed simp

definition demo_server :: "bytes list server" where
  "demo_server = \<lparr>routes = [((asc ''GET'', [47]), \<lambda>r s. (s, Inr (plain_response 200 [111]))),
      ((asc ''POST'', [47, 120]), \<lambda>r s. (s @ [rq_body r], Inr (plain_response 200 [111])))],
     prefixes = [], static_mount = None, ws_path = None, srv_cors = False, srv_headers = [],
     srv_disk = \<lparr>is_dir = \<lambda>_. False, is_file = \<lambda>_. False, content = \<lambda>_. []\<rparr>, srv_guess = \<lambda>_. None, srv_target = \<lambda>t. Some (t, [])\<rparr>"

definition demo_requests :: "sent_request list" where
  "demo_requests = [\<lparr>q_method = asc ''POST'', q_target = [47, 120], q_headers = [(asc ''content-length'', [51])], q_body = [13, 10, 13]\<rparr>,
     \<lparr>q_method = asc ''GET'', q_target = [47], q_headers = [], q_body = []\<rparr>]"

theorem requests_stay_apart_witness:
  "app (fst (serve_conn demo_server (concat (map request_bytes demo_requests) @ [10]) \<lparr>app = [], requests = 0, errors = 0\<rparr>)) = [[13, 10, 13]]"
proof -
  have d3: "digits (Suc (Suc (Suc 0))) = [51]" by (simp add: digits.simps)
  have "list_all (clean_request (srv_target demo_server)) demo_requests"
    by (simp add: demo_requests_def demo_server_def clean_request_def token_ok_def key_ok_def value_ok_def head_lines_def asc_def
        MAX_HEADER_BYTES_def MAX_BODY_def d3)
  from requests_stay_apart [OF this, of "[10]" "\<lparr>app = [], requests = 0, errors = 0\<rparr>"] show ?thesis
    by (simp add: demo_requests_def demo_server_def request_of_def wants_upgrade_def dispatch_def find_handler_def
        keeps_alive_def header_def plain_response_def asc_def upper_u_def lower_u_def serve_conn.simps blank_line_def READ_LIMIT_def)
qed

subsection \<open>A response tells its length\<close>

definition line_ok :: "text_u \<Rightarrow> bool" where
  "line_ok l \<longleftrightarrow> list_all (\<lambda>c. c < 128 \<and> c \<noteq> 13) l"

definition response_ok :: "(text_u \<times> text_u) list \<Rightarrow> response \<Rightarrow> bool" where
  "response_ok extra r \<longleftrightarrow> line_ok (rs_type r) \<and> list_all (\<lambda>(k, v). line_ok k \<and> line_ok v) (extra @ rs_headers r)"

text \<open>
  The head of a response ends where its body starts, and its third line gives the length of the body in
  bytes, so a client that reads that many bytes is at the start of the next response.
\<close>

lemma response_delimited:
  assumes "response_ok extra r"
  shows "\<exists>n. head_end (render keep False cors extra r @ behind) = Some n \<and> drop n (render keep False cors extra r @ behind) = rs_body r @ behind
    \<and> header_of (response_lines keep cors extra r ! 2) = Some (asc ''content-length'', digits (length (rs_body r)))"
proof -
  let ?ls = "response_lines keep cors extra r"
  have dl: "line_ok (digits n)" for n using digits_shape [of n] by (auto simp: line_ok_def list_all_iff)
  have st: "line_ok (status_text n)" for n
    by (auto simp: status_text_def line_ok_def asc_def)
  have upd: "\<forall>p \<in> set (fold (\<lambda>(k, v). AList.update k v) hs acc). line_ok (fst p) \<and> line_ok (snd p)"
    if "\<forall>p \<in> set hs. line_ok (fst p) \<and> line_ok (snd p)" "\<forall>p \<in> set acc. line_ok (fst p) \<and> line_ok (snd p)" for hs acc
    using that
  proof (induction hs arbitrary: acc)
    case (Cons h hs)
    have mem: "x = (k, v) \<or> x \<in> set al" if "x \<in> set (AList.update k v al)" for x k v and al :: "(text_u \<times> text_u) list"
      using that by (induction al) (auto split: if_splits)
    obtain k v where h: "h = (k, v)" by (cases h)
    have "line_ok (fst p) \<and> line_ok (snd p)" if "p \<in> set (AList.update k v acc)" for p
      using mem [OF that] Cons.prems h by auto
    with Cons.IH [of "AList.update k v acc"] Cons.prems h show ?case by simp
  qed simp
  have app: "line_ok (x @ y) \<longleftrightarrow> line_ok x \<and> line_ok y" "line_ok (c # x) \<longleftrightarrow> c < 128 \<and> c \<noteq> 13 \<and> line_ok x" for x y c
    by (auto simp: line_ok_def)
  have fixed: "line_ok (asc ''HTTP/1.1 '')" "line_ok (asc ''Content-Type: '')" "line_ok (asc ''Content-Length: '')" "line_ok (asc ''Connection: '')"
    "line_ok (asc ''keep-alive'')" "line_ok (asc ''close'')" "line_ok (asc ''Access-Control-Allow-Origin: *'')" "line_ok (asc '': '')"
    by (simp_all add: line_ok_def asc_def)
  have ok: "l \<noteq> [] \<and> line_ok l" if "l \<in> set ?ls" for l
  proof -
    have "line_ok (rs_type r)" and hs: "\<forall>p \<in> set (extra @ rs_headers r). line_ok (fst p) \<and> line_ok (snd p)"
      using assms by (auto simp: response_ok_def list_all_iff)
    moreover have "line_ok k \<and> line_ok v" if "(k, v) \<in> set (fold (\<lambda>(k, v). AList.update k v) (extra @ rs_headers r) [])" for k v
      using upd [OF hs, of "[]"] that by auto
    ultimately have "line_ok l" using that fixed dl st by (auto simp: response_lines_def app split: if_splits simp del: fold_append)
    moreover have "l \<noteq> []" using that by (auto simp: response_lines_def asc_def split: if_splits)
    ultimately show ?thesis by blast
  qed
  let ?head = "concat (map (\<lambda>l. l @ crlf) ?ls)"
  have ascii: "list_all (\<lambda>c. c < 128) (?head @ crlf)"
    using ok by (auto simp: list_all_iff line_ok_def crlf_def)
  have u8: "utf8 s = s" if "list_all (\<lambda>c. c < 128) s" for s
    using that by (induction s) (simp_all add: utf8_def utf8_char_def)
  have eq: "render keep False cors extra r @ behind = concat (map (\<lambda>l. l @ [13, 10]) (map raw ?ls)) @ 13 # 10 # (rs_body r @ behind)"
    unfolding render_def u8 [OF ascii] by (simp add: raw_def crlf_def map_concat comp_def)
  have "l \<noteq> [] \<and> (13 :: byte) \<notin> set l" if "l \<in> set (map raw ?ls)" for l
  proof -
    from that obtain u where u: "u \<in> set ?ls" "l = raw u" by auto
    have "unat (of_nat c :: byte) = c" if "c \<in> set u" for c using ok [OF u(1)] that by (intro unat_byte) (auto simp: line_ok_def list_all_iff)
    moreover have "unat (13 :: byte) = 13" by simp
    ultimately have "(of_nat c :: byte) \<noteq> 13" if "c \<in> set u" for c using ok [OF u(1)] that by (fastforce simp: line_ok_def list_all_iff)
    then show ?thesis using ok [OF u(1)] u(2) by (auto simp: raw_def)
  qed
  then have "head_end (render keep False cors extra r @ behind) = Some (length (concat (map (\<lambda>l. l @ [13, 10]) (map raw ?ls))) + 2)"
    unfolding eq by (intro head_end_lines) (simp_all add: response_lines_def)
  moreover have "drop (length (concat (map (\<lambda>l. l @ [13, 10]) (map raw ?ls))) + 2) (render keep False cors extra r @ behind) = rs_body r @ behind"
    unfolding eq by simp
  moreover have "header_of (?ls ! 2) = Some (asc ''content-length'', digits (length (rs_body r)))"
  proof -
    have "?ls ! 2 = asc ''Content-Length'' @ 58 # 32 # digits (length (rs_body r))" by (simp add: response_lines_def asc_def)
    moreover have "strip_text (32 # s) = strip_text s" for s by (simp add: strip_text_def ws_blank_def)
    moreover have "strip_text (digits n) = digits n" for n
    proof (rule strip_ok)
      have "\<not> ws_blank c" if "c \<in> set (digits n)" for c
        using digits_shape [of n] that by (auto simp: list_all_iff ws_blank_def)
      then show "\<not> ws_blank (hd (digits n)) \<and> \<not> ws_blank (last (digits n))" using digits_shape [of n] by simp
    qed
    ultimately show ?thesis by (simp add: header_of_def asc_def lower_u_def strip_text_def ws_blank_def)
  qed
  ultimately show ?thesis by blast
qed

subsection \<open>Limits of the framing of requests\<close>

text \<open>A body beyond the limit is cut there, and what is left of it is read as the next request.\<close>

lemma long_body_cut:
  assumes "header r ''content-length'' = Some (digits n)" "MAX_BODY < n"
  shows "body_length r = Inr MAX_BODY"
proof -
  obtain c d where "digits n = c # d" using digits_shape [of n] by (cases "digits n") auto
  then show ?thesis using assms text_int_digits [of n] by (auto simp: body_length_def MAX_BODY_def)
qed

text \<open>A body sent in chunks has no length the server knows: its first chunk is read as the next request.\<close>

lemma chunks_unread: "header r ''content-length'' = None \<Longrightarrow> body_length r = Inr 0"
  by (simp add: body_length_def text_int_def asc_def blank_def)

text \<open>A length that is no number ends the connection without an answer.\<close>

lemma bad_length_unanswered:
  assumes "head_end input = Some n" "n \<le> MAX_HEADER_BYTES" "parse_request (srv_target v) (take (n - 4) input) = Some r"
    "header r ''content-length'' = Some (asc ''abc'')"
  shows "serve_conn v input s = (s\<lparr>requests := requests s + 1\<rparr>, [], Closed)"
proof -
  have "body_length r = Inl ValueError" using assms(4) by (simp add: body_length_def text_int_def asc_def blank_def)
  then show ?thesis using assms(1-3) by (simp add: serve_conn.simps [of v input] Let_def)
qed

text \<open>The mounted prefix is compared as a text: a name that only begins with it is served too.\<close>

lemma prefix_without_slash:
  "name \<noteq> [] \<Longrightarrow> hd name \<noteq> 47 \<Longrightarrow> serve_static guess d p base (p @ name) = serve_static guess d p base (p @ 47 # name)"
  by (cases name) (simp_all add: serve_static_def starts_def)
end
