(* ===== verification/ContestService.thy ===== *)
theory ContestService
  imports Models OrderDesk ContestLedger
begin

section \<open>The contest service\<close>

text \<open>
  Models \<^verbatim>\<open>src/mdfeed/services/contest.py\<close> over the contest ledger: sign-up, login, sessions, orders at the
  current price, the operator's calls, the reconciliation and valuation loops. A handler that awaits (the
  hash of a password, its check, a price) is split there: what it knows is an entry of \<open>waiting\<close>, and any other
  event can happen before it goes on. Texts are the characters of their UTF-8 bytes; the
  fields of a body come after \<^verbatim>\<open>str\<close> and \<^verbatim>\<open>int\<close>. Each waiting handler gets an answer of its own; that concurrent requests for one
  symbol share one call is not modelled. Random tokens, the key derivation and the ledger's hash are arguments.
\<close>

record contest_config =
  cc_settings :: settings
  cc_max_qty :: int
  cc_start :: string
  cc_end :: string
  cc_off_hours :: bool
  cc_admin_hash :: string

text \<open>The local time: the day as \<^verbatim>\<open>%Y%m%d\<close>, the weekday (Monday is 0), seconds since midnight.\<close>

record local_time =
  lt_day :: string
  lt_weekday :: nat
  lt_second :: rat

definition MARKET_OPEN_S :: rat where "MARKET_OPEN_S = 9 * 3600"
definition MARKET_CLOSE_S :: rat where "MARKET_CLOSE_S = 15 * 3600 + 40 * 60"

definition market_is_open :: "local_time \<Rightarrow> bool" where
  "market_is_open t \<longleftrightarrow> lt_weekday t < 5 \<and> MARKET_OPEN_S \<le> lt_second t \<and> lt_second t \<le> MARKET_CLOSE_S"

datatype closed_reason = LedgerHalted string | NotStarted | ContestOver | OutOfHours

definition text_before :: "string \<Rightarrow> string \<Rightarrow> bool" where
  "text_before a b \<longleftrightarrow> ord_class.lexordp (map of_char a :: nat list) (map of_char b)"

definition trading_state :: "contest_config \<Rightarrow> local_time \<Rightarrow> contest \<Rightarrow> closed_reason option" where
  "trading_state cfg t l =
     (case halted l of
        Some (c # why) \<Rightarrow> Some (LedgerHalted (c # why))
      | _ \<Rightarrow>
          if cc_start cfg \<noteq> [] \<and> text_before (lt_day t) (cc_start cfg) then Some NotStarted
          else if cc_end cfg \<noteq> [] \<and> text_before (cc_end cfg) (lt_day t) then Some ContestOver
          else if \<not> cc_off_hours cfg \<and> \<not> market_is_open t then Some OutOfHours
          else None)"

subsection \<open>State\<close>

text \<open>A handler that waits: for the hash of a new password, for the check of a password, for a price.\<close>

datatype pending =
    HashingPassword string string string
  | CheckingPassword string nat string string
  | CheckingAdmin string
  | AwaitingPrice nat string string cside int

record service =
  sv_ledger :: contest
  sv_sessions :: "nat sessions"
  sv_admins :: "unit sessions"
  sv_throttles :: "(string \<times> throttle) list"
  sv_admin_throttle :: throttle
  sv_quotes :: "(string \<times> seconds \<times> int) list"
  sv_prices :: "(string \<times> int) list"
  sv_breaks :: "cbreak list"
  sv_last_integrity :: seconds
  sv_counts :: "(string \<times> int) list"
  sv_waiting :: "(nat \<times> pending) list"
  sv_next :: nat

definition new_service :: "contest \<Rightarrow> service" where
  "new_service l = \<lparr>sv_ledger = l, sv_sessions = [], sv_admins = [], sv_throttles = [], sv_admin_throttle = new_throttle,
     sv_quotes = [], sv_prices = [], sv_breaks = [], sv_last_integrity = 0,
     sv_counts = [(''filled'', 0), (''rejected'', 0), (''blocked'', 0)], sv_waiting = [], sv_next = 0\<rparr>"

datatype creply =
    Csrf | LoginRequired | AdminRequired | BadNickname | ShortPassword | SignupRefused contest_error | SignedUp string
  | LockedOut seconds | WrongPassword | LoggedIn string | LoggedOut | BadOrderFields | BadOrderFormat | BadOrderQty
  | TradingClosed closed_reason | NoQuote | DuplicateOrder corder | PlacedOrder corder | BadInviteCount
  | InviteCodes "string list" | StillBroken "cbreak list" | Resumed | InternalError

text \<open>A status and its reply; \<open>None\<close> while the handler waits.\<close>

type_synonym cresponse = "(nat \<times> creply) option"

definition park :: "pending \<Rightarrow> service \<Rightarrow> service \<times> cresponse" where
  "park p v = (v\<lparr>sv_waiting := sv_waiting v @ [(sv_next v, p)], sv_next := sv_next v + 1\<rparr>, None)"

definition count_result :: "string \<Rightarrow> service \<Rightarrow> service" where
  "count_result r v = v\<lparr>sv_counts := AList.update r (dict_get (sv_counts v) r + 1) (sv_counts v)\<rparr>"

subsection \<open>Sessions\<close>

definition COOKIE :: string where "COOKIE = ''contest_session''"
definition ADMIN_COOKIE :: string where "ADMIN_COOKIE = ''contest_admin''"

text \<open>\<open>guarded\<close>: the participant of the session, or the refusal. \<open>hdr\<close>: the header that write requests need.\<close>

definition guarded :: "bool \<Rightarrow> bool \<Rightarrow> string \<Rightarrow> seconds \<Rightarrow> service \<Rightarrow> service \<times> ((nat \<times> creply) + nat)" where
  "guarded write_request hdr cookie now v =
     (if write_request \<and> \<not> hdr then (v, Inl (403, Csrf))
      else case session_subject (cookie_value cookie COOKIE) now (sv_sessions v) of
        (ss, None) \<Rightarrow> (v\<lparr>sv_sessions := ss\<rparr>, Inl (401, LoginRequired))
      | (ss, Some pid) \<Rightarrow> (v\<lparr>sv_sessions := ss\<rparr>, Inr pid))"

definition guarded_admin :: "bool \<Rightarrow> bool \<Rightarrow> string \<Rightarrow> seconds \<Rightarrow> service \<Rightarrow> service \<times> (nat \<times> creply) option" where
  "guarded_admin write_request hdr cookie now v =
     (if write_request \<and> \<not> hdr then (v, Some (403, Csrf))
      else case session_check (cookie_value cookie ADMIN_COOKIE) now (sv_admins v) of
        (ss, ok) \<Rightarrow> (v\<lparr>sv_admins := ss\<rparr>, if ok then None else Some (401, AdminRequired)))"

subsection \<open>Sign-up and login\<close>

definition MIN_PASSWORD :: nat where "MIN_PASSWORD = 10"

definition byte_text :: "text_u \<Rightarrow> string" where "byte_text t = map char_of (utf8 t)"

definition nick_char :: "nat \<Rightarrow> bool" where
  "nick_char c \<longleftrightarrow> 48 \<le> c \<and> c \<le> 57 \<or> 65 \<le> c \<and> c \<le> 90 \<or> 97 \<le> c \<and> c \<le> 122 \<or> c = 95 \<or> 0xAC00 \<le> c \<and> c \<le> 0xD7A3"

definition nick_ok :: "text_u \<Rightarrow> bool" where
  "nick_ok s \<longleftrightarrow> (let t = (if s \<noteq> [] \<and> last s = 10 then butlast s else s) in 2 \<le> length t \<and> length t \<le> 16 \<and> list_all nick_char t)"

definition signup_begin :: "bool \<Rightarrow> string \<Rightarrow> text_u \<Rightarrow> text_u \<Rightarrow> service \<Rightarrow> service \<times> cresponse" where
  "signup_begin hdr invite nick pw v =
     (if \<not> hdr then (v, Some (403, Csrf))
      else if \<not> nick_ok nick then (v, Some (400, BadNickname))
      else if length pw < MIN_PASSWORD then (v, Some (400, ShortPassword))
      else park (HashingPassword invite (byte_text nick) (byte_text pw)) v)"

definition signup_end :: "hasher \<Rightarrow> contest_config \<Rightarrow> kdf \<Rightarrow> bytes \<Rightarrow> string \<Rightarrow> seconds \<Rightarrow> seconds \<Rightarrow> string \<Rightarrow> string \<Rightarrow> string \<Rightarrow> service
    \<Rightarrow> service \<times> cresponse" where
  "signup_end H cfg kdf salt tok now wall invite nick pw v =
     (case signup H (cc_settings cfg) invite nick (hash_password kdf salt pw ITERATIONS) wall (sv_ledger v) of
        (l, Inl (Raised e)) \<Rightarrow> (v\<lparr>sv_ledger := l\<rparr>, Some (500, InternalError))
      | (l, Inl e) \<Rightarrow> (v\<lparr>sv_ledger := l\<rparr>, Some (409, SignupRefused e))
      | (l, Inr p) \<Rightarrow> (v\<lparr>sv_ledger := l, sv_sessions := session_create tok now (p_id p) (sv_sessions v)\<rparr>, Some (201, SignedUp tok)))"

definition throttle_of :: "service \<Rightarrow> string \<Rightarrow> throttle" where
  "throttle_of v nick = (case map_of (sv_throttles v) nick of None \<Rightarrow> new_throttle | Some t \<Rightarrow> t)"

definition login_failed :: "string \<Rightarrow> seconds \<Rightarrow> service \<Rightarrow> service \<times> cresponse" where
  "login_failed nick now v =
     (v\<lparr>sv_throttles := AList.update nick (login_fail now (throttle_of v nick)) (sv_throttles v)\<rparr>, Some (401, WrongPassword))"

definition login_begin :: "bool \<Rightarrow> string \<Rightarrow> string \<Rightarrow> seconds \<Rightarrow> service \<Rightarrow> service \<times> cresponse" where
  "login_begin hdr nick pw now v0 =
     (if \<not> hdr then (v0, Some (403, Csrf))
      else let v = v0\<lparr>sv_throttles := AList.update nick (throttle_of v0 nick) (sv_throttles v0)\<rparr>; w = locked_for now (throttle_of v nick) in
        if 0 < w then (v, Some (429, LockedOut w))
        else case credentials (sv_ledger v) nick of
               None \<Rightarrow> login_failed nick now v
             | Some (pid, h) \<Rightarrow> park (CheckingPassword nick pid h pw) v)"

definition login_end :: "kdf \<Rightarrow> string \<Rightarrow> seconds \<Rightarrow> string \<Rightarrow> nat \<Rightarrow> string \<Rightarrow> string \<Rightarrow> service \<Rightarrow> service \<times> cresponse" where
  "login_end kdf tok now nick pid h pw v =
     (if \<not> verify_password kdf pw h then login_failed nick now v
      else (v\<lparr>sv_throttles := AList.update nick (login_success (throttle_of v nick)) (sv_throttles v),
              sv_sessions := session_create tok now pid (sv_sessions v)\<rparr>, Some (200, LoggedIn tok)))"

definition logout :: "bool \<Rightarrow> string \<Rightarrow> seconds \<Rightarrow> service \<Rightarrow> service \<times> cresponse" where
  "logout hdr cookie now v =
     (case guarded True hdr cookie now v of
        (v1, Inl r) \<Rightarrow> (v1, Some r)
      | (v1, Inr _) \<Rightarrow> (v1\<lparr>sv_sessions := session_revoke (cookie_value cookie COOKIE) (sv_sessions v1)\<rparr>, Some (200, LoggedOut)))"

subsection \<open>Prices\<close>

definition QUOTE_TTL_S :: seconds where "QUOTE_TTL_S = 1"

definition price_known :: "string \<Rightarrow> seconds \<Rightarrow> service \<Rightarrow> int option" where
  "price_known sy now v =
     (case map_of (sv_quotes v) sy of None \<Rightarrow> None | Some (t, p) \<Rightarrow> if now - t < QUOTE_TTL_S then Some p else None)"

definition price_arrived :: "string \<Rightarrow> int \<Rightarrow> seconds \<Rightarrow> service \<Rightarrow> service" where
  "price_arrived sy p now v =
     v\<lparr>sv_quotes := AList.update sy (now, p) (sv_quotes v),
       sv_prices := (if 0 < p then AList.update sy p (sv_prices v) else sv_prices v)\<rparr>"

subsection \<open>Orders\<close>

record order_request =
  or_cid :: string
  or_symbol :: string
  or_side :: string
  or_qty :: int

definition cside_of :: "string \<Rightarrow> cside option" where
  "cside_of s = (if s = ''buy'' then Some cbuy else if s = ''sell'' then Some csell else None)"

definition place_at :: "hasher \<Rightarrow> contest_config \<Rightarrow> nat \<Rightarrow> string \<Rightarrow> string \<Rightarrow> cside \<Rightarrow> int \<Rightarrow> int \<Rightarrow> seconds \<Rightarrow> service \<Rightarrow> service \<times> cresponse" where
  "place_at H cfg pid cid sy sd q p wall v =
     (case place H (cc_settings cfg) pid cid sy sd q p wall (sv_ledger v) of
        (l, Inl _) \<Rightarrow> (v\<lparr>sv_ledger := l\<rparr>, Some (500, InternalError))
      | (l, Inr (r, False)) \<Rightarrow> (v\<lparr>sv_ledger := l\<rparr>, Some (200, DuplicateOrder r))
      | (l, Inr (r, True)) \<Rightarrow>
          if c_state r = CFilled then (count_result ''filled'' (v\<lparr>sv_ledger := l\<rparr>), Some (201, PlacedOrder r))
          else (count_result ''rejected'' (v\<lparr>sv_ledger := l\<rparr>), Some (422, PlacedOrder r)))"

definition submit_begin :: "hasher \<Rightarrow> contest_config \<Rightarrow> bool \<Rightarrow> string \<Rightarrow> order_request option \<Rightarrow> local_time \<Rightarrow> seconds \<Rightarrow> seconds
    \<Rightarrow> service \<Rightarrow> service \<times> cresponse" where
  "submit_begin H cfg hdr cookie body t now wall v =
     (case guarded True hdr cookie now v of
        (v1, Inl r) \<Rightarrow> (v1, Some r)
      | (v1, Inr pid) \<Rightarrow>
          (case body of
             None \<Rightarrow> (v1, Some (400, BadOrderFields))
           | Some r \<Rightarrow>
               (case cside_of (or_side r) of
                  None \<Rightarrow> (v1, Some (400, BadOrderFormat))
                | Some sd \<Rightarrow>
                    if \<not> (client_id_ok (or_cid r) \<and> symbol_ok (or_symbol r)) then (v1, Some (400, BadOrderFormat))
                    else if \<not> (1 \<le> or_qty r \<and> or_qty r \<le> cc_max_qty cfg) then (v1, Some (400, BadOrderQty))
                    else case trading_state cfg t (sv_ledger v1) of
                      Some why \<Rightarrow> (count_result ''blocked'' v1,
                        Some (if halted (sv_ledger v1) \<notin> {None, Some []} then 423 else 409, TradingClosed why))
                    | None \<Rightarrow>
                        (case price_known (or_symbol r) now v1 of
                           Some p \<Rightarrow> place_at H cfg pid (or_cid r) (or_symbol r) sd (or_qty r) p wall v1
                         | None \<Rightarrow> park (AwaitingPrice pid (or_cid r) (or_symbol r) sd (or_qty r)) v1))))"

definition submit_end :: "hasher \<Rightarrow> contest_config \<Rightarrow> int answer \<Rightarrow> seconds \<Rightarrow> seconds \<Rightarrow> nat \<Rightarrow> string \<Rightarrow> string \<Rightarrow> cside \<Rightarrow> int
    \<Rightarrow> service \<Rightarrow> service \<times> cresponse" where
  "submit_end H cfg a now wall pid cid sy sd q v =
     (case a of
        Answer p \<Rightarrow> place_at H cfg pid cid sy sd q p wall (price_arrived sy p now v)
      | Died \<Rightarrow> (v, None)
      | _ \<Rightarrow> (count_result ''blocked'' v, Some (503, NoQuote)))"

subsection \<open>The operator\<close>

definition admin_login_begin :: "bool \<Rightarrow> string \<Rightarrow> seconds \<Rightarrow> service \<Rightarrow> service \<times> cresponse" where
  "admin_login_begin hdr pw now v =
     (if \<not> hdr then (v, Some (403, Csrf))
      else if 0 < locked_for now (sv_admin_throttle v) then (v, Some (429, LockedOut (locked_for now (sv_admin_throttle v))))
      else park (CheckingAdmin pw) v)"

definition admin_login_end :: "contest_config \<Rightarrow> kdf \<Rightarrow> string \<Rightarrow> seconds \<Rightarrow> string \<Rightarrow> service \<Rightarrow> service \<times> cresponse" where
  "admin_login_end cfg kdf tok now pw v =
     (if \<not> verify_password kdf pw (cc_admin_hash cfg)
      then (v\<lparr>sv_admin_throttle := login_fail now (sv_admin_throttle v)\<rparr>, Some (401, WrongPassword))
      else (v\<lparr>sv_admin_throttle := login_success (sv_admin_throttle v), sv_admins := session_create tok now () (sv_admins v)\<rparr>,
            Some (200, LoggedIn tok)))"

text \<open>\<open>n\<close>: \<open>None\<close> when \<^verbatim>\<open>int\<close> of the field raises.\<close>

definition admin_create_invites :: "bool \<Rightarrow> string \<Rightarrow> int option \<Rightarrow> string list \<Rightarrow> seconds \<Rightarrow> seconds \<Rightarrow> service \<Rightarrow> service \<times> cresponse" where
  "admin_create_invites hdr cookie n codes now wall v =
     (case guarded_admin True hdr cookie now v of
        (v1, Some r) \<Rightarrow> (v1, Some r)
      | (v1, None) \<Rightarrow>
          (case n of
             None \<Rightarrow> (v1, Some (500, InternalError))
           | Some k \<Rightarrow>
               if \<not> (1 \<le> k \<and> k \<le> 100) then (v1, Some (400, BadInviteCount))
               else (case create_invites (take (nat k) codes) wall (sv_ledger v1) of
                       (l, Inl _) \<Rightarrow> (v1\<lparr>sv_ledger := l\<rparr>, Some (500, InternalError))
                     | (l, Inr cs) \<Rightarrow> (v1\<lparr>sv_ledger := l\<rparr>, Some (201, InviteCodes cs)))))"

definition admin_resume :: "hasher \<Rightarrow> bool \<Rightarrow> string \<Rightarrow> seconds \<Rightarrow> service \<Rightarrow> service \<times> cresponse" where
  "admin_resume H hdr cookie now v =
     (case guarded_admin True hdr cookie now v of
        (v1, Some r) \<Rightarrow> (v1, Some r)
      | (v1, None) \<Rightarrow>
          (let bs = integrity H (sv_ledger v1) in
           if bs \<noteq> [] then (v1, Some (409, StillBroken bs))
           else (v1\<lparr>sv_ledger := ContestLedger.resume (sv_ledger v1), sv_breaks := []\<rparr>, Some (200, Resumed))))"

fun break_kind :: "cbreak \<Rightarrow> string" where
  "break_kind (JournalChainBroken i) = ''journal_chain_broken''"
| "break_kind (CashMismatch pid a b) = ''cash_mismatch''"
| "break_kind (PositionMismatch pid sy a b) = ''position_mismatch''"
| "break_kind (OrderJournalMismatch i) = ''order_journal_mismatch''"

definition integrity_once :: "hasher \<Rightarrow> seconds \<Rightarrow> service \<Rightarrow> service" where
  "integrity_once H now v =
     (let bs = integrity H (sv_ledger v); v1 = v\<lparr>sv_breaks := bs, sv_last_integrity := now\<rparr> in
      if bs \<noteq> [] \<and> halted (sv_ledger v) \<in> {None, Some []}
      then v1\<lparr>sv_ledger := halt (break_kind (hd bs)) (sv_ledger v1)\<rparr> else v1)"

definition service_healthy :: "seconds \<Rightarrow> service \<Rightarrow> bool" where
  "service_healthy now v \<longleftrightarrow> now - sv_last_integrity v < 30"

subsection \<open>A participant's account\<close>

definition account_equity :: "nat \<Rightarrow> service \<Rightarrow> py_error + int" where
  "account_equity pid v =
     (case account (sv_ledger v) pid of
        Inl e \<Rightarrow> Inl e
      | Inr (cash, ps) \<Rightarrow> Inr (fold (\<lambda>(sy, q, cost) e. e + (case map_of (sv_prices v) sy of
            Some p \<Rightarrow> if p \<noteq> 0 then q * p else cost | None \<Rightarrow> cost)) ps cash))"

subsection \<open>The event loop\<close>

record contest_env =
  ce_cfg :: contest_config
  ce_hash :: hasher
  ce_kdf :: kdf

text \<open>What a waiting handler goes on with.\<close>

record wakeup =
  wk_answer :: "int answer"
  wk_salt :: bytes
  wk_token :: string
  wk_now :: seconds
  wk_wall :: seconds

datatype service_event =
    SignUp bool string text_u text_u
  | LogIn bool string string seconds
  | LogOut bool string seconds
  | SubmitOrder bool string "order_request option" local_time seconds seconds
  | Look string seconds
  | AdminLogIn bool string seconds
  | CreateInvites bool string "int option" "string list" seconds seconds
  | ResumeTrading bool string seconds
  | CheckBooks seconds
  | PriceSeen string int seconds
  | Wake nat wakeup

definition wake :: "contest_env \<Rightarrow> pending \<Rightarrow> wakeup \<Rightarrow> service \<Rightarrow> service \<times> cresponse" where
  "wake E p w v =
     (case p of
        HashingPassword c n pw \<Rightarrow> signup_end (ce_hash E) (ce_cfg E) (ce_kdf E) (wk_salt w) (wk_token w) (wk_now w) (wk_wall w) c n pw v
      | CheckingPassword n pid h pw \<Rightarrow> login_end (ce_kdf E) (wk_token w) (wk_now w) n pid h pw v
      | CheckingAdmin pw \<Rightarrow> admin_login_end (ce_cfg E) (ce_kdf E) (wk_token w) (wk_now w) pw v
      | AwaitingPrice pid cid sy sd q \<Rightarrow> submit_end (ce_hash E) (ce_cfg E) (wk_answer w) (wk_now w) (wk_wall w) pid cid sy sd q v)"

fun serve :: "contest_env \<Rightarrow> service_event \<Rightarrow> service \<Rightarrow> service \<times> cresponse" where
  "serve E (SignUp hdr c n pw) v = signup_begin hdr c n pw v"
| "serve E (LogIn hdr n pw now) v = login_begin hdr n pw now v"
| "serve E (LogOut hdr cookie now) v = logout hdr cookie now v"
| "serve E (SubmitOrder hdr cookie body t now wall) v = submit_begin (ce_hash E) (ce_cfg E) hdr cookie body t now wall v"
| "serve E (Look cookie now) v = (fst (guarded False False cookie now v), None)"
| "serve E (AdminLogIn hdr pw now) v = admin_login_begin hdr pw now v"
| "serve E (CreateInvites hdr cookie n codes now wall) v = admin_create_invites hdr cookie n codes now wall v"
| "serve E (ResumeTrading hdr cookie now) v = admin_resume (ce_hash E) hdr cookie now v"
| "serve E (CheckBooks now) v = (integrity_once (ce_hash E) now v, None)"
| "serve E (PriceSeen sy p now) v = (price_arrived sy p now v, None)"
| "serve E (Wake i w) v =
     (case map_of (sv_waiting v) i of
        None \<Rightarrow> (v, None)
      | Some p \<Rightarrow> wake E p w (v\<lparr>sv_waiting := AList.delete i (sv_waiting v)\<rparr>))"

definition run_service :: "contest_env \<Rightarrow> service_event list \<Rightarrow> service" where
  "run_service E es = fold (\<lambda>e v. fst (serve E e v)) es (new_service empty_contest)"


subsection \<open>What holds in every state\<close>

definition ids :: "contest \<Rightarrow> nat set" where "ids l = p_id ` set (participants l)"

text \<open>An order as the service lets it in.\<close>

definition order_typed :: "contest_config \<Rightarrow> nat set \<Rightarrow> nat \<Rightarrow> string \<Rightarrow> string \<Rightarrow> int \<Rightarrow> bool" where
  "order_typed cfg P pid cid sy q \<longleftrightarrow> pid \<in> P \<and> client_id_ok cid \<and> symbol_ok sy \<and> 1 \<le> q \<and> q \<le> cc_max_qty cfg"

fun pending_ok :: "contest_config \<Rightarrow> nat set \<Rightarrow> pending \<Rightarrow> bool" where
  "pending_ok cfg P (CheckingPassword n pid h pw) = (pid \<in> P)"
| "pending_ok cfg P (AwaitingPrice pid cid sy sd q) = order_typed cfg P pid cid sy q"
| "pending_ok cfg P p = True"

definition books_ok :: "contest_config \<Rightarrow> hasher \<Rightarrow> contest \<Rightarrow> bool" where
  "books_ok cfg H l \<longleftrightarrow> contest_ok l \<and> (\<exists>st. books_agree H l st) \<and> halted l = None
     \<and> (\<forall>r \<in> set (corders l). order_typed cfg (ids l) (c_pid r) (c_client_id r) (c_symbol r) (c_qty r))"

definition sessions_ok :: "nat set \<Rightarrow> nat sessions \<Rightarrow> bool" where
  "sessions_ok P ss \<longleftrightarrow> (\<forall>(tok, created, used, pid) \<in> set ss. pid \<in> P)"

definition waiting_ok :: "contest_config \<Rightarrow> nat set \<Rightarrow> (nat \<times> pending) list \<Rightarrow> bool" where
  "waiting_ok cfg P ws \<longleftrightarrow> (\<forall>(i, p) \<in> set ws. pending_ok cfg P p)"

definition service_ok :: "contest_config \<Rightarrow> hasher \<Rightarrow> service \<Rightarrow> bool" where
  "service_ok cfg H v \<longleftrightarrow> books_ok cfg H (sv_ledger v) \<and> sv_breaks v = [] \<and> sessions_ok (ids (sv_ledger v)) (sv_sessions v)
     \<and> waiting_ok cfg (ids (sv_ledger v)) (sv_waiting v)"

lemma order_typed_mono: "order_typed cfg P pid cid sy q \<Longrightarrow> P \<subseteq> Q \<Longrightarrow> order_typed cfg Q pid cid sy q"
  by (auto simp: order_typed_def)

lemma pending_mono: "pending_ok cfg P p \<Longrightarrow> P \<subseteq> Q \<Longrightarrow> pending_ok cfg Q p"
  by (cases p) (auto intro: order_typed_mono)

lemma waiting_mono: "waiting_ok cfg P ws \<Longrightarrow> P \<subseteq> Q \<Longrightarrow> waiting_ok cfg Q ws"
  by (auto simp: waiting_ok_def intro: pending_mono)

lemma sessions_mono: "sessions_ok P ss \<Longrightarrow> P \<subseteq> Q \<Longrightarrow> sessions_ok Q ss"
  by (auto simp: sessions_ok_def)

lemma set_update_cases: "x \<in> set (AList.update k v al) \<Longrightarrow> x = (k, v) \<or> x \<in> set al"
  by (induction al) (auto split: if_splits)

lemma sessions_create: "sessions_ok P ss \<Longrightarrow> pid \<in> P \<Longrightarrow> sessions_ok P (session_create tok now pid ss)"
  by (auto simp: sessions_ok_def session_create_def dest!: set_update_cases)

lemma sessions_delete: "sessions_ok P ss \<Longrightarrow> sessions_ok P (AList.delete t ss)"
  by (auto simp: sessions_ok_def AList.delete_eq)

lemma sessions_check: "sessions_ok P ss \<Longrightarrow> sessions_ok P (fst (session_check tok now ss))"
  by (auto simp: session_check_def sessions_delete split: option.split prod.split)
    (auto simp: sessions_ok_def dest!: set_update_cases map_of_SomeD)

lemma sessions_subject:
  assumes "sessions_ok P ss" "session_subject tok now ss = (ss1, who)"
  shows "sessions_ok P ss1 \<and> (\<forall>pid. who = Some pid \<longrightarrow> pid \<in> P)"
proof -
  obtain s2 b where c: "session_check tok now ss = (s2, b)" by (cases "session_check tok now ss")
  have "sessions_ok P s2" using sessions_check [OF assms(1), of tok now] c by simp
  with assms(2) c show ?thesis
    by (cases b) (auto simp: session_subject_def sessions_ok_def dest!: map_of_SomeD)
qed

text \<open>What the ledger's calls leave to the service.\<close>

lemma settle_keeps [simp]: "participants (ContestLedger.settle H now pid i s sd q p am hc l) = participants l"
  "corders (ContestLedger.settle H now pid i s sd q p am hc l) = corders l" "halted (ContestLedger.settle H now pid i s sd q p am hc l) = halted l"
  by (simp_all add: ContestLedger.settle_def add_journal_def Let_def split: prod.split)

lemma place_keeps:
  "participants (fst (place H cfg pid cid s sd q p now l)) = participants l"
  "halted (fst (place H cfg pid cid s sd q p now l)) = halted l"
  "r \<in> set (corders (fst (place H cfg pid cid s sd q p now l))) \<Longrightarrow>
     r \<in> set (corders l) \<or> c_pid r = pid \<and> c_client_id r = cid \<and> c_symbol r = s \<and> c_qty r = q"
  by (auto simp: place_def Let_def split: option.splits prod.splits if_splits)

lemma place_books:
  assumes "books_ok cfg H l" "settings_ok (cc_settings cfg)" "order_typed cfg (ids l) pid cid sy q"
  shows "books_ok cfg H (fst (place H (cc_settings cfg) pid cid sy sd q p now l))"
proof -
  from assms(1) obtain st where st: "contest_ok l" "books_agree H l st" by (auto simp: books_ok_def)
  let ?l = "fst (place H (cc_settings cfg) pid cid sy sd q p now l)"
  note k = place_keeps [where H = H and cfg = "cc_settings cfg" and pid = pid and cid = cid and s = sy and sd = sd and q = q and p = p and now = now and l = l]
  have ids: "ids ?l = ids l" by (simp add: ids_def k(1))
  have "order_typed cfg (ids l) (c_pid r) (c_client_id r) (c_symbol r) (c_qty r)" if "r \<in> set (corders ?l)" for r
    using k(3) [OF that] assms(1,3) by (auto simp: books_ok_def)
  with place_ok [OF st(1) assms(2) st(2), of pid cid sy sd q p now] k(2) assms(1) show ?thesis
    by (simp add: books_ok_def ids)
qed

lemma signup_keeps:
  "halted (fst (signup H cfg c n pw now l)) = halted l" "corders (fst (signup H cfg c n pw now l)) = corders l"
  "set (participants l) \<subseteq> set (participants (fst (signup H cfg c n pw now l)))"
  "snd (signup H cfg c n pw now l) = Inr x \<Longrightarrow> x \<in> set (participants (fst (signup H cfg c n pw now l)))"
  by (auto simp: signup_def Let_def add_journal_def split: option.splits if_splits)

lemma signup_books:
  assumes "books_ok cfg H l" "settings_ok (cc_settings cfg)"
  shows "books_ok cfg H (fst (signup H (cc_settings cfg) c n pw now l)) \<and> ids l \<subseteq> ids (fst (signup H (cc_settings cfg) c n pw now l))
    \<and> (\<forall>x. snd (signup H (cc_settings cfg) c n pw now l) = Inr x \<longrightarrow> p_id x \<in> ids (fst (signup H (cc_settings cfg) c n pw now l)))"
proof -
  from assms(1) obtain st where st: "contest_ok l" "books_agree H l st" by (auto simp: books_ok_def)
  let ?l = "fst (signup H (cc_settings cfg) c n pw now l)"
  have keeps: "halted ?l = halted l" "corders ?l = corders l" "ids l \<subseteq> ids ?l"
    "\<forall>x. snd (signup H (cc_settings cfg) c n pw now l) = Inr x \<longrightarrow> p_id x \<in> ids ?l"
    using signup_keeps [where H = H and cfg = "cc_settings cfg" and c = c and n = n and pw = pw and now = now and l = l] unfolding ids_def by (simp_all add: image_mono)
  with signup_ok [OF st(1) assms(2) st(2), of c n pw now] assms(1) show ?thesis
    by (auto simp: books_ok_def intro: order_typed_mono)
qed

lemma invites_halted: "insert_invites now cs l = Inr l' \<Longrightarrow> halted l' = halted l"
  by (induction now cs l rule: insert_invites.induct) (auto split: if_splits)

lemma invites_books:
  assumes "books_ok cfg H l" "settings_ok (cc_settings cfg)"
  shows "books_ok cfg H (fst (create_invites cs now l)) \<and> ids (fst (create_invites cs now l)) = ids l"
proof -
  from assms(1) obtain st where st: "contest_ok l" "books_agree H l st" by (auto simp: books_ok_def)
  have "participants (fst (create_invites cs now l)) = participants l" "corders (fst (create_invites cs now l)) = corders l"
    "halted (fst (create_invites cs now l)) = halted l"
    by (cases "insert_invites now cs l"; simp add: create_invites_def insert_invites_same invites_halted)+
  with contest_step_ok [OF st(1) assms(2) st(2), of "Invites cs" now] assms(1) show ?thesis
    by (simp add: books_ok_def ids_def)
qed

lemma park_ok: "service_ok cfg H v \<Longrightarrow> pending_ok cfg (ids (sv_ledger v)) p \<Longrightarrow> service_ok cfg H (fst (park p v))"
  by (auto simp: service_ok_def park_def waiting_ok_def)

lemma count_ok [simp]: "service_ok cfg H (count_result r v) = service_ok cfg H v"
  by (simp add: service_ok_def count_result_def)

lemma price_ok [simp]: "service_ok cfg H (price_arrived sy p now v) = service_ok cfg H v"
  by (simp add: service_ok_def price_arrived_def)

lemma price_ledger [simp]: "sv_ledger (price_arrived sy p now v) = sv_ledger v"
  by (simp add: price_arrived_def)

lemma guarded_ok:
  assumes "service_ok cfg H v" "guarded w hdr cookie now v = (v1, r)"
  shows "service_ok cfg H v1 \<and> sv_ledger v1 = sv_ledger v \<and> (\<forall>pid. r = Inr pid \<longrightarrow> pid \<in> ids (sv_ledger v))"
proof -
  obtain ss who where s: "session_subject (cookie_value cookie COOKIE) now (sv_sessions v) = (ss, who)" by fastforce
  from assms(1) have "sessions_ok (ids (sv_ledger v)) (sv_sessions v)" by (simp add: service_ok_def)
  from sessions_subject [OF this s] assms show ?thesis
    by (cases who) (auto simp: guarded_def s service_ok_def split: if_splits)
qed

lemma guarded_admin_ok:
  "service_ok cfg H v \<Longrightarrow> guarded_admin w hdr cookie now v = (v1, r) \<Longrightarrow> service_ok cfg H v1 \<and> sv_ledger v1 = sv_ledger v"
  by (auto simp: guarded_admin_def service_ok_def split: if_splits prod.splits)

lemma ledger_changed:
  assumes "service_ok cfg H v" "books_ok cfg H l" "ids (sv_ledger v) \<subseteq> ids l"
  shows "service_ok cfg H (v\<lparr>sv_ledger := l\<rparr>)"
  using assms by (auto simp: service_ok_def intro: sessions_mono waiting_mono)

lemma place_at_ok:
  assumes "service_ok cfg H v" "settings_ok (cc_settings cfg)" "order_typed cfg (ids (sv_ledger v)) pid cid sy q"
  shows "service_ok cfg H (fst (place_at H cfg pid cid sy sd q p wall v))"
proof -
  obtain l r where pl: "place H (cc_settings cfg) pid cid sy sd q p wall (sv_ledger v) = (l, r)" by fastforce
  have "books_ok cfg H (sv_ledger v)" using assms(1) by (simp add: service_ok_def)
  from place_books [OF this assms(2,3), of sd p wall] pl have "books_ok cfg H l" by simp
  moreover have "ids l = ids (sv_ledger v)"
    using place_keeps(1) [of H "cc_settings cfg" pid cid sy sd q p wall "sv_ledger v"] pl by (simp add: ids_def)
  ultimately have "service_ok cfg H (v\<lparr>sv_ledger := l\<rparr>)" using assms(1) by (intro ledger_changed) simp_all
  then show ?thesis by (auto simp: place_at_def pl split: sum.split bool.split)
qed

lemma submit_begin_ok:
  assumes "service_ok cfg H v" "settings_ok (cc_settings cfg)"
  shows "service_ok cfg H (fst (submit_begin H cfg hdr cookie body t now wall v))"
proof -
  obtain v1 r where g: "guarded True hdr cookie now v = (v1, r)" by fastforce
  note ok = guarded_ok [OF assms(1) g]
  show ?thesis
  proof (cases r)
    case (Inl x)
    then show ?thesis using ok by (simp add: submit_begin_def g)
  next
    case (Inr pid)
    have pid: "pid \<in> ids (sv_ledger v1)" using ok Inr by simp
    have "service_ok cfg H (fst (park (AwaitingPrice pid cid sy sd q) v1))" if "order_typed cfg (ids (sv_ledger v1)) pid cid sy q" for cid sy sd q
      using ok that by (intro park_ok) simp_all
    moreover have "service_ok cfg H (fst (place_at H cfg pid cid sy sd q p wall v1))" if "order_typed cfg (ids (sv_ledger v1)) pid cid sy q" for cid sy sd q p
      using ok that assms(2) by (intro place_at_ok) simp_all
    ultimately show ?thesis using ok pid Inr
      by (simp add: submit_begin_def g order_typed_def split: option.split)
  qed
qed

lemma login_failed_ok [simp]: "service_ok cfg H (fst (login_failed n now v)) = service_ok cfg H v"
  by (simp add: login_failed_def service_ok_def)

lemma login_begin_ok:
  assumes "service_ok cfg H v"
  shows "service_ok cfg H (fst (login_begin hdr n pw now v))"
proof -
  have same: "service_ok cfg H (v\<lparr>sv_throttles := x\<rparr>)" for x using assms by (simp add: service_ok_def)
  have "pid \<in> ids (sv_ledger v)" if "credentials (sv_ledger v) n = Some (pid, h)" for pid h
    using that find_SomeD by (fastforce simp: credentials_def ids_def)
  then show ?thesis
    using assms same by (auto simp: login_begin_def Let_def split: option.split intro!: park_ok)
qed

lemma wake_ok:
  assumes "service_ok (ce_cfg E) (ce_hash E) v" "settings_ok (cc_settings (ce_cfg E))" "pending_ok (ce_cfg E) (ids (sv_ledger v)) p"
  shows "service_ok (ce_cfg E) (ce_hash E) (fst (wake E p w v))"
proof (cases p)
  case (HashingPassword c n pw)
  obtain l r where s: "signup (ce_hash E) (cc_settings (ce_cfg E)) c n (hash_password (ce_kdf E) (wk_salt w) pw ITERATIONS) (wk_wall w) (sv_ledger v) = (l, r)"
    by fastforce
  have "books_ok (ce_cfg E) (ce_hash E) (sv_ledger v)" using assms(1) by (simp add: service_ok_def)
  from signup_books [OF this assms(2), of c n "hash_password (ce_kdf E) (wk_salt w) pw ITERATIONS" "wk_wall w"]
  have b: "books_ok (ce_cfg E) (ce_hash E) l" "ids (sv_ledger v) \<subseteq> ids l" "\<forall>x. r = Inr x \<longrightarrow> p_id x \<in> ids l" unfolding s by simp_all
  have "service_ok (ce_cfg E) (ce_hash E) (v\<lparr>sv_ledger := l\<rparr>)" using assms(1) b(1,2) by (rule ledger_changed)
  then show ?thesis using b(3)
    by (auto simp: HashingPassword wake_def signup_end_def s service_ok_def split: sum.split contest_error.split intro: sessions_create)
next
  case (CheckingPassword n pid h pw)
  then show ?thesis using assms
    by (auto simp: wake_def login_end_def) (auto simp: service_ok_def intro: sessions_create)
next
  case (CheckingAdmin pw)
  then show ?thesis using assms by (simp add: wake_def admin_login_end_def service_ok_def)
next
  case (AwaitingPrice pid cid sy sd q)
  then show ?thesis using assms place_at_ok [of "ce_cfg E" "ce_hash E" "price_arrived sy _ (wk_now w) v"]
    by (auto simp: wake_def submit_end_def split: answer.split)
qed

lemma serve_ok:
  assumes "service_ok (ce_cfg E) (ce_hash E) v" "settings_ok (cc_settings (ce_cfg E))"
  shows "service_ok (ce_cfg E) (ce_hash E) (fst (serve E e v))"
proof (cases e)
  case (SignUp hdr c n pw)
  then show ?thesis using assms by (simp add: signup_begin_def park_ok)
next
  case (LogIn hdr n pw now)
  then show ?thesis using login_begin_ok [OF assms(1)] by simp
next
  case (LogOut hdr cookie now)
  obtain v1 r where g: "guarded True hdr cookie now v = (v1, r)" by fastforce
  from guarded_ok [OF assms(1) g] LogOut g show ?thesis
    by (auto simp: logout_def service_ok_def session_revoke_def sessions_delete split: sum.split)
next
  case (SubmitOrder hdr cookie body t now wall)
  then show ?thesis using submit_begin_ok [OF assms] by simp
next
  case (Look cookie now)
  obtain v1 r where g: "guarded False False cookie now v = (v1, r)" by fastforce
  from guarded_ok [OF assms(1) g] Look g show ?thesis by simp
next
  case (AdminLogIn hdr pw now)
  then show ?thesis using assms by (simp add: admin_login_begin_def park_ok)
next
  case (CreateInvites hdr cookie n codes now wall)
  obtain v1 r where g: "guarded_admin True hdr cookie now v = (v1, r)" by fastforce
  note ok = guarded_admin_ok [OF assms(1) g]
  have books: "books_ok (ce_cfg E) (ce_hash E) (sv_ledger v1)" using conjunct1 [OF ok] by (simp add: service_ok_def)
  have "service_ok (ce_cfg E) (ce_hash E) (v1\<lparr>sv_ledger := l\<rparr>)" if "create_invites cs wall (sv_ledger v1) = (l, x)" for cs l x
    using invites_books [OF books assms(2), of cs wall] ok that by (intro ledger_changed) simp_all
  then show ?thesis using ok CreateInvites g
    by (auto simp: admin_create_invites_def split: option.split prod.split sum.split)
next
  case (ResumeTrading hdr cookie now)
  obtain v1 r where g: "guarded_admin True hdr cookie now v = (v1, r)" by fastforce
  note ok = guarded_admin_ok [OF assms(1) g]
  have "halted (sv_ledger v1) = None" using conjunct1 [OF ok] by (simp add: service_ok_def books_ok_def)
  then have "sv_ledger v1\<lparr>halted := None\<rparr> = sv_ledger v1" by simp
  then show ?thesis using ok ResumeTrading g
    by (auto simp: admin_resume_def Let_def ContestLedger.resume_def service_ok_def split: option.split)
next
  case (CheckBooks now)
  have "integrity (ce_hash E) (sv_ledger v) = []"
    using assms(1) books_agree_integrity by (auto simp: service_ok_def books_ok_def)
  then show ?thesis using assms(1) CheckBooks by (simp add: integrity_once_def service_ok_def)
next
  case (PriceSeen sy p now)
  then show ?thesis using assms(1) by simp
next
  case (Wake i w)
  show ?thesis
  proof (cases "map_of (sv_waiting v) i")
    case None
    then show ?thesis using assms(1) Wake by simp
  next
    case (Some p)
    have "service_ok (ce_cfg E) (ce_hash E) (v\<lparr>sv_waiting := AList.delete i (sv_waiting v)\<rparr>)"
      using assms(1) by (auto simp: service_ok_def waiting_ok_def AList.delete_eq)
    moreover have "pending_ok (ce_cfg E) (ids (sv_ledger v)) p"
      using assms(1) map_of_SomeD [OF Some] by (auto simp: service_ok_def waiting_ok_def)
    ultimately show ?thesis using wake_ok [OF _ assms(2), of "v\<lparr>sv_waiting := AList.delete i (sv_waiting v)\<rparr>" p w] Some Wake by simp
  qed
qed

lemma service_always_ok:
  assumes "settings_ok (cc_settings (ce_cfg E))"
  shows "service_ok (ce_cfg E) (ce_hash E) (run_service E es)"
proof (induction es rule: rev_induct)
  case Nil
  have "contest_ok empty_contest" "\<exists>st. books_agree (ce_hash E) empty_contest st"
    using run_contest_ok [OF assms, of "ce_hash E" "[]"] by (simp_all add: run_contest_def)
  then show ?case by (simp add: run_service_def new_service_def service_ok_def books_ok_def sessions_ok_def waiting_ok_def empty_contest_def)
next
  case (snoc e es)
  then show ?case using serve_ok [OF _ assms] by (simp add: run_service_def)
qed

text \<open>
  C29: every row of the order table is of the service's type. In every run, whatever requests come in whatever
  order and whatever is answered to them late, each order belongs to a participant, carries a well-formed
  client order id, a symbol that is six decimal digits (of any script, as \<^verbatim>\<open>\d\<close> reads them, with perhaps a newline
after them, as \<^verbatim>\<open>$\<close> allows), and a quantity between one and the limit.
\<close>

theorem orders_well_typed:
  assumes "settings_ok (cc_settings (ce_cfg E))" "r \<in> set (corders (sv_ledger (run_service E es)))"
  shows "c_pid r \<in> p_id ` set (participants (sv_ledger (run_service E es))) \<and> client_id_ok (c_client_id r) \<and> symbol_ok (c_symbol r)
    \<and> 1 \<le> c_qty r \<and> c_qty r \<le> cc_max_qty (ce_cfg E)"
  using service_always_ok [OF assms(1), of es] assms(2) by (auto simp: service_ok_def books_ok_def order_typed_def ids_def)

text \<open>
  C14: the service never stops its own contest. In every run the reconciliation of the ledger finds nothing, no
  break is shown and trading is not halted, the money and shares are there, and every session and every waiting
  order is that of a participant.
\<close>

theorem service_stays_open:
  assumes "settings_ok (cc_settings (ce_cfg E))"
  shows "integrity (ce_hash E) (sv_ledger (run_service E es)) = [] \<and> sv_breaks (run_service E es) = []
    \<and> halted (sv_ledger (run_service E es)) = None \<and> contest_ok (sv_ledger (run_service E es))
    \<and> (\<forall>(tok, created, used, pid) \<in> set (sv_sessions (run_service E es)). pid \<in> p_id ` set (participants (sv_ledger (run_service E es))))"
  using service_always_ok [OF assms, of es] books_agree_integrity
  by (auto simp: service_ok_def books_ok_def sessions_ok_def ids_def)

subsection \<open>A short contest\<close>

text \<open>The operator logs in and makes a code, Ann signs up and buys; a second order comes back with the price after its answer was lost.\<close>

definition demo_config :: contest_config where
  "demo_config = \<lparr>cc_settings = sample_settings, cc_max_qty = 10, cc_start = [], cc_end = [], cc_off_hours = True, cc_admin_hash = ''pbkdf2_sha256$1$$''\<rparr>"

definition demo_contest :: contest_env where
  "demo_contest = \<lparr>ce_cfg = demo_config, ce_hash = (\<lambda>p t i e. ''h''), ce_kdf = (\<lambda>pw salt n. [])\<rparr>"

definition demo_wake :: wakeup where
  "demo_wake = \<lparr>wk_answer = Answer 100, wk_salt = [], wk_token = ''t'', wk_now = 0, wk_wall = 0\<rparr>"

definition demo_time :: local_time where "demo_time = \<lparr>lt_day = ''20260901'', lt_weekday = 0, lt_second = 36000\<rparr>"

definition demo_day :: "service_event list" where
  "demo_day = [AdminLogIn True ''pw'' 0, Wake 0 demo_wake, CreateInvites True ''contest_admin=t'' (Some 1) [''c''] 1 1,
     SignUp True ''c'' [97, 110, 110] (replicate 10 97), Wake 1 demo_wake,
     SubmitOrder True ''contest_session=t'' (Some \<lparr>or_cid = ''order-01'', or_symbol = ''005930'', or_side = ''buy'', or_qty = 3\<rparr>) demo_time 2 2,
     Wake 2 demo_wake]"

lemma demo_order: "map c_symbol (corders (sv_ledger (run_service demo_contest demo_day))) = [''005930'']"
proof -
  have pw: "verify_password (\<lambda>pw salt n. []) ''pw'' ''pbkdf2_sha256$1$$''"
    by (simp add: verify_password_def pbkdf2_tag_def py_int_def strip_blank_def is_blank_def is_dec_def)
  have ids: "client_id_ok ''order-01''" "symbol_ok ''005930''"
    by (simp_all add: client_id_ok_def chop_newline_def word_char_def demo_symbol)
  have cookies: "cookie_value ''contest_session=t'' COOKIE = Some ''t''" "cookie_value ''contest_admin=t'' ADMIN_COOKIE = Some ''t''"
    by (simp_all add: cookie_value_def COOKIE_def ADMIN_COOKIE_def partition_eq_def strip_blank_def is_blank_def)
  show ?thesis
    by (simp add: run_service_def demo_day_def demo_contest_def demo_config_def demo_wake_def new_service_def empty_contest_def
        admin_login_begin_def admin_login_end_def locked_for_def new_throttle_def park_def wake_def pw session_create_def
        admin_create_invites_def guarded_admin_def cookies session_check_def IDLE_TTL_S_def ABSOLUTE_TTL_S_def create_invites_def
        signup_begin_def nick_ok_def nick_char_def MIN_PASSWORD_def signup_end_def signup_def add_journal_def Let_def
        submit_begin_def guarded_def session_subject_def cside_of_def ids trading_state_def price_known_def integrity_once_def
        submit_end_def place_at_def place_def count_result_def price_arrived_def split: prod.split)
qed

theorem service_stays_open_witness:
  "integrity (\<lambda>p t i e. ''h'') (sv_ledger (run_service demo_contest demo_day)) = [] \<and> halted (sv_ledger (run_service demo_contest demo_day)) = None"
proof -
  have "settings_ok (cc_settings (ce_cfg demo_contest))" by (simp add: demo_contest_def demo_config_def settings_ok_def sample_settings_def)
  from service_stays_open [OF this, of demo_day] show ?thesis by (simp add: demo_contest_def)
qed

theorem orders_well_typed_witness:
  "\<exists>r \<in> set (corders (sv_ledger (run_service demo_contest demo_day))). symbol_ok (c_symbol r) \<and> 1 \<le> c_qty r \<and> c_qty r \<le> 10"
proof -
  have cfg: "settings_ok (cc_settings (ce_cfg demo_contest))" by (simp add: demo_contest_def demo_config_def settings_ok_def sample_settings_def)
  obtain r where "r \<in> set (corders (sv_ledger (run_service demo_contest demo_day)))"
    using demo_order by (cases "corders (sv_ledger (run_service demo_contest demo_day))") auto
  with orders_well_typed [OF cfg this] show ?thesis by (auto simp: demo_contest_def demo_config_def)
qed

subsection \<open>What the service does not prevent\<close>

text \<open>
  The limit on guesses counts failures when they are known: requests that arrive before the first
  check is done are all checked, however many they are.
\<close>

lemma parallel_guesses:
  assumes "credentials (sv_ledger v) n = Some (pid, h)" "\<not> 0 < locked_for now (throttle_of v n)"
  shows "map snd (sv_waiting (fold (\<lambda>pw v. fst (login_begin True n pw now v)) pws v))
    = map snd (sv_waiting v) @ map (CheckingPassword n pid h) pws"
  using assms
proof (induction pws arbitrary: v)
  case (Cons pw pws)
  let ?v = "fst (login_begin True n pw now v)"
  have "throttle_of (v\<lparr>sv_throttles := AList.update n (throttle_of v n) (sv_throttles v)\<rparr>) n = throttle_of v n"
    by (simp add: throttle_of_def update_conv' split: option.split)
  then have v: "?v = fst (park (CheckingPassword n pid h pw) (v\<lparr>sv_throttles := AList.update n (throttle_of v n) (sv_throttles v)\<rparr>))"
    using Cons.prems by (simp add: login_begin_def Let_def)
  have "throttle_of ?v n = throttle_of v n" by (simp add: v park_def throttle_of_def update_conv' split: option.split)
  with Cons.IH [of ?v] Cons.prems show ?case by (simp add: v park_def)
qed simp

text \<open>Failures are counted by the name given, so five wrong passwords of anyone lock the participant of that name out.\<close>

lemma stranger_locks_out:
  assumes "throttle_of v n = new_throttle"
  shows "snd (login_begin True n pw now (((\<lambda>v. fst (login_failed n now v)) ^^ 5) v)) = Some (429, LockedOut LOCK_S)"
proof -
  have step: "throttle_of (fst (login_failed n now u)) n = login_fail now (throttle_of u n)" for u
    by (simp add: login_failed_def throttle_of_def update_conv')
  have "throttle_of (((\<lambda>v. fst (login_failed n now v)) ^^ 5) v) n = \<lparr>fails = [], locked_until = now + LOCK_S\<rparr>"
    by (simp add: step assms numeral_eq_Suc new_throttle_def login_fail_def FAIL_LIMIT_def FAIL_WINDOW_S_def Let_def)
  moreover have "throttle_of (u\<lparr>sv_throttles := AList.update n x (sv_throttles u)\<rparr>) n = x" for u x
    by (simp add: throttle_of_def update_conv')
  ultimately show ?thesis by (simp add: login_begin_def Let_def locked_for_def LOCK_S_def)
qed

text \<open>An order that waits for its price is filled although trading was halted meanwhile: the price comes after the check.\<close>

lemma halt_overtaken:
  "snd (submit_end H cfg (Answer p) now wall pid cid sy sd q (v\<lparr>sv_ledger := halt why (sv_ledger v)\<rparr>))
   = snd (submit_end H cfg (Answer p) now wall pid cid sy sd q v)"
proof -
  have eq: "snd (place H c pid cid sy sd q p wall (halt why l)) = snd (place H c pid cid sy sd q p wall l)" for c l
    by (simp add: place_def halt_def position_of_def Let_def split: option.split prod.split)
  obtain l1 x where x: "place H (cc_settings cfg) pid cid sy sd q p wall (sv_ledger v) = (l1, x)" by fastforce
  then obtain l2 where y: "place H (cc_settings cfg) pid cid sy sd q p wall (halt why (sv_ledger v)) = (l2, x)"
    using eq [of "cc_settings cfg" "sv_ledger v"] by (cases "place H (cc_settings cfg) pid cid sy sd q p wall (halt why (sv_ledger v))") simp
  show ?thesis
    by (simp add: submit_end_def place_at_def price_arrived_def x y split: sum.split bool.split)
qed

text \<open>The first submission is found by its client order id only after the hours are checked: a retry after the close is refused.\<close>

lemma retry_after_close:
  assumes "guarded True True cookie now v = (v1, Inr pid)" "cside_of (or_side r) = Some sd" "client_id_ok (or_cid r)" "symbol_ok (or_symbol r)"
    and "1 \<le> or_qty r" "or_qty r \<le> cc_max_qty cfg" "trading_state cfg t (sv_ledger v1) = Some why"
  shows "\<exists>code. snd (submit_begin H cfg True cookie (Some r) t now wall v) = Some (code, TradingClosed why)"
  using assms by (auto simp: submit_begin_def)

text \<open>The refusal names 15:30 as the end of the hours; the test uses the end of the closing auction.\<close>

lemma open_after_half_past: "market_is_open \<lparr>lt_day = d, lt_weekday = 0, lt_second = 15 * 3600 + 35 * 60\<rparr>"
  by (simp add: market_is_open_def MARKET_OPEN_S_def MARKET_CLOSE_S_def)

text \<open>The equity of an account is the one the leaderboard shows.\<close>

lemma account_matches_board:
  assumes "map_of (accounts (sv_ledger v)) (p_id p) = Some cash"
  shows "account_equity (p_id p) v = Inr (equity (board_row_of cfg (sv_ledger v) (sv_prices v) (p, cash)))"
proof -
  let ?ps = "positive_positions (sv_ledger v) (p_id p)"
  have one: "(case map_of (sv_prices v) sy of Some x \<Rightarrow> if x \<noteq> 0 then q * x else cost | None \<Rightarrow> cost)
      = value_position (sv_prices v) (sy, q, cost)" for sy q cost
    by (simp add: value_position_def dict_get_def split: option.split)
  have "fold (\<lambda>(sy, q, cost) e. e + value_position (sv_prices v) (sy, q, cost)) xs c = c + sum_list (map (value_position (sv_prices v)) xs)" for xs c
    by (induction xs arbitrary: c) auto
  moreover have "sum_list (map f (sort_key fst ?ps)) = sum_list (map f ?ps)" for f :: "string \<times> int \<times> int \<Rightarrow> int"
    by (metis mset_map mset_sort sum_mset_sum_list)
  ultimately show ?thesis
    using assms by (simp add: account_equity_def account_def one board_row_of_def Let_def)
qed
end
