(* ===== verification/Supervisor.thy ===== *)
theory Supervisor
  imports Prelude
begin

section \<open>The supervisor of the long-running tasks\<close>

text \<open>
  Models \<^verbatim>\<open>src/mdfeed/supervisor.py\<close>: the tasks a service keeps, what the supervising loop does when one ends
  (it returned, was cancelled or raised), the pause before the restart, the report and the shutdown. An
  event is the end of a task's coroutine, the end of a pause or its cancellation, or the stop request;
  times are exact. Logging is not modelled; \<open>restarts_total\<close> is the registry's counter.
\<close>

definition RESTART_BACKOFF_MAX_S :: seconds where "RESTART_BACKOFF_MAX_S = 30"

datatype ending = Returned | Cancelled | Raised string

datatype last_exit = Stopped | ReturnedEarly | CancelledAtStop | CancelledEarly | Died string

text \<open>Where the supervising loop of a task is.\<close>

datatype phase = Running | Pausing | Ended

record task =
  tk_phase :: phase
  tk_backoff :: seconds
  tk_restarts :: nat
  tk_started_at :: seconds
  tk_last_exit :: "last_exit option"
  tk_alive :: bool
  tk_restart :: bool

record supervisor =
  sp_tasks :: "(string \<times> task) list"
  sp_stop :: bool
  sp_backoff_max :: seconds
  restarts_total :: nat

definition new_supervisor :: "seconds \<Rightarrow> supervisor" where
  "new_supervisor m = \<lparr>sp_tasks = [], sp_stop = False, sp_backoff_max = m, restarts_total = 0\<rparr>"

text \<open>The loop is entered only while there is no stop request.\<close>

definition new_task :: "bool \<Rightarrow> bool \<Rightarrow> seconds \<Rightarrow> task" where
  "new_task stop restart now = \<lparr>tk_phase = (if stop then Ended else Running), tk_backoff = 1 / 2, tk_restarts = 0, tk_started_at = now,
     tk_last_exit = None, tk_alive = True, tk_restart = restart\<rparr>"

definition spawn :: "string \<Rightarrow> bool \<Rightarrow> seconds \<Rightarrow> supervisor \<Rightarrow> supervisor" where
  "spawn name restart now s = s\<lparr>sp_tasks := AList.update name (new_task (sp_stop s) restart now) (sp_tasks s)\<rparr>"

text \<open>The coroutine ends; \<open>True\<close>: the restart was counted.\<close>

definition task_ends :: "bool \<Rightarrow> ending \<Rightarrow> task \<Rightarrow> task \<times> bool" where
  "task_ends stop e t =
     (if tk_phase t \<noteq> Running then (t, False)
      else if stop \<and> e = Returned then (t\<lparr>tk_last_exit := Some Stopped, tk_phase := Ended\<rparr>, False)
      else if stop \<and> e = Cancelled then (t\<lparr>tk_last_exit := Some CancelledAtStop, tk_phase := Ended\<rparr>, False)
      else let t1 = t\<lparr>tk_last_exit := Some (case e of Returned \<Rightarrow> ReturnedEarly | Cancelled \<Rightarrow> CancelledEarly | Raised x \<Rightarrow> Died x),
                      tk_alive := False\<rparr> in
        if \<not> tk_restart t \<or> stop then (t1\<lparr>tk_phase := Ended\<rparr>, False)
        else (t1\<lparr>tk_restarts := tk_restarts t + 1, tk_phase := Pausing\<rparr>, True))"

text \<open>The pause ends by its timeout or by the stop request.\<close>

definition pause_ends :: "bool \<Rightarrow> seconds \<Rightarrow> task \<Rightarrow> task" where
  "pause_ends stop m t =
     (if tk_phase t \<noteq> Pausing then t
      else let t1 = t\<lparr>tk_backoff := min (tk_backoff t * 2) m\<rparr> in
        if stop then t1\<lparr>tk_phase := Ended\<rparr> else t1\<lparr>tk_phase := Running, tk_alive := True\<rparr>)"

text \<open>A cancellation during the pause: only \<^verbatim>\<open>TimeoutError\<close> is suppressed there.\<close>

definition pause_cancelled :: "task \<Rightarrow> task" where
  "pause_cancelled t = (if tk_phase t \<noteq> Pausing then t else t\<lparr>tk_phase := Ended\<rparr>)"

definition on_task :: "string \<Rightarrow> (task \<Rightarrow> task) \<Rightarrow> supervisor \<Rightarrow> supervisor" where
  "on_task name h s = (case map_of (sp_tasks s) name of None \<Rightarrow> s | Some t \<Rightarrow> s\<lparr>sp_tasks := AList.update name (h t) (sp_tasks s)\<rparr>)"

datatype sup_event = Spawn string bool seconds | End string ending | PauseOver string | PauseCancelled string | RequestStop

fun sup_step :: "sup_event \<Rightarrow> supervisor \<Rightarrow> supervisor" where
  "sup_step (Spawn name restart now) s = spawn name restart now s"
| "sup_step (End name e) s =
     (let counted = (case map_of (sp_tasks s) name of None \<Rightarrow> False | Some t \<Rightarrow> snd (task_ends (sp_stop s) e t))
      in (on_task name (fst \<circ> task_ends (sp_stop s) e) s)\<lparr>restarts_total := restarts_total s + (if counted then 1 else 0)\<rparr>)"
| "sup_step (PauseOver name) s = on_task name (pause_ends (sp_stop s) (sp_backoff_max s)) s"
| "sup_step (PauseCancelled name) s = on_task name pause_cancelled s"
| "sup_step RequestStop s = s\<lparr>sp_stop := True\<rparr>"

definition run_supervisor :: "seconds \<Rightarrow> sup_event list \<Rightarrow> supervisor" where
  "run_supervisor m es = fold sup_step es (new_supervisor m)"

record sup_report =
  rp_tasks :: "(string \<times> bool \<times> nat \<times> last_exit option \<times> seconds) list"
  rp_restarts :: nat
  rp_unstable :: "string list"

definition report :: "seconds \<Rightarrow> supervisor \<Rightarrow> sup_report" where
  "report now s =
     (let items = map (\<lambda>(n, t). (n, tk_alive t, tk_restarts t, tk_last_exit t, of_int (py_round ((now - tk_started_at t) * 10)) / 10)) (sp_tasks s)
      in \<lparr>rp_tasks = sort_key (\<lambda>(n, a, r, e, u). - int r) items, rp_restarts = sum_list (map (\<lambda>(n, a, r, e, u). r) items),
          rp_unstable = map fst (filter (\<lambda>(n, a, r, e, u). 3 < r) items)\<rparr>)"

text \<open>\<open>shutdown\<close> cancels whatever has not ended: a coroutine or a pause.\<close>

definition shutdown :: "supervisor \<Rightarrow> supervisor" where
  "shutdown s = fold (\<lambda>(n, t). case tk_phase t of Running \<Rightarrow> sup_step (End n Cancelled) | Pausing \<Rightarrow> sup_step (PauseCancelled n) | Ended \<Rightarrow> id) (sp_tasks s) s"

subsection \<open>What the supervisor guarantees\<close>

text \<open>
  A supervised task between two events: running after \<open>k\<close> restarts, or paused before the next; the pause has
  doubled with each restart up to the limit. The report calls it alive exactly while it runs.
\<close>

definition supervised :: "seconds \<Rightarrow> task \<Rightarrow> bool" where
  "supervised m t \<longleftrightarrow> (tk_alive t \<longleftrightarrow> tk_phase t = Running)
     \<and> (tk_phase t = Pausing \<longrightarrow> 0 < tk_restarts t \<and> tk_restart t) \<and> (tk_phase t = Ended \<longrightarrow> \<not> tk_restart t)
     \<and> (let k = (if tk_phase t = Pausing then tk_restarts t - 1 else tk_restarts t)
        in tk_backoff t = (if k = 0 then 1 / 2 else min (2 ^ k / 2) m))"

lemma supervised_new: "supervised m (new_task False restart now)"
  by (simp add: supervised_def new_task_def)

lemma supervised_ends: "supervised m t \<Longrightarrow> supervised m (fst (task_ends False e t))"
  by (auto simp: supervised_def task_ends_def Let_def)

lemma supervised_resumes:
  assumes "supervised m t" "0 \<le> m"
  shows "supervised m (pause_ends False m t)"
proof (cases "tk_phase t = Pausing")
  case True
  then obtain k where k: "tk_restarts t = Suc k" using assms(1) by (cases "tk_restarts t") (auto simp: supervised_def)
  have "min ((if k = 0 then 1 / 2 else min (2 ^ k / 2) m) * 2) m = min (2 ^ Suc k / 2) m"
    using assms(2) by (cases "2 ^ k / 2 \<le> m") (auto simp: min_def)
  with True k assms(1) show ?thesis by (auto simp: supervised_def pause_ends_def Let_def)
next
  case False
  then show ?thesis using assms(1) by (simp add: pause_ends_def)
qed

lemma task_in_update: "(k', x) \<in> set (AList.update k v al) \<Longrightarrow> (k', x) = (k, v) \<or> (k', x) \<in> set al"
  by (induction al) (auto split: if_splits)

definition all_tasks :: "(task \<Rightarrow> bool) \<Rightarrow> supervisor \<Rightarrow> bool" where
  "all_tasks P s \<longleftrightarrow> (\<forall>(n, t) \<in> set (sp_tasks s). P t)"

lemma all_on_task: "all_tasks P s \<Longrightarrow> (\<And>t. P t \<Longrightarrow> P (h t)) \<Longrightarrow> all_tasks P (on_task n h s)"
  by (cases "map_of (sp_tasks s) n") (auto simp: all_tasks_def on_task_def dest!: task_in_update map_of_SomeD)

lemma all_total [simp]: "all_tasks P (s\<lparr>restarts_total := x\<rparr>) = all_tasks P s"
  by (simp add: all_tasks_def)

lemma on_task_keeps [simp]: "sp_stop (on_task n h s) = sp_stop s" "sp_backoff_max (on_task n h s) = sp_backoff_max s"
  by (simp_all add: on_task_def split: option.split)

definition undisturbed :: "sup_event \<Rightarrow> bool" where
  "undisturbed e \<longleftrightarrow> (case e of RequestStop \<Rightarrow> False | PauseCancelled _ \<Rightarrow> False | _ \<Rightarrow> True)"

lemma run_supervised:
  assumes "0 \<le> m" "list_all undisturbed es"
  shows "all_tasks (supervised m) (run_supervisor m es) \<and> \<not> sp_stop (run_supervisor m es) \<and> sp_backoff_max (run_supervisor m es) = m"
  using assms(2)
proof (induction es rule: rev_induct)
  case Nil
  show ?case by (simp add: run_supervisor_def new_supervisor_def all_tasks_def)
next
  case (snoc e es)
  let ?s = "run_supervisor m es"
  have IH: "all_tasks (supervised m) ?s" "\<not> sp_stop ?s" "sp_backoff_max ?s = m" using snoc by simp_all
  have run: "run_supervisor m (es @ [e]) = sup_step e ?s" by (simp add: run_supervisor_def)
  show ?case
  proof (cases e)
    case (Spawn n restart now)
    show ?thesis unfolding run unfolding Spawn using IH by (auto simp: spawn_def all_tasks_def supervised_new dest!: task_in_update)
  next
    case (End n x)
    show ?thesis unfolding run unfolding End using IH all_on_task [OF IH(1), of "fst \<circ> task_ends False x" n]
      by (simp add: supervised_ends Let_def)
  next
    case (PauseOver n)
    show ?thesis unfolding run unfolding PauseOver using IH all_on_task [OF IH(1), of "pause_ends False m" n] supervised_resumes [OF _ assms(1)]
      by simp
  qed (use snoc.prems in \<open>simp_all add: undisturbed_def\<close>)
qed



subsection \<open>What it does not\<close>

text \<open>A cancellation that arrives during the pause ends the supervision for good, although no stop was requested.\<close>

lemma pause_cancelled_dead:
  assumes "tk_phase t = Pausing"
  shows "tk_phase (pause_cancelled t) = Ended \<and> tk_restart (pause_cancelled t) = tk_restart t
    \<and> pause_ends False m (pause_cancelled t) = pause_cancelled t \<and> fst (task_ends False e (pause_cancelled t)) = pause_cancelled t"
  using assms by (simp add: pause_cancelled_def pause_ends_def task_ends_def)

text \<open>A shutdown without the stop request restarts what it cancels.\<close>

lemma shutdown_restarts:
  assumes "sp_tasks s = [(n, t)]" "tk_phase t = Running" "tk_restart t" "\<not> sp_stop s"
  shows "\<exists>t'. sp_tasks (shutdown s) = [(n, t')] \<and> tk_phase t' = Pausing"
  using assms by (simp add: shutdown_def on_task_def task_ends_def Let_def)

text \<open>A second task of one name takes the place of the first, which is no longer held or reported.\<close>

lemma same_name_forgotten:
  "map_of (sp_tasks (spawn n restart now s)) n = Some (new_task (sp_stop s) restart now)"
  "length (sp_tasks (spawn n restart now s)) = (if n \<in> fst ` set (sp_tasks s) then length (sp_tasks s) else length (sp_tasks s) + 1)"
proof -
  have "length (AList.update k v al) = (if k \<in> fst ` set al then length al else length al + 1)" for k v and al :: "(string \<times> task) list"
    by (induction al) auto
  then show "length (sp_tasks (spawn n restart now s)) = (if n \<in> fst ` set (sp_tasks s) then length (sp_tasks s) else length (sp_tasks s) + 1)"
    by (simp add: spawn_def)
qed (simp add: spawn_def update_conv')

end
