(* ===== verification/Quality.thy ===== *)
theory Quality
  imports Indicators Protocol Json "HOL-Library.AList" "HOL-Library.Multiset"
begin

section \<open>Data quality checks\<close>

text \<open>
  Models \<^verbatim>\<open>src/mdfeed/quality.py\<close> (the five checks and the monitor that runs them) and the receiving,
  buffering and reporting parts of \<^verbatim>\<open>src/mdfeed/services/quality.py\<close>. Prices, percentages and seconds are
  exact rationals (no NaN or infinity); the prose of an event is the \<open>detail\<close> constructor with the numbers
  it prints. The wall clock that the stale check reads is an argument.
\<close>

subsection \<open>Events\<close>

datatype severity = Warning | Critical

fun sev_text :: "severity \<Rightarrow> string" where
  "sev_text Warning = ''WARNING''"
| "sev_text Critical = ''CRITICAL''"

datatype ohlc_fault = LowOverOpen rat rat | LowOverClose rat rat | HighUnderOpen rat rat | HighUnderClose rat rat
  | HighUnderLow rat rat

datatype detail =
    AfterGap rat rat rat rat
  | OneTick rat rat rat rat
  | Unusual rat rat
  | Crossed rat rat
  | WideSpread rat
  | SameRecord rat nat rat
  | OhlcFaults "ohlc_fault list"
  | RatesApart rat rat "(string \<times> rat) list"

record quality_event =
  qe_ts :: int
  qe_check :: string
  qe_severity :: severity
  qe_venue :: text_u
  qe_symbol :: text_u
  qe_detail :: detail
  qe_value :: rat

text \<open>The key \<^verbatim>\<open>f"{venue}:{symbol}"\<close> under which every check keeps its state.\<close>

definition tick_key :: "text_u \<Rightarrow> text_u \<Rightarrow> text_u" where
  "tick_key v s = v @ asc '':'' @ s"

subsection \<open>Price jumps\<close>

definition JUMP_NAME :: string where "JUMP_NAME = ''price_jump''"

record jump_checker =
  abs_pct :: rat
  sigma :: rat
  window :: nat
  max_gap_s :: rat
  last_tick :: "text_u \<rightharpoonup> rat \<times> int"
  moves :: "text_u \<rightharpoonup> rat list"
  ref_resets :: nat
  ref_resets_by_venue :: "(text_u \<times> nat) list"

definition new_jump :: "rat \<Rightarrow> rat \<Rightarrow> nat \<Rightarrow> rat \<Rightarrow> jump_checker" where
  "new_jump a s w g = \<lparr>abs_pct = a, sigma = s, window = w, max_gap_s = g, last_tick = Map.empty, moves = Map.empty,
     ref_resets = 0, ref_resets_by_venue = []\<rparr>"

definition move_pct :: "rat \<Rightarrow> rat \<Rightarrow> rat" where
  "move_pct prev price = \<bar>price - prev\<bar> / prev * 100"

definition count_key :: "'k \<Rightarrow> ('k \<times> nat) list \<Rightarrow> ('k \<times> nat) list" where
  "count_key k al = AList.update k ((case map_of al k of None \<Rightarrow> 0 | Some n \<Rightarrow> n) + 1) al"

definition median :: "rat list \<Rightarrow> rat" where
  "median xs = sort xs ! (length xs div 2)"

definition typical_move :: "rat list \<Rightarrow> rat option" where
  "typical_move ms = (if length ms \<ge> 16 then Some (median ms) else None)"

definition jump_after_gap :: "jump_checker \<Rightarrow> text_u \<Rightarrow> text_u \<Rightarrow> rat \<Rightarrow> int \<Rightarrow> rat \<Rightarrow> rat \<Rightarrow> jump_checker \<times> quality_event option" where
  "jump_after_gap j v s price ts prev gap_s =
     (let k = tick_key v s; pct = move_pct prev price;
          j1 = j\<lparr>ref_resets := ref_resets j + 1, ref_resets_by_venue := count_key v (ref_resets_by_venue j),
                 moves := (moves j)(k := None)\<rparr>
      in (j1, if pct \<ge> abs_pct j
              then Some \<lparr>qe_ts = ts, qe_check = JUMP_NAME, qe_severity = Warning, qe_venue = v, qe_symbol = s,
                qe_detail = AfterGap gap_s pct prev price, qe_value = pct\<rparr> else None))"

definition jump_one_tick :: "jump_checker \<Rightarrow> text_u \<Rightarrow> text_u \<Rightarrow> rat \<Rightarrow> int \<Rightarrow> rat \<Rightarrow> int \<Rightarrow> jump_checker \<times> quality_event option" where
  "jump_one_tick j v s price ts prev prev_ts =
     (let k = tick_key v s; pct = move_pct prev price;
          ms = (case moves j k of None \<Rightarrow> [] | Some ms \<Rightarrow> ms);
          j1 = j\<lparr>moves := (moves j)(k \<mapsto> deque_append (window j) ms pct)\<rparr>
      in (j1,
          if pct \<ge> abs_pct j
          then Some \<lparr>qe_ts = ts, qe_check = JUMP_NAME, qe_severity = Critical, qe_venue = v, qe_symbol = s,
            qe_detail = OneTick pct prev price (of_int (ts - prev_ts) / 10 ^ 9), qe_value = pct\<rparr>
          else case typical_move ms of None \<Rightarrow> None
            | Some t \<Rightarrow> if t > 0 \<and> pct > max (t * sigma j) (1 / 2)
                then Some \<lparr>qe_ts = ts, qe_check = JUMP_NAME, qe_severity = Warning, qe_venue = v, qe_symbol = s,
                  qe_detail = Unusual pct t, qe_value = pct\<rparr> else None))"

definition jump_check :: "jump_checker \<Rightarrow> text_u \<Rightarrow> text_u \<Rightarrow> rat \<Rightarrow> int \<Rightarrow> jump_checker \<times> quality_event option" where
  "jump_check j v s price ts =
     (let k = tick_key v s; j1 = j\<lparr>last_tick := (last_tick j)(k \<mapsto> (price, ts))\<rparr> in
      case last_tick j k of None \<Rightarrow> (j1, None)
      | Some (prev, prev_ts) \<Rightarrow>
          if prev \<le> 0 \<or> price \<le> 0 then (j1, None)
          else let gap_s = of_int \<bar>ts - prev_ts\<bar> / 10 ^ 9 in
            if gap_s > max_gap_s j then jump_after_gap j1 v s price ts prev gap_s
            else jump_one_tick j1 v s price ts prev prev_ts)"

subsection \<open>Quotes\<close>

definition QUOTE_NAME :: string where "QUOTE_NAME = ''quote_sanity''"

definition quote_check :: "rat \<Rightarrow> text_u \<Rightarrow> text_u \<Rightarrow> rat \<Rightarrow> rat \<Rightarrow> int \<Rightarrow> quality_event option" where
  "quote_check max_spread_bp v s b a ts =
     (if b \<le> 0 \<or> a \<le> 0 then None
      else if b > a then Some \<lparr>qe_ts = ts, qe_check = QUOTE_NAME, qe_severity = Critical, qe_venue = v, qe_symbol = s,
        qe_detail = Crossed b a, qe_value = (b - a) / a * 10000\<rparr>
      else let m = (b + a) / 2; sp = (a - b) / m * 10000 in
        if sp > max_spread_bp then Some \<lparr>qe_ts = ts, qe_check = QUOTE_NAME, qe_severity = Warning, qe_venue = v,
          qe_symbol = s, qe_detail = WideSpread sp, qe_value = sp\<rparr> else None)"

subsection \<open>The same record again and again\<close>

definition STALE_NAME :: string where "STALE_NAME = ''stale_value''"

record stale_checker =
  after_s :: rat
  min_updates :: nat
  st_state :: "text_u \<rightharpoonup> (rat \<times> int) \<times> rat \<times> nat"
  st_fired :: "text_u set"

definition new_stale :: "rat \<Rightarrow> nat \<Rightarrow> stale_checker" where
  "new_stale a m = \<lparr>after_s = a, min_updates = m, st_state = Map.empty, st_fired = {}\<rparr>"

definition stale_check :: "stale_checker \<Rightarrow> text_u \<Rightarrow> text_u \<Rightarrow> rat \<Rightarrow> int \<Rightarrow> rat \<Rightarrow> stale_checker \<times> quality_event option" where
  "stale_check c v s price ts now =
     (let k = tick_key v s; ident = (price, ts);
          fresh = (c\<lparr>st_state := (st_state c)(k \<mapsto> (ident, now, 1)), st_fired := st_fired c - {k}\<rparr>, None)
      in case st_state c k of None \<Rightarrow> fresh
      | Some (ident0, since, cnt) \<Rightarrow>
          if ident0 \<noteq> ident then fresh
          else let c1 = c\<lparr>st_state := (st_state c)(k \<mapsto> (ident, since, cnt + 1))\<rparr>; held = now - since in
            if held \<ge> after_s c \<and> cnt + 1 \<ge> min_updates c \<and> k \<notin> st_fired c
            then (c1\<lparr>st_fired := insert k (st_fired c1)\<rparr>,
              Some \<lparr>qe_ts = ts, qe_check = STALE_NAME, qe_severity = Warning, qe_venue = v, qe_symbol = s,
                qe_detail = SameRecord held (cnt + 1) price, qe_value = held\<rparr>)
            else (c1, None))"

subsection \<open>Bars\<close>

definition BAR_NAME :: string where "BAR_NAME = ''bar_integrity''"

definition ohlc_faults :: "rat \<Rightarrow> rat \<Rightarrow> rat \<Rightarrow> rat \<Rightarrow> ohlc_fault list" where
  "ohlc_faults op hi lw cl =
     (if lw > op then [LowOverOpen lw op] else []) @ (if lw > cl then [LowOverClose lw cl] else [])
     @ (if hi < op then [HighUnderOpen hi op] else []) @ (if hi < cl then [HighUnderClose hi cl] else [])
     @ (if hi < lw then [HighUnderLow hi lw] else [])"

definition bar_check :: "text_u \<Rightarrow> text_u \<Rightarrow> rat \<Rightarrow> rat \<Rightarrow> rat \<Rightarrow> rat \<Rightarrow> int \<Rightarrow> quality_event option" where
  "bar_check v s op hi lw cl ts =
     (let bad = ohlc_faults op hi lw cl in
      if bad = [] then None
      else Some \<lparr>qe_ts = ts, qe_check = BAR_NAME, qe_severity = Critical, qe_venue = v, qe_symbol = s,
        qe_detail = OhlcFaults bad, qe_value = 0\<rparr>)"

subsection \<open>The same asset on two venues\<close>

definition CROSS_NAME :: string where "CROSS_NAME = ''cross_venue''"

definition PAIRS :: "(string \<times> text_u \<times> text_u) list" where
  "PAIRS =
     [(''BTC'', asc ''UPBIT:KRW-BTC'', asc ''BINANCE:BTCUSDT''), (''ETH'', asc ''UPBIT:KRW-ETH'', asc ''BINANCE:ETHUSDT''),
      (''SOL'', asc ''UPBIT:KRW-SOL'', asc ''BINANCE:SOLUSDT''), (''XRP'', asc ''UPBIT:KRW-XRP'', asc ''BINANCE:XRPUSDT'')]"

record cross_checker =
  divergence_pct :: rat
  min_assets :: nat
  cx_prices :: "text_u \<rightharpoonup> rat"
  cx_implied :: "(string \<times> rat) list"
  last_fire :: "rat option"

definition new_cross :: "rat \<Rightarrow> nat \<Rightarrow> cross_checker" where
  "new_cross d m = \<lparr>divergence_pct = d, min_assets = m, cx_prices = Map.empty, cx_implied = [], last_fire = None\<rparr>"

definition observe :: "cross_checker \<Rightarrow> text_u \<Rightarrow> text_u \<Rightarrow> rat \<Rightarrow> cross_checker" where
  "observe c v s price = c\<lparr>cx_prices := (cx_prices c)(tick_key v s \<mapsto> price)\<rparr>"

definition implied_rates :: "(text_u \<rightharpoonup> rat) \<Rightarrow> (string \<times> rat) list" where
  "implied_rates p = concat (map (\<lambda>(asset, ks, us).
     case (p ks, p us) of (Some k, Some u) \<Rightarrow> if k \<noteq> 0 \<and> u > 0 then [(asset, k / u)] else [] | _ \<Rightarrow> []) PAIRS)"

definition implied_fx :: "cross_checker \<Rightarrow> cross_checker \<times> (string \<times> rat) list" where
  "implied_fx c = (let fx = implied_rates (cx_prices c) in (c\<lparr>cx_implied := fx\<rparr>, fx))"

definition deviation :: "rat \<Rightarrow> rat \<Rightarrow> rat" where
  "deviation m v = \<bar>v - m\<bar> / m * 100"

definition worst_of :: "rat \<Rightarrow> (string \<times> rat) list \<Rightarrow> string option \<times> rat" where
  "worst_of m fx = foldl (\<lambda>(w, d) (a, v). if deviation m v > d then (Some a, deviation m v) else (w, d)) (None, 0) fx"

text \<open>The event names the asset as its symbol; assets are printed in the order of their names.\<close>

definition cross_check :: "cross_checker \<Rightarrow> int \<Rightarrow> cross_checker \<times> quality_event option" where
  "cross_check c0 ts =
     (let (c, fx) = implied_fx c0 in
      if length fx < min_assets c then (c, None)
      else let m = median (map snd fx) in
        if m \<le> 0 then (c, None)
        else let (worst_asset, worst_dev) = worst_of m fx in
          if worst_dev < divergence_pct c then (c, None)
          else let now = of_int ts / 10 ^ 9 in
            if (case last_fire c of None \<Rightarrow> False | Some f \<Rightarrow> now - f < 60) then (c, None)
            else (c\<lparr>last_fire := Some now\<rparr>,
              Some \<lparr>qe_ts = ts, qe_check = CROSS_NAME, qe_severity = Warning, qe_venue = asc ''CROSS'',
                qe_symbol = (case worst_asset of None \<Rightarrow> asc ''?'' | Some a \<Rightarrow> asc a),
                qe_detail = RatesApart worst_dev m (sort_key (\<lambda>p. asc (fst p)) fx), qe_value = worst_dev\<rparr>))"

subsection \<open>The monitor\<close>

record monitor =
  m_jump :: jump_checker
  m_max_spread_bp :: rat
  m_stale :: stale_checker
  m_cross :: cross_checker
  m_counts :: "(string \<times> nat) list"
  m_recent :: "quality_event list"
  m_checked :: nat

record quality_config =
  qc_jump_abs_pct :: rat
  qc_jump_sigma :: rat
  qc_jump_max_gap_s :: rat
  qc_max_spread_bp :: rat
  qc_stale_after_s :: rat
  qc_divergence_pct :: rat

definition default_quality_config :: quality_config where
  "default_quality_config = \<lparr>qc_jump_abs_pct = 10, qc_jump_sigma = 8, qc_jump_max_gap_s = 300, qc_max_spread_bp = 1000,
     qc_stale_after_s = 120, qc_divergence_pct = 3\<rparr>"

definition new_monitor :: "quality_config \<Rightarrow> monitor" where
  "new_monitor g = \<lparr>m_jump = new_jump (qc_jump_abs_pct g) (qc_jump_sigma g) 64 (qc_jump_max_gap_s g),
     m_max_spread_bp = qc_max_spread_bp g, m_stale = new_stale (qc_stale_after_s g) 20,
     m_cross = new_cross (qc_divergence_pct g) 3, m_counts = [], m_recent = [], m_checked = 0\<rparr>"

definition count_name :: "string \<Rightarrow> severity \<Rightarrow> string" where
  "count_name c sv = c @ '':'' @ sev_text sv"

text \<open>\<^verbatim>\<open>del self.recent[:-100]\<close> keeps the last hundred.\<close>

definition last_n :: "nat \<Rightarrow> 'a list \<Rightarrow> 'a list" where
  "last_n n xs = drop (length xs - n) xs"

definition record_event :: "monitor \<Rightarrow> quality_event option \<Rightarrow> monitor" where
  "record_event m ev = (case ev of None \<Rightarrow> m
     | Some e \<Rightarrow> m\<lparr>m_counts := count_key (count_name (qe_check e) (qe_severity e)) (m_counts m),
         m_recent := last_n 100 (m_recent m @ [e])\<rparr>)"

definition on_trade :: "monitor \<Rightarrow> text_u \<Rightarrow> text_u \<Rightarrow> rat \<Rightarrow> int \<Rightarrow> rat \<Rightarrow> monitor \<times> quality_event list" where
  "on_trade m v s price ts now =
     (let m1 = m\<lparr>m_checked := m_checked m + 1, m_cross := observe (m_cross m) v s price\<rparr>;
          (j, e1) = jump_check (m_jump m1) v s price ts; m2 = record_event (m1\<lparr>m_jump := j\<rparr>) e1;
          (st, e2) = stale_check (m_stale m2) v s price ts now; m3 = record_event (m2\<lparr>m_stale := st\<rparr>) e2;
          (cx, e3) = cross_check (m_cross m3) ts; m4 = record_event (m3\<lparr>m_cross := cx\<rparr>) e3
      in (m4, List.map_filter id [e1, e2, e3]))"

definition on_quote :: "monitor \<Rightarrow> text_u \<Rightarrow> text_u \<Rightarrow> rat \<Rightarrow> rat \<Rightarrow> int \<Rightarrow> monitor \<times> quality_event list" where
  "on_quote m v s b a ts =
     (let m1 = m\<lparr>m_checked := m_checked m + 1\<rparr>; e = quote_check (m_max_spread_bp m1) v s b a ts
      in (record_event m1 e, case e of None \<Rightarrow> [] | Some ev \<Rightarrow> [ev]))"

definition on_bar :: "monitor \<Rightarrow> text_u \<Rightarrow> text_u \<Rightarrow> rat \<Rightarrow> rat \<Rightarrow> rat \<Rightarrow> rat \<Rightarrow> int \<Rightarrow> monitor \<times> quality_event list" where
  "on_bar m v s op hi lw cl ts =
     (let e = bar_check v s op hi lw cl ts in (record_event m e, case e of None \<Rightarrow> [] | Some ev \<Rightarrow> [ev]))"

record quality_report =
  r_checked :: nat
  r_critical :: nat
  r_warning :: nat
  r_by_check :: "(string \<times> nat) list"
  r_implied_fx :: "(string \<times> rat) list"
  r_ref_resets :: nat
  r_ref_resets_by_venue :: "(text_u \<times> nat) list"
  r_recent :: "quality_event list"

definition ends_with :: "string \<Rightarrow> string \<Rightarrow> bool" where
  "ends_with k e \<longleftrightarrow> length e \<le> length k \<and> drop (length k - length e) k = e"

definition count_ending :: "severity \<Rightarrow> (string \<times> nat) list \<Rightarrow> nat" where
  "count_ending sv cs = sum_list (map snd (filter (\<lambda>(k, n). ends_with k (sev_text sv)) cs))"

text \<open>Rates are shown here before their rounding to one decimal.\<close>

definition quality_report :: "monitor \<Rightarrow> quality_report" where
  "quality_report m = \<lparr>r_checked = m_checked m, r_critical = count_ending Critical (m_counts m),
     r_warning = count_ending Warning (m_counts m), r_by_check = sort_key (\<lambda>p. asc (fst p)) (m_counts m),
     r_implied_fx = cx_implied (m_cross m), r_ref_resets = ref_resets (m_jump m),
     r_ref_resets_by_venue = ref_resets_by_venue (m_jump m), r_recent = rev (last_n 20 (m_recent m))\<rparr>"

subsection \<open>The service\<close>

text \<open>A row of the table \<^verbatim>\<open>quality_events\<close>: microseconds, check, severity, venue, symbol, detail, value.\<close>

type_synonym quality_row = "int \<times> string \<times> severity \<times> text_u \<times> text_u \<times> detail \<times> rat"

record quality_service =
  q_monitor :: monitor
  q_frames_in :: nat
  q_last_frame_at :: rat
  q_upstream_ok :: bool
  q_pending :: "quality_row list"
  q_counter :: "((string \<times> severity) \<times> nat) list"
  q_table :: "quality_row list"
  q_open :: bool

definition CHECK_NAMES :: "string list" where
  "CHECK_NAMES = [JUMP_NAME, QUOTE_NAME, STALE_NAME, BAR_NAME, CROSS_NAME]"

definition new_quality_service :: "quality_config \<Rightarrow> quality_service" where
  "new_quality_service g = \<lparr>q_monitor = new_monitor g, q_frames_in = 0, q_last_frame_at = 0, q_upstream_ok = False,
     q_pending = [], q_counter = map (\<lambda>p. (p, 0)) (List.product CHECK_NAMES [Critical, Warning]), q_table = [],
     q_open = False\<rparr>"

definition event_row :: "quality_event \<Rightarrow> quality_row" where
  "event_row e = (qe_ts e div 1000, qe_check e, qe_severity e, qe_venue e, qe_symbol e, qe_detail e, qe_value e)"

definition on_event :: "quality_event \<Rightarrow> quality_service \<Rightarrow> quality_service" where
  "on_event e q = q\<lparr>q_counter := count_key (qe_check e, qe_severity e) (q_counter q),
     q_pending := q_pending q @ [event_row e]\<rparr>"

text \<open>What one frame makes the monitor do.\<close>

definition judged :: "doubles \<Rightarrow> frame \<Rightarrow> rat \<Rightarrow> monitor \<Rightarrow> monitor \<times> quality_event list" where
  "judged D f now m =
     (if msg_type f = MSG_TRADE \<and> length (payload f) \<ge> TRADE_SIZE
      then (case unpack_trade D (payload f) of Inl _ \<Rightarrow> (m, [])
        | Inr t \<Rightarrow> on_trade m (t_venue t) (t_symbol t) (t_price t) (t_event_ns t) now)
      else if msg_type f = MSG_BOOK \<and> length (payload f) \<ge> BOOK_SIZE
      then (case unpack_book D (payload f) of Inl _ \<Rightarrow> (m, [])
        | Inr k \<Rightarrow> on_quote m (bk_venue k) (bk_symbol k) (bid k) (ask k) (bk_event_ns k))
      else (m, []))"

definition quality_ingest :: "doubles \<Rightarrow> frame \<Rightarrow> rat \<Rightarrow> quality_service \<Rightarrow> quality_service" where
  "quality_ingest D f now q =
     (let q1 = q\<lparr>q_frames_in := q_frames_in q + 1, q_last_frame_at := now, q_upstream_ok := True\<rparr>;
          (m, events) = judged D f now (q_monitor q1)
      in fold on_event events (q1\<lparr>q_monitor := m\<rparr>))"

text \<open>\<open>ok\<close> says whether the insert of the batch succeeds; a failure is only logged.\<close>

definition quality_flush :: "bool \<Rightarrow> quality_service \<Rightarrow> quality_service" where
  "quality_flush ok q =
     (if q_pending q = [] \<or> \<not> q_open q then q
      else q\<lparr>q_pending := [], q_table := q_table q @ (if ok then q_pending q else [])\<rparr>)"

definition quality_gauges :: "quality_service \<Rightarrow> (text_u \<times> nat) list" where
  "quality_gauges q = ref_resets_by_venue (m_jump (q_monitor q))"

record quality_health =
  h_healthy :: bool
  h_frames_in :: nat
  h_last_frame_age_s :: "rat option"
  h_report :: quality_report
  h_pending_writes :: nat

definition quality_health :: "rat \<Rightarrow> quality_service \<Rightarrow> quality_health" where
  "quality_health now q =
     (let age = (if q_last_frame_at q \<noteq> 0 then Some (now - q_last_frame_at q) else None) in
      \<lparr>h_healthy = (q_upstream_ok q \<and> (case age of None \<Rightarrow> True | Some a \<Rightarrow> a < 60)), h_frames_in = q_frames_in q,
       h_last_frame_age_s = age, h_report = quality_report (q_monitor q), h_pending_writes = length (q_pending q)\<rparr>)"

text \<open>A run of the service: the storage opens first, then frames and flushes in any order; the last flush
  of the shutdown is one more.\<close>

datatype quality_input = StorageOpens | Frame frame rat | Flush bool

fun quality_step :: "doubles \<Rightarrow> quality_input \<Rightarrow> quality_service \<Rightarrow> quality_service" where
  "quality_step D StorageOpens q = q\<lparr>q_open := True\<rparr>"
| "quality_step D (Frame f now) q = quality_ingest D f now q"
| "quality_step D (Flush ok) q = quality_flush ok q"

subsection \<open>Checks that keep their state per key\<close>

fun check_run :: "('s \<Rightarrow> 't \<Rightarrow> 's \<times> 'e option) \<Rightarrow> 's \<Rightarrow> 't list \<Rightarrow> 's \<times> 'e option list" where
  "check_run c s [] = (s, [])"
| "check_run c s (t # ts) = (let (s1, e) = c s t; (s2, es) = check_run c s1 ts in (s2, e # es))"

definition events_of :: "('s \<Rightarrow> 't \<Rightarrow> 's \<times> 'e option) \<Rightarrow> ('t \<Rightarrow> 'k) \<Rightarrow> 's \<Rightarrow> 'k \<Rightarrow> 't list \<Rightarrow> 'e option list" where
  "events_of c key_of s k ts = map snd (filter (\<lambda>(t, e). key_of t = k) (zip ts (snd (check_run c s ts))))"

lemma length_check_run [simp]: "length (snd (check_run c s ts)) = length ts"
  by (induction ts arbitrary: s) (simp_all add: split_def Let_def)

lemma check_run_append: "check_run c s (xs @ ys) =
  (let (s1, es) = check_run c s xs; (s2, es') = check_run c s1 ys in (s2, es @ es'))"
  by (induction xs arbitrary: s) (simp_all add: split_def Let_def)

lemma check_run_nth: "n < length ts \<Longrightarrow> snd (check_run c s ts) ! n = snd (c (fst (check_run c s (take n ts))) (ts ! n))"
  by (induction ts arbitrary: s n) (auto simp: split_def Let_def nth_Cons' take_Cons')

text \<open>What the checks promise: a tick touches the state of its own key only and its event depends on that
  state only. Then the ticks of the other keys make no difference.\<close>

locale keyed_check =
  fixes step :: "'s \<Rightarrow> 't \<Rightarrow> 's \<times> 'e option" and key_of :: "'t \<Rightarrow> 'k" and view :: "'s \<Rightarrow> 'k \<Rightarrow> 'v"
  assumes other: "key_of t \<noteq> k \<Longrightarrow> view (fst (step s t)) k = view s k"
    and own: "view s (key_of t) = view s' (key_of t) \<Longrightarrow> snd (step s t) = snd (step s' t)
      \<and> view (fst (step s t)) (key_of t) = view (fst (step s' t)) (key_of t)"
begin

lemma keys_apart:
  "view s k = view s' k \<Longrightarrow> events_of step key_of s k ts = snd (check_run step s' (filter (\<lambda>t. key_of t = k) ts))"
proof (induction ts arbitrary: s s')
  case Nil
  then show ?case by (simp add: events_of_def)
next
  case (Cons t ts)
  show ?case
  proof (cases "key_of t = k")
    case True
    then have "snd (step s t) = snd (step s' t)" "view (fst (step s t)) k = view (fst (step s' t)) k"
      using own [of s t s'] Cons.prems by auto
    then show ?thesis using Cons.IH True by (simp add: events_of_def split_def Let_def)
  next
    case False
    then have "view (fst (step s t)) k = view s' k" using other [of t k s] Cons.prems by simp
    then show ?thesis using Cons.IH [of "fst (step s t)" s'] False by (simp add: events_of_def split_def Let_def)
  qed
qed

lemma view_after: "view s k = view s' k
  \<Longrightarrow> view (fst (check_run step s ts)) k = view (fst (check_run step s' (filter (\<lambda>t. key_of t = k) ts))) k"
proof (induction ts arbitrary: s s')
  case Nil
  then show ?case by simp
next
  case (Cons t ts)
  then show ?case using own [of s t s'] other [of t k s] by (cases "key_of t = k") (simp_all add: split_def Let_def)
qed

end

text \<open>A tick as the monitor receives it: venue, symbol, price, event time, wall clock.\<close>

type_synonym price_tick = "text_u \<times> text_u \<times> rat \<times> int \<times> rat"

fun key_of_tick :: "price_tick \<Rightarrow> text_u" where "key_of_tick (v, s, p, ts, now) = tick_key v s"

fun jump_step :: "jump_checker \<Rightarrow> price_tick \<Rightarrow> jump_checker \<times> quality_event option" where
  "jump_step j (v, s, p, ts, now) = jump_check j v s p ts"

fun stale_step :: "stale_checker \<Rightarrow> price_tick \<Rightarrow> stale_checker \<times> quality_event option" where
  "stale_step c (v, s, p, ts, now) = stale_check c v s p ts now"

definition jump_view :: "jump_checker \<Rightarrow> text_u \<Rightarrow> (rat \<times> rat \<times> nat \<times> rat) \<times> (rat \<times> int) option \<times> rat list option" where
  "jump_view j k = ((abs_pct j, sigma j, window j, max_gap_s j), last_tick j k, moves j k)"

definition stale_view :: "stale_checker \<Rightarrow> text_u \<Rightarrow> (rat \<times> nat) \<times> ((rat \<times> int) \<times> rat \<times> nat) option \<times> bool" where
  "stale_view c k = ((after_s c, min_updates c), st_state c k, k \<in> st_fired c)"

lemmas jump_defs = jump_check_def jump_after_gap_def jump_one_tick_def

interpretation jump_keyed: keyed_check jump_step key_of_tick jump_view
proof
  fix t k s assume "key_of_tick t \<noteq> k"
  then show "jump_view (fst (jump_step s t)) k = jump_view s k"
    by (cases t) (auto simp: jump_view_def jump_defs Let_def split: option.splits)
next
  fix s t s' assume "jump_view s (key_of_tick t) = jump_view s' (key_of_tick t)"
  then show "snd (jump_step s t) = snd (jump_step s' t)
    \<and> jump_view (fst (jump_step s t)) (key_of_tick t) = jump_view (fst (jump_step s' t)) (key_of_tick t)"
    by (cases t) (auto simp: jump_view_def jump_defs Let_def split: option.splits)
qed

interpretation stale_keyed: keyed_check stale_step key_of_tick stale_view
proof
  fix t k s assume "key_of_tick t \<noteq> k"
  then show "stale_view (fst (stale_step s t)) k = stale_view s k"
    by (cases t) (auto simp: stale_view_def stale_check_def Let_def split: option.splits)
next
  fix s t s' assume "stale_view s (key_of_tick t) = stale_view s' (key_of_tick t)"
  then show "snd (stale_step s t) = snd (stale_step s' t)
    \<and> stale_view (fst (stale_step s t)) (key_of_tick t) = stale_view (fst (stale_step s' t)) (key_of_tick t)"
    by (cases t) (auto simp: stale_view_def stale_check_def Let_def split: option.splits)
qed
subsection \<open>When a jump is reported\<close>

fun last_of_key :: "text_u \<Rightarrow> price_tick list \<Rightarrow> (rat \<times> int) option" where
  "last_of_key k [] = None"
| "last_of_key k ((v, s, p, ts, now) # rest) =
     (case last_of_key k rest of Some x \<Rightarrow> Some x | None \<Rightarrow> if tick_key v s = k then Some (p, ts) else None)"

lemma jump_check_last: "last_tick (fst (jump_check j v s p ts)) = (last_tick j)(tick_key v s \<mapsto> (p, ts))"
  by (auto simp: jump_defs Let_def split: option.splits)

lemma jump_check_config: "abs_pct (fst (jump_check j v s p ts)) = abs_pct j \<and> max_gap_s (fst (jump_check j v s p ts)) = max_gap_s j
  \<and> window (fst (jump_check j v s p ts)) = window j \<and> sigma (fst (jump_check j v s p ts)) = sigma j"
  by (auto simp: jump_defs Let_def split: option.splits)

lemma jump_run_config: "abs_pct (fst (check_run jump_step j ts)) = abs_pct j \<and> max_gap_s (fst (check_run jump_step j ts)) = max_gap_s j"
proof (induction ts arbitrary: j)
  case (Cons t ts)
  obtain v s p e now where t: "t = (v, s, p, e, now)" by (cases t) auto
  show ?case using Cons.IH [of "fst (jump_step j t)"] jump_check_config [of j v s p e] by (simp add: t split_def Let_def)
qed simp

lemma jump_run_last: "last_tick (fst (check_run jump_step j ts)) k
  = (case last_of_key k ts of Some x \<Rightarrow> Some x | None \<Rightarrow> last_tick j k)"
proof (induction ts arbitrary: j)
  case (Cons t ts)
  obtain v s p e now where t: "t = (v, s, p, e, now)" by (cases t) auto
  show ?case using Cons.IH [of "fst (jump_step j t)"] jump_check_last [of j v s p e]
    by (auto simp: t split_def Let_def split: option.splits)
qed simp

lemma jump_critical:
  "(\<exists>e. snd (jump_check j v s p ts) = Some e \<and> qe_severity e = Critical)
     \<longleftrightarrow> (\<exists>prev prev_ts. last_tick j (tick_key v s) = Some (prev, prev_ts) \<and> 0 < prev \<and> 0 < p
           \<and> of_int \<bar>ts - prev_ts\<bar> / 10 ^ 9 \<le> max_gap_s j \<and> abs_pct j \<le> move_pct prev p)"
  by (auto simp: jump_defs Let_def not_le split: option.splits)

text \<open>A price is called a one-tick jump exactly when it follows a price of the same key at most
  \<open>max_gap_s\<close> away in event time, both are positive and they differ by at least \<open>abs_pct\<close> per cent.\<close>

lemma jump_reported_exactly:
  assumes "n < length ts" "ts ! n = (v, s, p, e, now)"
  shows "(\<exists>ev. snd (check_run jump_step (new_jump a sg w g) ts) ! n = Some ev \<and> qe_severity ev = Critical)
    \<longleftrightarrow> (\<exists>prev prev_ts. last_of_key (tick_key v s) (take n ts) = Some (prev, prev_ts) \<and> 0 < prev \<and> 0 < p
          \<and> of_int \<bar>e - prev_ts\<bar> / 10 ^ 9 \<le> g \<and> a \<le> move_pct prev p)"
proof -
  let ?j = "fst (check_run jump_step (new_jump a sg w g) (take n ts))"
  have "snd (check_run jump_step (new_jump a sg w g) ts) ! n = snd (jump_check ?j v s p e)"
    using assms by (simp add: check_run_nth)
  moreover have "abs_pct ?j = a" "max_gap_s ?j = g" using jump_run_config by (simp_all add: new_jump_def)
  moreover have "last_tick ?j (tick_key v s) = last_of_key (tick_key v s) (take n ts)"
    by (simp add: jump_run_last new_jump_def split: option.splits)
  ultimately show ?thesis using jump_critical [of ?j v s p e] by simp
qed

text \<open>What the checker keeps: the moves stay within the window and are not negative, and every reset of a
  reference price is counted once for its venue.\<close>

definition jump_ok :: "jump_checker \<Rightarrow> bool" where
  "jump_ok j \<longleftrightarrow> ref_resets j = sum_list (map snd (ref_resets_by_venue j)) \<and> distinct (map fst (ref_resets_by_venue j))
     \<and> (\<forall>k ms. moves j k = Some ms \<longrightarrow> length ms \<le> window j \<and> (\<forall>m \<in> set ms. 0 \<le> m))"

lemma count_key_sum: "sum_list (map snd (count_key k al)) = sum_list (map snd al) + 1"
  unfolding count_key_def by (induction al) auto

lemma count_key_fst: "map fst (count_key k al) = (if k \<in> fst ` set al then map fst al else map fst al @ [k])"
  by (simp add: count_key_def update_keys)

lemma jump_ok_last: "jump_ok (j\<lparr>last_tick := l\<rparr>) \<longleftrightarrow> jump_ok j"
  by (simp add: jump_ok_def)

lemma jump_ok_gap: "jump_ok j \<Longrightarrow> jump_ok (fst (jump_after_gap j v s p ts prev gap_s))"
  by (auto simp: jump_after_gap_def jump_ok_def Let_def count_key_sum count_key_fst)

lemma deque_append_set: "set (deque_append n q x) \<subseteq> insert x (set q)"
  by (cases q) (auto simp: deque_append_def)

lemma deque_append_length: "length q \<le> n \<Longrightarrow> 0 < n \<Longrightarrow> length (deque_append n q x) \<le> n"
  by (auto simp: deque_append_def)

lemma jump_ok_moves: "jump_ok j \<Longrightarrow> length q \<le> window j \<Longrightarrow> \<forall>m \<in> set q. 0 \<le> m \<Longrightarrow> jump_ok (j\<lparr>moves := (moves j)(k \<mapsto> q)\<rparr>)"
  by (simp add: jump_ok_def)

definition kept_moves :: "jump_checker \<Rightarrow> text_u \<Rightarrow> rat list" where
  "kept_moves j k = (case moves j k of None \<Rightarrow> [] | Some ms \<Rightarrow> ms)"

lemma kept_moves_ok: "jump_ok j \<Longrightarrow> length (kept_moves j k) \<le> window j"
  "jump_ok j \<Longrightarrow> m \<in> set (kept_moves j k) \<Longrightarrow> 0 \<le> m"
  by (cases "moves j k"; force simp: jump_ok_def kept_moves_def)+

lemma jump_ok_tick:
  assumes ok: "jump_ok j" and w: "0 < window j" and prev: "0 < prev"
  shows "jump_ok (fst (jump_one_tick j v s p ts prev prev_ts))"
proof -
  let ?q = "deque_append (window j) (kept_moves j (tick_key v s)) (move_pct prev p)"
  have "0 \<le> move_pct prev p" using prev by (simp add: move_pct_def)
  then have "\<forall>m \<in> set ?q. 0 \<le> m" 
    using deque_append_set [of "window j" "kept_moves j (tick_key v s)" "move_pct prev p"] kept_moves_ok(2) [OF ok] by auto
  moreover have "length ?q \<le> window j" by (rule deque_append_length [OF kept_moves_ok(1) [OF ok] w])
  ultimately have "jump_ok (j\<lparr>moves := (moves j)(tick_key v s \<mapsto> ?q)\<rparr>)" by (rule jump_ok_moves [OF ok, rotated])
  moreover have "fst (jump_one_tick j v s p ts prev prev_ts) = j\<lparr>moves := (moves j)(tick_key v s \<mapsto> ?q)\<rparr>"
    unfolding jump_one_tick_def kept_moves_def Let_def by simp
  ultimately show ?thesis by (simp only:)
qed

lemma jump_ok_check:
  assumes "jump_ok j" "0 < window j"
  shows "jump_ok (fst (jump_check j v s p ts))"
  using assms jump_ok_gap [of "j\<lparr>last_tick := _\<rparr>"] jump_ok_tick [of "j\<lparr>last_tick := _\<rparr>"]
  by (simp add: jump_check_def jump_ok_last Let_def split: option.splits)
subsection \<open>Upstream repeats itself\<close>

text \<open>The walls are the wall-clock times of the repeats after the first sight; \<open>due\<close> says that a repeat
  completes the evidence.\<close>

lemma stale_repeats:
  assumes "st_state c (tick_key v s) = Some ((p, ts), since, m)" "i < length walls"
  shows "snd (check_run stale_step c (map (\<lambda>w. (v, s, p, ts, w)) walls)) ! i \<noteq> None
    \<longleftrightarrow> tick_key v s \<notin> st_fired c
      \<and> (min_updates c \<le> m + i + 1 \<and> after_s c \<le> walls ! i - since)
      \<and> (\<forall>k < i. \<not> (min_updates c \<le> m + k + 1 \<and> after_s c \<le> walls ! k - since))"
  using assms
proof (induction walls arbitrary: c m i)
  case Nil
  then show ?case by simp
next
  case (Cons w walls)
  let ?c = "fst (stale_step c (v, s, p, ts, w))"
  have st: "st_state ?c (tick_key v s) = Some ((p, ts), since, m + 1)"
    using Cons.prems(1) by (simp add: stale_check_def Let_def)
  have cf: "min_updates ?c = min_updates c" "after_s ?c = after_s c"
    using Cons.prems(1) by (simp_all add: stale_check_def Let_def)
  have fired: "tick_key v s \<in> st_fired ?c \<longleftrightarrow> tick_key v s \<in> st_fired c
      \<or> min_updates c \<le> m + 1 \<and> after_s c \<le> w - since"
    using Cons.prems(1) by (auto simp: stale_check_def Let_def)
  show ?case
  proof (cases i)
    case 0
    then show ?thesis using Cons.prems(1) by (auto simp: stale_check_def Let_def split_def)
  next
    case (Suc k)
    have "snd (check_run stale_step c (map (\<lambda>w. (v, s, p, ts, w)) (w # walls))) ! i
        = snd (check_run stale_step ?c (map (\<lambda>w. (v, s, p, ts, w)) walls)) ! k"
      using Suc by (simp add: Let_def split_def)
    moreover define due where "due j \<longleftrightarrow> min_updates c \<le> m + j + 1 \<and> after_s c \<le> (w # walls) ! j - since" for j
    have "snd (check_run stale_step ?c (map (\<lambda>w. (v, s, p, ts, w)) walls)) ! k \<noteq> None
        \<longleftrightarrow> \<not> (tick_key v s \<in> st_fired c \<or> due 0) \<and> due (Suc k) \<and> (\<forall>j < k. \<not> due (Suc j))"
      using Cons.IH [OF st, of k] Cons.prems(2) unfolding fired cf by (simp add: Suc due_def)
    ultimately have "snd (check_run stale_step c (map (\<lambda>w. (v, s, p, ts, w)) (w # walls))) ! i \<noteq> None
        \<longleftrightarrow> tick_key v s \<notin> st_fired c \<and> due i \<and> (\<forall>j < i. \<not> due j)"
      unfolding Suc All_less_Suc2 by argo
    then show ?thesis unfolding due_def .
  qed
qed

definition stale_due :: "stale_checker \<Rightarrow> rat list \<Rightarrow> nat \<Rightarrow> bool" where
  "stale_due c walls i \<longleftrightarrow> min_updates c \<le> i + 1 \<and> after_s c \<le> walls ! i - walls ! 0"

lemma stale_series:
  assumes new: "\<forall>since m. st_state c (tick_key v s) \<noteq> Some ((p, ts), since, m)" and two: "2 \<le> min_updates c"
    and i: "i < length walls"
  shows "snd (check_run stale_step c (map (\<lambda>w. (v, s, p, ts, w)) walls)) ! i \<noteq> None
    \<longleftrightarrow> stale_due c walls i \<and> (\<forall>k < i. \<not> stale_due c walls k)"
proof -
  obtain w ws where walls: "walls = w # ws" using i by (cases walls) auto
  let ?c = "fst (stale_step c (v, s, p, ts, w))"
  have first: "st_state ?c (tick_key v s) = Some ((p, ts), w, 1)" "tick_key v s \<notin> st_fired ?c"
    "min_updates ?c = min_updates c" "after_s ?c = after_s c" "snd (stale_step c (v, s, p, ts, w)) = None"
    using new by (auto simp: stale_check_def Let_def split: option.splits prod.splits)
  show ?thesis
  proof (cases i)
    case 0
    then show ?thesis using first(5) two by (simp add: walls Let_def split_def stale_due_def)
  next
    case (Suc k)
    have "snd (check_run stale_step c (map (\<lambda>w. (v, s, p, ts, w)) walls)) ! i
        = snd (check_run stale_step ?c (map (\<lambda>w. (v, s, p, ts, w)) ws)) ! k"
      using Suc by (simp add: walls Let_def split_def)
    moreover have "\<not> stale_due c walls 0" using two by (simp add: stale_due_def)
    ultimately show ?thesis using stale_repeats [OF first(1), of k ws] first i
      by (simp add: Suc walls stale_due_def All_less_Suc2)
  qed
qed
text \<open>C11: Among ticks of any number of instruments, when the ticks of one key all repeat one record (same price,
  same event time) that was not there before, the stale-value check reports exactly one of them: the first
  at which at least \<open>min_updates\<close> of them have come and \<open>after_s\<close> seconds of wall clock have passed since the first.
  Ticks of the other keys neither hide nor cause it.\<close>

theorem frozen_feed_reported_once:
  assumes own: "filter (\<lambda>t. key_of_tick t = tick_key v s) ts = map (\<lambda>w. (v, s, p, e, w)) walls"
    and new: "\<forall>since m. st_state c (tick_key v s) \<noteq> Some ((p, e), since, m)" and two: "2 \<le> min_updates c"
    and n: "n < length walls" "stale_due c walls n"
  shows "let es = events_of stale_step key_of_tick c (tick_key v s) ts in
    length es = length walls \<and> (\<exists>!i. i < length es \<and> es ! i \<noteq> None)
    \<and> (\<forall>i < length es. es ! i \<noteq> None \<longleftrightarrow> stale_due c walls i \<and> (\<forall>k < i. \<not> stale_due c walls k))"
proof -
  let ?es = "events_of stale_step key_of_tick c (tick_key v s) ts"
  have es: "?es = snd (check_run stale_step c (map (\<lambda>w. (v, s, p, e, w)) walls))"
    using stale_keyed.keys_apart [of c "tick_key v s" c ts] own by simp
  have len: "length ?es = length walls" by (simp add: es)
  have at: "?es ! i \<noteq> None \<longleftrightarrow> stale_due c walls i \<and> (\<forall>k < i. \<not> stale_due c walls k)" if "i < length walls" for i
    using stale_series [OF new two that] unfolding es .
  define m where "m = (LEAST i. stale_due c walls i)"
  have m: "stale_due c walls m" "m \<le> n" "\<And>k. k < m \<Longrightarrow> \<not> stale_due c walls k"
    unfolding m_def using n(2) by (auto intro: LeastI Least_le dest: not_less_Least)
  have "\<exists>!i. i < length ?es \<and> ?es ! i \<noteq> None"
  proof (rule ex1I [of _ m])
    show "m < length ?es \<and> ?es ! m \<noteq> None" using at [of m] m n(1) len by simp
  next
    fix i assume "i < length ?es \<and> ?es ! i \<noteq> None"
    then have "stale_due c walls i" "\<forall>k < i. \<not> stale_due c walls k" using at [of i] len by simp_all
    then show "i = m" using m(1,3) by (meson nat_neq_iff)
  qed
  then show ?thesis using len at by (simp add: Let_def)
qed

definition sample_ticks :: "price_tick list" where
  "sample_ticks = [(asc ''KIS'', asc ''A'', 5, 7, 0), (asc ''KIS'', asc ''B'', 6, 8, 1), (asc ''KIS'', asc ''A'', 5, 7, 60),
     (asc ''KIS'', asc ''A'', 5, 7, 121), (asc ''KIS'', asc ''A'', 5, 7, 130)]"

theorem frozen_feed_reported_once_witness:
  "\<exists>!i. i < 4 \<and> events_of stale_step key_of_tick (new_stale 120 3) (asc ''KIS:A'') sample_ticks ! i \<noteq> None"
proof -
  have k: "tick_key (asc ''KIS'') (asc ''A'') = asc ''KIS:A''" by (simp add: tick_key_def asc_def)
  let ?walls = "[0, 60, 121, 130] :: rat list"
  let ?es = "events_of stale_step key_of_tick (new_stale 120 3) (asc ''KIS:A'') sample_ticks"
  have own: "filter (\<lambda>t. key_of_tick t = tick_key (asc ''KIS'') (asc ''A'')) sample_ticks
      = map (\<lambda>w. (asc ''KIS'', asc ''A'', 5, 7, w)) ?walls"
    by (simp add: sample_ticks_def tick_key_def asc_def)
  have new: "\<forall>since m. st_state (new_stale 120 3) (tick_key (asc ''KIS'') (asc ''A'')) \<noteq> Some ((5, 7), since, m)"
    "2 \<le> min_updates (new_stale 120 3)" by (simp_all add: new_stale_def)
  have due: "2 < length ?walls" "stale_due (new_stale 120 3) ?walls 2" by (simp_all add: stale_due_def new_stale_def)
  have len: "length ?es = length ?walls" and one: "\<exists>!i. i < length ?es \<and> ?es ! i \<noteq> None"
    using frozen_feed_reported_once [OF own new due] unfolding k Let_def by blast+
  have "length ?es = 4" using len by simp
  then show ?thesis using one by (simp only:)
qed

text \<open>An upstream that alternates two cached records is never reported: each differs from the one before.\<close>

lemma alternating_never_reported:
  assumes "\<forall>since m. st_state c (tick_key v s) \<noteq> Some (x, since, m)" "x \<noteq> y"
  shows "snd (stale_step c (v, s, fst x, snd x, w)) = None
    \<and> (\<forall>since m. st_state (fst (stale_step c (v, s, fst x, snd x, w))) (tick_key v s) \<noteq> Some (y, since, m))"
  using assms by (auto simp: stale_check_def Let_def split: option.splits prod.splits)

lemma alternating_run:
  assumes "\<forall>since m. st_state c (tick_key v s) \<noteq> Some (x, since, m)" "x \<noteq> y"
  shows "snd (check_run stale_step c (concat (map (\<lambda>(w1, w2). [(v, s, fst x, snd x, w1), (v, s, fst y, snd y, w2)]) ws)))
    = replicate (2 * length ws) None"
  using assms(1)
proof (induction ws arbitrary: c)
  case Nil
  then show ?case by simp
next
  case (Cons ww ws)
  obtain w1 w2 where ww: "ww = (w1, w2)" by fastforce
  let ?c1 = "fst (stale_step c (v, s, fst x, snd x, w1))" and ?c2 = "fst (stale_step (fst (stale_step c (v, s, fst x, snd x, w1))) (v, s, fst y, snd y, w2))"
  have 1: "snd (stale_step c (v, s, fst x, snd x, w1)) = None" "\<forall>since m. st_state ?c1 (tick_key v s) \<noteq> Some (y, since, m)"
    using alternating_never_reported [OF Cons.prems assms(2)] by blast+
  have 2: "snd (stale_step ?c1 (v, s, fst y, snd y, w2)) = None" "\<forall>since m. st_state ?c2 (tick_key v s) \<noteq> Some (x, since, m)"
    using alternating_never_reported [OF 1(2) assms(2) [symmetric]] by blast+
  show ?case using Cons.IH [OF 2(2)] 1(1) 2(1)
    by (simp add: ww split_def Let_def del: stale_step.simps)
qed

subsection \<open>Quotes and bars\<close>

lemma quote_exact:
  "(case quote_check m v s b a ts of None \<Rightarrow> b \<le> 0 \<or> a \<le> 0 \<or> b \<le> a \<and> (a - b) * 20000 \<le> m * (a + b)
    | Some e \<Rightarrow> 0 < b \<and> 0 < a \<and> (if qe_severity e = Critical then a < b else b \<le> a \<and> m * (a + b) < (a - b) * 20000))"
  by (auto simp: quote_check_def Let_def field_simps)

lemma bar_exact: "bar_check v s op hi lw cl ts = None \<longleftrightarrow> lw \<le> op \<and> lw \<le> cl \<and> op \<le> hi \<and> cl \<le> hi \<and> lw \<le> hi"
  by (auto simp: bar_check_def ohlc_faults_def Let_def)

text \<open>A bar that the aggregation built is never reported.\<close>

lemma built_bars_pass:
  assumes "ts \<noteq> []" and b: "b = foldl bar_update (new_bar v s k i) ts"
  shows "bar_check v s (b_open b) (b_high b) (b_low b) (b_close b) e = None"
proof -
  have m: "t_price (hd ts) \<in> t_price ` set ts" "t_price (last ts) \<in> t_price ` set ts" using assms(1) by auto
  have "b_open b = t_price (hd ts)" "b_close b = t_price (last ts)" "b_high b = Max (t_price ` set ts)" "b_low b = Min (t_price ` set ts)"
    using bar_fold [OF assms(1), of v s k i] b by (simp_all add: Let_def)
  moreover have "Min (t_price ` set ts) \<le> Max (t_price ` set ts)" using m(1) by (meson Max_ge Min_le finite_imageI finite_set order_trans)
  ultimately show ?thesis using m by (simp add: bar_exact)
qed
subsection \<open>Which asset is apart\<close>

lemma median_within:
  assumes xs: "xs = pre @ x # post" and two: "2 \<le> length pre + length post"
    and others: "\<forall>y \<in> set pre \<union> set post. l \<le> y \<and> y \<le> h" and out: "x < l \<or> h < x"
  shows "l \<le> median xs \<and> median xs \<le> h"
proof -
  let ?ys = "sort (pre @ post)"
  have mem: "l \<le> ?ys ! i \<and> ?ys ! i \<le> h" if "i < length pre + length post" for i
    using others nth_mem [of i ?ys] that by simp
  have n: "length xs div 2 < length pre + length post" "0 < length xs div 2" using xs two by auto
  show ?thesis
  proof (cases "h < x")
    case True
    have "sort xs = ?ys @ [x]"
      using True others by (intro properties_for_sort) (auto simp: xs sorted_append intro: order_trans less_imp_le)
    then show ?thesis using mem [OF n(1)] n(1) by (simp add: median_def nth_append)
  next
    case False
    then have "sort xs = x # ?ys"
      using out others by (intro properties_for_sort) (auto simp: xs intro: order_trans less_imp_le)
    then show ?thesis using mem [of "length xs div 2 - 1"] n by (simp add: median_def nth_Cons')
  qed
qed

definition worse :: "rat \<Rightarrow> string option \<times> rat \<Rightarrow> string \<times> rat \<Rightarrow> string option \<times> rat" where
  "worse m = (\<lambda>(w, d) (a, v). if deviation m v > d then (Some a, deviation m v) else (w, d))"

lemma worst_of_worse: "worst_of m fx = foldl (worse m) (None, 0) fx"
  by (simp add: worst_of_def worse_def)

lemma worse_below: "\<forall>v \<in> snd ` set fx. deviation m v < b \<Longrightarrow> snd acc < b \<Longrightarrow> snd (foldl (worse m) acc fx) < b"
  by (induction fx arbitrary: acc) (auto simp: worse_def split_def)

lemma worse_kept: "\<forall>v \<in> snd ` set fx. deviation m v \<le> snd acc \<Longrightarrow> foldl (worse m) acc fx = acc"
  by (induction fx arbitrary: acc) (auto simp: worse_def split_def)

lemma worst_is_odd:
  assumes "\<forall>v \<in> snd ` (set pre \<union> set post). deviation m v < deviation m x" "0 < deviation m x"
  shows "worst_of m (pre @ (a, x) # post) = (Some a, deviation m x)"
proof -
  have "snd (foldl (worse m) (None, 0) pre) < deviation m x" using assms by (intro worse_below) auto
  then have "worse m (foldl (worse m) (None, 0) pre) (a, x) = (Some a, deviation m x)" by (simp add: worse_def split_def)
  moreover have "foldl (worse m) (Some a, deviation m x) post = (Some a, deviation m x)"
    using assms by (intro worse_kept) (auto simp: less_imp_le)
  ultimately show ?thesis by (simp add: worst_of_worse)
qed

lemma deviation_less: "0 < m \<Longrightarrow> deviation m v < deviation m x \<longleftrightarrow> \<bar>v - m\<bar> < \<bar>x - m\<bar>"
  by (simp add: deviation_def divide_less_cancel)

lemma deviation_at_least:
  assumes "0 < l" "l \<le> m" "m \<le> h" "0 < x" "x < l \<and> d \<le> deviation l x \<or> h < x \<and> d \<le> deviation h x"
  shows "d \<le> deviation m x"
proof -
  have below: "x < l \<Longrightarrow> deviation l x = (1 - x / l) * 100 \<and> deviation m x = (1 - x / m) * 100"
    and above: "h < x \<Longrightarrow> deviation h x = (x / h - 1) * 100 \<and> deviation m x = (x / m - 1) * 100"
    using assms by (simp_all add: deviation_def diff_divide_distrib)
  have "x / m \<le> x / l" "x / h \<le> x / m" using assms by (simp_all add: divide_left_mono)
  then have "x < l \<Longrightarrow> deviation l x \<le> deviation m x" "h < x \<Longrightarrow> deviation h x \<le> deviation m x"
    using below above by (simp_all only: mult_right_mono diff_left_mono diff_right_mono zero_le_numeral)
  then show ?thesis using assms(5) by linarith
qed

text \<open>When the rates of all assets but one lie in \<open>[l, h]\<close> and that one is further away than the width of the
  interval and than the threshold, it is the one the event names.\<close>

definition stands_out :: "rat \<Rightarrow> rat \<Rightarrow> rat \<Rightarrow> rat \<Rightarrow> bool" where
  "stands_out d l h x \<longleftrightarrow> x < l \<and> h - l < l - x \<and> d \<le> deviation l x \<or> h < x \<and> h - l < x - h \<and> d \<le> deviation h x"

definition may_fire :: "cross_checker \<Rightarrow> int \<Rightarrow> bool" where
  "may_fire c ts \<longleftrightarrow> (case last_fire c of None \<Rightarrow> True | Some f \<Rightarrow> 60 \<le> of_int ts / 10 ^ 9 - f)"

text \<open>C17: With at least three assets priced on both venues, when the implied exchange rates of all but one agree
  to within an interval and one asset's rate stands out by the configured percentage, the cross-venue check
  reports an event (unless one fired less than 60 seconds of event time before) and the event names that
  asset: the median is a rate the others agree on, so the odd one is never taken for the reference.\<close>

theorem odd_rate_named:
  assumes fx: "implied_rates (cx_prices c) = pre @ (a, x) # post" "2 \<le> length pre + length post"
      "min_assets c \<le> length pre + length post + 1"
    and others: "\<forall>y \<in> snd ` (set pre \<union> set post). l \<le> y \<and> y \<le> h" "0 < l" "0 < x"
    and odd: "stands_out (divergence_pct c) l h x" and may: "may_fire c ts"
  shows "\<exists>e m. snd (cross_check c ts) = Some e \<and> qe_symbol e = asc a \<and> qe_value e = deviation m x
    \<and> divergence_pct c \<le> qe_value e \<and> l \<le> m \<and> m \<le> h"
proof -
  let ?fx = "implied_rates (cx_prices c)" let ?m = "median (map snd ?fx)"
  have out: "x < l \<or> h < x" using odd by (auto simp: stands_out_def)
  have "\<forall>y \<in> set (map snd pre) \<union> set (map snd post). l \<le> y \<and> y \<le> h" using others(1) by auto
  then have m: "l \<le> ?m" "?m \<le> h"
    using median_within [of "map snd ?fx" "map snd pre" x "map snd post" l h] fx(2) out by (simp_all add: fx(1))
  have pos: "0 < ?m" using m(1) others(2) by linarith
  have "deviation ?m v < deviation ?m x" if v: "l \<le> v" "v \<le> h" for v
  proof -
    have "\<bar>v - ?m\<bar> \<le> h - l" using v m by linarith
    moreover have "h - l < \<bar>x - ?m\<bar>" using odd m unfolding stands_out_def by linarith
    ultimately show ?thesis unfolding deviation_less [OF pos] by linarith
  qed
  then have less: "\<forall>v \<in> snd ` (set pre \<union> set post). deviation ?m v < deviation ?m x" using others(1) by blast
  have "0 < deviation ?m x" using pos out m by (auto simp: deviation_def)
  then have worst: "worst_of ?m ?fx = (Some a, deviation ?m x)" using worst_is_odd [OF less] by (simp add: fx(1))
  have d: "divergence_pct c \<le> deviation ?m x"
    using deviation_at_least [OF others(2) m others(3)] odd by (auto simp: stands_out_def)
  have "min_assets c \<le> length ?fx" using fx(3) by (simp add: fx(1))
  moreover have "\<not> (case last_fire c of None \<Rightarrow> False | Some f \<Rightarrow> of_int ts / 10 ^ 9 - f < 60)"
    using may by (simp add: may_fire_def not_less split: option.splits)
  ultimately have "\<exists>e. snd (cross_check c ts) = Some e \<and> qe_symbol e = asc a \<and> qe_value e = deviation ?m x"
    using worst pos d by (cases "last_fire c") (simp_all add: cross_check_def implied_fx_def Let_def)
  then show ?thesis using d m by auto
qed

definition sample_prices :: "text_u \<rightharpoonup> rat" where
  "sample_prices = map_of [(asc ''UPBIT:KRW-BTC'', 140000), (asc ''BINANCE:BTCUSDT'', 100), (asc ''UPBIT:KRW-ETH'', 7050),
     (asc ''BINANCE:ETHUSDT'', 5), (asc ''UPBIT:KRW-XRP'', 1600), (asc ''BINANCE:XRPUSDT'', 1)]"

theorem odd_rate_named_witness:
  "\<exists>e. snd (cross_check ((new_cross 3 3)\<lparr>cx_prices := sample_prices\<rparr>) 7) = Some e \<and> qe_symbol e = asc ''XRP''"
proof -
  let ?c = "(new_cross 3 3)\<lparr>cx_prices := sample_prices\<rparr>"
  have "implied_rates (cx_prices ?c) = [(''BTC'', 1400), (''ETH'', 1410)] @ (''XRP'', 1600) # []"
    by (simp add: implied_rates_def PAIRS_def sample_prices_def asc_def)
  then show ?thesis using odd_rate_named [of ?c "[(''BTC'', 1400), (''ETH'', 1410)]" "''XRP''" 1600 "[]" 1400 1410 7]
    by (auto simp: new_cross_def stands_out_def may_fire_def deviation_def)
qed

text \<open>Between two events lie sixty seconds of event time, so one trade with a time stamp far in the future
  silences the check until event time has caught up.\<close>

lemma cross_fires: "snd (cross_check c ts) = Some e
  \<Longrightarrow> may_fire c ts \<and> last_fire (fst (cross_check c ts)) = Some (of_int ts / 10 ^ 9)"
  by (auto simp: cross_check_def implied_fx_def may_fire_def Let_def split: if_splits option.splits prod.splits)

lemma cross_quiet: "\<not> may_fire c ts \<Longrightarrow> snd (cross_check c ts) = None \<and> last_fire (fst (cross_check c ts)) = last_fire c"
  by (auto simp: cross_check_def implied_fx_def may_fire_def Let_def split: if_splits option.splits prod.splits)

lemma within_minute:
  assumes "ts < ts0 + 60 * 10 ^ 9"
  shows "(of_int ts / 10 ^ 9 - of_int ts0 / 10 ^ 9 :: rat) < 60"
proof -
  have "(of_int ts :: rat) < of_int (ts0 + 60 * 10 ^ 9)" using assms by (simp only: of_int_less_iff)
  then show ?thesis by simp
qed

lemma future_time_silences:
  assumes "snd (cross_check c ts0) = Some e" "\<forall>(v, s, p, ts, now) \<in> set ticks. ts < ts0 + 60 * 10 ^ 9"
  shows "set (snd (check_run (\<lambda>c (v, s, p, ts, now). cross_check (observe c v s p) ts) (fst (cross_check c ts0)) ticks)) \<subseteq> {None}"
proof -
  have "set (snd (check_run (\<lambda>c (v, s, p, ts, now). cross_check (observe c v s p) ts) c' ticks)) \<subseteq> {None}"
    if "last_fire c' = Some (of_int ts0 / 10 ^ 9)" for c'
    using assms(2) that
  proof (induction ticks arbitrary: c')
    case (Cons t ticks)
    obtain v s p ts now where t: "t = (v, s, p, ts, now)" by (cases t) auto
    have "\<not> may_fire (observe c' v s p) ts"
      using Cons.prems(2) within_minute [of ts ts0] Cons.prems(1) by (simp add: may_fire_def observe_def t)
    then have "snd (cross_check (observe c' v s p) ts) = None"
      "last_fire (fst (cross_check (observe c' v s p) ts)) = Some (of_int ts0 / 10 ^ 9)"
      using cross_quiet Cons.prems(2) by (simp_all add: observe_def)
    then show ?case using Cons.IH Cons.prems(1) by (simp add: t Let_def split_def)
  qed simp
  then show ?thesis using cross_fires [OF assms(1)] by blast
qed
subsection \<open>The monitor and the service keep the same books\<close>

text \<open>A price of zero is never reported, and it also hides the next jump: it becomes the reference.\<close>

lemma zero_hides_jump:
  "let (j1, e1) = jump_check j v s 0 ts1; (j2, e2) = jump_check j1 v s p ts2 in e1 = None \<and> e2 = None"
  by (cases "last_tick j (tick_key v s)") (simp_all add: jump_check_def Let_def split_def)

lemma ends_with_append: "ends_with (p @ q) e \<longleftrightarrow> ends_with q e" if "length e \<le> length q"
  using that by (simp add: ends_with_def)

lemma ends_with_sev: "ends_with (count_name c s') (sev_text sv) \<longleftrightarrow> s' = sv"
proof -
  have "length (sev_text sv) \<le> length ('':'' @ sev_text s')" by (cases sv; cases s') simp_all
  then have "ends_with (count_name c s') (sev_text sv) \<longleftrightarrow> ends_with ('':'' @ sev_text s') (sev_text sv)"
    unfolding count_name_def by (rule ends_with_append)
  also have "\<dots> \<longleftrightarrow> s' = sv" by (cases sv; cases s') (simp_all add: ends_with_def)
  finally show ?thesis .
qed

lemma count_ending_key: "count_ending sv (count_key k cs) = count_ending sv cs + (if ends_with k (sev_text sv) then 1 else 0)"
  unfolding count_ending_def count_key_def by (induction cs) auto

definition severity_count :: "severity \<Rightarrow> quality_event list \<Rightarrow> nat" where
  "severity_count sv es = length (filter (\<lambda>e. qe_severity e = sv) es)"

definition opt_list :: "'a option \<Rightarrow> 'a list" where
  "opt_list x = (case x of None \<Rightarrow> [] | Some a \<Rightarrow> [a])"

lemma record_count:
  "count_ending sv (m_counts (record_event m ev)) = count_ending sv (m_counts m) + severity_count sv (opt_list ev)"
  by (auto simp: record_event_def severity_count_def opt_list_def count_ending_key ends_with_sev split: option.splits)

lemma record_keeps [simp]: "m_jump (record_event m ev) = m_jump m" "m_stale (record_event m ev) = m_stale m"
  "m_cross (record_event m ev) = m_cross m" "m_checked (record_event m ev) = m_checked m"
  by (simp_all add: record_event_def split: option.splits)

lemma map_filter_opt: "List.map_filter id [e1, e2, e3] = opt_list e1 @ opt_list e2 @ opt_list e3"
  by (cases e1; cases e2; cases e3) (simp_all add: map_filter_simps opt_list_def)

lemma severity_count_append: "severity_count sv (xs @ ys) = severity_count sv xs + severity_count sv ys"
  by (simp add: severity_count_def)

lemma on_trade_events: "snd (on_trade m v s p ts now) = opt_list (snd (jump_check (m_jump m) v s p ts))
  @ opt_list (snd (stale_check (m_stale m) v s p ts now)) @ opt_list (snd (cross_check (observe (m_cross m) v s p) ts))"
  unfolding on_trade_def Let_def split_def map_filter_opt by simp

lemma on_trade_count: "count_ending sv (m_counts (fst (on_trade m v s p ts now)))
  = count_ending sv (m_counts m) + severity_count sv (snd (on_trade m v s p ts now))"
  unfolding on_trade_events severity_count_append by (simp add: on_trade_def Let_def split_def record_count)

lemma on_quote_count: "count_ending sv (m_counts (fst (on_quote m v s b a ts)))
  = count_ending sv (m_counts m) + severity_count sv (snd (on_quote m v s b a ts))"
  using record_count [of sv "m\<lparr>m_checked := m_checked m + 1\<rparr>"] by (simp add: on_quote_def Let_def opt_list_def)

lemma judged_count: "count_ending sv (m_counts (fst (judged D f now m)))
  = count_ending sv (m_counts m) + severity_count sv (snd (judged D f now m))"
  by (auto simp: judged_def on_trade_count on_quote_count severity_count_def split: sum.splits)

lemma fold_on_event: "fold on_event es q = q\<lparr>q_counter := fold (\<lambda>e. count_key (qe_check e, qe_severity e)) es (q_counter q),
    q_pending := q_pending q @ map event_row es\<rparr>"
  by (induction es arbitrary: q) (simp_all add: on_event_def)

lemma ingest_judged: "quality_ingest D f now q =
  (let (m, es) = judged D f now (q_monitor q) in
   q\<lparr>q_frames_in := q_frames_in q + 1, q_last_frame_at := now, q_upstream_ok := True, q_monitor := m,
     q_counter := fold (\<lambda>e. count_key (qe_check e, qe_severity e)) es (q_counter q),
     q_pending := q_pending q @ map event_row es\<rparr>)"
  by (simp add: quality_ingest_def Let_def split_def fold_on_event)

definition counter_value :: "'k \<Rightarrow> ('k \<times> nat) list \<Rightarrow> nat" where
  "counter_value k al = (case map_of al k of None \<Rightarrow> 0 | Some n \<Rightarrow> n)"

lemma counter_value_key: "counter_value k (count_key k' al) = counter_value k al + (if k = k' then 1 else 0)"
  by (simp add: counter_value_def count_key_def update_conv')

lemma counter_value_fold: "counter_value (c, sv) (fold (\<lambda>e. count_key (qe_check e, qe_severity e)) es al)
  = counter_value (c, sv) al + length (filter (\<lambda>e. qe_check e = c \<and> qe_severity e = sv) es)"
  by (induction es arbitrary: al) (auto simp: counter_value_key)

fun row_check :: "quality_row \<Rightarrow> string" where "row_check (t, c, sv, rest) = c"
fun row_severity :: "quality_row \<Rightarrow> severity" where "row_severity (t, c, sv, rest) = sv"

definition all_rows :: "quality_service \<Rightarrow> quality_row list" where
  "all_rows q = q_table q @ q_pending q"

definition books_ok :: "quality_service \<Rightarrow> bool" where
  "books_ok q \<longleftrightarrow>
     (\<forall>c sv. counter_value (c, sv) (q_counter q) = length (filter (\<lambda>r. row_check r = c \<and> row_severity r = sv) (all_rows q)))
     \<and> (\<forall>sv. count_ending sv (m_counts (q_monitor q)) = length (filter (\<lambda>r. row_severity r = sv) (all_rows q)))"

lemma row_of_event [simp]: "row_check (event_row e) = qe_check e" "row_severity (event_row e) = qe_severity e"
  by (simp_all add: event_row_def)

lemma books_ingest:
  assumes "books_ok q"
  shows "books_ok (quality_ingest D f now q)"
proof -
  obtain m es where j: "judged D f now (q_monitor q) = (m, es)" by fastforce
  have "count_ending sv (m_counts m) = count_ending sv (m_counts (q_monitor q)) + severity_count sv es" for sv
    using judged_count [of sv D f now "q_monitor q"] by (simp add: j)
  then show ?thesis using assms
    by (simp add: books_ok_def all_rows_def ingest_judged j counter_value_fold severity_count_def filter_map comp_def)
qed

lemma books_flush: "books_ok q \<Longrightarrow> books_ok (quality_flush True q)"
  by (simp add: quality_flush_def books_ok_def all_rows_def)

lemma books_step: "books_ok q \<Longrightarrow> i \<noteq> Flush False \<Longrightarrow> books_ok (quality_step D i q)"
proof (cases i)
  case StorageOpens
  then show "books_ok q \<Longrightarrow> books_ok (quality_step D i q)" by (simp add: books_ok_def all_rows_def)
next
  case (Flush ok)
  then show "books_ok q \<Longrightarrow> i \<noteq> Flush False \<Longrightarrow> books_ok (quality_step D i q)" by (cases ok) (simp_all add: books_flush)
qed (simp add: books_ingest)

lemma books_run: "books_ok q \<Longrightarrow> Flush False \<notin> set ins \<Longrightarrow> books_ok (fold (quality_step D) ins q)"
proof (induction ins arbitrary: q)
  case (Cons i ins)
  then have "books_ok (quality_step D i q)" by (intro books_step) auto
  then show ?case using Cons by simp
qed simp

lemma books_new: "books_ok (new_quality_service g)"
  by (auto simp: books_ok_def all_rows_def new_quality_service_def new_monitor_def counter_value_def count_ending_def
      CHECK_NAMES_def)

definition monitor_ok :: "monitor \<Rightarrow> bool" where
  "monitor_ok m \<longleftrightarrow> jump_ok (m_jump m) \<and> 0 < window (m_jump m) \<and> length (m_recent m) \<le> 100"

lemma record_recent: "length (m_recent m) \<le> 100 \<Longrightarrow> length (m_recent (record_event m ev)) \<le> 100"
  by (cases ev) (simp_all add: record_event_def last_n_def)

lemma monitor_ok_trade: "monitor_ok m \<Longrightarrow> monitor_ok (fst (on_trade m v s p ts now))"
  by (simp add: monitor_ok_def on_trade_def Let_def split_def jump_ok_check jump_check_config record_recent)

lemma monitor_ok_quote: "monitor_ok m \<Longrightarrow> monitor_ok (fst (on_quote m v s b a ts))"
  by (simp add: monitor_ok_def on_quote_def Let_def record_recent)

lemma monitor_ok_step: "monitor_ok (q_monitor q) \<Longrightarrow> monitor_ok (q_monitor (quality_step D i q))"
  by (cases i) (auto simp: ingest_judged judged_def quality_flush_def split_def Let_def monitor_ok_trade monitor_ok_quote
      split: sum.splits)

lemma monitor_ok_run: "monitor_ok (q_monitor q) \<Longrightarrow> monitor_ok (q_monitor (fold (quality_step D) ins q))"
  by (induction ins arbitrary: q) (simp_all add: monitor_ok_step)

lemma monitor_ok_new: "monitor_ok (new_monitor g)"
  by (simp add: monitor_ok_def new_monitor_def new_jump_def jump_ok_def)

lemma severities_cover: "length (filter (\<lambda>r. row_severity r = Critical) rows)
  + length (filter (\<lambda>r. row_severity r = Warning) rows) = length rows"
proof (induction rows)
  case (Cons r rows)
  then show ?case by (cases "row_severity r") simp_all
qed simp

text \<open>C25: As long as no insert fails, after any sequence of frames and flushes the service's books agree: for
  every check and severity the registry's counter is the number of rows of that kind written or waiting, the
  report's critical and warning totals are the rows of that severity and together all rows, the report's
  resets are the sum over the venues, and at most a hundred recent events are kept.\<close>

theorem quality_books:
  assumes "Flush False \<notin> set ins"
  shows "let q = fold (quality_step D) ins (new_quality_service g); rep = quality_report (q_monitor q) in
    (\<forall>c sv. counter_value (c, sv) (q_counter q) = length (filter (\<lambda>r. row_check r = c \<and> row_severity r = sv) (all_rows q)))
    \<and> r_critical rep = length (filter (\<lambda>r. row_severity r = Critical) (all_rows q))
    \<and> r_critical rep + r_warning rep = length (all_rows q)
    \<and> r_ref_resets rep = sum_list (map snd (r_ref_resets_by_venue rep)) \<and> length (m_recent (q_monitor q)) \<le> 100"
proof -
  let ?q = "fold (quality_step D) ins (new_quality_service g)"
  have b: "books_ok ?q" using books_run [OF books_new assms] .
  have "monitor_ok (q_monitor ?q)" by (rule monitor_ok_run) (simp add: new_quality_service_def monitor_ok_new)
  then have "jump_ok (m_jump (q_monitor ?q))" "length (m_recent (q_monitor ?q)) \<le> 100" by (simp_all add: monitor_ok_def)
  then show ?thesis using b severities_cover [of "all_rows ?q"]
    by (simp add: quality_report_def books_ok_def jump_ok_def Let_def)
qed

theorem quality_books_witness:
  "let q = fold (quality_step sample_doubles) [StorageOpens, Frame \<lparr>msg_type = 2, seq = 1, flags = 0, payload = replicate 64 0\<rparr> 5, Flush True]
      (new_quality_service default_quality_config); rep = quality_report (q_monitor q) in
    r_critical rep + r_warning rep = length (all_rows q)"
  using quality_books [of "[StorageOpens, Frame \<lparr>msg_type = 2, seq = 1, flags = 0, payload = replicate 64 0\<rparr> 5, Flush True]"
      sample_doubles default_quality_config]
  by (auto simp: Let_def)

text \<open>A failed insert loses its rows, and the service never judges a bar.\<close>

lemma failed_insert_loses: "q_open q \<Longrightarrow> all_rows (quality_flush False q) = q_table q"
  by (auto simp: quality_flush_def all_rows_def)

lemma check_names:
  "snd (jump_check j v s p ts) = Some e \<Longrightarrow> qe_check e = JUMP_NAME"
  "snd (stale_check c v s p ts now) = Some e \<Longrightarrow> qe_check e = STALE_NAME"
  "snd (cross_check x ts) = Some e \<Longrightarrow> qe_check e = CROSS_NAME"
  "quote_check mx v s b a ts = Some e \<Longrightarrow> qe_check e = QUOTE_NAME"
proof -
  show "snd (jump_check j v s p ts) = Some e \<Longrightarrow> qe_check e = JUMP_NAME"
    by (auto simp: jump_defs Let_def split: option.splits if_splits)
  show "snd (stale_check c v s p ts now) = Some e \<Longrightarrow> qe_check e = STALE_NAME"
    by (auto simp: stale_check_def Let_def split: option.splits if_splits)
  show "snd (cross_check x ts) = Some e \<Longrightarrow> qe_check e = CROSS_NAME"
    by (auto simp: cross_check_def implied_fx_def Let_def split: option.splits if_splits prod.splits)
  show "quote_check mx v s b a ts = Some e \<Longrightarrow> qe_check e = QUOTE_NAME"
    by (auto simp: quote_check_def Let_def split: if_splits)
qed

lemma on_trade_names: "e \<in> set (snd (on_trade m v s p ts now)) \<Longrightarrow> qe_check e \<in> {JUMP_NAME, STALE_NAME, CROSS_NAME}"
  unfolding on_trade_events opt_list_def using check_names by (auto split: option.splits)

lemma on_quote_names: "e \<in> set (snd (on_quote m v s b a ts)) \<Longrightarrow> qe_check e = QUOTE_NAME"
  using check_names(4) by (auto simp: on_quote_def Let_def split: option.splits)

lemma judged_names: "e \<in> set (snd (judged D f now m)) \<Longrightarrow> qe_check e \<noteq> BAR_NAME"
proof -
  have "BAR_NAME \<notin> {JUMP_NAME, STALE_NAME, CROSS_NAME, QUOTE_NAME}"
    by (simp add: JUMP_NAME_def STALE_NAME_def CROSS_NAME_def QUOTE_NAME_def BAR_NAME_def)
  then show "e \<in> set (snd (judged D f now m)) \<Longrightarrow> qe_check e \<noteq> BAR_NAME"
    unfolding judged_def by (auto split: if_splits sum.splits dest!: on_trade_names on_quote_names)
qed

lemma bars_never_judged: "BAR_NAME \<notin> row_check ` set (all_rows q) \<Longrightarrow> BAR_NAME \<notin> row_check ` set (all_rows (quality_step D i q))"
  by (cases i) (auto simp: all_rows_def ingest_judged quality_flush_def split_def Let_def image_iff dest: judged_names)
end
