(* ===== verification/KisTrading.thy ===== *)
theory KisTrading
  imports Entitlements PyText
begin

section \<open>The broker client\<close>

text \<open>
  Models \<^verbatim>\<open>src/mdfeed/kis_trading.py\<close>: which failures of a call are certain (\<^verbatim>\<open>Rejected\<close>) and which are not
  (\<^verbatim>\<open>Uncertain\<close>), the pacing of the calls, the single repetition after a throttled one, and the requests and
  answers of price, balance, day totals and orders. What the network did with a request (\<open>transport\<close>) and
  the clock are inputs; the pause before the repetition shows in the clock of the second attempt. A JSON number is an integer (the broker answers with strings); \<^verbatim>\<open>float()\<close> of a text
  is exact, so a result beyond the doubles is not rounded to infinity. The prose of a message is abbreviated.
\<close>

subsection \<open>Numbers out of texts\<close>

datatype py_float = Finite rat | Infinite | NotANumber

fun frac_value :: "text_u \<Rightarrow> rat" where
  "frac_value [] = 0"
| "frac_value (c # s) = (of_nat (c - 48) + frac_value s) / 10"

definition lower_ascii :: "text_u \<Rightarrow> text_u" where
  "lower_ascii = map (\<lambda>c. if 65 \<le> c \<and> c \<le> 90 then c + 32 else c)"

text \<open>Digits with single underscores between them; none at all is allowed where the other part has some.\<close>

definition part_value :: "text_u \<Rightarrow> nat option" where
  "part_value s = (if s = [] then Some 0 else digits_value False 0 s)"

definition decimal_value :: "text_u \<Rightarrow> rat option" where
  "decimal_value s =
     (let ip = takeWhile (\<lambda>c. c \<noteq> 46) s; fp = drop 1 (dropWhile (\<lambda>c. c \<noteq> 46) s) in
      case (part_value ip, part_value fp) of
        (Some i, Some _) \<Rightarrow> if ip = [] \<and> fp = [] then None
          else Some (of_nat i + frac_value (filter (\<lambda>c. c \<noteq> 95) fp))
      | _ \<Rightarrow> None)"

definition signed_int :: "text_u \<Rightarrow> int option" where
  "signed_int s = (case s of [] \<Rightarrow> None
     | c # r \<Rightarrow> if c = 45 then map_option (\<lambda>n. - int n) (digits_value False 0 r)
         else map_option int (digits_value False 0 (if c = 43 then r else s)))"

definition power_ten :: "int \<Rightarrow> rat" where
  "power_ten e = (if 0 \<le> e then 10 ^ nat e else 1 / 10 ^ nat (- e))"

definition unsigned_float :: "text_u \<Rightarrow> py_float option" where
  "unsigned_float s =
     (if s = asc ''inf'' \<or> s = asc ''infinity'' then Some Infinite
      else if s = asc ''nan'' then Some NotANumber
      else let m = takeWhile (\<lambda>c. c \<noteq> 101) s; rest = dropWhile (\<lambda>c. c \<noteq> 101) s in
        case (decimal_value m, if rest = [] then Some 0 else signed_int (tl rest)) of
          (Some v, Some e) \<Rightarrow> Some (Finite (v * power_ten e)) | _ \<Rightarrow> None)"

text \<open>\<^verbatim>\<open>float(text)\<close>; \<open>None\<close> is \<^verbatim>\<open>ValueError\<close>. The sign of an infinity does not matter here.\<close>

definition text_float :: "text_u \<Rightarrow> py_float option" where
  "text_float s =
     (case lower_ascii (strip s) of [] \<Rightarrow> None
      | c # r \<Rightarrow> if c = 45 then map_option (\<lambda>x. case x of Finite v \<Rightarrow> Finite (- v) | y \<Rightarrow> y) (unsigned_float r)
          else unsigned_float (if c = 43 then r else c # r))"

text \<open>\<^verbatim>\<open>_num\<close>: a missing or unreadable value is zero.\<close>

definition num :: "json \<Rightarrow> py_float" where
  "num v = (if \<not> truthy v then Finite 0 else case v of
     JBool b \<Rightarrow> Finite 1 | JNum n \<Rightarrow> Finite (of_int n)
   | JStr s \<Rightarrow> (case text_float s of None \<Rightarrow> Finite 0 | Some x \<Rightarrow> x)
   | _ \<Rightarrow> Finite 0)"

text \<open>\<^verbatim>\<open>int(float)\<close> truncates; of an infinity or NaN it raises.\<close>

definition trunc_float :: "py_float \<Rightarrow> int option" where
  "trunc_float x = (case x of Finite v \<Rightarrow> Some (if 0 \<le> v then \<lfloor>v\<rfloor> else \<lceil>v\<rceil>) | _ \<Rightarrow> None)"

subsection \<open>The outcome of a call\<close>

text \<open>\<open>Escaped\<close>: an exception that is neither \<^verbatim>\<open>Rejected\<close> nor \<^verbatim>\<open>Uncertain\<close>.\<close>

datatype 'a outcome = Good 'a | Rejected json text_u | Uncertain text_u | Escaped

text \<open>What became of a request: a body was read, an HTTP error whose body was read (or reading it failed), one
  of the caught network errors by its name, or another exception of the HTTP library.\<close>

datatype transport = Body loaded | HttpError nat "loaded option" | NetFault string | LibraryFault

definition fetch :: "text_u \<Rightarrow> transport \<Rightarrow> json outcome" where
  "fetch tr t = (case t of
     Body (Loaded j) \<Rightarrow> Good j
   | Body DecodeError \<Rightarrow> Uncertain (asc ''JSONDecodeError '' @ tr)
   | Body UnicodeError \<Rightarrow> Uncertain (asc ''UnicodeDecodeError '' @ tr)
   | HttpError code (Some (Loaded j)) \<Rightarrow> Good j
   | HttpError code (Some _) \<Rightarrow> Uncertain (asc ''HTTP '' @ digits code @ asc '' '' @ tr)
   | HttpError code None \<Rightarrow> Escaped
   | NetFault n \<Rightarrow> Uncertain (asc n @ asc '' '' @ tr)
   | LibraryFault \<Rightarrow> Escaped)"

definition THROTTLED :: "text_u list" where "THROTTLED = [asc ''EGW00201'', asc ''EGW00215'']"

definition throttled_code :: "json \<Rightarrow> bool" where
  "throttled_code c = (case c of JStr s \<Rightarrow> s \<in> set THROTTLED | _ \<Rightarrow> False)"

text \<open>\<^verbatim>\<open>(x or "").strip()\<close>; a value that is no text has no \<^verbatim>\<open>strip\<close>.\<close>

definition stripped :: "json \<Rightarrow> text_u option" where
  "stripped v = (if \<not> truthy v then Some [] else case v of JStr s \<Rightarrow> Some (strip s) | _ \<Rightarrow> None)"

definition has_part :: "text_u \<Rightarrow> text_u \<Rightarrow> bool" where
  "has_part needle s \<longleftrightarrow> needle \<in> set (map (\<lambda>i. take (length needle) (drop i s)) [0..<length s + 1])"

text \<open>\<^verbatim>\<open>"rt_cd" in d\<close> is a key test, a membership test or a substring test; of a number it raises.\<close>

definition judge :: "text_u \<Rightarrow> json \<Rightarrow> json outcome" where
  "judge tr d =
     (let missing = Uncertain (asc ''no rt_cd '' @ tr) in
      case d of
        JObj kvs \<Rightarrow>
          (if map_of (rev kvs) (asc ''rt_cd'') = None then missing
           else if obj_get kvs (asc ''rt_cd'') JNull = JStr (asc ''0'') then Good d
           else let code = obj_get kvs (asc ''msg_cd'') (JStr []) in
             if \<not> hashable code then Escaped
             else case stripped (obj_get kvs (asc ''msg1'') JNull) of None \<Rightarrow> Escaped | Some m \<Rightarrow> Rejected code m)
      | JArr xs \<Rightarrow> if JStr (asc ''rt_cd'') \<in> set xs then Escaped else missing
      | JStr s \<Rightarrow> if has_part (asc ''rt_cd'') s then Escaped else missing
      | _ \<Rightarrow> Escaped)"

definition verdict :: "text_u \<Rightarrow> transport \<Rightarrow> json outcome" where
  "verdict tr t = (case fetch tr t of Good d \<Rightarrow> judge tr d | r \<Rightarrow> r)"

subsection \<open>One call\<close>

datatype env = Mock | Real

record request =
  rq_post :: bool
  rq_path :: string
  rq_tr :: text_u
  rq_fields :: "(string \<times> text_u) list"

text \<open>The client; \<open>c_posted\<close> is the list of the requests that left, with their times on the monotonic clock.\<close>

record client =
  c_env :: env
  c_cano :: "text_u option"
  c_prdt :: text_u
  c_gap :: rat
  c_last :: rat
  c_calls :: nat
  c_seen :: "(string \<times> text_u) list"
  c_posted :: "(rat \<times> request) list"

text \<open>One attempt: whether a token was obtained, the clock when the pace is looked at, how much longer than asked
  the sleep lasted, and what the network did.\<close>

record attempt =
  y_token :: bool
  y_now :: rat
  y_over :: rat
  y_net :: transport

definition notify :: "string \<Rightarrow> text_u \<Rightarrow> client \<Rightarrow> client" where
  "notify k v c = c\<lparr>c_seen := c_seen c @ [(k, v)]\<rparr>"

definition start_at :: "client \<Rightarrow> attempt \<Rightarrow> rat" where
  "start_at c y = (let wait = c_last c + c_gap c - y_now y in
     if wait > 0 then y_now y + wait + y_over y else y_now y)"

definition call_once :: "request \<Rightarrow> attempt \<Rightarrow> client \<Rightarrow> client \<times> json outcome" where
  "call_once rq y c =
     (if \<not> y_token y then (c, Escaped)
      else let t = start_at c y;
               c1 = notify ''call'' (rq_tr rq) (c\<lparr>c_last := t, c_calls := c_calls c + 1, c_posted := c_posted c @ [(t, rq)]\<rparr>)
        in case verdict (rq_tr rq) (y_net y) of
             Rejected code m \<Rightarrow> ((if throttled_code code then notify ''throttled'' (case code of JStr s \<Rightarrow> s | _ \<Rightarrow> []) c1 else c1),
                Rejected code m)
           | r \<Rightarrow> (c1, r))"

text \<open>A rejection for the rate limit is repeated once.\<close>

definition call :: "request \<Rightarrow> attempt \<Rightarrow> attempt \<Rightarrow> client \<Rightarrow> client \<times> json outcome" where
  "call rq y1 y2 c =
     (case call_once rq y1 c of
        (c1, Rejected code m) \<Rightarrow> if throttled_code code then call_once rq y2 c1 else (c1, Rejected code m)
      | (c1, r) \<Rightarrow> (c1, r))"

subsection \<open>The requests\<close>

definition new_client :: "env \<Rightarrow> text_u \<Rightarrow> rat option \<Rightarrow> client option" where
  "new_client e account gap =
     (let s = filter (\<lambda>c. c \<noteq> 32) account;
          cano = takeWhile (\<lambda>c. c \<noteq> 45) s; prdt = drop 1 (dropWhile (\<lambda>c. c \<noteq> 45) s) in
      if account \<noteq> [] \<and> (length cano \<noteq> 8 \<or> \<not> list_all (\<lambda>c. 48 \<le> c \<and> c \<le> 57) cano) then None
      else Some \<lparr>c_env = e, c_cano = (if account \<noteq> [] then Some cano else None),
        c_prdt = (if account = [] then [] else if prdt = [] then asc ''01'' else prdt),
        c_gap = (case gap of Some g \<Rightarrow> g | None \<Rightarrow> (case e of Mock \<Rightarrow> 11 / 10 | Real \<Rightarrow> 6 / 100)),
        c_last = 0, c_calls = 0, c_seen = [], c_posted = []\<rparr>)"

definition tr_of :: "env \<Rightarrow> string \<Rightarrow> text_u" where
  "tr_of e what = asc ((case e of Mock \<Rightarrow> ''VTTC'' | Real \<Rightarrow> ''TTTC'')
     @ (if what = ''buy'' then ''0802U'' else if what = ''sell'' then ''0801U''
        else if what = ''balance'' then ''8434R'' else ''8001R''))"

definition TR_PRICE :: text_u where "TR_PRICE = asc ''FHKST01010100''"

definition account_label :: "client \<Rightarrow> text_u option" where
  "account_label c = (case c_cano c of None \<Rightarrow> None | Some a \<Rightarrow> Some (take 4 a @ asc ''****-'' @ c_prdt c))"

text \<open>\<^verbatim>\<open>d.get(k) or {}\<close> and the \<^verbatim>\<open>get\<close> on it: a truthy value that is no object has no \<^verbatim>\<open>get\<close>.\<close>

definition sub_obj :: "json \<Rightarrow> (text_u \<times> json) list option" where
  "sub_obj v = (if \<not> truthy v then Some [] else case v of JObj kvs \<Rightarrow> Some kvs | _ \<Rightarrow> None)"

definition field :: "string \<Rightarrow> (text_u \<times> json) list \<Rightarrow> json" where
  "field k kvs = obj_get kvs (asc k) JNull"

definition top_field :: "string \<Rightarrow> json \<Rightarrow> json" where
  "top_field k d = (case d of JObj kvs \<Rightarrow> field k kvs | _ \<Rightarrow> JNull)"

definition int_field :: "string \<Rightarrow> (text_u \<times> json) list \<Rightarrow> int option" where
  "int_field k kvs = trunc_float (num (field k kvs))"

record quote_answer =
  qa_price :: int
  qa_change :: int
  qa_change_pct :: py_float
  qa_volume :: int
  qa_high :: int
  qa_low :: int
  qa_open :: int

definition read_price :: "json \<Rightarrow> quote_answer option" where
  "read_price d = Option.bind (sub_obj (top_field ''output'' d)) (\<lambda>kvs.
     case (int_field ''stck_prpr'' kvs, int_field ''prdy_vrss'' kvs, int_field ''acml_vol'' kvs,
           int_field ''stck_hgpr'' kvs, int_field ''stck_lwpr'' kvs, int_field ''stck_oprc'' kvs) of
       (Some p, Some ch, Some v, Some hi, Some lw, Some op) \<Rightarrow>
         Some \<lparr>qa_price = p, qa_change = ch, qa_change_pct = num (field ''prdy_ctrt'' kvs), qa_volume = v,
           qa_high = hi, qa_low = lw, qa_open = op\<rparr>
     | _ \<Rightarrow> None)"

text \<open>Interpreting a good answer; a failure of it is an escaped exception.\<close>

definition read_with :: "(json \<Rightarrow> 'a option) \<Rightarrow> client \<times> json outcome \<Rightarrow> client \<times> 'a outcome" where
  "read_with f r = (case r of
     (c, Good d) \<Rightarrow> (c, case f d of None \<Rightarrow> Escaped | Some x \<Rightarrow> Good x)
   | (c, Rejected code m) \<Rightarrow> (c, Rejected code m) | (c, Uncertain m) \<Rightarrow> (c, Uncertain m) | (c, Escaped) \<Rightarrow> (c, Escaped))"

definition price_query :: "text_u \<Rightarrow> attempt \<Rightarrow> attempt \<Rightarrow> client \<Rightarrow> client \<times> quote_answer outcome" where
  "price_query stock y1 y2 c = read_with read_price
     (call \<lparr>rq_post = False, rq_path = ''quotations/inquire-price'', rq_tr = TR_PRICE,
        rq_fields = [(''FID_COND_MRKT_DIV_CODE'', asc ''J''), (''FID_INPUT_ISCD'', stock)]\<rparr> y1 y2 c)"

record kis_holding =
  kh_symbol :: json
  kh_name :: json
  kh_qty :: int
  kh_avg_price :: py_float
  kh_price :: int
  kh_pnl :: int
  kh_pnl_pct :: py_float

record kis_balance =
  kb_cash :: int
  kb_total :: int
  kb_pnl :: int
  kb_holdings :: "kis_holding list"

text \<open>A row without shares is left out; one that cannot be read fails the call.\<close>

fun read_holdings :: "json list \<Rightarrow> kis_holding list option" where
  "read_holdings [] = Some []"
| "read_holdings (h # hs) =
     (case h of JObj kvs \<Rightarrow>
        (case int_field ''hldg_qty'' kvs of None \<Rightarrow> None
         | Some q \<Rightarrow> if q \<le> 0 then read_holdings hs
             else case (int_field ''prpr'' kvs, int_field ''evlu_pfls_amt'' kvs, read_holdings hs) of
               (Some p, Some l, Some rest) \<Rightarrow> Some (\<lparr>kh_symbol = field ''pdno'' kvs, kh_name = field ''prdt_name'' kvs,
                 kh_qty = q, kh_avg_price = num (field ''pchs_avg_pric'' kvs), kh_price = p, kh_pnl = l,
                 kh_pnl_pct = num (field ''evlu_pfls_rt'' kvs)\<rparr> # rest)
             | _ \<Rightarrow> None)
      | _ \<Rightarrow> None)"

text \<open>\<^verbatim>\<open>(d.get("output2") or [{}])[0]\<close>: of an object the key \<^verbatim>\<open>0\<close> is missing.\<close>

definition first_row :: "json \<Rightarrow> (text_u \<times> json) list option" where
  "first_row v = (if \<not> truthy v then Some [] else case v of JArr (JObj kvs # _) \<Rightarrow> Some kvs | _ \<Rightarrow> None)"

definition rows_of :: "json \<Rightarrow> json list option" where
  "rows_of v = (if \<not> truthy v then Some [] else case v of JArr xs \<Rightarrow> Some xs | _ \<Rightarrow> None)"

definition read_balance :: "json \<Rightarrow> kis_balance option" where
  "read_balance d = Option.bind (first_row (top_field ''output2'' d)) (\<lambda>s.
     Option.bind (Option.bind (rows_of (top_field ''output1'' d)) read_holdings) (\<lambda>hs.
       case (int_field ''dnca_tot_amt'' s, int_field ''tot_evlu_amt'' s, int_field ''evlu_pfls_smtl_amt'' s) of
         (Some a, Some b, Some p) \<Rightarrow> Some \<lparr>kb_cash = a, kb_total = b, kb_pnl = p, kb_holdings = hs\<rparr> | _ \<Rightarrow> None))"

text \<open>A call that needs the account raises at once in a client for quotes only.\<close>

definition with_account :: "(text_u \<Rightarrow> client \<times> 'a outcome) \<Rightarrow> client \<Rightarrow> client \<times> 'a outcome" where
  "with_account f c = (case c_cano c of None \<Rightarrow> (c, Escaped) | Some a \<Rightarrow> if a = [] then (c, Escaped) else f a)"

definition balance_query :: "attempt \<Rightarrow> attempt \<Rightarrow> client \<Rightarrow> client \<times> kis_balance outcome" where
  "balance_query y1 y2 c = with_account (\<lambda>a. read_with read_balance
     (call \<lparr>rq_post = False, rq_path = ''trading/inquire-balance'', rq_tr = tr_of (c_env c) ''balance'',
        rq_fields = [(''CANO'', a), (''ACNT_PRDT_CD'', c_prdt c), (''AFHR_FLPR_YN'', asc ''N''), (''OFL_YN'', []),
          (''INQR_DVSN'', asc ''02''), (''UNPR_DVSN'', asc ''01''), (''FUND_STTL_ICLD_YN'', asc ''N''),
          (''FNCG_AMT_AUTO_RDPT_YN'', asc ''N''), (''PRCS_DVSN'', asc ''00''), (''CTX_AREA_FK100'', []),
          (''CTX_AREA_NK100'', [])]\<rparr> y1 y2 c)) c"

definition side_code :: "string \<Rightarrow> text_u" where
  "side_code sd = asc (if sd = ''sell'' then ''01'' else ''02'')"

text \<open>The totals come as an object or as a list whose first row counts.\<close>

definition totals_row :: "json \<Rightarrow> (text_u \<times> json) list option" where
  "totals_row v = (if \<not> truthy v then Some [] else case v of
     JObj kvs \<Rightarrow> Some kvs | JArr (JObj kvs # _) \<Rightarrow> Some kvs | _ \<Rightarrow> None)"

definition read_totals :: "json \<Rightarrow> (int \<times> int \<times> int) option" where
  "read_totals d = Option.bind (totals_row (top_field ''output2'' d)) (\<lambda>kvs.
     case (int_field ''tot_ord_qty'' kvs, int_field ''tot_ccld_qty'' kvs, int_field ''tot_ccld_amt'' kvs) of
       (Some a, Some b, Some m) \<Rightarrow> Some (a, b, m) | _ \<Rightarrow> None)"

definition day_totals :: "text_u \<Rightarrow> text_u \<Rightarrow> string \<Rightarrow> attempt \<Rightarrow> attempt \<Rightarrow> client \<Rightarrow> client \<times> (int \<times> int \<times> int) outcome" where
  "day_totals date stock sd y1 y2 c = with_account (\<lambda>a. read_with read_totals
     (call \<lparr>rq_post = False, rq_path = ''trading/inquire-daily-ccld'', rq_tr = tr_of (c_env c) ''ccld'',
        rq_fields = [(''CANO'', a), (''ACNT_PRDT_CD'', c_prdt c), (''INQR_STRT_DT'', date), (''INQR_END_DT'', date),
          (''SLL_BUY_DVSN_CD'', side_code sd), (''INQR_DVSN'', asc ''00''), (''PDNO'', stock), (''CCLD_DVSN'', asc ''00''),
          (''ORD_GNO_BRNO'', []), (''ODNO'', []), (''INQR_DVSN_3'', asc ''00''), (''INQR_DVSN_1'', []),
          (''CTX_AREA_FK100'', []), (''CTX_AREA_NK100'', [])]\<rparr> y1 y2 c)) c"

text \<open>An accepted order: its number, which is any truthy value, its time and the broker's message.\<close>

definition read_order :: "json \<Rightarrow> (json \<times> json \<times> text_u) outcome" where
  "read_order d = (case sub_obj (top_field ''output'' d) of None \<Rightarrow> Escaped
     | Some kvs \<Rightarrow> if \<not> truthy (field ''ODNO'' kvs) then Uncertain (asc ''no ODNO'')
         else case stripped (top_field ''msg1'' d) of None \<Rightarrow> Escaped | Some m \<Rightarrow> Good (field ''ODNO'' kvs, field ''ORD_TMD'' kvs, m))"

definition order_request :: "client \<Rightarrow> text_u \<Rightarrow> string \<Rightarrow> text_u \<Rightarrow> int \<Rightarrow> int \<Rightarrow> request" where
  "order_request c a sd stock q p = \<lparr>rq_post = True, rq_path = ''trading/order-cash'', rq_tr = tr_of (c_env c) sd,
     rq_fields = [(''CANO'', a), (''ACNT_PRDT_CD'', c_prdt c), (''PDNO'', stock),
       (''ORD_DVSN'', asc (if p = 0 then ''01'' else ''00'')), (''ORD_QTY'', int_text q), (''ORD_UNPR'', int_text p)]\<rparr>"

definition place_order :: "string \<Rightarrow> text_u \<Rightarrow> int \<Rightarrow> int \<Rightarrow> attempt \<Rightarrow> attempt \<Rightarrow> client \<Rightarrow> client \<times> (json \<times> json \<times> text_u) outcome" where
  "place_order sd stock q p y1 y2 c = with_account (\<lambda>a.
     case call (order_request c a sd stock q p) y1 y2 c of
       (c1, Good d) \<Rightarrow> (c1, read_order d)
     | (c1, Rejected code m) \<Rightarrow> (c1, Rejected code m) | (c1, Uncertain m) \<Rightarrow> (c1, Uncertain m)
     | (c1, Escaped) \<Rightarrow> (c1, Escaped)) c"

subsection \<open>Facts\<close>

lemma float_samples:
  "text_float (asc '' -71_000.25 '') = Some (Finite (- 284001 / 4))" "text_float (asc ''1e3'') = Some (Finite 1000)"
  "text_float (asc ''.'') = None" "text_float (asc ''7a'') = None" "text_float (asc ''Nan'') = Some NotANumber"
  by (simp_all add: text_float_def asc_def strip_def lstrip_def is_space_def lower_ascii_def unsigned_float_def
      decimal_value_def part_value_def signed_int_def power_ten_def)

lemma trunc_int: "trunc_float (num (JNum n)) = Some n"
  by (simp add: num_def trunc_float_def)

text \<open>An outcome tells what the broker did: a rejection is the broker's own answer.\<close>

definition refuses :: "transport \<Rightarrow> bool" where
  "refuses t = (case fetch [] t of
     Good (JObj kvs) \<Rightarrow> map_of (rev kvs) (asc ''rt_cd'') \<noteq> None \<and> obj_get kvs (asc ''rt_cd'') JNull \<noteq> JStr (asc ''0'')
   | _ \<Rightarrow> False)"

definition accepts :: "transport \<Rightarrow> bool" where
  "accepts t = (case fetch [] t of Good (JObj kvs) \<Rightarrow> map_of (rev kvs) (asc ''rt_cd'') = Some (JStr (asc ''0'')) | _ \<Rightarrow> False)"

lemma fetch_good: "fetch tr t = Good d \<longleftrightarrow> fetch [] t = Good d"
  by (auto simp: fetch_def split: transport.splits loaded.splits option.splits)

lemma verdict_rejected: "verdict tr t = Rejected code m \<Longrightarrow> refuses t"
  by (auto simp: verdict_def fetch_def judge_def refuses_def Let_def
      split: transport.splits loaded.splits option.splits json.splits if_splits)

lemma verdict_good: "verdict tr t = Good d \<Longrightarrow> accepts t \<and> fetch tr t = Good d"
  by (auto simp: verdict_def fetch_def judge_def accepts_def obj_get_def Let_def
      split: transport.splits loaded.splits option.splits json.splits if_splits)

lemma accepts_not_refused: "accepts t \<Longrightarrow> \<not> refuses t"
  by (auto simp: accepts_def refuses_def obj_get_def split: outcome.splits json.splits)

lemma call_once_outcome: "snd (call_once rq y c) = (if y_token y then verdict (rq_tr rq) (y_net y) else Escaped)"
  by (auto simp: call_once_def Let_def split: outcome.splits)

lemma call_once_posted: "c_posted (fst (call_once rq y c)) = c_posted c @ (if y_token y then [(start_at c y, rq)] else [])"
  by (auto simp: call_once_def notify_def Let_def split: outcome.splits)

lemma call_once_keeps: "c_gap (fst (call_once rq y c)) = c_gap c \<and> c_env (fst (call_once rq y c)) = c_env c
  \<and> c_cano (fst (call_once rq y c)) = c_cano c \<and> c_prdt (fst (call_once rq y c)) = c_prdt c
  \<and> c_last (fst (call_once rq y c)) = (if y_token y then start_at c y else c_last c)"
  by (auto simp: call_once_def notify_def Let_def split: outcome.splits)

text \<open>The attempts of a call that reached the network.\<close>

definition throttled_answer :: "text_u \<Rightarrow> transport \<Rightarrow> bool" where
  "throttled_answer tr t = (case verdict tr t of Rejected code m \<Rightarrow> throttled_code code | _ \<Rightarrow> False)"

definition attempts :: "text_u \<Rightarrow> attempt \<Rightarrow> attempt \<Rightarrow> attempt list" where
  "attempts tr y1 y2 = (if \<not> y_token y1 then [] else if throttled_answer tr (y_net y1) \<and> y_token y2 then [y1, y2] else [y1])"

lemma call_cases:
  "call rq y1 y2 c = (if y_token y1 \<and> throttled_answer (rq_tr rq) (y_net y1) then call_once rq y2 (fst (call_once rq y1 c))
     else call_once rq y1 c)"
proof -
  obtain c1 r where one: "call_once rq y1 c = (c1, r)" by fastforce
  have "r = (if y_token y1 then verdict (rq_tr rq) (y_net y1) else Escaped)" using call_once_outcome [of rq y1 c] by (simp add: one)
  then show ?thesis by (cases r) (auto simp: call_def one throttled_answer_def split: outcome.splits)
qed

lemma call_posted: "map snd (c_posted (fst (call rq y1 y2 c)))
  = map snd (c_posted c) @ replicate (length (attempts (rq_tr rq) y1 y2)) rq"
  by (auto simp: call_cases attempts_def call_once_posted)

lemma call_outcome: "snd (call rq y1 y2 c) = (case attempts (rq_tr rq) y1 y2 of [] \<Rightarrow> Escaped
  | [y] \<Rightarrow> if throttled_answer (rq_tr rq) (y_net y) then Escaped else verdict (rq_tr rq) (y_net y)
  | y # y' # _ \<Rightarrow> verdict (rq_tr rq) (y_net y'))"
  by (auto simp: call_cases attempts_def call_once_outcome)

lemma throttled_refuses: "throttled_answer tr t \<Longrightarrow> refuses t"
  by (auto simp: throttled_answer_def split: outcome.splits dest: verdict_rejected)

text \<open>What a call's outcome tells, when the broker never acts on a request it refuses and acts on one it accepts.\<close>

lemma call_effect:
  assumes no: "\<And>y. y \<in> {y1, y2} \<Longrightarrow> refuses (y_net y) \<Longrightarrow> \<not> taken y"
    and yes: "\<And>y. y \<in> {y1, y2} \<Longrightarrow> accepts (y_net y) \<Longrightarrow> taken y"
  shows "length (filter taken (attempts (rq_tr rq) y1 y2)) \<le> 1
    \<and> (case snd (call rq y1 y2 c) of Good d \<Rightarrow> length (filter taken (attempts (rq_tr rq) y1 y2)) = 1
        | Rejected code m \<Rightarrow> filter taken (attempts (rq_tr rq) y1 y2) = [] | _ \<Rightarrow> True)"
  using no [of y1] no [of y2] yes [of y1] yes [of y2] throttled_refuses [of "rq_tr rq" "y_net y1"]
  by (auto simp: call_outcome attempts_def split: outcome.splits dest: verdict_rejected verdict_good)
lemma read_order_no_rejection: "read_order d \<noteq> Rejected code m"
  by (auto simp: read_order_def split: option.splits if_splits)

text \<open>C6: Whatever the network does, an order leaves the client at most twice, each time as the same request, and
  the second time only after the broker's own refusal of the first; so if the broker never books an order it
  refuses and books one it accepts, then at most one order is booked, exactly one when the call returns an
  order number, and none when it reports \<open>Rejected\<close>. Without an account nothing is sent.\<close>

theorem order_outcome_certain:
  assumes no: "\<forall>y \<in> {y1, y2}. refuses (y_net y) \<longrightarrow> \<not> taken y"
    and yes: "\<forall>y \<in> {y1, y2}. accepts (y_net y) \<longrightarrow> taken y"
  shows "let (c', r) = place_order sd stock q p y1 y2 c;
             sent = (if c_cano c \<in> {None, Some []} then [] else attempts (tr_of (c_env c) sd) y1 y2) in
    length sent \<le> 2 \<and> (\<exists>rq. map snd (c_posted c') = map snd (c_posted c) @ replicate (length sent) rq)
    \<and> length (filter taken sent) \<le> 1
    \<and> (case r of Good x \<Rightarrow> length (filter taken sent) = 1 | Rejected code m \<Rightarrow> filter taken sent = [] | _ \<Rightarrow> True)"
proof (cases "c_cano c \<in> {None, Some []}")
  case True
  then have "place_order sd stock q p y1 y2 c = (c, Escaped)" by (auto simp: place_order_def with_account_def)
  then show ?thesis using True by auto
next
  case False
  then obtain a where a: "c_cano c = Some a" "a \<noteq> []" by auto
  let ?rq = "order_request c a sd stock q p"
  obtain c' r where call: "call ?rq y1 y2 c = (c', r)" by fastforce
  have tr: "rq_tr ?rq = tr_of (c_env c) sd" by (simp add: order_request_def)
  have effect: "length (filter taken (attempts (tr_of (c_env c) sd) y1 y2)) \<le> 1"
    "case r of Good d \<Rightarrow> length (filter taken (attempts (tr_of (c_env c) sd) y1 y2)) = 1
      | Rejected code m \<Rightarrow> filter taken (attempts (tr_of (c_env c) sd) y1 y2) = [] | _ \<Rightarrow> True"
    using call_effect [of y1 y2 taken ?rq c] no yes unfolding tr call by auto
  have posted: "map snd (c_posted c') = map snd (c_posted c) @ replicate (length (attempts (tr_of (c_env c) sd) y1 y2)) ?rq"
    using call_posted [of ?rq y1 y2 c] unfolding tr call by simp
  have "length (attempts (tr_of (c_env c) sd) y1 y2) \<le> 2" by (simp add: attempts_def)
  moreover obtain r' where r': "place_order sd stock q p y1 y2 c = (c', r')"
    "\<And>x. r' = Good x \<Longrightarrow> \<exists>d. r = Good d" "\<And>code m. r' = Rejected code m \<Longrightarrow> r = Rejected code m"
    using a call read_order_no_rejection by (cases r) (auto simp: place_order_def with_account_def)
  ultimately show ?thesis using effect posted False r'(2,3) by (cases r') (auto simp: r'(1) simp del: replicate.simps)
qed

definition sample_answer :: "string \<Rightarrow> string \<Rightarrow> json" where
  "sample_answer rt code = JObj [(asc ''rt_cd'', JStr (asc rt)), (asc ''msg_cd'', JStr (asc code)),
     (asc ''output'', JObj [(asc ''ODNO'', JStr (asc ''17''))])]"

definition sample_try :: "rat \<Rightarrow> json \<Rightarrow> attempt" where
  "sample_try t d = \<lparr>y_token = True, y_now = t, y_over = 0, y_net = Body (Loaded d)\<rparr>"

definition sample_client :: client where
  "sample_client = \<lparr>c_env = Mock, c_cano = Some (asc ''12345678''), c_prdt = asc ''01'', c_gap = 11 / 10, c_last = 0, c_calls = 0,
     c_seen = [], c_posted = []\<rparr>"

theorem order_outcome_certain_witness:
  "let y1 = sample_try 5 (sample_answer ''1'' ''EGW00201''); y2 = sample_try 6 (sample_answer ''0'' ''OK'');
       sent = attempts (tr_of Mock ''buy'') y1 y2 in
   length sent = 2 \<and> length (filter (\<lambda>y. y = y2) sent) \<le> 1"
proof -
  let ?y1 = "sample_try 5 (sample_answer ''1'' ''EGW00201'')" and ?y2 = "sample_try 6 (sample_answer ''0'' ''OK'')"
  have r: "refuses (y_net ?y1)" "accepts (y_net ?y2)" "\<not> accepts (y_net ?y1)"
    by (simp_all add: refuses_def accepts_def sample_try_def sample_answer_def fetch_def obj_get_def asc_def)
  have ne: "?y1 \<noteq> ?y2" by (simp add: sample_try_def)
  have "throttled_answer (tr_of Mock ''buy'') (y_net ?y1)"
    by (simp add: throttled_answer_def verdict_def fetch_def judge_def sample_try_def sample_answer_def obj_get_def asc_def
        THROTTLED_def throttled_code_def stripped_def)
  then have two: "attempts (tr_of Mock ''buy'') ?y1 ?y2 = [?y1, ?y2]" by (simp add: attempts_def sample_try_def)
  have "\<forall>y \<in> {?y1, ?y2}. refuses (y_net y) \<longrightarrow> \<not> (y = ?y2)" "\<forall>y \<in> {?y1, ?y2}. accepts (y_net y) \<longrightarrow> y = ?y2"
    using r ne accepts_not_refused by auto
  from order_outcome_certain [OF this, of "''buy''" "asc ''005930''" 3 0 sample_client]
  have "length (filter (\<lambda>y. y = ?y2) (attempts (tr_of Mock ''buy'') ?y1 ?y2)) \<le> 1"
    by (simp add: Let_def split_def sample_client_def asc_def)
  then show ?thesis using two by (simp add: Let_def)
qed

subsection \<open>Pacing\<close>

text \<open>Two requests leave at least \<open>c_gap\<close> apart, whatever the clock and the sleeps do.\<close>

definition paced :: "client \<Rightarrow> bool" where
  "paced c \<longleftrightarrow> successively (\<lambda>a b. fst a + c_gap c \<le> fst b) (c_posted c)
     \<and> (c_posted c = [] \<or> fst (last (c_posted c)) = c_last c)"

lemma start_after_gap: "0 \<le> y_over y \<Longrightarrow> c_last c + c_gap c \<le> start_at c y"
  by (simp add: start_at_def Let_def)

lemma paced_call_once:
  assumes "paced c" "0 \<le> y_over y"
  shows "paced (fst (call_once rq y c))"
proof (cases "y_token y")
  case True
  then show ?thesis using assms start_after_gap [OF assms(2), of c]
    by (auto simp: paced_def call_once_posted call_once_keeps successively_append_iff)
next
  case False
  then show ?thesis using assms by (simp add: call_once_def)
qed

lemma paced_call: "paced c \<Longrightarrow> 0 \<le> y_over y1 \<Longrightarrow> 0 \<le> y_over y2 \<Longrightarrow> paced (fst (call rq y1 y2 c))"
  by (simp add: call_cases paced_call_once)

lemma paced_run:
  assumes "paced c" "\<forall>(rq, y1, y2) \<in> set calls. 0 \<le> y_over y1 \<and> 0 \<le> y_over y2"
  shows "paced (fold (\<lambda>(rq, y1, y2) c. fst (call rq y1 y2 c)) calls c)"
  using assms
proof (induction calls arbitrary: c)
  case (Cons x calls)
  obtain rq y1 y2 where x: "x = (rq, y1, y2)" by (cases x)
  show ?case using Cons paced_call [of c y1 y2 rq] by (simp add: x)
qed simp

lemma new_client_paced: "new_client e account gap = Some c \<Longrightarrow> paced c"
  by (auto simp: new_client_def paced_def Let_def split: if_splits)

text \<open>Failures that are neither: a body cut short, an HTTP error whose body cannot be read, an answer that is no
  object; and an accepted order whose message is no text.\<close>

lemma answers_escape:
  "y_token y \<Longrightarrow> y_net y \<in> {LibraryFault, HttpError 500 None, Body (Loaded JNull)} \<Longrightarrow> snd (call rq y y' c) = Escaped"
  by (auto simp: call_cases call_once_outcome throttled_answer_def verdict_def fetch_def judge_def)

lemma accepted_order_escapes:
  assumes "y_token y" "c_cano c = Some (asc ''12345678'')"
    and net: "y_net y = Body (Loaded (JObj [(asc ''rt_cd'', JStr (asc ''0'')), (asc ''msg1'', JNum 1),
      (asc ''output'', JObj [(asc ''ODNO'', JStr (asc ''17''))])]))"
  shows "accepts (y_net y) \<and> snd (place_order sd stock q p y y' c) = Escaped"
  using assms by (simp add: accepts_def place_order_def with_account_def call_cases call_once_def throttled_answer_def
      verdict_def fetch_def judge_def obj_get_def asc_def read_order_def top_field_def field_def sub_obj_def stripped_def Let_def)
end
