(* ===== verification/KisNotice.thy ===== *)
theory KisNotice
  imports KisTrading "HOL-Library.AList"
begin

section \<open>Execution notices\<close>

text \<open>
  Models \<^verbatim>\<open>src/mdfeed/kis_notice.py\<close>: the fields of a decrypted notice, the key that makes a repeated one
  recognisable, what the client does with a message of the broker's socket, and the pauses between its
  sessions. The decryption (a third-party library) and \<^verbatim>\<open>json.loads\<close> are parameters; fetching the approval
  key, the socket, the text of the last error and logging are not modelled, and the callback that receives
  a notice is taken not to raise.
\<close>

datatype notice_kind = Fill | Ack | Refused

record notice =
  nt_kind :: notice_kind
  nt_odno :: text_u
  nt_side :: string
  nt_symbol :: text_u
  nt_qty :: int
  nt_price :: int
  nt_time :: text_u
  nt_order_qty :: int

definition F_ODNO :: nat where "F_ODNO = 2"
definition F_SIDE :: nat where "F_SIDE = 4"
definition F_SYMBOL :: nat where "F_SYMBOL = 8"
definition F_QTY :: nat where "F_QTY = 9"
definition F_PRICE :: nat where "F_PRICE = 10"
definition F_TIME :: nat where "F_TIME = 11"
definition F_REFUSED :: nat where "F_REFUSED = 12"
definition F_FILLED :: nat where "F_FILLED = 13"
definition F_ORDER_QTY :: nat where "F_ORDER_QTY = 16"
definition MIN_FIELDS :: nat where "MIN_FIELDS = F_ORDER_QTY + 1"

lemmas field_defs = F_ODNO_def F_SIDE_def F_SYMBOL_def F_QTY_def F_PRICE_def F_TIME_def F_REFUSED_def F_FILLED_def
  F_ORDER_QTY_def MIN_FIELDS_def

definition notice_side :: "text_u \<Rightarrow> string" where
  "notice_side s = (if s = asc ''01'' then ''sell'' else if s = asc ''02'' then ''buy'' else ''?'')"

definition notice_key :: "notice \<Rightarrow> text_u" where
  "notice_key n = dropWhile (\<lambda>c. c = 48) (nt_odno n) @ 124 # nt_time n @ 124 # int_text (nt_qty n) @ 124 # int_text (nt_price n)"

text \<open>\<^verbatim>\<open>int(x or 0)\<close>, and the price, whose float may be an infinity: then \<^verbatim>\<open>int\<close> raises \<^verbatim>\<open>OverflowError\<close>, which is
  not caught.\<close>

definition int_or_zero :: "text_u \<Rightarrow> int option" where
  "int_or_zero s = (if s = [] then Some 0 else text_int s)"

datatype parsed = Unparsed | Parsed notice | ParseEscapes

definition parse_notice :: "text_u list \<Rightarrow> parsed" where
  "parse_notice fs =
     (if length fs < MIN_FIELDS then Unparsed
      else let filled = fs ! F_FILLED = asc ''2'';
               refused = fs ! F_REFUSED = asc ''Y'' \<or> fs ! F_REFUSED = asc ''y'' in
        case (if filled then int_or_zero (fs ! F_QTY) else Some 0) of
          None \<Rightarrow> Unparsed
        | Some q \<Rightarrow>
            (case (if fs ! F_PRICE = [] then Some (Finite 0) else text_float (fs ! F_PRICE)) of
               None \<Rightarrow> Unparsed
             | Some NotANumber \<Rightarrow> Unparsed
             | Some Infinite \<Rightarrow> ParseEscapes
             | Some (Finite v) \<Rightarrow>
                 (case int_or_zero (fs ! F_ORDER_QTY) of
                    None \<Rightarrow> Unparsed
                  | Some oq \<Rightarrow> Parsed \<lparr>nt_kind = (if refused then Refused else if filled then Fill else Ack),
                      nt_odno = fs ! F_ODNO, nt_side = notice_side (fs ! F_SIDE), nt_symbol = fs ! F_SYMBOL,
                      nt_qty = q, nt_price = (if 0 \<le> v then \<lfloor>v\<rfloor> else \<lceil>v\<rceil>), nt_time = fs ! F_TIME,
                      nt_order_qty = oq\<rparr>)))"

subsection \<open>The client\<close>

datatype last_problem = NoProblem | SubscriptionRefused json text_u | SessionFailed text_u

record notice_client =
  k_tr :: text_u
  k_keys :: "(json \<times> json) option"
  k_connected :: bool
  k_subscribed :: bool
  k_counts :: "(string \<times> nat) list"
  k_problem :: last_problem
  k_logged_raw :: nat
  k_ponged :: "text_u list"
  k_delivered :: "notice list"

definition new_notice_client :: "env \<Rightarrow> notice_client" where
  "new_notice_client e = \<lparr>k_tr = asc (case e of Mock \<Rightarrow> ''H0STCNI9'' | Real \<Rightarrow> ''H0STCNI0''), k_keys = None, k_connected = False,
     k_subscribed = False, k_counts = [], k_problem = NoProblem, k_logged_raw = 0, k_ponged = [], k_delivered = []\<rparr>"

definition count_of :: "string \<Rightarrow> notice_client \<Rightarrow> nat" where
  "count_of k c = (case map_of (k_counts c) k of None \<Rightarrow> 0 | Some n \<Rightarrow> n)"

definition bump :: "string \<Rightarrow> notice_client \<Rightarrow> notice_client" where
  "bump k c = c\<lparr>k_counts := AList.update k (count_of k c + 1) (k_counts c)\<rparr>"

text \<open>\<^verbatim>\<open>text.split("|", 3)\<close>: at most four parts.\<close>

fun split_max :: "nat \<Rightarrow> nat \<Rightarrow> text_u \<Rightarrow> text_u list" where
  "split_max c 0 s = [s]"
| "split_max c (Suc n) s =
     (if c \<in> set s then takeWhile (\<lambda>x. x \<noteq> c) s # split_max c n (drop 1 (dropWhile (\<lambda>x. x \<noteq> c) s)) else [s])"

fun kind_name :: "notice_kind \<Rightarrow> string" where
  "kind_name Fill = ''fill''"
| "kind_name Ack = ''ack''"
| "kind_name Refused = ''refused''"

text \<open>A step gives the client and whether the session goes on; an exception ends it.\<close>

definition on_control :: "(text_u \<times> json) list \<Rightarrow> text_u \<Rightarrow> notice_client \<Rightarrow> notice_client \<times> bool" where
  "on_control msg txt c =
     (case (sub_obj (field ''header'' msg), sub_obj (field ''body'' msg)) of
        (Some header, Some body) \<Rightarrow>
          if field ''tr_id'' header = JStr (asc ''PINGPONG'') then (c\<lparr>k_ponged := k_ponged c @ [txt]\<rparr>, True)
          else (case sub_obj (field ''output'' body) of
             None \<Rightarrow> (c, False)
           | Some out \<Rightarrow>
               if field ''rt_cd'' body = JStr (asc ''0'') \<and> truthy (field ''key'' out)
               then (if map_of (rev out) (asc ''iv'') = None then (c, False)
                     else (c\<lparr>k_keys := Some (field ''key'' out, field ''iv'' out), k_subscribed := True\<rparr>,
                           stripped (field ''msg1'' body) \<noteq> None))
               else if field ''rt_cd'' body \<noteq> JNull \<and> field ''rt_cd'' body \<noteq> JStr (asc ''0'')
               then (case stripped (field ''msg1'' body) of None \<Rightarrow> (c, False)
                  | Some m \<Rightarrow> (c\<lparr>k_problem := SubscriptionRefused (field ''msg_cd'' body) m\<rparr>, True))
               else (c, True))
      | _ \<Rightarrow> (c, False))"

definition on_payload :: "text_u \<Rightarrow> notice_client \<Rightarrow> notice_client \<times> bool" where
  "on_payload payload c =
     (let fs = PyText.split_on 94 payload;
          c1 = (if k_logged_raw c < 3 then c\<lparr>k_logged_raw := k_logged_raw c + 1\<rparr> else c)
      in case parse_notice fs of
           Unparsed \<Rightarrow> (bump ''unparsed'' c1, True)
         | ParseEscapes \<Rightarrow> (c1, False)
         | Parsed n \<Rightarrow> let c2 = bump (kind_name (nt_kind n)) c1 in (c2\<lparr>k_delivered := k_delivered c2 @ [n]\<rparr>, True))"

definition on_message :: "(text_u \<Rightarrow> loaded) \<Rightarrow> (json \<Rightarrow> json \<Rightarrow> text_u \<Rightarrow> text_u option) \<Rightarrow> text_u \<Rightarrow> notice_client
    \<Rightarrow> notice_client \<times> bool" where
  "on_message loads decrypt txt c =
     (if take 1 txt = asc ''{'' then (case loads txt of Loaded (JObj msg) \<Rightarrow> on_control msg txt c | _ \<Rightarrow> (c, False))
      else let parts = split_max 124 3 txt in
        if length parts < 4 \<or> parts ! 1 \<noteq> k_tr c then (c, True)
        else if parts ! 0 = asc ''1'' then
          (case k_keys c of None \<Rightarrow> (bump ''no_key'' c, True)
           | Some (k, iv) \<Rightarrow> (case decrypt k iv (parts ! 3) of None \<Rightarrow> (c, False) | Some p \<Rightarrow> on_payload p c))
        else on_payload (parts ! 3) c)"

subsection \<open>Sessions and the pauses between them\<close>

text \<open>A session receives messages until one of them ends it or the socket fails; it returns without an
  exception only when the stop was requested.\<close>

fun session_messages :: "(text_u \<Rightarrow> loaded) \<Rightarrow> (json \<Rightarrow> json \<Rightarrow> text_u \<Rightarrow> text_u option) \<Rightarrow> text_u list \<Rightarrow> notice_client
    \<Rightarrow> notice_client \<times> bool" where
  "session_messages loads decrypt [] c = (c, True)"
| "session_messages loads decrypt (m # ms) c =
     (case on_message loads decrypt m c of (c1, True) \<Rightarrow> session_messages loads decrypt ms c1 | (c1, False) \<Rightarrow> (c1, False))"

record session =
  ss_connects :: bool
  ss_messages :: "text_u list"
  ss_stopped :: bool

definition run_session :: "(text_u \<Rightarrow> loaded) \<Rightarrow> (json \<Rightarrow> json \<Rightarrow> text_u \<Rightarrow> text_u option) \<Rightarrow> session \<Rightarrow> notice_client
    \<Rightarrow> notice_client \<times> bool" where
  "run_session loads decrypt s c =
     (if \<not> ss_connects s then (c, False)
      else case session_messages loads decrypt (ss_messages s) (c\<lparr>k_connected := True\<rparr>) of
        (c1, fine) \<Rightarrow> (c1, fine \<and> ss_stopped s))"

text \<open>The pauses that \<^verbatim>\<open>run\<close> makes; a stop ends it before the next session.\<close>

fun notice_run :: "(text_u \<Rightarrow> loaded) \<Rightarrow> (json \<Rightarrow> json \<Rightarrow> text_u \<Rightarrow> text_u option) \<Rightarrow> rat \<Rightarrow> session list \<Rightarrow> notice_client
    \<Rightarrow> notice_client \<times> rat list" where
  "notice_run loads decrypt backoff [] c = (c, [])"
| "notice_run loads decrypt backoff (s # ss) c =
     (let (c1, returned) = run_session loads decrypt s c;
          b = (if returned then 1 else backoff);
          c2 = (if returned then c1 else c1\<lparr>k_problem := SessionFailed []\<rparr>)\<lparr>k_connected := False, k_subscribed := False\<rparr>
      in if ss_stopped s then (c2, [b])
         else let (c3, waits) = notice_run loads decrypt (min (b * 2) 30) ss c2 in (c3, b # waits))"

subsection \<open>Facts\<close>

text \<open>A notice of the broker comes out as it was sent, whatever the other fields hold.\<close>

lemma parse_fill:
  assumes "length fs \<ge> MIN_FIELDS" "fs ! F_FILLED = asc ''2''" "fs ! F_REFUSED \<noteq> asc ''Y''" "fs ! F_REFUSED \<noteq> asc ''y''"
    and "fs ! F_QTY = asc ''3''" "fs ! F_PRICE = asc ''71000''" "fs ! F_ORDER_QTY = asc ''10''"
  shows "\<exists>n. parse_notice fs = Parsed n \<and> nt_kind n = Fill \<and> nt_qty n = 3 \<and> nt_price n = 71000 \<and> nt_order_qty n = 10
    \<and> nt_odno n = fs ! F_ODNO \<and> nt_symbol n = fs ! F_SYMBOL"
  using assms by (simp add: parse_notice_def Let_def int_or_zero_def text_int_def blank_def text_float_def asc_def strip_def
      lstrip_def is_space_def lower_ascii_def unsigned_float_def decimal_value_def part_value_def power_ten_def)

text \<open>Every notice handed on is counted under its kind, and nothing encrypted gets through without a key.\<close>

definition delivered_counted :: "notice_client \<Rightarrow> bool" where
  "delivered_counted c \<longleftrightarrow> (\<forall>k. count_of (kind_name k) c = length (filter (\<lambda>n. nt_kind n = k) (k_delivered c)))"

lemma count_bump [simp]: "count_of k (bump k' c) = count_of k c + (if k = k' then 1 else 0)"
  by (simp add: count_of_def bump_def update_conv')

lemma kind_name_inj: "kind_name a = kind_name b \<longleftrightarrow> a = b"
  by (cases a; cases b) simp_all

lemma bump_sel [simp]: "k_delivered (bump k c) = k_delivered c" "k_keys (bump k c) = k_keys c" "k_tr (bump k c) = k_tr c"
  by (simp_all add: bump_def)

lemma count_of_cong: "k_counts c = k_counts c' \<Longrightarrow> count_of k c = count_of k c'"
  by (simp add: count_of_def)

lemma payload_counted:
  assumes "delivered_counted c"
  shows "delivered_counted (fst (on_payload p c))"
proof -
  have b: "delivered_counted (bump ''unparsed'' c')" if "delivered_counted c'" for c'
    using that by (auto simp: delivered_counted_def elim: kind_name.elims)
  have d: "delivered_counted ((bump (kind_name (nt_kind n)) c')\<lparr>k_delivered := k_delivered c' @ [n]\<rparr>)" if "delivered_counted c'" for c' n
  proof -
    have "count_of k ((bump (kind_name (nt_kind n)) c')\<lparr>k_delivered := k_delivered c' @ [n]\<rparr>)
        = count_of k (bump (kind_name (nt_kind n)) c')" for k by (rule count_of_cong) simp
    then show ?thesis using that by (auto simp: delivered_counted_def kind_name_inj)
  qed
  have l: "delivered_counted (c\<lparr>k_logged_raw := m\<rparr>)" for m
    using assms by (simp add: delivered_counted_def count_of_def)
  have dl: "delivered_counted ((bump (kind_name (nt_kind n)) (c\<lparr>k_logged_raw := m\<rparr>))\<lparr>k_delivered := k_delivered c @ [n]\<rparr>)" for n m
    using d [OF l, of m n] by simp
  show ?thesis using assms l b [OF l] b [OF assms] d [OF assms] dl by (simp add: on_payload_def Let_def split: parsed.splits)
qed

lemma control_keeps: "k_counts (fst (on_control msg t c)) = k_counts c \<and> k_delivered (fst (on_control msg t c)) = k_delivered c"
  by (auto simp: on_control_def Let_def split: option.splits)

lemma message_counted:
  assumes "delivered_counted c"
  shows "delivered_counted (fst (on_message loads decrypt t c))"
proof -
  have c: "delivered_counted (fst (on_control msg t c))" for msg
    using assms control_keeps [of msg t c] by (simp add: delivered_counted_def count_of_def)
  have "delivered_counted (bump ''no_key'' c)"
    using assms by (auto simp: delivered_counted_def elim: kind_name.elims)
  then show ?thesis using assms c payload_counted [OF assms]
    by (auto simp: on_message_def Let_def split: loaded.splits json.splits option.splits)
qed

lemma encrypted_needs_key:
  assumes "k_keys c = None"
  shows "k_delivered (fst (on_message loads decrypt (asc ''1|'' @ s) c)) = k_delivered c"
  using assms by (simp add: on_message_def asc_def Let_def numeral_3_eq_3)

text \<open>The key of a fill ignores leading zeros of the order number only.\<close>

lemma same_key:
  assumes "nt_time a = nt_time b" "nt_qty a = nt_qty b" "nt_price a = nt_price b"
    and "dropWhile (\<lambda>c. c = 48) (nt_odno a) = dropWhile (\<lambda>c. c = 48) (nt_odno b)"
  shows "notice_key a = notice_key b"
  using assms by (simp add: notice_key_def)

text \<open>The pause is doubled after every session, however long it lived: the reset to one second is only
  reached when the stop ends the loop anyway.\<close>

lemma pauses_never_reset:
  assumes "\<forall>s \<in> set ss. \<not> ss_stopped s" "i < length ss" "b \<le> 30"
  shows "snd (notice_run loads decrypt b ss c) ! i = min (b * 2 ^ i) 30"
  using assms
proof (induction ss arbitrary: b c i)
  case (Cons s ss)
  have run: "\<not> snd (run_session loads decrypt s c)" using Cons.prems(1) by (auto simp: run_session_def split: prod.splits)
  show ?case
  proof (cases i)
    case 0
    then show ?thesis using run Cons.prems by (simp add: Let_def split_def)
  next
    case (Suc k)
    have "min (min (b * 2) 30 * 2 ^ k) 30 = min (b * 2 ^ i) 30"
    proof (cases "b \<le> 15")
      case False
      have "30 * 1 \<le> b * 2 * 2 ^ k" using False by (intro mult_mono) auto
      moreover have "(30 :: rat) \<le> 30 * 2 ^ k" by simp
      ultimately show ?thesis using False by (simp add: Suc mult.assoc)
    qed (simp add: Suc mult.assoc)
    then show ?thesis using run Cons.prems Cons.IH [of k "min (b * 2) 30"] Suc by (simp add: Let_def split_def)
  qed
qed simp

text \<open>A price beyond all numbers ends the session.\<close>

lemma infinite_price_escapes:
  assumes "length fs \<ge> MIN_FIELDS" "fs ! F_FILLED = asc ''1''" "fs ! F_PRICE = asc ''inf''"
  shows "parse_notice fs = ParseEscapes"
  using assms by (simp add: parse_notice_def Let_def text_float_def asc_def strip_def lstrip_def is_space_def lower_ascii_def
      unsigned_float_def)
end
