(* ===== verification/Adapter.thy ===== *)
theory Adapter
  imports Clock "HOL-Library.AList"
begin

section \<open>The common frame of the exchange adapters\<close>

text \<open>
  Models \<^verbatim>\<open>src/mdfeed/adapters/base.py\<close>: the message mark, the watchdog over business messages, the race of a
  session against it, the abandoning of a session that does not end, and the reconnection loop. What a
  session does is an input: its end, the times of its messages between two wakes of the watchdog, and
  how long it takes to end after it was cancelled, if it does. Logging is not modelled; without a registry nothing is counted.
\<close>

subsection \<open>Symbols\<close>

text \<open>The rows of the master file (market, code, name), \<open>None\<close> when it does not exist.\<close>

definition load_universe :: "(string \<times> string \<times> string) list option \<Rightarrow> string list \<Rightarrow> nat \<Rightarrow> (string \<times> string) list" where
  "load_universe rows markets n =
     (case rows of None \<Rightarrow> []
      | Some rs \<Rightarrow> let out = map snd (filter (\<lambda>(m, _). m \<in> set markets) rs) in if n \<noteq> 0 then take n out else out)"

definition resolve_symbols :: "string list \<Rightarrow> (string \<times> string \<times> string) list option \<Rightarrow> string \<Rightarrow> int \<Rightarrow> string list" where
  "resolve_symbols explicit rows market n =
     (if n \<le> 0 then explicit
      else let uni = map fst (load_universe rows [market] (nat n)) in if uni = [] then explicit else uni)"

subsection \<open>State\<close>

record 'm adapter =
  ad_stale_after :: seconds
  ad_measures :: bool
  ad_registry :: bool
  ad_last_msg :: seconds
  ad_messages :: nat
  ad_reconnects :: nat
  ad_errors :: nat
  ad_stop :: bool
  ad_counters :: "(string \<times> nat) list"
  ad_raw :: "rat list"
  ad_corrected :: "rat list"
  ad_emitted :: "'m list"

definition new_adapter :: "seconds \<Rightarrow> bool \<Rightarrow> bool \<Rightarrow> 'm adapter" where
  "new_adapter st ms reg = \<lparr>ad_stale_after = st, ad_measures = ms, ad_registry = reg, ad_last_msg = 0, ad_messages = 0,
     ad_reconnects = 0, ad_errors = 0, ad_stop = False, ad_counters = [], ad_raw = [], ad_corrected = [], ad_emitted = []\<rparr>"

definition tally :: "string \<Rightarrow> 'm adapter \<Rightarrow> 'm adapter" where
  "tally k a = (if ad_registry a
     then a\<lparr>ad_counters := AList.update k ((case map_of (ad_counters a) k of None \<Rightarrow> 0 | Some n \<Rightarrow> n) + 1) (ad_counters a)\<rparr>
     else a)"

text \<open>\<open>lat\<close> is the message's \<^verbatim>\<open>latency_us\<close>, if it has one; the monitor of the clocks is shared by all adapters.\<close>

definition mark_msg :: "'k \<Rightarrow> seconds \<Rightarrow> bool \<Rightarrow> rat option \<Rightarrow> 'm \<Rightarrow> 'm adapter \<Rightarrow> 'k clock_monitor
    \<Rightarrow> 'm adapter \<times> 'k clock_monitor" where
  "mark_msg venue now timed lat msg a m =
     (let a1 = a\<lparr>ad_messages := ad_messages a + 1, ad_last_msg := now\<rparr>;
          a2 = tally ''ticks_total'' a1;
          a3 = (if timed then a2 else tally ''snapshot_msgs_total'' a2);
          (a4, m1) = (case lat of
             Some x \<Rightarrow> if ad_registry a \<and> timed \<and> ad_measures a
               then (let (m1, y) = monitor_observe venue x now m
                     in (a3\<lparr>ad_raw := ad_raw a3 @ [\<bar>x\<bar>], ad_corrected := ad_corrected a3 @ [y]\<rparr>, m1))
               else (a3, m)
           | None \<Rightarrow> (a3, m))
      in (a4\<lparr>ad_emitted := ad_emitted a4 @ [msg]\<rparr>, m1))"

subsection \<open>The watchdog\<close>

text \<open>One wake: its time, whether data is expected then, and the times of the messages since the wake before.\<close>

record wake =
  wk_now :: seconds
  wk_expects :: bool
  wk_marks :: "seconds list"

definition wake_step :: "'m adapter \<Rightarrow> seconds" where
  "wake_step a = min (ad_stale_after a / 2) 15"

definition marked :: "seconds list \<Rightarrow> 'm adapter \<Rightarrow> 'm adapter" where
  "marked ts a = (if ts = [] then a else a\<lparr>ad_last_msg := last ts, ad_messages := ad_messages a + length ts\<rparr>)"

text \<open>The result is the time at which the session is judged stale, \<open>None\<close> while the watchdog goes on.\<close>

fun watchdog :: "seconds \<Rightarrow> wake list \<Rightarrow> 'm adapter \<Rightarrow> 'm adapter \<times> seconds option" where
  "watchdog deadline [] a = (a, None)"
| "watchdog deadline (w # ws) a0 =
     (let a = marked (wk_marks w) a0 in
      if \<not> wk_expects w then watchdog (wk_now w + ad_stale_after a) ws (a\<lparr>ad_last_msg := 0\<rparr>)
      else let since = (if ad_last_msg a \<noteq> 0 then ad_last_msg a else deadline) in
        if wk_now w - since > ad_stale_after a then (tally ''stale_restarts_total'' a, Some (wk_now w))
        else watchdog deadline ws a)"

definition stale_watchdog :: "seconds \<Rightarrow> wake list \<Rightarrow> 'm adapter \<Rightarrow> 'm adapter \<times> seconds option" where
  "stale_watchdog start ws a = watchdog (start + ad_stale_after a) ws a"

subsection \<open>A session against the watchdog\<close>

definition CANCEL_TIMEOUT_S :: seconds where "CANCEL_TIMEOUT_S = 5"

text \<open>
  \<^verbatim>\<open>asyncio.wait\<close> on a task just cancelled: how long it waits and whether the task ended. The argument is the time
  the task takes to end, \<open>None\<close> for one that hangs.
\<close>

fun cancel_wait :: "seconds option \<Rightarrow> seconds \<times> bool" where
  "cancel_wait (Some t) = (if t \<le> CANCEL_TIMEOUT_S then (t, True) else (CANCEL_TIMEOUT_S, False))"
| "cancel_wait None = (CANCEL_TIMEOUT_S, False)"

text \<open>Cancelling is tried twice; the second result is the time it took.\<close>

definition abandon :: "seconds option \<times> seconds option \<Rightarrow> 'm adapter \<Rightarrow> 'm adapter \<times> seconds" where
  "abandon ends a =
     (case cancel_wait (fst ends) of
        (t1, True) \<Rightarrow> (a, t1)
      | (t1, False) \<Rightarrow>
          (case cancel_wait (snd ends) of
             (t2, True) \<Rightarrow> (a, t1 + t2)
           | (t2, False) \<Rightarrow> (tally ''session_cancel_timeouts_total'' a, t1 + t2)))"

datatype session_end = Returned | Raised | CancelledHere | Stale

text \<open>
  Which of the two ends first, and how the cancellation of the other goes; \<open>Interrupted\<close> is the adapter itself
  cancelled while both run.
\<close>

datatype race =
    SessionFirst session_end "seconds option \<times> seconds option"
  | GuardFirst "seconds option \<times> seconds option"
  | BothDone session_end
  | Interrupted "seconds option \<times> seconds option" "seconds option \<times> seconds option"

text \<open>The last result is the time from the first end to the return.\<close>

fun session_with_watchdog :: "race \<Rightarrow> 'm adapter \<Rightarrow> 'm adapter \<times> session_end \<times> seconds" where
  "session_with_watchdog (SessionFirst e guard) a = (case abandon guard a of (a1, t) \<Rightarrow> (a1, e, t))"
| "session_with_watchdog (GuardFirst session) a = (case abandon session a of (a1, t) \<Rightarrow> (a1, Stale, t))"
| "session_with_watchdog (BothDone e) a = (a, e, 0)"
| "session_with_watchdog (Interrupted session guard) a =
     (case abandon session a of (a1, t1) \<Rightarrow> case abandon guard a1 of (a2, t2) \<Rightarrow> (a2, CancelledHere, t1 + t2))"

subsection \<open>The reconnection loop\<close>

record round =
  rd_race :: race
  rd_stop :: bool
  rd_jitter :: rat

text \<open>
  For each reconnection the time spent on abandoning and the delay; a stop or a cancellation ends the loop.
\<close>

fun adapter_run :: "seconds \<Rightarrow> round list \<Rightarrow> 'm adapter \<Rightarrow> 'm adapter \<times> (seconds \<times> seconds) list" where
  "adapter_run backoff [] a = (a, [])"
| "adapter_run backoff (r # rs) a =
     (if ad_stop a then (a, [])
      else let (a1, e, took) = session_with_watchdog (rd_race r) a in
        if e = CancelledHere then (a1, [])
        else let b = (if e = Returned then 1 else backoff);
                 a2 = (if e = Returned then a1 else tally ''adapter_errors_total'' (a1\<lparr>ad_errors := ad_errors a1 + 1\<rparr>));
                 a3 = (if rd_stop r then a2\<lparr>ad_stop := True\<rparr> else a2)
          in if ad_stop a3 then (a3, [])
             else let a4 = tally ''reconnects_total'' (a3\<lparr>ad_reconnects := ad_reconnects a3 + 1\<rparr>);
                      delay = min b 30 * (1 / 2 + rd_jitter r);
                      (a5, ds) = adapter_run (min (b * 2) 30) rs a4
                  in (a5, (took, delay) # ds))"

subsection \<open>Health\<close>

definition is_stale :: "seconds \<Rightarrow> bool \<Rightarrow> 'm adapter \<Rightarrow> bool" where
  "is_stale now expects a \<longleftrightarrow> expects \<and> ad_last_msg a \<noteq> 0 \<and> now - ad_last_msg a > ad_stale_after a"

record adapter_health =
  ah_messages :: nat
  ah_reconnects :: nat
  ah_errors :: nat
  ah_last_msg_age_s :: "seconds option"
  ah_stale :: bool
  ah_symbols_subscribed :: nat
  ah_expects_data :: bool
  ah_measures_latency :: bool

text \<open>\<open>symbols\<close> and \<open>universe\<close> are the adapter's lists, empty when it has no such attribute.\<close>

definition adapter_health :: "seconds \<Rightarrow> bool \<Rightarrow> string list \<Rightarrow> string list \<Rightarrow> 'm adapter \<Rightarrow> adapter_health" where
  "adapter_health now expects symbols universe a = \<lparr>ah_messages = ad_messages a, ah_reconnects = ad_reconnects a,
     ah_errors = ad_errors a, ah_last_msg_age_s = (if ad_last_msg a \<noteq> 0 then Some (now - ad_last_msg a) else None),
     ah_stale = is_stale now expects a, ah_symbols_subscribed = length (if symbols \<noteq> [] then symbols else universe),
     ah_expects_data = expects, ah_measures_latency = ad_measures a\<rparr>"

subsection \<open>When a session is cut\<close>

definition silent_since :: "seconds \<Rightarrow> 'm adapter \<Rightarrow> seconds" where
  "silent_since deadline a = (if ad_last_msg a \<noteq> 0 then ad_last_msg a else deadline)"

lemma tally_sel [simp]: "ad_last_msg (tally k a) = ad_last_msg a" "ad_stale_after (tally k a) = ad_stale_after a"
  "ad_stop (tally k a) = ad_stop a" "ad_reconnects (tally k a) = ad_reconnects a" "ad_errors (tally k a) = ad_errors a"
  by (simp_all add: tally_def)

lemma abandon_sel [simp]: "ad_stop (fst (abandon x a)) = ad_stop a" "ad_reconnects (fst (abandon x a)) = ad_reconnects a"
  "ad_errors (fst (abandon x a)) = ad_errors a"
  by (auto simp: abandon_def split: prod.split bool.split)

text \<open>Abandoning is bounded, whatever the task does.\<close>

lemma cancel_wait_bound: "fst (cancel_wait e) \<le> CANCEL_TIMEOUT_S"
  by (cases e) simp_all

lemma abandon_bound: "snd (abandon x a) \<le> 2 * CANCEL_TIMEOUT_S"
proof -
  have "0 \<le> CANCEL_TIMEOUT_S" by (simp add: CANCEL_TIMEOUT_S_def)
  with cancel_wait_bound [of "fst x"] cancel_wait_bound [of "snd x"] show ?thesis
    by (cases "cancel_wait (fst x)"; cases "cancel_wait (snd x)") (simp add: abandon_def split: bool.split)
qed

lemma session_sel [simp]:
  "ad_stop (fst (session_with_watchdog r a)) = ad_stop a"
  by (cases r) (simp_all add: case_prod_beta)

lemma marked_sel [simp]: "ad_stale_after (marked ts a) = ad_stale_after a" "marked [] a = a"
  "ts \<noteq> [] \<Longrightarrow> ad_last_msg (marked ts a) = last ts"
  by (simp_all add: marked_def)

text \<open>While nothing arrives the session is cut at the first wake later than \<open>stale_after_s\<close> after the last message.\<close>

lemma silent_watchdog:
  assumes "\<forall>w \<in> set ws. wk_expects w \<and> wk_marks w = []"
  shows "snd (watchdog d ws a) = map_option wk_now (find (\<lambda>w. wk_now w - silent_since d a > ad_stale_after a) ws)"
  using assms by (induction ws arbitrary: a) (simp_all add: silent_since_def Let_def)

text \<open>Messages that keep coming keep the session.\<close>

lemma live_watchdog:
  assumes "\<forall>w \<in> set ws. wk_expects w \<longrightarrow> wk_marks w \<noteq> [] \<and> last (wk_marks w) \<noteq> 0 \<and> wk_now w - last (wk_marks w) \<le> ad_stale_after a"
  shows "snd (watchdog d ws a) = None"
  using assms
proof (induction ws arbitrary: a d)
  case (Cons w ws)
  show ?case using Cons.prems by (cases "wk_expects w") (simp_all add: Let_def not_less Cons.IH)
qed simp

text \<open>The wakes are at most a step apart.\<close>

fun spaced :: "seconds \<Rightarrow> seconds \<Rightarrow> wake list \<Rightarrow> bool" where
  "spaced step t [] = True"
| "spaced step t (w # ws) \<longleftrightarrow> t \<le> wk_now w \<and> wk_now w \<le> t + step \<and> spaced step (wk_now w) ws"

lemma find_in_step:
  assumes "spaced step t ws" "t \<le> x" "ws \<noteq> []" "x < wk_now (last ws)"
  shows "\<exists>w. find (\<lambda>w. wk_now w > x) ws = Some w \<and> x < wk_now w \<and> wk_now w \<le> x + step"
  using assms
proof (induction ws arbitrary: t)
  case (Cons w ws)
  show ?case
  proof (cases "wk_now w > x")
    case True
    then show ?thesis using Cons.prems(1,2) by simp
  next
    case False
    then have "ws \<noteq> []" using Cons.prems(4) by (cases ws) auto
    then have "\<exists>v. find (\<lambda>w. wk_now w > x) ws = Some v \<and> x < wk_now v \<and> wk_now v \<le> x + step"
      using Cons.prems False by (intro Cons.IH [of "wk_now w"]) auto
    then show ?thesis using False by simp
  qed
qed simp

lemma watchdog_stop [simp]: "ad_stop (fst (watchdog d ws a)) = ad_stop a"
  by (induction ws arbitrary: d a) (simp_all add: Let_def marked_def)


text \<open>The witness: a first session that never had a message and hangs when it is cancelled.\<close>

definition sample_adapter :: "nat adapter" where
  "sample_adapter = new_adapter 60 True True"

definition silent_wakes :: "seconds list \<Rightarrow> wake list" where
  "silent_wakes ts = map (\<lambda>t. \<lparr>wk_now = t, wk_expects = True, wk_marks = []\<rparr>) ts"


text \<open>After a cut the time of the last message is not forgotten: the next session is cut at its first wake
  unless a message has come by then, although a session without a message is meant to have the whole time.\<close>

lemma cut_again:
  assumes cut: "watchdog d ws a = (a', Some t)" and last: "ad_last_msg a' \<noteq> 0"
    and w: "wk_now w \<ge> t" "wk_expects w" "wk_marks w = []"
  shows "snd (watchdog d' (w # ws') a') = Some (wk_now w)"
proof -
  have "ad_last_msg a' \<noteq> 0 \<Longrightarrow> t - ad_last_msg a' > ad_stale_after a'" using cut
  proof (induction ws arbitrary: a d)
    case (Cons v vs)
    show ?case using Cons.prems Cons.IH by (auto simp: Let_def split: if_splits)
  qed simp
  then show ?thesis using last w by (simp add: Let_def)
qed

text \<open>A first session, in turn, has twice the time: the deadline already holds one \<open>stale_after_s\<close>.\<close>

lemma first_session_twice:
  assumes "\<forall>w \<in> set ws. wk_expects w \<and> wk_marks w = [] \<and> wk_now w \<le> start + 2 * ad_stale_after a" "ad_last_msg a = 0"
  shows "snd (stale_watchdog start ws a) = None"
proof -
  have "find (\<lambda>w. wk_now w - silent_since (start + ad_stale_after a) a > ad_stale_after a) ws = None"
    using assms by (auto simp: find_None_iff silent_since_def not_less)
  then show ?thesis unfolding stale_watchdog_def using assms(1) by (subst silent_watchdog) auto
qed

text \<open>Every round without stop or cancellation reconnects, with times within the bounds.\<close>

lemma session_end_same: "fst (snd (session_with_watchdog x a)) = fst (snd (session_with_watchdog x a'))"
  by (cases x) (simp_all add: case_prod_beta)

lemma reconnects_always:
  fixes a :: "'m adapter"
  assumes "\<forall>r \<in> set rs. \<not> rd_stop r \<and> 0 \<le> rd_jitter r \<and> rd_jitter r < 1 \<and> fst (snd (session_with_watchdog (rd_race r) a)) \<noteq> CancelledHere"
    and "\<not> ad_stop a" "1 \<le> b"
  shows "length (snd (adapter_run b rs a)) = length rs \<and> (\<forall>(took, t) \<in> set (snd (adapter_run b rs a)). 1 / 2 \<le> t \<and> t < 45)"
  using assms
proof (induction rs arbitrary: a b)
  case (Cons r rs)
  obtain a1 e took where s: "session_with_watchdog (rd_race r) a = (a1, e, took)" by (metis prod_cases3)
  let ?b = "if e = Returned then 1 else b"
  have d: "1 / 2 \<le> min ?b 30 * (1 / 2 + rd_jitter r)" "min ?b 30 * (1 / 2 + rd_jitter r) < 45"
  proof -
    have "1 * (1 / 2) \<le> min ?b 30 * (1 / 2 + rd_jitter r)" using Cons.prems by (intro mult_mono) auto
    then show "1 / 2 \<le> min ?b 30 * (1 / 2 + rd_jitter r)" by simp
    have "min ?b 30 * (1 / 2 + rd_jitter r) < 30 * (3 / 2)" using Cons.prems by (intro mult_le_less_imp_less) auto
    then show "min ?b 30 * (1 / 2 + rd_jitter r) < 45" by simp
  qed
  have tail: "length (snd (adapter_run (min (?b * 2) 30) rs a')) = length rs
      \<and> (\<forall>(took, t) \<in> set (snd (adapter_run (min (?b * 2) 30) rs a')). 1 / 2 \<le> t \<and> t < 45)" if "\<not> ad_stop a'" for a' :: "'m adapter"
  proof (rule Cons.IH [OF _ that])
    show "\<forall>r \<in> set rs. \<not> rd_stop r \<and> 0 \<le> rd_jitter r \<and> rd_jitter r < 1
        \<and> fst (snd (session_with_watchdog (rd_race r) a')) \<noteq> CancelledHere"
      using Cons.prems(1) session_end_same [of _ a' a] by simp
    show "1 \<le> min (?b * 2) 30" using Cons.prems(3) by simp
  qed
  let ?a2 = "if e = Returned then a1 else tally ''adapter_errors_total'' (a1\<lparr>ad_errors := ad_errors a1 + 1\<rparr>)"
  let ?a4 = "tally ''reconnects_total'' (?a2\<lparr>ad_reconnects := ad_reconnects ?a2 + 1\<rparr>)"
  have "ad_stop a1 = ad_stop a" using session_sel [of "rd_race r" a] s by simp
  then have go: "\<not> ad_stop ?a4" "\<not> ad_stop ?a2" using Cons.prems by simp_all
  have "e \<noteq> CancelledHere" "\<not> rd_stop r" using Cons.prems s by auto
  then have step: "snd (adapter_run b (r # rs) a)
      = (took, min ?b 30 * (1 / 2 + rd_jitter r)) # snd (adapter_run (min (?b * 2) 30) rs ?a4)"
    using Cons.prems(2) go(2) by (simp only: adapter_run.simps Let_def split_def if_False snd_conv fst_conv s)
  show ?case using d tail [OF go(1)] unfolding step by (simp only: list.size list.set ball_simps add_Suc_right add_0_right) auto
qed simp

end
