(* ===== verification/KisToken.thy ===== *)
theory KisToken
  imports Prelude
begin

section \<open>The broker's access token\<close>

text \<open>
  Models \<^verbatim>\<open>src/mdfeed/adapters/kis_token.py\<close>: processes that share one cache file obtain a token. A call of
  \<^verbatim>\<open>token()\<close> is an \<open>Ask\<close> (its own copy, then the file) and, when neither holds a token, an \<open>Issue\<close> under the file
  lock; other processes run in between. The lock of asyncio lets one call of a process wait at a time. The
  clock, the broker's reply and whether the file could be written are inputs.
\<close>

definition MIN_REMAIN_S :: seconds where "MIN_REMAIN_S = 600"

text \<open>The file: none or no JSON, JSON that is no object or has an unreadable expiry, or a token with its
  expiry (an empty token counts as none).\<close>

datatype cache = NoCache | BadCache | Cached string seconds

datatype 'a read = ReadRaises | Nothing | Found 'a

definition read_cache :: "seconds \<Rightarrow> cache \<Rightarrow> (string \<times> seconds) read" where
  "read_cache now c = (case c of NoCache \<Rightarrow> Nothing | BadCache \<Rightarrow> ReadRaises
     | Cached tok e \<Rightarrow> if e > now + MIN_REMAIN_S \<and> tok \<noteq> [] then Found (tok, e) else Nothing)"

record holder =
  hd_token :: "string option"
  hd_exp :: seconds
  hd_issues :: nat
  hd_waiting :: bool

definition new_holder :: holder where
  "new_holder = \<lparr>hd_token = None, hd_exp = 0, hd_issues = 0, hd_waiting = False\<rparr>"

text \<open>\<open>tk_log\<close> is the history: every token the broker issued, with the time the request was decided on and the
  expiry.\<close>

record token_world =
  tk_cache :: cache
  tk_proc :: "nat \<Rightarrow> holder"
  tk_log :: "(seconds \<times> seconds) list"

datatype token_result = Token string | Waits | TokenRaises

definition holds :: "seconds \<Rightarrow> holder \<Rightarrow> string option" where
  "holds now h = (case hd_token h of Some t \<Rightarrow> if t \<noteq> [] \<and> hd_exp h > now + 60 then Some t else None | None \<Rightarrow> None)"

definition set_proc :: "nat \<Rightarrow> holder \<Rightarrow> token_world \<Rightarrow> token_world" where
  "set_proc p h w = w\<lparr>tk_proc := (tk_proc w)(p := h)\<rparr>"

definition ask :: "nat \<Rightarrow> seconds \<Rightarrow> token_world \<Rightarrow> token_world \<times> token_result" where
  "ask p now w =
     (let h = tk_proc w p in
      case holds now h of Some t \<Rightarrow> (w, Token t)
      | None \<Rightarrow> if hd_waiting h then (w, Waits)
          else case read_cache now (tk_cache w) of
            ReadRaises \<Rightarrow> (w, TokenRaises)
          | Found (t, e) \<Rightarrow> (set_proc p (h\<lparr>hd_token := Some t, hd_exp := e\<rparr>) w, Token t)
          | Nothing \<Rightarrow> (set_proc p (h\<lparr>hd_waiting := True\<rparr>) w, Waits))"

text \<open>The reply: a token with its lifetime and the time it arrived, or a failure.\<close>

definition issue_locked :: "seconds \<Rightarrow> (string \<times> int \<times> seconds) option \<Rightarrow> bool \<Rightarrow> holder \<Rightarrow> token_world
    \<Rightarrow> token_world \<times> holder \<times> (string \<times> seconds) option" where
  "issue_locked now reply wrote h w =
     (case read_cache now (tk_cache w) of
        ReadRaises \<Rightarrow> (w, h, None)
      | Found x \<Rightarrow> (w, h, Some x)
      | Nothing \<Rightarrow>
          (case reply of None \<Rightarrow> (w, h, None)
           | Some (t, life, at_time) \<Rightarrow>
               let e = at_time + of_int life - 120; w1 = w\<lparr>tk_log := tk_log w @ [(now, e)]\<rparr> in
               if wrote then (w1\<lparr>tk_cache := Cached t e\<rparr>, h\<lparr>hd_issues := hd_issues h + 1\<rparr>, Some (t, e))
               else (w1, h, None)))"

definition issue :: "nat \<Rightarrow> seconds \<Rightarrow> (string \<times> int \<times> seconds) option \<Rightarrow> bool \<Rightarrow> token_world \<Rightarrow> token_world \<times> token_result" where
  "issue p now reply wrote w =
     (let h = tk_proc w p in
      if \<not> hd_waiting h then (w, Waits)
      else case issue_locked now reply wrote (h\<lparr>hd_waiting := False\<rparr>) w of
        (w1, h1, None) \<Rightarrow> (set_proc p h1 w1, TokenRaises)
      | (w1, h1, Some (t, e)) \<Rightarrow> (set_proc p (h1\<lparr>hd_token := Some t, hd_exp := e\<rparr>) w1, Token t))"

datatype token_event = Ask nat seconds | Issue nat seconds "(string \<times> int \<times> seconds) option" bool

fun token_step :: "token_event \<Rightarrow> token_world \<Rightarrow> token_world" where
  "token_step (Ask p now) w = fst (ask p now w)"
| "token_step (Issue p now reply wrote) w = fst (issue p now reply wrote w)"

definition new_token_world :: "cache \<Rightarrow> token_world" where
  "new_token_world c = \<lparr>tk_cache = c, tk_proc = \<lambda>_. new_holder, tk_log = []\<rparr>"

subsection \<open>How often the broker is asked\<close>

definition issues_apart :: "token_world \<Rightarrow> bool" where
  "issues_apart w \<longleftrightarrow> successively (\<lambda>(t1, e1) (t2, e2). e1 \<le> t2 + MIN_REMAIN_S) (tk_log w)
     \<and> (tk_log w \<noteq> [] \<longrightarrow> (\<exists>t. t \<noteq> [] \<and> tk_cache w = Cached t (snd (last (tk_log w)))))"

fun good_event :: "token_event \<Rightarrow> bool" where
  "good_event (Ask p now) = True"
| "good_event (Issue p now reply wrote) \<longleftrightarrow> wrote \<and> (case reply of None \<Rightarrow> True | Some (t, _) \<Rightarrow> t \<noteq> [])"

lemma set_proc_sel [simp]: "tk_cache (set_proc p h w) = tk_cache w" "tk_log (set_proc p h w) = tk_log w"
  by (simp_all add: set_proc_def)

lemma ask_keeps: "tk_cache (fst (ask p now w)) = tk_cache w \<and> tk_log (fst (ask p now w)) = tk_log w"
  by (auto simp: ask_def Let_def split: option.splits read.splits)

lemma issue_locked_cases:
  obtains (none) "tk_log (fst (issue_locked now reply wrote h w)) = tk_log w" "tk_cache (fst (issue_locked now reply wrote h w)) = tk_cache w"
  | (new) t life at_time where "reply = Some (t, life, at_time)" "read_cache now (tk_cache w) = Nothing"
      "tk_log (fst (issue_locked now reply wrote h w)) = tk_log w @ [(now, at_time + of_int life - 120)]"
      "wrote \<longrightarrow> tk_cache (fst (issue_locked now reply wrote h w)) = Cached t (at_time + of_int life - 120)"
  by (cases "read_cache now (tk_cache w)"; cases reply) (auto simp: issue_locked_def Let_def)

lemma issue_world: "tk_log (fst (issue p now reply wrote w)) = (if hd_waiting (tk_proc w p)
     then tk_log (fst (issue_locked now reply wrote ((tk_proc w p)\<lparr>hd_waiting := False\<rparr>) w)) else tk_log w)
  \<and> tk_cache (fst (issue p now reply wrote w)) = (if hd_waiting (tk_proc w p)
     then tk_cache (fst (issue_locked now reply wrote ((tk_proc w p)\<lparr>hd_waiting := False\<rparr>) w)) else tk_cache w)"
  by (auto simp: issue_def Let_def split: prod.splits option.splits)

lemma issues_apart_step:
  assumes "issues_apart w" "good_event ev"
  shows "issues_apart (token_step ev w)"
proof (cases ev)
  case (Ask p now)
  then show ?thesis using assms(1) ask_keeps [of p now w] by (simp add: issues_apart_def)
next
  case (Issue p now reply wrote)
  let ?h = "(tk_proc w p)\<lparr>hd_waiting := False\<rparr>"
  show ?thesis
  proof (cases "hd_waiting (tk_proc w p)")
    case False
    then show ?thesis using assms(1) issue_world [of p now reply wrote w] Issue by (simp add: issues_apart_def)
  next
    case True
    have world: "tk_log (token_step ev w) = tk_log (fst (issue_locked now reply wrote ?h w))"
      "tk_cache (token_step ev w) = tk_cache (fst (issue_locked now reply wrote ?h w))"
      using issue_world [of p now reply wrote w] True Issue by simp_all
    show ?thesis
    proof (cases rule: issue_locked_cases [of now reply wrote ?h w])
      case none
      then show ?thesis using assms(1) world by (simp add: issues_apart_def)
    next
      case (new t life at_time)
      have "snd (last (tk_log w)) \<le> now + MIN_REMAIN_S" if "tk_log w \<noteq> []"
        using assms(1) that new(2) by (auto simp: issues_apart_def read_cache_def split: if_splits)
      then show ?thesis using assms world new Issue
        by (auto simp: issues_apart_def successively_append_iff split_def)
    qed
  qed
qed

lemma issues_apart_run: "issues_apart w \<Longrightarrow> \<forall>ev \<in> set evs. good_event ev \<Longrightarrow> issues_apart (fold token_step evs w)"
  by (induction evs arbitrary: w) (simp_all add: issues_apart_step)

text \<open>Whatever the processes do, as long as the cache file can be written, the broker is asked for another token
  only when the one before expires within ten minutes.\<close>

lemma token_issued_rarely:
  assumes "\<forall>ev \<in> set evs. good_event ev"
  shows "successively (\<lambda>(t1, e1) (t2, e2). e1 \<le> t2 + MIN_REMAIN_S) (tk_log (fold token_step evs (new_token_world c)))"
  using issues_apart_run [of "new_token_world c" evs] assms by (simp add: issues_apart_def new_token_world_def)

text \<open>A token that could not be written to the file is lost: the next call issues another one, and the count of
  the process does not show the first. A file with JSON that is no object makes every call raise.\<close>

lemma unwritten_token_lost:
  assumes "hd_waiting (tk_proc w p)" "hd_token (tk_proc w p) = None" "tk_cache w = NoCache"
  shows "let w1 = fst (issue p now (Some (t, life, u)) False w) in
    tk_log w1 = tk_log w @ [(now, u + of_int life - 120)] \<and> hd_issues (tk_proc w1 p) = hd_issues (tk_proc w p)
    \<and> snd (ask p now' w1) = Waits \<and> tk_cache w1 = NoCache"
  using assms by (simp add: issue_def issue_locked_def read_cache_def set_proc_def ask_def holds_def Let_def)

lemma bad_cache_blocks: "tk_cache w = BadCache \<Longrightarrow> holds now (tk_proc w p) = None \<Longrightarrow> \<not> hd_waiting (tk_proc w p)
  \<Longrightarrow> ask p now w = (w, TokenRaises)"
  by (simp add: ask_def read_cache_def)

end
