(* ===== verification/Spec2Isabelle.thy ===== *)
theory Spec2Isabelle
  imports RingBuffer Protocol Ledger ContestLedger GapRepository TcpDelivery Indicators OrderDesk McastClient Migration Writer ArchiveSafety WsProto WsGateway Httpd ContestService Supervisor Quality KisNotice Adapter KisToken
begin

text \<open>
  A verification development of the market data platform \<^verbatim>\<open>mdfeed\<close> (Python, \<^verbatim>\<open>src/mdfeed/\<close>). Exchange
  adapters normalise trades and quotes; the feed process publishes them as \<^verbatim>\<open>MDFP/1\<close> frames on a local bus
  and in a shared-memory ring; gateways distribute them over TCP, multicast and WebSocket; a writer stores
  trades and bars; a retention job deletes old rows once an archived copy is proved; a quality process
  watches the same bus; an order desk sends a user's orders to the broker and keeps a ledger; a contest
  service runs a game with its own ledger; gaps of the collected data are recorded and closed only with
  evidence. Every main property is a theorem directly after a text block that starts with its id.

  \<^bold>\<open>Shared vocabulary.\<close> \<open>Prelude\<close> holds type names, Python's exceptions as a datatype (an operation that can
  raise gives \<open>py_error + 'a\<close>), the big-endian codec of \<^verbatim>\<open>struct\<close>, a flat byte memory and the collections of
  simplification rules. \<open>Json\<close> has JSON values and their rendering, \<open>PyText\<close> splitting and \<^verbatim>\<open>int(text)\<close>, \<open>Crc32\<close>
  the bitwise \<^verbatim>\<open>zlib.crc32\<close> with the proof that it detects a change of one byte.

  \<^bold>\<open>Interfaces.\<close> Five contracts are locales, each interpreted on the model's own definitions where they are
  provided: \<open>StreamCodec.stream_codec\<close> (one frame decodes; hence any cutting of a valid stream decodes to the
  same frames) by \<open>Protocol\<close> and \<open>WsProto\<close>; \<open>CreateOnce.create_once\<close> (requests with one key make one record) by
  \<open>Ledger\<close> and \<open>ContestLedger\<close>; \<open>DropOldest.drop_oldest\<close> (a bounded queue loses its oldest and counts it) by \<open>Bus\<close>
  and \<open>WsGateway\<close>; \<open>GapRepository.gap_repository\<close> by the memory, file and database repositories;
  \<open>Storage.batch_store\<close> (a batch with a receipt is written once) by SQLite and PostgreSQL. A sixth,
  \<open>Quality.keyed_check\<close> (a tick touches its own key's state only), is interpreted for the two stateful checks.

  \<^bold>\<open>Market data path.\<close>
  \<^item> \<open>RingBuffer\<close>: \<^verbatim>\<open>ringbuffer.py\<close>, header and slots as bytes of one segment. Pushes then a poll give the newest
    frames the capacity holds; a write interleaved with a read can deliver a torn frame.
  \<^item> \<open>Adapter\<close>: \<^verbatim>\<open>adapters/base.py\<close>, watchdog, abandoning with its bounded waits, reconnection,
    each with the time it takes; \<open>Clock\<close>: \<^verbatim>\<open>clock.py\<close>.
  \<^item> \<open>Models\<close>: \<^verbatim>\<open>models.py\<close>, UTF-8 fields of fixed width, record layouts, bars; a double is the rational it
    denotes and its bit pattern a parameter (\<open>doubles\<close>), rational arithmetic is exact.
  \<^item> \<open>Protocol\<close>: \<^verbatim>\<open>protocol.py\<close>, encoder, streaming parser with resynchronisation, sequence tracker.
  \<^item> \<open>Bus\<close>: \<^verbatim>\<open>bus.py\<close>, publisher, bounded queues, source health. \<open>Entitlements\<close>: \<^verbatim>\<open>entitlements.py\<close>.
  \<^item> \<open>TcpGateway\<close>, \<open>TcpDelivery\<close>: \<^verbatim>\<open>services/tcp_gateway.py\<close>, what each client may get and the accounting of what
    it lost while frames, deliveries and snapshots interleave.
  \<^item> \<open>McastClient\<close>: \<^verbatim>\<open>mcast_client.py\<close>, reordering, retransmission requests and unavailable ranges, refined
    to delivery in order.
  \<^item> \<open>WsProto\<close>, \<open>WsGateway\<close>: \<^verbatim>\<open>wsproto.py\<close> and \<^verbatim>\<open>services/ws_gateway.py\<close>; the gateway is the step relation
    \<open>ws_step\<close> with \<open>ws_run\<close>, its invariants by rule induction.
  \<^item> \<open>Httpd\<close>: \<^verbatim>\<open>httpd.py\<close>, requests, responses, routes, static files and the keep-alive loop.
  \<^item> \<open>Indicators\<close>: \<^verbatim>\<open>indicators.py\<close>, \<^verbatim>\<open>strategies.py\<close>; every operation takes the
    rounding as an argument, exact for the reference equalities, IEEE \<open>double\<close> for the bound on the drift.
  \<^item> \<open>Quality\<close>: \<^verbatim>\<open>quality.py\<close> and \<^verbatim>\<open>services/quality.py\<close>, the five checks, the monitor and the service's books.
  \<^item> \<open>Supervisor\<close>: \<^verbatim>\<open>supervisor.py\<close>, over the events that end a task, a pause or the run.

  \<^bold>\<open>Storage path.\<close>
  \<^item> \<open>Storage\<close>: \<^verbatim>\<open>storage/db.py\<close>, \<^verbatim>\<open>write_batch\<close> for both back ends with its receipts. \<open>Writer\<close>: \<^verbatim>\<open>services/writer.py\<close>
    as a list of events (frames, timer, flush begin and end with success or failure, shutdown).
  \<^item> \<open>Retention\<close>: \<^verbatim>\<open>retention.py\<close>, receipts, proofs, the batched delete with its budgets.
  \<^item> \<open>Archive\<close>, \<open>ArchiveSafety\<close>: \<^verbatim>\<open>archive.py\<close> with the writer's archive run; the invariant that every deleted
    row came back from the remote copy.
  \<^item> \<open>Migration\<close>: \<^verbatim>\<open>migration/\<close> and \<^verbatim>\<open>storage/catalog.py\<close>, the chunked copy with checkpoints and its resumption,
    into tables with the constraints of \<^verbatim>\<open>storage/schema.sql\<close>.
  \<^item> \<open>Gaps\<close>, \<open>GapRepository\<close>: \<^verbatim>\<open>gaps.py\<close>, \<^verbatim>\<open>gap_repository.py\<close> and the \<^verbatim>\<open>gap\<close> commands of \<^verbatim>\<open>cli.py\<close>.

  \<^bold>\<open>Orders.\<close>
  \<^item> \<open>Ledger\<close>: \<^verbatim>\<open>ledger.py\<close>, one record of tables, \<open>run_ledger\<close> over any sequence of calls.
  \<^item> \<open>KisTrading\<close>: \<^verbatim>\<open>kis_trading.py\<close>, which failures are certain; \<open>KisNotice\<close>: \<^verbatim>\<open>kis_notice.py\<close>;
    \<open>KisToken\<close>: \<^verbatim>\<open>adapters/kis_token.py\<close>, over any interleaving of the processes that share the file.
  \<^item> \<open>OrderDesk\<close>: \<^verbatim>\<open>services/order_desk.py\<close>; what other tasks do to the ledger during an await is an argument, so a
    theorem about it holds for every interleaving. The four kinds of answer of a broker call there are the
    four outcomes of \<open>KisTrading\<close>. A login is two steps, before and after the awaited password check, so that
    checks run side by side. The daily limit is an invariant of the ledger's own orders of the day.
  \<^item> \<open>ContestLedger\<close>, \<open>ContestService\<close>: \<^verbatim>\<open>contest.py\<close> and \<^verbatim>\<open>services/contest.py\<close>. \<open>Auth\<close>: \<^verbatim>\<open>auth.py\<close>.

  \<^bold>\<open>State, errors, time.\<close> Each class is a record, each method a definition that takes and gives the record;
  early returns and exceptions are values of option and sum types. Sets of concurrent tasks are either a step
  relation or an explicit list of events, one per stretch of code between two awaits. The clock is an
  argument. Database tables are lists of rows, in the order the statements leave them.

  \<^bold>\<open>Bounds and fuel.\<close> Loops are structural recursions or carry a measure. \<open>Retention\<close> and \<open>Archive\<close> take the points
  at which the loop is interrupted as input (a tick is one inspection of the stop or of the clock), and
  \<open>Retention.prune_returns\<close> shows that the loop ends whatever they are. \<open>Migration\<close> runs \<open>n\<close> steps of a killed
  attempt; the theorem that one more attempt finishes holds for every \<open>n\<close>.

  \<^bold>\<open>Parameters.\<close> Code outside the sources is an argument with named hypotheses where a theorem needs them: SHA-256,
  PBKDF2, the masking key, base64, gzip, URL parsing, the MIME guess, \<^verbatim>\<open>json.loads\<close>, AES and the IEEE bit pattern
  of a double; the order PostgreSQL gives to texts is one too. Each hypothesis is shown satisfiable by a witness on a concrete function.

  \<^bold>\<open>Not modelled.\<close> The sessions of the exchange adapters (sockets and foreign formats; of \<^verbatim>\<open>kis.py\<close> the opening hours are modelled), \<^verbatim>\<open>feedd\<close>, the
  REST and strategy services, configuration, metrics, the runtime, backup (it drives \<^verbatim>\<open>pg_dump\<close>), the display
  commands of \<^verbatim>\<open>cli.py\<close>, offline research under \<^verbatim>\<open>quant/\<close>, deployment scripts, benchmarks, the C++ gateway and the web
  pages: they are I/O, glue over modelled parts, or rest on libraries whose code is not here. Within modelled
  parts listening sockets, TLS, log lines and display dictionaries are left out. NaN and infinities are outside the model, and
  so is the rounding of doubles except in \<open>Indicators\<close>.
\<close>

end
